(* ===== verification/Xv6_Prelude.thy ===== *)
theory Xv6_Prelude
  imports Main "HOL-Library.Word"
begin

unbundle bit_operations_syntax

text \<open>
  Shared vocabulary of the development: the result type of kernel code (a panic, a sleep or
  a value), byte-addressed memory with block reads and writes, little-endian encodings, and
  the generic lemmas on lists and words that the component theories use.
\<close>

section \<open>Machine types\<close>

type_synonym byte = "8 word"
type_synonym u16 = "16 word"
type_synonym u32 = "32 word"
type_synonym u64 = "64 word"

section \<open>Results of kernel code\<close>

text \<open>
  A kernel function either returns, calls \<^verbatim>\<open>panic(s)\<close> (which never returns: the machine
  stops), reaches a \<^verbatim>\<open>sleep\<close> from which only another thread can wake it, runs in a loop
  for ever, or goes outside the bounds of an object, where C gives it no meaning.
\<close>

datatype kerr = Panic string | Blocks | Diverges | Undefined

type_synonym 'a kres = "kerr + 'a"

definition kbind :: "'a kres \<Rightarrow> ('a \<Rightarrow> 'b kres) \<Rightarrow> 'b kres" where
  "kbind m f = (case m of Inl e \<Rightarrow> Inl e | Inr x \<Rightarrow> f x)"

named_theorems kres_simps "rules that take a kernel result apart"

section \<open>Byte-addressed memory\<close>

type_synonym mem = "u64 \<Rightarrow> byte"

definition mem_read :: "mem \<Rightarrow> u64 \<Rightarrow> nat \<Rightarrow> byte list" where
  "mem_read m a n = map (\<lambda>i. m (a + of_nat i)) [0..<n]"

definition mem_write :: "mem \<Rightarrow> u64 \<Rightarrow> byte list \<Rightarrow> mem" where
  "mem_write m a bs = (\<lambda>x. if unat (x - a) < length bs then bs ! unat (x - a) else m x)"

section \<open>Little-endian encodings\<close>

primrec le_bytes :: "nat \<Rightarrow> nat \<Rightarrow> byte list" where
  "le_bytes 0 n = []"
| "le_bytes (Suc k) n = of_nat (n mod 256) # le_bytes k (n div 256)"

primrec le_nat :: "byte list \<Rightarrow> nat" where
  "le_nat [] = 0"
| "le_nat (b # bs) = unat b + 256 * le_nat bs"

definition load32 :: "mem \<Rightarrow> u64 \<Rightarrow> u32" where
  "load32 m a = of_nat (le_nat (mem_read m a 4))"

definition store32 :: "mem \<Rightarrow> u64 \<Rightarrow> u32 \<Rightarrow> mem" where
  "store32 m a v = mem_write m a (le_bytes 4 (unat v))"

definition load64 :: "mem \<Rightarrow> u64 \<Rightarrow> u64" where
  "load64 m a = of_nat (le_nat (mem_read m a 8))"

definition store64 :: "mem \<Rightarrow> u64 \<Rightarrow> u64 \<Rightarrow> mem" where
  "store64 m a v = mem_write m a (le_bytes 8 (unat v))"

text \<open>16-bit and 32-bit fields at a byte offset of a block, and writing bytes at an offset.\<close>

definition get16 :: "byte list \<Rightarrow> nat \<Rightarrow> u16" where
  "get16 d off = of_nat (le_nat (take 2 (drop off d)))"

definition get32 :: "byte list \<Rightarrow> nat \<Rightarrow> u32" where
  "get32 d off = of_nat (le_nat (take 4 (drop off d)))"

definition put32 :: "byte list \<Rightarrow> nat \<Rightarrow> u32 \<Rightarrow> byte list" where
  "put32 d off v = take off d @ le_bytes 4 (unat v) @ drop (off + 4) d"

definition put_bytes :: "byte list \<Rightarrow> nat \<Rightarrow> byte list \<Rightarrow> byte list" where
  "put_bytes d off bs = take off d @ bs @ drop (off + length bs) d"

section \<open>Modes of \<^verbatim>\<open>open\<close>\<close>

text \<open>\<^verbatim>\<open>kernel/fcntl.h\<close>, which the kernel and the user programs share.\<close>

definition O_RDONLY :: u32 where "O_RDONLY = 0"
definition O_WRONLY :: u32 where "O_WRONLY = 1"
definition O_RDWR :: u32 where "O_RDWR = 2"
definition O_CREATE :: u32 where "O_CREATE = 0x200"
definition O_TRUNC :: u32 where "O_TRUNC = 0x400"

section \<open>Lemmas on results\<close>

lemma kbind_simps [simp]:
  "kbind (Inl e) f = Inl e"
  "kbind (Inr x) f = f x"
  by (simp_all add: kbind_def)

lemma kbind_eq_Inr [kres_simps]:
  "kbind m f = Inr y \<longleftrightarrow> (\<exists>x. m = Inr x \<and> f x = Inr y)"
  by (cases m) auto

lemma kbind_eq_Inl [kres_simps]:
  "kbind m f = Inl e \<longleftrightarrow> m = Inl e \<or> (\<exists>x. m = Inr x \<and> f x = Inl e)"
  by (cases m) auto

lemma kbind_assoc: "kbind (kbind m f) g = kbind m (\<lambda>x. kbind (f x) g)"
  by (cases m) auto

lemma kbind_cong [fundef_cong]:
  "m = m' \<Longrightarrow> (\<And>x. m' = Inr x \<Longrightarrow> f x = f' x) \<Longrightarrow> kbind m f = kbind m' f'"
  by (cases m') auto

lemma kbind_split:
  "P (kbind m f) \<longleftrightarrow> (\<forall>e. m = Inl e \<longrightarrow> P (Inl e)) \<and> (\<forall>x. m = Inr x \<longrightarrow> P (f x))"
  by (cases m) auto

section \<open>Lemmas on words\<close>

lemma unat_of_nat_lt: "n < 2 ^ LENGTH('a::len) \<Longrightarrow> unat (of_nat n :: 'a word) = n"
  by (simp add: unat_of_nat take_bit_eq_mod)

lemma unat_lt_pow: "unat (x :: 'a::len word) < 2 ^ LENGTH('a)"
  by (rule unsigned_less)

lemma unat_add_nowrap:
  "unat (x :: 'a::len word) + unat y < 2 ^ LENGTH('a) \<Longrightarrow> unat (x + y) = unat x + unat y"
  by (simp add: unat_word_ariths)

lemma unat_add_of_nat:
  "unat (x :: 'a::len word) + n < 2 ^ LENGTH('a) \<Longrightarrow> unat (x + of_nat n) = unat x + n"
  by (simp add: unat_word_ariths unat_of_nat_lt)

lemma of_nat_word_eq_iff:
  "m < 2 ^ LENGTH('a::len) \<Longrightarrow> n < 2 ^ LENGTH('a) \<Longrightarrow>
   (of_nat m = (of_nat n :: 'a word)) = (m = n)"
  by (metis unat_of_nat_lt)

section \<open>Lists\<close>

lemma find_SomeD: "find P xs = Some x \<Longrightarrow> x \<in> set xs \<and> P x"
  by (auto simp: find_Some_iff)

section \<open>Multiples and rounding\<close>

lemma round_up_least:
  fixes c q a :: nat
  assumes "c dvd q" and "a \<le> q" and "0 < c"
  shows "a + (c - 1) - (a + (c - 1)) mod c \<le> q"
proof -
  have "(a + (c - 1)) div c \<le> (q + (c - 1)) div c"
    using assms(2) by (intro div_le_mono) simp
  also have "\<dots> = q div c"
  proof -
    from assms(1) obtain k where "q = c * k" by (rule dvdE)
    moreover have "(c - 1 + c * k) div c = k + (c - 1) div c"
      using assms(3) by (intro div_mult_self2) simp
    ultimately show ?thesis using assms(3) by (simp add: add.commute)
  qed
  finally have "(a + (c - 1)) div c * c \<le> q div c * c" by (rule mult_le_mono1)
  then show ?thesis using assms(1) by (simp add: minus_mod_eq_div_mult)
qed

lemma round_down_greatest:
  fixes c q a :: nat
  assumes "c dvd q" and "q \<le> a"
  shows "q \<le> a - a mod c"
proof -
  have "q div c * c \<le> a div c * c" using assms(2) by (simp add: div_le_mono)
  then show ?thesis using assms(1) by (simp add: minus_mod_eq_div_mult)
qed

lemma multiples_apart:
  fixes c p q :: nat
  assumes "c dvd p" and "c dvd q" and "p \<noteq> q"
  shows "p + c \<le> q \<or> q + c \<le> p"
proof -
  from assms obtain i j where "p = c * i" "q = c * j" "i \<noteq> j" by (auto elim!: dvdE)
  then consider "Suc i \<le> j" | "Suc j \<le> i" by linarith
  then show ?thesis
  proof cases
    case 1
    then have "c * Suc i \<le> c * j" by (rule mult_le_mono2)
    with \<open>p = c * i\<close> \<open>q = c * j\<close> show ?thesis by simp
  next
    case 2
    then have "c * Suc j \<le> c * i" by (rule mult_le_mono2)
    with \<open>p = c * i\<close> \<open>q = c * j\<close> show ?thesis by simp
  qed
qed

section \<open>Lemmas on memory\<close>

lemma length_mem_read [simp]: "length (mem_read m a n) = n"
  by (simp add: mem_read_def)

lemma mem_read_0 [simp]: "mem_read m a 0 = []"
  by (simp add: mem_read_def)

lemma nth_mem_read [simp]: "i < n \<Longrightarrow> mem_read m a n ! i = m (a + of_nat i)"
  by (simp add: mem_read_def)

lemma mem_write_Nil [simp]: "mem_write m a [] = m"
  by (simp add: mem_write_def)

lemma mem_write_out: "length bs \<le> unat (x - a) \<Longrightarrow> mem_write m a bs x = m x"
  by (simp add: mem_write_def)

lemma mem_write_in:
  "i < length bs \<Longrightarrow> length bs \<le> 2 ^ 64 \<Longrightarrow> mem_write m a bs (a + of_nat i) = bs ! i"
  by (simp add: mem_write_def unat_of_nat_lt)

lemma mem_read_write_same [simp]:
  "length bs \<le> 2 ^ 64 \<Longrightarrow> mem_read (mem_write m a bs) a (length bs) = bs"
  by (rule nth_equalityI) (simp_all add: mem_write_in)

lemma mem_read_write_prefix:
  "n \<le> length bs \<Longrightarrow> length bs \<le> 2 ^ 64 \<Longrightarrow> mem_read (mem_write m a bs) a n = take n bs"
  by (rule nth_equalityI) (simp_all add: mem_write_in)

text \<open>Two memory ranges that do not overlap, and the frame rule for reads.\<close>

definition disjoint_range :: "u64 \<Rightarrow> nat \<Rightarrow> u64 \<Rightarrow> nat \<Rightarrow> bool" where
  "disjoint_range a n b k \<longleftrightarrow> unat a + n \<le> unat b \<or> unat b + k \<le> unat a"

lemma word_sub_unat_ge:
  fixes x b :: u64
  assumes "unat x < unat b \<or> unat b + k \<le> unat x" and "unat b + k \<le> 2 ^ 64"
  shows "k \<le> unat (x - b)"
proof (cases "unat b \<le> unat x")
  case True
  then have "unat (x - b) = unat x - unat b"
    by (simp add: unat_sub_if')
  with assms True show ?thesis by auto
next
  case False
  then have "unat (x - b) = unat x + 2 ^ 64 - unat b"
    by (simp add: unat_sub_if')
  with assms False show ?thesis by linarith
qed

lemma mem_read_write_disjoint:
  assumes "disjoint_range a n b (length bs)"
    and "unat a + n \<le> 2 ^ 64" and "unat b + length bs \<le> 2 ^ 64"
  shows "mem_read (mem_write m b bs) a n = mem_read m a n"
proof (rule nth_equalityI)
  fix i assume "i < length (mem_read (mem_write m b bs) a n)"
  then have i: "i < n" by simp
  with assms(2) have ua: "unat (a + of_nat i) = unat a + i"
    by (intro unat_add_of_nat) simp
  have "length bs \<le> unat (a + of_nat i - b)"
    using assms i by (intro word_sub_unat_ge) (auto simp: disjoint_range_def ua)
  with i show "mem_read (mem_write m b bs) a n ! i = mem_read m a n ! i"
    by (simp add: mem_write_out)
qed simp

section \<open>Lemmas on encodings\<close>

lemma length_le_bytes [simp]: "length (le_bytes k n) = k"
  by (induction k arbitrary: n) auto

lemma le_nat_bound: "le_nat bs < 256 ^ length bs"
proof (induction bs)
  case (Cons b bs)
  have "unat b < 256" using unat_lt_pow [of b] by simp
  with Cons show ?case by simp
qed simp

lemma le_nat_le_bytes: "le_nat (le_bytes k n) = n mod 256 ^ k"
proof (induction k arbitrary: n)
  case (Suc k)
  have "unat (of_nat (n mod 256) :: byte) = n mod 256"
    by (rule unat_of_nat_lt) simp
  with Suc show ?case by (simp add: mod_mult2_eq)
qed simp

lemma le_bytes_le_nat: "length bs = k \<Longrightarrow> le_bytes k (le_nat bs) = bs"
proof (induction bs arbitrary: k)
  case (Cons b bs)
  have "unat b < 256" using unat_lt_pow [of b] by simp
  then have "(unat b + 256 * le_nat bs) mod 256 = unat b"
    and "(unat b + 256 * le_nat bs) div 256 = le_nat bs" by simp_all
  with Cons show ?case by (cases k) auto
qed simp

lemma load64_store64_same [simp]: "load64 (store64 m a v) a = v"
proof -
  have "mem_read (store64 m a v) a 8 = le_bytes 8 (unat v)"
    using mem_read_write_same [of "le_bytes 8 (unat v)" m a] by (simp add: store64_def)
  moreover have "unat v mod 256 ^ 8 = unat v"
    using unat_lt_pow [of v] by simp
  ultimately show ?thesis by (simp add: load64_def le_nat_le_bytes)
qed

lemma load32_store32_same [simp]: "load32 (store32 m a v) a = v"
proof -
  have "mem_read (store32 m a v) a 4 = le_bytes 4 (unat v)"
    using mem_read_write_same [of "le_bytes 4 (unat v)" m a] by (simp add: store32_def)
  moreover have "unat v mod 256 ^ 4 = unat v"
    using unat_lt_pow [of v] by simp
  ultimately show ?thesis by (simp add: load32_def le_nat_le_bytes)
qed

lemma load64_store64_other:
  assumes "disjoint_range a 8 b 8" and "unat a + 8 \<le> 2 ^ 64" and "unat b + 8 \<le> 2 ^ 64"
  shows "load64 (store64 m b v) a = load64 m a"
  using mem_read_write_disjoint [of a 8 b "le_bytes 8 (unat v)" m] assms
  by (simp add: load64_def store64_def)

section \<open>Fields of a block\<close>

lemma length_put32 [simp]: "off + 4 \<le> length d \<Longrightarrow> length (put32 d off v) = length d"
  by (simp add: put32_def)

lemma get32_put32_same: "off + 4 \<le> length d \<Longrightarrow> get32 (put32 d off v) off = v"
proof -
  assume "off + 4 \<le> length d"
  then have "take 4 (drop off (put32 d off v)) = le_bytes 4 (unat v)"
    by (simp add: put32_def)
  moreover have "unat v mod 256 ^ 4 = unat v" using unat_lt_pow [of v] by simp
  ultimately show ?thesis by (simp add: get32_def le_nat_le_bytes)
qed

lemma get32_put32_other:
  assumes "off' + 4 \<le> off \<or> off + 4 \<le> off'" and "off + 4 \<le> length d" and "off' + 4 \<le> length d"
  shows "get32 (put32 d off v) off' = get32 d off'"
proof -
  have "take 4 (drop off' (put32 d off v)) = take 4 (drop off' d)"
  proof (rule nth_equalityI)
    fix i assume "i < length (take 4 (drop off' (put32 d off v)))"
    then have "i < 4" by simp
    then show "take 4 (drop off' (put32 d off v)) ! i = take 4 (drop off' d) ! i"
      using assms by (auto simp: put32_def nth_append)
  qed (use assms in simp)
  then show ?thesis by (simp add: get32_def)
qed

end
