(* ===== verification/Xv6_Riscv.thy ===== *)
theory Xv6_Riscv
  imports Xv6_Prelude
begin

text \<open>
  The memory constants and page-table macros of \<^verbatim>\<open>kernel/riscv.h\<close> and the memory map of
  \<^verbatim>\<open>kernel/memlayout.h\<close>, on 64-bit words, with the bit-level facts the allocator and the
  page-table code rest on: rounding to pages, packing a physical address into a page-table
  entry and reading it back, and the three 9-bit indices of an Sv39 address.
\<close>

section \<open>Definitions\<close>

definition PGSIZE :: u64 where "PGSIZE = 4096"
definition PGSHIFT :: nat where "PGSHIFT = 12"

definition PGROUNDUP :: "u64 \<Rightarrow> u64" where
  "PGROUNDUP sz = (sz + PGSIZE - 1) AND NOT (PGSIZE - 1)"

definition PGROUNDDOWN :: "u64 \<Rightarrow> u64" where
  "PGROUNDDOWN a = a AND NOT (PGSIZE - 1)"

definition PTE_V :: u64 where "PTE_V = push_bit 0 1"
definition PTE_R :: u64 where "PTE_R = push_bit 1 1"
definition PTE_W :: u64 where "PTE_W = push_bit 2 1"
definition PTE_X :: u64 where "PTE_X = push_bit 3 1"
definition PTE_U :: u64 where "PTE_U = push_bit 4 1"

definition PA2PTE :: "u64 \<Rightarrow> u64" where
  "PA2PTE pa = push_bit 10 (drop_bit 12 pa)"

definition PTE2PA :: "u64 \<Rightarrow> u64" where
  "PTE2PA pte = push_bit 12 (drop_bit 10 pte)"

definition PTE_FLAGS :: "u64 \<Rightarrow> u64" where
  "PTE_FLAGS pte = pte AND 0x3FF"

definition PXMASK :: u64 where "PXMASK = 0x1FF"

definition PXSHIFT :: "nat \<Rightarrow> nat" where
  "PXSHIFT level = PGSHIFT + 9 * level"

definition PX :: "nat \<Rightarrow> u64 \<Rightarrow> u64" where
  "PX level va = drop_bit (PXSHIFT level) va AND PXMASK"

definition MAXVA :: u64 where
  "MAXVA = push_bit (9 + 9 + 9 + 12 - 1) 1"

definition KERNBASE :: u64 where "KERNBASE = 0x80000000"
definition PHYSTOP :: u64 where "PHYSTOP = KERNBASE + 128 * 1024 * 1024"
definition TRAMPOLINE :: u64 where "TRAMPOLINE = MAXVA - PGSIZE"
definition TRAPFRAME :: u64 where "TRAPFRAME = TRAMPOLINE - PGSIZE"

definition KSTACK :: "nat \<Rightarrow> u64" where
  "KSTACK p = TRAMPOLINE - (of_nat p + 1) * 2 * PGSIZE"

text \<open>A page-aligned address.\<close>

definition page_aligned :: "u64 \<Rightarrow> bool" where
  "page_aligned p \<longleftrightarrow> p mod PGSIZE = 0"

section \<open>Rounding\<close>

lemma page_aligned_unat: "page_aligned p \<longleftrightarrow> unat p mod 4096 = 0"
  by (simp add: page_aligned_def PGSIZE_def word_unat_eq_iff unat_mod)

lemma mask12: "(4095 :: u64) = mask 12"
  by (simp add: mask_eq_exp_minus_1)

lemma mask10: "(1023 :: u64) = mask 10"
  by (simp add: mask_eq_exp_minus_1)

lemma mask9: "(511 :: u64) = mask 9"
  by (simp add: mask_eq_exp_minus_1)

lemma PGSIZE_minus_1: "PGSIZE - 1 = 4095"
  by (simp add: PGSIZE_def)

lemma unat_PGSIZE [simp]: "unat PGSIZE = 4096"
  by (simp add: PGSIZE_def)

lemma and_not_mask12: "(a :: u64) AND NOT 4095 = push_bit 12 (drop_bit 12 a)"
  unfolding mask12 by (rule bit_word_eqI) (auto simp: bit_simps)

lemma unat_and_not_mask12: "unat ((a :: u64) AND NOT 4095) = unat a - unat a mod 4096"
proof -
  have e: "a AND NOT 4095 = a - take_bit 12 a"
    unfolding and_not_mask12 using bits_ident [of 12 a] by (simp add: eq_diff_eq)
  have t: "unat (take_bit 12 a) = unat a mod 4096"
    by (simp add: unsigned_take_bit_eq take_bit_eq_mod unat_mod)
  have "take_bit 12 a \<le> a" by (simp add: word_le_nat_alt t)
  then show ?thesis unfolding e by (simp add: unat_sub t)
qed

lemma unat_PGROUNDDOWN: "unat (PGROUNDDOWN a) = unat a - unat a mod 4096"
  unfolding PGROUNDDOWN_def PGSIZE_minus_1 by (rule unat_and_not_mask12)

lemma unat_PGROUNDUP:
  assumes "unat a + 4095 < 2 ^ 64"
  shows "unat (PGROUNDUP a) = unat a + 4095 - (unat a + 4095) mod 4096"
proof -
  have "PGROUNDUP a = (a + 4095) AND NOT 4095"
    unfolding PGROUNDUP_def PGSIZE_minus_1 by (simp add: PGSIZE_def add.commute)
  moreover have "unat (a + 4095) = unat a + 4095"
    using assms unat_add_of_nat [of a 4095] by simp
  ultimately show ?thesis by (simp only: unat_and_not_mask12)
qed

lemma page_aligned_PGROUNDDOWN [simp]: "page_aligned (PGROUNDDOWN a)"
  by (simp add: page_aligned_unat unat_PGROUNDDOWN mod_eq_0_iff_dvd)

lemma page_aligned_PGROUNDUP [simp]: "page_aligned (PGROUNDUP a)"
  unfolding PGROUNDUP_def PGSIZE_minus_1 page_aligned_unat unat_and_not_mask12
  by (simp add: mod_eq_0_iff_dvd)

text \<open>
  \<^verbatim>\<open>PGROUNDUP\<close> rounds to the least page boundary at or above its argument and
  \<^verbatim>\<open>PGROUNDDOWN\<close> to the greatest at or below it, for every size below the last page of
  the address space.
\<close>

theorem page_rounding:
  assumes "unat a + 4095 < 2 ^ 64"
  shows "page_aligned (PGROUNDUP a) \<and> a \<le> PGROUNDUP a \<and>
         (\<forall>q. page_aligned q \<and> a \<le> q \<longrightarrow> PGROUNDUP a \<le> q) \<and>
         page_aligned (PGROUNDDOWN a) \<and> PGROUNDDOWN a \<le> a \<and>
         (\<forall>q. page_aligned q \<and> q \<le> a \<longrightarrow> q \<le> PGROUNDDOWN a)"
proof -
  have up: "unat (PGROUNDUP a) = unat a + 4095 - (unat a + 4095) mod 4096"
    using assms by (rule unat_PGROUNDUP)
  have "PGROUNDUP a \<le> q" if "page_aligned q" "a \<le> q" for q
  proof -
    from that have "unat q mod 4096 = 0" "unat a \<le> unat q"
      by (simp_all add: page_aligned_unat word_le_nat_alt)
    then have "unat a + 4095 - (unat a + 4095) mod 4096 \<le> unat q"
      using round_up_least [of 4096 "unat q" "unat a"] by (simp add: mod_eq_0_iff_dvd)
    with up show ?thesis by (simp add: word_le_nat_alt)
  qed
  moreover have "q \<le> PGROUNDDOWN a" if "page_aligned q" "q \<le> a" for q
  proof -
    from that have "unat q mod 4096 = 0" "unat q \<le> unat a"
      by (simp_all add: page_aligned_unat word_le_nat_alt)
    then have "unat q \<le> unat a - unat a mod 4096"
      using round_down_greatest [of 4096 "unat q" "unat a"] by (simp add: mod_eq_0_iff_dvd)
    then show ?thesis by (simp add: word_le_nat_alt unat_PGROUNDDOWN)
  qed
  moreover have "a \<le> PGROUNDUP a"
    unfolding word_le_nat_alt up using mod_less_divisor [of 4096 "unat a + 4095"] by linarith
  moreover have "PGROUNDDOWN a \<le> a"
    by (simp add: word_le_nat_alt unat_PGROUNDDOWN)
  ultimately show ?thesis by simp
qed

theorem page_rounding_witness:
  "PGROUNDUP 5000 = 8192 \<and> PGROUNDDOWN 5000 = 4096 \<and> 5000 \<le> PGROUNDUP 5000 \<and>
   page_aligned (PGROUNDUP 5000)"
  using page_rounding [of 5000] by (simp add: PGROUNDUP_def PGROUNDDOWN_def PGSIZE_def)

lemma aligned_apart:
  assumes "page_aligned p" and "page_aligned q" and "p \<noteq> q"
  shows "unat p + 4096 \<le> unat q \<or> unat q + 4096 \<le> unat p"
proof -
  have "unat p \<noteq> unat q" using assms(3) by (simp add: word_unat_eq_iff)
  with assms(1,2) show ?thesis
    unfolding page_aligned_unat mod_eq_0_iff_dvd by (rule multiples_apart)
qed

lemma aligned_room: "page_aligned p \<Longrightarrow> unat p + 4096 \<le> 2 ^ 64"
  using unat_lt_pow [of p] multiples_apart [of 4096 "unat p" "2 ^ 64"]
  by (simp add: page_aligned_unat mod_eq_0_iff_dvd)

section \<open>Page-table entries\<close>

lemma bit_below_pow: "unat (x :: 'a::len word) < 2 ^ k \<Longrightarrow> bit x n \<Longrightarrow> n < k"
proof (rule ccontr)
  assume a: "unat x < 2 ^ k" "bit x n" "\<not> n < k"
  have "(2 :: nat) ^ k \<le> 2 ^ n" using a(3) by (simp add: power_increasing)
  with a(1) have "unat x div 2 ^ n = 0" by (intro div_less) linarith
  moreover have "bit (unat x) n" using a(2) by (simp add: bit_unsigned_iff)
  ultimately show False by (simp add: bit_iff_odd)
qed

lemma page_aligned_bits: "page_aligned p \<longleftrightarrow> push_bit 12 (drop_bit 12 p) = p"
proof -
  have "push_bit 12 (drop_bit 12 p) = p \<longleftrightarrow> unat (p AND NOT 4095) = unat p"
    unfolding and_not_mask12 word_unat_eq_iff ..
  also have "\<dots> \<longleftrightarrow> unat p mod 4096 = 0"
    unfolding unat_and_not_mask12 using mod_less_eq_dividend [of "unat p" 4096] by linarith
  finally show ?thesis by (simp add: page_aligned_unat)
qed

lemma page_aligned_bit: "page_aligned p \<Longrightarrow> bit p n \<Longrightarrow> 12 \<le> n"
proof -
  assume "page_aligned p" and "bit p n"
  then have "bit (push_bit 12 (drop_bit 12 p)) n" by (simp add: page_aligned_bits)
  then show "12 \<le> n" by (simp add: bit_simps)
qed

lemma PTE2PA_PA2PTE:
  assumes "page_aligned pa" and "unat pa < 2 ^ 56" and "unat fl < 2 ^ 10"
  shows "PTE2PA (PA2PTE pa OR fl) = pa" and "PTE_FLAGS (PA2PTE pa OR fl) = fl"
proof -
  note bits = bit_below_pow [OF assms(2)] bit_below_pow [OF assms(3)] page_aligned_bit [OF assms(1)]
  show "PTE2PA (PA2PTE pa OR fl) = pa"
    unfolding PTE2PA_def PA2PTE_def
  proof (rule bit_word_eqI)
    fix n
    show "bit (push_bit 12 (drop_bit 10 (push_bit 10 (drop_bit 12 pa) OR fl))) n = bit pa n"
    proof (cases "12 \<le> n")
      case True
      then have "12 + (n - 12) = n" "\<not> bit fl (10 + (n - 12))" using bits(2) [of "10 + (n - 12)"] by auto
      with True show ?thesis using bits(1) [of n] by (auto simp: bit_simps)
    next
      case False
      then show ?thesis using bits(3) [of n] by (auto simp: bit_simps)
    qed
  qed
  show "PTE_FLAGS (PA2PTE pa OR fl) = fl"
    unfolding PTE_FLAGS_def PA2PTE_def mask10
    by (rule bit_word_eqI) (auto simp: bit_simps dest: bits)
qed

text \<open>
  Packing a page-aligned physical address below \<open>2\<^sup>5\<^sup>6\<close> into a page-table entry with any
  ten flag bits loses nothing: \<^verbatim>\<open>PTE2PA\<close> gives the address back and \<^verbatim>\<open>PTE_FLAGS\<close> the
  flags.
\<close>

theorem pte_roundtrip:
  assumes "page_aligned pa" and "unat pa < 2 ^ 56" and "unat fl < 2 ^ 10"
  shows "PTE2PA (PA2PTE pa OR fl) = pa \<and> PTE_FLAGS (PA2PTE pa OR fl) = fl"
  using PTE2PA_PA2PTE [OF assms] by simp

theorem pte_roundtrip_witness:
  "PTE2PA (PA2PTE 0x80021000 OR 7) = 0x80021000 \<and> PTE_FLAGS (PA2PTE 0x80021000 OR 7) = 7"
  by (rule pte_roundtrip) (simp_all add: page_aligned_def PGSIZE_def)

lemma PX_less: "unat (PX level va) < 512"
proof -
  have "drop_bit (PXSHIFT level) va AND mask 9 < 2 ^ 9" by (rule and_mask_less') simp
  then show ?thesis by (simp add: PX_def PXMASK_def mask9 word_less_nat_alt)
qed

lemma bit_PX: "bit (PX level va) n \<longleftrightarrow> n < 9 \<and> bit va (12 + 9 * level + n)"
  unfolding PX_def PXMASK_def mask9 PXSHIFT_def PGSHIFT_def
  by (auto simp: bit_simps)

lemma PX_inj:
  assumes "page_aligned va" and "page_aligned va'" and "va < MAXVA" and "va' < MAXVA"
    and "PX 2 va = PX 2 va'" and "PX 1 va = PX 1 va'" and "PX 0 va = PX 0 va'"
  shows "va = va'"
proof (rule bit_word_eqI)
  fix n :: nat
  have lt: "unat va < 2 ^ 38" "unat va' < 2 ^ 38"
    using assms(3,4) by (simp_all add: MAXVA_def word_less_nat_alt)
  have px: "bit va (12 + 9 * l + k) = bit va' (12 + 9 * l + k)" if "l < 3" "k < 9" for l k
  proof -
    from that(1) have "PX l va = PX l va'" using assms(5-7) by (auto simp: less_Suc_eq numeral_3_eq_3 numeral_2_eq_2)
    then have "bit (PX l va) k = bit (PX l va') k" by simp
    with that show ?thesis by (simp add: bit_PX)
  qed
  consider "n < 12" | "38 \<le> n" | l k where "l < 3" "k < 9" "n = 12 + 9 * l + k"
  proof (cases "n < 12 \<or> 38 \<le> n")
    case False
    then have "(n - 12) div 9 < 3" "(n - 12) mod 9 < 9" "n = 12 + 9 * ((n - 12) div 9) + (n - 12) mod 9"
      by auto
    then show ?thesis by (rule that(3))
  qed (use that in auto)
  then show "bit va n = bit va' n"
  proof cases
    case 1
    then show ?thesis using assms(1,2) by (auto dest: page_aligned_bit)
  next
    case 2
    then show ?thesis using bit_below_pow [OF lt(1)] bit_below_pow [OF lt(2)] by fastforce
  next
    case 3
    then show ?thesis using px by simp
  qed
qed

text \<open>
  Below \<^verbatim>\<open>MAXVA\<close> the three page-table indices and the page offset identify a virtual
  address: two page-aligned addresses with the same indices at the three levels are equal.
\<close>

theorem PX_injective:
  assumes "page_aligned va" and "page_aligned va'" and "va < MAXVA" and "va' < MAXVA"
    and "PX 2 va = PX 2 va'" and "PX 1 va = PX 1 va'" and "PX 0 va = PX 0 va'"
  shows "va = va'"
  using assms by (rule PX_inj)

theorem PX_injective_witness:
  "(0x3000 :: u64) < MAXVA \<and> page_aligned 0x3000 \<and> (0x3000 :: u64) = 0x2000 + 0x1000"
proof -
  have "page_aligned 0x3000" "(0x3000 :: u64) < MAXVA"
    by (simp_all add: page_aligned_def PGSIZE_def MAXVA_def)
  then show ?thesis using PX_injective [of "0x3000" "0x2000 + 0x1000"] by simp
qed

end
