(* ===== verification/Xv6_String.thy ===== *)
theory Xv6_String
  imports Xv6_Prelude
begin

text \<open>
  The kernel's string and block-memory routines, \<^verbatim>\<open>kernel/string.c\<close>, as loops over
  byte-addressed memory. Pointers are 64-bit words and pointer increments wrap like the
  machine's; a \<^verbatim>\<open>uint\<close> or \<^verbatim>\<open>int\<close> count is read once as the number of iterations left.
  A C string is described by \<open>cstr\<close>: its bytes, none of them zero, then a NUL.
\<close>

section \<open>Operations\<close>

primrec memset_loop :: "mem \<Rightarrow> u64 \<Rightarrow> byte \<Rightarrow> nat \<Rightarrow> nat \<Rightarrow> mem" where
  "memset_loop m cdst c i 0 = m"
| "memset_loop m cdst c i (Suc k) = memset_loop (m(cdst + of_nat i := c)) cdst c (Suc i) k"

definition memset :: "mem \<Rightarrow> u64 \<Rightarrow> u32 \<Rightarrow> u32 \<Rightarrow> mem" where
  "memset m dst c n = memset_loop m dst (ucast c) 0 (unat n)"

primrec memcmp_loop :: "mem \<Rightarrow> u64 \<Rightarrow> u64 \<Rightarrow> nat \<Rightarrow> int" where
  "memcmp_loop m s1 s2 0 = 0"
| "memcmp_loop m s1 s2 (Suc n) =
     (if m s1 \<noteq> m s2 then uint (m s1) - uint (m s2) else memcmp_loop m (s1 + 1) (s2 + 1) n)"

definition memcmp :: "mem \<Rightarrow> u64 \<Rightarrow> u64 \<Rightarrow> u32 \<Rightarrow> int" where
  "memcmp m v1 v2 n = memcmp_loop m v1 v2 (unat n)"

primrec copy_fwd :: "mem \<Rightarrow> u64 \<Rightarrow> u64 \<Rightarrow> nat \<Rightarrow> mem" where
  "copy_fwd m d s 0 = m"
| "copy_fwd m d s (Suc n) = copy_fwd (m(d := m s)) (d + 1) (s + 1) n"

primrec copy_bwd :: "mem \<Rightarrow> u64 \<Rightarrow> u64 \<Rightarrow> nat \<Rightarrow> mem" where
  "copy_bwd m d s 0 = m"
| "copy_bwd m d s (Suc n) = copy_bwd (m(d - 1 := m (s - 1))) (d - 1) (s - 1) n"

definition memmove :: "mem \<Rightarrow> u64 \<Rightarrow> u64 \<Rightarrow> u32 \<Rightarrow> mem" where
  "memmove m dst src n =
     (if n = 0 then m
      else if src < dst \<and> dst < src + ucast n
      then copy_bwd m (dst + ucast n) (src + ucast n) (unat n)
      else copy_fwd m dst src (unat n))"

definition memcpy :: "mem \<Rightarrow> u64 \<Rightarrow> u64 \<Rightarrow> u32 \<Rightarrow> mem" where
  "memcpy m dst src n = memmove m dst src n"

primrec strncmp_loop :: "mem \<Rightarrow> u64 \<Rightarrow> u64 \<Rightarrow> nat \<Rightarrow> int" where
  "strncmp_loop m p q 0 = 0"
| "strncmp_loop m p q (Suc n) =
     (if m p \<noteq> 0 \<and> m p = m q then strncmp_loop m (p + 1) (q + 1) n
      else uint (m p) - uint (m q))"

definition strncmp :: "mem \<Rightarrow> u64 \<Rightarrow> u64 \<Rightarrow> u32 \<Rightarrow> int" where
  "strncmp m p q n = strncmp_loop m p q (unat n)"

text \<open>
  \<open>strncpy_copy\<close> is the first loop: it stops when the count runs out or after copying a
  NUL, and gives back the destination pointer and the count still left.
\<close>

primrec strncpy_copy :: "mem \<Rightarrow> u64 \<Rightarrow> u64 \<Rightarrow> nat \<Rightarrow> mem \<times> u64 \<times> nat" where
  "strncpy_copy m s t 0 = (m, s, 0)"
| "strncpy_copy m s t (Suc n) =
     (if m t \<noteq> 0 then strncpy_copy (m(s := m t)) (s + 1) (t + 1) n
      else (m(s := m t), s + 1, n))"

primrec zero_fill :: "mem \<Rightarrow> u64 \<Rightarrow> nat \<Rightarrow> mem" where
  "zero_fill m s 0 = m"
| "zero_fill m s (Suc n) = zero_fill (m(s := 0)) (s + 1) n"

definition strncpy :: "mem \<Rightarrow> u64 \<Rightarrow> u64 \<Rightarrow> int \<Rightarrow> mem" where
  "strncpy m s t n = (case strncpy_copy m s t (nat n) of (m', s', k) \<Rightarrow> zero_fill m' s' k)"

definition safestrcpy :: "mem \<Rightarrow> u64 \<Rightarrow> u64 \<Rightarrow> int \<Rightarrow> mem" where
  "safestrcpy m s t n =
     (if n \<le> 0 then m
      else case strncpy_copy m s t (nat (n - 1)) of (m', s', k) \<Rightarrow> m'(s' := 0))"

partial_function (option) strlen_loop :: "mem \<Rightarrow> u64 \<Rightarrow> nat \<Rightarrow> nat option" where
  "strlen_loop m s n = (if m (s + of_nat n) = 0 then Some n else strlen_loop m s (Suc n))"

definition strlen :: "mem \<Rightarrow> u64 \<Rightarrow> nat option" where
  "strlen m s = strlen_loop m s 0"

definition cstr :: "mem \<Rightarrow> u64 \<Rightarrow> byte list \<Rightarrow> bool" where
  "cstr m p cs \<longleftrightarrow> mem_read m p (Suc (length cs)) = cs @ [0] \<and> 0 \<notin> set cs"

text \<open>The bytes a bounded string routine sees: up to the NUL or \<open>n\<close> of them.\<close>

definition strn :: "mem \<Rightarrow> u64 \<Rightarrow> nat \<Rightarrow> byte list" where
  "strn m p n = takeWhile (\<lambda>b. b \<noteq> 0) (mem_read m p n)"

section \<open>Writes, one byte at a time\<close>

lemma mem_write_Cons:
  assumes "length bs < 2 ^ 64"
  shows "mem_write m a (b # bs) = mem_write (m(a := b)) (a + 1) bs"
proof
  fix x
  show "mem_write m a (b # bs) x = mem_write (m(a := b)) (a + 1) bs x"
  proof (cases "x = a")
    case True
    have "a - (a + 1) = - 1" by simp
    then have "unat (a - (a + 1)) = 2 ^ 64 - 1" by (simp add: unsigned_minus_1_eq_mask mask_eq_exp_minus_1)
    with assms have "\<not> unat (x - (a + 1)) < length bs" unfolding True by linarith
    with True show ?thesis by (simp add: mem_write_def)
  next
    case False
    then have "x - a \<noteq> 0" by simp
    then have "unat (x - a) = Suc (unat (x - a - 1))"
      by (simp add: unat_minus_one unat_gt_0)
    then have "unat (x - a) = Suc (unat (x - (a + 1)))" by (simp add: diff_diff_eq)
    with False show ?thesis by (simp add: mem_write_def)
  qed
qed

lemma mem_read_Suc: "mem_read m a (Suc n) = m a # mem_read m (a + 1) n"
  by (rule nth_equalityI) (auto simp: nth_Cons ac_simps split: nat.split)

lemma mem_read_snoc: "mem_read m a (Suc n) = mem_read m a n @ [m (a + of_nat n)]"
  by (simp add: mem_read_def)

lemma mem_read_upd_other:
  "(\<And>i. i < n \<Longrightarrow> a + of_nat i \<noteq> x) \<Longrightarrow> mem_read (m(x := v)) a n = mem_read m a n"
  by (simp add: mem_read_def)

section \<open>Block moves\<close>

text \<open>
  A forward copy is right unless the destination starts inside the source: the distance
  \<open>d - s\<close>, read modulo the address space, is zero or at least the length. A backward copy
  is right unless the source starts inside the destination.
\<close>

lemma copy_fwd_spec:
  "n \<le> 2 ^ 64 \<Longrightarrow> d = s \<or> n \<le> unat (d - s) \<Longrightarrow>
   copy_fwd m d s n = mem_write m d (mem_read m s n)"
proof (induction n arbitrary: m d s)
  case (Suc n)
  have off: "s + 1 + of_nat i \<noteq> d" if "i < n" for i
  proof
    assume "s + 1 + of_nat i = d"
    then have "d - s = of_nat (Suc i)" by auto
    moreover have "unat (of_nat (Suc i) :: u64) = Suc i"
      using that Suc.prems(1) by (intro unat_of_nat_lt) simp
    ultimately have "unat (d - s) = Suc i" by simp
    with that Suc.prems(2) show False by auto
  qed
  have "copy_fwd m d s (Suc n) =
      mem_write (m(d := m s)) (d + 1) (mem_read (m(d := m s)) (s + 1) n)"
    using Suc.prems by (auto intro!: Suc.IH)
  also have "mem_read (m(d := m s)) (s + 1) n = mem_read m (s + 1) n"
    using off by (rule mem_read_upd_other)
  also have "mem_write (m(d := m s)) (d + 1) \<dots> = mem_write m d (mem_read m s (Suc n))"
    using Suc.prems(1) by (simp add: mem_read_Suc mem_write_Cons)
  finally show ?case .
qed simp

lemma mem_write_snoc:
  assumes "length bs < 2 ^ 64"
  shows "mem_write m a (bs @ [b]) = mem_write (m(a + of_nat (length bs) := b)) a bs"
proof
  fix x
  have len: "unat (of_nat (length bs) :: u64) = length bs"
    using assms by (simp add: unat_of_nat_lt)
  have eq: "x = a + of_nat (length bs) \<longleftrightarrow> unat (x - a) = length bs"
    by (metis add.commute diff_add_cancel diff_eq_eq len word_unat_eq_iff)
  show "mem_write m a (bs @ [b]) x = mem_write (m(a + of_nat (length bs) := b)) a bs x"
    using eq by (auto simp: mem_write_def nth_append)
qed

lemma copy_bwd_spec:
  "n < 2 ^ 64 \<Longrightarrow> d = s \<or> n \<le> unat (s - d) \<Longrightarrow>
   copy_bwd m (d + of_nat n) (s + of_nat n) n = mem_write m d (mem_read m s n)"
proof (induction n arbitrary: m)
  case (Suc n)
  let ?m = "m(d + of_nat n := m (s + of_nat n))"
  have off: "s + of_nat i \<noteq> d + of_nat n" if "i < n" for i
  proof
    assume "s + of_nat i = d + of_nat n"
    then have "s - d = of_nat (n - i)" using that by (simp add: algebra_simps of_nat_diff)
    moreover have "unat (of_nat (n - i) :: u64) = n - i"
      using Suc.prems(1) by (intro unat_of_nat_lt) simp
    ultimately have "unat (s - d) = n - i" by simp
    with that Suc.prems(2) show False by auto
  qed
  have "copy_bwd m (d + of_nat (Suc n)) (s + of_nat (Suc n)) (Suc n) =
      copy_bwd ?m (d + of_nat n) (s + of_nat n) n" by (simp add: algebra_simps)
  also have "\<dots> = mem_write ?m d (mem_read ?m s n)"
    using Suc.prems by (intro Suc.IH) auto
  also have "mem_read ?m s n = mem_read m s n"
    using off by (rule mem_read_upd_other)
  also have "mem_write ?m d \<dots> = mem_write m d (mem_read m s (Suc n))"
    using Suc.prems(1) by (simp add: mem_read_snoc mem_write_snoc)
  finally show ?case .
qed simp

lemma memset_loop_spec:
  "k + i \<le> 2 ^ 64 \<Longrightarrow> memset_loop m d c i k = mem_write m (d + of_nat i) (replicate k c)"
proof (induction k arbitrary: m i)
  case (Suc k)
  have "memset_loop m d c i (Suc k) =
      mem_write (m(d + of_nat i := c)) (d + of_nat (Suc i)) (replicate k c)"
    using Suc.prems by (simp add: Suc.IH fun_upd_def)
  also have "\<dots> = mem_write m (d + of_nat i) (replicate (Suc k) c)"
    using Suc.prems by (simp add: mem_write_Cons ac_simps)
  finally show ?case .
qed simp

lemma memset_spec: "memset m dst c n = mem_write m dst (replicate (unat n) (ucast c))"
  using unat_lt_pow [of n] by (simp add: memset_def memset_loop_spec)

lemma memmove_spec:
  assumes "unat src + unat n < 2 ^ 64"
  shows "memmove m dst src n = mem_write m dst (mem_read m src (unat n))"
proof -
  have n: "unat n < 2 ^ 32" using unat_lt_pow [of n] by simp
  have sn: "unat (src + ucast n) = unat src + unat n"
    using assms unat_add_of_nat [of src "unat n"] by simp
  consider "n = 0" | "n \<noteq> 0" "src < dst" "dst < src + ucast n"
    | "n \<noteq> 0" "src < dst" "\<not> dst < src + ucast n" | "n \<noteq> 0" "\<not> src < dst"
    by blast
  then show ?thesis
  proof cases
    case 1
    then show ?thesis by (simp add: memmove_def mem_read_def)
  next
    case 2
    then have "unat (src - dst) = unat src + 2 ^ 64 - unat dst"
      by (simp add: word_less_nat_alt unat_sub_if')
    with 2 sn n have "unat n \<le> unat (src - dst)"
      by (simp add: word_less_nat_alt)
    then have "copy_bwd m (dst + of_nat (unat n)) (src + of_nat (unat n)) (unat n) =
        mem_write m dst (mem_read m src (unat n))"
      using n by (intro copy_bwd_spec) auto
    with 2 show ?thesis by (simp add: memmove_def)
  next
    case 3
    then have "unat n \<le> unat (dst - src)"
      using sn by (simp add: word_less_nat_alt unat_sub_if')
    with 3 n show ?thesis by (simp add: memmove_def copy_fwd_spec)
  next
    case 4
    have "dst = src \<or> unat n \<le> unat (dst - src)"
    proof (cases "dst = src")
      case False
      with 4 have "unat (dst - src) = unat dst + 2 ^ 64 - unat src"
        by (simp add: word_less_nat_alt unat_sub_if' word_unat_eq_iff)
      with assms show ?thesis by linarith
    qed simp
    with 4 n show ?thesis by (simp add: memmove_def copy_fwd_spec)
  qed
qed

text \<open>
  \<^verbatim>\<open>memmove\<close> is correct for overlapping regions: whatever direction it picks, the
  destination ends up with the bytes the source held before the call and every byte outside
  the destination is unchanged, provided the source range does not run past the end of the
  address space.
\<close>

theorem memmove_correct:
  assumes "unat src + unat n < 2 ^ 64"
  shows "memmove m dst src n = mem_write m dst (mem_read m src (unat n))"
  using assms by (rule memmove_spec)

theorem memmove_correct_witness:
  "mem_read (memmove ((\<lambda>_. 0)(100 := 1, 101 := 2, 102 := 3)) 101 100 3) 101 3 = [1, 2, 3]"
  using memmove_correct [of 100 3 "(\<lambda>_. 0)(100 := 1, 101 := 2, 102 := 3)" 101]
  by (simp add: mem_write_def mem_read_def upt_rec)

section \<open>Strings\<close>

lemma strn_0 [simp]: "strn m p 0 = []"
  by (simp add: strn_def)

lemma strn_Suc: "strn m p (Suc n) = (if m p = 0 then [] else m p # strn m (p + 1) n)"
  by (simp add: strn_def mem_read_Suc)

lemma length_strn_le: "length (strn m p n) \<le> n"
  by (metis length_mem_read length_takeWhile_le strn_def)

lemma strn_nonzero: "0 \<notin> set (strn m p n)"
  by (auto simp: strn_def dest: set_takeWhileD)

lemma strn_upd_other:
  "(\<And>i. i < n \<Longrightarrow> p + of_nat i \<noteq> x) \<Longrightarrow> strn (m(x := v)) p n = strn m p n"
  by (simp add: strn_def mem_read_upd_other)

lemma cstr_strn: "cstr m p cs \<Longrightarrow> length cs < n \<Longrightarrow> strn m p n = cs"
proof (induction cs arbitrary: p n)
  case Nil
  then show ?case by (cases n) (auto simp: cstr_def mem_read_Suc strn_Suc)
next
  case (Cons c cs)
  from Cons.prems obtain k where k: "n = Suc k" "length cs < k" by (cases n) auto
  from Cons.prems have "m p = c" "c \<noteq> 0" "cstr m (p + 1) cs"
    by (auto simp: cstr_def mem_read_Suc)
  with Cons.IH k show ?case by (simp add: strn_Suc)
qed

lemma strlen_loop_cstr:
  "cstr m (p + of_nat k) cs \<Longrightarrow> strlen_loop m p k = Some (k + length cs)"
proof (induction cs arbitrary: k)
  case Nil
  then show ?case by (simp add: strlen_loop.simps cstr_def mem_read_Suc)
next
  case (Cons c cs)
  then have "m (p + of_nat k) \<noteq> 0" and tl: "cstr m (p + of_nat (Suc k)) cs"
    by (auto simp: cstr_def mem_read_Suc ac_simps)
  then have "strlen_loop m p k = strlen_loop m p (Suc k)"
    by (subst strlen_loop.simps) simp
  with Cons.IH [OF tl] show ?case by simp
qed

text \<open>
  \<^verbatim>\<open>strlen\<close> returns on every NUL-terminated string, with the number of bytes before
  the NUL.
\<close>

theorem strlen_correct:
  assumes "cstr m p cs"
  shows "strlen m p = Some (length cs)"
  using strlen_loop_cstr [of m p 0 cs] assms by (simp add: strlen_def)

theorem strlen_correct_witness:
  "cstr ((\<lambda>_. 0)(100 := 104, 101 := 105)) 100 [104, 105] \<and>
   strlen ((\<lambda>_. 0)(100 := 104, 101 := 105)) 100 = Some 2"
proof -
  have "cstr ((\<lambda>_. 0)(100 := 104, 101 := 105)) 100 [104, 105]"
    by (simp add: cstr_def mem_read_def upt_rec)
  then show ?thesis
    using strlen_correct [of "(\<lambda>_. 0)(100 := 104, 101 := 105)" 100 "[104, 105]"] by simp
qed

lemma memcmp_loop_eq_0: "memcmp_loop m p q n = 0 \<longleftrightarrow> mem_read m p n = mem_read m q n"
  by (induction n arbitrary: p q) (auto simp: mem_read_Suc word_uint_eq_iff)

lemma strncmp_loop_eq_0: "strncmp_loop m p q n = 0 \<longleftrightarrow> strn m p n = strn m q n"
  by (induction n arbitrary: p q) (auto simp: strn_Suc word_uint_eq_iff)

text \<open>
  \<^verbatim>\<open>strncmp\<close> answers 0 exactly when the two strings, cut at \<open>n\<close> bytes or at their
  NUL, are the same; \<^verbatim>\<open>memcmp\<close> answers 0 exactly when the two blocks are the same.
\<close>

theorem strncmp_memcmp_zero:
  "(strncmp m p q n = 0) = (strn m p (unat n) = strn m q (unat n)) \<and>
   (memcmp m p q n = 0) = (mem_read m p (unat n) = mem_read m q (unat n))"
  by (simp add: strncmp_def memcmp_def strncmp_loop_eq_0 memcmp_loop_eq_0)

lemma zero_fill_spec: "n \<le> 2 ^ 64 \<Longrightarrow> zero_fill m s n = mem_write m s (replicate n 0)"
  by (induction n arbitrary: m s) (simp_all add: mem_write_Cons fun_upd_def)

lemma strncpy_copy_spec:
  "n \<le> 2 ^ 64 \<Longrightarrow> s = t \<or> n \<le> unat (s - t) \<Longrightarrow>
   strncpy_copy m s t n =
     (let cs = strn m t n in
      if length cs < n
      then (mem_write m s (cs @ [0]), s + of_nat (Suc (length cs)), n - Suc (length cs))
      else (mem_write m s cs, s + of_nat n, 0))"
proof (induction n arbitrary: m s t)
  case (Suc n)
  let ?m = "m(s := m t)"
  have off: "t + 1 + of_nat i \<noteq> s" if "i < n" for i
  proof
    assume "t + 1 + of_nat i = s"
    then have "s - t = of_nat (Suc i)" by auto
    moreover have "unat (of_nat (Suc i) :: u64) = Suc i"
      using that Suc.prems(1) by (intro unat_of_nat_lt) simp
    ultimately have "unat (s - t) = Suc i" by simp
    with that Suc.prems(2) show False by auto
  qed
  have len: "length (strn m (t + 1) n) \<le> n" by (rule length_strn_le)
  have "strn ?m (t + 1) n = strn m (t + 1) n" using off by (rule strn_upd_other)
  moreover have "s + 1 = t + 1 \<or> n \<le> unat (s + 1 - (t + 1))" using Suc.prems(2) by auto
  ultimately show ?case
    using Suc.prems(1) len
    by (simp add: Suc.IH strn_Suc mem_write_Cons Let_def ac_simps del: fun_upd_apply)
qed (simp add: Let_def)

lemma mem_write_append:
  "length bs + length cs \<le> 2 ^ 64 \<Longrightarrow>
   mem_write (mem_write m a bs) (a + of_nat (length bs)) cs = mem_write m a (bs @ cs)"
  by (induction bs arbitrary: m a) (simp_all add: mem_write_Cons add.assoc [symmetric])

text \<open>
  \<^verbatim>\<open>strncpy\<close> writes exactly \<open>n\<close> bytes: the source string cut at \<open>n\<close> and then NULs, if
  the destination does not start inside the source; the copy compares equal to the original
  under \<^verbatim>\<open>strncmp\<close>, which is what directory lookups rely on.
\<close>

theorem strncpy_correct:
  assumes "0 \<le> n" and "n < 2 ^ 31" and "s = t \<or> nat n \<le> unat (s - t)"
  shows "strncpy m s t n =
           mem_write m s (strn m t (nat n) @ replicate (nat n - length (strn m t (nat n))) 0)
         \<and> strn (strncpy m s t n) s (nat n) = strn m t (nat n)"
proof -
  let ?k = "nat n" and ?cs = "strn m t (nat n)"
  have k: "?k < 2 ^ 31" using assms by (simp add: nat_less_iff)
  have len: "length ?cs \<le> ?k" by (rule length_strn_le)
  have eq: "strncpy m s t n = mem_write m s (?cs @ replicate (?k - length ?cs) 0)"
  proof (cases "length ?cs < ?k")
    case True
    let ?j = "?k - Suc (length ?cs)" and ?ys = "?cs @ [0]"
    have "zero_fill (mem_write m s ?ys) (s + of_nat (length ?ys)) ?j =
        mem_write (mem_write m s ?ys) (s + of_nat (length ?ys)) (replicate ?j 0)"
      by (rule zero_fill_spec) (use k in simp)
    also have "\<dots> = mem_write m s (?ys @ replicate ?j 0)"
      by (rule mem_write_append) (use k True in simp)
    finally have "zero_fill (mem_write m s ?ys) (s + of_nat (length ?ys)) ?j =
        mem_write m s (?ys @ replicate ?j 0)" .
    moreover have "[0] @ replicate (?k - Suc (length ?cs)) 0 = replicate (?k - length ?cs) (0 :: byte)"
      using True by (metis Suc_diff_Suc append_Cons append_Nil replicate_Suc)
    ultimately show ?thesis
      using True k assms by (simp add: strncpy_def strncpy_copy_spec Let_def)
  next
    case False
    with len k assms show ?thesis by (simp add: strncpy_def strncpy_copy_spec Let_def)
  qed
  have "mem_read (strncpy m s t n) s ?k = ?cs @ replicate (?k - length ?cs) 0"
    using mem_read_write_same [of "?cs @ replicate (?k - length ?cs) 0" m s] len k
    by (simp add: eq)
  then have "strn (strncpy m s t n) s ?k = ?cs"
    using strn_nonzero [of m t ?k]
    by (simp add: strn_def [of "strncpy m s t n"] takeWhile_append2 takeWhile_eq_Nil_iff)
      (auto simp: takeWhile_append takeWhile_eq_Nil_iff intro!: takeWhile_eq_all_conv [THEN iffD2])
  with eq show ?thesis by simp
qed

theorem strncpy_correct_witness:
  "strn (strncpy ((\<lambda>_. 9)(100 := 104, 101 := 0)) 200 100 4) 200 4 = [104]"
proof -
  have "strn ((\<lambda>_. 9)(100 := 104, 101 := 0)) 100 4 = [104]"
    by (simp add: strn_def mem_read_def upt_rec)
  then show ?thesis
    using conjunct2 [OF strncpy_correct [of 4 200 100 "(\<lambda>_. 9)(100 := 104, 101 := 0)"]] by simp
qed

text \<open>
  \<^verbatim>\<open>safestrcpy\<close> with a positive size always leaves a NUL-terminated string: the source
  cut at \<open>n - 1\<close> bytes; and it writes nothing outside the \<open>n\<close> bytes of the destination.
\<close>

theorem safestrcpy_terminates:
  assumes "0 < n" and "n < 2 ^ 31" and "s = t \<or> nat n \<le> unat (s - t)"
  shows "cstr (safestrcpy m s t n) s (strn m t (nat (n - 1))) \<and>
         (\<forall>x. nat n \<le> unat (x - s) \<longrightarrow> safestrcpy m s t n x = m x)"
proof -
  let ?k = "nat (n - 1)" and ?cs = "strn m t (nat (n - 1))"
  have k: "Suc ?k = nat n" "?k < 2 ^ 31" using assms by (simp_all add: nat_less_iff)
  with assms have apart: "s = t \<or> ?k \<le> unat (s - t)" by linarith
  have len: "length ?cs \<le> ?k" by (rule length_strn_le)
  obtain z where z: "safestrcpy m s t n = mem_write m s (?cs @ 0 # replicate z 0)"
    and zb: "length ?cs + Suc z \<le> nat n"
  proof (cases "length ?cs < ?k")
    case True
    have "(mem_write m s (?cs @ [0]))(s + of_nat (length (?cs @ [0])) := 0)
        = mem_write m s ((?cs @ [0]) @ [0])"
      using k True by (subst mem_write_append [symmetric]) (auto simp: mem_write_Cons)
    then have "safestrcpy m s t n = mem_write m s (?cs @ 0 # replicate 1 0)"
      using True k assms apart by (simp add: safestrcpy_def strncpy_copy_spec Let_def)
    then show ?thesis by (rule that) (use True k in simp)
  next
    case False
    have "(mem_write m s ?cs)(s + of_nat (length ?cs) := 0) = mem_write m s (?cs @ [0])"
      using k len by (subst mem_write_append [symmetric]) (auto simp: mem_write_Cons)
    then have "safestrcpy m s t n = mem_write m s (?cs @ 0 # replicate 0 0)"
      using False len k assms apart by (simp add: safestrcpy_def strncpy_copy_spec Let_def)
    then show ?thesis by (rule that) (use len k in simp)
  qed
  have rd: "mem_read (safestrcpy m s t n) s (Suc (length ?cs)) = ?cs @ [0]"
    using zb k by (simp add: z mem_read_write_prefix)
  moreover have "safestrcpy m s t n x = m x" if "nat n \<le> unat (x - s)" for x
    using that zb by (simp add: z mem_write_out)
  ultimately show ?thesis using strn_nonzero by (simp add: cstr_def)
qed

theorem safestrcpy_terminates_witness:
  "cstr (safestrcpy ((\<lambda>_. 9)(100 := 104, 101 := 105, 102 := 106)) 200 100 3) 200 [104, 105]"
  using safestrcpy_terminates [of 3 200 100 "(\<lambda>_. 9)(100 := 104, 101 := 105, 102 := 106)"]
  by (simp add: strn_def mem_read_def upt_rec)

end
