(* ===== verification/Xv6_Kalloc.thy ===== *)
theory Xv6_Kalloc
  imports Xv6_Riscv Xv6_String
begin

text \<open>
  The physical page allocator, \<^verbatim>\<open>kernel/kalloc.c\<close>. Its state is physical memory itself and
  the head pointer of the free list: \<^verbatim>\<open>struct run\<close>, the list cell, is the first eight bytes
  of each free page, so \<open>kalloc\<close> and \<open>kfree\<close> load and store the \<^verbatim>\<open>next\<close> pointer in memory.
  \<^verbatim>\<open>kmem.lock\<close> makes each body one atomic step. The linker symbol \<^verbatim>\<open>end\<close> is the
  parameter \<open>kend\<close>. The refinement relates the pointer structure to a list of pages, and the
  locale \<open>page_allocator\<close> is the contract the page-table and process code relies on.
\<close>

section \<open>State and operations\<close>

record kmem_state =
  pmem :: mem
  freelist :: u64

definition kfree :: "u64 \<Rightarrow> u64 \<Rightarrow> 'z kmem_state_scheme \<Rightarrow> 'z kmem_state_scheme kres" where
  "kfree kend pa s =
     (if pa mod PGSIZE \<noteq> 0 \<or> pa < kend \<or> PHYSTOP \<le> pa then Inl (Panic ''kfree'')
      else let s = s\<lparr>pmem := memset (pmem s) pa 1 4096\<rparr>;
               s = s\<lparr>pmem := store64 (pmem s) pa (freelist s)\<rparr>
           in Inr (s\<lparr>freelist := pa\<rparr>))"

definition kalloc :: "'z kmem_state_scheme \<Rightarrow> u64 \<times> 'z kmem_state_scheme" where
  "kalloc s =
     (let r = freelist s;
          s = (if r \<noteq> 0 then s\<lparr>freelist := load64 (pmem s) r\<rparr> else s)
      in (r, if r \<noteq> 0 then s\<lparr>pmem := memset (pmem s) r 5 4096\<rparr> else s))"

function freerange_loop ::
  "u64 \<Rightarrow> u64 \<Rightarrow> u64 \<Rightarrow> 'z kmem_state_scheme \<Rightarrow> 'z kmem_state_scheme kres" where
  "freerange_loop kend p pa_end s =
     (if p + PGSIZE \<le> pa_end
      then kbind (kfree kend p s) (\<lambda>s. freerange_loop kend (p + PGSIZE) pa_end s)
      else Inr s)"
  by pat_completeness auto
termination
proof (relation "measure (\<lambda>(kend, p, pa_end, s). 2 ^ 64 - unat p)")
  fix kend p pa_end :: u64 and s x :: "'z kmem_state_scheme"
  assume "kfree kend p s = Inr x"
  then have "p < PHYSTOP" by (auto simp: kfree_def split: if_splits)
  then have "unat (p + PGSIZE) = unat p + 4096"
    using unat_add_nowrap [of p PGSIZE] by (simp add: word_less_nat_alt PHYSTOP_def KERNBASE_def)
  moreover have "unat p < 2 ^ 64" using unat_lt_pow [of p] by simp
  ultimately show "((kend, p + PGSIZE, pa_end, x), kend, p, pa_end, s)
      \<in> measure (\<lambda>(kend, p, pa_end, s). 2 ^ 64 - unat p)" by simp
qed simp

declare freerange_loop.simps [simp del]

definition freerange ::
  "u64 \<Rightarrow> u64 \<Rightarrow> u64 \<Rightarrow> 'z kmem_state_scheme \<Rightarrow> 'z kmem_state_scheme kres" where
  "freerange kend pa_start pa_end s = freerange_loop kend (PGROUNDUP pa_start) pa_end s"

definition kinit :: "u64 \<Rightarrow> 'z kmem_state_scheme \<Rightarrow> 'z kmem_state_scheme kres" where
  "kinit kend s = freerange kend kend PHYSTOP s"

section \<open>The free list as a list of pages\<close>

primrec fl_path :: "mem \<Rightarrow> u64 \<Rightarrow> u64 list \<Rightarrow> bool" where
  "fl_path m x [] \<longleftrightarrow> x = 0"
| "fl_path m x (p # ps) \<longleftrightarrow> x = p \<and> fl_path m (load64 m p) ps"

text \<open>The pages \<open>kfree\<close> accepts (page 0 could not be told from the end of the list).\<close>

definition valid_page :: "u64 \<Rightarrow> u64 \<Rightarrow> bool" where
  "valid_page kend p \<longleftrightarrow> page_aligned p \<and> kend \<le> p \<and> p < PHYSTOP \<and> p \<noteq> 0"

definition kmem_inv :: "u64 \<Rightarrow> 'z kmem_state_scheme \<Rightarrow> u64 list \<Rightarrow> bool" where
  "kmem_inv kend s ps \<longleftrightarrow>
     fl_path (pmem s) (freelist s) ps \<and> distinct ps \<and> (\<forall>p \<in> set ps. valid_page kend p)"

text \<open>Two memories that agree outside one page.\<close>

definition same_outside :: "u64 \<Rightarrow> mem \<Rightarrow> mem \<Rightarrow> bool" where
  "same_outside q m m' \<longleftrightarrow> (\<forall>x. 4096 \<le> unat (x - q) \<longrightarrow> m' x = m x)"

section \<open>The contract of a page allocator\<close>

locale page_allocator =
  fixes alloc :: "'s \<Rightarrow> u64 \<times> 's"
    and free :: "u64 \<Rightarrow> 's \<Rightarrow> 's kres"
    and avail :: "'s \<Rightarrow> u64 list \<Rightarrow> bool"
    and valid :: "u64 \<Rightarrow> bool"
  assumes alloc_empty: "avail s [] \<Longrightarrow> alloc s = (0, s)"
    and alloc_page: "avail s (p # ps) \<Longrightarrow> \<exists>s'. alloc s = (p, s') \<and> avail s' ps"
    and free_page: "avail s ps \<Longrightarrow> valid p \<Longrightarrow> p \<notin> set ps \<Longrightarrow> \<exists>s'. free p s = Inr s' \<and> avail s' (p # ps)"
    and free_invalid: "\<not> valid p \<Longrightarrow> p \<noteq> 0 \<Longrightarrow> \<exists>msg. free p s = Inl (Panic msg)"
    and avail_valid: "avail s ps \<Longrightarrow> p \<in> set ps \<Longrightarrow> valid p"
    and avail_distinct: "avail s ps \<Longrightarrow> distinct ps"
    and valid_nonnull: "valid p \<Longrightarrow> p \<noteq> 0"
begin

text \<open>The pages that \<open>n\<close> calls of the allocator return, and the state after them.\<close>

primrec allocs :: "nat \<Rightarrow> 's \<Rightarrow> u64 list \<times> 's" where
  "allocs 0 s = ([], s)"
| "allocs (Suc n) s = (case alloc s of (p, s) \<Rightarrow> case allocs n s of (ps, s) \<Rightarrow> (p # ps, s))"

lemma allocs_take:
  "avail s ps \<Longrightarrow> n \<le> length ps \<Longrightarrow>
   \<exists>s'. allocs n s = (take n ps, s') \<and> avail s' (drop n ps)"
proof (induction n arbitrary: s ps)
  case (Suc n)
  then obtain p qs where ps: "ps = p # qs" by (cases ps) auto
  with Suc.prems obtain s1 where "alloc s = (p, s1)" "avail s1 qs" using alloc_page by blast
  with Suc.IH [of s1 qs] Suc.prems ps show ?case by auto
qed simp

lemma allocs_distinct:
  assumes "avail s ps" and "n \<le> length ps"
  shows "distinct (fst (allocs n s)) \<and> (\<forall>p \<in> set (fst (allocs n s)). valid p \<and> p \<noteq> 0)"
proof -
  obtain s' where "allocs n s = (take n ps, s')" using allocs_take [OF assms] by blast
  moreover have "valid p \<and> p \<noteq> 0" if "p \<in> set (take n ps)" for p
    using that assms(1) avail_valid valid_nonnull by (blast dest: in_set_takeD)
  ultimately show ?thesis using avail_distinct [OF assms(1)] by simp
qed

lemma free_then_alloc:
  assumes "avail s ps" and "valid p" and "p \<notin> set ps" and "free p s = Inr s1"
  shows "\<exists>s2. alloc s1 = (p, s2) \<and> avail s2 ps"
  using free_page [OF assms(1-3)] assms(4) alloc_page by fastforce

end

section \<open>The implementation meets the contract\<close>

lemma valid_page_room: "valid_page kend p \<Longrightarrow> unat p + 4096 \<le> 2 ^ 64"
  by (simp add: valid_page_def aligned_room [simplified])

lemma same_outside_refl [simp]: "same_outside q m m"
  by (simp add: same_outside_def)

lemma same_outside_trans:
  "same_outside q m m' \<Longrightarrow> same_outside q m' m'' \<Longrightarrow> same_outside q m m''"
  by (simp add: same_outside_def)

lemma same_outside_write:
  "length bs \<le> 4096 \<Longrightarrow> same_outside q m (mem_write m q bs)"
  by (simp add: same_outside_def mem_write_out)

lemma same_outside_memset: "same_outside q m (memset m q c 4096)"
  by (simp add: memset_spec same_outside_write)

lemma same_outside_store64: "same_outside q m (store64 m q v)"
  by (simp add: store64_def same_outside_write)

lemma load64_same_outside:
  assumes "same_outside q m m'" and "valid_page kend p" and "valid_page kend q" and "p \<noteq> q"
  shows "load64 m' p = load64 m p"
proof -
  have "mem_read m' p 8 = mem_read m p 8"
  proof (rule nth_equalityI)
    fix i assume "i < length (mem_read m' p 8)"
    then have i: "i < 8" by simp
    have pq: "unat p + 4096 \<le> unat q \<or> unat q + 4096 \<le> unat p"
      using assms(2-4) by (intro aligned_apart) (auto simp: valid_page_def)
    have "unat (p + of_nat i) = unat p + i"
      using i valid_page_room [OF assms(2)] by (intro unat_add_of_nat) simp
    then have "4096 \<le> unat (p + of_nat i - q)"
      using pq i valid_page_room [OF assms(3)] by (intro word_sub_unat_ge) auto
    with assms(1) i show "mem_read m' p 8 ! i = mem_read m p 8 ! i"
      by (simp add: same_outside_def)
  qed simp
  then show ?thesis by (simp add: load64_def)
qed

lemma fl_path_same_outside:
  "fl_path m x ps \<Longrightarrow> same_outside q m m' \<Longrightarrow> valid_page kend q \<Longrightarrow> q \<notin> set ps \<Longrightarrow>
   \<forall>p \<in> set ps. valid_page kend p \<Longrightarrow> fl_path m' x ps"
proof (induction ps arbitrary: x)
  case (Cons p ps)
  then have "load64 m' p = load64 m p" by (auto intro: load64_same_outside)
  with Cons show ?case by auto
qed simp

lemma kfree_guard:
  "kfree kend pa s =
     (if page_aligned pa \<and> kend \<le> pa \<and> pa < PHYSTOP
      then Inr (s\<lparr>pmem := store64 (memset (pmem s) pa 1 4096) pa (freelist s), freelist := pa\<rparr>)
      else Inl (Panic ''kfree''))"
  by (simp add: kfree_def page_aligned_def Let_def not_le not_less)

lemma kfree_valid:
  assumes "kmem_inv kend s ps" and "valid_page kend pa" and "pa \<notin> set ps"
  shows "\<exists>s'. kfree kend pa s = Inr s' \<and> kmem_inv kend s' (pa # ps) \<and>
              same_outside pa (pmem s) (pmem s') \<and> kmem_state.more s' = kmem_state.more s"
proof -
  let ?m = "store64 (memset (pmem s) pa 1 4096) pa (freelist s)"
  have out: "same_outside pa (pmem s) ?m"
    by (rule same_outside_trans [OF same_outside_memset same_outside_store64])
  have "fl_path ?m (freelist s) ps"
    using assms out by (intro fl_path_same_outside [OF _ out]) (auto simp: kmem_inv_def)
  then have "kmem_inv kend (s\<lparr>pmem := ?m, freelist := pa\<rparr>) (pa # ps)"
    using assms by (auto simp: kmem_inv_def)
  with out assms(2) show ?thesis by (auto simp: kfree_guard valid_page_def)
qed

lemma kalloc_page:
  assumes "kmem_inv kend s (p # ps)"
  shows "\<exists>s'. kalloc s = (p, s') \<and> kmem_inv kend s' ps \<and>
              same_outside p (pmem s) (pmem s') \<and> kmem_state.more s' = kmem_state.more s \<and>
              mem_read (pmem s') p 4096 = replicate 4096 5"
proof -
  let ?m = "memset (pmem s) p 5 4096"
  from assms have p: "freelist s = p" "p \<noteq> 0" "p \<notin> set ps" "valid_page kend p"
    and path: "fl_path (pmem s) (load64 (pmem s) p) ps"
    by (auto simp: kmem_inv_def valid_page_def)
  have "fl_path ?m (load64 (pmem s) p) ps"
    using assms p by (intro fl_path_same_outside [OF path same_outside_memset]) (auto simp: kmem_inv_def)
  then have "kmem_inv kend (s\<lparr>freelist := load64 (pmem s) p, pmem := ?m\<rparr>) ps"
    using assms by (auto simp: kmem_inv_def)
  moreover have "mem_read ?m p 4096 = replicate 4096 5"
    using mem_read_write_same [of "replicate 4096 5" "pmem s" p] by (simp add: memset_spec)
  moreover have "same_outside p (pmem s) ?m" by (rule same_outside_memset)
  ultimately show ?thesis using p by (auto simp: kalloc_def Let_def)
qed

lemma kalloc_empty: "kmem_inv kend s [] \<Longrightarrow> kalloc s = (0, s)"
  by (simp add: kmem_inv_def kalloc_def Let_def)

lemma kfree_invalid: "\<not> valid_page kend p \<Longrightarrow> p \<noteq> 0 \<Longrightarrow> kfree kend p s = Inl (Panic ''kfree'')"
  by (auto simp: kfree_guard valid_page_def)

interpretation kmem: page_allocator kalloc "kfree kend" "kmem_inv kend" "valid_page kend"
  for kend :: u64
proof unfold_locales
  show "\<exists>s'. kalloc s = (p, s') \<and> kmem_inv kend s' ps" if "kmem_inv kend s (p # ps)"
    for s :: "'z kmem_state_scheme" and p ps
    using kalloc_page [OF that] by blast
  show "\<exists>s'. kfree kend p s = Inr s' \<and> kmem_inv kend s' (p # ps)"
    if "kmem_inv kend s ps" "valid_page kend p" "p \<notin> set ps"
    for s :: "'z kmem_state_scheme" and p ps
    using kfree_valid [OF that] by blast
qed (auto simp: kalloc_empty kfree_invalid kmem_inv_def valid_page_def)

section \<open>Properties\<close>

text \<open>
  C28. \<^verbatim>\<open>kfree\<close> refines pushing a page on a list: for a valid page that is not already free
  it succeeds, the free list becomes that page followed by the old list, and no byte outside
  the page changes. Any other non-null address panics.
\<close>

theorem kfree_refines_push:
  "(kmem_inv kend s ps \<and> valid_page kend pa \<and> pa \<notin> set ps \<longrightarrow>
      (\<exists>s'. kfree kend pa s = Inr s' \<and> kmem_inv kend s' (pa # ps) \<and>
            same_outside pa (pmem s) (pmem s'))) \<and>
   (\<not> valid_page kend pa \<and> pa \<noteq> 0 \<longrightarrow> kfree kend pa s = Inl (Panic ''kfree''))"
  using kfree_valid [of kend s ps pa] kfree_invalid by blast

theorem kfree_refines_push_witness:
  "kmem_inv 0x80020000 \<lparr>pmem = (\<lambda>_. 0), freelist = 0\<rparr> [] \<and> valid_page 0x80020000 0x80021000 \<and>
   (\<exists>s'. kfree 0x80020000 0x80021000 \<lparr>pmem = (\<lambda>_. 0), freelist = 0\<rparr> = Inr s' \<and>
         kmem_inv 0x80020000 s' [0x80021000] \<and> same_outside 0x80021000 (\<lambda>_. 0) (pmem s'))"
proof -
  let ?s = "\<lparr>pmem = (\<lambda>_. 0), freelist = 0\<rparr> :: kmem_state"
  have i: "kmem_inv 0x80020000 ?s []" by (simp add: kmem_inv_def)
  have v: "valid_page 0x80020000 0x80021000"
    by (simp add: valid_page_def page_aligned_def PGSIZE_def PHYSTOP_def KERNBASE_def)
  show ?thesis
    using i v kfree_refines_push [of "0x80020000" ?s "[]" "0x80021000"] by simp
qed

text \<open>
  C29. \<^verbatim>\<open>kalloc\<close> refines popping: it returns the first free page, filled with the junk byte
  5, the rest of the list stays free and no byte outside that page changes; on an empty list
  it returns 0 and changes nothing.
\<close>

theorem kalloc_refines_pop:
  "(kmem_inv kend s (p # ps) \<longrightarrow>
      (\<exists>s'. kalloc s = (p, s') \<and> kmem_inv kend s' ps \<and> same_outside p (pmem s) (pmem s') \<and>
            mem_read (pmem s') p 4096 = replicate 4096 5)) \<and>
   (kmem_inv kend s [] \<longrightarrow> kalloc s = (0, s))"
  using kalloc_page [of kend s p ps] kalloc_empty [of kend s] by blast

theorem kalloc_refines_pop_witness:
  "kmem_inv 0x80020000 \<lparr>pmem = (\<lambda>_. 0), freelist = 0x80021000\<rparr> [0x80021000] \<and>
   (\<exists>s'. kalloc \<lparr>pmem = (\<lambda>_. 0), freelist = 0x80021000\<rparr> = (0x80021000, s') \<and>
         kmem_inv 0x80020000 s' [])"
proof -
  let ?s = "\<lparr>pmem = (\<lambda>_. 0), freelist = 0x80021000\<rparr> :: kmem_state"
  have "load64 (\<lambda>_. 0) 0x80021000 = 0"
    by (simp add: load64_def mem_read_def upt_rec)
  then have i: "kmem_inv 0x80020000 ?s [0x80021000]"
    by (simp add: kmem_inv_def valid_page_def page_aligned_def PGSIZE_def PHYSTOP_def KERNBASE_def)
  then show ?thesis
    using kalloc_refines_pop [of "0x80020000" ?s "0x80021000" "[]"] by blast
qed

definition pages_from :: "u64 \<Rightarrow> nat \<Rightarrow> u64 list" where
  "pages_from p n = map (\<lambda>i. p + of_nat i * PGSIZE) [0..<n]"

lemma pages_from_0 [simp]: "pages_from p 0 = []"
  by (simp add: pages_from_def)

lemma pages_from_Suc: "pages_from p (Suc n) = p # pages_from (p + PGSIZE) n"
proof -
  have "[0..<Suc n] = 0 # map Suc [0..<n]" by (simp add: map_Suc_upt upt_conv_Cons del: upt_Suc)
  then show ?thesis by (simp add: pages_from_def algebra_simps)
qed

lemma unat_PHYSTOP: "unat PHYSTOP = 0x88000000"
  by (simp add: PHYSTOP_def KERNBASE_def)

lemma freerange_loop_pages:
  "kmem_inv kend s ps \<Longrightarrow> page_aligned p \<Longrightarrow> kend \<le> p \<Longrightarrow> p \<noteq> 0 \<Longrightarrow>
   unat p + 4096 * n = unat PHYSTOP \<Longrightarrow> \<forall>q \<in> set ps. q < p \<Longrightarrow>
   \<exists>s'. freerange_loop kend p PHYSTOP s = Inr s' \<and>
        kmem_inv kend s' (rev (pages_from p n) @ ps)"
proof (induction n arbitrary: p s ps)
  case 0
  then have "p = PHYSTOP" by (simp add: word_unat_eq_iff)
  then show ?case
    using 0 by (subst freerange_loop.simps)
      (simp add: word_le_nat_alt unat_PHYSTOP PHYSTOP_def KERNBASE_def PGSIZE_def)
next
  case (Suc n)
  have up: "unat (p + PGSIZE) = unat p + 4096"
    using Suc.prems(5) unat_add_nowrap [of p PGSIZE] by (simp add: unat_PHYSTOP)
  have lt: "p < PHYSTOP" and le: "p + PGSIZE \<le> PHYSTOP"
    using Suc.prems(5) up by (simp_all add: word_less_nat_alt word_le_nat_alt)
  have v: "valid_page kend p" using Suc.prems lt by (simp add: valid_page_def)
  have "p \<notin> set ps" using Suc.prems(6) by auto
  then obtain s1 where s1: "kfree kend p s = Inr s1" "kmem_inv kend s1 (p # ps)"
    using kfree_valid [OF Suc.prems(1) v] by blast
  have "\<exists>s'. freerange_loop kend (p + PGSIZE) PHYSTOP s1 = Inr s' \<and>
      kmem_inv kend s' (rev (pages_from (p + PGSIZE) n) @ (p # ps))"
  proof (rule Suc.IH)
    show "page_aligned (p + PGSIZE)"
      using Suc.prems(2) by (simp add: page_aligned_unat up)
    show "kend \<le> p + PGSIZE" using Suc.prems(3) up by (simp add: word_le_nat_alt)
    show "p + PGSIZE \<noteq> 0" using up by auto
    show "unat (p + PGSIZE) + 4096 * n = unat PHYSTOP" using Suc.prems(5) up by simp
    show "\<forall>q \<in> set (p # ps). q < p + PGSIZE"
      using Suc.prems(6) up by (auto simp: word_less_nat_alt)
  qed (rule s1(2))
  with s1(1) le show ?case by (subst freerange_loop.simps) (simp add: pages_from_Suc)
qed

text \<open>
  C30. Booting the allocator: for a kernel image that ends between the start of RAM and its
  last page, \<^verbatim>\<open>kinit\<close> does not panic and leaves every whole page from the end of the kernel
  to \<^verbatim>\<open>PHYSTOP\<close> on the free list, each once, the highest page first.
\<close>

theorem kinit_frees_all_pages:
  assumes "KERNBASE \<le> kend" and "kend \<le> PHYSTOP" and "freelist s = 0"
  shows "\<exists>s'. kinit kend s = Inr s' \<and>
     kmem_inv kend s' (rev (pages_from (PGROUNDUP kend)
       ((unat PHYSTOP - unat (PGROUNDUP kend)) div 4096)))"
proof -
  have r: "unat kend + 4095 < 2 ^ 64"
    using assms(2) by (simp add: word_le_nat_alt unat_PHYSTOP)
  have up: "unat (PGROUNDUP kend) = unat kend + 4095 - (unat kend + 4095) mod 4096"
    using r by (rule unat_PGROUNDUP)
  have dvd: "4096 dvd unat (PGROUNDUP kend)"
    using page_aligned_PGROUNDUP [of kend] by (simp add: page_aligned_unat mod_eq_0_iff_dvd)
  have le: "kend \<le> PGROUNDUP kend"
    unfolding word_le_nat_alt up using mod_less_divisor [of 4096 "unat kend + 4095"] by linarith
  have "unat (PGROUNDUP kend) \<le> unat PHYSTOP"
    using round_up_least [of 4096 "unat PHYSTOP" "unat kend"] assms(2)
    by (simp add: up word_le_nat_alt unat_PHYSTOP)
  then have "unat (PGROUNDUP kend) + 4096 * ((unat PHYSTOP - unat (PGROUNDUP kend)) div 4096)
      = unat PHYSTOP"
    using dvd by (simp add: unat_PHYSTOP dvd_diff_nat)
  moreover have "PGROUNDUP kend \<noteq> 0"
    using le assms(1) by (auto simp: KERNBASE_def)
  moreover have "kmem_inv kend s []" using assms(3) by (simp add: kmem_inv_def)
  ultimately have "\<exists>s'. freerange_loop kend (PGROUNDUP kend) PHYSTOP s = Inr s' \<and>
      kmem_inv kend s' (rev (pages_from (PGROUNDUP kend)
        ((unat PHYSTOP - unat (PGROUNDUP kend)) div 4096)) @ [])"
    using le by (intro freerange_loop_pages) auto
  then show ?thesis by (simp add: kinit_def freerange_def)
qed

theorem kinit_frees_all_pages_witness:
  "\<exists>s'. kinit 0x87ffd800 \<lparr>pmem = (\<lambda>_. 0), freelist = 0\<rparr> = Inr s' \<and>
        kmem_inv 0x87ffd800 s' [0x87fff000, 0x87ffe000]"
proof -
  let ?s = "\<lparr>pmem = (\<lambda>_. 0), freelist = 0\<rparr> :: kmem_state"
  have "PGROUNDUP 0x87ffd800 = 0x87ffe000" by (simp add: PGROUNDUP_def PGSIZE_def)
  moreover have "KERNBASE \<le> 0x87ffd800" "0x87ffd800 \<le> PHYSTOP"
    by (simp_all add: PHYSTOP_def KERNBASE_def)
  ultimately show ?thesis
    using kinit_frees_all_pages [of "0x87ffd800" ?s]
    by (simp add: unat_PHYSTOP pages_from_def PGSIZE_def upt_rec)
qed

text \<open>A freed page is the next one handed out, and the free list is then what it was.\<close>

lemma kfree_then_kalloc:
  assumes "kmem_inv kend s ps" and "valid_page kend pa" and "pa \<notin> set ps"
    and "kfree kend pa s = Inr s1"
  shows "\<exists>s2. kalloc s1 = (pa, s2) \<and> kmem_inv kend s2 ps"
  using assms by (rule kmem.free_then_alloc)

end
