(* ===== verification/Xv6_Locks.thy ===== *)
theory Xv6_Locks
  imports Xv6_Prelude
begin

text \<open>
  Spin locks and sleep locks, \<^verbatim>\<open>kernel/spinlock.c\<close> and \<^verbatim>\<open>kernel/sleeplock.c\<close>. The spin-lock
  code is split at its atomic instructions (the interrupt-off prologue, each attempt of the
  swap loop, the store of the owner, the releasing swap, the matching \<^verbatim>\<open>pop_off\<close>), and
  \<open>lstep\<close> interleaves those pieces over any number of CPUs. Mutual exclusion and
  interrupts-off over this relation are what lets the other theories treat the body between
  \<^verbatim>\<open>acquire\<close> and \<^verbatim>\<open>release\<close> as one atomic step. Lock names are kept by the code for debugging
  only and are left out.
\<close>

section \<open>CPUs and spin locks\<close>

record cpu =
  noff :: int      \<comment> \<open>depth of push_off() nesting\<close>
  intena :: bool   \<comment> \<open>were interrupts enabled before push_off()?\<close>
  sie :: bool      \<comment> \<open>the SIE bit that intr_get() reads\<close>

record spinlock =
  locked :: u32
  lk_cpu :: "nat option"

record machine =
  cpus :: "nat \<Rightarrow> cpu"
  locks :: "nat \<Rightarrow> spinlock"

abbreviation upd_cpu :: "nat \<Rightarrow> (cpu \<Rightarrow> cpu) \<Rightarrow> machine \<Rightarrow> machine" where
  "upd_cpu c f m \<equiv> m\<lparr>cpus := (cpus m)(c := f (cpus m c))\<rparr>"

abbreviation upd_lock :: "nat \<Rightarrow> (spinlock \<Rightarrow> spinlock) \<Rightarrow> machine \<Rightarrow> machine" where
  "upd_lock l f m \<equiv> m\<lparr>locks := (locks m)(l := f (locks m l))\<rparr>"

definition initlock :: "nat \<Rightarrow> machine \<Rightarrow> machine" where
  "initlock l m = upd_lock l (\<lambda>k. k\<lparr>locked := 0, lk_cpu := None\<rparr>) m"

definition intr_get :: "nat \<Rightarrow> machine \<Rightarrow> bool" where
  "intr_get c m = sie (cpus m c)"

definition intr_off :: "nat \<Rightarrow> machine \<Rightarrow> machine" where
  "intr_off c m = upd_cpu c (\<lambda>k. k\<lparr>sie := False\<rparr>) m"

definition intr_on :: "nat \<Rightarrow> machine \<Rightarrow> machine" where
  "intr_on c m = upd_cpu c (\<lambda>k. k\<lparr>sie := True\<rparr>) m"

definition push_off :: "nat \<Rightarrow> machine \<Rightarrow> machine" where
  "push_off c m =
     (let old = intr_get c m;
          m = (if noff (cpus m c) = 0
               then upd_cpu c (\<lambda>k. k\<lparr>intena := old\<rparr>) (intr_off c m) else m)
      in upd_cpu c (\<lambda>k. k\<lparr>noff := noff k + 1\<rparr>) m)"

definition pop_off :: "nat \<Rightarrow> machine \<Rightarrow> machine kres" where
  "pop_off c m =
     (if intr_get c m then Inl (Panic ''pop_off - interruptible'')
      else if noff (cpus m c) < 1 then Inl (Panic ''pop_off'')
      else let m = upd_cpu c (\<lambda>k. k\<lparr>noff := noff k - 1\<rparr>) m
           in Inr (if noff (cpus m c) = 0 \<and> intena (cpus m c) then intr_on c m else m))"

definition holding :: "nat \<Rightarrow> nat \<Rightarrow> machine \<Rightarrow> bool" where
  "holding c l m \<longleftrightarrow> locked (locks m l) \<noteq> 0 \<and> lk_cpu (locks m l) = Some c"

text \<open>
  \<^verbatim>\<open>acquire\<close>: the prologue, one iteration of the swap loop, and the epilogue. The sequential
  composition \<open>acquire\<close> spins for ever when the lock is taken.
\<close>

definition acquire_enter :: "nat \<Rightarrow> nat \<Rightarrow> machine \<Rightarrow> machine kres" where
  "acquire_enter c l m =
     (let m = push_off c m in if holding c l m then Inl (Panic ''acquire'') else Inr m)"

definition test_and_set :: "nat \<Rightarrow> machine \<Rightarrow> u32 \<times> machine" where
  "test_and_set l m = (locked (locks m l), upd_lock l (\<lambda>k. k\<lparr>locked := 1\<rparr>) m)"

definition acquire_own :: "nat \<Rightarrow> nat \<Rightarrow> machine \<Rightarrow> machine" where
  "acquire_own c l m = upd_lock l (\<lambda>k. k\<lparr>lk_cpu := Some c\<rparr>) m"

definition acquire :: "nat \<Rightarrow> nat \<Rightarrow> machine \<Rightarrow> machine kres" where
  "acquire c l m =
     kbind (acquire_enter c l m) (\<lambda>m.
       case test_and_set l m of (old, m) \<Rightarrow>
         if old \<noteq> 0 then Inl Diverges else Inr (acquire_own c l m))"

definition release_disown :: "nat \<Rightarrow> nat \<Rightarrow> machine \<Rightarrow> machine kres" where
  "release_disown c l m =
     (if \<not> holding c l m then Inl (Panic ''release'')
      else Inr (upd_lock l (\<lambda>k. k\<lparr>lk_cpu := None\<rparr>) m))"

definition lock_release :: "nat \<Rightarrow> machine \<Rightarrow> machine" where
  "lock_release l m = upd_lock l (\<lambda>k. k\<lparr>locked := 0\<rparr>) m"

definition release :: "nat \<Rightarrow> nat \<Rightarrow> machine \<Rightarrow> machine kres" where
  "release c l m = kbind (release_disown c l m) (\<lambda>m. pop_off c (lock_release l m))"

section \<open>Interleaving\<close>

datatype pc = Run | Spin nat | Got nat | Unlock nat | Pop

inductive lstep :: "machine \<times> (nat \<Rightarrow> pc) \<Rightarrow> machine \<times> (nat \<Rightarrow> pc) \<Rightarrow> bool" where
  enter: "pcs c = Run \<Longrightarrow> acquire_enter c l m = Inr m' \<Longrightarrow> lstep (m, pcs) (m', pcs(c := Spin l))"
| spin: "pcs c = Spin l \<Longrightarrow> test_and_set l m = (old, m') \<Longrightarrow>
    lstep (m, pcs) (m', pcs(c := if old \<noteq> 0 then Spin l else Got l))"
| own: "pcs c = Got l \<Longrightarrow> lstep (m, pcs) (acquire_own c l m, pcs(c := Run))"
| disown: "pcs c = Run \<Longrightarrow> release_disown c l m = Inr m' \<Longrightarrow>
    lstep (m, pcs) (m', pcs(c := Unlock l))"
| unlock: "pcs c = Unlock l \<Longrightarrow> lstep (m, pcs) (lock_release l m, pcs(c := Pop))"
| pop: "pcs c = Pop \<Longrightarrow> pop_off c m = Inr m' \<Longrightarrow> lstep (m, pcs) (m', pcs(c := Run))"
| intr: "pcs c = Run \<Longrightarrow> noff (cpus m c) = 0 \<Longrightarrow>
    lstep (m, pcs) ((if b then intr_on c m else intr_off c m), pcs)"

definition boot_machine :: "machine \<Rightarrow> bool" where
  "boot_machine m \<longleftrightarrow>
     (\<forall>c. noff (cpus m c) = 0) \<and> (\<forall>l. locked (locks m l) = 0 \<and> lk_cpu (locks m l) = None)"

inductive lreach :: "machine \<times> (nat \<Rightarrow> pc) \<Rightarrow> bool" where
  boot: "boot_machine m \<Longrightarrow> lreach (m, \<lambda>_. Run)"
| step: "lreach x \<Longrightarrow> lstep x y \<Longrightarrow> lreach y"

text \<open>A CPU owns a lock from the successful swap to the releasing swap.\<close>

definition owns :: "machine \<times> (nat \<Rightarrow> pc) \<Rightarrow> nat \<Rightarrow> nat \<Rightarrow> bool" where
  "owns x c l \<longleftrightarrow> lk_cpu (locks (fst x) l) = Some c \<or> snd x c = Got l \<or> snd x c = Unlock l"

definition held_by :: "machine \<Rightarrow> nat \<Rightarrow> nat set" where
  "held_by m c = {l. lk_cpu (locks m l) = Some c}"

definition lock_inv :: "machine \<times> (nat \<Rightarrow> pc) \<Rightarrow> bool" where
  "lock_inv x \<longleftrightarrow>
     (\<forall>c l. owns x c l \<longrightarrow> locked (locks (fst x) l) \<noteq> 0) \<and>
     (\<forall>c c' l. owns x c l \<longrightarrow> owns x c' l \<longrightarrow> c = c') \<and>
     (\<forall>c l. snd x c \<in> {Got l, Unlock l} \<longrightarrow> lk_cpu (locks (fst x) l) = None)"

definition off_ok :: "machine \<Rightarrow> pc \<Rightarrow> nat \<Rightarrow> bool" where
  "off_ok m p c \<longleftrightarrow>
     finite (held_by m c) \<and>
     noff (cpus m c) = int (card (held_by m c)) + (if p = Run then 0 else 1) \<and>
     (noff (cpus m c) \<noteq> 0 \<longrightarrow> \<not> sie (cpus m c))"

definition off_inv :: "machine \<times> (nat \<Rightarrow> pc) \<Rightarrow> bool" where
  "off_inv x \<longleftrightarrow> (\<forall>c. off_ok (fst x) (snd x c) c)"

section \<open>Sleep locks\<close>

record sleeplock =
  sl_locked :: u32
  sl_pid :: int

definition initsleeplock :: "sleeplock \<Rightarrow> sleeplock" where
  "initsleeplock lk = lk\<lparr>sl_locked := 0, sl_pid := 0\<rparr>"

definition acquiresleep :: "int \<Rightarrow> sleeplock \<Rightarrow> sleeplock kres" where
  "acquiresleep pid lk =
     (if sl_locked lk \<noteq> 0 then Inl Blocks else Inr (lk\<lparr>sl_locked := 1, sl_pid := pid\<rparr>))"

definition releasesleep :: "sleeplock \<Rightarrow> sleeplock" where
  "releasesleep lk = lk\<lparr>sl_locked := 0, sl_pid := 0\<rparr>"

definition holdingsleep :: "int \<Rightarrow> sleeplock \<Rightarrow> bool" where
  "holdingsleep pid lk \<longleftrightarrow> sl_locked lk \<noteq> 0 \<and> sl_pid lk = pid"

section \<open>Lemmas\<close>

lemma push_off_simps [simp]:
  "locks (push_off c m) = locks m"
  "noff (cpus (push_off c m) d) = noff (cpus m d) + (if d = c then 1 else 0)"
  "sie (cpus (push_off c m) d) = (sie (cpus m d) \<and> \<not> (d = c \<and> noff (cpus m c) = 0))"
  by (auto simp: push_off_def intr_off_def Let_def)

lemma pop_off_Inr:
  "pop_off c m = Inr m' \<Longrightarrow>
     locks m' = locks m \<and> noff (cpus m' d) = noff (cpus m d) - (if d = c then 1 else 0) \<and>
     (noff (cpus m' d) \<noteq> 0 \<longrightarrow> sie (cpus m' d) = sie (cpus m d))"
  by (auto simp: pop_off_def intr_on_def Let_def split: if_splits)

lemma held_by_simps [simp]:
  "held_by (upd_cpu c f m) d = held_by m d"
  "held_by (push_off c m) d = held_by m d"
  "held_by (upd_lock l (\<lambda>k. k\<lparr>locked := v\<rparr>) m) d = held_by m d"
  "held_by (upd_lock l (\<lambda>k. k\<lparr>lk_cpu := Some c\<rparr>) m) d =
     (if d = c then insert l (held_by m d) else held_by m d - {l})"
  "held_by (upd_lock l (\<lambda>k. k\<lparr>lk_cpu := None\<rparr>) m) d = held_by m d - {l}"
  by (auto simp: held_by_def)

lemmas lock_ops =
  acquire_enter_def test_and_set_def acquire_own_def release_disown_def lock_release_def

lemma lock_invD:
  assumes "lock_inv x"
  shows "owns x c l \<Longrightarrow> locked (locks (fst x) l) \<noteq> 0"
    and "owns x c l \<Longrightarrow> owns x c' l \<Longrightarrow> c = c'"
    and "snd x c = Got l \<Longrightarrow> lk_cpu (locks (fst x) l) = None"
    and "snd x c = Unlock l \<Longrightarrow> lk_cpu (locks (fst x) l) = None"
  using assms unfolding lock_inv_def by blast+

text \<open>Steps that change neither who owns what nor the lock words keep the invariant.\<close>

lemma lock_inv_same_owners:
  assumes "lock_inv x" and "\<And>d k. owns y d k = owns x d k"
    and "\<And>d k. owns x d k \<Longrightarrow> locked (locks (fst y) k) \<noteq> 0"
    and "\<And>d k. snd y d = Got k \<or> snd y d = Unlock k \<Longrightarrow> lk_cpu (locks (fst y) k) = None"
  shows "lock_inv y"
  using assms(2-4) lock_invD(2) [OF assms(1)] unfolding lock_inv_def by simp

lemma lock_inv_step: "lstep x y \<Longrightarrow> lock_inv x \<Longrightarrow> lock_inv y"
proof (induction rule: lstep.induct)
  case (enter pcs c l m m')
  then have m: "m' = push_off c m" by (auto simp: lock_ops Let_def split: if_splits)
  show ?case using enter.prems enter.hyps(1) unfolding m lock_inv_def owns_def by simp
next
  case (spin pcs c l m old m')
  then have m: "m' = upd_lock l (\<lambda>k. k\<lparr>locked := 1\<rparr>) m" and old: "old = locked (locks m l)"
    by (simp_all add: test_and_set_def)
  show ?case
  proof (cases "old = 0")
    case True
    then have none: "\<not> owns (m, pcs) d l" for d
      using lock_invD(1) [OF spin.prems, of d l] old by auto
    have free: "lk_cpu (locks m l) = None"
      using none by (cases "lk_cpu (locks m l)") (auto simp: owns_def)
    have "owns (m', pcs(c := Got l)) d k \<longleftrightarrow> owns (m, pcs) d k \<or> (d = c \<and> k = l)" for d k
      using spin.hyps(1) by (auto simp: m owns_def)
    then show ?thesis
      using True none free spin.prems unfolding lock_inv_def by (auto simp: m owns_def)
  next
    case False
    then show ?thesis
      by (intro lock_inv_same_owners [OF spin.prems])
        (use spin.hyps(1) lock_invD [OF spin.prems] in \<open>auto simp: m owns_def split: if_splits\<close>)
  qed
next
  case (own pcs c l m)
  have others: "pcs d \<noteq> Got l \<and> pcs d \<noteq> Unlock l" if "d \<noteq> c" for d
    using lock_invD(2) [OF own.prems, of c l d] own.hyps that by (auto simp: owns_def)
  have "lk_cpu (locks m l) = None" using lock_invD(3) [OF own.prems, of c l] own.hyps by simp
  then show ?case
    by (intro lock_inv_same_owners [OF own.prems])
      (use own.hyps others lock_invD [OF own.prems] in
        \<open>auto simp: lock_ops owns_def split: if_splits\<close>)
next
  case (disown pcs c l m m')
  then have m: "m' = upd_lock l (\<lambda>k. k\<lparr>lk_cpu := None\<rparr>) m" and "lk_cpu (locks m l) = Some c"
    by (auto simp: lock_ops holding_def split: if_splits)
  then show ?case
    by (intro lock_inv_same_owners [OF disown.prems])
      (use disown.hyps(1) lock_invD [OF disown.prems] in
        \<open>auto simp: m owns_def split: if_splits\<close>)
next
  case (unlock pcs c l m)
  have "owns (m, pcs) c l" using unlock.hyps by (simp add: owns_def)
  then have only: "\<not> owns (m, pcs) d l" if "d \<noteq> c" for d
    using lock_invD(2) [OF unlock.prems, of c l d] that by blast
  have none: "lk_cpu (locks m l) = None" using lock_invD(4) [OF unlock.prems, of c l] unlock.hyps by simp
  have o: "owns (lock_release l m, pcs(c := Pop)) d k \<longleftrightarrow> owns (m, pcs) d k \<and> k \<noteq> l" for d k
    using unlock.hyps only [of d] none by (auto simp: lock_ops owns_def)
  show ?case using unlock.prems unlock.hyps unfolding lock_inv_def o by (auto simp: lock_ops)
next
  case (pop pcs c m m')
  then have m: "locks m' = locks m" using pop_off_Inr by blast
  show ?case
    by (intro lock_inv_same_owners [OF pop.prems])
      (use pop.hyps(1) lock_invD [OF pop.prems] in \<open>auto simp: m owns_def split: if_splits\<close>)
next
  case (intr pcs c m b)
  then show ?case by (auto simp: lock_inv_def owns_def intr_on_def intr_off_def)
qed

lemma off_inv_step: "lstep x y \<Longrightarrow> lock_inv x \<Longrightarrow> off_inv x \<Longrightarrow> off_ok (fst y) (snd y d) d"
proof (induction rule: lstep.induct)
  case (enter pcs c l m m')
  then have m: "m' = push_off c m" by (auto simp: lock_ops Let_def split: if_splits)
  from enter.prems(2) have "off_ok m (pcs d) d" by (simp add: off_inv_def)
  then show ?case using enter.hyps(1) by (cases "d = c") (auto simp: m off_ok_def)
next
  case (spin pcs c l m old m')
  then have "off_ok m (pcs d) d" by (simp add: off_inv_def)
  with spin.hyps show ?case by (auto simp: off_ok_def lock_ops)
next
  case (own pcs c l m)
  then have "lk_cpu (locks m l) = None" by (auto simp: lock_inv_def)
  then have "l \<notin> held_by m d" by (simp add: held_by_def)
  moreover have "off_ok m (pcs d) d" using own.prems(2) by (simp add: off_inv_def)
  ultimately show ?case using own.hyps by (auto simp: off_ok_def lock_ops)
next
  case (disown pcs c l m m')
  then have m: "m' = upd_lock l (\<lambda>k. k\<lparr>lk_cpu := None\<rparr>) m" and l: "lk_cpu (locks m l) = Some c"
    by (auto simp: lock_ops holding_def split: if_splits)
  from disown.prems(2) have ok: "off_ok m (pcs d) d" by (simp add: off_inv_def)
  show ?case
  proof (cases "d = c")
    case True
    have "l \<in> held_by m c" using l by (simp add: held_by_def)
    then have "int (card (held_by m c)) = int (card (held_by m c - {l})) + 1"
      using ok True card_Suc_Diff1 [of "held_by m c" l] by (simp add: off_ok_def)
    with ok True disown.hyps(1) show ?thesis unfolding off_ok_def by (auto simp: m)
  next
    case False
    then have "l \<notin> held_by m d" using l by (simp add: held_by_def)
    with ok False show ?thesis by (simp add: m off_ok_def)
  qed
next
  case (unlock pcs c l m)
  then have "off_ok m (pcs d) d" by (simp add: off_inv_def)
  with unlock.hyps show ?case by (auto simp: off_ok_def lock_ops)
next
  case (pop pcs c m m')
  have "held_by m' d = held_by m d"
    using pop_off_Inr [OF pop.hyps(2)] by (simp add: held_by_def)
  moreover have "off_ok m (pcs d) d" using pop.prems(2) by (simp add: off_inv_def)
  ultimately show ?case using pop.hyps(1) pop_off_Inr [OF pop.hyps(2), of d]
    by (cases "d = c") (auto simp: off_ok_def)
next
  case (intr pcs c m b)
  then have "off_ok m (pcs d) d" by (simp add: off_inv_def)
  with intr.hyps show ?case by (auto simp: off_ok_def intr_on_def intr_off_def)
qed

lemma lreach_inv: "lreach x \<Longrightarrow> lock_inv x \<and> off_inv x"
proof (induction rule: lreach.induct)
  case (boot m)
  then show ?case
    by (simp add: boot_machine_def lock_inv_def off_inv_def off_ok_def owns_def held_by_def)
next
  case (step x y)
  then show ?case using lock_inv_step off_inv_step unfolding off_inv_def by blast
qed

section \<open>Properties\<close>

text \<open>
  C14. Mutual exclusion. In every interleaving of any number of CPUs, at most one CPU is
  between the successful swap of \<^verbatim>\<open>acquire\<close> and the releasing swap of \<^verbatim>\<open>release\<close> of a given
  lock; a CPU inside, or spinning, runs with interrupts off; and the \<^verbatim>\<open>pop_off\<close> at the end
  of \<^verbatim>\<open>release\<close> never panics.
\<close>

theorem spinlock_mutual_exclusion:
  assumes "lreach x"
  shows "(owns x c l \<and> owns x c' l \<longrightarrow> c = c') \<and>
    (owns x c l \<or> snd x c = Spin l \<longrightarrow> \<not> sie (cpus (fst x) c)) \<and>
    (snd x c = Pop \<longrightarrow> (\<exists>m'. pop_off c (fst x) = Inr m'))"
proof (intro conjI impI)
  have inv: "lock_inv x" and ok: "off_ok (fst x) (snd x c) c"
    using lreach_inv [OF assms] by (auto simp: off_inv_def)
  show "c = c'" if "owns x c l \<and> owns x c' l" using lock_invD(2) [OF inv] that by blast
  show "\<not> sie (cpus (fst x) c)" if "owns x c l \<or> snd x c = Spin l"
  proof (cases "snd x c = Run")
    case True
    with that have "l \<in> held_by (fst x) c" by (auto simp: owns_def held_by_def)
    with ok True show ?thesis by (auto simp: off_ok_def)
  next
    case False
    with ok show ?thesis by (auto simp: off_ok_def)
  qed
  show "\<exists>m'. pop_off c (fst x) = Inr m'" if "snd x c = Pop"
    using ok that by (auto simp: off_ok_def pop_off_def intr_get_def Let_def)
qed

definition two_cpus :: machine where
  "two_cpus = \<lparr>cpus = (\<lambda>_. \<lparr>noff = 0, intena = False, sie = True\<rparr>),
               locks = (\<lambda>_. \<lparr>locked = 0, lk_cpu = None\<rparr>)\<rparr>"

theorem spinlock_mutual_exclusion_witness:
  "\<exists>x. lreach x \<and> owns x 0 7 \<and> snd x 1 = Spin 7 \<and> \<not> owns x 1 7 \<and> \<not> sie (cpus (fst x) 1)"
proof -
  let ?m1 = "push_off 0 two_cpus"
  let ?m2 = "snd (test_and_set 7 ?m1)"
  let ?m3 = "acquire_own 0 7 ?m2"
  let ?m4 = "push_off 1 ?m3"
  let ?x = "(?m4, (\<lambda>_. Run)(1 := Spin 7))"
  have "lreach (two_cpus, \<lambda>_. Run)"
    by (rule boot) (simp add: boot_machine_def two_cpus_def)
  moreover have "lstep (two_cpus, \<lambda>_. Run) (?m1, (\<lambda>_. Run)(0 := Spin 7))"
    by (rule enter) (simp_all add: acquire_enter_def holding_def two_cpus_def)
  moreover have "lstep (?m1, (\<lambda>_. Run)(0 := Spin 7)) (?m2, (\<lambda>_. Run)(0 := Got 7))"
    using spin [of "(\<lambda>_. Run)(0 := Spin 7)" 0 7 ?m1 0 ?m2]
    by (simp add: test_and_set_def two_cpus_def)
  moreover have "lstep (?m2, (\<lambda>_. Run)(0 := Got 7)) (?m3, \<lambda>_. Run)"
    using own [of "(\<lambda>_. Run)(0 := Got 7)" 0 7 ?m2] by (simp add: fun_upd_idem)
  moreover have "lstep (?m3, \<lambda>_. Run) ?x"
    by (rule enter) (simp_all add: acquire_enter_def holding_def lock_ops two_cpus_def)
  ultimately have r: "lreach ?x" by (blast intro: step)
  have "owns ?x 0 7" by (simp add: owns_def lock_ops)
  with r spinlock_mutual_exclusion [OF r, of 0 7 1] spinlock_mutual_exclusion [OF r, of 1 7 1]
  show ?thesis by (intro exI [of _ ?x]) auto
qed

text \<open>
  Sequential use: \<^verbatim>\<open>acquire\<close> on a free lock succeeds with interrupts off, \<^verbatim>\<open>acquire\<close> of a
  lock the CPU already holds panics, and \<^verbatim>\<open>release\<close> after \<^verbatim>\<open>acquire\<close> restores the lock, the
  nesting depth and the interrupt state from before.
\<close>

theorem acquire_release_roundtrip:
  assumes "locked (locks m l) = 0" and "lk_cpu (locks m l) = None"
    and "0 \<le> noff (cpus m c)" and "0 < noff (cpus m c) \<longrightarrow> \<not> sie (cpus m c)"
  shows "\<exists>m1 m2. acquire c l m = Inr m1 \<and> holding c l m1 \<and> \<not> sie (cpus m1 c) \<and>
     acquire c l m1 = Inl (Panic ''acquire'') \<and>
     release c l m1 = Inr m2 \<and> locks m2 = locks m \<and>
     noff (cpus m2 c) = noff (cpus m c) \<and> sie (cpus m2 c) = sie (cpus m c)"
proof -
  let ?m1 = "acquire_own c l (snd (test_and_set l (push_off c m)))"
  have a: "acquire c l m = Inr ?m1"
    using assms by (simp add: acquire_def acquire_enter_def test_and_set_def holding_def Let_def)
  have h: "holding c l ?m1" by (simp add: holding_def lock_ops)
  have s: "\<not> sie (cpus ?m1 c)" using assms by (auto simp: lock_ops)
  have p: "acquire c l ?m1 = Inl (Panic ''acquire'')"
    by (simp add: acquire_def acquire_enter_def holding_def lock_ops Let_def)
  have k: "(locks m)(l := (locks m l)\<lparr>locked := 0, lk_cpu := None\<rparr>) = locks m"
    using assms by (simp add: fun_eq_iff)
  have "\<exists>m2. release c l ?m1 = Inr m2 \<and> locks m2 = locks m \<and>
     noff (cpus m2 c) = noff (cpus m c) \<and> sie (cpus m2 c) = sie (cpus m c)"
    using assms k
    by (auto simp: release_def holding_def lock_ops pop_off_def push_off_def intr_on_def
        intr_off_def intr_get_def Let_def)
  with a h s p show ?thesis by blast
qed

theorem acquire_release_roundtrip_witness:
  "\<exists>m1 m2. acquire 0 7 two_cpus = Inr m1 \<and> \<not> sie (cpus m1 0) \<and>
     release 0 7 m1 = Inr m2 \<and> noff (cpus m2 0) = 0 \<and> sie (cpus m2 0)"
  using acquire_release_roundtrip [of two_cpus 7 0] by (auto simp: two_cpus_def)

end
