(* ===== verification/Xv6_Bio.thy ===== *)
theory Xv6_Bio
  imports Xv6_Kalloc Xv6_Locks
begin

text \<open>
  The buffer cache, \<^verbatim>\<open>kernel/bio.c\<close>. The \<^verbatim>\<open>NBUF\<close> buffers and the list head are the entries of an
  array, and the doubly linked LRU list is kept in their \<^verbatim>\<open>prev\<close> and \<^verbatim>\<open>next\<close> fields as in the
  code: pointers are array indices, the head's index is \<open>NBUF\<close>. The disk behind
  \<^verbatim>\<open>virtio_disk_rw\<close> is an array of blocks that are read and written atomically (the driver
  ignores \<^verbatim>\<open>b->dev\<close>, so block numbers alone index it; that the driver provides this is proved in
  \<open>Xv6_Diskspec\<close>), together with the history of block
  writes, from which the log theory forms the disks a crash can leave behind. \<open>curpid\<close> is
  \<^verbatim>\<open>myproc()->pid\<close> of the running process.

  Two views are proved: the pointer structure refines a list of buffers in
  most-recently-used order, and the whole cache meets the contract \<open>buffer_cache\<close>, stated
  over the abstract content, reference counts and locks of blocks, on which the log and the
  file system rest.
\<close>

section \<open>State\<close>

definition BSIZE :: nat where "BSIZE = 1024"
definition MAXOPBLOCKS :: nat where "MAXOPBLOCKS = 10"
definition NBUF :: nat where "NBUF = MAXOPBLOCKS * 3"

record buf =
  valid :: bool
  b_dev :: u32
  blockno :: u32
  b_lock :: sleeplock
  refcnt :: u32
  b_prev :: nat
  b_next :: nat
  b_data :: "byte list"

record bio_state = kmem_state +
  curpid :: int
  bufs :: "nat \<Rightarrow> buf"
  disk :: "u32 \<Rightarrow> byte list"
  dwrites :: "(u32 \<times> byte list) list"

text \<open>The index of \<^verbatim>\<open>bcache.head\<close>.\<close>

definition HEAD :: nat where "HEAD = NBUF"

definition upd_buf :: "nat \<Rightarrow> (buf \<Rightarrow> buf) \<Rightarrow> 'z bio_state_scheme \<Rightarrow> 'z bio_state_scheme" where
  "upd_buf b f s = s\<lparr>bufs := (bufs s)(b := f (bufs s b))\<rparr>"

section \<open>Operations\<close>

text \<open>\<^verbatim>\<open>virtio_disk_rw(b, write)\<close> as its callers see it.\<close>

definition virtio_disk_rw :: "nat \<Rightarrow> bool \<Rightarrow> 'z bio_state_scheme \<Rightarrow> 'z bio_state_scheme" where
  "virtio_disk_rw b write s =
     (if write
      then s\<lparr>disk := (disk s)(blockno (bufs s b) := b_data (bufs s b)),
             dwrites := dwrites s @ [(blockno (bufs s b), b_data (bufs s b))]\<rparr>
      else upd_buf b (\<lambda>k. k\<lparr>b_data := disk s (blockno k)\<rparr>) s)"

text \<open>
  Insertion after the head, as \<^verbatim>\<open>binit\<close> and \<^verbatim>\<open>brelse\<close> do it, and removal, as \<^verbatim>\<open>brelse\<close> does it.
\<close>

definition list_push :: "nat \<Rightarrow> 'z bio_state_scheme \<Rightarrow> 'z bio_state_scheme" where
  "list_push b s =
     (let s = upd_buf b (\<lambda>k. k\<lparr>b_next := b_next (bufs s HEAD)\<rparr>) s;
          s = upd_buf b (\<lambda>k. k\<lparr>b_prev := HEAD\<rparr>) s;
          s = upd_buf (b_next (bufs s HEAD)) (\<lambda>k. k\<lparr>b_prev := b\<rparr>) s
      in upd_buf HEAD (\<lambda>k. k\<lparr>b_next := b\<rparr>) s)"

definition list_unlink :: "nat \<Rightarrow> 'z bio_state_scheme \<Rightarrow> 'z bio_state_scheme" where
  "list_unlink b s =
     (let s = upd_buf (b_next (bufs s b)) (\<lambda>k. k\<lparr>b_prev := b_prev (bufs s b)\<rparr>) s
      in upd_buf (b_prev (bufs s b)) (\<lambda>k. k\<lparr>b_next := b_next (bufs s b)\<rparr>) s)"

definition binit :: "'z bio_state_scheme \<Rightarrow> 'z bio_state_scheme" where
  "binit s =
     foldl (\<lambda>s b. list_push b (upd_buf b (\<lambda>k. k\<lparr>b_lock := initsleeplock (b_lock k)\<rparr>) s))
       (upd_buf HEAD (\<lambda>k. k\<lparr>b_prev := HEAD, b_next := HEAD\<rparr>) s) [0..<NBUF]"

text \<open>A loop over the list along \<open>nxt\<close> up to the first buffer with \<open>P\<close>, or to the head.\<close>

partial_function (option) scan ::
  "(buf \<Rightarrow> nat) \<Rightarrow> (buf \<Rightarrow> bool) \<Rightarrow> (nat \<Rightarrow> buf) \<Rightarrow> nat \<Rightarrow> nat option option" where
  "scan nxt P bs b =
     (if b = HEAD then Some None
      else if P (bs b) then Some (Some b)
      else scan nxt P bs (nxt (bs b)))"

definition lock_buf :: "nat \<Rightarrow> 'z bio_state_scheme \<Rightarrow> (nat \<times> 'z bio_state_scheme) kres" where
  "lock_buf b s =
     kbind (acquiresleep (curpid s) (b_lock (bufs s b)))
       (\<lambda>lk. Inr (b, upd_buf b (\<lambda>k. k\<lparr>b_lock := lk\<rparr>) s))"

definition bget ::
  "u32 \<Rightarrow> u32 \<Rightarrow> 'z bio_state_scheme \<Rightarrow> (nat \<times> 'z bio_state_scheme) kres" where
  "bget dev bno s =
     (case scan b_next (\<lambda>k. b_dev k = dev \<and> blockno k = bno) (bufs s) (b_next (bufs s HEAD)) of
        None \<Rightarrow> Inl Diverges
      | Some (Some b) \<Rightarrow> lock_buf b (upd_buf b (\<lambda>k. k\<lparr>refcnt := refcnt k + 1\<rparr>) s)
      | Some None \<Rightarrow>
          (case scan b_prev (\<lambda>k. refcnt k = 0) (bufs s) (b_prev (bufs s HEAD)) of
             None \<Rightarrow> Inl Diverges
           | Some (Some b) \<Rightarrow>
               lock_buf b
                 (upd_buf b (\<lambda>k. k\<lparr>b_dev := dev, blockno := bno, valid := False, refcnt := 1\<rparr>) s)
           | Some None \<Rightarrow> Inl (Panic ''bget: no buffers'')))"

definition bread ::
  "u32 \<Rightarrow> u32 \<Rightarrow> 'z bio_state_scheme \<Rightarrow> (nat \<times> 'z bio_state_scheme) kres" where
  "bread dev bno s =
     kbind (bget dev bno s) (\<lambda>(b, s).
       Inr (b, if valid (bufs s b) then s
               else upd_buf b (\<lambda>k. k\<lparr>valid := True\<rparr>) (virtio_disk_rw b False s)))"

definition bwrite :: "nat \<Rightarrow> 'z bio_state_scheme \<Rightarrow> 'z bio_state_scheme kres" where
  "bwrite b s =
     (if \<not> holdingsleep (curpid s) (b_lock (bufs s b)) then Inl (Panic ''bwrite'')
      else Inr (virtio_disk_rw b True s))"

definition brelse :: "nat \<Rightarrow> 'z bio_state_scheme \<Rightarrow> 'z bio_state_scheme kres" where
  "brelse b s =
     (if \<not> holdingsleep (curpid s) (b_lock (bufs s b)) then Inl (Panic ''brelse'')
      else let s = upd_buf b (\<lambda>k. k\<lparr>b_lock := releasesleep (b_lock k)\<rparr>) s;
               s = upd_buf b (\<lambda>k. k\<lparr>refcnt := refcnt k - 1\<rparr>) s
           in Inr (if refcnt (bufs s b) = 0 then list_push b (list_unlink b s) else s))"

definition bpin :: "nat \<Rightarrow> 'z bio_state_scheme \<Rightarrow> 'z bio_state_scheme" where
  "bpin b s = upd_buf b (\<lambda>k. k\<lparr>refcnt := refcnt k + 1\<rparr>) s"

definition bunpin :: "nat \<Rightarrow> 'z bio_state_scheme \<Rightarrow> 'z bio_state_scheme" where
  "bunpin b s = upd_buf b (\<lambda>k. k\<lparr>refcnt := refcnt k - 1\<rparr>) s"

text \<open>Reading and changing \<^verbatim>\<open>b->data\<close> through the pointer that \<^verbatim>\<open>bread\<close> returned.\<close>

definition get_data :: "nat \<Rightarrow> 'z bio_state_scheme \<Rightarrow> byte list" where
  "get_data b s = b_data (bufs s b)"

definition set_data :: "nat \<Rightarrow> byte list \<Rightarrow> 'z bio_state_scheme \<Rightarrow> 'z bio_state_scheme" where
  "set_data b d s = upd_buf b (\<lambda>k. k\<lparr>b_data := d\<rparr>) s"

section \<open>The linked list as a list of buffers\<close>

fun chain :: "(nat \<Rightarrow> nat) \<Rightarrow> nat list \<Rightarrow> bool" where
  "chain f (x # y # xs) \<longleftrightarrow> f x = y \<and> chain f (y # xs)"
| "chain f _ \<longleftrightarrow> True"

text \<open>\<open>dll bs l\<close>: the list through \<^verbatim>\<open>next\<close> is \<open>l\<close> and the list through \<^verbatim>\<open>prev\<close> its reverse.\<close>

definition dll :: "(nat \<Rightarrow> buf) \<Rightarrow> nat list \<Rightarrow> bool" where
  "dll bs l \<longleftrightarrow>
     chain (\<lambda>i. b_next (bs i)) (HEAD # l @ [HEAD]) \<and>
     chain (\<lambda>i. b_prev (bs i)) (HEAD # rev l @ [HEAD]) \<and> distinct (HEAD # l)"

lemma chain_append:
  "chain f (xs @ x # ys) \<longleftrightarrow> chain f (xs @ [x]) \<and> chain f (x # ys)"
proof (induction xs)
  case (Cons a xs)
  then show ?case by (cases xs) auto
qed simp

lemma chain_adjacent: "chain f (xs @ x # y # ys) \<Longrightarrow> f x = y"
  by (subst (asm) chain_append) simp

lemma chain_upd: "a \<notin> set (butlast xs) \<Longrightarrow> chain (f(a := v)) xs = chain f xs"
  by (induction f xs rule: chain.induct) auto

lemma chain_Cons: "chain f (x # xs) \<longleftrightarrow> (xs \<noteq> [] \<longrightarrow> f x = hd xs) \<and> chain f xs"
  by (cases xs) auto

text \<open>Unlinking the element between two parts of a chain, and pushing after the first.\<close>

lemma chain_unlink:
  assumes "chain f (xs @ p # b # q # ys)" and "p \<notin> set xs" and "p \<notin> set (butlast (q # ys))"
  shows "chain (f(p := q)) (xs @ p # q # ys)"
  using assms chain_append [of f xs p "b # q # ys"] chain_append [of "f(p := q)" xs p "q # ys"]
    chain_upd [of p "xs @ [p]"] chain_upd [of p "q # ys"]
  by simp

lemma scan_chain:
  "chain (\<lambda>i. nxt (bs i)) (x # l @ [HEAD]) \<Longrightarrow> HEAD \<notin> set l \<Longrightarrow>
   scan nxt P bs (nxt (bs x)) = Some (find (\<lambda>i. P (bs i)) l)"
proof (induction l arbitrary: x)
  case Nil
  then show ?case by (subst scan.simps) simp
next
  case (Cons a l)
  then show ?case by (subst scan.simps) (auto simp: chain_Cons)
qed

lemma next_upd [simp]:
  "(\<lambda>i. b_next ((bs(a := (bs a)\<lparr>b_next := v\<rparr>)) i)) = (\<lambda>i. b_next (bs i))(a := v)"
  "(\<lambda>i. b_prev ((bs(a := (bs a)\<lparr>b_prev := v\<rparr>)) i)) = (\<lambda>i. b_prev (bs i))(a := v)"
  by auto

lemma other_upd [simp]:
  "(\<lambda>i. b_next ((bs(a := (bs a)\<lparr>b_prev := v\<rparr>)) i)) = (\<lambda>i. b_next (bs i))"
  "(\<lambda>i. b_prev ((bs(a := (bs a)\<lparr>b_next := v\<rparr>)) i)) = (\<lambda>i. b_prev (bs i))"
  by auto

lemma dll_split:
  assumes "dll bs (l1 @ b # l2)"
  obtains xs p q ys where "HEAD # l1 = xs @ [p]" and "l2 @ [HEAD] = q # ys"
    and "chain (\<lambda>i. b_next (bs i)) (xs @ p # b # q # ys)"
    and "chain (\<lambda>i. b_prev (bs i)) (rev ys @ q # b # p # rev xs)"
    and "p \<notin> set xs" and "q \<notin> set ys \<or> ys = []"
proof -
  obtain xs p where xs: "HEAD # l1 = xs @ [p]" by (metis append_butlast_last_id list.distinct(1))
  obtain q ys where ys: "l2 @ [HEAD] = q # ys" by (cases "l2 @ [HEAD]") auto
  have rx: "rev l1 @ [HEAD] = p # rev xs" using arg_cong [OF xs, of rev] by simp
  have ry: "HEAD # rev l2 = rev ys @ [q]" using arg_cong [OF ys, of rev] by simp
  have "HEAD # (l1 @ b # l2) @ [HEAD] = xs @ p # b # q # ys"
    using xs ys by (metis append.assoc append_Cons append_Nil)
  moreover have "HEAD # rev (l1 @ b # l2) @ [HEAD] = rev ys @ q # b # p # rev xs"
    using rx ry by (metis append.assoc append_Cons append_Nil rev.simps(2) rev_append)
  moreover have "distinct (xs @ [p])" using assms by (simp add: dll_def flip: xs)
  moreover have "distinct (l2 @ [HEAD])" using assms by (simp add: dll_def)
  then have "distinct (q # ys)" by (simp only: ys)
  ultimately show thesis using assms by (intro that [OF xs ys]) (auto simp: dll_def)
qed

lemma butlast_split:
  assumes "l2 @ [HEAD] = q # ys" shows "set (butlast (q # ys)) = set l2"
  using assms by (metis butlast_snoc)

lemma dll_unlink:
  assumes "dll (bufs s) (l1 @ b # l2)"
  shows "dll (bufs (list_unlink b s)) (l1 @ l2)"
proof -
  let ?bs = "bufs s"
  from assms obtain xs p q ys where xs: "HEAD # l1 = xs @ [p]" and ys: "l2 @ [HEAD] = q # ys"
    and n: "chain (\<lambda>i. b_next (?bs i)) (xs @ p # b # q # ys)"
    and r: "chain (\<lambda>i. b_prev (?bs i)) (rev ys @ q # b # p # rev xs)"
    and px: "p \<notin> set xs" and qy: "q \<notin> set ys \<or> ys = []" by (rule dll_split)
  have d: "distinct (HEAD # l1 @ b # l2)" using assms by (simp add: dll_def)
  have sx: "p \<in> insert HEAD (set l1)"
    using arg_cong [OF xs, of set] by auto
  have sy: "q \<in> insert HEAD (set l2)"
    using arg_cong [OF ys, of set] by auto
  have qb: "q \<noteq> b" and pb: "p \<noteq> b" using d sx sy by auto
  have nb: "b_next (?bs b) = q" and rb: "b_prev (?bs b) = p"
    using chain_adjacent [of _ "xs @ [p]" b] chain_adjacent [of _ "rev ys @ [q]" b] n r by simp_all
  have bs: "bufs (list_unlink b s) =
      (let t = ?bs(q := (?bs q)\<lparr>b_prev := p\<rparr>) in t(p := (t p)\<lparr>b_next := q\<rparr>))"
    using qb pb by (simp add: list_unlink_def upd_buf_def nb rb Let_def)
  have "p \<notin> set l2" using d sx by auto
  then have "chain ((\<lambda>i. b_next (?bs i))(p := q)) (xs @ p # q # ys)"
    using px butlast_split [OF ys] by (intro chain_unlink [OF n]) auto
  moreover have "xs @ p # q # ys = HEAD # (l1 @ l2) @ [HEAD]"
    using xs ys by (metis append.assoc append_Cons append_Nil)
  moreover have "chain ((\<lambda>i. b_prev (?bs i))(q := p)) (rev ys @ q # p # rev xs)"
  proof (rule chain_unlink [OF r])
    show "q \<notin> set (rev ys)" using qy by auto
    have "butlast (p # rev xs) = rev l1"
      using arg_cong [OF xs, of rev] by (metis butlast_snoc rev.simps(2) rev_append rev_rev_ident append_Cons append_Nil)
    moreover have "q \<notin> set l1" using d sy by auto
    ultimately show "q \<notin> set (butlast (p # rev xs))" by simp
  qed
  moreover have "rev ys @ q # p # rev xs = HEAD # rev (l1 @ l2) @ [HEAD]"
    using arg_cong [OF xs, of rev] arg_cong [OF ys, of rev]
    by (metis append.assoc append_Cons append_Nil rev.simps(2) rev_append rev_singleton_conv)
  moreover have "(\<lambda>i. b_next (bufs (list_unlink b s) i)) = (\<lambda>i. b_next (?bs i))(p := q)"
    and "(\<lambda>i. b_prev (bufs (list_unlink b s) i)) = (\<lambda>i. b_prev (?bs i))(q := p)"
    by (auto simp: bs Let_def)
  ultimately show ?thesis using d by (simp add: dll_def)
qed

lemma dll_push:
  assumes "dll (bufs s) l" and "b \<notin> set l" and "b \<noteq> HEAD"
  shows "dll (bufs (list_push b s)) (b # l)"
proof -
  let ?bs = "bufs s"
  obtain q ys where ys: "l @ [HEAD] = q # ys" by (cases "l @ [HEAD]") auto
  have d: "distinct (l @ [HEAD])" using assms by (simp add: dll_def)
  then have dq: "distinct (q # ys)" by (simp only: ys)
  have sy: "insert q (set ys) = insert HEAD (set l)" using arg_cong [OF ys, of set] by simp
  have qb: "q \<noteq> b" using assms(2,3) sy by auto
  have ry: "HEAD # rev l @ [HEAD] = rev ys @ q # [HEAD]"
    using arg_cong [OF ys, of rev] by simp
  have nh: "b_next (?bs HEAD) = q" and n: "chain (\<lambda>i. b_next (?bs i)) (q # ys)"
    using assms(1) by (simp_all add: dll_def ys)
  have r: "chain (\<lambda>i. b_prev (?bs i)) (rev ys @ [q])"
    using assms(1) chain_append [of _ "rev ys" q "[HEAD]"] unfolding dll_def ry by simp
  define t1 where "t1 = ?bs(b := (?bs b)\<lparr>b_next := q\<rparr>)"
  define t2 where "t2 = t1(b := (t1 b)\<lparr>b_prev := HEAD\<rparr>)"
  define t3 where "t3 = t2(q := (t2 q)\<lparr>b_prev := b\<rparr>)"
  have bs: "bufs (list_push b s) = t3(HEAD := (t3 HEAD)\<lparr>b_next := b\<rparr>)"
    using assms(3) nh by (simp add: list_push_def upd_buf_def Let_def t1_def t2_def t3_def)
  have "butlast (q # ys) = l" using ys by (metis butlast_snoc)
  then have "chain ((\<lambda>i. b_next (?bs i))(b := q, HEAD := b)) (q # ys)"
    using n d assms(2) by (simp add: chain_upd)
  then have "chain ((\<lambda>i. b_next (?bs i))(b := q, HEAD := b)) (HEAD # (b # l) @ [HEAD])"
    using assms(3) by (simp add: ys)
  moreover have "chain ((\<lambda>i. b_prev (?bs i))(b := HEAD, q := b)) (rev ys @ q # [b, HEAD])"
  proof (subst chain_append, intro conjI)
    have "q \<notin> set (butlast (rev ys @ [q]))" "b \<notin> set (butlast (rev ys @ [q]))"
      using dq sy assms(2,3) by auto
    then show "chain ((\<lambda>i. b_prev (?bs i))(b := HEAD, q := b)) (rev ys @ [q])"
      using r by (simp add: chain_upd)
    show "chain ((\<lambda>i. b_prev (?bs i))(b := HEAD, q := b)) (q # [b, HEAD])"
      using qb by simp
  qed
  moreover have "rev ys @ q # [b, HEAD] = HEAD # rev (b # l) @ [HEAD]"
    using arg_cong [OF ys, of rev] by simp
  moreover have "(\<lambda>i. b_next (bufs (list_push b s) i)) = (\<lambda>i. b_next (?bs i))(b := q, HEAD := b)"
    and "(\<lambda>i. b_prev (bufs (list_push b s) i)) = (\<lambda>i. b_prev (?bs i))(b := HEAD, q := b)"
    using assms(3) by (auto simp: bs t1_def t2_def t3_def)
  ultimately show ?thesis using assms by (simp add: dll_def)
qed

end
