(* ===== verification/Xv6_Bcache.thy ===== *)
theory Xv6_Bcache
  imports Xv6_Bio
begin

text \<open>
  What the buffer cache promises its clients. The view of a cache is the logical content of
  every block (the cached copy if there is one, else the disk), the content of the disk, the
  reference count and the lock of every block, and the history of disk writes. The locale
  \<open>buffer_cache\<close> states the effect of each operation on the view; it is interpreted on
  the operations of \<^verbatim>\<open>kernel/bio.c\<close> for any device.
\<close>

section \<open>The view of a cache\<close>

record bview =
  v_blk :: "u32 \<Rightarrow> byte list"
  v_disk :: "u32 \<Rightarrow> byte list"
  v_refs :: "u32 \<Rightarrow> nat"
  v_lock :: "u32 \<Rightarrow> int option"
  v_writes :: "(u32 \<times> byte list) list"

definition slot :: "u32 \<Rightarrow> 'z bio_state_scheme \<Rightarrow> u32 \<Rightarrow> nat option" where
  "slot dev s b = find (\<lambda>i. b_dev (bufs s i) = dev \<and> blockno (bufs s i) = b) [0..<NBUF]"

definition cached :: "u32 \<Rightarrow> 'z bio_state_scheme \<Rightarrow> (u32 \<Rightarrow> buf \<Rightarrow> 'a) \<Rightarrow> (u32 \<Rightarrow> 'a) \<Rightarrow> u32 \<Rightarrow> 'a" where
  "cached dev s f d b = (case slot dev s b of None \<Rightarrow> d b | Some i \<Rightarrow> f b (bufs s i))"

definition lock_owner :: "sleeplock \<Rightarrow> int option" where
  "lock_owner lk = (if sl_locked lk = 0 then None else Some (sl_pid lk))"

definition view :: "u32 \<Rightarrow> 'z bio_state_scheme \<Rightarrow> bview" where
  "view dev s =
     \<lparr>v_blk = cached dev s (\<lambda>b k. if valid k then b_data k else disk s b) (disk s),
      v_disk = disk s,
      v_refs = cached dev s (\<lambda>b k. unat (refcnt k)) (\<lambda>b. 0),
      v_lock = cached dev s (\<lambda>b k. lock_owner (b_lock k)) (\<lambda>b. None),
      v_writes = dwrites s\<rparr>"

definition buf_ok :: "u32 \<Rightarrow> (u32 \<Rightarrow> byte list) \<Rightarrow> buf \<Rightarrow> bool" where
  "buf_ok dev d k \<longleftrightarrow>
     (refcnt k \<noteq> 0 \<longrightarrow> b_dev k = dev \<and> valid k) \<and>
     (sl_locked (b_lock k) \<noteq> 0 \<longrightarrow> refcnt k \<noteq> 0) \<and>
     (b_dev k = dev \<and> valid k \<longrightarrow> length (b_data k) = BSIZE) \<and>
     (b_dev k = dev \<and> valid k \<and> refcnt k = 0 \<longrightarrow> b_data k = d (blockno k))"

definition uniq_bufs :: "u32 \<Rightarrow> (nat \<Rightarrow> buf) \<Rightarrow> bool" where
  "uniq_bufs dev bs \<longleftrightarrow>
     (\<forall>i < NBUF. \<forall>j < NBUF. b_dev (bs i) = dev \<and> b_dev (bs j) = dev \<and>
        blockno (bs i) = blockno (bs j) \<longrightarrow> i = j)"

definition lru_list :: "(nat \<Rightarrow> buf) \<Rightarrow> bool" where
  "lru_list bs \<longleftrightarrow> (\<exists>l. dll bs l \<and> set l = {..<NBUF})"

definition binv :: "u32 \<Rightarrow> 'z bio_state_scheme \<Rightarrow> bool" where
  "binv dev s \<longleftrightarrow>
     lru_list (bufs s) \<and> uniq_bufs dev (bufs s) \<and>
     (\<forall>i < NBUF. buf_ok dev (disk s) (bufs s i)) \<and> (\<forall>b. length (disk s b) = BSIZE)"

text \<open>Only the cache and the disk change.\<close>

definition bframe :: "'z bio_state_scheme \<Rightarrow> 'z bio_state_scheme \<Rightarrow> bool" where
  "bframe s s' \<longleftrightarrow> (\<exists>x y z. s' = s\<lparr>bufs := x, disk := y, dwrites := z\<rparr>)"

text \<open>The blocks \<open>B\<close> can be read together: they are unlocked and there are buffers for them.\<close>

definition room :: "bview \<Rightarrow> u32 set \<Rightarrow> bool" where
  "room v B \<longleftrightarrow>
     (\<forall>b \<in> B. v_lock v b = None \<and> v_refs v b < 2 ^ 32 - 2) \<and>
     card ({b. 0 < v_refs v b} \<union> B) \<le> NBUF"

section \<open>The contract\<close>

locale buffer_cache =
  fixes rd :: "u32 \<Rightarrow> 's \<Rightarrow> (nat \<times> 's) kres"
    and wr :: "nat \<Rightarrow> 's \<Rightarrow> 's kres"
    and rel :: "nat \<Rightarrow> 's \<Rightarrow> 's kres"
    and pin :: "nat \<Rightarrow> 's \<Rightarrow> 's"
    and unpin :: "nat \<Rightarrow> 's \<Rightarrow> 's"
    and get :: "nat \<Rightarrow> 's \<Rightarrow> byte list"
    and put :: "nat \<Rightarrow> byte list \<Rightarrow> 's \<Rightarrow> 's"
    and inv :: "'s \<Rightarrow> bool"
    and vw :: "'s \<Rightarrow> bview"
    and hnd :: "'s \<Rightarrow> u32 \<Rightarrow> nat option"
    and pid :: "'s \<Rightarrow> int"
    and frame :: "'s \<Rightarrow> 's \<Rightarrow> bool"
  assumes frame_refl: "frame s s"
    and frame_trans: "frame s s' \<Longrightarrow> frame s' s'' \<Longrightarrow> frame s s''"
    and frame_pid: "frame s s' \<Longrightarrow> pid s' = pid s"
    and unreferenced: "inv s \<Longrightarrow> v_refs (vw s) b = 0 \<Longrightarrow>
      v_blk (vw s) b = v_disk (vw s) b \<and> v_lock (vw s) b = None"
    and finite_refs: "inv s \<Longrightarrow> finite {b. 0 < v_refs (vw s) b}"
    and block_length: "inv s \<Longrightarrow> length (v_blk (vw s) b) = BSIZE \<and> length (v_disk (vw s) b) = BSIZE"
    and rd: "inv s \<Longrightarrow> v_lock (vw s) b = None \<Longrightarrow> v_refs (vw s) b < 2 ^ 32 - 1 \<Longrightarrow>
      0 < v_refs (vw s) b \<or> card {b. 0 < v_refs (vw s) b} < NBUF \<Longrightarrow>
      \<exists>i s'. rd b s = Inr (i, s') \<and> inv s' \<and> frame s s' \<and> hnd s' b = Some i \<and>
        (\<forall>b'. 0 < v_refs (vw s) b' \<longrightarrow> hnd s' b' = hnd s b') \<and>
        vw s' = (vw s)\<lparr>v_refs := (v_refs (vw s))(b := v_refs (vw s) b + 1),
                       v_lock := (v_lock (vw s))(b := Some (pid s))\<rparr>"
    and get: "inv s \<Longrightarrow> hnd s b = Some i \<Longrightarrow> 0 < v_refs (vw s) b \<Longrightarrow> get i s = v_blk (vw s) b"
    and put: "inv s \<Longrightarrow> hnd s b = Some i \<Longrightarrow> 0 < v_refs (vw s) b \<Longrightarrow> length d = BSIZE \<Longrightarrow>
      inv (put i d s) \<and> frame s (put i d s) \<and> hnd (put i d s) = hnd s \<and>
      vw (put i d s) = (vw s)\<lparr>v_blk := (v_blk (vw s))(b := d)\<rparr>"
    and wr: "inv s \<Longrightarrow> hnd s b = Some i \<Longrightarrow> v_lock (vw s) b = Some (pid s) \<Longrightarrow>
      \<exists>s'. wr i s = Inr s' \<and> inv s' \<and> frame s s' \<and> hnd s' = hnd s \<and>
        vw s' = (vw s)\<lparr>v_disk := (v_disk (vw s))(b := v_blk (vw s) b),
                       v_writes := v_writes (vw s) @ [(b, v_blk (vw s) b)]\<rparr>"
    and rel: "inv s \<Longrightarrow> hnd s b = Some i \<Longrightarrow> v_lock (vw s) b = Some (pid s) \<Longrightarrow>
      1 < v_refs (vw s) b \<or> v_blk (vw s) b = v_disk (vw s) b \<Longrightarrow>
      \<exists>s'. rel i s = Inr s' \<and> inv s' \<and> frame s s' \<and> hnd s' = hnd s \<and>
        vw s' = (vw s)\<lparr>v_refs := (v_refs (vw s))(b := v_refs (vw s) b - 1),
                       v_lock := (v_lock (vw s))(b := None)\<rparr>"
    and pin: "inv s \<Longrightarrow> hnd s b = Some i \<Longrightarrow> 0 < v_refs (vw s) b \<Longrightarrow>
      v_refs (vw s) b < 2 ^ 32 - 1 \<Longrightarrow>
      inv (pin i s) \<and> frame s (pin i s) \<and> hnd (pin i s) = hnd s \<and>
      vw (pin i s) = (vw s)\<lparr>v_refs := (v_refs (vw s))(b := v_refs (vw s) b + 1)\<rparr>"
    and unpin: "inv s \<Longrightarrow> hnd s b = Some i \<Longrightarrow> 1 < v_refs (vw s) b \<Longrightarrow>
      inv (unpin i s) \<and> frame s (unpin i s) \<and> hnd (unpin i s) = hnd s \<and>
      vw (unpin i s) = (vw s)\<lparr>v_refs := (v_refs (vw s))(b := v_refs (vw s) b - 1)\<rparr>"
begin

lemma rd1:
  assumes "inv s" and "room (vw s) {b}"
  obtains i s1 where "rd b s = Inr (i, s1)" and "inv s1" and "frame s s1" and "hnd s1 b = Some i"
    and "\<forall>b'. 0 < v_refs (vw s) b' \<longrightarrow> hnd s1 b' = hnd s b'"
    and "vw s1 = (vw s)\<lparr>v_refs := (v_refs (vw s))(b := v_refs (vw s) b + 1),
       v_lock := (v_lock (vw s))(b := Some (pid s))\<rparr>"
proof -
  have "card {b. 0 < v_refs (vw s) b} < NBUF" if "v_refs (vw s) b = 0"
    using assms(2) that finite_refs [OF assms(1)] by (simp add: room_def)
  then show thesis
    using rd [OF assms(1), of b] assms(2) that by (auto simp: room_def)
qed

text \<open>Reading a block and letting it go again leaves the view as it was.\<close>

lemma peek:
  assumes "inv s" and "room (vw s) {b}"
  obtains i s1 s2 where "rd b s = Inr (i, s1)" and "get i s1 = v_blk (vw s) b"
    and "frame s s1" and "rel i s1 = Inr s2" and "inv s2" and "frame s s2" and "vw s2 = vw s"
    and "\<forall>b'. 0 < v_refs (vw s) b' \<longrightarrow> hnd s2 b' = hnd s b'"
proof -
  obtain i s1 where 1: "rd b s = Inr (i, s1)" "inv s1" "frame s s1" "hnd s1 b = Some i"
    "\<forall>b'. 0 < v_refs (vw s) b' \<longrightarrow> hnd s1 b' = hnd s b'"
    "vw s1 = (vw s)\<lparr>v_refs := (v_refs (vw s))(b := v_refs (vw s) b + 1),
       v_lock := (v_lock (vw s))(b := Some (pid s))\<rparr>"
    by (rule rd1 [OF assms])
  have "1 < v_refs (vw s1) b \<or> v_blk (vw s1) b = v_disk (vw s1) b"
    using unreferenced [OF assms(1), of b] 1(6) by auto
  moreover have "v_lock (vw s1) b = Some (pid s1)" using 1(6) frame_pid [OF 1(3)] by simp
  ultimately obtain s2 where 2: "rel i s1 = Inr s2" "inv s2" "frame s1 s2" "hnd s2 = hnd s1"
    "vw s2 = (vw s1)\<lparr>v_refs := (v_refs (vw s1))(b := v_refs (vw s1) b - 1),
       v_lock := (v_lock (vw s1))(b := None)\<rparr>"
    using rel [OF 1(2,4)] by blast
  have "v_lock (vw s) b = None" using assms(2) by (simp add: room_def)
  then have "vw s2 = vw s" using 2(5) 1(6) by (simp add: fun_upd_idem)
  moreover have "get i s1 = v_blk (vw s) b" using get [OF 1(2,4)] 1(6) by simp
  moreover have "frame s s2" by (rule frame_trans [OF 1(3) 2(3)])
  moreover have "\<forall>b'. 0 < v_refs (vw s) b' \<longrightarrow> hnd s2 b' = hnd s b'"
    using 1(5) 2(4) by simp
  ultimately show thesis using 1(1,3) 2(1,2) by (intro that)
qed

lemma rd2:
  assumes "inv s" and "x \<noteq> y" and "room (vw s) {x, y}"
  obtains i j s1 s2 where "rd x s = Inr (i, s1)" and "rd y s1 = Inr (j, s2)" and "inv s2"
    and "frame s s2" and "hnd s2 x = Some i" and "hnd s2 y = Some j"
    and "vw s2 = (vw s)\<lparr>
       v_refs := (v_refs (vw s))(x := v_refs (vw s) x + 1, y := v_refs (vw s) y + 1),
       v_lock := (v_lock (vw s))(x := Some (pid s), y := Some (pid s))\<rparr>"
proof -
  have f: "finite {b. 0 < v_refs (vw s) b}" by (rule finite_refs [OF assms(1)])
  have "card ({b. 0 < v_refs (vw s) b} \<union> {x}) \<le> card ({b. 0 < v_refs (vw s) b} \<union> {x, y})"
    using f by (intro card_mono) auto
  then have "room (vw s) {x}" using assms(3) by (auto simp: room_def)
  with assms(1) obtain i s1 where 1: "rd x s = Inr (i, s1)" "inv s1" "frame s s1" "hnd s1 x = Some i"
    "vw s1 = (vw s)\<lparr>v_refs := (v_refs (vw s))(x := v_refs (vw s) x + 1),
       v_lock := (v_lock (vw s))(x := Some (pid s))\<rparr>"
    by (rule rd1)
  have "{b. 0 < v_refs (vw s1) b} \<union> {y} = {b. 0 < v_refs (vw s) b} \<union> {x, y}"
    using 1(5) by auto
  then have "room (vw s1) {y}" using assms(2,3) 1(5) by (simp add: room_def)
  with 1(2) obtain j s2 where 2: "rd y s1 = Inr (j, s2)" "inv s2" "frame s1 s2" "hnd s2 y = Some j"
    "\<forall>b'. 0 < v_refs (vw s1) b' \<longrightarrow> hnd s2 b' = hnd s1 b'"
    "vw s2 = (vw s1)\<lparr>v_refs := (v_refs (vw s1))(y := v_refs (vw s1) y + 1),
       v_lock := (v_lock (vw s1))(y := Some (pid s1))\<rparr>"
    by (rule rd1)
  have "frame s s2" by (rule frame_trans [OF 1(3) 2(3)])
  moreover have "hnd s2 x = Some i" using 2(5) 1(4,5) by simp
  moreover have "vw s2 = (vw s)\<lparr>
       v_refs := (v_refs (vw s))(x := v_refs (vw s) x + 1, y := v_refs (vw s) y + 1),
       v_lock := (v_lock (vw s))(x := Some (pid s), y := Some (pid s))\<rparr>"
    using 2(6) 1(5) assms(2) frame_pid [OF 1(3)] by simp
  ultimately show thesis using 1(1) 2(1,2,4) by (intro that)
qed

text \<open>
  The two copy loops of the log: read a source and a different destination block, copy the
  data, write the destination to disk, and release both. \<open>unpin_it\<close> is the install loop's
  release of the pin.
\<close>

definition copy_out :: "u32 \<Rightarrow> u32 \<Rightarrow> 's \<Rightarrow> 's kres" where
  "copy_out dst src s =
     kbind (rd dst s) (\<lambda>(i, s). kbind (rd src s) (\<lambda>(j, s).
       kbind (wr i (put i (get j s) s)) (\<lambda>s. kbind (rel j s) (rel i))))"

definition copy_in :: "bool \<Rightarrow> u32 \<Rightarrow> u32 \<Rightarrow> 's \<Rightarrow> 's kres" where
  "copy_in unpin_it src dst s =
     kbind (rd src s) (\<lambda>(i, s). kbind (rd dst s) (\<lambda>(j, s).
       kbind (wr j (put j (get i s) s)) (\<lambda>s.
         let s = (if unpin_it then unpin j s else s) in kbind (rel i s) (rel j))))"

lemma put_wr:
  assumes "inv s" and "hnd s b = Some i" and "v_lock (vw s) b = Some (pid s)"
    and "0 < v_refs (vw s) b" and "length d = BSIZE"
  obtains s' where "wr i (put i d s) = Inr s'" and "inv s'" and "frame s s'" and "hnd s' = hnd s"
    and "vw s' = (vw s)\<lparr>v_blk := (v_blk (vw s))(b := d), v_disk := (v_disk (vw s))(b := d),
       v_writes := v_writes (vw s) @ [(b, d)]\<rparr>"
proof -
  have p: "inv (put i d s)" "frame s (put i d s)" "hnd (put i d s) = hnd s"
    "vw (put i d s) = (vw s)\<lparr>v_blk := (v_blk (vw s))(b := d)\<rparr>"
    using put [OF assms(1,2,4,5)] by simp_all
  have "v_lock (vw (put i d s)) b = Some (pid (put i d s))"
    using p(4) assms(3) frame_pid [OF p(2)] by simp
  then obtain s' where "wr i (put i d s) = Inr s'" "inv s'" "frame (put i d s) s'"
    "hnd s' = hnd (put i d s)"
    "vw s' = (vw (put i d s))\<lparr>v_disk := (v_disk (vw (put i d s)))(b := v_blk (vw (put i d s)) b),
       v_writes := v_writes (vw (put i d s)) @ [(b, v_blk (vw (put i d s)) b)]\<rparr>"
    using wr [OF p(1), of b i] assms(2) p(3) by auto
  with p show thesis using frame_trans by (intro that [of s']) auto
qed

lemma rel2:
  assumes "inv s" and "x \<noteq> y" and "hnd s x = Some i" and "hnd s y = Some j"
    and "v_lock (vw s) x = Some (pid s)" and "v_lock (vw s) y = Some (pid s)"
    and "1 < v_refs (vw s) x \<or> v_blk (vw s) x = v_disk (vw s) x"
    and "1 < v_refs (vw s) y \<or> v_blk (vw s) y = v_disk (vw s) y"
  obtains s1 s2 where "rel i s = Inr s1" and "rel j s1 = Inr s2" and "inv s2" and "frame s s2"
    and "hnd s2 = hnd s"
    and "vw s2 = (vw s)\<lparr>
       v_refs := (v_refs (vw s))(x := v_refs (vw s) x - 1, y := v_refs (vw s) y - 1),
       v_lock := (v_lock (vw s))(x := None, y := None)\<rparr>"
proof -
  obtain s1 where 1: "rel i s = Inr s1" "inv s1" "frame s s1" "hnd s1 = hnd s"
    "vw s1 = (vw s)\<lparr>v_refs := (v_refs (vw s))(x := v_refs (vw s) x - 1),
       v_lock := (v_lock (vw s))(x := None)\<rparr>"
    using rel [OF assms(1,3,5,7)] by blast
  obtain s2 where 2: "rel j s1 = Inr s2" "inv s2" "frame s1 s2" "hnd s2 = hnd s1"
    "vw s2 = (vw s1)\<lparr>v_refs := (v_refs (vw s1))(y := v_refs (vw s1) y - 1),
       v_lock := (v_lock (vw s1))(y := None)\<rparr>"
    using rel [OF 1(2), of y j] assms 1(4,5) frame_pid [OF 1(3)] by auto
  show thesis
    using 1 2 assms(2) frame_trans [OF 1(3) 2(3)] by (intro that [of s1 s2]) auto
qed

lemma copy_out_ok:
  assumes "inv s" and "dst \<noteq> src" and "room (vw s) {dst, src}"
  obtains s' where "copy_out dst src s = Inr s'" and "inv s'" and "frame s s'"
    and "vw s' = (vw s)\<lparr>v_blk := (v_blk (vw s))(dst := v_blk (vw s) src),
       v_disk := (v_disk (vw s))(dst := v_blk (vw s) src),
       v_writes := v_writes (vw s) @ [(dst, v_blk (vw s) src)]\<rparr>"
proof -
  let ?d = "v_blk (vw s) src"
  obtain i j s1 s2 where 1: "rd dst s = Inr (i, s1)" "rd src s1 = Inr (j, s2)" "inv s2" "frame s s2"
    "hnd s2 dst = Some i" "hnd s2 src = Some j"
    and v: "vw s2 = (vw s)\<lparr>
       v_refs := (v_refs (vw s))(dst := v_refs (vw s) dst + 1, src := v_refs (vw s) src + 1),
       v_lock := (v_lock (vw s))(dst := Some (pid s), src := Some (pid s))\<rparr>"
    by (rule rd2 [OF assms])
  have g: "get j s2 = ?d" using get [OF 1(3,6)] v by simp
  have l: "length ?d = BSIZE" using block_length [OF assms(1)] by simp
  obtain s3 where 3: "wr i (put i ?d s2) = Inr s3" "inv s3" "frame s2 s3" "hnd s3 = hnd s2"
    "vw s3 = (vw s2)\<lparr>v_blk := (v_blk (vw s2))(dst := ?d), v_disk := (v_disk (vw s2))(dst := ?d),
       v_writes := v_writes (vw s2) @ [(dst, ?d)]\<rparr>"
    using put_wr [OF 1(3,5) _ _ l] v assms(2) frame_pid [OF 1(4)] by auto
  have f3: "frame s s3" by (rule frame_trans [OF 1(4) 3(3)])
  have c: "1 < v_refs (vw s3) src \<or> v_blk (vw s3) src = v_disk (vw s3) src"
    using unreferenced [OF assms(1), of src] 3(5) v assms(2) by auto
  have p: "src \<noteq> dst" "hnd s3 src = Some j" "hnd s3 dst = Some i"
    "v_lock (vw s3) src = Some (pid s3)" "v_lock (vw s3) dst = Some (pid s3)"
    "v_blk (vw s3) dst = v_disk (vw s3) dst"
    using 1 3 v assms(2) frame_pid [OF f3] by simp_all
  obtain s4 s5 where 5: "rel j s3 = Inr s4" "rel i s4 = Inr s5" "inv s5" "frame s3 s5"
    "vw s5 = (vw s3)\<lparr>
       v_refs := (v_refs (vw s3))(src := v_refs (vw s3) src - 1, dst := v_refs (vw s3) dst - 1),
       v_lock := (v_lock (vw s3))(src := None, dst := None)\<rparr>"
    by (rule rel2 [OF 3(2) p(1-5) c disjI2 [OF p(6)]])
  have "v_lock (vw s) src = None" "v_lock (vw s) dst = None" using assms(3) by (auto simp: room_def)
  then have "vw s5 = (vw s)\<lparr>v_blk := (v_blk (vw s))(dst := ?d),
      v_disk := (v_disk (vw s))(dst := ?d), v_writes := v_writes (vw s) @ [(dst, ?d)]\<rparr>"
    using 5(5) 3(5) v assms(2) by (simp add: fun_upd_idem fun_upd_twist)
  then show thesis
    using 1 3 5 g frame_trans [OF f3 5(4)] by (intro that [of s5]) (simp_all add: copy_out_def)
qed

lemma copy_in_ok:
  assumes "inv s" and "src \<noteq> dst" and "room (vw s) {src, dst}"
    and "unpin_it \<longrightarrow> 0 < v_refs (vw s) dst"
  obtains s' where "copy_in unpin_it src dst s = Inr s'" and "inv s'" and "frame s s'"
    and "vw s' = (vw s)\<lparr>v_blk := (v_blk (vw s))(dst := v_blk (vw s) src),
       v_disk := (v_disk (vw s))(dst := v_blk (vw s) src),
       v_refs := (if unpin_it then (v_refs (vw s))(dst := v_refs (vw s) dst - 1) else v_refs (vw s)),
       v_writes := v_writes (vw s) @ [(dst, v_blk (vw s) src)]\<rparr>"
proof -
  let ?d = "v_blk (vw s) src"
  obtain i j s1 s2 where 1: "rd src s = Inr (i, s1)" "rd dst s1 = Inr (j, s2)" "inv s2" "frame s s2"
    "hnd s2 src = Some i" "hnd s2 dst = Some j"
    and v: "vw s2 = (vw s)\<lparr>
       v_refs := (v_refs (vw s))(src := v_refs (vw s) src + 1, dst := v_refs (vw s) dst + 1),
       v_lock := (v_lock (vw s))(src := Some (pid s), dst := Some (pid s))\<rparr>"
    by (rule rd2 [OF assms(1-3)])
  have g: "get i s2 = ?d" using get [OF 1(3,5)] v assms(2) by simp
  have l: "length ?d = BSIZE" using block_length [OF assms(1)] by simp
  obtain s3 where 3: "wr j (put j ?d s2) = Inr s3" "inv s3" "frame s2 s3" "hnd s3 = hnd s2"
    "vw s3 = (vw s2)\<lparr>v_blk := (v_blk (vw s2))(dst := ?d), v_disk := (v_disk (vw s2))(dst := ?d),
       v_writes := v_writes (vw s2) @ [(dst, ?d)]\<rparr>"
    using put_wr [OF 1(3,6) _ _ l] v assms(2) frame_pid [OF 1(4)] by auto
  let ?u = "if unpin_it then unpin j s3 else s3"
  have h3: "hnd s3 dst = Some j" using 1(6) 3(4) by simp
  have u: "inv ?u" "frame s3 ?u" "hnd ?u = hnd s3"
    "vw ?u = (if unpin_it then (vw s3)\<lparr>v_refs := (v_refs (vw s3))(dst := v_refs (vw s3) dst - 1)\<rparr>
              else vw s3)"
    using unpin [OF 3(2) h3] 3(2,5) v assms(4) by (auto simp: frame_refl)
  have fu: "frame s ?u" using frame_trans [OF frame_trans [OF 1(4) 3(3)] u(2)] .
  have c: "1 < v_refs (vw ?u) src \<or> v_blk (vw ?u) src = v_disk (vw ?u) src"
    using unreferenced [OF assms(1), of src] 3(5) v u(4) assms(2) by auto
  have p: "hnd ?u src = Some i" "hnd ?u dst = Some j"
    "v_lock (vw ?u) src = Some (pid ?u)" "v_lock (vw ?u) dst = Some (pid ?u)"
    "v_blk (vw ?u) dst = v_disk (vw ?u) dst"
    using 1 3 v u assms(2) frame_pid [OF fu] by auto
  obtain s4 s5 where 5: "rel i ?u = Inr s4" "rel j s4 = Inr s5" "inv s5" "frame ?u s5"
    "vw s5 = (vw ?u)\<lparr>
       v_refs := (v_refs (vw ?u))(src := v_refs (vw ?u) src - 1, dst := v_refs (vw ?u) dst - 1),
       v_lock := (v_lock (vw ?u))(src := None, dst := None)\<rparr>"
    by (rule rel2 [OF u(1) assms(2) p(1-4) c disjI2 [OF p(5)]])
  have "v_lock (vw s) src = None" "v_lock (vw s) dst = None" using assms(3) by (auto simp: room_def)
  then have "vw s5 = (vw s)\<lparr>v_blk := (v_blk (vw s))(dst := ?d),
      v_disk := (v_disk (vw s))(dst := ?d),
      v_refs := (if unpin_it then (v_refs (vw s))(dst := v_refs (vw s) dst - 1) else v_refs (vw s)),
      v_writes := v_writes (vw s) @ [(dst, ?d)]\<rparr>"
    unfolding 5(5) u(4) using 3(5) v assms(2) by (simp add: fun_upd_idem fun_upd_twist)
  then show thesis
    using 1 3 5 g frame_trans [OF fu 5(4)]
    by (intro that [of s5]) (simp_all add: copy_in_def Let_def)
qed

end

section \<open>Lemmas on single-buffer updates\<close>

lemma slot_Some:
  assumes "uniq_bufs dev (bufs s)"
  shows "slot dev s b = Some i \<longleftrightarrow>
    i < NBUF \<and> b_dev (bufs s i) = dev \<and> blockno (bufs s i) = b"
proof
  assume "slot dev s b = Some i"
  then show "i < NBUF \<and> b_dev (bufs s i) = dev \<and> blockno (bufs s i) = b"
    by (auto simp: slot_def find_Some_iff)
next
  assume i: "i < NBUF \<and> b_dev (bufs s i) = dev \<and> blockno (bufs s i) = b"
  then have "slot dev s b \<noteq> None" by (auto simp: slot_def find_None_iff)
  then obtain j where "slot dev s b = Some j" by auto
  moreover from this have "j < NBUF \<and> b_dev (bufs s j) = dev \<and> blockno (bufs s j) = b"
    by (auto simp: slot_def find_Some_iff)
  ultimately show "slot dev s b = Some i"
    using assms i by (auto simp: uniq_bufs_def)
qed

lemma slot_None:
  "slot dev s b = None \<longleftrightarrow> (\<forall>i < NBUF. b_dev (bufs s i) = dev \<longrightarrow> blockno (bufs s i) \<noteq> b)"
  by (auto simp: slot_def find_None_iff)

lemma slot_cong:
  "(\<And>i. b_dev (bufs s' i) = b_dev (bufs s i) \<and> blockno (bufs s' i) = blockno (bufs s i)) \<Longrightarrow>
   slot dev s' = slot dev s"
  by (simp add: slot_def fun_eq_iff)

lemma lru_list_cong:
  "(\<And>i. b_next (bs' i) = b_next (bs i) \<and> b_prev (bs' i) = b_prev (bs i)) \<Longrightarrow>
   lru_list bs' = lru_list bs"
  by (simp add: lru_list_def dll_def)

lemma uniq_bufs_cong:
  "(\<And>i. b_dev (bs' i) = b_dev (bs i) \<and> blockno (bs' i) = blockno (bs i)) \<Longrightarrow>
   uniq_bufs dev bs' = uniq_bufs dev bs"
  by (simp add: uniq_bufs_def)

lemma upd_buf_simps [simp]:
  "bufs (upd_buf i f s) = (bufs s)(i := f (bufs s i))"
  "disk (upd_buf i f s) = disk s"
  "dwrites (upd_buf i f s) = dwrites s"
  "curpid (upd_buf i f s) = curpid s"
  "upd_buf i f (upd_buf i g s) = upd_buf i (\<lambda>k. f (g k)) s"
  by (simp_all add: upd_buf_def)

lemma bframe_upd_buf [simp]: "bframe s (upd_buf i f s)"
  unfolding bframe_def upd_buf_def
  by (intro exI [of _ "(bufs s)(i := f (bufs s i))"] exI [of _ "disk s"] exI [of _ "dwrites s"]) simp

text \<open>An update that changes neither the identity nor the links of a buffer.\<close>

definition keeps :: "(buf \<Rightarrow> buf) \<Rightarrow> bool" where
  "keeps f \<longleftrightarrow> (\<forall>k. b_dev (f k) = b_dev k \<and> blockno (f k) = blockno k \<and>
     b_next (f k) = b_next k \<and> b_prev (f k) = b_prev k)"

lemma slot_upd_buf: "keeps f \<Longrightarrow> slot dev (upd_buf i f s) = slot dev s"
  by (rule slot_cong) (simp add: keeps_def)

lemma binv_upd_buf:
  assumes "binv dev s" and "keeps f" and "i < NBUF \<Longrightarrow> buf_ok dev (disk s) (f (bufs s i))"
  shows "binv dev (upd_buf i f s)"
proof -
  have "lru_list ((bufs s)(i := f (bufs s i))) = lru_list (bufs s)"
    using assms(2) by (intro lru_list_cong) (simp add: keeps_def)
  moreover have "uniq_bufs dev ((bufs s)(i := f (bufs s i))) = uniq_bufs dev (bufs s)"
    using assms(2) by (intro uniq_bufs_cong) (simp add: keeps_def)
  ultimately show ?thesis using assms(1,3) by (simp add: binv_def)
qed

lemma cached_upd_buf:
  assumes "uniq_bufs dev (bufs s)" and "keeps f" and "slot dev s b = Some i"
  shows "cached dev (upd_buf i f s) g d = (cached dev s g d)(b := g b (f (bufs s i)))"
proof
  fix x
  have "slot dev s x = Some i \<longleftrightarrow> x = b"
    using assms slot_Some [OF assms(1)] by auto
  then show "cached dev (upd_buf i f s) g d x = ((cached dev s g d)(b := g b (f (bufs s i)))) x"
    by (auto simp: cached_def slot_upd_buf [OF assms(2)] split: option.splits)
qed

lemma view_upd_buf:
  assumes "binv dev s" and "keeps f" and "slot dev s b = Some i"
  shows "view dev (upd_buf i f s) = (view dev s)\<lparr>
    v_blk := (v_blk (view dev s))(b := if valid (f (bufs s i)) then b_data (f (bufs s i)) else disk s b),
    v_refs := (v_refs (view dev s))(b := unat (refcnt (f (bufs s i)))),
    v_lock := (v_lock (view dev s))(b := lock_owner (b_lock (f (bufs s i))))\<rparr>"
proof -
  have "uniq_bufs dev (bufs s)" using assms(1) by (simp add: binv_def)
  note c = cached_upd_buf [OF this assms(2,3)]
  show ?thesis unfolding view_def c upd_buf_simps(2,3) by simp
qed

text \<open>Relinking the list changes nothing that the view or the rest of the invariant sees.\<close>

definition same_bufs :: "(nat \<Rightarrow> buf) \<Rightarrow> (nat \<Rightarrow> buf) \<Rightarrow> bool" where
  "same_bufs bs bs' \<longleftrightarrow>
     (\<forall>i. bs' i = (bs i)\<lparr>b_next := b_next (bs' i), b_prev := b_prev (bs' i)\<rparr>)"

lemma same_bufs_fields:
  assumes "same_bufs bs bs'"
  shows "valid (bs' i) = valid (bs i)" "b_dev (bs' i) = b_dev (bs i)"
    "blockno (bs' i) = blockno (bs i)" "b_lock (bs' i) = b_lock (bs i)"
    "refcnt (bs' i) = refcnt (bs i)" "b_data (bs' i) = b_data (bs i)"
proof -
  have "bs' i = (bs i)\<lparr>b_next := b_next (bs' i), b_prev := b_prev (bs' i)\<rparr>"
    using assms by (simp add: same_bufs_def)
  then show "valid (bs' i) = valid (bs i)" "b_dev (bs' i) = b_dev (bs i)"
    "blockno (bs' i) = blockno (bs i)" "b_lock (bs' i) = b_lock (bs i)"
    "refcnt (bs' i) = refcnt (bs i)" "b_data (bs' i) = b_data (bs i)"
    by (metis buf.select_convs buf.surjective buf.update_convs)+
qed

lemma same_bufs_trans: "same_bufs bs bs' \<Longrightarrow> same_bufs bs' bs'' \<Longrightarrow> same_bufs bs bs''"
  using same_bufs_fields [of bs bs'] same_bufs_fields [of bs' bs'']
  by (auto simp: same_bufs_def intro!: buf.equality)

lemma same_bufs_push: "same_bufs (bufs s) (bufs (list_push b s))"
  by (auto simp: same_bufs_def list_push_def Let_def)

lemma same_bufs_unlink: "same_bufs (bufs s) (bufs (list_unlink b s))"
  by (auto simp: same_bufs_def list_unlink_def Let_def)

lemmas same_bufs_relink = same_bufs_trans [OF same_bufs_unlink same_bufs_push]

section \<open>The operations meet the contract\<close>

lemma relink_ok:
  assumes "binv dev s" and "i < NBUF"
  shows "binv dev (list_push i (list_unlink i s)) \<and>
    view dev (list_push i (list_unlink i s)) = view dev s \<and>
    slot dev (list_push i (list_unlink i s)) = slot dev s \<and>
    bframe s (list_push i (list_unlink i s))"
proof -
  let ?t = "list_push i (list_unlink i s)"
  note same = same_bufs_fields [OF same_bufs_relink [of s i]]
  have d: "disk ?t = disk s" "dwrites ?t = dwrites s"
    by (simp_all add: list_push_def list_unlink_def Let_def)
  obtain l where l: "dll (bufs s) l" "set l = {..<NBUF}"
    using assms(1) by (auto simp: binv_def lru_list_def)
  then obtain l1 l2 where l12: "l = l1 @ i # l2" using assms(2) by (metis lessThan_iff split_list)
  with l have "i \<notin> set (l1 @ l2)" "i \<noteq> HEAD" by (auto simp: dll_def)
  then have "dll (bufs ?t) (i # l1 @ l2)" using l l12 by (intro dll_push dll_unlink) auto
  moreover have "set (i # l1 @ l2) = {..<NBUF}" using l(2) l12 by auto
  ultimately have "lru_list (bufs ?t)" unfolding lru_list_def by blast
  moreover have "uniq_bufs dev (bufs ?t) = uniq_bufs dev (bufs s)"
    by (intro uniq_bufs_cong) (simp add: same)
  ultimately have "binv dev ?t" using assms(1) by (simp add: binv_def d same buf_ok_def)
  moreover have sl: "slot dev ?t = slot dev s" by (intro slot_cong) (simp add: same)
  moreover have "view dev ?t = view dev s"
    by (simp add: view_def cached_def sl d same fun_eq_iff cong: option.case_cong if_cong)
  moreover have "bframe s ?t"
    unfolding bframe_def
    by (intro exI [of _ "bufs ?t"] exI [of _ "disk s"] exI [of _ "dwrites s"])
      (simp add: list_push_def list_unlink_def Let_def upd_buf_def)
  ultimately show ?thesis by simp
qed

lemma view_slot:
  assumes "slot dev s b = Some i"
  shows "v_refs (view dev s) b = unat (refcnt (bufs s i))"
    and "v_lock (view dev s) b = lock_owner (b_lock (bufs s i))"
    and "v_blk (view dev s) b = (if valid (bufs s i) then b_data (bufs s i) else disk s b)"
  using assms by (simp_all add: view_def cached_def)

lemma view_no_slot:
  assumes "slot dev s b = None"
  shows "v_refs (view dev s) b = 0" "v_lock (view dev s) b = None" "v_blk (view dev s) b = disk s b"
  using assms by (simp_all add: view_def cached_def)

lemma slotD:
  assumes "binv dev s" and "slot dev s b = Some i"
  shows "i < NBUF" "b_dev (bufs s i) = dev" "blockno (bufs s i) = b" "buf_ok dev (disk s) (bufs s i)"
  using assms slot_Some [of dev s b i] by (auto simp: binv_def)

lemma view_disk [simp]: "v_disk (view dev s) = disk s" "v_writes (view dev s) = dwrites s"
  by (simp_all add: view_def)

lemma valid_idem: "valid k \<Longrightarrow> k\<lparr>valid := True\<rparr> = k"
  by (cases k) simp

lemma bread_hit:
  assumes "binv dev s" and "slot dev s b = Some i" and "v_lock (view dev s) b = None"
    and "v_refs (view dev s) b < 2 ^ 32 - 1"
  shows "bread dev b s = Inr (i, upd_buf i (\<lambda>k. k\<lparr>refcnt := refcnt k + 1,
    b_lock := (b_lock k)\<lparr>sl_locked := 1, sl_pid := curpid s\<rparr>,
    b_data := (if valid k then b_data k else disk s b), valid := True\<rparr>) s)"
proof -
  note i = slotD [OF assms(1,2)]
  obtain l where l: "dll (bufs s) l" "set l = {..<NBUF}"
    using assms(1) by (auto simp: binv_def lru_list_def)
  have u: "uniq_bufs dev (bufs s)" using assms(1) by (simp add: binv_def)
  let ?P = "\<lambda>k. b_dev k = dev \<and> blockno k = b"
  have "find (\<lambda>j. ?P (bufs s j)) l \<noteq> None" using i l(2) by (auto simp: find_None_iff)
  then obtain j where j: "find (\<lambda>j. ?P (bufs s j)) l = Some j" by auto
  from find_SomeD [OF j] have "j \<in> set l" "?P (bufs s j)" by auto
  then have "j = i" using i l(2) u by (auto simp: uniq_bufs_def)
  then have "scan b_next ?P (bufs s) (b_next (bufs s HEAD)) = Some (Some i)"
    using scan_chain [of b_next "bufs s" HEAD l ?P] l(1) j by (simp add: dll_def)
  moreover have "sl_locked (b_lock (bufs s i)) = 0"
    using assms(3) view_slot(2) [OF assms(2)] by (simp add: lock_owner_def split: if_splits)
  ultimately show ?thesis using i(3)
    by (simp add: bread_def bget_def lock_buf_def acquiresleep_def virtio_disk_rw_def upd_buf_def
        valid_idem)
qed

lemma bread_miss:
  assumes "binv dev s" and "slot dev s b = None" and "\<exists>i < NBUF. refcnt (bufs s i) = 0"
  shows "\<exists>i < NBUF. refcnt (bufs s i) = 0 \<and> bread dev b s = Inr (i, upd_buf i (\<lambda>k.
    k\<lparr>b_dev := dev, blockno := b, refcnt := 1,
      b_lock := (b_lock k)\<lparr>sl_locked := 1, sl_pid := curpid s\<rparr>,
      b_data := disk s b, valid := True\<rparr>) s)"
proof -
  obtain l where l: "dll (bufs s) l" "set l = {..<NBUF}"
    using assms(1) by (auto simp: binv_def lru_list_def)
  let ?P = "\<lambda>k. b_dev k = dev \<and> blockno k = b"
  have "find (\<lambda>j. ?P (bufs s j)) l = None" using assms(2) l(2) by (auto simp: find_None_iff slot_None)
  then have f: "scan b_next ?P (bufs s) (b_next (bufs s HEAD)) = Some None"
    using scan_chain [of b_next "bufs s" HEAD l ?P] l(1) by (simp add: dll_def)
  have "find (\<lambda>j. refcnt (bufs s j) = 0) (rev l) \<noteq> None"
    using assms(3) l(2) by (auto simp: find_None_iff)
  then obtain i where i: "find (\<lambda>j. refcnt (bufs s j) = 0) (rev l) = Some i" by auto
  from find_SomeD [OF i] have "i \<in> set (rev l)" and r: "refcnt (bufs s i) = 0" by auto
  then have n: "i < NBUF" using l(2) by auto
  have g: "scan b_prev (\<lambda>k. refcnt k = 0) (bufs s) (b_prev (bufs s HEAD)) = Some (Some i)"
    using scan_chain [of b_prev "bufs s" HEAD "rev l" "\<lambda>k. refcnt k = 0"] l(1) i by (simp add: dll_def)
  have "buf_ok dev (disk s) (bufs s i)" using assms(1) n by (simp add: binv_def)
  then have "sl_locked (b_lock (bufs s i)) = 0" using r by (auto simp: buf_ok_def)
  then show ?thesis using f g n r
    by (intro exI [of _ i])
      (simp add: bread_def bget_def lock_buf_def acquiresleep_def virtio_disk_rw_def upd_buf_def)
qed

lemma free_buffer:
  assumes "binv dev s" and "card {b. 0 < v_refs (view dev s) b} < NBUF"
  shows "\<exists>i < NBUF. refcnt (bufs s i) = 0"
proof (rule ccontr)
  assume "\<not> ?thesis"
  then have r: "refcnt (bufs s i) \<noteq> 0" if "i < NBUF" for i using that by blast
  have u: "uniq_bufs dev (bufs s)" using assms(1) by (simp add: binv_def)
  have dev: "b_dev (bufs s i) = dev" if "i < NBUF" for i
    using assms(1) r [OF that] that by (auto simp: binv_def buf_ok_def)
  have "inj_on (\<lambda>i. blockno (bufs s i)) {..<NBUF}"
    using u dev by (auto simp: inj_on_def uniq_bufs_def)
  then have "card ((\<lambda>i. blockno (bufs s i)) ` {..<NBUF}) = NBUF" by (simp add: card_image)
  moreover have "(\<lambda>i. blockno (bufs s i)) ` {..<NBUF} = {b. 0 < v_refs (view dev s) b}"
  proof (intro equalityI subsetI)
    fix b assume "b \<in> (\<lambda>i. blockno (bufs s i)) ` {..<NBUF}"
    then obtain i where "slot dev s b = Some i" "i < NBUF" using dev slot_Some [OF u] by auto
    then show "b \<in> {b. 0 < v_refs (view dev s) b}" using r by (simp add: view_slot unat_gt_0)
  next
    fix b assume "b \<in> {b. 0 < v_refs (view dev s) b}"
    then obtain i where "slot dev s b = Some i" by (cases "slot dev s b") (auto simp: view_no_slot)
    then show "b \<in> (\<lambda>i. blockno (bufs s i)) ` {..<NBUF}"
      using slot_Some [OF u] by auto
  qed
  ultimately show False using assms(2) by simp
qed

lemma bread_hit_ok:
  assumes "binv dev s" and "slot dev s b = Some i" and "v_lock (view dev s) b = None"
    and "v_refs (view dev s) b < 2 ^ 32 - 1"
  shows "\<exists>s'. bread dev b s = Inr (i, s') \<and> binv dev s' \<and> bframe s s' \<and> slot dev s' = slot dev s \<and>
    view dev s' = (view dev s)\<lparr>
      v_refs := (v_refs (view dev s))(b := v_refs (view dev s) b + 1),
      v_lock := (v_lock (view dev s))(b := Some (curpid s))\<rparr>"
proof -
  define f :: "buf \<Rightarrow> buf" where "f = (\<lambda>k. k\<lparr>refcnt := refcnt k + 1,
    b_lock := (b_lock k)\<lparr>sl_locked := 1, sl_pid := curpid s\<rparr>,
    b_data := (if valid k then b_data k else disk s b), valid := True\<rparr>)"
  note i = slotD [OF assms(1,2)] and v = view_slot [OF assms(2)]
  have r: "unat (refcnt (bufs s i) + 1) = unat (refcnt (bufs s i)) + 1"
    using assms(4) v(1) unat_add_nowrap [of "refcnt (bufs s i)" 1] by simp
  then have r0: "refcnt (bufs s i) + 1 \<noteq> 0" by (metis add_is_0 one_neq_zero unat_0)
  have k: "keeps f" by (simp add: keeps_def f_def)
  have "buf_ok dev (disk s) (f (bufs s i))"
    using i(2,4) r0 assms(1) by (auto simp: buf_ok_def f_def binv_def)
  then have "binv dev (upd_buf i f s)" by (intro binv_upd_buf [OF assms(1) k])
  moreover have "view dev (upd_buf i f s) = (view dev s)\<lparr>
      v_refs := (v_refs (view dev s))(b := v_refs (view dev s) b + 1),
      v_lock := (v_lock (view dev s))(b := Some (curpid s))\<rparr>"
    unfolding view_upd_buf [OF assms(1) k assms(2)]
    by (simp add: f_def r v lock_owner_def fun_upd_idem)
  ultimately show ?thesis
    using bread_hit [OF assms] slot_upd_buf [OF k, of dev i s] by (simp add: f_def)
qed

lemma cached_recycle:
  assumes "uniq_bufs dev (bufs s)" and "i < NBUF" and "slot dev s b = None"
    and "b_dev (f (bufs s i)) = dev" and "blockno (f (bufs s i)) = b"
    and "b_dev (bufs s i) = dev \<Longrightarrow> g (blockno (bufs s i)) (bufs s i) = d (blockno (bufs s i))"
  shows "cached dev (upd_buf i f s) g d = (cached dev s g d)(b := g b (f (bufs s i)))"
    and "uniq_bufs dev (bufs (upd_buf i f s))"
    and "slot dev (upd_buf i f s) b = Some i"
    and "\<And>b' j. slot dev s b' = Some j \<Longrightarrow> j \<noteq> i \<Longrightarrow> slot dev (upd_buf i f s) b' = Some j"
proof -
  show u: "uniq_bufs dev (bufs (upd_buf i f s))"
    using assms(1-5) by (auto simp: uniq_bufs_def slot_None)
  note s1 = slot_Some [OF assms(1)] and s2 = slot_Some [OF u]
  show b: "slot dev (upd_buf i f s) b = Some i" using assms(2,4,5) by (simp add: s2)
  show o: "slot dev (upd_buf i f s) b' = Some j" if "slot dev s b' = Some j" "j \<noteq> i" for b' j
    using that by (simp add: s1 s2)
  show "cached dev (upd_buf i f s) g d = (cached dev s g d)(b := g b (f (bufs s i)))"
  proof
    fix x
    consider "x = b" | j where "x \<noteq> b" "slot dev s x = Some j" "j \<noteq> i"
      | "x \<noteq> b" "slot dev s x = Some i" | "x \<noteq> b" "slot dev s x = None" by (cases "slot dev s x") auto
    then show "cached dev (upd_buf i f s) g d x = ((cached dev s g d)(b := g b (f (bufs s i)))) x"
    proof cases
      case 1 then show ?thesis using b by (simp add: cached_def)
    next
      case 2 then show ?thesis using o by (simp add: cached_def)
    next
      case 3
      then have "slot dev (upd_buf i f s) x = None"
        using assms(1,2,5) unfolding slot_None s1 by (auto simp: uniq_bufs_def)
      moreover have "b_dev (bufs s i) = dev" "blockno (bufs s i) = x" using 3(2) by (simp_all add: s1)
      ultimately show ?thesis using 3 assms(6) by (simp add: cached_def)
    next
      case 4
      then have "slot dev (upd_buf i f s) x = None" using assms(5) by (auto simp: slot_None)
      then show ?thesis using 4 by (simp add: cached_def)
    qed
  qed
qed

lemma bread_miss_ok:
  assumes "binv dev s" and "slot dev s b = None" and "\<exists>i < NBUF. refcnt (bufs s i) = 0"
  shows "\<exists>i s'. bread dev b s = Inr (i, s') \<and> binv dev s' \<and> bframe s s' \<and> slot dev s' b = Some i \<and>
    (\<forall>b'. 0 < v_refs (view dev s) b' \<longrightarrow> slot dev s' b' = slot dev s b') \<and>
    view dev s' = (view dev s)\<lparr>
      v_refs := (v_refs (view dev s))(b := v_refs (view dev s) b + 1),
      v_lock := (v_lock (view dev s))(b := Some (curpid s))\<rparr>"
proof -
  define f :: "buf \<Rightarrow> buf" where "f = (\<lambda>k. k\<lparr>b_dev := dev, blockno := b, refcnt := 1,
      b_lock := (b_lock k)\<lparr>sl_locked := 1, sl_pid := curpid s\<rparr>,
      b_data := disk s b, valid := True\<rparr>)"
  obtain i where i: "i < NBUF" "refcnt (bufs s i) = 0" "bread dev b s = Inr (i, upd_buf i f s)"
    using bread_miss [OF assms] unfolding f_def by blast
  have u: "uniq_bufs dev (bufs s)" and ok: "buf_ok dev (disk s) (bufs s i)"
    using assms(1) i(1) by (simp_all add: binv_def)
  have fb: "b_dev (f (bufs s i)) = dev" "blockno (f (bufs s i)) = b" by (simp_all add: f_def)
  note c = cached_recycle [where f = f, OF u i(1) assms(2) fb]
  have l: "lru_list ((bufs s)(i := f (bufs s i))) = lru_list (bufs s)"
    by (intro lru_list_cong) (simp add: f_def)
  have ok': "buf_ok dev (disk s) (f (bufs s i))" using assms(1) by (simp add: buf_ok_def f_def binv_def)
  have u': "uniq_bufs dev ((bufs s)(i := f (bufs s i)))" using c(2) [of "\<lambda>_ _. ()" "\<lambda>_. ()"] by simp
  have "binv dev (upd_buf i f s)" using assms(1) l ok' u' by (simp add: binv_def)
  moreover have s': "slot dev (upd_buf i f s) b = Some i" using c(3) [of "\<lambda>_ _. ()" "\<lambda>_. ()"] by simp
  moreover have "slot dev (upd_buf i f s) b' = slot dev s b'" if r: "0 < v_refs (view dev s) b'" for b'
  proof -
    obtain j where j: "slot dev s b' = Some j"
      using r by (cases "slot dev s b'") (auto simp: view_no_slot)
    then have "j \<noteq> i" using r i(2) by (auto simp: view_slot)
    with j show ?thesis using c(4) [of "\<lambda>_ _. ()" "\<lambda>_. ()"] by simp
  qed
  moreover have "view dev (upd_buf i f s) = (view dev s)\<lparr>
      v_refs := (v_refs (view dev s))(b := v_refs (view dev s) b + 1),
      v_lock := (v_lock (view dev s))(b := Some (curpid s))\<rparr>"
  proof -
    have 1: "cached dev (upd_buf i f s) (\<lambda>b k. if valid k then b_data k else disk s b) (disk s) =
        cached dev s (\<lambda>b k. if valid k then b_data k else disk s b) (disk s)"
      using ok i(2) assms(2) by (subst c(1)) (auto simp: buf_ok_def f_def cached_def fun_eq_iff)
    have 2: "cached dev (upd_buf i f s) (\<lambda>b k. unat (refcnt k)) (\<lambda>b. 0) =
        (cached dev s (\<lambda>b k. unat (refcnt k)) (\<lambda>b. 0))(b := 1)"
      using i(2) by (subst c(1)) (auto simp: f_def)
    have 3: "cached dev (upd_buf i f s) (\<lambda>b k. lock_owner (b_lock k)) (\<lambda>b. None) =
        (cached dev s (\<lambda>b k. lock_owner (b_lock k)) (\<lambda>b. None))(b := Some (curpid s))"
      using ok i(2) by (subst c(1)) (auto simp: f_def lock_owner_def buf_ok_def)
    show ?thesis
      using view_no_slot(1) [OF assms(2)] unfolding view_def upd_buf_simps(2,3) 1 2 3 by simp
  qed
  ultimately show ?thesis using i(3) by (intro exI [of _ i] exI [of _ "upd_buf i f s"]) simp
qed

lemma bread_ok:
  assumes "binv dev s" and "v_lock (view dev s) b = None" and "v_refs (view dev s) b < 2 ^ 32 - 1"
    and "0 < v_refs (view dev s) b \<or> card {b. 0 < v_refs (view dev s) b} < NBUF"
  shows "\<exists>i s'. bread dev b s = Inr (i, s') \<and> binv dev s' \<and> bframe s s' \<and> slot dev s' b = Some i \<and>
    (\<forall>b'. 0 < v_refs (view dev s) b' \<longrightarrow> slot dev s' b' = slot dev s b') \<and>
    view dev s' = (view dev s)\<lparr>
      v_refs := (v_refs (view dev s))(b := v_refs (view dev s) b + 1),
      v_lock := (v_lock (view dev s))(b := Some (curpid s))\<rparr>"
proof (cases "slot dev s b")
  case None
  then have "\<exists>i < NBUF. refcnt (bufs s i) = 0"
    using assms(4) free_buffer [OF assms(1)] by (simp add: view_no_slot)
  then show ?thesis by (rule bread_miss_ok [OF assms(1) None])
next
  case (Some i)
  then obtain s' where "bread dev b s = Inr (i, s')" "binv dev s'" "bframe s s'"
    "slot dev s' = slot dev s" "view dev s' = (view dev s)\<lparr>
      v_refs := (v_refs (view dev s))(b := v_refs (view dev s) b + 1),
      v_lock := (v_lock (view dev s))(b := Some (curpid s))\<rparr>"
    using bread_hit_ok [OF assms(1) Some assms(2,3)] by blast
  with Some show ?thesis by (intro exI [of _ i] exI [of _ s']) simp
qed

lemma held_valid:
  assumes "binv dev s" and "slot dev s b = Some i" and "v_lock (view dev s) b = Some p"
  shows "0 < v_refs (view dev s) b" "holdingsleep p (b_lock (bufs s i))"
  using slotD(4) [OF assms(1,2)] view_slot [OF assms(2)] assms(3)
  by (auto simp: buf_ok_def lock_owner_def holdingsleep_def unat_gt_0 split: if_splits)

lemma referenced_valid:
  assumes "binv dev s" and "slot dev s b = Some i" and "0 < v_refs (view dev s) b"
  shows "valid (bufs s i)" "refcnt (bufs s i) \<noteq> 0" "length (b_data (bufs s i)) = BSIZE"
    "v_blk (view dev s) b = b_data (bufs s i)"
  using slotD [OF assms(1,2)] view_slot [OF assms(2)] assms(3)
  by (auto simp: buf_ok_def unat_gt_0)

lemma cached_bufs:
  assumes "bufs s' = bufs s" shows "cached dev s' g d = cached dev s g d"
  unfolding cached_def slot_def assms by (rule refl)

lemma bwrite_ok:
  assumes "binv dev s" and "slot dev s b = Some i" and "v_lock (view dev s) b = Some (curpid s)"
  shows "\<exists>s'. bwrite i s = Inr s' \<and> binv dev s' \<and> bframe s s' \<and> slot dev s' = slot dev s \<and>
    view dev s' = (view dev s)\<lparr>v_disk := (v_disk (view dev s))(b := v_blk (view dev s) b),
      v_writes := v_writes (view dev s) @ [(b, v_blk (view dev s) b)]\<rparr>"
proof -
  note h = held_valid [OF assms]
  note r = referenced_valid [OF assms(1,2) h(1)] and i = slotD [OF assms(1,2)]
  let ?d = "b_data (bufs s i)"
  let ?s = "s\<lparr>disk := (disk s)(b := ?d), dwrites := dwrites s @ [(b, ?d)]\<rparr>"
  have u: "uniq_bufs dev (bufs s)" using assms(1) by (simp add: binv_def)
  have w: "bwrite i s = Inr ?s" using h(2) i(3) by (simp add: bwrite_def virtio_disk_rw_def)
  have ok: "buf_ok dev ((disk s)(b := ?d)) (bufs s j)" if "j < NBUF" for j
  proof -
    have "buf_ok dev (disk s) (bufs s j)" using assms(1) that by (simp add: binv_def)
    moreover have "j = i" if "b_dev (bufs s j) = dev" "blockno (bufs s j) = b"
      using u i \<open>j < NBUF\<close> that by (auto simp: uniq_bufs_def)
    ultimately show ?thesis using r(2) by (auto simp: buf_ok_def)
  qed
  have inv: "binv dev ?s" using assms(1) ok r(3) by (simp add: binv_def)
  have sl: "slot dev ?s = slot dev s" by (intro slot_cong) simp
  have "cached dev s (\<lambda>x k. if valid k then b_data k else ((disk s)(b := ?d)) x) ((disk s)(b := ?d)) x
      = cached dev s (\<lambda>x k. if valid k then b_data k else disk s x) (disk s) x" for x
    using assms(2) r(1) by (cases "x = b") (simp_all add: cached_def split: option.splits)
  then have "view dev ?s = (view dev s)\<lparr>v_disk := (disk s)(b := ?d),
      v_writes := dwrites s @ [(b, ?d)]\<rparr>"
    by (simp add: view_def cached_bufs [of ?s s] fun_eq_iff cong: if_cong)
  moreover have "bframe s ?s"
    unfolding bframe_def by (rule exI [of _ "bufs s"]) auto
  ultimately show ?thesis using w inv sl r(4) by simp
qed

lemma brelse_ok:
  assumes "binv dev s" and "slot dev s b = Some i" and "v_lock (view dev s) b = Some (curpid s)"
    and "1 < v_refs (view dev s) b \<or> v_blk (view dev s) b = v_disk (view dev s) b"
  shows "\<exists>s'. brelse i s = Inr s' \<and> binv dev s' \<and> bframe s s' \<and> slot dev s' = slot dev s \<and>
    view dev s' = (view dev s)\<lparr>
      v_refs := (v_refs (view dev s))(b := v_refs (view dev s) b - 1),
      v_lock := (v_lock (view dev s))(b := None)\<rparr>"
proof -
  note h = held_valid [OF assms(1-3)]
  note r = referenced_valid [OF assms(1,2) h(1)] and i = slotD [OF assms(1,2)]
    and v = view_slot [OF assms(2)]
  define f :: "buf \<Rightarrow> buf" where "f = (\<lambda>k. k\<lparr>b_lock := releasesleep (b_lock k), refcnt := refcnt k - 1\<rparr>)"
  let ?t = "upd_buf i f s"
  have k: "keeps f" by (simp add: keeps_def f_def)
  have n: "unat (refcnt (bufs s i) - 1) = unat (refcnt (bufs s i)) - 1"
    using r(2) by (simp add: unat_minus_one)
  have "buf_ok dev (disk s) (f (bufs s i))"
    using i(2,3,4) assms(4) v r n by (auto simp: buf_ok_def f_def releasesleep_def)
  then have inv: "binv dev ?t" by (intro binv_upd_buf [OF assms(1) k])
  have vw: "view dev ?t = (view dev s)\<lparr>
      v_refs := (v_refs (view dev s))(b := v_refs (view dev s) b - 1),
      v_lock := (v_lock (view dev s))(b := None)\<rparr>"
    unfolding view_upd_buf [OF assms(1) k assms(2)] using r v n
    by (simp add: f_def lock_owner_def releasesleep_def fun_upd_idem)
  have "brelse i s = Inr (if refcnt (bufs ?t i) = 0 then list_push i (list_unlink i ?t) else ?t)"
    using h(2) by (simp add: brelse_def f_def Let_def)
  moreover have "bframe s s'" if "bframe ?t s'" for s'
    using that by (auto simp: bframe_def upd_buf_def)
  ultimately show ?thesis
    using relink_ok [OF inv i(1)] inv vw slot_upd_buf [OF k, of dev i s]
    by (cases "refcnt (bufs ?t i) = 0") auto
qed

lemma bpin_ok:
  assumes "binv dev s" and "slot dev s b = Some i" and "0 < v_refs (view dev s) b"
    and "v_refs (view dev s) b < 2 ^ 32 - 1"
  shows "binv dev (bpin i s) \<and> bframe s (bpin i s) \<and> slot dev (bpin i s) = slot dev s \<and>
    view dev (bpin i s) = (view dev s)\<lparr>v_refs := (v_refs (view dev s))(b := v_refs (view dev s) b + 1)\<rparr>"
proof -
  note r = referenced_valid [OF assms(1-3)] and i = slotD [OF assms(1,2)] and v = view_slot [OF assms(2)]
  have n: "unat (refcnt (bufs s i) + 1) = unat (refcnt (bufs s i)) + 1"
    using assms(4) v(1) unat_add_nowrap [of "refcnt (bufs s i)" 1] by simp
  then have n0: "refcnt (bufs s i) + 1 \<noteq> 0" by (metis add_is_0 one_neq_zero unat_0)
  have k: "keeps (\<lambda>k. k\<lparr>refcnt := refcnt k + 1\<rparr>)" by (simp add: keeps_def)
  have "binv dev (bpin i s)"
    unfolding bpin_def using i(2,4) r n0 by (intro binv_upd_buf [OF assms(1) k]) (auto simp: buf_ok_def)
  then show ?thesis
    using r v n slot_upd_buf [OF k] unfolding bpin_def view_upd_buf [OF assms(1) k assms(2)]
    by (simp add: fun_upd_idem)
qed

lemma bunpin_ok:
  assumes "binv dev s" and "slot dev s b = Some i" and "1 < v_refs (view dev s) b"
  shows "binv dev (bunpin i s) \<and> bframe s (bunpin i s) \<and> slot dev (bunpin i s) = slot dev s \<and>
    view dev (bunpin i s) = (view dev s)\<lparr>v_refs := (v_refs (view dev s))(b := v_refs (view dev s) b - 1)\<rparr>"
proof -
  have "0 < v_refs (view dev s) b" using assms(3) by simp
  note r = referenced_valid [OF assms(1,2) this] and i = slotD [OF assms(1,2)]
    and v = view_slot [OF assms(2)]
  have n: "unat (refcnt (bufs s i) - 1) = unat (refcnt (bufs s i)) - 1"
    using r(2) by (simp add: unat_minus_one)
  then have n0: "refcnt (bufs s i) - 1 \<noteq> 0" using assms(3) v(1) by auto
  have k: "keeps (\<lambda>k. k\<lparr>refcnt := refcnt k - 1\<rparr>)" by (simp add: keeps_def)
  have "binv dev (bunpin i s)"
    unfolding bunpin_def using i(2,4) r n0 by (intro binv_upd_buf [OF assms(1) k]) (auto simp: buf_ok_def)
  then show ?thesis
    using r v n slot_upd_buf [OF k] unfolding bunpin_def view_upd_buf [OF assms(1) k assms(2)]
    by (simp add: fun_upd_idem)
qed

lemma set_data_ok:
  assumes "binv dev s" and "slot dev s b = Some i" and "0 < v_refs (view dev s) b" and "length d = BSIZE"
  shows "binv dev (set_data i d s) \<and> bframe s (set_data i d s) \<and>
    slot dev (set_data i d s) = slot dev s \<and>
    view dev (set_data i d s) = (view dev s)\<lparr>v_blk := (v_blk (view dev s))(b := d)\<rparr>"
proof -
  note r = referenced_valid [OF assms(1-3)] and i = slotD [OF assms(1,2)] and v = view_slot [OF assms(2)]
  have k: "keeps (\<lambda>k. k\<lparr>b_data := d\<rparr>)" by (simp add: keeps_def)
  have "binv dev (set_data i d s)"
    unfolding set_data_def using i(4) r assms(4)
    by (intro binv_upd_buf [OF assms(1) k]) (auto simp: buf_ok_def)
  then show ?thesis
    using r v slot_upd_buf [OF k] unfolding set_data_def view_upd_buf [OF assms(1) k assms(2)]
    by (simp add: fun_upd_idem)
qed

interpretation bcache: buffer_cache "bread dev" bwrite brelse bpin bunpin get_data set_data
  "binv dev" "view dev" "slot dev" curpid bframe
  for dev :: u32
proof unfold_locales
  fix s s' s'' :: "'z bio_state_scheme" and b
  show "bframe s s"
    unfolding bframe_def by (intro exI [of _ "bufs s"] exI [of _ "disk s"] exI [of _ "dwrites s"]) simp
  show "bframe s s''" if "bframe s s'" "bframe s' s''"
    using that unfolding bframe_def by (elim exE) (simp, blast)
  show "curpid s' = curpid s" if "bframe s s'" using that by (auto simp: bframe_def)
  show "v_blk (view dev s) b = v_disk (view dev s) b \<and> v_lock (view dev s) b = None"
    if "binv dev s" "v_refs (view dev s) b = 0"
  proof (cases "slot dev s b")
    case (Some i)
    from slotD [OF that(1) Some] view_slot [OF Some] that(2) show ?thesis
      by (auto simp: buf_ok_def lock_owner_def unat_eq_0)
  qed (simp add: view_no_slot)
  show "finite {b. 0 < v_refs (view dev s) b}" if "binv dev s"
  proof (rule finite_subset)
    show "{b. 0 < v_refs (view dev s) b} \<subseteq> (\<lambda>i. blockno (bufs s i)) ` {..<NBUF}"
    proof
      fix b assume "b \<in> {b. 0 < v_refs (view dev s) b}"
      then obtain i where "slot dev s b = Some i" by (cases "slot dev s b") (auto simp: view_no_slot)
      then show "b \<in> (\<lambda>i. blockno (bufs s i)) ` {..<NBUF}" using slotD [OF that] by force
    qed
  qed simp
  show "length (v_blk (view dev s) b) = BSIZE \<and> length (v_disk (view dev s) b) = BSIZE" if "binv dev s"
  proof (cases "slot dev s b")
    case (Some i)
    from slotD [OF that Some] view_slot [OF Some] that show ?thesis
      by (auto simp: buf_ok_def binv_def)
  qed (use that in \<open>simp add: view_no_slot binv_def\<close>)
qed (use bread_ok bwrite_ok brelse_ok bpin_ok bunpin_ok set_data_ok in
    \<open>simp_all add: get_data_def referenced_valid\<close>)

section \<open>Boot\<close>

definition binit_step :: "'z bio_state_scheme \<Rightarrow> nat \<Rightarrow> 'z bio_state_scheme" where
  "binit_step s b = list_push b (upd_buf b (\<lambda>k. k\<lparr>b_lock := initsleeplock (b_lock k)\<rparr>) s)"

definition binit_upto :: "nat \<Rightarrow> 'z bio_state_scheme \<Rightarrow> 'z bio_state_scheme" where
  "binit_upto n s =
     foldl binit_step (upd_buf HEAD (\<lambda>k. k\<lparr>b_prev := HEAD, b_next := HEAD\<rparr>) s) [0..<n]"

lemma binit_upto_Suc: "binit_upto (Suc n) s = binit_step (binit_upto n s) n"
  by (simp add: binit_upto_def)

lemma binit_upto_list:
  "n \<le> NBUF \<Longrightarrow> dll (bufs (binit_upto n s)) (rev [0..<n])"
proof (induction n)
  case 0
  then show ?case by (simp add: binit_upto_def dll_def)
next
  case (Suc n)
  let ?t = "upd_buf n (\<lambda>k. k\<lparr>b_lock := initsleeplock (b_lock k)\<rparr>) (binit_upto n s)"
  have "(\<lambda>i. b_next (bufs ?t i)) = (\<lambda>i. b_next (bufs (binit_upto n s) i))"
    "(\<lambda>i. b_prev (bufs ?t i)) = (\<lambda>i. b_prev (bufs (binit_upto n s) i))" by auto
  then have "dll (bufs ?t) (rev [0..<n])" using Suc by (simp add: dll_def)
  then have "dll (bufs (list_push n ?t)) (n # rev [0..<n])"
    using Suc.prems by (intro dll_push) (simp_all add: HEAD_def)
  then show ?case by (simp add: binit_upto_Suc binit_step_def)
qed

lemma binit_upto_fields:
  "refcnt (bufs (binit_upto n s) i) = refcnt (bufs s i) \<and>
   valid (bufs (binit_upto n s) i) = valid (bufs s i) \<and>
   b_dev (bufs (binit_upto n s) i) = b_dev (bufs s i) \<and>
   (i < n \<longrightarrow> sl_locked (b_lock (bufs (binit_upto n s) i)) = 0)"
proof (induction n)
  case 0
  then show ?case by (simp add: binit_upto_def)
next
  case (Suc n)
  then show ?case
    by (auto simp: binit_upto_Suc binit_step_def same_bufs_fields [OF same_bufs_push] initsleeplock_def)
qed

lemma binit_upto_disk:
  "disk (binit_upto n s) = disk s \<and> dwrites (binit_upto n s) = dwrites s"
  by (induction n) (simp_all add: binit_upto_Suc binit_step_def list_push_def Let_def, simp add: binit_upto_def)

lemma binit_eq: "binit s = binit_upto NBUF s"
  by (simp add: binit_def binit_upto_def binit_step_def [abs_def])

lemma binit_ok:
  assumes "\<forall>i. refcnt (bufs s i) = 0 \<and> \<not> valid (bufs s i) \<and> b_dev (bufs s i) = 0"
    and "\<forall>b. length (disk s b) = BSIZE" and "dev \<noteq> 0"
  shows "dll (bufs (binit s)) (rev [0..<NBUF]) \<and> binv dev (binit s) \<and>
    view dev (binit s) = \<lparr>v_blk = disk s, v_disk = disk s, v_refs = (\<lambda>b. 0), v_lock = (\<lambda>b. None),
      v_writes = dwrites s\<rparr>"
proof -
  note f = binit_upto_fields [of NBUF s] binit_upto_disk [of NBUF s]
  have d: "dll (bufs (binit s)) (rev [0..<NBUF])" unfolding binit_eq by (rule binit_upto_list) simp
  then have "lru_list (bufs (binit s))" unfolding lru_list_def by (intro exI [of _ "rev [0..<NBUF]"]) auto
  moreover have "uniq_bufs dev (bufs (binit s))" using assms f by (simp add: binit_eq uniq_bufs_def)
  ultimately have "binv dev (binit s)" using assms f by (simp add: binit_eq binv_def buf_ok_def)
  moreover have "slot dev (binit s) b = None" for b using assms f by (simp add: binit_eq slot_None)
  then have "view dev (binit s) = \<lparr>v_blk = disk s, v_disk = disk s, v_refs = (\<lambda>b. 0),
      v_lock = (\<lambda>b. None), v_writes = dwrites s\<rparr>"
    using f by (simp add: view_def cached_def binit_eq fun_eq_iff)
  ultimately show ?thesis using d by blast
qed

text \<open>
  \<^verbatim>\<open>binit\<close> on the zeroed buffers of a freshly loaded kernel links all \<^verbatim>\<open>NBUF\<close> buffers, the last
  one first, and establishes the invariant of the cache: nothing is cached, referenced or
  locked, and every block has its content on disk.
\<close>

theorem binit_establishes:
  assumes "\<forall>i. refcnt (bufs s i) = 0 \<and> \<not> valid (bufs s i) \<and> b_dev (bufs s i) = 0"
    and "\<forall>b. length (disk s b) = BSIZE" and "dev \<noteq> 0"
  shows "dll (bufs (binit s)) (rev [0..<NBUF]) \<and> binv dev (binit s) \<and>
    view dev (binit s) = \<lparr>v_blk = disk s, v_disk = disk s, v_refs = (\<lambda>b. 0), v_lock = (\<lambda>b. None),
      v_writes = dwrites s\<rparr>"
  using assms by (rule binit_ok)

definition zero_buf :: buf where
  "zero_buf = \<lparr>valid = False, b_dev = 0, blockno = 0, b_lock = \<lparr>sl_locked = 0, sl_pid = 0\<rparr>,
     refcnt = 0, b_prev = 0, b_next = 0, b_data = replicate BSIZE 0\<rparr>"

definition zero_bio :: bio_state where
  "zero_bio = \<lparr>pmem = (\<lambda>_. 0), freelist = 0, curpid = 1, bufs = (\<lambda>_. zero_buf),
     disk = (\<lambda>_. replicate BSIZE 0), dwrites = []\<rparr>"

theorem binit_establishes_witness:
  "dll (bufs (binit zero_bio)) (rev [0..<NBUF]) \<and> binv 1 (binit zero_bio)"
  using binit_establishes [of zero_bio 1] by (simp add: zero_bio_def zero_buf_def)

text \<open>
  C35. \<^verbatim>\<open>bread\<close> returns the block: for an unlocked block and a cache with a free buffer it
  neither panics nor sleeps, the buffer it returns holds the block's current content (the
  cached copy or else the disk's), is locked by the caller, and no other block's content,
  reference count or lock changes.
\<close>

theorem bread_returns_content:
  assumes "binv dev s" and "room (view dev s) {b}"
  shows "\<exists>i s'. bread dev b s = Inr (i, s') \<and> get_data i s' = v_blk (view dev s) b \<and>
    binv dev s' \<and> blockno (bufs s' i) = b \<and>
    view dev s' = (view dev s)\<lparr>v_refs := (v_refs (view dev s))(b := v_refs (view dev s) b + 1),
      v_lock := (v_lock (view dev s))(b := Some (curpid s))\<rparr>"
proof -
  obtain i s' where s': "bread dev b s = Inr (i, s')" "binv dev s'" "slot dev s' b = Some i"
    "view dev s' = (view dev s)\<lparr>v_refs := (v_refs (view dev s))(b := v_refs (view dev s) b + 1),
      v_lock := (v_lock (view dev s))(b := Some (curpid s))\<rparr>"
    by (rule bcache.rd1 [OF assms])
  moreover have "get_data i s' = v_blk (view dev s) b" using bcache.get [OF s'(2,3)] s'(4) by simp
  ultimately show ?thesis using slotD(3) [OF s'(2,3)] by blast
qed

theorem bread_returns_content_witness:
  "\<exists>i s'. bread 1 7 (binit zero_bio) = Inr (i, s') \<and> get_data i s' = replicate BSIZE 0"
proof -
  have "binv 1 (binit zero_bio)" "view 1 (binit zero_bio) = \<lparr>v_blk = disk zero_bio,
      v_disk = disk zero_bio, v_refs = (\<lambda>b. 0), v_lock = (\<lambda>b. None), v_writes = dwrites zero_bio\<rparr>"
    using binit_ok [of zero_bio 1] by (simp_all add: zero_bio_def zero_buf_def)
  then show ?thesis
    using bread_returns_content [of 1 "binit zero_bio" 7]
    by (auto simp: room_def NBUF_def MAXOPBLOCKS_def zero_bio_def)
qed

end
