(* ===== verification/Xv6_Log.thy ===== *)
theory Xv6_Log
  imports Xv6_Bcache
begin

text \<open>
  The write-ahead log, \<^verbatim>\<open>kernel/log.c\<close>: transactions (\<open>begin_op\<close>, \<open>log_write\<close>,
  \<open>end_op\<close>), commit and recovery, over the buffer cache. \<^verbatim>\<open>struct log\<close> becomes the fields of
  \<open>log_state\<close>; the header block is decoded and encoded byte by byte as the C struct lies in
  \<^verbatim>\<open>buf->data\<close>. A sleeping \<^verbatim>\<open>begin_op\<close> is \<open>Blocks\<close>. Loops that run over
  \<^verbatim>\<open>log.lh.n\<close> entries recurse on the number of entries left; an entry outside
  \<^verbatim>\<open>block[LOGSIZE]\<close> is \<open>Undefined\<close>.

  The main result is crash atomicity: whatever prefix of the disk writes of a commit reaches
  the disk, recovery leaves every block outside the log with its content from before the
  transaction, or every block with its content from after it.
\<close>

section \<open>State\<close>

definition LOGSIZE :: nat where "LOGSIZE = MAXOPBLOCKS * 3"

record superblock =
  sb_magic :: u32
  sb_size :: u32
  sb_nblocks :: u32
  sb_ninodes :: u32
  sb_nlog :: u32
  sb_logstart :: u32
  sb_inodestart :: u32
  sb_bmapstart :: u32

record log_state = bio_state +
  log_start :: u32
  log_size :: int
  outstanding :: int
  committing :: bool
  log_dev :: u32
  lh_n :: int
  lh_block :: "u32 list"

section \<open>Operations\<close>

text \<open>Block \<^verbatim>\<open>log.start+tail+1\<close>, and the header fields in a block's bytes.\<close>

definition log_blk :: "u32 \<Rightarrow> nat \<Rightarrow> u32" where
  "log_blk start tail = start + of_nat tail + 1"

definition hdr_n :: "byte list \<Rightarrow> int" where
  "hdr_n d = sint (get32 d 0)"

definition hdr_block :: "byte list \<Rightarrow> nat \<Rightarrow> u32" where
  "hdr_block d i = get32 d (4 + 4 * i)"

definition install_block ::
  "bool \<Rightarrow> nat \<Rightarrow> 'z log_state_scheme \<Rightarrow> 'z log_state_scheme kres" where
  "install_block recovering tail s =
     (if LOGSIZE \<le> tail then Inl Undefined else
      kbind (bread (log_dev s) (log_blk (log_start s) tail) s) (\<lambda>(lbuf, s1).
      kbind (bread (log_dev s) (lh_block s ! tail) s1) (\<lambda>(dbuf, s2).
      kbind (bwrite dbuf (set_data dbuf (get_data lbuf s2) s2)) (\<lambda>s3.
      let s4 = (if \<not> recovering then bunpin dbuf s3 else s3)
      in kbind (brelse lbuf s4) (brelse dbuf)))))"

primrec install_loop ::
  "bool \<Rightarrow> nat \<Rightarrow> nat \<Rightarrow> 'z log_state_scheme \<Rightarrow> 'z log_state_scheme kres" where
  "install_loop recovering tail 0 s = Inr s"
| "install_loop recovering tail (Suc k) s =
     kbind (install_block recovering tail s) (install_loop recovering (Suc tail) k)"

definition install_trans :: "bool \<Rightarrow> 'z log_state_scheme \<Rightarrow> 'z log_state_scheme kres" where
  "install_trans recovering s = install_loop recovering 0 (nat (lh_n s)) s"

primrec read_blocks :: "byte list \<Rightarrow> nat \<Rightarrow> nat \<Rightarrow> u32 list \<Rightarrow> u32 list kres" where
  "read_blocks d i 0 bl = Inr bl"
| "read_blocks d i (Suc k) bl =
     (if LOGSIZE \<le> i then Inl Undefined
      else read_blocks d (Suc i) k (bl[i := hdr_block d i]))"

definition read_head :: "'z log_state_scheme \<Rightarrow> 'z log_state_scheme kres" where
  "read_head s =
     kbind (bread (log_dev s) (log_start s) s) (\<lambda>(buf, s1).
     let d = get_data buf s1; s1 = s1\<lparr>lh_n := hdr_n d\<rparr>
     in kbind (read_blocks d 0 (nat (lh_n s1)) (lh_block s1)) (\<lambda>bl.
        brelse buf (s1\<lparr>lh_block := bl\<rparr>)))"

primrec write_blocks :: "u32 list \<Rightarrow> nat \<Rightarrow> nat \<Rightarrow> byte list \<Rightarrow> byte list kres" where
  "write_blocks bl i 0 d = Inr d"
| "write_blocks bl i (Suc k) d =
     (if LOGSIZE \<le> i then Inl Undefined
      else write_blocks bl (Suc i) k (put32 d (4 + 4 * i) (bl ! i)))"

definition write_head :: "'z log_state_scheme \<Rightarrow> 'z log_state_scheme kres" where
  "write_head s =
     kbind (bread (log_dev s) (log_start s) s) (\<lambda>(buf, s1).
     kbind (write_blocks (lh_block s) 0 (nat (lh_n s))
              (put32 (get_data buf s1) 0 (of_int (lh_n s)))) (\<lambda>d.
     kbind (bwrite buf (set_data buf d s1)) (brelse buf)))"

definition recover_from_log :: "'z log_state_scheme \<Rightarrow> 'z log_state_scheme kres" where
  "recover_from_log s =
     kbind (read_head s) (\<lambda>s.
     kbind (install_trans True s) (\<lambda>s. write_head (s\<lparr>lh_n := 0\<rparr>)))"

text \<open>\<^verbatim>\<open>sizeof(struct logheader)\<close> is 4 + 4 LOGSIZE.\<close>

definition initlog ::
  "u32 \<Rightarrow> superblock \<Rightarrow> 'z log_state_scheme \<Rightarrow> 'z log_state_scheme kres" where
  "initlog dev sb s =
     (if BSIZE \<le> 4 + 4 * LOGSIZE then Inl (Panic ''initlog: too big logheader'')
      else recover_from_log
             (s\<lparr>log_start := sb_logstart sb, log_size := sint (sb_nlog sb), log_dev := dev\<rparr>))"

definition begin_op :: "'z log_state_scheme \<Rightarrow> 'z log_state_scheme kres" where
  "begin_op s =
     (if committing s then Inl Blocks
      else if lh_n s + (outstanding s + 1) * int MAXOPBLOCKS > int LOGSIZE then Inl Blocks
      else Inr (s\<lparr>outstanding := outstanding s + 1\<rparr>))"

definition write_log_block :: "nat \<Rightarrow> 'z log_state_scheme \<Rightarrow> 'z log_state_scheme kres" where
  "write_log_block tail s =
     (if LOGSIZE \<le> tail then Inl Undefined else
      kbind (bread (log_dev s) (log_blk (log_start s) tail) s) (\<lambda>(to, s1).
      kbind (bread (log_dev s) (lh_block s ! tail) s1) (\<lambda>(from, s2).
      kbind (bwrite to (set_data to (get_data from s2) s2)) (\<lambda>s3.
      kbind (brelse from s3) (brelse to)))))"

primrec write_log_loop :: "nat \<Rightarrow> nat \<Rightarrow> 'z log_state_scheme \<Rightarrow> 'z log_state_scheme kres" where
  "write_log_loop tail 0 s = Inr s"
| "write_log_loop tail (Suc k) s = kbind (write_log_block tail s) (write_log_loop (Suc tail) k)"

definition write_log :: "'z log_state_scheme \<Rightarrow> 'z log_state_scheme kres" where
  "write_log s = write_log_loop 0 (nat (lh_n s)) s"

definition commit :: "'z log_state_scheme \<Rightarrow> 'z log_state_scheme kres" where
  "commit s =
     (if 0 < lh_n s
      then kbind (write_log s) (\<lambda>s. kbind (write_head s) (\<lambda>s.
           kbind (install_trans False s) (\<lambda>s. write_head (s\<lparr>lh_n := 0\<rparr>))))
      else Inr s)"

definition end_op :: "'z log_state_scheme \<Rightarrow> 'z log_state_scheme kres" where
  "end_op s =
     (let s = s\<lparr>outstanding := outstanding s - 1\<rparr>
      in if committing s then Inl (Panic ''log.committing'')
         else if outstanding s = 0
         then kbind (commit (s\<lparr>committing := True\<rparr>)) (\<lambda>s. Inr (s\<lparr>committing := False\<rparr>))
         else Inr s)"

text \<open>The absorption loop stops at the first entry for the block, or at \<^verbatim>\<open>log.lh.n\<close>.\<close>

primrec absorb :: "u32 list \<Rightarrow> u32 \<Rightarrow> nat \<Rightarrow> nat \<Rightarrow> nat" where
  "absorb bl b i 0 = i"
| "absorb bl b i (Suc k) = (if bl ! i = b then i else absorb bl b (Suc i) k)"

definition log_write :: "nat \<Rightarrow> 'z log_state_scheme \<Rightarrow> 'z log_state_scheme kres" where
  "log_write b s =
     (if int LOGSIZE \<le> lh_n s \<or> log_size s - 1 \<le> lh_n s
      then Inl (Panic ''too big a transaction'')
      else if outstanding s < 1 then Inl (Panic ''log_write outside of trans'')
      else let bno = blockno (bufs s b);
               i = absorb (lh_block s) bno 0 (nat (lh_n s));
               s = s\<lparr>lh_block := (lh_block s)[i := bno]\<rparr>
           in Inr (if int i = lh_n s then (bpin b s)\<lparr>lh_n := lh_n s + 1\<rparr> else s))"

section \<open>Disk writes and the log region\<close>

definition apply_writes :: "(u32 \<times> byte list) list \<Rightarrow> (u32 \<Rightarrow> byte list) \<Rightarrow> u32 \<Rightarrow> byte list" where
  "apply_writes ws d = foldl (\<lambda>d (b, x). d(b := x)) d ws"

text \<open>The \<^verbatim>\<open>LOGSIZE\<close> blocks that \<^verbatim>\<open>mkfs\<close> sets aside: the header and one block per entry; \<^verbatim>\<open>log_write\<close> stops one short of \<^verbatim>\<open>log.size\<close>.\<close>

definition log_region :: "u32 \<Rightarrow> u32 set" where
  "log_region start = insert start (log_blk start ` {..<LOGSIZE - 1})"

definition log_blocks :: "'z log_state_scheme \<Rightarrow> u32 list" where
  "log_blocks s = take (nat (lh_n s)) (lh_block s)"

text \<open>The writes of the two copy loops, from entry \<open>tail\<close> on.\<close>

definition to_log :: "u32 \<Rightarrow> u32 list \<Rightarrow> (u32 \<Rightarrow> byte list) \<Rightarrow> nat \<Rightarrow> nat \<Rightarrow> (u32 \<times> byte list) list" where
  "to_log start bl c tail k = map (\<lambda>t. (log_blk start t, c (bl ! t))) [tail..<tail + k]"

definition from_log :: "u32 \<Rightarrow> u32 list \<Rightarrow> (u32 \<Rightarrow> byte list) \<Rightarrow> nat \<Rightarrow> nat \<Rightarrow> (u32 \<times> byte list) list" where
  "from_log start bl c tail k = map (\<lambda>t. (bl ! t, c (log_blk start t))) [tail..<tail + k]"

lemma apply_writes_simps [simp]:
  "apply_writes [] d = d"
  "apply_writes ((b, x) # ws) d = apply_writes ws (d(b := x))"
  "apply_writes (ws @ ws') d = apply_writes ws' (apply_writes ws d)"
  by (simp_all add: apply_writes_def)

lemma apply_writes_other: "b \<notin> fst ` set ws \<Longrightarrow> apply_writes ws d b = d b"
  by (induction ws arbitrary: d) (auto simp: apply_writes_def)

lemma apply_writes_in:
  "(b, x) \<in> set ws \<Longrightarrow> distinct (map fst ws) \<Longrightarrow> apply_writes ws d b = x"
proof (induction ws arbitrary: d)
  case (Cons w ws)
  obtain b' x' where w: "w = (b', x')" by (cases w)
  show ?case
  proof (cases "(b, x) \<in> set ws")
    case True
    then show ?thesis using Cons by (simp add: w)
  next
    case False
    then have "b = b'" "x = x'" "b \<notin> fst ` set ws" using Cons.prems w by auto
    then show ?thesis by (simp add: w apply_writes_other)
  qed
qed simp

lemma apply_writes_length:
  "\<forall>b. length (d b) = n \<Longrightarrow> \<forall>w \<in> set ws. length (snd w) = n \<Longrightarrow> length (apply_writes ws d b) = n"
  by (induction ws arbitrary: d) auto

lemma LOGSIZE_pos [simp]: "0 < LOGSIZE"
  by (simp add: LOGSIZE_def MAXOPBLOCKS_def)

lemma log_blk_inj: "i < LOGSIZE \<Longrightarrow> j < LOGSIZE \<Longrightarrow> log_blk st i = log_blk st j \<longleftrightarrow> i = j"
  by (simp add: log_blk_def LOGSIZE_def MAXOPBLOCKS_def of_nat_word_eq_iff)

lemma log_blk_start: "i < LOGSIZE \<Longrightarrow> log_blk st i \<noteq> st"
proof -
  assume "i < LOGSIZE"
  then have "(of_nat (i + 1) :: u32) \<noteq> of_nat 0"
    by (subst of_nat_word_eq_iff) (simp_all add: LOGSIZE_def MAXOPBLOCKS_def)
  then show ?thesis by (simp add: log_blk_def ac_simps)
qed

lemma log_blk_region [simp]: "Suc i < LOGSIZE \<Longrightarrow> log_blk st i \<in> log_region st" "st \<in> log_region st"
  by (simp_all add: log_region_def)

lemma bframe_log:
  assumes "bframe s s'"
  shows "log_start s' = log_start s" "log_size s' = log_size s" "outstanding s' = outstanding s"
    "committing s' = committing s" "log_dev s' = log_dev s" "lh_n s' = lh_n s"
    "lh_block s' = lh_block s" "curpid s' = curpid s" "log_state.more s' = log_state.more s"
  using assms by (auto simp: bframe_def)

lemma bframe_header:
  assumes "bframe s s'"
  shows "bframe (s\<lparr>lh_n := n, lh_block := bl\<rparr>) (s'\<lparr>lh_n := n, lh_block := bl\<rparr>)"
    and "bframe (s\<lparr>lh_n := n\<rparr>) (s'\<lparr>lh_n := n\<rparr>)"
proof -
  obtain x y z where s': "s' = s\<lparr>bufs := x, disk := y, dwrites := z\<rparr>"
    using assms by (auto simp: bframe_def)
  show "bframe (s\<lparr>lh_n := n, lh_block := bl\<rparr>) (s'\<lparr>lh_n := n, lh_block := bl\<rparr>)"
    unfolding bframe_def s' by (intro exI [of _ x] exI [of _ y] exI [of _ z]) simp
  show "bframe (s\<lparr>lh_n := n\<rparr>) (s'\<lparr>lh_n := n\<rparr>)"
    unfolding bframe_def s' by (intro exI [of _ x] exI [of _ y] exI [of _ z]) simp
qed

lemma log_upd_view:
  assumes "bufs s' = bufs s" and "disk s' = disk s" and "dwrites s' = dwrites s"
  shows "view dev s' = view dev s" "binv dev s' = binv dev s" "slot dev s' = slot dev s"
  unfolding view_def binv_def slot_def assms cached_bufs [OF assms(1)] by (rule refl)+

section \<open>The header block\<close>

lemma write_blocks_ok:
  "i + k \<le> LOGSIZE \<Longrightarrow> length d = BSIZE \<Longrightarrow>
   \<exists>d'. write_blocks bl i k d = Inr d' \<and> length d' = BSIZE \<and> get32 d' 0 = get32 d 0 \<and>
     (\<forall>j < LOGSIZE. hdr_block d' j = (if i \<le> j \<and> j < i + k then bl ! j else hdr_block d j))"
proof (induction k arbitrary: i d)
  case (Suc k)
  let ?d = "put32 d (4 + 4 * i) (bl ! i)"
  have b: "4 + 4 * i + 4 \<le> length d" using Suc.prems by (simp add: LOGSIZE_def MAXOPBLOCKS_def BSIZE_def)
  then have "length ?d = BSIZE" using Suc.prems by simp
  then obtain d' where d': "write_blocks bl (Suc i) k ?d = Inr d'" "length d' = BSIZE"
    "get32 d' 0 = get32 ?d 0"
    "\<forall>j < LOGSIZE. hdr_block d' j = (if Suc i \<le> j \<and> j < Suc i + k then bl ! j else hdr_block ?d j)"
    using Suc.IH [of "Suc i" ?d] Suc.prems by auto
  have "get32 ?d 0 = get32 d 0" using b by (intro get32_put32_other) auto
  moreover have "hdr_block ?d j = (if j = i then bl ! i else hdr_block d j)" if "j < LOGSIZE" for j
    using b that Suc.prems(2)
    by (auto simp: hdr_block_def get32_put32_same LOGSIZE_def MAXOPBLOCKS_def BSIZE_def
        intro!: get32_put32_other)
  ultimately show ?case using d' Suc.prems
    by (intro exI [of _ d']) (auto simp: not_less_eq_eq dest: le_antisym)
qed auto

lemma read_blocks_ok:
  "i + k \<le> LOGSIZE \<Longrightarrow> length bl = LOGSIZE \<Longrightarrow>
   \<exists>bl'. read_blocks d i k bl = Inr bl' \<and> length bl' = LOGSIZE \<and>
     (\<forall>j < LOGSIZE. bl' ! j = (if i \<le> j \<and> j < i + k then hdr_block d j else bl ! j))"
proof (induction k arbitrary: i bl)
  case (Suc k)
  let ?bl = "bl[i := hdr_block d i]"
  obtain bl' where "read_blocks d (Suc i) k ?bl = Inr bl'" "length bl' = LOGSIZE"
    "\<forall>j < LOGSIZE. bl' ! j = (if Suc i \<le> j \<and> j < Suc i + k then hdr_block d j else ?bl ! j)"
    using Suc.IH [of "Suc i" ?bl] Suc.prems by auto
  then show ?case using Suc.prems
    by (intro exI [of _ bl']) (auto simp: nth_list_update not_less_eq_eq dest: le_antisym)
qed auto

text \<open>\<open>header d n bl\<close>: the block \<open>d\<close> holds a log header with the first \<open>n\<close> entries of \<open>bl\<close>.\<close>

definition header :: "byte list \<Rightarrow> nat \<Rightarrow> u32 list \<Rightarrow> bool" where
  "header d n bl \<longleftrightarrow> length d = BSIZE \<and> n < LOGSIZE \<and> hdr_n d = int n \<and>
     (\<forall>j < n. hdr_block d j = bl ! j)"

lemma sint_of_small: "n \<le> LOGSIZE \<Longrightarrow> sint (of_int (int n) :: u32) = int n"
  by (simp only: LOGSIZE_def MAXOPBLOCKS_def sint_sbintrunc') (simp add: signed_take_bit_int_eq_self)

lemma make_header:
  assumes "length d = BSIZE" and "n < LOGSIZE"
  obtains d' where "write_blocks bl 0 n (put32 d 0 (of_int (int n))) = Inr d'" and "header d' n bl"
proof -
  let ?d = "put32 d 0 (of_int (int n))"
  have l: "length ?d = BSIZE" using assms by (simp add: BSIZE_def)
  obtain d' where d': "write_blocks bl 0 n ?d = Inr d'" "length d' = BSIZE" "get32 d' 0 = get32 ?d 0"
    "\<forall>j < LOGSIZE. hdr_block d' j = (if 0 \<le> j \<and> j < 0 + n then bl ! j else hdr_block ?d j)"
    using write_blocks_ok [of 0 n ?d bl] l assms(2) by auto
  have "get32 ?d 0 = of_int (int n)" using assms(1) by (intro get32_put32_same) (simp add: BSIZE_def)
  then have "hdr_n d' = int n" using d'(3) sint_of_small [OF less_imp_le [OF assms(2)]] by (simp add: hdr_n_def)
  with d' assms show thesis by (intro that) (auto simp: header_def)
qed

section \<open>The copy loops\<close>

lemma write_log_block_copy:
  "tail < LOGSIZE \<Longrightarrow> write_log_block tail s =
     bcache.copy_out (log_dev s) (log_blk (log_start s) tail) (lh_block s ! tail) s"
  by (simp add: write_log_block_def bcache.copy_out_def)

lemma install_block_copy:
  "tail < LOGSIZE \<Longrightarrow> install_block recovering tail s =
     bcache.copy_in (log_dev s) (\<not> recovering) (log_blk (log_start s) tail) (lh_block s ! tail) s"
  by (simp add: install_block_def bcache.copy_in_def)

lemma to_log_Suc: "to_log st bl c tail (Suc k) =
    (log_blk st tail, c (bl ! tail)) # to_log st bl c (Suc tail) k"
  by (simp add: to_log_def upt_conv_Cons del: upt_Suc)

lemma from_log_Suc: "from_log st bl c tail (Suc k) =
    (bl ! tail, c (log_blk st tail)) # from_log st bl c (Suc tail) k"
  by (simp add: from_log_def upt_conv_Cons del: upt_Suc)

lemma room_cong: "v_refs v' = v_refs v \<Longrightarrow> v_lock v' = v_lock v \<Longrightarrow> room v' B = room v B"
  by (simp add: room_def)

lemma room_upd [simp]:
  "room (v\<lparr>v_blk := c\<rparr>) B = room v B"
  "room (v\<lparr>v_disk := d\<rparr>) B = room v B"
  "room (v\<lparr>v_writes := w\<rparr>) B = room v B"
  by (simp_all add: room_def)

lemma room_less:
  assumes "room v B" and "v_lock v' = v_lock v" and "\<And>b. v_refs v' b \<le> v_refs v b"
    and "finite {b. 0 < v_refs v b}" and "finite B"
  shows "room v' B"
proof -
  have "{b. 0 < v_refs v' b} \<subseteq> {b. 0 < v_refs v b}" using assms(3) by (auto intro: less_le_trans)
  then have "card ({b. 0 < v_refs v' b} \<union> B) \<le> card ({b. 0 < v_refs v b} \<union> B)"
    using assms(4,5) by (intro card_mono) auto
  moreover have "v_refs v' b < 2 ^ 32 - 2" if "b \<in> B" for b
    using assms(1,3) that unfolding room_def by (meson order.strict_trans1)
  ultimately show ?thesis using assms(1,2) by (auto simp: room_def)
qed

lemma write_log_loop_ok:
  "binv (log_dev s) s \<Longrightarrow> tail + k < LOGSIZE \<Longrightarrow>
   \<forall>t. tail \<le> t \<and> t < tail + k \<longrightarrow> lh_block s ! t \<notin> log_region (log_start s) \<and>
     room (view (log_dev s) s) {log_blk (log_start s) t, lh_block s ! t} \<Longrightarrow>
   W = to_log (log_start s) (lh_block s) (v_blk (view (log_dev s) s)) tail k \<Longrightarrow>
   \<exists>s'. write_log_loop tail k s = Inr s' \<and> binv (log_dev s) s' \<and> bframe s s' \<and>
     view (log_dev s) s' = (view (log_dev s) s)\<lparr>
       v_blk := apply_writes W (v_blk (view (log_dev s) s)),
       v_disk := apply_writes W (v_disk (view (log_dev s) s)),
       v_writes := v_writes (view (log_dev s) s) @ W\<rparr>"
proof (induction k arbitrary: tail s W)
  case 0
  then show ?case by (simp add: to_log_def bcache.frame_refl)
next
  case (Suc k)
  let ?v = "view (log_dev s) s" and ?l = "log_blk (log_start s) tail" and ?b = "lh_block s ! tail"
  have t: "Suc tail < LOGSIZE" and nb: "?b \<notin> log_region (log_start s)" and r: "room ?v {?l, ?b}"
    using Suc.prems(2,3) by auto
  have ne: "?l \<noteq> ?b" using nb log_blk_region(1) [OF t, of "log_start s"] by auto
  obtain s1 where s1: "bcache.copy_out (log_dev s) ?l ?b s = Inr s1" "binv (log_dev s) s1" "bframe s s1"
    and v1: "view (log_dev s) s1 = ?v\<lparr>v_blk := (v_blk ?v)(?l := v_blk ?v ?b),
      v_disk := (v_disk ?v)(?l := v_blk ?v ?b), v_writes := v_writes ?v @ [(?l, v_blk ?v ?b)]\<rparr>"
    by (rule bcache.copy_out_ok [OF Suc.prems(1) ne r])
  note f = bframe_log [OF s1(3)]
  let ?W = "to_log (log_start s) (lh_block s) (v_blk ?v) (Suc tail) k"
  have c: "((v_blk ?v)(?l := v_blk ?v ?b)) (lh_block s ! t') = v_blk ?v (lh_block s ! t')"
    if "Suc tail \<le> t'" "t' < Suc tail + k" for t'
  proof -
    have "lh_block s ! t' \<notin> log_region (log_start s)" using Suc.prems(3) that by simp
    then show ?thesis using log_blk_region(1) [OF t, of "log_start s"] by auto
  qed
  then have W: "?W = to_log (log_start s1) (lh_block s1) (v_blk (view (log_dev s1) s1)) (Suc tail) k"
    by (simp add: to_log_def f v1 del: upt_Suc fun_upd_apply)
  have "\<exists>s'. write_log_loop (Suc tail) k s1 = Inr s' \<and> binv (log_dev s1) s' \<and> bframe s1 s' \<and>
     view (log_dev s1) s' = (view (log_dev s1) s1)\<lparr>
       v_blk := apply_writes ?W (v_blk (view (log_dev s1) s1)),
       v_disk := apply_writes ?W (v_disk (view (log_dev s1) s1)),
       v_writes := v_writes (view (log_dev s1) s1) @ ?W\<rparr>"
    using Suc.prems(2,3) s1(2) room_cong [of "view (log_dev s) s1" ?v]
    by (intro Suc.IH [OF _ _ _ W]) (auto simp: f v1)
  then obtain s2 where s2: "write_log_loop (Suc tail) k s1 = Inr s2" "binv (log_dev s) s2" "bframe s1 s2"
    "view (log_dev s) s2 = (view (log_dev s) s1)\<lparr>
       v_blk := apply_writes ?W (v_blk (view (log_dev s) s1)),
       v_disk := apply_writes ?W (v_disk (view (log_dev s) s1)),
       v_writes := v_writes (view (log_dev s) s1) @ ?W\<rparr>" by (auto simp: f)
  have "bframe s s2" by (rule bcache.frame_trans [OF s1(3) s2(3)])
  then show ?case
    using s1 s2 Suc.prems(4) t by (simp add: write_log_block_copy to_log_Suc v1)
qed

lemma install_loop_ok:
  "binv (log_dev s) s \<Longrightarrow> tail + k < LOGSIZE \<Longrightarrow> length (lh_block s) = LOGSIZE \<Longrightarrow>
   distinct (take k (drop tail (lh_block s))) \<or> recovering \<Longrightarrow>
   \<forall>t. tail \<le> t \<and> t < tail + k \<longrightarrow> lh_block s ! t \<notin> log_region (log_start s) \<and>
     room (view (log_dev s) s) {log_blk (log_start s) t, lh_block s ! t} \<and>
     (recovering \<or> 0 < v_refs (view (log_dev s) s) (lh_block s ! t)) \<Longrightarrow>
   W = from_log (log_start s) (lh_block s) (v_blk (view (log_dev s) s)) tail k \<Longrightarrow>
   \<exists>s'. install_loop recovering tail k s = Inr s' \<and> binv (log_dev s) s' \<and> bframe s s' \<and>
     view (log_dev s) s' = (view (log_dev s) s)\<lparr>
       v_blk := apply_writes W (v_blk (view (log_dev s) s)),
       v_disk := apply_writes W (v_disk (view (log_dev s) s)),
       v_refs := (\<lambda>b. if \<not> recovering \<and> b \<in> set (take k (drop tail (lh_block s)))
                       then v_refs (view (log_dev s) s) b - 1 else v_refs (view (log_dev s) s) b),
       v_writes := v_writes (view (log_dev s) s) @ W\<rparr>"
proof (induction k arbitrary: tail s W)
  case 0
  then show ?case by (simp add: from_log_def bcache.frame_refl)
next
  case (Suc k)
  let ?v = "view (log_dev s) s" and ?l = "log_blk (log_start s) tail" and ?b = "lh_block s ! tail"
  have t: "Suc tail < LOGSIZE" and nb: "?b \<notin> log_region (log_start s)" and r: "room ?v {?l, ?b}"
    and u: "\<not> recovering \<longrightarrow> 0 < v_refs ?v ?b"
    using Suc.prems(2,5) by auto
  have ne: "?l \<noteq> ?b" using nb log_blk_region(1) [OF t, of "log_start s"] by auto
  obtain s1 where s1: "bcache.copy_in (log_dev s) (\<not> recovering) ?l ?b s = Inr s1"
    "binv (log_dev s) s1" "bframe s s1"
    and v1: "view (log_dev s) s1 = ?v\<lparr>v_blk := (v_blk ?v)(?b := v_blk ?v ?l),
      v_disk := (v_disk ?v)(?b := v_blk ?v ?l),
      v_refs := (if \<not> recovering then (v_refs ?v)(?b := v_refs ?v ?b - 1) else v_refs ?v),
      v_writes := v_writes ?v @ [(?b, v_blk ?v ?l)]\<rparr>"
    by (rule bcache.copy_in_ok [OF Suc.prems(1) ne r u])
  note f = bframe_log [OF s1(3)]
  have sl: "take (Suc k) (drop tail (lh_block s)) = ?b # take k (drop (Suc tail) (lh_block s))"
    using t Suc.prems(3) by (simp add: Cons_nth_drop_Suc [symmetric])
  let ?W = "from_log (log_start s) (lh_block s) (v_blk ?v) (Suc tail) k"
  have c: "((v_blk ?v)(?b := v_blk ?v ?l)) (log_blk (log_start s) t') = v_blk ?v (log_blk (log_start s) t')"
    if "t' < Suc tail + k" for t'
  proof -
    have "log_blk (log_start s) t' \<in> log_region (log_start s)"
      using that Suc.prems(2) by (intro log_blk_region) simp
    then show ?thesis using nb by auto
  qed
  then have W: "?W = from_log (log_start s1) (lh_block s1) (v_blk (view (log_dev s1) s1)) (Suc tail) k"
    by (simp add: from_log_def f v1 del: upt_Suc fun_upd_apply)
  have fin: "finite {b. 0 < v_refs ?v b}" by (rule bcache.finite_refs [OF Suc.prems(1)])
  have pre: "lh_block s1 ! t' \<notin> log_region (log_start s1) \<and>
      room (view (log_dev s1) s1) {log_blk (log_start s1) t', lh_block s1 ! t'} \<and>
      (recovering \<or> 0 < v_refs (view (log_dev s1) s1) (lh_block s1 ! t'))"
    if "Suc tail \<le> t'" "t' < Suc tail + k" for t'
  proof -
    from Suc.prems(5) that have p: "room ?v {log_blk (log_start s) t', lh_block s ! t'}"
      "lh_block s ! t' \<notin> log_region (log_start s)" "recovering \<or> 0 < v_refs ?v (lh_block s ! t')"
      by simp_all
    have "room (view (log_dev s) s1) {log_blk (log_start s) t', lh_block s ! t'}"
      by (rule room_less [OF p(1) _ _ fin]) (simp_all add: v1)
    moreover have "lh_block s ! t' \<noteq> ?b" if "\<not> recovering"
    proof -
      have "t' - Suc tail < k" "drop (Suc tail) (lh_block s) ! (t' - Suc tail) = lh_block s ! t'"
        using \<open>Suc tail \<le> t'\<close> \<open>t' < Suc tail + k\<close> Suc.prems(2,3) by simp_all
      then have "lh_block s ! t' \<in> set (take k (drop (Suc tail) (lh_block s)))"
        using Suc.prems(2,3) by (auto simp: in_set_conv_nth intro!: exI [of _ "t' - Suc tail"])
      then show ?thesis using Suc.prems(4) that sl by auto
    qed
    ultimately show ?thesis using p(2,3) by (auto simp: f v1)
  qed
  obtain s2 where s2: "install_loop recovering (Suc tail) k s1 = Inr s2" "binv (log_dev s) s2" "bframe s1 s2"
    "view (log_dev s) s2 = (view (log_dev s) s1)\<lparr>
       v_blk := apply_writes ?W (v_blk (view (log_dev s) s1)),
       v_disk := apply_writes ?W (v_disk (view (log_dev s) s1)),
       v_refs := (\<lambda>b. if \<not> recovering \<and> b \<in> set (take k (drop (Suc tail) (lh_block s)))
                       then v_refs (view (log_dev s) s1) b - 1 else v_refs (view (log_dev s) s1) b),
       v_writes := v_writes (view (log_dev s) s1) @ ?W\<rparr>"
    using Suc.IH [OF _ _ _ _ _ W] Suc.prems(2-4) s1(2) pre sl by (auto simp: f cong: if_cong)
  have "bframe s s2" by (rule bcache.frame_trans [OF s1(3) s2(3)])
  moreover have "?b \<notin> set (take k (drop (Suc tail) (lh_block s)))" if "\<not> recovering"
    using Suc.prems(4) that sl by auto
  ultimately show ?case
    using s1 s2 Suc.prems(6) t
    by (simp add: install_block_copy from_log_Suc v1 sl fun_eq_iff)
qed

section \<open>Reading and writing the header\<close>

lemma write_head_ok:
  assumes "binv (log_dev s) s" and "lh_n s = int n" and "n < LOGSIZE"
    and "room (view (log_dev s) s) {log_start s}"
  obtains h s' where "write_head s = Inr s'" and "header h n (lh_block s)"
    and "binv (log_dev s) s'" and "bframe s s'"
    and "view (log_dev s) s' = (view (log_dev s) s)\<lparr>
      v_blk := (v_blk (view (log_dev s) s))(log_start s := h),
      v_disk := (v_disk (view (log_dev s) s))(log_start s := h),
      v_writes := v_writes (view (log_dev s) s) @ [(log_start s, h)]\<rparr>"
proof -
  let ?dev = "log_dev s" and ?st = "log_start s"
  let ?v = "view ?dev s"
  obtain i s1 where 1: "bread ?dev ?st s = Inr (i, s1)" "binv ?dev s1" "bframe s s1" "slot ?dev s1 ?st = Some i"
    and v1: "view ?dev s1 = ?v\<lparr>v_refs := (v_refs ?v)(?st := v_refs ?v ?st + 1),
       v_lock := (v_lock ?v)(?st := Some (curpid s))\<rparr>"
    by (rule bcache.rd1 [OF assms(1,4)])
  have g: "get_data i s1 = v_blk ?v ?st" using bcache.get [OF 1(2,4)] v1 by simp
  have l: "length (v_blk ?v ?st) = BSIZE" using bcache.block_length [OF assms(1)] by simp
  obtain h where h: "write_blocks (lh_block s) 0 n (put32 (v_blk ?v ?st) 0 (of_int (int n))) = Inr h"
    "header h n (lh_block s)" by (rule make_header [OF l assms(3)])
  have lh: "length h = BSIZE" using h(2) by (simp add: header_def)
  have p: "v_lock (view ?dev s1) ?st = Some (curpid s1)" "0 < v_refs (view ?dev s1) ?st"
    using v1 bframe_log(8) [OF 1(3)] by simp_all
  obtain s2 where 2: "bwrite i (set_data i h s1) = Inr s2" "binv ?dev s2" "bframe s1 s2"
    "slot ?dev s2 = slot ?dev s1"
    and v2: "view ?dev s2 = (view ?dev s1)\<lparr>v_blk := (v_blk (view ?dev s1))(?st := h),
      v_disk := (v_disk (view ?dev s1))(?st := h),
      v_writes := v_writes (view ?dev s1) @ [(?st, h)]\<rparr>"
    by (rule bcache.put_wr [OF 1(2,4) p lh])
  have "v_lock (view ?dev s2) ?st = Some (curpid s2)"
    using v2 p(1) bframe_log(8) [OF 2(3)] by simp
  then obtain s3 where 3: "brelse i s2 = Inr s3" "binv ?dev s3" "bframe s2 s3"
    and v3: "view ?dev s3 = (view ?dev s2)\<lparr>
      v_refs := (v_refs (view ?dev s2))(?st := v_refs (view ?dev s2) ?st - 1),
      v_lock := (v_lock (view ?dev s2))(?st := None)\<rparr>"
    using bcache.rel [OF 2(2), of ?st i] 1(4) 2(4) v2 by auto
  have "v_lock ?v ?st = None" using assms(4) by (simp add: room_def)
  then have "view ?dev s3 = ?v\<lparr>v_blk := (v_blk ?v)(?st := h), v_disk := (v_disk ?v)(?st := h),
      v_writes := v_writes ?v @ [(?st, h)]\<rparr>"
    using v1 v2 v3 by (simp add: fun_upd_idem)
  moreover have "bframe s s3" by (rule bcache.frame_trans [OF bcache.frame_trans [OF 1(3) 2(3)] 3(3)])
  ultimately show thesis
    using 1 2 3 g h assms(2) by (intro that [of s3 h]) (simp_all add: write_head_def)
qed

lemma read_head_ok:
  assumes "binv (log_dev s) s" and "header (v_blk (view (log_dev s) s) (log_start s)) n bl"
    and "length (lh_block s) = LOGSIZE" and "room (view (log_dev s) s) {log_start s}"
  obtains bl' s' where "read_head s = Inr s'" and "length bl' = LOGSIZE" and "\<forall>j < n. bl' ! j = bl ! j"
    and "bframe (s\<lparr>lh_n := int n, lh_block := bl'\<rparr>) s'"
    and "binv (log_dev s) s'" and "view (log_dev s) s' = view (log_dev s) s"
proof -
  let ?dev = "log_dev s" and ?st = "log_start s"
  let ?v = "view ?dev s"
  obtain i s1 where 1: "bread ?dev ?st s = Inr (i, s1)" "binv ?dev s1" "bframe s s1" "slot ?dev s1 ?st = Some i"
    and v1: "view ?dev s1 = ?v\<lparr>v_refs := (v_refs ?v)(?st := v_refs ?v ?st + 1),
       v_lock := (v_lock ?v)(?st := Some (curpid s))\<rparr>"
    by (rule bcache.rd1 [OF assms(1,4)])
  have g: "get_data i s1 = v_blk ?v ?st" using bcache.get [OF 1(2,4)] v1 by simp
  have h: "hdr_n (v_blk ?v ?st) = int n" "n < LOGSIZE" using assms(2) by (simp_all add: header_def)
  obtain bl' where b: "read_blocks (v_blk ?v ?st) 0 n (lh_block s) = Inr bl'" "length bl' = LOGSIZE"
    "\<forall>j < LOGSIZE. bl' ! j = (if 0 \<le> j \<and> j < 0 + n then hdr_block (v_blk ?v ?st) j else lh_block s ! j)"
    using read_blocks_ok [of 0 n "lh_block s"] h(2) assms(3) by auto
  let ?t = "s1\<lparr>lh_n := int n, lh_block := bl'\<rparr>"
  note t = log_upd_view [of ?t s1, simplified]
  have ft: "bframe (s\<lparr>lh_n := int n, lh_block := bl'\<rparr>) ?t" using 1(3) by (rule bframe_header(1))
  have "v_lock (view ?dev ?t) ?st = Some (curpid ?t)"
    using v1 bframe_log(8) [OF 1(3)] by (simp add: t)
  moreover have "1 < v_refs (view ?dev ?t) ?st \<or> v_blk (view ?dev ?t) ?st = v_disk (view ?dev ?t) ?st"
    using bcache.unreferenced [OF assms(1), of ?st] v1 by (auto simp: t(1))
  ultimately obtain s3 where 3: "brelse i ?t = Inr s3" "binv ?dev s3" "bframe ?t s3"
    and v3: "view ?dev s3 = (view ?dev ?t)\<lparr>
      v_refs := (v_refs (view ?dev ?t))(?st := v_refs (view ?dev ?t) ?st - 1),
      v_lock := (v_lock (view ?dev ?t))(?st := None)\<rparr>"
    using bcache.rel [of ?dev ?t ?st i] 1(2,4) by (auto simp: t(2,3))
  have "v_lock ?v ?st = None" using assms(4) by (simp add: room_def)
  then have "view ?dev s3 = ?v" using v1 v3 by (simp add: t(1) fun_upd_idem)
  moreover have "read_head s = Inr s3"
    using 1 3(1) g h b(1) bframe_log(7) [OF 1(3)] by (simp add: read_head_def)
  moreover have "bframe (s\<lparr>lh_n := int n, lh_block := bl'\<rparr>) s3"
    by (rule bcache.frame_trans [OF ft 3(3)])
  moreover have "\<forall>j < n. bl' ! j = bl ! j" using b(3) assms(2) h(2) by (simp add: header_def)
  ultimately show thesis using b(2) 3(2) by (intro that)
qed

section \<open>Commit\<close>

text \<open>
  Between operations: the header on disk is empty, exactly the blocks of the running
  transaction are pinned, none of them lies in the log, and no buffer is locked.
\<close>

definition log_inv :: "u32 \<Rightarrow> 'z log_state_scheme \<Rightarrow> bool" where
  "log_inv dev s \<longleftrightarrow>
     log_dev s = dev \<and> binv dev s \<and> length (lh_block s) = LOGSIZE \<and>
     0 \<le> lh_n s \<and> lh_n s < int LOGSIZE \<and> distinct (log_blocks s) \<and>
     set (log_blocks s) \<inter> log_region (log_start s) = {} \<and>
     v_lock (view dev s) = (\<lambda>b. None) \<and>
     v_refs (view dev s) = (\<lambda>b. if b \<in> set (log_blocks s) then 1 else 0) \<and>
     hdr_n (v_disk (view dev s) (log_start s)) = 0"

text \<open>The writes that install the blocks at home, and all disk writes of a commit in order.\<close>

definition home_writes :: "u32 list \<Rightarrow> (u32 \<Rightarrow> byte list) \<Rightarrow> nat \<Rightarrow> (u32 \<times> byte list) list" where
  "home_writes bl c n = map (\<lambda>t. (bl ! t, c (bl ! t))) [0..<n]"

definition commit_writes ::
  "u32 \<Rightarrow> u32 list \<Rightarrow> (u32 \<Rightarrow> byte list) \<Rightarrow> nat \<Rightarrow> byte list \<Rightarrow> byte list \<Rightarrow> (u32 \<times> byte list) list" where
  "commit_writes st bl c n h h0 =
     to_log st bl c 0 n @ [(st, h)] @ home_writes bl c n @ [(st, h0)]"

lemma apply_to_log_other:
  "n < LOGSIZE \<Longrightarrow> b \<notin> log_region st \<or> b = st \<Longrightarrow> apply_writes (take k (to_log st bl c 0 n)) d b = d b"
  by (intro apply_writes_other)
    (auto simp: to_log_def log_region_def log_blk_start [THEN not_sym] dest!: in_set_takeD)

lemma apply_to_log:
  assumes "n < LOGSIZE" and "t < n"
  shows "apply_writes (to_log st bl c 0 n) d (log_blk st t) = c (bl ! t)"
proof (rule apply_writes_in)
  show "(log_blk st t, c (bl ! t)) \<in> set (to_log st bl c 0 n)" using assms by (auto simp: to_log_def)
  show "distinct (map fst (to_log st bl c 0 n))"
    using assms by (auto simp: to_log_def distinct_map inj_on_def log_blk_inj)
qed

lemma home_writes_fst: "n \<le> length bl \<Longrightarrow> fst ` set (home_writes bl c n) = set (take n bl)"
  by (simp add: home_writes_def image_image nth_image [symmetric])

lemma apply_home_other:
  "n \<le> length bl \<Longrightarrow> b \<notin> set (take n bl) \<Longrightarrow> apply_writes (take k (home_writes bl c n)) d b = d b"
  using home_writes_fst [of n bl c] by (intro apply_writes_other) (force dest: in_set_takeD)

lemma apply_home:
  assumes "n \<le> length bl" and "b \<in> set (take n bl)"
  shows "apply_writes (home_writes bl c n) d b = c b"
  using assms
proof (induction n)
  case (Suc n)
  have "home_writes bl c (Suc n) = home_writes bl c n @ [(bl ! n, c (bl ! n))]"
    by (simp add: home_writes_def)
  with Suc show ?case by (auto simp: take_Suc_conv_app_nth)
qed simp

lemma log_inv_room:
  assumes "log_inv dev s" and "lh_n s < int NBUF"
  shows "room (view dev s) {x}"
    and "b \<in> set (log_blocks s) \<Longrightarrow> room (view dev s) {x, b}"
proof -
  have r: "{b. 0 < v_refs (view dev s) b} = set (log_blocks s)"
    using assms(1) by (auto simp: log_inv_def)
  have "card (set (log_blocks s)) \<le> length (log_blocks s)" by (rule card_length)
  also have "\<dots> \<le> nat (lh_n s)" by (simp add: log_blocks_def)
  finally have "card (insert x (set (log_blocks s))) \<le> NBUF"
    using assms card_insert_le_m1 [of NBUF "set (log_blocks s)" x]
    by (auto simp: log_inv_def NBUF_def MAXOPBLOCKS_def card_insert_if)
  then show "room (view dev s) {x}" "b \<in> set (log_blocks s) \<Longrightarrow> room (view dev s) {x, b}"
    using assms(1) unfolding room_def r by (auto simp: log_inv_def insert_absorb insert_commute)
qed

lemma from_log_home:
  assumes "\<And>t. t < n \<Longrightarrow> c' (log_blk st t) = c (bl ! t)"
  shows "from_log st bl c' 0 n = home_writes bl c n"
  using assms by (simp add: from_log_def home_writes_def)

lemma log_inv_length:
  assumes "log_inv dev s"
  shows "length (log_blocks s) = nat (lh_n s)" "log_blocks s = take (nat (lh_n s)) (lh_block s)"
    "t < nat (lh_n s) \<Longrightarrow> lh_block s ! t \<in> set (log_blocks s)"
proof -
  show "length (log_blocks s) = nat (lh_n s)" using assms by (auto simp: log_inv_def log_blocks_def)
  then show "t < nat (lh_n s) \<Longrightarrow> lh_block s ! t \<in> set (log_blocks s)"
    by (metis log_blocks_def nth_mem nth_take)
qed (simp add: log_blocks_def)

text \<open>The first three steps of a commit: blocks to the log, header, blocks to their homes.\<close>

lemma commit_steps:
  assumes inv: "log_inv dev s" and n: "lh_n s = int n" "n < NBUF"
  obtains h s1 s2 s3 where "write_log s = Inr s1" and "write_head s1 = Inr s2"
    and "install_trans False s2 = Inr s3" and "header h n (lh_block s)" and "binv dev s3"
    and "bframe s s3"
    and "view dev s3 = (view dev s)\<lparr>
      v_blk := apply_writes (to_log (log_start s) (lh_block s) (v_blk (view dev s)) 0 n @
        [(log_start s, h)] @ home_writes (lh_block s) (v_blk (view dev s)) n) (v_blk (view dev s)),
      v_disk := apply_writes (to_log (log_start s) (lh_block s) (v_blk (view dev s)) 0 n @
        [(log_start s, h)] @ home_writes (lh_block s) (v_blk (view dev s)) n) (disk s),
      v_refs := (\<lambda>b. 0),
      v_writes := dwrites s @ to_log (log_start s) (lh_block s) (v_blk (view dev s)) 0 n @
        [(log_start s, h)] @ home_writes (lh_block s) (v_blk (view dev s)) n\<rparr>"
proof -
  let ?st = "log_start s" and ?bl = "lh_block s" and ?v = "view dev s"
  let ?c = "v_blk ?v"
  let ?W1 = "to_log ?st ?bl ?c 0 n" and ?W3 = "home_writes ?bl ?c n"
  have dev: "log_dev s = dev" and N: "n < LOGSIZE" and b: "binv dev s" and lb: "length ?bl = LOGSIZE"
    using inv n by (auto simp: log_inv_def NBUF_def LOGSIZE_def)
  have L: "log_blocks s = take n ?bl" using n(1) by (simp add: log_blocks_def)
  have refs: "v_refs ?v = (\<lambda>b. if b \<in> set (take n ?bl) then 1 else 0)"
    using inv L by (simp add: log_inv_def)
  have nr: "?bl ! t \<notin> log_region ?st" "?bl ! t \<in> set (log_blocks s)" if "t < n" for t
    using log_inv_length(3) [OF inv, of t] inv n(1) that by (auto simp: log_inv_def)
  have room: "room ?v {x}" "t < n \<Longrightarrow> room ?v {x, ?bl ! t}" for x t
    using log_inv_room [OF inv] n nr by auto
  obtain s1 where s1: "write_log s = Inr s1" "binv dev s1" "bframe s s1"
    and v1: "view dev s1 = ?v\<lparr>v_blk := apply_writes ?W1 ?c, v_disk := apply_writes ?W1 (disk s),
      v_writes := dwrites s @ ?W1\<rparr>"
    using write_log_loop_ok [of s 0 n ?W1] dev b N n(1) nr room by (auto simp: write_log_def)
  note f1 = bframe_log [OF s1(3)]
  have r1: "room (view dev s1) B = room ?v B" for B by (rule room_cong) (simp_all add: v1)
  have p1: "binv (log_dev s1) s1" "lh_n s1 = int n" "room (view (log_dev s1) s1) {log_start s1}"
    using s1(2) dev n(1) room(1) by (simp_all add: f1 r1)
  obtain h s2 where s2: "write_head s1 = Inr s2" "header h n ?bl" "binv dev s2" "bframe s1 s2"
    and v2: "view dev s2 = (view dev s1)\<lparr>v_blk := (v_blk (view dev s1))(?st := h),
      v_disk := (v_disk (view dev s1))(?st := h), v_writes := v_writes (view dev s1) @ [(?st, h)]\<rparr>"
    by (rule write_head_ok [OF p1(1,2) N p1(3), unfolded f1 dev])
  note f2 = bframe_log [OF s2(4)]
  have r2: "room (view dev s2) B = room ?v B" for B by (rule room_cong) (simp_all add: v1 v2)
  have W3: "?W3 = from_log (log_start s2) (lh_block s2) (v_blk (view (log_dev s2) s2)) 0 n"
    unfolding f1 f2 dev
    by (rule from_log_home [symmetric]) (use N in \<open>simp add: v1 v2 log_blk_start apply_to_log\<close>)
  have "\<exists>s'. install_loop False 0 n s2 = Inr s' \<and> binv (log_dev s2) s' \<and> bframe s2 s' \<and>
     view (log_dev s2) s' = (view (log_dev s2) s2)\<lparr>
       v_blk := apply_writes ?W3 (v_blk (view (log_dev s2) s2)),
       v_disk := apply_writes ?W3 (v_disk (view (log_dev s2) s2)),
       v_refs := (\<lambda>b. if \<not> False \<and> b \<in> set (take n (drop 0 (lh_block s2)))
          then v_refs (view (log_dev s2) s2) b - 1 else v_refs (view (log_dev s2) s2) b),
       v_writes := v_writes (view (log_dev s2) s2) @ ?W3\<rparr>"
    using s2(3) N lb inv nr room(2) L unfolding f1 f2 dev
    by (intro install_loop_ok [where s = s2, unfolded f1 f2 dev, OF _ _ _ _ _ W3 [unfolded f1 f2 dev]])
      (auto simp: r2 v1 v2 log_inv_def)
  then obtain s3 where s3: "install_loop False 0 n s2 = Inr s3" "binv dev s3" "bframe s2 s3"
    and v3: "view dev s3 = (view dev s2)\<lparr>v_blk := apply_writes ?W3 (v_blk (view dev s2)),
       v_disk := apply_writes ?W3 (v_disk (view dev s2)),
       v_refs := (\<lambda>b. if b \<in> set (take n ?bl) then v_refs (view dev s2) b - 1 else v_refs (view dev s2) b),
       v_writes := v_writes (view dev s2) @ ?W3\<rparr>" by (auto simp: f1 f2 dev cong: if_cong)
  have "(\<lambda>b. if b \<in> set (take n ?bl) then v_refs (view dev s2) b - 1 else v_refs (view dev s2) b) = (\<lambda>b. 0)"
    by (simp add: v1 v2 refs fun_eq_iff)
  then have "view dev s3 = ?v\<lparr>v_blk := apply_writes (?W1 @ [(?st, h)] @ ?W3) ?c,
      v_disk := apply_writes (?W1 @ [(?st, h)] @ ?W3) (disk s), v_refs := (\<lambda>b. 0),
      v_writes := dwrites s @ ?W1 @ [(?st, h)] @ ?W3\<rparr>"
    using v3 by (simp add: v1 v2)
  moreover have "bframe s s3"
    by (rule bcache.frame_trans [OF bcache.frame_trans [OF s1(3) s2(4)] s3(3)])
  ultimately show thesis
    using s1 s2 s3 n(1) by (intro that [of s1 s2 s3 h]) (simp_all add: install_trans_def f1 f2)
qed

lemma header_n0: "header h 0 bl \<longleftrightarrow> length h = BSIZE \<and> hdr_n h = 0"
  by (simp add: header_def)

text \<open>All of a commit: the order of its disk writes, and the state it leaves.\<close>

lemma commit_ok:
  assumes inv: "log_inv dev s" and n: "lh_n s = int n" "0 < n" "n < NBUF"
  obtains h h0 s' where "commit s = Inr s'" and "header h n (lh_block s)" and "header h0 0 []"
    and "log_inv dev s'" and "lh_n s' = 0"
    and "dwrites s' = dwrites s @
      commit_writes (log_start s) (lh_block s) (v_blk (view dev s)) n h h0"
    and "disk s' = apply_writes
      (commit_writes (log_start s) (lh_block s) (v_blk (view dev s)) n h h0) (disk s)"
    and "\<forall>b. b \<notin> log_region (log_start s) \<longrightarrow> v_blk (view dev s') b = v_blk (view dev s) b"
    and "bframe (s\<lparr>lh_n := 0\<rparr>) s'"
proof -
  let ?st = "log_start s" and ?bl = "lh_block s" and ?v = "view dev s"
  let ?c = "v_blk ?v"
  let ?W1 = "to_log ?st ?bl ?c 0 n" and ?W3 = "home_writes ?bl ?c n"
  obtain h s1 s2 s3 where s: "write_log s = Inr s1" "write_head s1 = Inr s2"
    "install_trans False s2 = Inr s3" "header h n ?bl" "binv dev s3" "bframe s s3"
    and v3: "view dev s3 = ?v\<lparr>v_blk := apply_writes (?W1 @ [(?st, h)] @ ?W3) ?c,
      v_disk := apply_writes (?W1 @ [(?st, h)] @ ?W3) (disk s), v_refs := (\<lambda>b. 0),
      v_writes := dwrites s @ ?W1 @ [(?st, h)] @ ?W3\<rparr>"
    by (rule commit_steps [OF inv n(1,3)])
  note f = bframe_log [OF s(6)]
  define t where "t = s3\<lparr>lh_n := 0\<rparr>"
  have dev: "log_dev s = dev" and lb: "length ?bl = LOGSIZE" and N: "n < LOGSIZE"
    using inv n by (auto simp: log_inv_def NBUF_def LOGSIZE_def)
  have t: "log_dev t = dev" "log_start t = ?st" "lh_block t = ?bl" "lh_n t = int 0"
    "view dev t = view dev s3" "binv dev t"
    using log_upd_view [of t s3] s(5) by (simp_all add: t_def f dev)
  have r: "room (view dev t) {?st}"
    using inv by (simp add: t v3 room_def log_inv_def NBUF_def MAXOPBLOCKS_def)
  obtain h0 s4 where s4: "write_head t = Inr s4" "header h0 0 ?bl" "binv dev s4" "bframe t s4"
    and v4: "view dev s4 = (view dev s3)\<lparr>v_blk := (v_blk (view dev s3))(?st := h0),
      v_disk := (v_disk (view dev s3))(?st := h0), v_writes := v_writes (view dev s3) @ [(?st, h0)]\<rparr>"
    by (rule write_head_ok [of t 0, unfolded t(1-3,5), OF t(6,4) LOGSIZE_pos r [unfolded t(5)]])
  note g = bframe_log [OF s4(4)]
  have h0: "header h0 0 []" using s4(2) by (simp add: header_n0)
  have W: "?W1 @ [(?st, h)] @ ?W3 @ [(?st, h0)] = commit_writes ?st ?bl ?c n h h0"
    by (simp add: commit_writes_def)
  have d4: "disk s4 = apply_writes (commit_writes ?st ?bl ?c n h h0) (disk s)"
    "dwrites s4 = dwrites s @ commit_writes ?st ?bl ?c n h h0"
    using view_disk [of dev s4] unfolding v4 v3 W [symmetric] by simp_all
  have c: "v_blk (view dev s4) b = ?c b" if "b \<notin> log_region ?st" for b
  proof -
    have "b \<noteq> ?st" using that by auto
    then show ?thesis
      using apply_home [of n ?bl b ?c] apply_home_other [of n ?bl b n ?c]
        apply_to_log_other [OF N disjI1 [OF that], of n ?bl ?c] that lb N
      by (cases "b \<in> set (take n ?bl)") (simp_all add: v4 v3 home_writes_def to_log_def)
  qed
  have "log_inv dev s4"
    using s4 h0 inv v4 v3 lb dev
    by (simp add: log_inv_def g t log_blocks_def header_def flip: view_disk)
  moreover have "bframe (s\<lparr>lh_n := 0\<rparr>) s4"
    using bcache.frame_trans [OF bframe_header(2) [OF s(6), of 0], of s4] s4(4) by (simp add: t_def)
  moreover have "commit s = Inr s4" using n s s4(1) by (simp add: commit_def t_def)
  moreover have "lh_n s4 = 0" using g t by simp
  ultimately show thesis using s(4) h0 d4 c by (intro that [of s4 h h0]) simp_all
qed

section \<open>Recovery\<close>

text \<open>A machine that has just rebooted with disk \<open>d\<close>: an empty cache, no references.\<close>

definition reboot :: "u32 \<Rightarrow> u32 \<Rightarrow> (u32 \<Rightarrow> byte list) \<Rightarrow> 'z log_state_scheme \<Rightarrow> bool" where
  "reboot dev st d r \<longleftrightarrow>
     log_dev r = dev \<and> log_start r = st \<and> length (lh_block r) = LOGSIZE \<and>
     binv dev r \<and> disk r = d \<and> v_refs (view dev r) = (\<lambda>b. 0)"

text \<open>A disk whose log header is sound: fewer than \<^verbatim>\<open>LOGSIZE\<close> entries, none of them in the log.\<close>

definition log_disk :: "u32 \<Rightarrow> (u32 \<Rightarrow> byte list) \<Rightarrow> nat \<Rightarrow> u32 list \<Rightarrow> bool" where
  "log_disk st d n bl \<longleftrightarrow> header (d st) n bl \<and> (\<forall>t < n. bl ! t \<notin> log_region st)"

lemma reboot_view:
  assumes "reboot dev st d r"
  shows "v_lock (view dev r) = (\<lambda>b. None)" "v_blk (view dev r) = d"
    "finite B \<Longrightarrow> card B \<le> 2 \<Longrightarrow> room (view dev r) B"
proof -
  have b: "binv dev r" "v_refs (view dev r) b = 0" "disk r = d" for b
    using assms by (simp_all add: reboot_def)
  note u = bcache.unreferenced [OF b(1,2)]
  show "v_lock (view dev r) = (\<lambda>b. None)" "v_blk (view dev r) = d" using u b(3) by (auto simp: fun_eq_iff)
  then show "finite B \<Longrightarrow> card B \<le> 2 \<Longrightarrow> room (view dev r) B"
    by (simp add: room_def b NBUF_def MAXOPBLOCKS_def)
qed

lemma recover_ok:
  assumes r: "reboot dev st d s" and l: "log_disk st d n bl"
  obtains h0 s' where "recover_from_log s = Inr s'" and "header h0 0 []" and "log_inv dev s'"
    and "lh_n s' = 0" and "log_start s' = st"
    and "dwrites s' = dwrites s @ from_log st bl d 0 n @ [(st, h0)]"
    and "disk s' = apply_writes (from_log st bl d 0 n @ [(st, h0)]) d"
proof -
  have s: "log_dev s = dev" "log_start s = st" "length (lh_block s) = LOGSIZE" "binv dev s" "disk s = d"
    "v_refs (view dev s) = (\<lambda>b. 0)" using r by (simp_all add: reboot_def)
  note v = reboot_view [OF r]
  have N: "n < LOGSIZE" and hd: "header (d st) n bl" using l by (simp_all add: log_disk_def header_def)
  obtain bl' s1 where s1: "read_head s = Inr s1" "length bl' = LOGSIZE" "\<forall>j < n. bl' ! j = bl ! j"
    "bframe (s\<lparr>lh_n := int n, lh_block := bl'\<rparr>) s1" "binv dev s1" "view dev s1 = view dev s"
    by (rule read_head_ok [of s n bl, unfolded s(1,2), OF s(4) hd [folded v(2)] s(3) v(3)]) auto
  note f1 = bframe_log [OF s1(4)]
  let ?W = "from_log st bl d 0 n"
  have s1f: "log_dev s1 = dev" "log_start s1 = st" "lh_block s1 = bl'" "lh_n s1 = int n"
    using f1 s by simp_all
  have dw: "disk s1 = d" "dwrites s1 = dwrites s"
    using view_disk [of dev s1] view_disk [of dev s] unfolding s1(6) s(5) by simp_all
  have W: "?W = from_log (log_start s1) (lh_block s1) (v_blk (view (log_dev s1) s1)) 0 n"
    using s1(3) by (simp add: from_log_def s1f s1(6) v(2))
  have "\<exists>s'. install_loop True 0 n s1 = Inr s' \<and> binv (log_dev s1) s' \<and> bframe s1 s' \<and>
     view (log_dev s1) s' = (view (log_dev s1) s1)\<lparr>
       v_blk := apply_writes ?W (v_blk (view (log_dev s1) s1)),
       v_disk := apply_writes ?W (v_disk (view (log_dev s1) s1)),
       v_refs := (\<lambda>b. if \<not> True \<and> b \<in> set (take n (drop 0 (lh_block s1)))
          then v_refs (view (log_dev s1) s1) b - 1 else v_refs (view (log_dev s1) s1) b),
       v_writes := v_writes (view (log_dev s1) s1) @ ?W\<rparr>"
    using s1 N l v(3) by (intro install_loop_ok [OF _ _ _ _ _ W])
      (auto simp: s1f log_disk_def card_insert_if)
  then obtain s2 where s2: "install_loop True 0 n s1 = Inr s2" "binv dev s2" "bframe s1 s2"
    and v2: "view dev s2 = (view dev s)\<lparr>v_blk := apply_writes ?W d, v_disk := apply_writes ?W d,
       v_writes := dwrites s @ ?W\<rparr>"
    by (auto simp: s1f s1(6) s(5) v(2))
  note f2 = bframe_log [OF s2(3)]
  define t where "t = s2\<lparr>lh_n := 0\<rparr>"
  have t: "log_dev t = dev" "log_start t = st" "lh_block t = bl'" "lh_n t = int 0"
    "view dev t = view dev s2" "binv dev t"
    using log_upd_view [of t s2] s2(2) by (simp_all add: t_def f2 s1f)
  have rm: "room (view dev t) {st}" using v(3) [of "{st}"] by (simp add: t v2)
  obtain h0 s3 where s3: "write_head t = Inr s3" "header h0 0 bl'" "binv dev s3" "bframe t s3"
    and v3: "view dev s3 = (view dev s2)\<lparr>v_blk := (v_blk (view dev s2))(st := h0),
      v_disk := (v_disk (view dev s2))(st := h0), v_writes := v_writes (view dev s2) @ [(st, h0)]\<rparr>"
    by (rule write_head_ok [of t 0, unfolded t(1-3,5), OF t(6,4) LOGSIZE_pos rm [unfolded t(5)]])
  note f3 = bframe_log [OF s3(4)]
  have d3: "disk s3 = apply_writes (?W @ [(st, h0)]) d" "dwrites s3 = dwrites s @ ?W @ [(st, h0)]"
    using view_disk [of dev s3] by (simp_all add: v3 v2)
  moreover have "log_inv dev s3"
    using s3(2,3) v(1) s(6) s1(2)
    by (simp add: log_inv_def f3 t log_blocks_def v3 v2 header_def d3(1))
  moreover have "recover_from_log s = Inr s3"
    using s1(1) s2(1) s3(1) by (simp add: recover_from_log_def install_trans_def s1f t_def)
  moreover have "header h0 0 []" using s3(2) by (simp add: header_n0)
  ultimately show thesis using f3 t by (intro that [of s3 h0]) simp_all
qed

section \<open>Crash atomicity\<close>

lemma length_writes [simp]:
  "length (to_log st bl c i n) = n" "length (home_writes bl c n) = n" "length (from_log st bl c i n) = n"
  by (simp_all add: to_log_def home_writes_def from_log_def)

text \<open>Recovery after a crash before the header write, after it, and after the final one.\<close>

lemma recover_old:
  assumes "hdr_n (d st) = 0" and "length (d st) = BSIZE" and "n < LOGSIZE"
    and "reboot dev st (apply_writes (take k (to_log st bl c 0 n)) d) r"
  shows "\<exists>r'. recover_from_log r = Inr r' \<and> log_inv dev r' \<and> lh_n r' = 0 \<and>
    (\<forall>b. b \<notin> log_region st \<longrightarrow> disk r' b = d b)"
proof -
  let ?d = "apply_writes (take k (to_log st bl c 0 n)) d"
  have "?d st = d st" using assms(3) by (simp add: apply_to_log_other)
  then have l: "log_disk st ?d 0 []" using assms(1,2) by (simp add: log_disk_def header_def)
  obtain h0 r' where "recover_from_log r = Inr r'" "log_inv dev r'" "lh_n r' = 0"
    "disk r' = apply_writes (from_log st [] ?d 0 0 @ [(st, h0)]) ?d"
    by (rule recover_ok [OF assms(4) l])
  moreover from this(4) have "disk r' b = d b" if "b \<notin> log_region st" for b
    using apply_to_log_other [OF assms(3) disjI1 [OF that], of k bl c d] that
    by (auto simp: from_log_def)
  ultimately show ?thesis by blast
qed

lemma recover_new:
  assumes bl: "n < LOGSIZE" "length bl = LOGSIZE" "\<forall>t < n. bl ! t \<notin> log_region st"
    and c: "\<forall>b. b \<notin> set (take n bl) \<longrightarrow> c b = d b" and h: "header h n bl"
    and r: "reboot dev st (apply_writes (take j (home_writes bl c n))
      ((apply_writes (to_log st bl c 0 n) d)(st := h))) r"
  shows "\<exists>r'. recover_from_log r = Inr r' \<and> log_inv dev r' \<and> lh_n r' = 0 \<and>
    (\<forall>b. b \<notin> log_region st \<longrightarrow> disk r' b = c b)"
proof -
  let ?e = "(apply_writes (to_log st bl c 0 n) d)(st := h)"
  let ?d = "apply_writes (take j (home_writes bl c n)) ?e"
  have s: "set (take n bl) \<inter> log_region st = {}" using bl by (auto simp: in_set_conv_nth)
  have o: "?d b = ?e b" if "b \<in> log_region st" for b
    using s that bl(1,2) by (intro apply_home_other) auto
  have "?d st = h" using o [of st] by simp
  then have l: "log_disk st ?d n bl" using h bl(3) by (simp add: log_disk_def)
  have "?d (log_blk st t) = c (bl ! t)" if "t < n" for t
    using o [of "log_blk st t"] that bl(1) by (simp add: log_blk_start apply_to_log)
  then have W: "from_log st bl ?d 0 n = home_writes bl c n" by (rule from_log_home)
  obtain h0 r' where "recover_from_log r = Inr r'" "log_inv dev r'" "lh_n r' = 0"
    "disk r' = apply_writes (home_writes bl c n @ [(st, h0)]) ?d"
    using recover_ok [OF r l] unfolding W by metis
  moreover from this(4) have "disk r' b = c b" if "b \<notin> log_region st" for b
  proof (cases "b \<in> set (take n bl)")
    case True
    moreover have "b \<noteq> st" using that by auto
    ultimately show ?thesis using \<open>disk r' = _\<close> bl(1,2) by (simp add: apply_home)
  next
    case False
    have "b \<noteq> st" using that by auto
    moreover have "?d b = d b"
      using apply_home_other [of n bl b j c ?e] apply_to_log_other [of n b st n bl c d] False bl(1,2) that
        \<open>b \<noteq> st\<close> by simp
    ultimately show ?thesis
      using \<open>disk r' = _\<close> False bl(1,2) c apply_home_other [of n bl b n c ?d] by simp
  qed
  ultimately show ?thesis by blast
qed

lemma apply_writes_determined:
  "b \<in> fst ` set ws \<Longrightarrow> apply_writes ws d b = apply_writes ws e b"
proof (induction ws arbitrary: d e)
  case (Cons w ws)
  obtain b' x where w: "w = (b', x)" by (cases w)
  show ?case
  proof (cases "b \<in> fst ` set ws")
    case True
    then show ?thesis using Cons.IH by (simp add: w)
  next
    case False
    then show ?thesis using Cons.prems by (simp add: w apply_writes_other)
  qed
qed simp

lemma take_commit_writes:
  assumes "k \<le> 2 * n + 2"
  shows "take k (commit_writes st bl c n h h0) =
    (if k \<le> n then take k (to_log st bl c 0 n)
     else if k \<le> 2 * n + 1 then to_log st bl c 0 n @ [(st, h)] @ take (k - n - 1) (home_writes bl c n)
     else commit_writes st bl c n h h0)"
proof -
  have "k - n = Suc (k - n - 1)" if "n < k" using that by simp
  then show ?thesis using assms by (auto simp: commit_writes_def take_Cons' not_le)
qed

text \<open>
  C1. Crash atomicity of a commit. A commit of a transaction of n blocks returns after
  exactly 2n+2 block writes. If the machine stops after any k of them, recovery on the disk
  that is left succeeds and empties the log, and then every block outside the log has its
  content from before the transaction (k at most n), or every such block has the content the
  transaction gave it (k above n).
\<close>

theorem commit_crash_atomic:
  assumes "log_inv dev s" and "lh_n s = int n" and "0 < n" and "n < NBUF"
  shows "\<exists>s' ws. commit s = Inr s' \<and> dwrites s' = dwrites s @ ws \<and> length ws = 2 * n + 2 \<and>
    (\<forall>k r. k \<le> 2 * n + 2 \<longrightarrow>
      reboot dev (log_start s) (apply_writes (take k ws) (disk s)) (r :: 'y log_state_scheme) \<longrightarrow>
      (\<exists>r'. recover_from_log r = Inr r' \<and> log_inv dev r' \<and> lh_n r' = 0 \<and>
        (\<forall>b. b \<notin> log_region (log_start s) \<longrightarrow>
           disk r' b = (if k \<le> n then disk s b else v_blk (view dev s) b))))"
proof -
  let ?st = "log_start s" and ?bl = "lh_block s" and ?c = "v_blk (view dev s)"
  obtain h h0 s' where s': "commit s = Inr s'" "header h n ?bl" "header h0 0 []"
    "dwrites s' = dwrites s @ commit_writes ?st ?bl ?c n h h0"
    by (rule commit_ok [OF assms])
  have bl: "n < LOGSIZE" "length ?bl = LOGSIZE" "\<forall>t < n. ?bl ! t \<notin> log_region ?st"
    using assms(1,2,4) log_inv_length(3) [OF assms(1)] by (auto simp: log_inv_def NBUF_def LOGSIZE_def)
  have b: "binv dev s" "hdr_n (disk s ?st) = 0" using assms(1) by (simp_all add: log_inv_def)
  have l0: "length (disk s ?st) = BSIZE" using b by (simp add: binv_def)
  have c: "\<forall>b. b \<notin> set (take n ?bl) \<longrightarrow> ?c b = disk s b"
    using bcache.unreferenced [OF b(1)] assms(1,2) by (simp add: log_inv_def log_blocks_def)
  have "\<exists>r'. recover_from_log r = Inr r' \<and> log_inv dev r' \<and> lh_n r' = 0 \<and>
        (\<forall>b. b \<notin> log_region ?st \<longrightarrow> disk r' b = (if k \<le> n then disk s b else ?c b))"
    if k: "k \<le> 2 * n + 2"
      and r: "reboot dev ?st (apply_writes (take k (commit_writes ?st ?bl ?c n h h0)) (disk s)) r"
    for k and r :: "'y log_state_scheme"
  proof -
    consider "k \<le> n" | "n < k" "k \<le> 2 * n + 1" | "k = 2 * n + 2" using k by linarith
    then show ?thesis
    proof cases
      case 1
      then show ?thesis
        using r take_commit_writes [OF k] recover_old [where d = "disk s", OF b(2) l0 bl(1), of dev k ?bl ?c r] by simp
    next
      case 2
      then show ?thesis
        using r take_commit_writes [OF k] recover_new [OF bl c s'(2), of dev "k - n - 1" r] by simp
    next
      case 3
      let ?d = "apply_writes (commit_writes ?st ?bl ?c n h h0) (disk s)"
      have "?d ?st = h0" by (simp add: commit_writes_def)
      then have h: "hdr_n (?d ?st) = 0" "length (?d ?st) = BSIZE" using s'(3) by (simp_all add: header_def)
      have "?d b = ?c b" if "b \<notin> log_region ?st" for b
      proof -
        have "b \<noteq> ?st" using that by auto
        then show ?thesis
          using apply_home [of n ?bl b ?c] apply_home_other [of n ?bl b n ?c]
            apply_to_log_other [OF bl(1) disjI1 [OF that], of n ?bl ?c] that bl(1,2) c
          by (cases "b \<in> set (take n ?bl)") (simp_all add: commit_writes_def)
      qed
      then show ?thesis
        using r 3 recover_old [where d = ?d, OF h bl(1), of dev 0 ?bl ?c r]
        by (simp add: commit_writes_def)
    qed
  qed
  moreover have "length (commit_writes ?st ?bl ?c n h h0) = 2 * n + 2" by (simp add: commit_writes_def)
  ultimately show ?thesis using s'(1,4) by blast
qed

text \<open>
  C7. Recovery can itself be interrupted. If the machine stops after any k of the block
  writes of a recovery and recovers again, every block outside the log ends up as after an
  uninterrupted recovery.
\<close>

theorem recovery_idempotent:
  assumes "reboot dev st d r" and "log_disk st d n bl" and "recover_from_log r = Inr r1"
    and "dwrites r1 = dwrites r @ ws" and "k \<le> length ws"
    and "reboot dev st (apply_writes (take k ws) d) r2"
  shows "\<exists>r3. recover_from_log r2 = Inr r3 \<and> log_inv dev r3 \<and>
    (\<forall>b. b \<notin> log_region st \<longrightarrow> disk r3 b = disk r1 b)"
proof -
  let ?W = "from_log st bl d 0 n"
  obtain h0 where h0: "header h0 0 []" "dwrites r1 = dwrites r @ ?W @ [(st, h0)]"
    "disk r1 = apply_writes (?W @ [(st, h0)]) d"
    using recover_ok [OF assms(1,2)] assms(3) by (metis Inr_inject)
  then have ws: "ws = ?W @ [(st, h0)]" using assms(4) by simp
  have bl: "n < LOGSIZE" "\<forall>t < n. bl ! t \<notin> log_region st" using assms(2) by (auto simp: log_disk_def header_def)
  then have fst_W: "fst ` set ?W \<inter> log_region st = {}" by (auto simp: from_log_def)
  show ?thesis
  proof (cases "k \<le> n")
    case True
    let ?d = "apply_writes (take k ?W) d"
    have o: "?d b = d b" if "b \<in> log_region st" for b
      using fst_W that by (intro apply_writes_other) (auto dest: in_set_takeD)
    then have l: "log_disk st ?d n bl" using assms(2) by (simp add: log_disk_def)
    have W: "from_log st bl ?d 0 n = ?W" using o bl(1) by (simp add: from_log_def)
    have r2: "reboot dev st ?d r2" using assms(6) True by (simp add: ws)
    obtain h1 r3 where r3: "recover_from_log r2 = Inr r3" "log_inv dev r3"
      "disk r3 = apply_writes (?W @ [(st, h1)]) ?d"
      by (rule recover_ok [OF r2 l, unfolded W])
    have "disk r3 b = disk r1 b" if "b \<notin> log_region st" for b
    proof (cases "b \<in> fst ` set ?W")
      case True
      then show ?thesis using apply_writes_determined [OF True, of ?d d] that by (auto simp: r3 h0)
    next
      case False
      moreover from this have "?d b = d b" by (intro apply_writes_other) (auto dest: in_set_takeD)
      ultimately show ?thesis using that by (auto simp: r3 h0 apply_writes_other)
    qed
    with r3 show ?thesis by blast
  next
    case False
    then have k: "take k ws = ws" using assms(5) ws by simp
    have "apply_writes (take k ws) d = disk r1" unfolding k by (simp only: ws h0)
    then have r2: "reboot dev st (disk r1) r2" using assms(6) by simp
    have "hdr_n (disk r1 st) = 0" "length (disk r1 st) = BSIZE" using h0 by (simp_all add: header_def)
    then show ?thesis
      using recover_old [of "disk r1" st 0 dev 0 bl "\<lambda>_. []" r2] r2 by auto
  qed
qed

end
