(* ===== verification/Xv6_Txn.thy ===== *)
theory Xv6_Txn
  imports Xv6_Log
begin

text \<open>
  Transactions as the file system uses them: \<^verbatim>\<open>begin_op\<close>, any number of
  \<^verbatim>\<open>bread\<close>/\<^verbatim>\<open>log_write\<close>/\<^verbatim>\<open>brelse\<close> brackets, \<^verbatim>\<open>end_op\<close>. The invariant \<open>tx_inv dev H\<close> extends
  the log's invariant to the time a system call holds the buffers of the blocks \<open>H\<close>, and
  each operation of the bracket is shown to keep it. The space that \<^verbatim>\<open>begin_op\<close> reserves is
  compared with the space \<^verbatim>\<open>log_write\<close> checks for.
\<close>

section \<open>The invariant while buffers are held\<close>

definition tx_inv :: "u32 \<Rightarrow> u32 set \<Rightarrow> 'z log_state_scheme \<Rightarrow> bool" where
  "tx_inv dev H s \<longleftrightarrow>
     log_dev s = dev \<and> binv dev s \<and> length (lh_block s) = LOGSIZE \<and>
     0 \<le> lh_n s \<and> lh_n s < int LOGSIZE \<and> distinct (log_blocks s) \<and>
     set (log_blocks s) \<inter> log_region (log_start s) = {} \<and>
     v_lock (view dev s) = (\<lambda>b. if b \<in> H then Some (curpid s) else None) \<and>
     v_refs (view dev s) =
       (\<lambda>b. (if b \<in> set (log_blocks s) then 1 else 0) + (if b \<in> H then 1 else 0)) \<and>
     hdr_n (v_disk (view dev s) (log_start s)) = 0"

text \<open>What the operations of a transaction may change.\<close>

definition tframe :: "'z log_state_scheme \<Rightarrow> 'z log_state_scheme \<Rightarrow> bool" where
  "tframe s s' \<longleftrightarrow>
     (\<exists>x y z n bl. s' = s\<lparr>bufs := x, disk := y, dwrites := z, lh_n := n, lh_block := bl\<rparr>)"

text \<open>There is a buffer for block \<open>b\<close> besides the pinned and the held ones.\<close>

definition tx_room :: "u32 set \<Rightarrow> u32 \<Rightarrow> 'z log_state_scheme \<Rightarrow> bool" where
  "tx_room H b s \<longleftrightarrow> card (insert b (set (log_blocks s) \<union> H)) \<le> NBUF"

text \<open>\<^verbatim>\<open>log_write\<close> finds space in the log.\<close>

definition log_space :: "'z log_state_scheme \<Rightarrow> bool" where
  "log_space s \<longleftrightarrow> lh_n s + 1 < int LOGSIZE \<and> lh_n s < log_size s - 1 \<and> 1 \<le> outstanding s"

lemma tx_inv_empty: "tx_inv dev {} s \<longleftrightarrow> log_inv dev s"
  by (simp add: tx_inv_def log_inv_def)

lemma tframe_refl [simp]: "tframe s s"
  unfolding tframe_def
  by (intro exI [of _ "bufs s"] exI [of _ "disk s"] exI [of _ "dwrites s"] exI [of _ "lh_n s"]
      exI [of _ "lh_block s"]) simp

lemma bframe_tframe: "bframe s s' \<Longrightarrow> tframe s s'"
proof -
  assume "bframe s s'"
  then obtain x y z where "s' = s\<lparr>bufs := x, disk := y, dwrites := z\<rparr>" by (auto simp: bframe_def)
  then show ?thesis
    unfolding tframe_def by (intro exI [of _ x] exI [of _ y] exI [of _ z] exI [of _ "lh_n s"]
        exI [of _ "lh_block s"]) simp
qed

lemma tframe_trans: "tframe s s' \<Longrightarrow> tframe s' s'' \<Longrightarrow> tframe s s''"
  unfolding tframe_def by (elim exE) (simp, blast)

lemma tframe_fields:
  assumes "tframe s s'"
  shows "log_start s' = log_start s" "log_size s' = log_size s" "outstanding s' = outstanding s"
    "committing s' = committing s" "log_dev s' = log_dev s" "curpid s' = curpid s"
    "pmem s' = pmem s" "freelist s' = freelist s" "log_state.more s' = log_state.more s"
  using assms by (auto simp: tframe_def)

lemma bframe_log_blocks: "bframe s s' \<Longrightarrow> log_blocks s' = log_blocks s"
  by (auto simp: bframe_def log_blocks_def)

section \<open>Operations of the bracket\<close>

lemma tx_refs: "tx_inv dev H s \<Longrightarrow> {b. 0 < v_refs (view dev s) b} = set (log_blocks s) \<union> H"
  by (auto simp: tx_inv_def)

lemma tx_bread:
  assumes "tx_inv dev H s" and "b \<notin> H" and "tx_room H b s"
  obtains i s' where "bread dev b s = Inr (i, s')" and "tx_inv dev (insert b H) s'" and "bframe s s'"
    and "slot dev s' b = Some i" and "\<forall>b' \<in> H. slot dev s' b' = slot dev s b'"
    and "v_blk (view dev s') = v_blk (view dev s)" and "disk s' = disk s" and "dwrites s' = dwrites s"
    and "get_data i s' = v_blk (view dev s) b" and "log_blocks s' = log_blocks s"
proof -
  have inv: "binv dev s" using assms(1) by (simp add: tx_inv_def)
  have "room (view dev s) {b}"
    using assms tx_refs [OF assms(1)] by (simp add: room_def tx_room_def tx_inv_def)
  with inv obtain i s' where s': "bread dev b s = Inr (i, s')" "binv dev s'" "bframe s s'"
    "slot dev s' b = Some i" "\<forall>b'. 0 < v_refs (view dev s) b' \<longrightarrow> slot dev s' b' = slot dev s b'"
    and v: "view dev s' = (view dev s)\<lparr>v_refs := (v_refs (view dev s))(b := v_refs (view dev s) b + 1),
      v_lock := (v_lock (view dev s))(b := Some (curpid s))\<rparr>"
    by (rule bcache.rd1)
  note f = bframe_log [OF s'(3)] bframe_log_blocks [OF s'(3)]
  have d: "disk s' = disk s" "dwrites s' = dwrites s"
    using view_disk [of dev s'] by (simp_all add: v)
  have "tx_inv dev (insert b H) s'"
    using assms(1,2) s'(2) by (auto simp: tx_inv_def f v d fun_eq_iff)
  moreover have "\<forall>b' \<in> H. slot dev s' b' = slot dev s b'" using s'(5) tx_refs [OF assms(1)] by auto
  moreover have "get_data i s' = v_blk (view dev s) b" using bcache.get [OF s'(2,4)] by (simp add: v)
  ultimately show thesis using s' d f by (intro that [of i s']) (simp_all add: v)
qed

lemma tx_held:
  assumes "tx_inv dev H s" and "b \<in> H"
  shows "binv dev s" "0 < v_refs (view dev s) b" "v_lock (view dev s) b = Some (curpid s)"
    "v_refs (view dev s) b < 2 ^ 32 - 1"
  using assms by (auto simp: tx_inv_def)

lemma tx_get: "tx_inv dev H s \<Longrightarrow> b \<in> H \<Longrightarrow> slot dev s b = Some i \<Longrightarrow> get_data i s = v_blk (view dev s) b"
  using tx_held [of dev H s b] bcache.get by blast

lemma tx_put:
  assumes "tx_inv dev H s" and "b \<in> H" and "slot dev s b = Some i" and "length d = BSIZE"
  shows "tx_inv dev H (set_data i d s) \<and> bframe s (set_data i d s) \<and>
    slot dev (set_data i d s) = slot dev s \<and>
    v_blk (view dev (set_data i d s)) = (v_blk (view dev s))(b := d) \<and>
    disk (set_data i d s) = disk s \<and> dwrites (set_data i d s) = dwrites s \<and>
    log_blocks (set_data i d s) = log_blocks s"
proof -
  let ?t = "set_data i d s"
  note h = tx_held [OF assms(1,2)]
  have p: "binv dev ?t" "bframe s ?t" "slot dev ?t = slot dev s"
    "view dev ?t = (view dev s)\<lparr>v_blk := (v_blk (view dev s))(b := d)\<rparr>"
    using bcache.put [OF h(1) assms(3) h(2) assms(4)] by simp_all
  note f = bframe_log [OF p(2)] bframe_log_blocks [OF p(2)]
  have dk: "disk ?t = disk s" "dwrites ?t = dwrites s" by (simp_all add: set_data_def)
  have "tx_inv dev H ?t" using assms(1) p(1) by (simp add: tx_inv_def f p(4) dk cong: if_cong)
  then show ?thesis using p f dk by simp
qed

lemma tx_brelse:
  assumes "tx_inv dev H s" and "b \<in> H" and "slot dev s b = Some i"
    and "b \<in> set (log_blocks s) \<or> v_blk (view dev s) b = disk s b"
  obtains s' where "brelse i s = Inr s'" and "tx_inv dev (H - {b}) s'" and "bframe s s'"
    and "slot dev s' = slot dev s" and "v_blk (view dev s') = v_blk (view dev s)"
    and "disk s' = disk s" and "dwrites s' = dwrites s" and "log_blocks s' = log_blocks s"
proof -
  note h = tx_held [OF assms(1,2)]
  have "1 < v_refs (view dev s) b \<or> v_blk (view dev s) b = v_disk (view dev s) b"
    using assms(1,2,4) by (auto simp: tx_inv_def)
  then obtain s' where s': "brelse i s = Inr s'" "binv dev s'" "bframe s s'" "slot dev s' = slot dev s"
    and v: "view dev s' = (view dev s)\<lparr>v_refs := (v_refs (view dev s))(b := v_refs (view dev s) b - 1),
      v_lock := (v_lock (view dev s))(b := None)\<rparr>"
    using bcache.rel [OF h(1) assms(3) h(3)] by blast
  note f = bframe_log [OF s'(3)] bframe_log_blocks [OF s'(3)]
  have d: "disk s' = disk s" "dwrites s' = dwrites s"
    using view_disk [of dev s'] by (simp_all add: v)
  have "tx_inv dev (H - {b}) s'"
    using assms(1,2) s'(2) by (auto simp: tx_inv_def f v d fun_eq_iff)
  then show thesis using s' d f by (intro that [of s']) (simp_all add: v)
qed

lemma absorb_spec:
  "i + k \<le> length bl \<Longrightarrow>
   (if b \<in> set (take k (drop i bl)) then i \<le> absorb bl b i k \<and> absorb bl b i k < i + k \<and> bl ! absorb bl b i k = b
    else absorb bl b i k = i + k)"
proof (induction k arbitrary: i)
  case (Suc k)
  have "take (Suc k) (drop i bl) = bl ! i # take k (drop (Suc i) bl)"
    using Suc.prems by (simp add: Cons_nth_drop_Suc [symmetric])
  then show ?case using Suc.IH [of "Suc i"] Suc.prems by (auto split: if_splits)
qed simp

lemma disk_bpin: "disk (bpin i s) = disk s"
  by (simp add: bpin_def)

lemma tx_log_write:
  assumes inv: "tx_inv dev H s" and b: "b \<in> H" "slot dev s b = Some i" "b \<notin> log_region (log_start s)"
    and sp: "log_space s"
  obtains s' where "log_write i s = Inr s'" and "tx_inv dev H s'" and "tframe s s'"
    and "slot dev s' = slot dev s" and "v_blk (view dev s') = v_blk (view dev s)"
    and "disk s' = disk s" and "dwrites s' = dwrites s"
    and "log_blocks s' = (if b \<in> set (log_blocks s) then log_blocks s else log_blocks s @ [b])"
proof -
  note h = tx_held [OF inv b(1)]
  let ?n = "nat (lh_n s)" and ?a = "absorb (lh_block s) b 0 (nat (lh_n s))"
  have n: "lh_n s = int ?n" "?n < LOGSIZE" "length (lh_block s) = LOGSIZE"
    using inv sp by (auto simp: tx_inv_def log_space_def)
  have bno: "blockno (bufs s i) = b" by (rule slotD(3) [OF h(1) b(2)])
  have a: "if b \<in> set (log_blocks s) then ?a < ?n \<and> lh_block s ! ?a = b else ?a = ?n"
    using absorb_spec [of 0 ?n "lh_block s" b] n by (auto simp: log_blocks_def)
  show thesis
  proof (cases "b \<in> set (log_blocks s)")
    case True
    then have "int ?a \<noteq> lh_n s" "(lh_block s)[?a := b] = lh_block s"
      using a n(2,3) by (auto simp: list_update_same_conv)
    then have w: "log_write i s = Inr s"
      using sp bno by (simp add: log_write_def log_space_def Let_def)
    show thesis by (rule that [OF w inv]) (simp_all add: True)
  next
    case False
    let ?t = "s\<lparr>lh_block := (lh_block s)[?n := b]\<rparr>"
    let ?s = "(bpin i ?t)\<lparr>lh_n := lh_n s + 1\<rparr>"
    have w: "log_write i s = Inr ?s"
      using False a sp n(1) bno by (simp add: log_write_def log_space_def Let_def)
    have p: "binv dev (bpin i s)" "slot dev (bpin i s) = slot dev s"
      "view dev (bpin i s) = (view dev s)\<lparr>v_refs := (v_refs (view dev s))(b := v_refs (view dev s) b + 1)\<rparr>"
      using bcache.pin [OF h(1) b(2) h(2,4)] by simp_all
    have u: "view dev ?s = view dev (bpin i s)" "binv dev ?s" "slot dev ?s = slot dev s"
      using log_upd_view [of ?s "bpin i s"] p by (simp_all add: bpin_def upd_buf_def)
    have "nat (lh_n s + 1) = Suc ?n" using n(1) by linarith
    then have L: "log_blocks ?s = log_blocks s @ [b]"
      using n(2,3) by (simp add: log_blocks_def bpin_def upd_buf_def take_Suc_conv_app_nth)
    have f: "disk ?s = disk s" "dwrites ?s = dwrites s" "log_dev ?s = log_dev s"
      "log_start ?s = log_start s" "lh_n ?s = lh_n s + 1" "length (lh_block ?s) = length (lh_block s)"
      "curpid ?s = curpid s" by (simp_all add: bpin_def upd_buf_def)
    have "lh_n s + 1 < int LOGSIZE" using sp by (simp add: log_space_def)
    then have "tx_inv dev H ?s"
      using inv u(2) b n False unfolding tx_inv_def L u(1) f view_disk
      by (auto simp: p(3) fun_eq_iff disk_bpin)
    moreover have "tframe s ?s"
      unfolding tframe_def
      by (intro exI [of _ "bufs (bpin i s)"] exI [of _ "disk s"] exI [of _ "dwrites s"]
          exI [of _ "lh_n s + 1"] exI [of _ "(lh_block s)[?n := b]"]) (simp add: bpin_def upd_buf_def)
    ultimately show thesis using w u p f L False by (intro that [of ?s]) simp_all
  qed
qed

section \<open>Brackets\<close>

text \<open>Reading a block, and rewriting one, from bread to brelse.\<close>

lemma tx_read:
  assumes "tx_inv dev H s" and "b \<notin> H" and "tx_room H b s"
  obtains i s1 s2 where "bread dev b s = Inr (i, s1)" and "get_data i s1 = v_blk (view dev s) b"
    and "brelse i s1 = Inr s2" and "tx_inv dev H s2" and "bframe s s1" and "bframe s s2"
    and "\<forall>b' \<in> H. slot dev s2 b' = slot dev s b'" and "v_blk (view dev s2) = v_blk (view dev s)"
    and "disk s2 = disk s" and "dwrites s2 = dwrites s" and "log_blocks s2 = log_blocks s"
proof -
  obtain i s1 where 1: "bread dev b s = Inr (i, s1)" "tx_inv dev (insert b H) s1" "bframe s s1"
    "slot dev s1 b = Some i" "\<forall>b' \<in> H. slot dev s1 b' = slot dev s b'"
    "v_blk (view dev s1) = v_blk (view dev s)" "disk s1 = disk s" "dwrites s1 = dwrites s"
    "get_data i s1 = v_blk (view dev s) b" "log_blocks s1 = log_blocks s"
    by (rule tx_bread [OF assms])
  have "b \<in> set (log_blocks s1) \<or> v_blk (view dev s1) b = disk s1 b"
    using bcache.unreferenced [of dev s b] assms(1,2) by (auto simp: tx_inv_def 1)
  then obtain s2 where 2: "brelse i s1 = Inr s2" "tx_inv dev (insert b H - {b}) s2" "bframe s1 s2"
    "slot dev s2 = slot dev s1" "v_blk (view dev s2) = v_blk (view dev s1)" "disk s2 = disk s1"
    "dwrites s2 = dwrites s1" "log_blocks s2 = log_blocks s1"
    using tx_brelse [OF 1(2) _ 1(4)] by blast
  have "insert b H - {b} = H" using assms(2) by auto
  then show thesis
    using 1 2 bcache.frame_trans [OF 1(3) 2(3)] by (intro that [of i s1 s2]) simp_all
qed

text \<open>\<open>logged b s\<close>: the transaction's blocks once \<open>b\<close> is among them.\<close>

definition logged :: "u32 \<Rightarrow> u32 list \<Rightarrow> u32 list" where
  "logged b L = (if b \<in> set L then L else L @ [b])"

lemma tx_write:
  assumes "tx_inv dev H s" and "b \<in> H" and "slot dev s b = Some i"
    and "b \<notin> log_region (log_start s)" and "log_space s" and "length d = BSIZE"
  obtains s2 s3 where "log_write i (set_data i d s) = Inr s2" and "brelse i s2 = Inr s3"
    and "tx_inv dev (H - {b}) s3" and "tframe s s3" and "slot dev s3 = slot dev s"
    and "v_blk (view dev s3) = (v_blk (view dev s))(b := d)" and "disk s3 = disk s"
    and "dwrites s3 = dwrites s" and "log_blocks s3 = logged b (log_blocks s)"
proof -
  let ?t = "set_data i d s"
  have t: "tx_inv dev H ?t" "bframe s ?t" "slot dev ?t = slot dev s"
    "v_blk (view dev ?t) = (v_blk (view dev s))(b := d)" "disk ?t = disk s" "dwrites ?t = dwrites s"
    "log_blocks ?t = log_blocks s"
    using tx_put [OF assms(1-3,6)] by simp_all
  note f = bframe_log [OF t(2)]
  have b: "slot dev ?t b = Some i" "b \<notin> log_region (log_start ?t)" "log_space ?t"
    using assms(3-5) by (simp_all add: t f log_space_def)
  obtain s2 where 2: "log_write i ?t = Inr s2" "tx_inv dev H s2" "tframe ?t s2" "slot dev s2 = slot dev ?t"
    "v_blk (view dev s2) = v_blk (view dev ?t)" "disk s2 = disk ?t" "dwrites s2 = dwrites ?t"
    "log_blocks s2 = (if b \<in> set (log_blocks ?t) then log_blocks ?t else log_blocks ?t @ [b])"
    by (rule tx_log_write [OF t(1) assms(2) b])
  have p: "slot dev s2 b = Some i" "b \<in> set (log_blocks s2)" using 2 b by simp_all
  obtain s3 where 3: "brelse i s2 = Inr s3" "tx_inv dev (H - {b}) s3" "bframe s2 s3"
    "slot dev s3 = slot dev s2" "v_blk (view dev s3) = v_blk (view dev s2)" "disk s3 = disk s2"
    "dwrites s3 = dwrites s2" "log_blocks s3 = log_blocks s2"
    by (rule tx_brelse [OF 2(2) assms(2) p(1) disjI1 [OF p(2)]])
  have "tframe s s3"
    using tframe_trans [OF tframe_trans [OF bframe_tframe [OF t(2)] 2(3)] bframe_tframe [OF 3(3)]] .
  then show thesis using t 2 3 by (intro that [of s2 s3]) (simp_all add: logged_def)
qed

lemma tx_update:
  assumes "tx_inv dev H s" and "b \<notin> H" and "tx_room H b s"
    and "b \<notin> log_region (log_start s)" and "log_space s"
    and "length (f (v_blk (view dev s) b)) = BSIZE"
  obtains i s1 s2 s3 where "bread dev b s = Inr (i, s1)" and "get_data i s1 = v_blk (view dev s) b"
    and "bframe s s1" and "log_write i (set_data i (f (get_data i s1)) s1) = Inr s2"
    and "brelse i s2 = Inr s3" and "tx_inv dev H s3" and "tframe s s3"
    and "\<forall>b' \<in> H. slot dev s3 b' = slot dev s b'"
    and "v_blk (view dev s3) = (v_blk (view dev s))(b := f (v_blk (view dev s) b))"
    and "disk s3 = disk s" and "dwrites s3 = dwrites s" and "log_blocks s3 = logged b (log_blocks s)"
proof -
  obtain i s1 where 1: "bread dev b s = Inr (i, s1)" "tx_inv dev (insert b H) s1" "bframe s s1"
    "slot dev s1 b = Some i" "\<forall>b' \<in> H. slot dev s1 b' = slot dev s b'"
    "v_blk (view dev s1) = v_blk (view dev s)" "disk s1 = disk s" "dwrites s1 = dwrites s"
    "get_data i s1 = v_blk (view dev s) b" "log_blocks s1 = log_blocks s"
    by (rule tx_bread [OF assms(1-3)])
  note g = bframe_log [OF 1(3)]
  have p: "b \<in> insert b H" "b \<notin> log_region (log_start s1)" "log_space s1"
    "length (f (v_blk (view dev s) b)) = BSIZE"
    using assms(4-6) by (simp_all add: g log_space_def)
  obtain s2 s3 where 2: "log_write i (set_data i (f (v_blk (view dev s) b)) s1) = Inr s2"
    "brelse i s2 = Inr s3" "tx_inv dev (insert b H - {b}) s3" "tframe s1 s3" "slot dev s3 = slot dev s1"
    "v_blk (view dev s3) = (v_blk (view dev s1))(b := f (v_blk (view dev s) b))" "disk s3 = disk s1"
    "dwrites s3 = dwrites s1" "log_blocks s3 = logged b (log_blocks s1)"
    by (rule tx_write [OF 1(2) p(1) 1(4) p(2-4)])
  have "insert b H - {b} = H" using assms(2) by auto
  then show thesis
    using 1 2 tframe_trans [OF bframe_tframe [OF 1(3)] 2(4)] by (intro that [of i s1 s2 s3]) simp_all
qed

section \<open>Logged updates\<close>

text \<open>
  The typical use that the comment above \<^verbatim>\<open>log_write\<close> describes: read a block, change its data,
  log it, release it.
\<close>

definition log_update ::
  "u32 \<Rightarrow> (byte list \<Rightarrow> byte list) \<Rightarrow> 'z log_state_scheme \<Rightarrow> 'z log_state_scheme kres" where
  "log_update b f s =
     kbind (bread (log_dev s) b s) (\<lambda>(bp, s1).
     kbind (log_write bp (set_data bp (f (get_data bp s1)) s1)) (brelse bp))"

primrec log_updates ::
  "(u32 \<times> byte list) list \<Rightarrow> 'z log_state_scheme \<Rightarrow> 'z log_state_scheme kres" where
  "log_updates [] s = Inr s"
| "log_updates (x # xs) s = kbind (log_update (fst x) (\<lambda>_. snd x) s) (log_updates xs)"

text \<open>A machine after boot with an empty log of \<open>sz\<close> blocks at \<open>st\<close> on disk \<open>d\<close>.\<close>

definition boot_log :: "u32 \<Rightarrow> int \<Rightarrow> (u32 \<Rightarrow> byte list) \<Rightarrow> log_state" where
  "boot_log st sz d = binit
     \<lparr>pmem = (\<lambda>_. 0), freelist = 0, curpid = 1, bufs = (\<lambda>_. zero_buf), disk = d, dwrites = [],
      log_start = st, log_size = sz, outstanding = 0, committing = False, log_dev = 1,
      lh_n = 0, lh_block = replicate LOGSIZE 0\<rparr>"

lemma bframe_bufs: "bframe s (s\<lparr>bufs := x\<rparr>)"
  unfolding bframe_def by (intro exI [of _ x] exI [of _ "disk s"] exI [of _ "dwrites s"]) simp

lemma bframe_binit: "bframe s (binit s)"
proof -
  have "bframe s (binit_upto n s)" for n
  proof (induction n)
    case 0
    then show ?case by (simp add: binit_upto_def)
  next
    case (Suc n)
    have "bframe (binit_upto n s) (binit_step (binit_upto n s) n)"
      by (simp add: binit_step_def list_push_def upd_buf_def Let_def bframe_bufs)
    then show ?case using bcache.frame_trans [OF Suc] by (simp add: binit_upto_Suc)
  qed
  then show ?thesis by (simp add: binit_eq)
qed

lemma boot_log_fields:
  "log_start (boot_log st sz d) = st" "log_size (boot_log st sz d) = sz"
  "outstanding (boot_log st sz d) = 0" "committing (boot_log st sz d) = False"
  "log_dev (boot_log st sz d) = 1" "lh_n (boot_log st sz d) = 0"
  "lh_block (boot_log st sz d) = replicate LOGSIZE 0" "curpid (boot_log st sz d) = 1"
  by (simp_all add: boot_log_def bframe_log [OF bframe_binit])

lemma boot_log_view:
  assumes "\<forall>b. length (d b) = BSIZE"
  shows "binv 1 (boot_log st sz d)" "view 1 (boot_log st sz d) =
    \<lparr>v_blk = d, v_disk = d, v_refs = (\<lambda>b. 0), v_lock = (\<lambda>b. None), v_writes = []\<rparr>"
  unfolding boot_log_def
  using binit_ok [of "\<lparr>pmem = (\<lambda>_. 0), freelist = 0, curpid = 1, bufs = (\<lambda>_. zero_buf), disk = d,
    dwrites = [], log_start = st, log_size = sz, outstanding = 0, committing = False, log_dev = 1,
    lh_n = 0, lh_block = replicate LOGSIZE 0\<rparr>" 1] assms by (simp_all add: zero_buf_def)

lemma boot_log_disk:
  assumes "\<forall>b. length (d b) = BSIZE"
  shows "disk (boot_log st sz d) = d" "dwrites (boot_log st sz d) = []"
  using view_disk [of 1 "boot_log st sz d"] boot_log_view [OF assms] by simp_all

lemma boot_log_reboot:
  assumes "\<forall>b. length (d b) = BSIZE"
  shows "reboot 1 st d (boot_log st sz d)"
  using boot_log_view [OF assms] boot_log_disk [OF assms] by (simp add: reboot_def boot_log_fields)

lemma boot_log_inv:
  assumes "\<forall>b. length (d b) = BSIZE" and "hdr_n (d st) = 0"
  shows "log_inv 1 (boot_log st sz d)"
  using boot_log_view [OF assms(1)] boot_log_disk [OF assms(1)] assms(2)
  by (simp add: log_inv_def boot_log_fields log_blocks_def)

lemma tx_length: "tx_inv dev H s \<Longrightarrow> length (log_blocks s) = nat (lh_n s)"
  by (auto simp: tx_inv_def log_blocks_def)

lemma tx_room_empty: "tx_inv dev {} s \<Longrightarrow> lh_n s < int NBUF \<Longrightarrow> tx_room {} b s"
  using card_length [of "log_blocks s"] tx_length [of dev "{}" s]
  by (auto simp: tx_room_def card_insert_if NBUF_def MAXOPBLOCKS_def tx_inv_def)

lemma log_update_ok:
  assumes "tx_inv dev {} s" and "b \<notin> log_region (log_start s)" and "log_space s"
    and "length (f (v_blk (view dev s) b)) = BSIZE"
  obtains s' where "log_update b f s = Inr s'" and "tx_inv dev {} s'" and "tframe s s'"
    and "v_blk (view dev s') = (v_blk (view dev s))(b := f (v_blk (view dev s) b))"
    and "disk s' = disk s" and "dwrites s' = dwrites s" and "log_blocks s' = logged b (log_blocks s)"
proof -
  have r: "tx_room {} b s"
    using assms(1,3) by (intro tx_room_empty) (auto simp: log_space_def NBUF_def LOGSIZE_def)
  have dev: "log_dev s = dev" using assms(1) by (simp add: tx_inv_def)
  obtain i s1 s2 s3 where "bread dev b s = Inr (i, s1)" "get_data i s1 = v_blk (view dev s) b"
    "log_write i (set_data i (f (get_data i s1)) s1) = Inr s2" "brelse i s2 = Inr s3"
    "tx_inv dev {} s3" "tframe s s3"
    "v_blk (view dev s3) = (v_blk (view dev s))(b := f (v_blk (view dev s) b))"
    "disk s3 = disk s" "dwrites s3 = dwrites s" "log_blocks s3 = logged b (log_blocks s)"
    by (rule tx_update [where f = f, OF assms(1) _ r assms(2,3,4)]) simp
  then show thesis by (intro that [of s3]) (simp_all add: log_update_def dev)
qed

lemma log_updates_ok:
  "tx_inv dev {} s \<Longrightarrow> fst ` set xs \<inter> log_region (log_start s) = {} \<Longrightarrow>
   \<forall>x \<in> set xs. length (snd x) = BSIZE \<Longrightarrow>
   1 \<le> outstanding s \<Longrightarrow> lh_n s + int (length xs) < int LOGSIZE \<Longrightarrow>
   lh_n s + int (length xs) \<le> log_size s - 1 \<Longrightarrow>
   distinct (log_blocks s @ map fst xs) \<Longrightarrow>
   \<exists>s'. log_updates xs s = Inr s' \<and> tx_inv dev {} s' \<and> tframe s s' \<and>
     v_blk (view dev s') = apply_writes xs (v_blk (view dev s)) \<and>
     disk s' = disk s \<and> log_blocks s' = log_blocks s @ map fst xs"
proof (induction xs arbitrary: s)
  case (Cons x xs)
  obtain b d where x: "x = (b, d)" by (cases x)
  have p: "b \<notin> log_region (log_start s)" "log_space s"
    "length ((\<lambda>_. d) (v_blk (view dev s) b)) = BSIZE"
    using Cons.prems by (auto simp: x log_space_def)
  obtain s1 where s1: "log_update b (\<lambda>_. d) s = Inr s1" "tx_inv dev {} s1" "tframe s s1"
    "v_blk (view dev s1) = (v_blk (view dev s))(b := d)"
    "disk s1 = disk s" "log_blocks s1 = logged b (log_blocks s)"
    by (rule log_update_ok [OF Cons.prems(1) p])
  note f = tframe_fields [OF s1(3)]
  have L: "log_blocks s1 = log_blocks s @ [b]" using s1(6) Cons.prems(7) by (auto simp: x logged_def)
  then have "lh_n s1 = lh_n s + 1"
    using tx_length [OF Cons.prems(1)] tx_length [OF s1(2)] Cons.prems(1) s1(2) by (auto simp: tx_inv_def)
  then obtain s2 where "log_updates xs s1 = Inr s2" "tx_inv dev {} s2" "tframe s1 s2"
    "v_blk (view dev s2) = apply_writes xs (v_blk (view dev s1))" "disk s2 = disk s1"
    "log_blocks s2 = log_blocks s1 @ map fst xs"
    using Cons.IH [OF s1(2)] Cons.prems by (auto simp: f L x)
  then show ?case using s1 L tframe_trans by (auto simp: x)
qed simp

section \<open>Properties\<close>

lemma zero_header: "hdr_n (replicate BSIZE 0) = 0"
proof -
  have "take 4 (replicate BSIZE (0 :: byte)) = [0, 0, 0, 0]"
    by (simp add: BSIZE_def numeral_eq_Suc)
  then show ?thesis by (simp add: hdr_n_def get32_def)
qed

definition zero_disk :: "u32 \<Rightarrow> byte list" where
  "zero_disk b = replicate BSIZE 0"

lemma zero_disk: "\<forall>b. length (zero_disk b) = BSIZE" "hdr_n (zero_disk b) = 0"
  by (simp_all add: zero_disk_def zero_header)

lemma block_100: "(100 :: u32) \<notin> log_region 2"
  by (auto simp: log_region_def log_blk_def LOGSIZE_def MAXOPBLOCKS_def word_unat_eq_iff
      unat_word_ariths unat_of_nat)

text \<open>A transaction of one block, ready to commit.\<close>

lemma one_block_txn:
  assumes "b \<notin> log_region 2" and "length d = BSIZE"
  obtains s where "kbind (begin_op (boot_log 2 30 zero_disk)) (log_updates [(b, d)]) = Inr s"
    and "log_inv 1 s" and "lh_n s = 1" and "disk s = zero_disk" and "log_start s = 2"
    and "v_blk (view 1 s) = zero_disk(b := d)" and "outstanding s = 1" and "\<not> committing s"
proof -
  let ?s = "boot_log 2 30 zero_disk"
  let ?t = "?s\<lparr>outstanding := 1\<rparr>"
  have b: "begin_op ?s = Inr ?t"
    by (simp add: begin_op_def boot_log_fields LOGSIZE_def MAXOPBLOCKS_def)
  note u = log_upd_view [of ?t ?s, simplified]
  have "log_inv 1 ?s" using zero_disk by (intro boot_log_inv)
  then have i: "tx_inv 1 {} ?t" by (simp add: tx_inv_empty log_inv_def u log_blocks_def)
  have L: "log_blocks ?t = []" by (simp add: log_blocks_def boot_log_fields)
  obtain s where s: "log_updates [(b, d)] ?t = Inr s" "tx_inv 1 {} s" "tframe ?t s"
    "v_blk (view 1 s) = apply_writes [(b, d)] (v_blk (view 1 ?t))" "disk s = disk ?t" "log_blocks s = [b]"
    using log_updates_ok [OF i, of "[(b, d)]"] assms L
    by (auto simp: boot_log_fields LOGSIZE_def MAXOPBLOCKS_def)
  note f = tframe_fields [OF s(3)]
  have "lh_n s = 1" using tx_length [OF s(2)] s(2,6) by (auto simp: tx_inv_def)
  then show thesis
    using s b u boot_log_view [OF zero_disk(1)] boot_log_disk [OF zero_disk(1)]
    by (intro that [of s]) (simp_all add: tx_inv_empty f boot_log_fields)
qed

theorem commit_crash_atomic_witness:
  "\<exists>(s :: log_state) s' ws (r :: log_state) r'. log_inv 1 s \<and> lh_n s = int 1 \<and> commit s = Inr s' \<and>
     dwrites s' = dwrites s @ ws \<and> length ws = 4 \<and>
     reboot 1 (log_start s) (apply_writes (take 2 ws) (disk s)) r \<and> recover_from_log r = Inr r' \<and>
     disk s 100 = replicate BSIZE 0 \<and> disk r' 100 = replicate BSIZE 7"
proof -
  note nb = block_100
  obtain s :: log_state where s: "log_inv 1 s" "lh_n s = 1" "disk s = zero_disk" "log_start s = 2"
    "v_blk (view 1 s) = zero_disk(100 := replicate BSIZE 7)"
    by (rule one_block_txn [OF nb length_replicate])
  have n: "lh_n s = int 1" "(0 :: nat) < 1" "1 < NBUF" using s(2) by (simp_all add: NBUF_def MAXOPBLOCKS_def)
  obtain s' ws where c: "commit s = Inr s'" "dwrites s' = dwrites s @ ws" "length ws = 4"
    and k: "\<forall>k r. k \<le> 2 * 1 + 2 \<longrightarrow>
      reboot 1 (log_start s) (apply_writes (take k ws) (disk s)) (r :: log_state) \<longrightarrow>
      (\<exists>r'. recover_from_log r = Inr r' \<and> log_inv 1 r' \<and> lh_n r' = 0 \<and>
        (\<forall>b. b \<notin> log_region (log_start s) \<longrightarrow>
           disk r' b = (if k \<le> 1 then disk s b else v_blk (view 1 s) b)))"
    using commit_crash_atomic [OF s(1) n, where 'y = unit] by auto
  obtain h h0 where h: "header h 1 (lh_block s)" "header h0 0 []"
    "ws = commit_writes (log_start s) (lh_block s) (v_blk (view 1 s)) 1 h h0"
    using commit_ok [OF s(1) n] c(1,2) by (metis Inr_inject same_append_eq)
  have "length (v_blk (view 1 s) b) = BSIZE" for b by (simp add: s(5) zero_disk_def)
  then have "\<forall>w \<in> set ws. length (snd w) = BSIZE"
    using h by (auto simp: commit_writes_def to_log_def home_writes_def header_def)
  then have "\<forall>b. length (apply_writes (take 2 ws) (disk s) b) = BSIZE"
    using s(3) zero_disk(1) by (auto intro!: apply_writes_length dest: in_set_takeD)
  then have r: "reboot 1 (log_start s) (apply_writes (take 2 ws) (disk s))
      (boot_log (log_start s) 30 (apply_writes (take 2 ws) (disk s)))"
    by (rule boot_log_reboot)
  have "(2 :: nat) \<le> 2 * 1 + 2" by simp
  from k [rule_format, OF this r] obtain r' where "recover_from_log (boot_log (log_start s) 30
      (apply_writes (take 2 ws) (disk s))) = Inr r'"
    "\<forall>b. b \<notin> log_region (log_start s) \<longrightarrow> disk r' b = (if (2::nat) \<le> 1 then disk s b else v_blk (view 1 s) b)"
    by blast
  then show ?thesis using s c r n(1) nb
    by (intro exI [of _ s] exI [of _ s'] exI [of _ ws]
        exI [of _ "boot_log (log_start s) 30 (apply_writes (take 2 ws) (disk s))"] exI [of _ r'])
      (simp add: zero_disk_def)
qed

theorem recovery_idempotent_witness:
  "\<exists>(r1 :: log_state) ws r3. recover_from_log (boot_log 2 30 zero_disk) = Inr r1 \<and>
     dwrites r1 = dwrites (boot_log 2 30 zero_disk) @ ws \<and> length ws = 1 \<and>
     recover_from_log (boot_log 2 30 (apply_writes (take 1 ws) zero_disk)) = Inr r3 \<and>
     (\<forall>b. b \<notin> log_region 2 \<longrightarrow> disk r3 b = disk r1 b)"
proof -
  let ?r = "boot_log 2 30 zero_disk"
  have r: "reboot 1 2 zero_disk ?r" using zero_disk(1) by (rule boot_log_reboot)
  have l: "log_disk 2 zero_disk 0 []" using zero_disk by (simp add: log_disk_def header_def)
  obtain h0 r1 where r1: "recover_from_log ?r = Inr r1" "header h0 0 []"
    "dwrites r1 = dwrites ?r @ from_log 2 [] zero_disk 0 0 @ [(2, h0)]"
    by (rule recover_ok [OF r l])
  let ?ws = "[(2, h0)] :: (u32 \<times> byte list) list"
  have w: "dwrites r1 = dwrites ?r @ ?ws" using r1(3) by (simp add: from_log_def)
  have "\<forall>b. length (apply_writes (take 1 ?ws) zero_disk b) = BSIZE"
    using r1(2) zero_disk(1) by (auto simp: header_def)
  then have r2: "reboot 1 2 (apply_writes (take 1 ?ws) zero_disk)
      (boot_log 2 30 (apply_writes (take 1 ?ws) zero_disk))" by (rule boot_log_reboot)
  have "1 \<le> length ?ws" by simp
  from recovery_idempotent [OF r l r1(1) w this r2] obtain r3
    where "recover_from_log (boot_log 2 30 (apply_writes (take 1 ?ws) zero_disk)) = Inr r3"
      "\<forall>b. b \<notin> log_region 2 \<longrightarrow> disk r3 b = disk r1 b" by blast
  then show ?thesis
    using r1(1) w by (intro exI [of _ r1] exI [of _ ?ws] exI [of _ r3]) simp
qed



text \<open>
  The reservation of \<^verbatim>\<open>begin_op\<close> does not match the check of \<^verbatim>\<open>log_write\<close>. With the log of 30
  blocks that \<^verbatim>\<open>mkfs\<close> writes (\<^verbatim>\<open>nlog = LOGSIZE\<close>), three operations are admitted, which reserves
  3 times \<^verbatim>\<open>MAXOPBLOCKS\<close> = 30 blocks; once they have logged 29 distinct blocks the next logged
  block panics, although no operation has used up its share.
\<close>

theorem reservation_exceeds_log:
  "\<exists>s3 s4. kbind (begin_op (boot_log 2 (int LOGSIZE) zero_disk)) (\<lambda>s. kbind (begin_op s) begin_op) = Inr s3 \<and>
     outstanding s3 = 3 \<and>
     log_updates (map (\<lambda>i. (of_nat (100 + i), replicate BSIZE 0)) [0..<29]) s3 = Inr s4 \<and>
     lh_n s4 + 1 \<le> outstanding s4 * int MAXOPBLOCKS \<and>
     log_update 200 f s4 = Inl (Panic ''too big a transaction'')"
proof -
  let ?s = "boot_log 2 (int LOGSIZE) zero_disk"
  let ?t = "?s\<lparr>outstanding := 3\<rparr>"
  let ?xs = "map (\<lambda>i. (of_nat (100 + i) :: u32, replicate BSIZE 0 :: byte list)) [0..<29]"
  have b: "kbind (begin_op ?s) (\<lambda>s. kbind (begin_op s) begin_op) = Inr ?t"
    by (simp add: begin_op_def boot_log_fields LOGSIZE_def MAXOPBLOCKS_def)
  note u = log_upd_view [of ?t ?s, simplified]
  have "log_inv 1 ?s" using zero_disk by (intro boot_log_inv)
  then have i: "tx_inv 1 {} ?t" by (simp add: tx_inv_empty log_inv_def u log_blocks_def)
  have L: "log_blocks ?t = []" by (simp add: log_blocks_def boot_log_fields)
  have inj: "inj_on (\<lambda>i. of_nat (100 + i) :: u32) {0..<29}"
    by (simp add: inj_on_def word_unat_eq_iff unat_word_ariths unat_of_nat)
  have out: "of_nat (100 + i) \<notin> log_region 2" if "i < 29" for i
    using that by (auto simp: log_region_def log_blk_def LOGSIZE_def MAXOPBLOCKS_def word_unat_eq_iff
        unat_word_ariths unat_of_nat)
  have d: "distinct (map fst ?xs)" using inj by (simp add: distinct_map comp_def del: of_nat_add)
  have out': "fst ` set ?xs \<inter> log_region (log_start ?t) = {}"
    using out by (auto simp: boot_log_fields simp del: of_nat_add)
  obtain s4 where s4: "log_updates ?xs ?t = Inr s4" "tx_inv 1 {} s4" "tframe ?t s4"
    "log_blocks s4 = map fst ?xs"
    using log_updates_ok [OF i out'] L d
    by (auto simp: boot_log_fields LOGSIZE_def MAXOPBLOCKS_def simp del: of_nat_add)
  note f = tframe_fields [OF s4(3)]
  have n: "lh_n s4 = 29" using tx_length [OF s4(2)] s4(2,4) by (auto simp: tx_inv_def)
  have r: "tx_room {} 200 s4" using n by (intro tx_room_empty [OF s4(2)]) (simp add: NBUF_def MAXOPBLOCKS_def)
  obtain j s5 where s5: "bread 1 200 s4 = Inr (j, s5)" "bframe s4 s5"
    by (rule tx_bread [OF s4(2) _ r]) simp
  have "log_write j (set_data j (f (get_data j s5)) s5) = Inl (Panic ''too big a transaction'')"
    using n bframe_log [OF s5(2)] f
    by (simp add: log_write_def set_data_def upd_buf_def boot_log_fields LOGSIZE_def MAXOPBLOCKS_def)
  then have "log_update 200 f s4 = Inl (Panic ''too big a transaction'')"
    using s5(1) f by (simp add: log_update_def boot_log_fields)
  then show ?thesis using b s4(1) n f
    by (intro exI [of _ ?t] exI [of _ s4]) (simp add: MAXOPBLOCKS_def)
qed

end
