(* ===== verification/Xv6_Vm.thy ===== *)
theory Xv6_Vm
  imports Xv6_Kalloc
begin

text \<open>
  Page tables and user memory, \<^verbatim>\<open>kernel/vm.c\<close>. Page tables live in physical memory: an entry is
  the 64-bit word at its address, and \<^verbatim>\<open>walk\<close> returns that address (0 for the null pointer). The
  loops of \<^verbatim>\<open>mappages\<close>, \<^verbatim>\<open>uvmunmap\<close>, \<^verbatim>\<open>uvmalloc\<close> and \<^verbatim>\<open>uvmcopy\<close> terminate because \<^verbatim>\<open>walk\<close>
  panics at \<^verbatim>\<open>MAXVA\<close>; \<^verbatim>\<open>freewalk\<close>, which follows pointers, has fuel. Kernel-side buffers of
  \<^verbatim>\<open>copyin\<close>, \<^verbatim>\<open>copyout\<close> and \<^verbatim>\<open>copyinstr\<close> are byte lists; a failing copy also gives back the
  bytes copied before the failure. The linker symbols \<^verbatim>\<open>end\<close>, \<^verbatim>\<open>etext\<close> and \<^verbatim>\<open>trampoline\<close> are
  parameters.
\<close>

section \<open>Walking a page table\<close>

primrec walk_loop ::
  "nat \<Rightarrow> u64 \<Rightarrow> u64 \<Rightarrow> bool \<Rightarrow> 'z kmem_state_scheme \<Rightarrow> u64 \<times> 'z kmem_state_scheme" where
  "walk_loop 0 pagetable va alloc s = (pagetable + 8 * PX 0 va, s)"
| "walk_loop (Suc l) pagetable va alloc s =
     (let pte = pagetable + 8 * PX (Suc l) va; e = load64 (pmem s) pte
      in if e AND PTE_V \<noteq> 0 then walk_loop l (PTE2PA e) va alloc s
         else if \<not> alloc then (0, s)
         else case kalloc s of (pg, s) \<Rightarrow>
           if pg = 0 then (0, s)
           else let s = s\<lparr>pmem := memset (pmem s) pg 0 4096\<rparr>;
                    s = s\<lparr>pmem := store64 (pmem s) pte (PA2PTE pg OR PTE_V)\<rparr>
                in walk_loop l pg va alloc s)"

definition walk ::
  "u64 \<Rightarrow> u64 \<Rightarrow> bool \<Rightarrow> 'z kmem_state_scheme \<Rightarrow> (u64 \<times> 'z kmem_state_scheme) kres" where
  "walk pagetable va alloc s =
     (if MAXVA \<le> va then Inl (Panic ''walk'') else Inr (walk_loop 2 pagetable va alloc s))"

definition walkaddr :: "u64 \<Rightarrow> u64 \<Rightarrow> 'z kmem_state_scheme \<Rightarrow> u64 kres" where
  "walkaddr pagetable va s =
     (if MAXVA \<le> va then Inr 0
      else kbind (walk pagetable va False s) (\<lambda>(pte, s).
        Inr (if pte = 0 then 0
             else if load64 (pmem s) pte AND PTE_V = 0 then 0
             else if load64 (pmem s) pte AND PTE_U = 0 then 0
             else PTE2PA (load64 (pmem s) pte))))"

section \<open>Mapping and unmapping\<close>

lemma walk_below: "walk pagetable va alloc s = Inr x \<Longrightarrow> va < MAXVA"
  by (auto simp: walk_def not_le split: if_splits)

lemma step_below_MAXVA: "a < MAXVA \<Longrightarrow> unat (a + PGSIZE) = unat a + 4096"
  using unat_add_nowrap [of a PGSIZE] by (simp add: word_less_nat_alt MAXVA_def PGSIZE_def)

function mappages_loop ::
  "u64 \<Rightarrow> u64 \<Rightarrow> u64 \<Rightarrow> u64 \<Rightarrow> u64 \<Rightarrow> 'z kmem_state_scheme \<Rightarrow> (int \<times> 'z kmem_state_scheme) kres" where
  "mappages_loop pagetable a lst pa perm s =
     kbind (walk pagetable a True s) (\<lambda>(pte, s).
       if pte = 0 then Inr (-1, s)
       else if load64 (pmem s) pte AND PTE_V \<noteq> 0 then Inl (Panic ''mappages: remap'')
       else let s = s\<lparr>pmem := store64 (pmem s) pte (PA2PTE pa OR perm OR PTE_V)\<rparr>
            in if a = lst then Inr (0, s)
               else mappages_loop pagetable (a + PGSIZE) lst (pa + PGSIZE) perm s)"
  by pat_completeness auto
termination
  by (relation "measure (\<lambda>(pagetable, a, lst, pa, perm, s). 2 ^ 64 - unat a)")
    (use unat_lt_pow in \<open>fastforce dest!: walk_below simp: step_below_MAXVA MAXVA_def word_less_nat_alt\<close>)+

declare mappages_loop.simps [simp del]

definition mappages ::
  "u64 \<Rightarrow> u64 \<Rightarrow> u64 \<Rightarrow> u64 \<Rightarrow> u64 \<Rightarrow> 'z kmem_state_scheme \<Rightarrow> (int \<times> 'z kmem_state_scheme) kres" where
  "mappages pagetable va sz pa perm s =
     (if va mod PGSIZE \<noteq> 0 then Inl (Panic ''mappages: va not aligned'')
      else if sz mod PGSIZE \<noteq> 0 then Inl (Panic ''mappages: size not aligned'')
      else if sz = 0 then Inl (Panic ''mappages: size'')
      else mappages_loop pagetable va (va + sz - PGSIZE) pa perm s)"

definition kvmmap ::
  "u64 \<Rightarrow> u64 \<Rightarrow> u64 \<Rightarrow> u64 \<Rightarrow> u64 \<Rightarrow> 'z kmem_state_scheme \<Rightarrow> 'z kmem_state_scheme kres" where
  "kvmmap kpgtbl va pa sz perm s =
     kbind (mappages kpgtbl va sz pa perm s) (\<lambda>(r, s).
       if r \<noteq> 0 then Inl (Panic ''kvmmap'') else Inr s)"

function uvmunmap_loop ::
  "u64 \<Rightarrow> u64 \<Rightarrow> u64 \<Rightarrow> u64 \<Rightarrow> bool \<Rightarrow> 'z kmem_state_scheme \<Rightarrow> 'z kmem_state_scheme kres" where
  "uvmunmap_loop kend pagetable a stop do_free s =
     (if a < stop
      then kbind (walk pagetable a False s) (\<lambda>(pte, s).
        let e = load64 (pmem s) pte
        in if pte = 0 then Inl (Panic ''uvmunmap: walk'')
           else if e AND PTE_V = 0 then Inl (Panic ''uvmunmap: not mapped'')
           else if PTE_FLAGS e = PTE_V then Inl (Panic ''uvmunmap: not a leaf'')
           else kbind (if do_free then kfree kend (PTE2PA e) s else Inr s) (\<lambda>s.
             uvmunmap_loop kend pagetable (a + PGSIZE) stop do_free
               (s\<lparr>pmem := store64 (pmem s) pte 0\<rparr>)))
      else Inr s)"
  by pat_completeness auto
termination
  by (relation "measure (\<lambda>(kend, pagetable, a, stop, do_free, s). 2 ^ 64 - unat a)")
    (use unat_lt_pow in \<open>fastforce dest!: walk_below simp: step_below_MAXVA MAXVA_def word_less_nat_alt\<close>)+

declare uvmunmap_loop.simps [simp del]

definition uvmunmap ::
  "u64 \<Rightarrow> u64 \<Rightarrow> u64 \<Rightarrow> u64 \<Rightarrow> bool \<Rightarrow> 'z kmem_state_scheme \<Rightarrow> 'z kmem_state_scheme kres" where
  "uvmunmap kend pagetable va npages do_free s =
     (if va mod PGSIZE \<noteq> 0 then Inl (Panic ''uvmunmap: not aligned'')
      else uvmunmap_loop kend pagetable va (va + npages * PGSIZE) do_free s)"

section \<open>The kernel page table\<close>

definition UART0 :: u64 where "UART0 = 0x10000000"
definition VIRTIO0 :: u64 where "VIRTIO0 = 0x10001000"
definition PLIC :: u64 where "PLIC = 0x0c000000"
definition NPROC :: nat where "NPROC = 64"

text \<open>\<^verbatim>\<open>proc_mapstacks\<close> of \<^verbatim>\<open>kernel/proc.c\<close>, a kernel stack for each process slot.\<close>

primrec mapstacks_loop ::
  "u64 \<Rightarrow> nat list \<Rightarrow> 'z kmem_state_scheme \<Rightarrow> 'z kmem_state_scheme kres" where
  "mapstacks_loop kpgtbl [] s = Inr s"
| "mapstacks_loop kpgtbl (i # is) s =
     (case kalloc s of (pa, s) \<Rightarrow>
        if pa = 0 then Inl (Panic ''kalloc'')
        else kbind (kvmmap kpgtbl (KSTACK i) pa PGSIZE (PTE_R OR PTE_W) s) (mapstacks_loop kpgtbl is))"

definition proc_mapstacks ::
  "u64 \<Rightarrow> 'z kmem_state_scheme \<Rightarrow> 'z kmem_state_scheme kres" where
  "proc_mapstacks kpgtbl s = mapstacks_loop kpgtbl [0..<NPROC] s"

definition kvmmake ::
  "u64 \<Rightarrow> u64 \<Rightarrow> 'z kmem_state_scheme \<Rightarrow> (u64 \<times> 'z kmem_state_scheme) kres" where
  "kvmmake etext trampoline s =
     (case kalloc s of (kpgtbl, s) \<Rightarrow>
        kbind (kvmmap kpgtbl UART0 UART0 PGSIZE (PTE_R OR PTE_W)
                 (s\<lparr>pmem := memset (pmem s) kpgtbl 0 4096\<rparr>)) (\<lambda>s.
        kbind (kvmmap kpgtbl VIRTIO0 VIRTIO0 PGSIZE (PTE_R OR PTE_W) s) (\<lambda>s.
        kbind (kvmmap kpgtbl PLIC PLIC 0x4000000 (PTE_R OR PTE_W) s) (\<lambda>s.
        kbind (kvmmap kpgtbl KERNBASE KERNBASE (etext - KERNBASE) (PTE_R OR PTE_X) s) (\<lambda>s.
        kbind (kvmmap kpgtbl etext etext (PHYSTOP - etext) (PTE_R OR PTE_W) s) (\<lambda>s.
        kbind (kvmmap kpgtbl TRAMPOLINE trampoline PGSIZE (PTE_R OR PTE_X) s) (\<lambda>s.
        kbind (proc_mapstacks kpgtbl s) (\<lambda>s. Inr (kpgtbl, s)))))))))"

section \<open>User address spaces\<close>

definition uvmcreate :: "'z kmem_state_scheme \<Rightarrow> u64 \<times> 'z kmem_state_scheme" where
  "uvmcreate s =
     (case kalloc s of (pagetable, s) \<Rightarrow>
        if pagetable = 0 then (0, s)
        else (pagetable, s\<lparr>pmem := memset (pmem s) pagetable 0 4096\<rparr>))"

definition uvmfirst ::
  "u64 \<Rightarrow> byte list \<Rightarrow> 'z kmem_state_scheme \<Rightarrow> 'z kmem_state_scheme kres" where
  "uvmfirst pagetable src s =
     (if 4096 \<le> length src then Inl (Panic ''uvmfirst: more than a page'')
      else case kalloc s of (pg, s) \<Rightarrow>
        let s = s\<lparr>pmem := memset (pmem s) pg 0 4096\<rparr>
        in kbind (mappages pagetable 0 PGSIZE pg (PTE_W OR PTE_R OR PTE_X OR PTE_U) s) (\<lambda>(r, s).
             Inr (s\<lparr>pmem := mem_write (pmem s) pg src\<rparr>)))"

text \<open>The page count passes through an \<^verbatim>\<open>int\<close>.\<close>

definition uvmdealloc ::
  "u64 \<Rightarrow> u64 \<Rightarrow> u64 \<Rightarrow> u64 \<Rightarrow> 'z kmem_state_scheme \<Rightarrow> (u64 \<times> 'z kmem_state_scheme) kres" where
  "uvmdealloc kend pagetable oldsz newsz s =
     (if oldsz \<le> newsz then Inr (oldsz, s)
      else if PGROUNDUP newsz < PGROUNDUP oldsz
      then let npages = (ucast ((PGROUNDUP oldsz - PGROUNDUP newsz) div PGSIZE) :: u32)
           in kbind (uvmunmap kend pagetable (PGROUNDUP newsz) (scast npages) True s) (\<lambda>s. Inr (newsz, s))
      else Inr (newsz, s))"

function uvmalloc_loop ::
  "u64 \<Rightarrow> u64 \<Rightarrow> u64 \<Rightarrow> u64 \<Rightarrow> u64 \<Rightarrow> u64 \<Rightarrow> 'z kmem_state_scheme \<Rightarrow> (u64 \<times> 'z kmem_state_scheme) kres" where
  "uvmalloc_loop kend pagetable a oldsz newsz xperm s =
     (if a < newsz
      then case kalloc s of (pg, s) \<Rightarrow>
        if pg = 0
        then kbind (uvmdealloc kend pagetable a oldsz s) (\<lambda>(_, s). Inr (0, s))
        else let s = s\<lparr>pmem := memset (pmem s) pg 0 4096\<rparr>
             in kbind (mappages pagetable a PGSIZE pg (PTE_R OR PTE_U OR xperm) s) (\<lambda>(r, s).
                  if r \<noteq> 0
                  then kbind (kfree kend pg s) (\<lambda>s.
                       kbind (uvmdealloc kend pagetable a oldsz s) (\<lambda>(_, s). Inr (0, s)))
                  else uvmalloc_loop kend pagetable (a + PGSIZE) oldsz newsz xperm s)
      else Inr (newsz, s))"
  by pat_completeness auto

lemma mappages_below: "mappages pagetable va sz pa perm s = Inr x \<Longrightarrow> va < MAXVA"
  by (auto simp: mappages_def mappages_loop.simps kbind_eq_Inr dest: walk_below split: if_splits)

termination uvmalloc_loop
  by (relation "measure (\<lambda>(kend, pagetable, a, oldsz, newsz, xperm, s). 2 ^ 64 - unat a)")
    (use unat_lt_pow in \<open>fastforce dest!: mappages_below simp: step_below_MAXVA MAXVA_def word_less_nat_alt\<close>)+

declare uvmalloc_loop.simps [simp del]

definition uvmalloc ::
  "u64 \<Rightarrow> u64 \<Rightarrow> u64 \<Rightarrow> u64 \<Rightarrow> u64 \<Rightarrow> 'z kmem_state_scheme \<Rightarrow> (u64 \<times> 'z kmem_state_scheme) kres" where
  "uvmalloc kend pagetable oldsz newsz xperm s =
     (if newsz < oldsz then Inr (oldsz, s)
      else uvmalloc_loop kend pagetable (PGROUNDUP oldsz) (PGROUNDUP oldsz) newsz xperm s)"

text \<open>\<open>freewalk_entries\<close> is the loop over the 512 entries of one table.\<close>

primrec freewalk_entries ::
  "(u64 \<Rightarrow> 'z kmem_state_scheme \<Rightarrow> 'z kmem_state_scheme kres) \<Rightarrow> u64 \<Rightarrow> nat list \<Rightarrow>
   'z kmem_state_scheme \<Rightarrow> 'z kmem_state_scheme kres" where
  "freewalk_entries rec pagetable [] s = Inr s"
| "freewalk_entries rec pagetable (i # is) s =
     (let pte = load64 (pmem s) (pagetable + 8 * of_nat i)
      in if pte AND PTE_V \<noteq> 0 \<and> pte AND (PTE_R OR PTE_W OR PTE_X) = 0
         then kbind (rec (PTE2PA pte) s) (\<lambda>s.
              freewalk_entries rec pagetable is
                (s\<lparr>pmem := store64 (pmem s) (pagetable + 8 * of_nat i) 0\<rparr>))
         else if pte AND PTE_V \<noteq> 0 then Inl (Panic ''freewalk: leaf'')
         else freewalk_entries rec pagetable is s)"

primrec freewalk ::
  "nat \<Rightarrow> u64 \<Rightarrow> u64 \<Rightarrow> 'z kmem_state_scheme \<Rightarrow> 'z kmem_state_scheme kres" where
  "freewalk 0 kend pagetable s = Inl Diverges"
| "freewalk (Suc fuel) kend pagetable s =
     kbind (freewalk_entries (freewalk fuel kend) pagetable [0..<512] s) (kfree kend pagetable)"

text \<open>A page table has three levels.\<close>

definition uvmfree :: "u64 \<Rightarrow> u64 \<Rightarrow> u64 \<Rightarrow> 'z kmem_state_scheme \<Rightarrow> 'z kmem_state_scheme kres" where
  "uvmfree kend pagetable sz s =
     kbind (if 0 < sz then uvmunmap kend pagetable 0 (PGROUNDUP sz div PGSIZE) True s else Inr s)
       (freewalk 3 kend pagetable)"

definition uvmcopy_err ::
  "u64 \<Rightarrow> u64 \<Rightarrow> u64 \<Rightarrow> 'z kmem_state_scheme \<Rightarrow> (int \<times> 'z kmem_state_scheme) kres" where
  "uvmcopy_err kend new i s = kbind (uvmunmap kend new 0 (i div PGSIZE) True s) (\<lambda>s. Inr (-1, s))"

function uvmcopy_loop ::
  "u64 \<Rightarrow> u64 \<Rightarrow> u64 \<Rightarrow> u64 \<Rightarrow> u64 \<Rightarrow> 'z kmem_state_scheme \<Rightarrow> (int \<times> 'z kmem_state_scheme) kres" where
  "uvmcopy_loop kend old new i sz s =
     (if i < sz
      then kbind (walk old i False s) (\<lambda>(pte, s).
        let e = load64 (pmem s) pte
        in if pte = 0 then Inl (Panic ''uvmcopy: pte should exist'')
           else if e AND PTE_V = 0 then Inl (Panic ''uvmcopy: page not present'')
           else case kalloc s of (pg, s) \<Rightarrow>
             if pg = 0 then uvmcopy_err kend new i s
             else let s = s\<lparr>pmem := memmove (pmem s) pg (PTE2PA e) 4096\<rparr>
                  in kbind (mappages new i PGSIZE pg (PTE_FLAGS e) s) (\<lambda>(r, s).
                       if r \<noteq> 0 then kbind (kfree kend pg s) (uvmcopy_err kend new i)
                       else uvmcopy_loop kend old new (i + PGSIZE) sz s))
      else Inr (0, s))"
  by pat_completeness auto
termination
  by (relation "measure (\<lambda>(kend, old, new, i, sz, s). 2 ^ 64 - unat i)")
    (use unat_lt_pow in \<open>fastforce dest!: walk_below simp: step_below_MAXVA MAXVA_def word_less_nat_alt\<close>)+

declare uvmcopy_loop.simps [simp del]

definition uvmcopy ::
  "u64 \<Rightarrow> u64 \<Rightarrow> u64 \<Rightarrow> u64 \<Rightarrow> 'z kmem_state_scheme \<Rightarrow> (int \<times> 'z kmem_state_scheme) kres" where
  "uvmcopy kend old new sz s = uvmcopy_loop kend old new 0 sz s"

definition uvmclear :: "u64 \<Rightarrow> u64 \<Rightarrow> 'z kmem_state_scheme \<Rightarrow> 'z kmem_state_scheme kres" where
  "uvmclear pagetable va s =
     kbind (walk pagetable va False s) (\<lambda>(pte, s).
       if pte = 0 then Inl (Panic ''uvmclear'')
       else Inr (s\<lparr>pmem := store64 (pmem s) pte (load64 (pmem s) pte AND NOT PTE_U)\<rparr>))"

section \<open>Copying between kernel and user\<close>

lemma page_off: "unat (va - PGROUNDDOWN va) = unat va mod 4096"
proof -
  have "PGROUNDDOWN va \<le> va" by (simp add: word_le_nat_alt unat_PGROUNDDOWN)
  then show ?thesis by (simp add: unat_sub unat_PGROUNDDOWN)
qed

lemma unat_page_rest: "unat (PGSIZE - (va - PGROUNDDOWN va)) = 4096 - unat va mod 4096"
proof -
  have "va - PGROUNDDOWN va \<le> PGSIZE" by (simp add: word_le_nat_alt page_off)
  then show ?thesis by (simp add: unat_sub page_off)
qed

lemma page_rest: "0 < unat (PGSIZE - (va - PGROUNDDOWN va))"
  by (simp add: unat_page_rest)

function copyout ::
  "u64 \<Rightarrow> u64 \<Rightarrow> byte list \<Rightarrow> 'z kmem_state_scheme \<Rightarrow> (int \<times> 'z kmem_state_scheme) kres" where
  "copyout pagetable dstva src s =
     (if src = [] then Inr (0, s)
      else let va0 = PGROUNDDOWN dstva
      in if MAXVA \<le> va0 then Inr (-1, s)
         else kbind (walk pagetable va0 False s) (\<lambda>(pte, s).
           let e = load64 (pmem s) pte
           in if pte = 0 \<or> e AND PTE_V = 0 \<or> e AND PTE_U = 0 \<or> e AND PTE_W = 0 then Inr (-1, s)
              else let n = min (unat (PGSIZE - (dstva - va0))) (length src)
                   in copyout pagetable (va0 + PGSIZE) (drop n src)
                        (s\<lparr>pmem := mem_write (pmem s) (PTE2PA e + (dstva - va0)) (take n src)\<rparr>)))"
  by pat_completeness auto
termination
  by (relation "measure (\<lambda>(pagetable, dstva, src, s). length src)") (use page_rest in auto)

declare copyout.simps [simp del]

function copyin ::
  "u64 \<Rightarrow> u64 \<Rightarrow> nat \<Rightarrow> 'z kmem_state_scheme \<Rightarrow> (int \<times> byte list) kres" where
  "copyin pagetable srcva len s =
     (if len = 0 then Inr (0, [])
      else let va0 = PGROUNDDOWN srcva
      in kbind (walkaddr pagetable va0 s) (\<lambda>pa0.
           if pa0 = 0 then Inr (-1, [])
           else let n = min (unat (PGSIZE - (srcva - va0))) len;
                    bs = mem_read (pmem s) (pa0 + (srcva - va0)) n
                in kbind (copyin pagetable (va0 + PGSIZE) (len - n) s) (\<lambda>(r, rest).
                     Inr (r, bs @ rest))))"
  by pat_completeness auto
termination
  by (relation "measure (\<lambda>(pagetable, srcva, len, s). len)") (use page_rest in auto)

declare copyin.simps [simp del]

text \<open>The inner loop of \<^verbatim>\<open>copyinstr\<close>: the bytes up to a NUL, and whether there was one.\<close>

primrec str_chunk :: "mem \<Rightarrow> u64 \<Rightarrow> nat \<Rightarrow> byte list \<times> bool" where
  "str_chunk m p 0 = ([], False)"
| "str_chunk m p (Suc n) =
     (if m p = 0 then ([0], True)
      else case str_chunk m (p + 1) n of (bs, nul) \<Rightarrow> (m p # bs, nul))"

function copyinstr ::
  "u64 \<Rightarrow> u64 \<Rightarrow> nat \<Rightarrow> 'z kmem_state_scheme \<Rightarrow> (int \<times> byte list) kres" where
  "copyinstr pagetable srcva mx s =
     (if mx = 0 then Inr (-1, [])
      else let va0 = PGROUNDDOWN srcva
      in kbind (walkaddr pagetable va0 s) (\<lambda>pa0.
           if pa0 = 0 then Inr (-1, [])
           else let n = min (unat (PGSIZE - (srcva - va0))) mx
                in case str_chunk (pmem s) (pa0 + (srcva - va0)) n of (bs, nul) \<Rightarrow>
                     if nul then Inr (0, bs)
                     else kbind (copyinstr pagetable (va0 + PGSIZE) (mx - n) s) (\<lambda>(r, rest).
                            Inr (r, bs @ rest))))"
  by pat_completeness auto
termination
  by (relation "measure (\<lambda>(pagetable, srcva, mx, s). mx)") (use page_rest in auto)

declare copyinstr.simps [simp del]

section \<open>Frames\<close>

lemma walk_loop_noalloc: "snd (walk_loop l t va False s) = s"
  by (induction l arbitrary: t) (auto simp: Let_def)

lemma walk_noalloc: "walk pagetable va False s = Inr (pte, s') \<Longrightarrow> s' = s"
  using walk_loop_noalloc [of 2 pagetable va s] by (auto simp: walk_def split: if_splits)

lemma copyout_frame: "copyout pagetable va src s = Inr (r, s') \<Longrightarrow> s' = s\<lparr>pmem := pmem s'\<rparr>"
proof (induction pagetable va src s rule: copyout.induct)
  case (1 pagetable va src s)
  show ?case
  proof (cases "src = [] \<or> MAXVA \<le> PGROUNDDOWN va")
    case True
    with 1(2) show ?thesis by (subst (asm) copyout.simps) (auto split: if_splits)
  next
    case False
    then obtain pte where w: "walk pagetable (PGROUNDDOWN va) False s = Inr (pte, s)"
      using walk_loop_noalloc [of 2 pagetable "PGROUNDDOWN va" s]
      by (cases "walk_loop 2 pagetable (PGROUNDDOWN va) False s") (auto simp: walk_def)
    from 1(2) False w show ?thesis
      by (subst (asm) copyout.simps) (auto simp: Let_def split: if_splits dest!: 1(1) [rotated -1])
  qed
qed

text \<open>Everything in this theory works on memory and the free list only.\<close>

abbreviation more_same :: "'z kmem_state_scheme \<Rightarrow> 'z kmem_state_scheme \<Rightarrow> bool" where
  "more_same s s' \<equiv> kmem_state.more s' = kmem_state.more s"

named_theorems more_frames "operations that change memory and the free list only"

lemma kalloc_more [more_frames]: "kalloc s = (pg, s') \<Longrightarrow> more_same s s'"
  by (auto simp: kalloc_def Let_def split: if_splits)

lemma kfree_more [more_frames]: "kfree kend pg s = Inr s' \<Longrightarrow> more_same s s'"
  by (auto simp: kfree_def Let_def split: if_splits)

lemma walk_loop_more: "walk_loop l t va alloc s = (pte, s') \<Longrightarrow> more_same s s'"
proof (induction l arbitrary: t s alloc)
  case (Suc l)
  from Suc.prems show ?case
    by (auto simp: Let_def split: if_splits prod.splits dest!: kalloc_more) (drule Suc.IH, simp)+
qed simp

lemma walk_more [more_frames]: "walk t va alloc s = Inr (pte, s') \<Longrightarrow> more_same s s'"
  using walk_loop_more by (auto simp: walk_def split: if_splits)

lemma mappages_loop_more: "mappages_loop t a lst pa perm s = Inr (r, s') \<Longrightarrow> more_same s s'"
proof (induction t a lst pa perm s rule: mappages_loop.induct)
  case (1 t a lst pa perm s)
  from 1(2) obtain pte s1 where w: "walk t a True s = Inr (pte, s1)"
    by (subst (asm) mappages_loop.simps) (auto simp: kbind_eq_Inr)
  let ?s = "s1\<lparr>pmem := store64 (pmem s1) pte (PA2PTE pa OR perm OR PTE_V)\<rparr>"
  from 1(2) w have "more_same s1 s' \<or> mappages_loop t (a + PGSIZE) lst (pa + PGSIZE) perm ?s = Inr (r, s') \<and>
      pte \<noteq> 0 \<and> load64 (pmem s1) pte AND PTE_V = 0 \<and> a \<noteq> lst"
    by (subst (asm) mappages_loop.simps) (auto simp: Let_def split: if_splits)
  then show ?case using 1(1) [OF w] walk_more [OF w] by auto
qed

lemma mappages_more [more_frames]: "mappages t va sz pa perm s = Inr (r, s') \<Longrightarrow> more_same s s'"
  by (auto simp: mappages_def split: if_splits dest: mappages_loop_more)

lemma uvmunmap_loop_more: "uvmunmap_loop kend t a stop do_free s = Inr s' \<Longrightarrow> more_same s s'"
proof (induction kend t a stop do_free s rule: uvmunmap_loop.induct)
  case (1 kend t a stop do_free s)
  show ?case
  proof (cases "a < stop")
    case True
    from 1(2) True obtain pte s1 s2 where w: "walk t a False s = Inr (pte, s1)"
      "pte \<noteq> 0" "load64 (pmem s1) pte AND PTE_V \<noteq> 0" "PTE_FLAGS (load64 (pmem s1) pte) \<noteq> PTE_V"
      "(if do_free then kfree kend (PTE2PA (load64 (pmem s1) pte)) s1 else Inr s1) = Inr s2"
      "uvmunmap_loop kend t (a + PGSIZE) stop do_free (s2\<lparr>pmem := store64 (pmem s2) pte 0\<rparr>) = Inr s'"
      by (subst (asm) uvmunmap_loop.simps) (auto simp: kbind_eq_Inr Let_def split: if_splits)
    have "more_same s1 s2" using w(5) by (auto split: if_splits dest: kfree_more)
    then show ?thesis using 1(1) [OF True w(1) refl refl w(2-5)] w(6) walk_more [OF w(1)] by simp
  next
    case False
    with 1(2) show ?thesis by (subst (asm) uvmunmap_loop.simps) simp
  qed
qed

lemma uvmunmap_more [more_frames]: "uvmunmap kend t va n do_free s = Inr s' \<Longrightarrow> more_same s s'"
  by (auto simp: uvmunmap_def split: if_splits dest: uvmunmap_loop_more)

lemma uvmcreate_more [more_frames]: "uvmcreate s = (t, s') \<Longrightarrow> more_same s s'"
  by (auto simp: uvmcreate_def split: prod.splits if_splits dest: kalloc_more)

lemma freewalk_entries_more:
  "(\<And>t s s'. rec t s = Inr s' \<Longrightarrow> more_same s s') \<Longrightarrow> freewalk_entries rec t is s = Inr s' \<Longrightarrow> more_same s s'"
proof (induction "is" arbitrary: s)
  case (Cons i "is")
  let ?e = "load64 (pmem s) (t + 8 * of_nat i)"
  from Cons.prems(2) consider
    s1 where "rec (PTE2PA ?e) s = Inr s1"
      "freewalk_entries rec t is (s1\<lparr>pmem := store64 (pmem s1) (t + 8 * of_nat i) 0\<rparr>) = Inr s'"
    | "freewalk_entries rec t is s = Inr s'"
    by (auto simp: Let_def kbind_eq_Inr split: if_splits)
  then show ?case
  proof cases
    case 1
    then show ?thesis using Cons.IH [OF Cons.prems(1) 1(2)] Cons.prems(1) [OF 1(1)] by simp
  next
    case 2
    then show ?thesis using Cons.IH [OF Cons.prems(1) 2] by simp
  qed
qed simp

lemma freewalk_more: "freewalk n kend t s = Inr s' \<Longrightarrow> more_same s s'"
proof (induction n arbitrary: t s s')
  case (Suc n)
  then obtain s1 where f: "freewalk_entries (freewalk n kend) t [0..<512] s = Inr s1" "kfree kend t s1 = Inr s'"
    by (auto simp: kbind_eq_Inr)
  have "more_same s s1" using Suc.IH f(1) by (rule freewalk_entries_more)
  with kfree_more [OF f(2)] show ?case by simp
qed simp

lemma uvmfree_more [more_frames]: "uvmfree kend t sz s = Inr s' \<Longrightarrow> more_same s s'"
  by (auto simp: uvmfree_def kbind_eq_Inr split: if_splits dest!: uvmunmap_more freewalk_more)

lemma uvmdealloc_more [more_frames]: "uvmdealloc kend t old new s = Inr (sz, s') \<Longrightarrow> more_same s s'"
  by (auto simp: uvmdealloc_def Let_def kbind_eq_Inr split: if_splits dest: uvmunmap_more)

lemma uvmalloc_loop_more: "uvmalloc_loop kend t a old new perm s = Inr (sz, s') \<Longrightarrow> more_same s s'"
proof (induction kend t a old new perm s rule: uvmalloc_loop.induct)
  case (1 kend t a old new perm s)
  obtain pg s1 where k: "kalloc s = (pg, s1)" by force
  let ?s = "s1\<lparr>pmem := memset (pmem s1) pg 0 4096\<rparr>"
  note km = kalloc_more [OF k]
  consider "\<not> a < new" | "a < new" "pg = 0" | "a < new" "pg \<noteq> 0" by blast
  then show ?case
  proof cases
    case 1
    with "1.prems" show ?thesis by (subst (asm) uvmalloc_loop.simps) simp
  next
    case 2
    with "1.prems" k km show ?thesis
      by (subst (asm) uvmalloc_loop.simps) (auto simp: kbind_eq_Inr dest: uvmdealloc_more)
  next
    case 3
    from "1.prems" 3 k obtain r s2 where m: "mappages t a PGSIZE pg (PTE_R OR PTE_U OR perm) ?s = Inr (r, s2)"
      by (subst (asm) uvmalloc_loop.simps) (auto simp: kbind_eq_Inr Let_def)
    note mm = mappages_more [OF m]
    show ?thesis
    proof (cases "r = 0")
      case True
      have "uvmalloc_loop kend t (a + PGSIZE) old new perm s2 = Inr (sz, s')"
        using True "1.prems" 3 k m by (subst (asm) uvmalloc_loop.simps) (simp add: Let_def)
      then have "more_same s2 s'" using "1.IH" [OF 3(1) k [symmetric] 3(2) refl m refl] True by simp
      with mm km show ?thesis by simp
    next
      case False
      with "1.prems" 3 k m mm km show ?thesis
        by (subst (asm) uvmalloc_loop.simps)
           (auto simp: kbind_eq_Inr Let_def dest!: uvmdealloc_more kfree_more)
    qed
  qed
qed

lemma uvmalloc_more [more_frames]: "uvmalloc kend t old new perm s = Inr (sz, s') \<Longrightarrow> more_same s s'"
  by (auto simp: uvmalloc_def split: if_splits dest: uvmalloc_loop_more)

lemma uvmcopy_err_more: "uvmcopy_err kend t i s = Inr (r, s') \<Longrightarrow> more_same s s'"
  by (auto simp: uvmcopy_err_def kbind_eq_Inr dest: uvmunmap_more)

lemma uvmcopy_loop_more: "uvmcopy_loop kend old new i sz s = Inr (r, s') \<Longrightarrow> more_same s s'"
proof (induction kend old new i sz s rule: uvmcopy_loop.induct)
  case (1 kend old new i sz s)
  show ?case
  proof (cases "i < sz")
    case False
    with "1.prems" show ?thesis by (subst (asm) uvmcopy_loop.simps) simp
  next
    case True
    from "1.prems" True obtain pte s0 where w: "walk old i False s = Inr (pte, s0)" "pte \<noteq> 0"
      "load64 (pmem s0) pte AND PTE_V \<noteq> 0"
      by (subst (asm) uvmcopy_loop.simps) (auto simp: kbind_eq_Inr Let_def split: if_splits)
    obtain pg s1 where k: "kalloc s0 = (pg, s1)" by force
    let ?e = "load64 (pmem s0) pte"
    let ?s = "s1\<lparr>pmem := memmove (pmem s1) pg (PTE2PA ?e) 4096\<rparr>"
    note km = kalloc_more [OF k] walk_more [OF w(1)]
    show ?thesis
    proof (cases "pg = 0")
      case True
      with "1.prems" \<open>i < sz\<close> w k km show ?thesis
        by (subst (asm) uvmcopy_loop.simps) (auto simp: Let_def dest: uvmcopy_err_more)
    next
      case False
      from "1.prems" \<open>i < sz\<close> w k False obtain q s2 where
        m: "mappages new i PGSIZE pg (PTE_FLAGS ?e) ?s = Inr (q, s2)"
        by (subst (asm) uvmcopy_loop.simps) (auto simp: kbind_eq_Inr Let_def)
      note mm = mappages_more [OF m]
      show ?thesis
      proof (cases "q = 0")
        case True
        have "uvmcopy_loop kend old new (i + PGSIZE) sz s2 = Inr (r, s')"
          using True "1.prems" \<open>i < sz\<close> w k m False by (subst (asm) uvmcopy_loop.simps) (simp add: Let_def)
        then have "more_same s2 s'"
          using "1.IH" [OF \<open>i < sz\<close> w(1) refl refl w(2,3) k [symmetric] False refl m refl] True by simp
        with mm km show ?thesis by simp
      next
        case False
        with "1.prems" \<open>i < sz\<close> w k m mm km \<open>pg \<noteq> 0\<close> show ?thesis
          by (subst (asm) uvmcopy_loop.simps)
             (auto simp: kbind_eq_Inr Let_def dest!: uvmcopy_err_more kfree_more)
      qed
    qed
  qed
qed

lemma uvmcopy_more [more_frames]: "uvmcopy kend old new sz s = Inr (r, s') \<Longrightarrow> more_same s s'"
  unfolding uvmcopy_def by (rule uvmcopy_loop_more)

lemma copyout_more [more_frames]: "copyout t va src s = Inr (r, s') \<Longrightarrow> more_same s s'"
  using copyout_frame [of t va src s r s'] by (metis kmem_state.select_convs(3) kmem_state.surjective kmem_state.update_convs(1))

end
