(* ===== verification/Xv6_Fs.thy ===== *)
theory Xv6_Fs
  imports Xv6_Txn Xv6_Vm
begin

text \<open>
  The file system of \<^verbatim>\<open>kernel/fs.c\<close>: the block allocator, inodes and their in-memory table, file
  content, directories and path names. A pointer to an in-memory inode is its index in
  \<^verbatim>\<open>itable\<close>. \<open>sb\<close> is the superblock, \<open>upagetable\<close> and \<open>cwd\<close> are \<^verbatim>\<open>myproc()->pagetable\<close> and
  \<^verbatim>\<open>myproc()->cwd\<close> of the running process. The destination of a read and the source of a write
  are either a user address or a kernel buffer, a list of bytes. Path names and names of
  directory entries are lists of the bytes before the NUL. Console messages are left out.
\<close>

section \<open>State\<close>

definition NINODE :: nat where "NINODE = 50"
definition NDIRECT :: nat where "NDIRECT = 12"
definition NINDIRECT :: nat where "NINDIRECT = BSIZE div 4"
definition MAXFILE :: nat where "MAXFILE = NDIRECT + NINDIRECT"
definition IPB :: nat where "IPB = BSIZE div 64"
definition BPB :: nat where "BPB = BSIZE * 8"
definition DIRSIZ :: nat where "DIRSIZ = 14"
definition ROOTDEV :: u32 where "ROOTDEV = 1"
definition ROOTINO :: u32 where "ROOTINO = 1"
definition FSMAGIC :: u32 where "FSMAGIC = 0x10203040"
definition T_DIR :: u16 where "T_DIR = 1"
definition T_FILE :: u16 where "T_FILE = 2"
definition T_DEVICE :: u16 where "T_DEVICE = 3"

text \<open>The 64 bytes of \<^verbatim>\<open>struct dinode\<close>.\<close>

record dinode =
  d_type :: u16
  d_major :: u16
  d_minor :: u16
  d_nlink :: u16
  d_size :: u32
  d_addrs :: "u32 list"

record inode =
  i_dev :: u32
  i_num :: u32
  i_ref :: int
  i_lock :: sleeplock
  i_valid :: bool
  i_disk :: dinode   \<comment> \<open>type, major, minor, nlink, size, addrs: the copy of the disk inode\<close>

record fs_state = log_state +
  sb :: superblock
  itable :: "nat \<Rightarrow> inode"
  upagetable :: u64
  cwd :: nat

definition upd_inode :: "nat \<Rightarrow> (inode \<Rightarrow> inode) \<Rightarrow> 'z fs_state_scheme \<Rightarrow> 'z fs_state_scheme" where
  "upd_inode i f s = s\<lparr>itable := (itable s)(i := f (itable s i))\<rparr>"

definition upd_dinode :: "nat \<Rightarrow> (dinode \<Rightarrow> dinode) \<Rightarrow> 'z fs_state_scheme \<Rightarrow> 'z fs_state_scheme" where
  "upd_dinode i f s = upd_inode i (\<lambda>n. n\<lparr>i_disk := f (i_disk n)\<rparr>) s"

section \<open>Layout\<close>

definition IBLOCK :: "u32 \<Rightarrow> superblock \<Rightarrow> u32" where
  "IBLOCK i b = of_nat (unat i div IPB) + sb_inodestart b"

definition BBLOCK :: "u32 \<Rightarrow> superblock \<Rightarrow> u32" where
  "BBLOCK i b = of_nat (unat i div BPB) + sb_bmapstart b"

definition read_superblock :: "byte list \<Rightarrow> superblock" where
  "read_superblock d =
     \<lparr>sb_magic = get32 d 0, sb_size = get32 d 4, sb_nblocks = get32 d 8, sb_ninodes = get32 d 12,
      sb_nlog = get32 d 16, sb_logstart = get32 d 20, sb_inodestart = get32 d 24, sb_bmapstart = get32 d 28\<rparr>"

text \<open>\<^verbatim>\<open>(struct dinode*)bp->data + k\<close>, read and written.\<close>

definition get_dinode :: "byte list \<Rightarrow> nat \<Rightarrow> dinode" where
  "get_dinode d k =
     \<lparr>d_type = get16 d (64 * k), d_major = get16 d (64 * k + 2), d_minor = get16 d (64 * k + 4),
      d_nlink = get16 d (64 * k + 6), d_size = get32 d (64 * k + 8),
      d_addrs = map (\<lambda>j. get32 d (64 * k + 12 + 4 * j)) [0..<NDIRECT + 1]\<rparr>"

definition dinode_bytes :: "dinode \<Rightarrow> byte list" where
  "dinode_bytes n =
     le_bytes 2 (unat (d_type n)) @ le_bytes 2 (unat (d_major n)) @ le_bytes 2 (unat (d_minor n)) @
     le_bytes 2 (unat (d_nlink n)) @ le_bytes 4 (unat (d_size n)) @
     concat (map (\<lambda>a. le_bytes 4 (unat a)) (d_addrs n))"

definition put_dinode :: "byte list \<Rightarrow> nat \<Rightarrow> dinode \<Rightarrow> byte list" where
  "put_dinode d k n = put_bytes d (64 * k) (dinode_bytes n)"

section \<open>Start and block allocation\<close>

definition readsb :: "u32 \<Rightarrow> 'z fs_state_scheme \<Rightarrow> (superblock \<times> 'z fs_state_scheme) kres" where
  "readsb dev s =
     kbind (bread dev 1 s) (\<lambda>(bp, s).
       let b = read_superblock (get_data bp s) in kbind (brelse bp s) (\<lambda>s. Inr (b, s)))"

definition fsinit :: "u32 \<Rightarrow> 'z fs_state_scheme \<Rightarrow> 'z fs_state_scheme kres" where
  "fsinit dev s =
     kbind (readsb dev s) (\<lambda>(b, s).
       let s = s\<lparr>sb := b\<rparr>
       in if sb_magic b \<noteq> FSMAGIC then Inl (Panic ''invalid file system'') else initlog dev b s)"

definition bzero :: "u32 \<Rightarrow> u32 \<Rightarrow> 'z fs_state_scheme \<Rightarrow> 'z fs_state_scheme kres" where
  "bzero dev bno s =
     kbind (bread dev bno s) (\<lambda>(bp, s).
     kbind (log_write bp (set_data bp (replicate BSIZE 0) s)) (brelse bp))"

definition bmask :: "nat \<Rightarrow> byte" where
  "bmask bi = push_bit (bi mod 8) 1"

text \<open>
  The outer loop of \<^verbatim>\<open>balloc\<close> counts in an \<^verbatim>\<open>int\<close>, whose overflow C leaves undefined; the inner
  loop looks for the first clear bit.
\<close>

function balloc_loop ::
  "u32 \<Rightarrow> nat \<Rightarrow> 'z fs_state_scheme \<Rightarrow> (u32 \<times> 'z fs_state_scheme) kres" where
  "balloc_loop dev b s =
     (if unat (sb_size (sb s)) \<le> b then Inr (0, s)
      else if 2 ^ 31 \<le> b + BPB then Inl Undefined
      else kbind (bread dev (BBLOCK (of_nat b) (sb s)) s) (\<lambda>(bp, s').
        let d = get_data bp s'
        in case find (\<lambda>bi. d ! (bi div 8) AND bmask bi = 0) [0..<min BPB (unat (sb_size (sb s)) - b)] of
             Some bi \<Rightarrow>
               kbind (log_write bp (set_data bp (d[bi div 8 := d ! (bi div 8) OR bmask bi]) s')) (\<lambda>s'.
               kbind (brelse bp s') (\<lambda>s'.
               kbind (bzero dev (of_nat (b + bi)) s') (\<lambda>s'. Inr (of_nat (b + bi), s'))))
           | None \<Rightarrow> kbind (brelse bp s') (\<lambda>s'. balloc_loop dev (b + BPB) s')))"
  by pat_completeness auto
termination
  by (relation "measure (\<lambda>(dev, b, s). 2 ^ 31 - b)") (auto simp: BPB_def BSIZE_def)

declare balloc_loop.simps [simp del]

definition balloc :: "u32 \<Rightarrow> 'z fs_state_scheme \<Rightarrow> (u32 \<times> 'z fs_state_scheme) kres" where
  "balloc dev s = balloc_loop dev 0 s"

definition bfree :: "u32 \<Rightarrow> u32 \<Rightarrow> 'z fs_state_scheme \<Rightarrow> 'z fs_state_scheme kres" where
  "bfree dev b s =
     kbind (bread dev (BBLOCK b (sb s)) s) (\<lambda>(bp, s).
       let bi = unat b mod BPB; d = get_data bp s
       in if d ! (bi div 8) AND bmask bi = 0 then Inl (Panic ''freeing free block'')
          else kbind (log_write bp (set_data bp (d[bi div 8 := d ! (bi div 8) AND NOT (bmask bi)]) s))
                 (brelse bp))"

section \<open>Inodes\<close>

definition iinit :: "'z fs_state_scheme \<Rightarrow> 'z fs_state_scheme" where
  "iinit s = foldl (\<lambda>s i. upd_inode i (\<lambda>n. n\<lparr>i_lock := initsleeplock (i_lock n)\<rparr>) s) s [0..<NINODE]"

definition iget :: "u32 \<Rightarrow> u32 \<Rightarrow> 'z fs_state_scheme \<Rightarrow> (nat \<times> 'z fs_state_scheme) kres" where
  "iget dev inum s =
     (case find (\<lambda>i. 0 < i_ref (itable s i) \<and> i_dev (itable s i) = dev \<and> i_num (itable s i) = inum) [0..<NINODE] of
        Some i \<Rightarrow> Inr (i, upd_inode i (\<lambda>n. n\<lparr>i_ref := i_ref n + 1\<rparr>) s)
      | None \<Rightarrow>
          (case find (\<lambda>i. i_ref (itable s i) = 0) [0..<NINODE] of
             None \<Rightarrow> Inl (Panic ''iget: no inodes'')
           | Some i \<Rightarrow>
               Inr (i, upd_inode i (\<lambda>n. n\<lparr>i_dev := dev, i_num := inum, i_ref := 1, i_valid := False\<rparr>) s)))"

definition idup :: "nat \<Rightarrow> 'z fs_state_scheme \<Rightarrow> nat \<times> 'z fs_state_scheme" where
  "idup i s = (i, upd_inode i (\<lambda>n. n\<lparr>i_ref := i_ref n + 1\<rparr>) s)"

primrec ialloc_loop ::
  "u32 \<Rightarrow> u16 \<Rightarrow> nat list \<Rightarrow> 'z fs_state_scheme \<Rightarrow> (nat option \<times> 'z fs_state_scheme) kres" where
  "ialloc_loop dev typ [] s = Inr (None, s)"
| "ialloc_loop dev typ (inum # inums) s =
     kbind (bread dev (IBLOCK (of_nat inum) (sb s)) s) (\<lambda>(bp, s).
       let d = get_data bp s; k = inum mod IPB
       in if d_type (get_dinode d k) = 0
          then kbind (log_write bp (set_data bp
                 (put_dinode d k \<lparr>d_type = typ, d_major = 0, d_minor = 0, d_nlink = 0, d_size = 0,
                                  d_addrs = replicate (NDIRECT + 1) 0\<rparr>) s)) (\<lambda>s.
               kbind (brelse bp s) (\<lambda>s.
               kbind (iget dev (of_nat inum) s) (\<lambda>(i, s). Inr (Some i, s))))
          else kbind (brelse bp s) (ialloc_loop dev typ inums))"

definition ialloc ::
  "u32 \<Rightarrow> u16 \<Rightarrow> 'z fs_state_scheme \<Rightarrow> (nat option \<times> 'z fs_state_scheme) kres" where
  "ialloc dev typ s = ialloc_loop dev typ [1..<unat (sb_ninodes (sb s))] s"

definition iupdate :: "nat \<Rightarrow> 'z fs_state_scheme \<Rightarrow> 'z fs_state_scheme kres" where
  "iupdate i s =
     (let ip = itable s i
      in kbind (bread (i_dev ip) (IBLOCK (i_num ip) (sb s)) s) (\<lambda>(bp, s).
         kbind (log_write bp
                  (set_data bp (put_dinode (get_data bp s) (unat (i_num ip) mod IPB) (i_disk ip)) s))
           (brelse bp)))"

definition ilock :: "nat \<Rightarrow> 'z fs_state_scheme \<Rightarrow> 'z fs_state_scheme kres" where
  "ilock i s =
     (if i_ref (itable s i) < 1 then Inl (Panic ''ilock'')
      else kbind (acquiresleep (curpid s) (i_lock (itable s i))) (\<lambda>lk.
        let s = upd_inode i (\<lambda>n. n\<lparr>i_lock := lk\<rparr>) s; ip = itable s i
        in if i_valid ip then Inr s
           else kbind (bread (i_dev ip) (IBLOCK (i_num ip) (sb s)) s) (\<lambda>(bp, s).
             let dip = get_dinode (get_data bp s) (unat (i_num ip) mod IPB);
                 s = upd_inode i (\<lambda>n. n\<lparr>i_disk := dip\<rparr>) s
             in kbind (brelse bp s) (\<lambda>s.
               let s = upd_inode i (\<lambda>n. n\<lparr>i_valid := True\<rparr>) s
               in if d_type (i_disk (itable s i)) = 0 then Inl (Panic ''ilock: no type'') else Inr s))))"

definition iunlock :: "nat \<Rightarrow> 'z fs_state_scheme \<Rightarrow> 'z fs_state_scheme kres" where
  "iunlock i s =
     (if \<not> holdingsleep (curpid s) (i_lock (itable s i)) \<or> i_ref (itable s i) < 1
      then Inl (Panic ''iunlock'')
      else Inr (upd_inode i (\<lambda>n. n\<lparr>i_lock := releasesleep (i_lock n)\<rparr>) s))"

section \<open>Inode content\<close>

definition set_addr :: "nat \<Rightarrow> nat \<Rightarrow> u32 \<Rightarrow> 'z fs_state_scheme \<Rightarrow> 'z fs_state_scheme" where
  "set_addr i k a s = upd_dinode i (\<lambda>n. n\<lparr>d_addrs := (d_addrs n)[k := a]\<rparr>) s"

text \<open>\<^verbatim>\<open>if((addr = ip->addrs[k]) == 0) \<dots>\<close>: the block of slot \<open>k\<close>, allocated if there is none.\<close>

definition addr_slot :: "nat \<Rightarrow> nat \<Rightarrow> 'z fs_state_scheme \<Rightarrow> (u32 \<times> 'z fs_state_scheme) kres" where
  "addr_slot i k s =
     (let addr = d_addrs (i_disk (itable s i)) ! k
      in if addr \<noteq> 0 then Inr (addr, s)
         else kbind (balloc (i_dev (itable s i)) s) (\<lambda>(addr, s).
                Inr (addr, if addr = 0 then s else set_addr i k addr s)))"

definition bmap :: "nat \<Rightarrow> nat \<Rightarrow> 'z fs_state_scheme \<Rightarrow> (u32 \<times> 'z fs_state_scheme) kres" where
  "bmap i bn s =
     (if bn < NDIRECT then addr_slot i bn s
      else let bn = bn - NDIRECT
      in if bn < NINDIRECT
         then kbind (addr_slot i NDIRECT s) (\<lambda>(addr, s).
           if addr = 0 then Inr (0, s)
           else kbind (bread (i_dev (itable s i)) addr s) (\<lambda>(bp, s).
             let addr = get32 (get_data bp s) (4 * bn)
             in kbind
                  (if addr \<noteq> 0 then Inr (addr, s)
                   else kbind (balloc (i_dev (itable s i)) s) (\<lambda>(addr, s).
                     if addr = 0 then Inr (addr, s)
                     else kbind (log_write bp (set_data bp (put32 (get_data bp s) (4 * bn) addr) s))
                            (\<lambda>s. Inr (addr, s))))
                  (\<lambda>(addr, s). kbind (brelse bp s) (\<lambda>s. Inr (addr, s)))))
         else Inl (Panic ''bmap: out of range''))"

primrec free_direct :: "nat \<Rightarrow> nat list \<Rightarrow> 'z fs_state_scheme \<Rightarrow> 'z fs_state_scheme kres" where
  "free_direct i [] s = Inr s"
| "free_direct i (k # ks) s =
     (let a = d_addrs (i_disk (itable s i)) ! k
      in if a \<noteq> 0
         then kbind (bfree (i_dev (itable s i)) a s) (\<lambda>s. free_direct i ks (set_addr i k 0 s))
         else free_direct i ks s)"

primrec free_blocks :: "u32 \<Rightarrow> u32 list \<Rightarrow> 'z fs_state_scheme \<Rightarrow> 'z fs_state_scheme kres" where
  "free_blocks dev [] s = Inr s"
| "free_blocks dev (a # as) s =
     (if a \<noteq> 0 then kbind (bfree dev a s) (free_blocks dev as) else free_blocks dev as s)"

definition itrunc :: "nat \<Rightarrow> 'z fs_state_scheme \<Rightarrow> 'z fs_state_scheme kres" where
  "itrunc i s =
     kbind (free_direct i [0..<NDIRECT] s) (\<lambda>s.
     let a = d_addrs (i_disk (itable s i)) ! NDIRECT; dev = i_dev (itable s i)
     in kbind
          (if a \<noteq> 0
           then kbind (bread dev a s) (\<lambda>(bp, s).
                kbind (free_blocks dev (map (\<lambda>j. get32 (get_data bp s) (4 * j)) [0..<NINDIRECT]) s) (\<lambda>s.
                kbind (brelse bp s) (\<lambda>s.
                kbind (bfree dev a s) (\<lambda>s. Inr (set_addr i NDIRECT 0 s)))))
           else Inr s)
          (\<lambda>s. iupdate i (upd_dinode i (\<lambda>n. n\<lparr>d_size := 0\<rparr>) s)))"

definition iput :: "nat \<Rightarrow> 'z fs_state_scheme \<Rightarrow> 'z fs_state_scheme kres" where
  "iput i s =
     kbind
       (if i_ref (itable s i) = 1 \<and> i_valid (itable s i) \<and> d_nlink (i_disk (itable s i)) = 0
        then kbind (acquiresleep (curpid s) (i_lock (itable s i))) (\<lambda>lk.
             kbind (itrunc i (upd_inode i (\<lambda>n. n\<lparr>i_lock := lk\<rparr>) s)) (\<lambda>s.
             kbind (iupdate i (upd_dinode i (\<lambda>n. n\<lparr>d_type := 0\<rparr>) s)) (\<lambda>s.
               Inr (upd_inode i (\<lambda>n. n\<lparr>i_valid := False, i_lock := releasesleep (i_lock n)\<rparr>) s))))
        else Inr s)
       (\<lambda>s. Inr (upd_inode i (\<lambda>n. n\<lparr>i_ref := i_ref n - 1\<rparr>) s))"

definition iunlockput :: "nat \<Rightarrow> 'z fs_state_scheme \<Rightarrow> 'z fs_state_scheme kres" where
  "iunlockput i s = kbind (iunlock i s) (iput i)"

record stat =
  st_dev :: u32
  st_ino :: u32
  st_type :: u16
  st_nlink :: u16
  st_size :: u64

definition stati :: "nat \<Rightarrow> 'z fs_state_scheme \<Rightarrow> stat" where
  "stati i s =
     (let ip = itable s i
      in \<lparr>st_dev = i_dev ip, st_ino = i_num ip, st_type = d_type (i_disk ip), st_nlink = d_nlink (i_disk ip),
          st_size = ucast (d_size (i_disk ip))\<rparr>)"

section \<open>Reading and writing\<close>

text \<open>
  \<^verbatim>\<open>either_copyout\<close> and \<^verbatim>\<open>either_copyin\<close> of \<^verbatim>\<open>kernel/proc.c\<close>. The bytes for a kernel destination are
  returned; \<^verbatim>\<open>either_copyin\<close> returns the bytes that reached the kernel buffer, all \<open>n\<close> unless it
  fails. A kernel source is the list of the bytes it holds.
\<close>

datatype dest = UserDst u64 | KernelDst
datatype source = UserSrc u64 | KernelSrc "byte list"

fun either_copyout ::
  "dest \<Rightarrow> byte list \<Rightarrow> 'z fs_state_scheme \<Rightarrow> (int \<times> byte list \<times> 'z fs_state_scheme) kres" where
  "either_copyout (UserDst dst) bs s = kbind (copyout (upagetable s) dst bs s) (\<lambda>(r, s). Inr (r, [], s))"
| "either_copyout KernelDst bs s = Inr (0, bs, s)"

fun either_copyin :: "source \<Rightarrow> nat \<Rightarrow> 'z fs_state_scheme \<Rightarrow> (int \<times> byte list) kres" where
  "either_copyin (UserSrc src) n s = copyin (upagetable s) src n s"
| "either_copyin (KernelSrc bs) n s = (if length bs < n then Inl Undefined else Inr (0, take n bs))"

fun adv_dst :: "nat \<Rightarrow> dest \<Rightarrow> dest" where
  "adv_dst m (UserDst dst) = UserDst (dst + of_nat m)"
| "adv_dst m KernelDst = KernelDst"

fun adv_src :: "nat \<Rightarrow> source \<Rightarrow> source" where
  "adv_src m (UserSrc src) = UserSrc (src + of_nat m)"
| "adv_src m (KernelSrc bs) = KernelSrc (drop m bs)"

text \<open>\<^verbatim>\<open>m = min(n - tot, BSIZE - off%BSIZE)\<close>\<close>

definition blk_rest :: "nat \<Rightarrow> nat \<Rightarrow> nat" where
  "blk_rest left off = min left (BSIZE - off mod BSIZE)"

lemma blk_rest_step: "\<not> n \<le> tot \<Longrightarrow> n - (tot + blk_rest (n - tot) off) < n - tot"
  by (simp add: blk_rest_def BSIZE_def)

function readi_loop ::
  "nat \<Rightarrow> dest \<Rightarrow> nat \<Rightarrow> nat \<Rightarrow> nat \<Rightarrow> 'z fs_state_scheme \<Rightarrow> (int \<times> byte list \<times> 'z fs_state_scheme) kres" where
  "readi_loop i dst off tot n s =
     (if n \<le> tot then Inr (int tot, [], s)
      else kbind (bmap i (off div BSIZE) s) (\<lambda>(addr, s).
        if addr = 0 then Inr (int tot, [], s)
        else kbind (bread (i_dev (itable s i)) addr s) (\<lambda>(bp, s).
          let m = blk_rest (n - tot) off
          in kbind (either_copyout dst (take m (drop (off mod BSIZE) (get_data bp s))) s) (\<lambda>(r, ks, s).
             kbind (brelse bp s) (\<lambda>s.
               if r = -1 then Inr (-1, ks, s)
               else kbind (readi_loop i (adv_dst m dst) (off + m) (tot + m) n s) (\<lambda>(t, rest, s).
                      Inr (t, ks @ rest, s)))))))"
  by pat_completeness auto
termination
  by (relation "measure (\<lambda>(i, dst, off, tot, n, s). n - tot)") (auto simp: blk_rest_step)

declare readi_loop.simps [simp del]

definition readi ::
  "nat \<Rightarrow> dest \<Rightarrow> u32 \<Rightarrow> u32 \<Rightarrow> 'z fs_state_scheme \<Rightarrow> (int \<times> byte list \<times> 'z fs_state_scheme) kres" where
  "readi i dst off n s =
     (let sz = d_size (i_disk (itable s i))
      in if sz < off \<or> off + n < off then Inr (0, [], s)
         else let n = (if sz < off + n then sz - off else n)
              in readi_loop i dst (unat off) 0 (unat n) s)"

text \<open>A failing copy may have changed part of the buffer; it is then released without \<^verbatim>\<open>log_write\<close>.\<close>

function writei_loop ::
  "nat \<Rightarrow> source \<Rightarrow> nat \<Rightarrow> nat \<Rightarrow> nat \<Rightarrow> 'z fs_state_scheme \<Rightarrow> (nat \<times> nat \<times> 'z fs_state_scheme) kres" where
  "writei_loop i src off tot n s =
     (if n \<le> tot then Inr (tot, off, s)
      else kbind (bmap i (off div BSIZE) s) (\<lambda>(addr, s).
        if addr = 0 then Inr (tot, off, s)
        else kbind (bread (i_dev (itable s i)) addr s) (\<lambda>(bp, s).
          let m = blk_rest (n - tot) off
          in kbind (either_copyin src m s) (\<lambda>(r, bs).
             let s = set_data bp (put_bytes (get_data bp s) (off mod BSIZE) bs) s
             in if r = -1 then kbind (brelse bp s) (\<lambda>s. Inr (tot, off, s))
                else kbind (log_write bp s) (\<lambda>s.
                     kbind (brelse bp s) (\<lambda>s.
                       writei_loop i (adv_src m src) (off + m) (tot + m) n s))))))"
  by pat_completeness auto
termination
  by (relation "measure (\<lambda>(i, src, off, tot, n, s). n - tot)") (auto simp: blk_rest_step)

declare writei_loop.simps [simp del]

definition writei ::
  "nat \<Rightarrow> source \<Rightarrow> u32 \<Rightarrow> u32 \<Rightarrow> 'z fs_state_scheme \<Rightarrow> (int \<times> 'z fs_state_scheme) kres" where
  "writei i src off n s =
     (if d_size (i_disk (itable s i)) < off \<or> off + n < off then Inr (-1, s)
      else if MAXFILE * BSIZE < unat (off + n) then Inr (-1, s)
      else kbind (writei_loop i src (unat off) 0 (unat n) s) (\<lambda>(tot, off, s).
        let s = (if unat (d_size (i_disk (itable s i))) < off
                 then upd_dinode i (\<lambda>d. d\<lparr>d_size := of_nat off\<rparr>) s else s)
        in kbind (iupdate i s) (\<lambda>s. Inr (int tot, s))))"

section \<open>Directories\<close>

text \<open>\<^verbatim>\<open>strncmp\<close> on bytes that end where the list ends.\<close>

primrec strn_cmp :: "byte list \<Rightarrow> byte list \<Rightarrow> nat \<Rightarrow> int" where
  "strn_cmp p q 0 = 0"
| "strn_cmp p q (Suc n) =
     (let a = (if p = [] then 0 else hd p); b = (if q = [] then 0 else hd q)
      in if a \<noteq> 0 \<and> a = b then strn_cmp (tl p) (tl q) n else uint a - uint b)"

definition namecmp :: "byte list \<Rightarrow> byte list \<Rightarrow> int" where
  "namecmp p q = strn_cmp p q DIRSIZ"

text \<open>\<^verbatim>\<open>strncpy(de.name, name, DIRSIZ)\<close>\<close>

definition de_name :: "byte list \<Rightarrow> byte list" where
  "de_name name = take DIRSIZ (takeWhile (\<lambda>c. c \<noteq> 0) name @ replicate DIRSIZ 0)"

function dirlookup_loop ::
  "nat \<Rightarrow> byte list \<Rightarrow> nat \<Rightarrow> 'z fs_state_scheme \<Rightarrow> ((nat \<times> nat) option \<times> 'z fs_state_scheme) kres" where
  "dirlookup_loop dp name off s =
     (if unat (d_size (i_disk (itable s dp))) \<le> off then Inr (None, s)
      else kbind (readi dp KernelDst (of_nat off) 16 s) (\<lambda>(r, de, s).
        if r \<noteq> 16 then Inl (Panic ''dirlookup read'')
        else if get16 de 0 \<noteq> 0 \<and> namecmp name (drop 2 de) = 0
        then kbind (iget (i_dev (itable s dp)) (ucast (get16 de 0)) s) (\<lambda>(i, s). Inr (Some (i, off), s))
        else dirlookup_loop dp name (off + 16) s))"
  by pat_completeness auto
termination
proof (relation "measure (\<lambda>(dp, name, off, s). 2 ^ 32 - off)", goal_cases)
  case (2 dp name off s)
  then show ?case using unat_lt_pow [of "d_size (i_disk (itable s dp))"] by simp
qed simp

declare dirlookup_loop.simps [simp del]

text \<open>The result pairs the inode with \<^verbatim>\<open>*poff\<close>.\<close>

definition dirlookup ::
  "nat \<Rightarrow> byte list \<Rightarrow> 'z fs_state_scheme \<Rightarrow> ((nat \<times> nat) option \<times> 'z fs_state_scheme) kres" where
  "dirlookup dp name s =
     (if d_type (i_disk (itable s dp)) \<noteq> T_DIR then Inl (Panic ''dirlookup not DIR'')
      else dirlookup_loop dp name 0 s)"

function empty_dirent ::
  "nat \<Rightarrow> nat \<Rightarrow> 'z fs_state_scheme \<Rightarrow> (nat \<times> 'z fs_state_scheme) kres" where
  "empty_dirent dp off s =
     (if unat (d_size (i_disk (itable s dp))) \<le> off then Inr (off, s)
      else kbind (readi dp KernelDst (of_nat off) 16 s) (\<lambda>(r, de, s).
        if r \<noteq> 16 then Inl (Panic ''dirlink read'')
        else if get16 de 0 = 0 then Inr (off, s)
        else empty_dirent dp (off + 16) s))"
  by pat_completeness auto
termination
proof (relation "measure (\<lambda>(dp, off, s). 2 ^ 32 - off)", goal_cases)
  case (2 dp off s)
  then show ?case using unat_lt_pow [of "d_size (i_disk (itable s dp))"] by simp
qed simp

declare empty_dirent.simps [simp del]

definition dirlink ::
  "nat \<Rightarrow> byte list \<Rightarrow> u32 \<Rightarrow> 'z fs_state_scheme \<Rightarrow> (int \<times> 'z fs_state_scheme) kres" where
  "dirlink dp name inum s =
     kbind (dirlookup dp name s) (\<lambda>(found, s).
       case found of
         Some (i, _) \<Rightarrow> kbind (iput i s) (\<lambda>s. Inr (-1, s))
       | None \<Rightarrow>
           kbind (empty_dirent dp 0 s) (\<lambda>(off, s).
           kbind (writei dp (KernelSrc (le_bytes 2 (unat (ucast inum :: u16)) @ de_name name)) (of_nat off) 16 s)
             (\<lambda>(r, s). Inr (if r \<noteq> 16 then -1 else 0, s))))"

section \<open>Paths\<close>

definition slash :: byte where "slash = 47"

definition skipelem :: "byte list \<Rightarrow> (byte list \<times> byte list) option" where
  "skipelem path =
     (let path = dropWhile (\<lambda>c. c = slash) path
      in if path = [] then None
         else let elem = takeWhile (\<lambda>c. c \<noteq> slash) path;
                  path = dropWhile (\<lambda>c. c \<noteq> slash) path;
                  name = (if DIRSIZ \<le> length elem then take DIRSIZ elem else elem)
              in Some (name, dropWhile (\<lambda>c. c = slash) path))"

lemma skipelem_shorter: "skipelem path = Some (name, rest) \<Longrightarrow> length rest < length path"
proof -
  assume a: "skipelem path = Some (name, rest)"
  let ?p = "dropWhile (\<lambda>c. c = slash) path" and ?q = "dropWhile (\<lambda>c. c \<noteq> slash) (dropWhile (\<lambda>c. c = slash) path)"
  from a have ne: "?p \<noteq> []" and rest: "rest = dropWhile (\<lambda>c. c = slash) ?q"
    by (auto simp: skipelem_def Let_def split: if_splits)
  have "hd ?p \<noteq> slash" using hd_dropWhile [OF ne] by simp
  with ne have "length ?q < length ?p"
    using length_dropWhile_le [of _ "tl ?p"] by (cases ?p) (auto simp: less_Suc_eq_le)
  moreover have "length rest \<le> length ?q" unfolding rest by (rule length_dropWhile_le)
  moreover have "length ?p \<le> length path" by (rule length_dropWhile_le)
  ultimately show ?thesis by linarith
qed

text \<open>The loop of \<^verbatim>\<open>namex\<close>; with \<^verbatim>\<open>nameiparent\<close> the result also carries the final name.\<close>

function namex_loop ::
  "bool \<Rightarrow> nat \<Rightarrow> byte list \<Rightarrow> byte list \<Rightarrow> 'z fs_state_scheme \<Rightarrow>
   ((nat \<times> byte list) option \<times> 'z fs_state_scheme) kres" where
  "namex_loop parent ip name path s =
     (case skipelem path of
        None \<Rightarrow> if parent then kbind (iput ip s) (\<lambda>s. Inr (None, s)) else Inr (Some (ip, name), s)
      | Some (name, path) \<Rightarrow>
          kbind (ilock ip s) (\<lambda>s.
            if d_type (i_disk (itable s ip)) \<noteq> T_DIR then kbind (iunlockput ip s) (\<lambda>s. Inr (None, s))
            else if parent \<and> path = [] then kbind (iunlock ip s) (\<lambda>s. Inr (Some (ip, name), s))
            else kbind (dirlookup ip name s) (\<lambda>(found, s).
              case found of
                None \<Rightarrow> kbind (iunlockput ip s) (\<lambda>s. Inr (None, s))
              | Some (next, _) \<Rightarrow> kbind (iunlockput ip s) (\<lambda>s. namex_loop parent next name path s))))"
  by pat_completeness auto
termination
  by (relation "measure (\<lambda>(parent, ip, name, path, s). length path)") (auto dest: skipelem_shorter)

declare namex_loop.simps [simp del]

definition namex ::
  "byte list \<Rightarrow> bool \<Rightarrow> 'z fs_state_scheme \<Rightarrow> ((nat \<times> byte list) option \<times> 'z fs_state_scheme) kres" where
  "namex path parent s =
     kbind (if path \<noteq> [] \<and> hd path = slash then iget ROOTDEV ROOTINO s else Inr (idup (cwd s) s))
       (\<lambda>(ip, s). namex_loop parent ip [] path s)"

definition namei :: "byte list \<Rightarrow> 'z fs_state_scheme \<Rightarrow> (nat option \<times> 'z fs_state_scheme) kres" where
  "namei path s = kbind (namex path False s) (\<lambda>(r, s). Inr (map_option fst r, s))"

definition nameiparent ::
  "byte list \<Rightarrow> 'z fs_state_scheme \<Rightarrow> ((nat \<times> byte list) option \<times> 'z fs_state_scheme) kres" where
  "nameiparent path s = namex path True s"

end
