(* ===== verification/Xv6_Proc.thy ===== *)
theory Xv6_Proc
  imports Xv6_Fs
begin

text \<open>
  The process table and the operations of \<^verbatim>\<open>kernel/proc.c\<close> that need nothing but it: sleeping and
  waking, killing, the scheduler. The state of the whole kernel is declared here, because the
  modules above the file system share it. A pointer to a \<^verbatim>\<open>struct proc\<close> is an index into
  \<^verbatim>\<open>proc[]\<close>, one to a \<^verbatim>\<open>struct file\<close> an index into \<^verbatim>\<open>ftable\<close>, one to a \<^verbatim>\<open>struct pipe\<close> the address of
  its page. A sleep channel is an address in the code and a constructor per kind of address
  here. \<open>cur\<close> is the process \<^verbatim>\<open>myproc()\<close> returns; \<open>curpid\<close>, \<open>upagetable\<close> and \<open>cwd\<close> repeat its
  fields for the layers below, and the scheduler sets them.
\<close>

section \<open>State\<close>

definition NOFILE :: nat where "NOFILE = 16"
definition NFILE :: nat where "NFILE = 100"
definition NDEV :: nat where "NDEV = 10"

datatype procstate = UNUSED | USED | SLEEPING | RUNNABLE | RUNNING | ZOMBIE

datatype chan = ChanProc nat | ChanPipeRead u64 | ChanPipeWrite u64 | ChanTicks | ChanCons | ChanUart

record proc =
  p_state :: procstate
  p_chan :: "chan option"
  p_killed :: bool
  p_xstate :: int
  p_pid :: int
  p_parent :: "nat option"
  p_kstack :: u64
  p_sz :: u64
  p_pagetable :: u64
  p_trapframe :: u64
  p_context :: "u64 list"   \<comment> \<open>ra, sp, s0 to s11\<close>
  p_ofile :: "nat option list"
  p_cwd :: "nat option"
  p_name :: "byte list"

datatype filetype = FD_NONE | FD_PIPE | FD_INODE | FD_DEVICE

record kfile =
  f_type :: filetype
  f_ref :: int
  f_readable :: bool
  f_writable :: bool
  f_pipe :: u64
  f_ip :: nat
  f_off :: u32
  f_major :: u16

record pipe =
  pi_data :: "byte list"
  pi_nread :: u32
  pi_nwrite :: u32
  pi_readopen :: bool
  pi_writeopen :: bool

record console =
  cons_buf :: "byte list"
  cons_r :: u32
  cons_w :: u32
  cons_e :: u32

text \<open>
  The UART: its transmit ring, and the device as the driver sees it. \<open>u_lsr\<close> holds the answers
  that the following reads of the transmit-idle bit of LSR give (when none is left the
  device stays busy), \<open>u_rx\<close> the received bytes not yet read, \<open>u_out\<close> what was written to THR.
\<close>

record uart =
  tx_buf :: "byte list"
  tx_w :: u64
  tx_r :: u64
  u_lsr :: "bool list"
  u_rx :: "byte list"
  u_out :: "byte list"

record kstate = fs_state +
  procs :: "nat \<Rightarrow> proc"
  cur :: nat
  initproc :: nat
  nextpid :: int
  ticks :: u32
  ftable :: "nat \<Rightarrow> kfile"
  pipes :: "u64 \<Rightarrow> pipe"
  cons :: console
  uart :: uart

text \<open>The static data at the start: zero, except for \<^verbatim>\<open>nextpid\<close>.\<close>

definition zero_proc :: proc where
  "zero_proc =
     \<lparr>p_state = UNUSED, p_chan = None, p_killed = False, p_xstate = 0, p_pid = 0, p_parent = None,
      p_kstack = 0, p_sz = 0, p_pagetable = 0, p_trapframe = 0, p_context = replicate 14 0,
      p_ofile = replicate NOFILE None, p_cwd = None, p_name = replicate 16 0\<rparr>"

definition zero_file :: kfile where
  "zero_file =
     \<lparr>f_type = FD_NONE, f_ref = 0, f_readable = False, f_writable = False, f_pipe = 0, f_ip = 0,
      f_off = 0, f_major = 0\<rparr>"

definition zero_inode :: inode where
  "zero_inode =
     \<lparr>i_dev = 0, i_num = 0, i_ref = 0, i_lock = \<lparr>sl_locked = 0, sl_pid = 0\<rparr>, i_valid = False,
      i_disk = \<lparr>d_type = 0, d_major = 0, d_minor = 0, d_nlink = 0, d_size = 0, d_addrs = replicate 13 0\<rparr>\<rparr>"

definition start_state :: "(u32 \<Rightarrow> byte list) \<Rightarrow> kstate" where
  "start_state d =
     \<lparr>pmem = (\<lambda>_. 0), freelist = 0, curpid = 0, bufs = (\<lambda>_. zero_buf), disk = d, dwrites = [],
      log_start = 0, log_size = 0, outstanding = 0, committing = False, log_dev = 0, lh_n = 0,
      lh_block = replicate LOGSIZE 0,
      sb = \<lparr>sb_magic = 0, sb_size = 0, sb_nblocks = 0, sb_ninodes = 0, sb_nlog = 0, sb_logstart = 0,
            sb_inodestart = 0, sb_bmapstart = 0\<rparr>,
      itable = (\<lambda>_. zero_inode), upagetable = 0, cwd = 0,
      procs = (\<lambda>_. zero_proc), cur = 0, initproc = 0, nextpid = 1, ticks = 0,
      ftable = (\<lambda>_. zero_file),
      pipes = (\<lambda>_. \<lparr>pi_data = replicate 512 0, pi_nread = 0, pi_nwrite = 0, pi_readopen = False,
                     pi_writeopen = False\<rparr>),
      cons = \<lparr>cons_buf = replicate 128 0, cons_r = 0, cons_w = 0, cons_e = 0\<rparr>,
      uart = \<lparr>tx_buf = replicate 32 0, tx_w = 0, tx_r = 0, u_lsr = [], u_rx = [], u_out = []\<rparr>\<rparr>"

definition myproc :: "'z kstate_scheme \<Rightarrow> proc" where
  "myproc s = procs s (cur s)"

definition upd_proc :: "nat \<Rightarrow> (proc \<Rightarrow> proc) \<Rightarrow> 'z kstate_scheme \<Rightarrow> 'z kstate_scheme" where
  "upd_proc i f s = s\<lparr>procs := (procs s)(i := f (procs s i))\<rparr>"

section \<open>Start, process identifiers\<close>

definition procinit :: "'z kstate_scheme \<Rightarrow> 'z kstate_scheme" where
  "procinit s = foldl (\<lambda>s i. upd_proc i (\<lambda>p. p\<lparr>p_state := UNUSED, p_kstack := KSTACK i\<rparr>) s) s [0..<NPROC]"

text \<open>\<^verbatim>\<open>nextpid\<close> is an \<^verbatim>\<open>int\<close>, whose overflow is undefined.\<close>

definition allocpid :: "'z kstate_scheme \<Rightarrow> (int \<times> 'z kstate_scheme) kres" where
  "allocpid s =
     (if nextpid s + 1 < 2 ^ 31 then Inr (nextpid s, s\<lparr>nextpid := nextpid s + 1\<rparr>) else Inl Undefined)"

section \<open>Sleeping, waking, killing\<close>

text \<open>
  \<^verbatim>\<open>sleep(chan, lk)\<close> up to the call of \<^verbatim>\<open>sched\<close>, and the part after it.
\<close>

definition sleep_enter :: "chan \<Rightarrow> 'z kstate_scheme \<Rightarrow> 'z kstate_scheme" where
  "sleep_enter c s = upd_proc (cur s) (\<lambda>p. p\<lparr>p_chan := Some c, p_state := SLEEPING\<rparr>) s"

definition sleep_leave :: "'z kstate_scheme \<Rightarrow> 'z kstate_scheme" where
  "sleep_leave s = upd_proc (cur s) (\<lambda>p. p\<lparr>p_chan := None\<rparr>) s"

primrec wakeup_loop :: "chan \<Rightarrow> nat list \<Rightarrow> 'z kstate_scheme \<Rightarrow> 'z kstate_scheme" where
  "wakeup_loop c [] s = s"
| "wakeup_loop c (i # is) s =
     wakeup_loop c is
       (if i \<noteq> cur s \<and> p_state (procs s i) = SLEEPING \<and> p_chan (procs s i) = Some c
        then upd_proc i (\<lambda>p. p\<lparr>p_state := RUNNABLE\<rparr>) s else s)"

definition wakeup :: "chan \<Rightarrow> 'z kstate_scheme \<Rightarrow> 'z kstate_scheme" where
  "wakeup c s = wakeup_loop c [0..<NPROC] s"

primrec kill_loop :: "int \<Rightarrow> nat list \<Rightarrow> 'z kstate_scheme \<Rightarrow> int \<times> 'z kstate_scheme" where
  "kill_loop pid [] s = (-1, s)"
| "kill_loop pid (i # is) s =
     (if p_pid (procs s i) = pid
      then (0, upd_proc i (\<lambda>p. p\<lparr>p_killed := True,
                 p_state := (if p_state p = SLEEPING then RUNNABLE else p_state p)\<rparr>) s)
      else kill_loop pid is s)"

definition kill :: "int \<Rightarrow> 'z kstate_scheme \<Rightarrow> int \<times> 'z kstate_scheme" where
  "kill pid s = kill_loop pid [0..<NPROC] s"

definition setkilled :: "nat \<Rightarrow> 'z kstate_scheme \<Rightarrow> 'z kstate_scheme" where
  "setkilled i s = upd_proc i (\<lambda>p. p\<lparr>p_killed := True\<rparr>) s"

definition killed :: "nat \<Rightarrow> 'z kstate_scheme \<Rightarrow> bool" where
  "killed i s = p_killed (procs s i)"

primrec reparent_loop :: "nat \<Rightarrow> nat list \<Rightarrow> 'z kstate_scheme \<Rightarrow> 'z kstate_scheme" where
  "reparent_loop p [] s = s"
| "reparent_loop p (i # is) s =
     reparent_loop p is
       (if p_parent (procs s i) = Some p
        then wakeup (ChanProc (initproc s)) (upd_proc i (\<lambda>q. q\<lparr>p_parent := Some (initproc s)\<rparr>) s)
        else s)"

definition reparent :: "nat \<Rightarrow> 'z kstate_scheme \<Rightarrow> 'z kstate_scheme" where
  "reparent p s = reparent_loop p [0..<NPROC] s"

section \<open>Frames of sleeping and waking\<close>

lemma wakeup_loop_frame:
  "wakeup_loop c is s = s\<lparr>procs := procs (wakeup_loop c is s)\<rparr>"
proof (induction "is" arbitrary: s)
  case Nil
  then show ?case by simp
next
  case (Cons i "is")
  show ?case
    using Cons.IH [of "upd_proc i (\<lambda>p. p\<lparr>p_state := RUNNABLE\<rparr>) s"] Cons.IH [of s]
    by (simp add: upd_proc_def)
qed

lemma wakeup_frame: "wakeup c s = s\<lparr>procs := procs (wakeup c s)\<rparr>"
  unfolding wakeup_def by (rule wakeup_loop_frame)

lemma wakeup_uart [simp]: "uart (wakeup c s) = uart s"
  by (subst wakeup_frame) simp

lemma wakeup_simps [simp]:
  "pmem (wakeup c s) = pmem s" "freelist (wakeup c s) = freelist s" "cur (wakeup c s) = cur s"
  "pipes (wakeup c s) = pipes s" "ftable (wakeup c s) = ftable s" "initproc (wakeup c s) = initproc s"
  "nextpid (wakeup c s) = nextpid s" "cons (wakeup c s) = cons s"
  by (subst wakeup_frame, simp)+

lemma procs_wakeup_loop:
  "procs (wakeup_loop c is s) i =
     (if i \<in> set is \<and> i \<noteq> cur s \<and> p_state (procs s i) = SLEEPING \<and> p_chan (procs s i) = Some c
      then (procs s i)\<lparr>p_state := RUNNABLE\<rparr> else procs s i)"
  by (induction "is" arbitrary: s) (simp_all add: upd_proc_def)

lemma procs_wakeup:
  "procs (wakeup c s) i =
     (if i < NPROC \<and> i \<noteq> cur s \<and> p_state (procs s i) = SLEEPING \<and> p_chan (procs s i) = Some c
      then (procs s i)\<lparr>p_state := RUNNABLE\<rparr> else procs s i)"
  by (simp add: wakeup_def procs_wakeup_loop)

text \<open>Operations on memory alone leave the rest of the kernel state as it is.\<close>

lemma kmem_more_frame:
  fixes s s' :: "'z kstate_scheme"
  assumes "kmem_state.more s' = kmem_state.more s"
  shows "pipes s' = pipes s" "procs s' = procs s" "cur s' = cur s" "ftable s' = ftable s"
    "cons s' = cons s" "uart s' = uart s" "upagetable s' = upagetable s" "curpid s' = curpid s"
  using assms by (cases s; cases s'; simp)+

section \<open>Scheduling\<close>

text \<open>
  \<^verbatim>\<open>sched\<close> checks, for the CPU it runs on, that the caller holds only \<^verbatim>\<open>p->lock\<close>, has changed its
  state and has interrupts off.
\<close>

definition sched :: "bool \<Rightarrow> cpu \<Rightarrow> 'z kstate_scheme \<Rightarrow> 'z kstate_scheme kres" where
  "sched holds c s =
     (if \<not> holds then Inl (Panic ''sched p->lock'')
      else if noff c \<noteq> 1 then Inl (Panic ''sched locks'')
      else if p_state (myproc s) = RUNNING then Inl (Panic ''sched RUNNING'')
      else if sie c then Inl (Panic ''sched interruptible'')
      else Inr s)"

definition yield :: "cpu \<Rightarrow> 'z kstate_scheme \<Rightarrow> 'z kstate_scheme kres" where
  "yield c s = sched True c (upd_proc (cur s) (\<lambda>p. p\<lparr>p_state := RUNNABLE\<rparr>) s)"

text \<open>
  One pass of \<^verbatim>\<open>scheduler\<close> over the table. \<open>run i s\<close> is the state in which process \<open>i\<close>, switched
  to in \<open>s\<close>, gives the CPU back.
\<close>

definition switch_to :: "nat \<Rightarrow> 'z kstate_scheme \<Rightarrow> 'z kstate_scheme" where
  "switch_to i s =
     (let s = upd_proc i (\<lambda>p. p\<lparr>p_state := RUNNING\<rparr>) s; p = procs s i
      in s\<lparr>cur := i, curpid := p_pid p, upagetable := p_pagetable p,
          cwd := (case p_cwd p of None \<Rightarrow> cwd s | Some d \<Rightarrow> d)\<rparr>)"

primrec sched_pass ::
  "(nat \<Rightarrow> 'z kstate_scheme \<Rightarrow> 'z kstate_scheme) \<Rightarrow> nat list \<Rightarrow> bool \<Rightarrow> 'z kstate_scheme \<Rightarrow>
   bool \<times> 'z kstate_scheme" where
  "sched_pass run [] found s = (found, s)"
| "sched_pass run (i # is) found s =
     (if p_state (procs s i) = RUNNABLE then sched_pass run is True (run i (switch_to i s))
      else sched_pass run is found s)"

definition scheduler ::
  "(nat \<Rightarrow> 'z kstate_scheme \<Rightarrow> 'z kstate_scheme) \<Rightarrow> 'z kstate_scheme \<Rightarrow> bool \<times> 'z kstate_scheme" where
  "scheduler run s = sched_pass run [0..<NPROC] False s"

end
