(* ===== verification/Xv6_Printf.thy ===== *)
theory Xv6_Printf
  imports Xv6_Prelude
begin

text \<open>
  Formatted output: \<^verbatim>\<open>kernel/printf.c\<close> and \<^verbatim>\<open>user/printf.c\<close>, as functions from the format and
  the arguments to the bytes that are put out, in order; and \<^verbatim>\<open>atoi\<close> of \<^verbatim>\<open>user/ulib.c\<close>, which reads
  decimal numbers back. A C string is the list of its bytes without the final NUL. The
  lemmas show that the digit buffers never overflow, that the numbers printed are the
  numbers passed, and where the two versions lose information.
\<close>

section \<open>Numbers\<close>

text \<open>
  The characters \<^verbatim>\<open>digits[x % base]\<close>, \<^verbatim>\<open>digits[x / base % base]\<close>, \<dots> of the \<^verbatim>\<open>do\<close> loops; \<open>a\<close> is the
  letter that stands for ten, \<^verbatim>\<open>a\<close> in the kernel and \<^verbatim>\<open>A\<close> in the user library.
\<close>

definition digits :: "byte \<Rightarrow> nat \<Rightarrow> byte" where
  "digits a d = (if d < 10 then 48 + of_nat d else a + of_nat (d - 10))"

function digit_loop :: "byte \<Rightarrow> nat \<Rightarrow> nat \<Rightarrow> byte list" where
  "digit_loop a base x =
     digits a (x mod base) # (if base \<le> 1 \<or> x div base = 0 then [] else digit_loop a base (x div base))"
  by pat_completeness auto
termination
  by (relation "measure (\<lambda>(a, base, x). x)") (auto intro!: div_less_dividend gr0I)

declare digit_loop.simps [simp del]

definition neg64 :: "u64 \<Rightarrow> u64 kres" where
  "neg64 x = (if x = 0x8000000000000000 then Inl Undefined else Inr (- x))"

definition print_buf :: "byte \<Rightarrow> nat \<Rightarrow> bool \<Rightarrow> nat \<Rightarrow> byte list kres" where
  "print_buf a base neg x =
     (let buf = digit_loop a base x @ (if neg then [45] else [])
      in if base = 0 \<or> 20 < length buf then Inl Undefined else Inr (rev buf))"

definition printint :: "u64 \<Rightarrow> nat \<Rightarrow> bool \<Rightarrow> byte list kres" where
  "printint xx base sign =
     (let neg = sign \<and> xx <s 0
      in kbind (if neg then neg64 xx else Inr xx) (\<lambda>x. print_buf 97 base neg (unat x)))"

definition printint_u :: "u64 \<Rightarrow> nat \<Rightarrow> bool \<Rightarrow> byte list kres" where
  "printint_u xx base sg =
     (let neg = sg \<and> xx <s 0
      in kbind (if neg then neg64 xx else Inr xx) (\<lambda>x. print_buf 65 base neg (unat (ucast x :: u32))))"

primrec hex_loop :: "byte \<Rightarrow> nat \<Rightarrow> u64 \<Rightarrow> byte list" where
  "hex_loop a 0 x = []"
| "hex_loop a (Suc n) x = digits a (unat (drop_bit 60 x)) # hex_loop a n (push_bit 4 x)"

definition printptr :: "u64 \<Rightarrow> byte list" where
  "printptr x = [48, 120] @ hex_loop 97 16 x"

definition printptr_u :: "u64 \<Rightarrow> byte list" where
  "printptr_u x = [48, 120] @ hex_loop 65 16 x"

section \<open>Formats\<close>

text \<open>
  The variable arguments, as the caller passed them; reading one at another type is
  undefined. A string argument may be the null pointer.
\<close>

datatype varg = VInt u32 | VLong u64 | VStr "byte list option"

datatype conv = ConvInt nat bool | ConvLong nat bool | ConvPtr | ConvStr | ConvPercent | ConvEnd | ConvUnknown

text \<open>The conversion that follows \<^verbatim>\<open>%\<close>, and by how much the loop advances \<^verbatim>\<open>i\<close> beyond its first character.\<close>

definition conv_of :: "byte \<Rightarrow> byte \<Rightarrow> byte \<Rightarrow> conv \<times> nat" where
  "conv_of c0 c1 c2 =
     (if c0 = 100 then (ConvInt 10 True, 0)
      else if c0 = 108 \<and> c1 = 100 then (ConvLong 10 True, 1)
      else if c0 = 108 \<and> c1 = 108 \<and> c2 = 100 then (ConvLong 10 True, 2)
      else if c0 = 117 then (ConvInt 10 False, 0)
      else if c0 = 108 \<and> c1 = 117 then (ConvLong 10 False, 1)
      else if c0 = 108 \<and> c1 = 108 \<and> c2 = 117 then (ConvLong 10 False, 2)
      else if c0 = 120 then (ConvInt 16 False, 0)
      else if c0 = 108 \<and> c1 = 120 then (ConvLong 16 False, 1)
      else if c0 = 108 \<and> c1 = 108 \<and> c2 = 120 then (ConvLong 16 False, 2)
      else if c0 = 112 then (ConvPtr, 0)
      else if c0 = 115 then (ConvStr, 0)
      else if c0 = 37 then (ConvPercent, 0)
      else if c0 = 0 then (ConvEnd, 0)
      else (ConvUnknown, 0))"

fun va_int :: "varg list \<Rightarrow> (u64 \<times> varg list) kres" where
  "va_int (VInt w # as) = Inr (scast w, as)"
| "va_int _ = Inl Undefined"

fun va_uint64 :: "varg list \<Rightarrow> (u64 \<times> varg list) kres" where
  "va_uint64 (VLong w # as) = Inr (w, as)"
| "va_uint64 _ = Inl Undefined"

fun va_str :: "varg list \<Rightarrow> (byte list option \<times> varg list) kres" where
  "va_str (VStr s # as) = Inr (s, as)"
| "va_str _ = Inl Undefined"

definition null_str :: "byte list" where
  "null_str = [40, 110, 117, 108, 108, 41]"

fun conv_out ::
  "(u64 \<Rightarrow> nat \<Rightarrow> bool \<Rightarrow> byte list kres) \<Rightarrow> (u64 \<Rightarrow> byte list) \<Rightarrow> conv \<Rightarrow> byte \<Rightarrow> varg list \<Rightarrow>
   (byte list \<times> varg list) kres" where
  "conv_out pint pptr (ConvInt base sg) c0 as =
     kbind (va_int as) (\<lambda>(x, as). kbind (pint x base sg) (\<lambda>out. Inr (out, as)))"
| "conv_out pint pptr (ConvLong base sg) c0 as =
     kbind (va_uint64 as) (\<lambda>(x, as). kbind (pint x base sg) (\<lambda>out. Inr (out, as)))"
| "conv_out pint pptr ConvPtr c0 as = kbind (va_uint64 as) (\<lambda>(x, as). Inr (pptr x, as))"
| "conv_out pint pptr ConvStr c0 as =
     kbind (va_str as) (\<lambda>(s, as). Inr (case s of None \<Rightarrow> null_str | Some cs \<Rightarrow> cs, as))"
| "conv_out pint pptr ConvPercent c0 as = Inr ([37], as)"
| "conv_out pint pptr ConvEnd c0 as = Inr ([], as)"
| "conv_out pint pptr ConvUnknown c0 as = Inr ([37, c0], as)"

definition byte_at :: "byte list \<Rightarrow> nat \<Rightarrow> byte" where
  "byte_at cs k = (if k < length cs then cs ! k else 0)"

definition conv_at :: "byte list \<Rightarrow> conv \<times> nat" where
  "conv_at r =
     (let c0 = byte_at r 0; c1 = (if c0 \<noteq> 0 then byte_at r 1 else 0);
          c2 = (if c1 \<noteq> 0 then byte_at r 2 else 0)
      in conv_of c0 c1 c2)"

text \<open>\<^verbatim>\<open>printf\<close> of the kernel: what it passes to \<^verbatim>\<open>consputc\<close>.\<close>

function printf_loop :: "byte list \<Rightarrow> varg list \<Rightarrow> byte list kres" where
  "printf_loop [] as = Inr []"
| "printf_loop (cx # r) as =
     (if cx \<noteq> 37 then kbind (printf_loop r as) (\<lambda>out. Inr (cx # out))
      else let (cv, k) = conv_at r
        in if cv = ConvEnd then Inr []
           else kbind (conv_out printint printptr cv (byte_at r 0) as) (\<lambda>(out, as).
                kbind (printf_loop (drop (k + 1) r) as) (\<lambda>rest. Inr (out @ rest))))"
  by pat_completeness auto
termination
  by (relation "measure (\<lambda>(fmt, as). length fmt)") auto

text \<open>
  \<^verbatim>\<open>vprintf\<close> of the user library: what it writes, byte by byte, to its file descriptor. The flag
  is the variable \<^verbatim>\<open>state\<close>: whether the last character was an unconsumed \<^verbatim>\<open>%\<close>.
\<close>

function vprintf :: "bool \<Rightarrow> byte list \<Rightarrow> varg list \<Rightarrow> byte list kres" where
  "vprintf state [] as = Inr []"
| "vprintf state (c0 # r) as =
     (if \<not> state
      then if c0 = 37 then vprintf True r as else kbind (vprintf False r as) (\<lambda>out. Inr (c0 # out))
      else let (cv, k) = conv_at (c0 # r)
        in kbind (conv_out printint_u printptr_u cv c0 as) (\<lambda>(out, as).
           kbind (vprintf False (drop k r) as) (\<lambda>rest. Inr (out @ rest))))"
  by pat_completeness auto
termination
  by (relation "measure (\<lambda>(st, fmt, as). length fmt)") auto

text \<open>\<^verbatim>\<open>atoi\<close>: the arithmetic is on \<^verbatim>\<open>int\<close>, whose overflow is undefined.\<close>

fun atoi_loop :: "int \<Rightarrow> byte list \<Rightarrow> int kres" where
  "atoi_loop n [] = Inr n"
| "atoi_loop n (c # cs) =
     (if 48 \<le> c \<and> c \<le> 57
      then let n' = n * 10 + int (unat c) - 48
        in if 2 ^ 31 \<le> n * 10 + int (unat c) then Inl Undefined else atoi_loop n' cs
      else Inr n)"

definition atoi :: "byte list \<Rightarrow> int kres" where
  "atoi cs = atoi_loop 0 cs"

section \<open>The digits of a number\<close>

text \<open>The number that decimal digits, most significant first, stand for; with a sign.\<close>

definition dec_val :: "nat \<Rightarrow> byte list \<Rightarrow> nat" where
  "dec_val n cs = foldl (\<lambda>n c. n * 10 + (unat c - 48)) n cs"

definition dec_int :: "byte list \<Rightarrow> int" where
  "dec_int cs = (if cs \<noteq> [] \<and> hd cs = 45 then - int (dec_val 0 (tl cs)) else int (dec_val 0 cs))"

lemma unat_digit: "d < 10 \<Longrightarrow> unat (digits a d) = 48 + d"
  by (simp add: digits_def unat_add_of_nat)

lemma digit_range: "d < 10 \<Longrightarrow> 48 \<le> digits a d \<and> digits a d \<le> 57"
  by (simp add: word_le_nat_alt unat_digit)

lemma dec_val_digits: "dec_val n (rev (digit_loop a 10 x)) = n * 10 ^ length (digit_loop a 10 x) + x"
proof (induction x rule: less_induct)
  case (less x)
  show ?case
  proof (cases "x div 10 = 0")
    case True
    then have "digit_loop a 10 x = [digits a x]" by (subst digit_loop.simps) auto
    moreover have "x < 10" using True by (simp add: div_eq_0_iff)
    ultimately show ?thesis by (simp add: dec_val_def unat_digit)
  next
    case False
    then have e: "digit_loop a 10 x = digits a (x mod 10) # digit_loop a 10 (x div 10)"
      by (subst digit_loop.simps) simp
    have "x div 10 < x" using False by (intro div_less_dividend) (auto intro: gr0I)
    from less [OF this] show ?thesis
      unfolding e by (simp add: dec_val_def unat_digit algebra_simps)
  qed
qed

lemma length_digits: "1 < base \<Longrightarrow> x < base ^ k \<Longrightarrow> 0 < k \<Longrightarrow> length (digit_loop a base x) \<le> k"
proof (induction k arbitrary: x)
  case (Suc k)
  show ?case
  proof (cases "x div base = 0")
    case True
    then have "digit_loop a base x = [digits a (x mod base)]" by (subst digit_loop.simps) simp
    then show ?thesis by simp
  next
    case False
    have "x div base < base ^ k" using Suc.prems by (simp add: less_mult_imp_div_less mult.commute)
    moreover from this False have "0 < k" by (cases k) auto
    ultimately have "length (digit_loop a base (x div base)) \<le> k" using Suc by simp
    moreover have "digit_loop a base x = digits a (x mod base) # digit_loop a base (x div base)"
      using False Suc.prems by (subst digit_loop.simps) simp
    ultimately show ?thesis by simp
  qed
qed simp

lemma digit_loop_range: "c \<in> set (digit_loop a 10 x) \<Longrightarrow> 48 \<le> c \<and> c \<le> 57"
proof (induction x rule: less_induct)
  case (less x)
  show ?case
  proof (cases "x div 10 = 0")
    case True
    then have "digit_loop a 10 x = [digits a (x mod 10)]" by (subst digit_loop.simps) simp
    then show ?thesis using less.prems digit_range [of "x mod 10" a] by simp
  next
    case False
    then have "digit_loop a 10 x = digits a (x mod 10) # digit_loop a 10 (x div 10)"
      by (subst digit_loop.simps) simp
    moreover have "x div 10 < x" using False by (intro div_less_dividend) (auto intro: gr0I)
    ultimately show ?thesis using less digit_range [of "x mod 10" a] by auto
  qed
qed

lemma digit_loop_nonempty: "digit_loop a base x \<noteq> []"
  by (subst digit_loop.simps) simp

lemma print_buf_dec:
  assumes "x < 10 ^ (if neg then 19 else 20)"
  shows "\<exists>out. print_buf a 10 neg x = Inr out \<and> length out \<le> 20 \<and>
     dec_int out = (if neg then - int x else int x)"
proof -
  let ?d = "digit_loop a 10 x"
  have len: "length ?d \<le> (if neg then 19 else 20)" using assms by (intro length_digits) (auto split: if_splits)
  have v: "dec_val 0 (rev ?d) = x" by (simp add: dec_val_digits)
  have h: "hd (rev ?d) \<noteq> 45"
  proof
    assume "hd (rev ?d) = 45"
    then have "(45 :: byte) \<in> set (rev ?d)" using hd_in_set [of "rev ?d"] digit_loop_nonempty [of a 10 x] by auto
    then show False using digit_loop_range [of 45 a x] by simp
  qed
  show ?thesis using len v h digit_loop_nonempty [of a 10 x]
    by (cases neg) (auto simp: print_buf_def Let_def dec_int_def)
qed

lemma uint_of_int64: "0 \<le> k \<Longrightarrow> k < 2 ^ 64 \<Longrightarrow> uint (of_int k :: u64) = k"
  by (simp add: uint_word_of_int_eq take_bit_int_eq_self)

lemma unat_neg64:
  assumes "xx <s (0 :: u64)" and "xx \<noteq> 0x8000000000000000"
  shows "int (unat (- xx)) = - sint xx" and "unat (- xx) < 2 ^ 63"
proof -
  have neg: "sint xx < 0" using assms(1) by (simp add: word_sless_alt)
  have "sint xx \<noteq> - (2 ^ 63)"
  proof
    assume "sint xx = - (2 ^ 63)"
    then have "(of_int (sint xx) :: u64) = of_int (- (2 ^ 63))" by (rule arg_cong)
    then show False using assms(2) by simp
  qed
  moreover have "- (2 ^ 63) \<le> sint xx" using sint_ge [of xx] by simp
  ultimately have r: "0 < - sint xx" "- sint xx < 2 ^ 63" using neg by auto
  have "- xx = of_int (- sint xx)" by simp
  then have "uint (- xx) = - sint xx" using uint_of_int64 [of "- sint xx"] r by simp
  then show e: "int (unat (- xx)) = - sint xx" by simp
  have "int (unat (- xx)) < int (2 ^ 63)" unfolding e using r(2) by simp
  then show "unat (- xx) < 2 ^ 63" by (simp only: of_nat_less_iff)
qed

lemma unat_nonneg64:
  assumes "\<not> xx <s (0 :: u64)"
  shows "int (unat xx) = sint xx" and "unat xx < 2 ^ 63"
proof -
  have r: "0 \<le> sint xx" "sint xx < 2 ^ 63" using assms sint_lt [of xx] by (auto simp: word_sless_alt)
  have "uint xx = sint xx" using uint_of_int64 [of "sint xx"] r by simp
  then show e: "int (unat xx) = sint xx" by simp
  have "int (unat xx) < int (2 ^ 63)" unfolding e using r(2) by simp
  then show "unat xx < 2 ^ 63" by (simp only: of_nat_less_iff)
qed

section \<open>Reading numbers back\<close>

lemma dec_val_mono: "n \<le> dec_val n cs"
proof (induction cs arbitrary: n)
  case (Cons c cs)
  have "n \<le> n * 10 + (unat c - 48)" by simp
  also have "\<dots> \<le> dec_val n (c # cs)" using Cons.IH [of "n * 10 + (unat c - 48)"] by (simp add: dec_val_def)
  finally show ?case .
qed (simp add: dec_val_def)

lemma atoi_loop_digits:
  "\<forall>c \<in> set cs. 48 \<le> c \<and> c \<le> 57 \<Longrightarrow> dec_val n cs + 48 < 2 ^ 31 \<Longrightarrow>
   atoi_loop (int n) cs = Inr (int (dec_val n cs))"
proof (induction cs arbitrary: n)
  case (Cons c cs)
  let ?n = "n * 10 + (unat c - 48)"
  have c: "48 \<le> unat c" using Cons.prems(1) by (simp add: word_le_nat_alt)
  have d: "dec_val n (c # cs) = dec_val ?n cs" by (simp add: dec_val_def)
  have e: "int n * 10 + int (unat c) - 48 = int ?n" using c by (simp add: of_nat_diff)
  have "n * 10 + unat c < 2 ^ 31" using Cons.prems(2) dec_val_mono [of ?n cs] c d by linarith
  then have "int (n * 10 + unat c) < int (2 ^ 31)" by (simp only: of_nat_less_iff)
  then have lt: "\<not> 2 ^ 31 \<le> int n * 10 + int (unat c)" by simp
  have "48 \<le> c \<and> c \<le> 57" using Cons.prems(1) by simp
  then have "atoi_loop (int n) (c # cs) = atoi_loop (int n * 10 + int (unat c) - 48) cs"
    using lt by (simp only: atoi_loop.simps Let_def if_True if_False simp_thms)
  also have "\<dots> = Inr (int (dec_val ?n cs))" unfolding e using Cons.prems d by (intro Cons.IH) auto
  finally show ?case unfolding d .
qed (simp add: dec_val_def)

section \<open>Properties\<close>

text \<open>
  The kernel's \<^verbatim>\<open>printint\<close> never overruns its 20-byte buffer in base 10, whatever the argument, and
  prints the number it was given: read back, the output is the argument as a signed number
  when a sign is asked for and as an unsigned number otherwise. The one exception is the least
  64-bit integer, whose negation overflows.\<close>

theorem printint_correct:
  assumes "sign \<longrightarrow> xx \<noteq> 0x8000000000000000"
  shows "\<exists>out. printint xx 10 sign = Inr out \<and> length out \<le> 20 \<and>
     dec_int out = (if sign then sint xx else uint xx)"
proof (cases "sign \<and> xx <s 0")
  case True
  then have "xx \<noteq> 0x8000000000000000" using assms by simp
  note n = unat_neg64 [OF conjunct2 [OF True] this]
  have "unat (- xx) < 10 ^ (if True then 19 else 20)" using n(2) by simp
  from print_buf_dec [OF this, of 97] True n(1) assms show ?thesis by (auto simp: printint_def neg64_def)
next
  case False
  have "unat xx < 10 ^ (if False then 19 else 20)" using unat_lt_pow [of xx] by simp
  from print_buf_dec [OF this, of 97] False unat_nonneg64(1) [of xx] show ?thesis
    by (auto simp: printint_def)
qed

theorem printint_correct_witness:
  "\<exists>out. printint (- 12345) 10 True = Inr out \<and> length out \<le> 20 \<and> dec_int out = -12345"
  using printint_correct [of True "- 12345"] by simp

text \<open>
  Printing a number with \<^verbatim>\<open>%d\<close> of the user library and reading it with \<^verbatim>\<open>atoi\<close> gives the number back,
  for every non-negative \<^verbatim>\<open>int\<close> up to 48 below the largest one; beyond that \<^verbatim>\<open>atoi\<close> overflows.\<close>

theorem printf_atoi_roundtrip:
  assumes "n + 48 < 2 ^ 31"
  shows "\<exists>out. vprintf False [37, 100] [VInt (of_nat n)] = Inr out \<and> atoi out = Inr (int n)"
proof -
  let ?d = "digit_loop 65 10 n"
  have st: "signed_take_bit 31 (int n) = int n" "signed_take_bit 63 (int n) = int n"
    using assms by (auto intro!: signed_take_bit_int_eq_self)
  have x: "(scast (of_nat n :: u32) :: u64) = of_nat n" using st(1) by (simp add: signed_of_nat)
  have nn: "\<not> (of_nat n :: u64) <s 0" using st(2) by (simp add: word_sless_alt signed_of_nat)
  have u: "unat (ucast (of_nat n :: u64) :: u32) = n"
    using assms by (simp add: unsigned_of_nat take_bit_nat_eq_self)
  have len: "length ?d \<le> 10" using assms by (intro length_digits) simp_all
  then have "printint_u (of_nat n) 10 True = Inr (rev ?d)"
    using nn u by (simp add: printint_u_def print_buf_def)
  then have "vprintf False [37, 100] [VInt (of_nat n)] = Inr (rev ?d)"
    using x by (simp add: conv_at_def byte_at_def conv_of_def)
  moreover have "atoi_loop (int 0) (rev ?d) = Inr (int (dec_val 0 (rev ?d)))"
    using digit_loop_range [of _ 65 n] assms by (intro atoi_loop_digits) (auto simp: dec_val_digits)
  then have "atoi (rev ?d) = Inr (int n)" by (simp add: atoi_def dec_val_digits)
  ultimately show ?thesis by blast
qed

theorem printf_atoi_roundtrip_witness:
  "\<exists>out. vprintf False [37, 100] [VInt 4711] = Inr out \<and> atoi out = Inr 4711"
  using printf_atoi_roundtrip [of 4711] by simp

text \<open>\<^verbatim>\<open>atoi\<close> of the largest \<^verbatim>\<open>int\<close>: \<^verbatim>\<open>n*10 + *s\<close> overflows before \<^verbatim>\<open>'0'\<close> is subtracted.\<close>

lemma atoi_int_max: "atoi [50, 49, 52, 55, 52, 56, 51, 54, 52, 55] = Inl Undefined"
  by (simp add: atoi_def)

text \<open>\<^verbatim>\<open>%lu\<close> of the user library keeps the low 32 bits only, because \<^verbatim>\<open>x\<close> is a \<^verbatim>\<open>uint\<close>.\<close>

lemma user_long_truncated: "vprintf False [37, 108, 117] [VLong (2 ^ 32 + 7)] = vprintf False [37, 108, 117] [VLong 7]"
  by (simp add: conv_at_def byte_at_def conv_of_def printint_u_def)

text \<open>\<^verbatim>\<open>%u\<close> of the kernel sign-extends its argument.\<close>

lemma kernel_unsigned_extended:
  "printf_loop [37, 117] [VInt 0xffffffff] = printf_loop [37, 108, 117] [VLong (- 1)]"
  by (simp add: conv_at_def byte_at_def conv_of_def)

end
