(* ===== verification/Xv6_Ring.thy ===== *)
theory Xv6_Ring
  imports Xv6_Prelude
begin

text \<open>
  Ring buffers with free-running counters, as the pipes, the console and the UART use them:
  bytes are stored at the write counter and taken at the read counter, both reduced modulo the
  size of the buffer, and the counters wrap around at the width of their type. \<open>ring\<close> is the
  content. The locale \<open>fifo\<close> is what the users of such a buffer rely on; it is interpreted for
  the ring of a pipe and for the transmit ring of the UART.
\<close>

section \<open>Contents\<close>

definition ring :: "nat \<Rightarrow> 'b list \<Rightarrow> 'a::len word \<Rightarrow> 'a word \<Rightarrow> 'b list" where
  "ring n d r w = map (\<lambda>k. d ! (unat (r + of_nat k) mod n)) [0..<unat (w - r)]"

lemma length_ring [simp]: "length (ring n d r w) = unat (w - r)"
  by (simp add: ring_def)

lemma ring_empty: "ring n d r w = [] \<longleftrightarrow> r = w"
  by (auto simp: ring_def unat_eq_0)

lemma ring_full:
  fixes r w :: "'a::len word"
  assumes "n < 2 ^ LENGTH('a)"
  shows "w = r + of_nat n \<longleftrightarrow> length (ring n d r w) = n"
proof
  assume "w = r + of_nat n"
  then show "length (ring n d r w) = n" using assms by (simp add: unat_of_nat_lt)
next
  assume "length (ring n d r w) = n"
  then have "of_nat (unat (w - r)) = (of_nat n :: 'a word)" by simp
  then have "w - r = of_nat n" by simp
  then show "w = r + of_nat n" by (simp add: diff_eq_eq add.commute)
qed

lemma ring_pop:
  fixes r w :: "'a::len word"
  assumes "r \<noteq> w"
  shows "ring n d r w = d ! (unat r mod n) # ring n d (r + 1) w"
proof -
  have "w - r \<noteq> 0" using assms by simp
  then have "unat (w - r) = Suc (unat (w - r - 1))"
    by (metis Suc_pred' unat_minus_one unat_gt_0)
  moreover have "w - r - 1 = w - (r + 1)" by (simp add: diff_diff_eq)
  ultimately have len: "[0..<unat (w - r)] = 0 # map Suc [0..<unat (w - (r + 1))]"
    by (simp add: map_Suc_upt upt_conv_Cons)
  show ?thesis unfolding ring_def len by (simp add: o_def algebra_simps)
qed

lemma ring_last:
  fixes r w :: "'a::len word"
  assumes "r \<noteq> w"
  shows "ring n d r w = ring n d r (w - 1) @ [d ! (unat (w - 1) mod n)]"
proof -
  have "w - r \<noteq> 0" using assms by simp
  then have "unat (w - r) = Suc (unat (w - r - 1))" by (metis Suc_pred' unat_minus_one unat_gt_0)
  moreover have e: "w - r - 1 = w - 1 - r" by (simp add: algebra_simps)
  ultimately have len: "[0..<unat (w - r)] = [0..<unat (w - 1 - r)] @ [unat (w - 1 - r)]" by simp
  show ?thesis unfolding ring_def len by simp
qed

lemma ring_slot:
  fixes r w :: "'a::len word"
  assumes "n dvd 2 ^ LENGTH('a)" and "k < n" and "j < n" and "k \<noteq> j"
  shows "unat (r + of_nat k) mod n \<noteq> unat (r + of_nat j) mod n"
proof -
  have u: "unat (r + of_nat k) mod n = (unat r + k) mod n" for k
  proof -
    have "unat (r + of_nat k) = (unat r + k) mod 2 ^ LENGTH('a)"
      by (simp add: unat_word_ariths unat_of_nat take_bit_eq_mod mod_simps)
    then show ?thesis using assms(1) by (simp add: mod_mod_cancel)
  qed
  have le: "(unat r + k) mod n \<noteq> (unat r + j) mod n" if "k < j" "j < n" for k j
  proof
    assume "(unat r + k) mod n = (unat r + j) mod n"
    then have "n dvd (unat r + j) - (unat r + k)" using that by (metis mod_eq_dvd_iff_nat add_le_cancel_left less_imp_le)
    then have "n dvd j - k" by simp
    moreover have "0 < j - k" "j - k < n" using that by auto
    ultimately show False by (simp add: nat_dvd_not_less)
  qed
  show ?thesis unfolding u using le [of k j] le [of j k] assms(2-4) by (cases "k < j") auto
qed

lemma ring_push:
  fixes r w :: "'a::len word"
  assumes "length d = n" and "n dvd 2 ^ LENGTH('a)" and "n < 2 ^ LENGTH('a)" and "unat (w - r) < n"
  shows "ring n (d[unat w mod n := c]) r (w + 1) = ring n d r w @ [c]"
proof -
  let ?m = "unat (w - r)"
  have w: "w = r + of_nat ?m" by simp
  have "unat (w - r + 1) = ?m + 1"
    using unat_add_of_nat [of "w - r" 1] assms(3,4) by simp
  then have len: "unat (w + 1 - r) = Suc ?m" by (simp add: algebra_simps)
  have old: "(d[unat w mod n := c]) ! (unat (r + of_nat k) mod n) = d ! (unat (r + of_nat k) mod n)" if "k < ?m" for k
  proof -
    have "unat (r + of_nat k) mod n \<noteq> unat w mod n"
      using ring_slot [OF assms(2), of k ?m r] that assms(4) by simp
    then show ?thesis by simp
  qed
  have "unat w mod n < length d" using assms(1,4) by simp
  then have new: "(d[unat w mod n := c]) ! (unat (r + of_nat ?m) mod n) = c" by simp
  show ?thesis unfolding ring_def len using old new by simp
qed

section \<open>Queues\<close>

text \<open>Operations are \<open>Some b\<close>, which puts \<open>b\<close>, and \<open>None\<close>, which takes an element out.\<close>

primrec fifo_run :: "('b \<Rightarrow> 's \<Rightarrow> 's) \<Rightarrow> ('s \<Rightarrow> 'b \<times> 's) \<Rightarrow> 'b option list \<Rightarrow> 's \<Rightarrow> 'b list \<times> 's" where
  "fifo_run put get [] s = ([], s)"
| "fifo_run put get (op # ops) s =
     (case op of Some b \<Rightarrow> fifo_run put get ops (put b s)
      | None \<Rightarrow> (let (b, s) = get s; (out, s) = fifo_run put get ops s in (b # out, s)))"

primrec fifo_legal :: "nat \<Rightarrow> nat \<Rightarrow> 'b option list \<Rightarrow> bool" where
  "fifo_legal cap n [] = True"
| "fifo_legal cap n (op # ops) =
     (case op of Some b \<Rightarrow> n < cap \<and> fifo_legal cap (Suc n) ops
      | None \<Rightarrow> 0 < n \<and> fifo_legal cap (n - 1) ops)"

definition inputs :: "'b option list \<Rightarrow> 'b list" where
  "inputs ops = concat (map (\<lambda>op. case op of Some b \<Rightarrow> [b] | None \<Rightarrow> []) ops)"

lemma inputs_simps [simp]:
  "inputs [] = []" "inputs (Some b # ops) = b # inputs ops" "inputs (None # ops) = inputs ops"
  by (simp_all add: inputs_def)

locale fifo =
  fixes cont :: "'s \<Rightarrow> 'b list" and ok :: "'s \<Rightarrow> bool" and cap :: nat
    and put :: "'b \<Rightarrow> 's \<Rightarrow> 's" and get :: "'s \<Rightarrow> 'b \<times> 's"
  assumes put_cont: "ok s \<Longrightarrow> length (cont s) < cap \<Longrightarrow> cont (put b s) = cont s @ [b]"
    and put_ok: "ok s \<Longrightarrow> length (cont s) < cap \<Longrightarrow> ok (put b s)"
    and get_cont: "ok s \<Longrightarrow> cont s \<noteq> [] \<Longrightarrow> get s = (b, s') \<Longrightarrow> cont s = b # cont s'"
    and get_ok: "ok s \<Longrightarrow> cont s \<noteq> [] \<Longrightarrow> get s = (b, s') \<Longrightarrow> ok s'"
begin

text \<open>However puts and gets alternate, what has come out followed by what is inside is what went in.\<close>

lemma run_fifo:
  "ok s \<Longrightarrow> fifo_legal cap (length (cont s)) ops \<Longrightarrow> fifo_run put get ops s = (out, s') \<Longrightarrow>
   cont s @ inputs ops = out @ cont s' \<and> ok s' \<and> length (cont s') \<le> max cap (length (cont s))"
proof (induction ops arbitrary: s out)
  case Nil
  then show ?case by simp
next
  case (Cons op ops)
  show ?case
  proof (cases op)
    case (Some b)
    then show ?thesis
      using Cons.IH [of "put b s" out] Cons.prems by (auto simp: put_cont put_ok)
  next
    case None
    obtain b s1 where g: "get s = (b, s1)" by force
    have ne: "cont s \<noteq> []" using Cons.prems(2) None by auto
    have c: "cont s = b # cont s1" "ok s1"
      using get_cont [OF Cons.prems(1) ne g] get_ok [OF Cons.prems(1) ne g] by auto
    show ?thesis
      using Cons.IH [of s1] Cons.prems None g c by (auto split: prod.splits)
  qed
qed

end

end
