(* ===== verification/Xv6_Pagetable.thy ===== *)
theory Xv6_Pagetable
  imports Xv6_Vm
begin

text \<open>
  The correctness of \<^verbatim>\<open>kernel/vm.c\<close>. A page table is described by the map \<open>T\<close> from the path of
  indices that leads to a table page (at most two) to the address of that page; \<open>pt_inv\<close> says
  that memory holds exactly that tree, in pages that are distinct and not free. \<open>leaf m T va\<close> is
  the level-0 entry of an address, 0 where the tree has no table for it. The lemmas show that
  \<^verbatim>\<open>walk\<close> finds that entry and, when it allocates, changes no other; from that follow the
  mapping, unmapping and copying operations.
\<close>

section \<open>Slots of a page\<close>

lemma unat_slot:
  assumes "valid_page kend t" and "unat i < 512"
  shows "unat (t + 8 * i) = unat t + 8 * unat i"
proof -
  have "unat (8 * i) = 8 * unat i"
    using assms(2) by (simp add: unat_word_ariths)
  then show ?thesis
    using valid_page_room [OF assms(1)] assms(2) unat_add_nowrap [of t "8 * i"] by simp
qed

lemma load64_page_frame:
  assumes "same_outside q m m'" and "valid_page kend t" and "valid_page kend q" and "t \<noteq> q"
    and "unat i < 512"
  shows "load64 m' (t + 8 * i) = load64 m (t + 8 * i)"
proof -
  have "mem_read m' (t + 8 * i) 8 = mem_read m (t + 8 * i) 8"
  proof (rule nth_equalityI)
    fix j assume "j < length (mem_read m' (t + 8 * i) 8)"
    then have j: "j < 8" by simp
    have pq: "unat t + 4096 \<le> unat q \<or> unat q + 4096 \<le> unat t"
      using assms(2-4) by (intro aligned_apart) (auto simp: valid_page_def)
    have "unat (t + 8 * i + of_nat j) = unat t + 8 * unat i + j"
      using j assms(5) valid_page_room [OF assms(2)] unat_slot [OF assms(2,5)]
        unat_add_of_nat [of "t + 8 * i" j] by simp
    then have "4096 \<le> unat (t + 8 * i + of_nat j - q)"
      using pq j assms(5) valid_page_room [OF assms(3)] by (intro word_sub_unat_ge) auto
    with assms(1) j show "mem_read m' (t + 8 * i) 8 ! j = mem_read m (t + 8 * i) 8 ! j"
      by (simp add: same_outside_def)
  qed simp
  then show ?thesis by (simp add: load64_def)
qed

lemma load64_slot_frame:
  assumes "valid_page kend t" and "valid_page kend q" and "unat i < 512" and "unat j < 512"
    and "(t, i) \<noteq> (q, j)"
  shows "load64 (store64 m (q + 8 * j) v) (t + 8 * i) = load64 m (t + 8 * i)"
proof (rule load64_store64_other)
  have a: "unat (t + 8 * i) = unat t + 8 * unat i" using assms by (intro unat_slot)
  have b: "unat (q + 8 * j) = unat q + 8 * unat j" using assms by (intro unat_slot)
  show "disjoint_range (t + 8 * i) 8 (q + 8 * j) 8"
  proof (cases "t = q")
    case True
    with assms(5) have "unat i \<noteq> unat j" by (simp add: word_unat_eq_iff)
    with True show ?thesis unfolding disjoint_range_def a b by simp linarith
  next
    case False
    then have "unat t + 4096 \<le> unat q \<or> unat q + 4096 \<le> unat t"
      using assms(1,2) by (intro aligned_apart) (auto simp: valid_page_def)
    then show ?thesis unfolding disjoint_range_def a b using assms(3,4) by linarith
  qed
  show "unat (t + 8 * i) + 8 \<le> 2 ^ 64"
    using a assms(3) valid_page_room [OF assms(1)] by simp
  show "unat (q + 8 * j) + 8 \<le> 2 ^ 64"
    using b assms(4) valid_page_room [OF assms(2)] by simp
qed

lemma same_outside_slot:
  assumes "valid_page kend q" and "unat j < 512"
  shows "same_outside q m (store64 m (q + 8 * j) v)"
  unfolding same_outside_def store64_def
proof (intro allI impI)
  fix x :: u64
  assume "4096 \<le> unat (x - q)"
  moreover have "unat (8 * j) = 8 * unat j" using assms(2) by (simp add: unat_word_ariths)
  ultimately have "8 \<le> unat (x - q - 8 * j)"
    using assms(2) by (simp add: unat_sub_if')
  then show "mem_write m (q + 8 * j) (le_bytes 8 (unat v)) x = m x"
    by (simp add: mem_write_out diff_diff_eq)
qed

section \<open>Entries\<close>

lemma PTE_V_1: "PTE_V = 1" by (simp add: PTE_V_def)

lemma entry_valid: "(PA2PTE pa OR fl OR PTE_V) AND PTE_V \<noteq> 0"
  by (simp add: PTE_V_1 bit.conj_disj_distrib2)

lemma table_entry_valid: "(PA2PTE pa OR PTE_V) AND PTE_V \<noteq> 0"
  using entry_valid [of pa 0] by simp

lemma PTE2PA_table:
  assumes "valid_page kend pg"
  shows "PTE2PA (PA2PTE pg OR PTE_V) = pg"
  using assms by (intro PTE2PA_PA2PTE) (auto simp: valid_page_def word_less_nat_alt unat_PHYSTOP PTE_V_1)

lemma load64_zeroed:
  assumes "unat i < 512"
  shows "load64 (memset m q 0 4096) (q + 8 * i) = 0"
proof -
  have e: "unat (8 * i) = 8 * unat i" using assms by (simp add: unat_word_ariths)
  have "mem_read (memset m q 0 4096) (q + 8 * i) 8 = replicate 8 0"
  proof (rule nth_equalityI)
    fix j assume "j < length (mem_read (memset m q 0 4096) (q + 8 * i) 8)"
    then have j: "j < 8" by simp
    have "unat (8 * i + of_nat j) = 8 * unat i + j"
      using j assms e unat_add_of_nat [of "8 * i" j] by simp
    then have "unat (q + 8 * i + of_nat j - q) = 8 * unat i + j" by (simp add: algebra_simps)
    with j assms show "mem_read (memset m q 0 4096) (q + 8 * i) 8 ! j = replicate 8 0 ! j"
      by (simp add: memset_spec mem_write_def)
  qed simp
  moreover have "le_nat (replicate n 0) = 0" for n by (induction n) simp_all
  ultimately show ?thesis by (simp add: load64_def)
qed

section \<open>The tree of tables\<close>

type_synonym tables = "u64 list \<rightharpoonup> u64"

definition path_ok :: "u64 list \<Rightarrow> bool" where
  "path_ok p \<longleftrightarrow> length p \<le> 2 \<and> (\<forall>i \<in> set p. unat i < 512) \<and> (p \<noteq> [] \<longrightarrow> unat (hd p) < 256)"

lemma PX2_less: "va < MAXVA \<Longrightarrow> unat (PX 2 va) < 256"
proof -
  assume "va < MAXVA"
  then have "unat va < 2 ^ 38" by (simp add: word_less_nat_alt MAXVA_def)
  then have "unat (drop_bit 30 va) < 256" by (simp add: drop_bit_eq_div unat_div less_mult_imp_div_less)
  moreover have "PX 2 va \<le> drop_bit 30 va"
    by (simp add: PX_def PXSHIFT_def PGSHIFT_def word_and_le2)
  ultimately show ?thesis by (simp add: word_le_nat_alt)
qed

definition PTE_RWX :: u64 where
  "PTE_RWX = (PTE_R OR PTE_W OR PTE_X)"

lemma table_entry_dir: "(PA2PTE pa OR PTE_V) AND PTE_RWX = 0"
proof -
  let ?e = "PA2PTE pa OR PTE_V"
  have "take_bit 10 ?e = 1" by (simp add: PA2PTE_def PTE_V_def take_bit_push_bit)
  moreover have "?e AND 14 = take_bit 10 ?e AND 14" by (simp add: take_bit_eq_mask and.assoc mask_eq_exp_minus_1)
  ultimately show ?thesis by (simp add: PTE_RWX_def PTE_R_def PTE_W_def PTE_X_def)
qed

definition pt_inv :: "u64 \<Rightarrow> u64 \<Rightarrow> tables \<Rightarrow> mem \<Rightarrow> bool" where
  "pt_inv kend root T m \<longleftrightarrow>
     T [] = Some root \<and>
     (\<forall>p t. T p = Some t \<longrightarrow> path_ok p \<and> valid_page kend t) \<and>
     (\<forall>p q t. T p = Some t \<and> T q = Some t \<longrightarrow> p = q) \<and>
     (\<forall>p i. T p = None \<longrightarrow> T (p @ [i]) = None) \<and>
     (\<forall>p t i. T p = Some t \<and> length p < 2 \<and> unat i < 512 \<longrightarrow>
        T (p @ [i]) = (if load64 m (t + 8 * i) AND PTE_V \<noteq> 0
                       then Some (PTE2PA (load64 m (t + 8 * i))) else None) \<and>
        (load64 m (t + 8 * i) AND PTE_V \<noteq> 0 \<longrightarrow> load64 m (t + 8 * i) AND PTE_RWX = 0))"

definition leaf :: "mem \<Rightarrow> tables \<Rightarrow> u64 \<Rightarrow> u64" where
  "leaf m T va =
     (case T [PX 2 va, PX 1 va] of None \<Rightarrow> 0 | Some t \<Rightarrow> load64 m (t + 8 * PX 0 va))"

text \<open>The address of the entry of \<open>va\<close>, 0 when there is no table for it.\<close>

definition leaf_addr :: "tables \<Rightarrow> u64 \<Rightarrow> u64" where
  "leaf_addr T va = (case T [PX 2 va, PX 1 va] of None \<Rightarrow> 0 | Some t \<Rightarrow> t + 8 * PX 0 va)"

lemma pt_invI:
  assumes "T [] = Some root"
    and "\<And>p t. T p = Some t \<Longrightarrow> path_ok p \<and> valid_page kend t"
    and "\<And>p q t. T p = Some t \<Longrightarrow> T q = Some t \<Longrightarrow> p = q"
    and "\<And>p i. T p = None \<Longrightarrow> T (p @ [i]) = None"
    and "\<And>p t i. T p = Some t \<Longrightarrow> length p < 2 \<Longrightarrow> unat i < 512 \<Longrightarrow>
        T (p @ [i]) = (if load64 m (t + 8 * i) AND PTE_V \<noteq> 0
                       then Some (PTE2PA (load64 m (t + 8 * i))) else None)"
    and "\<And>p t i. T p = Some t \<Longrightarrow> length p < 2 \<Longrightarrow> unat i < 512 \<Longrightarrow>
        load64 m (t + 8 * i) AND PTE_V \<noteq> 0 \<Longrightarrow> load64 m (t + 8 * i) AND PTE_RWX = 0"
  shows "pt_inv kend root T m"
  unfolding pt_inv_def using assms by blast

lemma pt_table:
  assumes "pt_inv kend root T m" and "T p = Some t"
  shows "valid_page kend t" and "path_ok p"
  using assms by (auto simp: pt_inv_def)

lemma pt_root: "pt_inv kend root T m \<Longrightarrow> T [] = Some root"
  by (simp add: pt_inv_def)

lemma pt_inj: "pt_inv kend root T m \<Longrightarrow> T p = Some t \<Longrightarrow> T q = Some t \<Longrightarrow> p = q"
  unfolding pt_inv_def by blast

lemma pt_none: "pt_inv kend root T m \<Longrightarrow> T p = None \<Longrightarrow> T (p @ [i]) = None"
  by (simp add: pt_inv_def)

lemma pt_step:
  assumes "pt_inv kend root T m" and "T p = Some t" and "length p < 2" and "unat i < 512"
  shows "T (p @ [i]) = (if load64 m (t + 8 * i) AND PTE_V \<noteq> 0
                        then Some (PTE2PA (load64 m (t + 8 * i))) else None)"
  using assms by (simp add: pt_inv_def)

lemma pt_dir:
  assumes "pt_inv kend root T m" and "T p = Some t" and "length p < 2" and "unat i < 512"
    and "load64 m (t + 8 * i) AND PTE_V \<noteq> 0"
  shows "load64 m (t + 8 * i) AND PTE_RWX = 0"
  using assms by (simp add: pt_inv_def)

text \<open>The path of indices by which \<^verbatim>\<open>walk\<close> reaches level \<open>l\<close>.\<close>

definition vpath :: "u64 \<Rightarrow> nat \<Rightarrow> u64 list" where
  "vpath va l = (if l = 0 then [PX 2 va, PX 1 va] else if l = 1 then [PX 2 va] else [])"

lemma vpath_simps [simp]:
  "vpath va 0 = [PX 2 va, PX 1 va]" "vpath va 2 = []"
  by (simp_all add: vpath_def)

lemma leaf_vpath:
  "leaf m T va = (case T (vpath va 0) of None \<Rightarrow> 0 | Some t \<Rightarrow> load64 m (t + 8 * PX 0 va))"
  by (simp add: leaf_def)

lemma vpath_Suc: "Suc l \<le> 2 \<Longrightarrow> vpath va l = vpath va (Suc l) @ [PX (Suc l) va]"
  by (auto simp: vpath_def le_Suc_eq numeral_2_eq_2)

lemma length_vpath: "Suc l \<le> 2 \<Longrightarrow> length (vpath va (Suc l)) < 2"
  by (simp add: vpath_def)

lemma leaf_addr_none: "pt_inv kend root T m \<Longrightarrow> l \<le> 2 \<Longrightarrow> T (vpath va l) = None \<Longrightarrow> leaf_addr T va = 0"
proof (induction l)
  case 0
  then show ?case by (simp add: leaf_addr_def)
next
  case (Suc l)
  then have "T (vpath va l) = None" by (simp add: vpath_Suc pt_none)
  with Suc show ?case by simp
qed

lemma leaf_addr_nonzero:
  assumes "pt_inv kend root T m" and "T (vpath va 0) = Some t"
  shows "leaf_addr T va = t + 8 * PX 0 va" and "leaf_addr T va \<noteq> 0"
proof -
  show e: "leaf_addr T va = t + 8 * PX 0 va" using assms(2) by (simp add: leaf_addr_def)
  have v: "valid_page kend t" using pt_table [OF assms] by blast
  have "unat (t + 8 * PX 0 va) = unat t + 8 * unat (PX 0 va)"
    using v PX_less by (rule unat_slot)
  moreover have "unat t \<noteq> 0" using v by (simp add: valid_page_def unat_eq_zero)
  ultimately show "leaf_addr T va \<noteq> 0" unfolding e by (metis add_is_0 unat_0)
qed

lemma walk_loop_find:
  "pt_inv kend root T (pmem s) \<Longrightarrow> l \<le> 2 \<Longrightarrow> T (vpath va l) = Some t \<Longrightarrow>
   walk_loop l t va False s = (leaf_addr T va, s)"
proof (induction l arbitrary: t)
  case 0
  then show ?case by (simp add: leaf_addr_def)
next
  case (Suc l)
  let ?e = "load64 (pmem s) (t + 8 * PX (Suc l) va)"
  have n: "T (vpath va l) = (if ?e AND PTE_V \<noteq> 0 then Some (PTE2PA ?e) else None)"
    using pt_step [OF Suc.prems(1,3) length_vpath PX_less] Suc.prems(2) by (simp add: vpath_Suc)
  show ?case
  proof (cases "?e AND PTE_V = 0")
    case True
    then have "leaf_addr T va = 0" using n Suc.prems by (intro leaf_addr_none) auto
    with True show ?thesis by simp
  next
    case False
    then have "walk_loop l (PTE2PA ?e) va False s = (leaf_addr T va, s)"
      using n Suc.prems by (intro Suc.IH) auto
    with False show ?thesis by simp
  qed
qed

lemma walk_find:
  assumes "pt_inv kend root T (pmem s)" and "va < MAXVA"
  shows "walk root va False s = Inr (leaf_addr T va, s)"
  using walk_loop_find [OF assms(1), of 2 va root] pt_root [OF assms(1)] assms(2)
  by (simp add: walk_def)

lemma leaf_load:
  assumes "leaf_addr T va \<noteq> 0"
  shows "leaf m T va = load64 m (leaf_addr T va)"
  using assms by (auto simp: leaf_def leaf_addr_def split: option.splits)

lemma leaf_zero: "pt_inv kend root T m' \<Longrightarrow> leaf_addr T va = 0 \<Longrightarrow> leaf m T va = 0"
  using leaf_addr_nonzero [of kend root T m' va] by (cases "T (vpath va 0)") (auto simp: leaf_def)

lemma walkaddr_leaf:
  assumes "pt_inv kend root T (pmem s)"
  shows "walkaddr root va s =
    Inr (if va < MAXVA \<and> leaf (pmem s) T va AND PTE_V \<noteq> 0 \<and> leaf (pmem s) T va AND PTE_U \<noteq> 0
         then PTE2PA (leaf (pmem s) T va) else 0)"
  using walk_find [OF assms, of va] leaf_load [of T va "pmem s"] leaf_zero [OF assms, of va]
  by (auto simp: walkaddr_def not_le)

section \<open>Frames\<close>

definition mframe :: "u64 set \<Rightarrow> mem \<Rightarrow> mem \<Rightarrow> bool" where
  "mframe P m m' \<longleftrightarrow> (\<forall>x. PGROUNDDOWN x \<notin> P \<longrightarrow> m' x = m x)"

lemma mframe_refl [simp]: "mframe P m m"
  by (simp add: mframe_def)

lemma mframe_mono: "mframe P m m' \<Longrightarrow> P \<subseteq> Q \<Longrightarrow> mframe Q m m'"
  by (auto simp: mframe_def)

lemma mframe_trans: "mframe P m m' \<Longrightarrow> mframe P m' m'' \<Longrightarrow> mframe P m m''"
  by (simp add: mframe_def)

lemma PGROUNDDOWN_in_page:
  assumes "page_aligned q" and "unat x < 4096"
  shows "PGROUNDDOWN (q + x) = q"
proof -
  have q: "unat q mod 4096 = 0" using assms(1) by (simp add: page_aligned_unat)
  have u: "unat (q + x) = unat q + unat x"
    using aligned_room [OF assms(1)] assms(2) by (intro unat_add_nowrap) simp
  have "(unat q + unat x) mod 4096 = unat x"
    using assms(2) q by (simp add: mod_add_left_eq [symmetric])
  then have "unat (PGROUNDDOWN (q + x)) = unat q" by (simp add: unat_PGROUNDDOWN u)
  then show ?thesis by (simp add: word_unat_eq_iff)
qed

lemma same_outside_mframe:
  assumes "same_outside q m m'" and "page_aligned q"
  shows "mframe {q} m m'"
  unfolding mframe_def
proof (intro allI impI)
  fix x
  assume "PGROUNDDOWN x \<notin> {q}"
  then have "4096 \<le> unat (x - q)"
    using PGROUNDDOWN_in_page [OF assms(2), of "x - q"] by (cases "unat (x - q) < 4096") auto
  with assms(1) show "m' x = m x" by (simp add: same_outside_def)
qed

lemma mframe_load64:
  assumes "mframe P m m'" and "valid_page kend t" and "t \<notin> P" and "unat i < 512"
  shows "load64 m' (t + 8 * i) = load64 m (t + 8 * i)"
proof -
  have "mem_read m' (t + 8 * i) 8 = mem_read m (t + 8 * i) 8"
  proof (rule nth_equalityI)
    fix j assume "j < length (mem_read m' (t + 8 * i) 8)"
    then have j: "j < 8" by simp
    have "unat (8 * i) = 8 * unat i" using assms(4) by (simp add: unat_word_ariths)
    then have "unat (8 * i + of_nat j) < 4096"
      using j assms(4) unat_add_of_nat [of "8 * i" j] by simp
    then have "PGROUNDDOWN (t + 8 * i + of_nat j) = t"
      using PGROUNDDOWN_in_page [of t "8 * i + of_nat j"] assms(2)
      by (simp add: valid_page_def add.assoc)
    with assms(1,3) j show "mem_read m' (t + 8 * i) 8 ! j = mem_read m (t + 8 * i) 8 ! j"
      by (simp add: mframe_def)
  qed simp
  then show ?thesis by (simp add: load64_def)
qed

lemma mframe_fl_path:
  "fl_path m x ps \<Longrightarrow> mframe P m m' \<Longrightarrow> set ps \<inter> P = {} \<Longrightarrow>
   \<forall>p \<in> set ps. valid_page kend p \<Longrightarrow> fl_path m' x ps"
proof (induction ps arbitrary: x)
  case (Cons p ps)
  then have "load64 m' p = load64 m p" using mframe_load64 [of P m m' kend p 0] by simp
  with Cons show ?case by auto
qed simp

lemma pt_frame:
  assumes "pt_inv kend root T m" and "mframe P m m'" and "ran T \<inter> P = {}"
  shows "pt_inv kend root T m'" and "leaf m' T va = leaf m T va"
proof -
  have e: "load64 m' (t + 8 * i) = load64 m (t + 8 * i)" if "T p = Some t" "unat i < 512" for p t i
    using mframe_load64 [OF assms(2) pt_table(1) [OF assms(1) that(1)] _ that(2)] that(1) assms(3)
    by (auto simp: ran_def)
  show "pt_inv kend root T m'"
    by (rule pt_invI) (use pt_root [OF assms(1)] pt_table [OF assms(1)] pt_inj [OF assms(1)] pt_none [OF assms(1)]
      pt_step [OF assms(1)] pt_dir [OF assms(1)] e in auto)
  show "leaf m' T va = leaf m T va"
    using e PX_less by (auto simp: leaf_def split: option.splits)
qed

section \<open>Memory with one page table\<close>

text \<open>
  The tables of \<open>T\<close> and the free pages \<open>ps\<close> are disjoint. \<open>grows\<close> is what code that only adds
  table pages does: it takes them from the front of the free list, keeps every leaf and writes
  nowhere else.
\<close>

definition vm_inv :: "u64 \<Rightarrow> u64 \<Rightarrow> tables \<Rightarrow> u64 list \<Rightarrow> 'z kmem_state_scheme \<Rightarrow> bool" where
  "vm_inv kend root T ps s \<longleftrightarrow>
     pt_inv kend root T (pmem s) \<and> kmem_inv kend s ps \<and> ran T \<inter> set ps = {}"

definition tgrow ::
  "tables \<Rightarrow> u64 list \<Rightarrow> 'z kmem_state_scheme \<Rightarrow> tables \<Rightarrow> u64 list \<Rightarrow> 'z kmem_state_scheme \<Rightarrow> bool" where
  "tgrow T ps s T' ps' s' \<longleftrightarrow>
     T \<subseteq>\<^sub>m T' \<and> (\<exists>qs. ps = qs @ ps' \<and> ran T' = ran T \<union> set qs) \<and>
     mframe (ran T') (pmem s) (pmem s') \<and> kmem_state.more s' = kmem_state.more s"

definition grows ::
  "tables \<Rightarrow> u64 list \<Rightarrow> 'z kmem_state_scheme \<Rightarrow> tables \<Rightarrow> u64 list \<Rightarrow> 'z kmem_state_scheme \<Rightarrow> bool" where
  "grows T ps s T' ps' s' \<longleftrightarrow>
     (\<forall>va. leaf (pmem s') T' va = leaf (pmem s) T va) \<and> tgrow T ps s T' ps' s'"

lemma grows_refl [simp]: "grows T ps s T ps s"
  by (simp add: grows_def tgrow_def)

lemma tgrow_trans:
  assumes "tgrow T ps s T' ps' s'" and "tgrow T' ps' s' T'' ps'' s''"
  shows "tgrow T ps s T'' ps'' s''"
proof -
  obtain qs qs' where q: "ps = qs @ ps'" "ran T' = ran T \<union> set qs" "ps' = qs' @ ps''"
    "ran T'' = ran T' \<union> set qs'" using assms unfolding tgrow_def by blast
  have "mframe (ran T'') (pmem s) (pmem s'')"
    using assms q(4) by (auto simp: tgrow_def intro: mframe_trans mframe_mono)
  moreover have "\<exists>rs. ps = rs @ ps'' \<and> ran T'' = ran T \<union> set rs"
    using q by (intro exI [of _ "qs @ qs'"]) auto
  ultimately show ?thesis using assms by (auto simp: tgrow_def intro: map_le_trans)
qed

lemma grows_trans:
  "grows T ps s T' ps' s' \<Longrightarrow> grows T' ps' s' T'' ps'' s'' \<Longrightarrow> grows T ps s T'' ps'' s''"
  using tgrow_trans by (simp add: grows_def) blast

text \<open>One new table page, as \<^verbatim>\<open>walk\<close> allocates it.\<close>

lemma new_table:
  assumes vm: "vm_inv kend root T (pg # ps) s" and p: "T p = Some t" "length p < 2" and i: "unat i < 512"
    and n: "T (p @ [i]) = None" and k: "kalloc s = (pg, s1)" and lo: "p = [] \<longrightarrow> unat i < 256"
  defines "s' \<equiv> s1\<lparr>pmem := store64 (memset (pmem s1) pg 0 4096) (t + 8 * i) (PA2PTE pg OR PTE_V)\<rparr>"
  shows "vm_inv kend root (T(p @ [i] \<mapsto> pg)) ps s'" and "grows T (pg # ps) s (T(p @ [i] \<mapsto> pg)) ps s'"
proof -
  let ?v = "PA2PTE pg OR PTE_V" and ?T = "T(p @ [i] \<mapsto> pg)"
  have pt: "pt_inv kend root T (pmem s)" and km: "kmem_inv kend s (pg # ps)"
    and dis: "pg \<notin> ran T" "ran T \<inter> set ps = {}" using vm by (auto simp: vm_inv_def)
  have vpg: "valid_page kend pg" and vt: "valid_page kend t"
    using km pt_table [OF pt p(1)] by (auto simp: kmem_inv_def)
  obtain km1: "kmem_inv kend s1 ps" and so: "same_outside pg (pmem s) (pmem s1)"
    and more: "kmem_state.more s1 = kmem_state.more s" using kalloc_page [OF km] k by auto
  have fr: "mframe {pg} (pmem s) (memset (pmem s1) pg 0 4096)"
    using same_outside_trans [OF so same_outside_memset] vpg
    by (intro same_outside_mframe) (auto simp: valid_page_def)
  have fr1: "mframe {t} (memset (pmem s1) pg 0 4096) (pmem s')"
    unfolding s'_def using same_outside_slot [OF vt i] vt
    by (auto simp: valid_page_def intro: same_outside_mframe)
  have ne: "u \<noteq> pg" if "T q = Some u" for q u using that dis(1) by (auto simp: ran_def)
  have old: "load64 (pmem s') (u + 8 * j) = (if u = t \<and> j = i then ?v else load64 (pmem s) (u + 8 * j))"
    if "T q = Some u" "unat j < 512" for q u j
  proof (cases "u = t \<and> j = i")
    case True
    then show ?thesis by (simp add: s'_def)
  next
    case False
    have vu: "valid_page kend u" using pt_table [OF pt that(1)] by blast
    have "load64 (pmem s') (u + 8 * j) = load64 (memset (pmem s1) pg 0 4096) (u + 8 * j)"
      using load64_slot_frame [OF vu vt that(2) i] False by (auto simp: s'_def)
    also have "\<dots> = load64 (pmem s) (u + 8 * j)"
      using mframe_load64 [OF fr vu _ that(2)] ne [OF that(1)] by simp
    finally show ?thesis using False by (simp only: if_False)
  qed
  have new: "load64 (pmem s') (pg + 8 * j) = 0" if "unat j < 512" for j
  proof -
    have "(pg, j) \<noteq> (t, i)" using ne [OF p(1)] by auto
    then show ?thesis
      using load64_slot_frame [OF vpg vt that i] load64_zeroed [OF that] by (simp add: s'_def)
  qed
  have "pt_inv kend root ?T (pmem s')"
  proof (rule pt_invI)
    show "path_ok q \<and> valid_page kend u" if "?T q = Some u" for q u
    proof (cases "q = p @ [i]")
      case True
      then show ?thesis using that pt_table(2) [OF pt p(1)] p(2) i vpg lo by (cases p) (auto simp: path_ok_def)
    next
      case False
      then show ?thesis using that pt_table [OF pt, of q u] by simp
    qed
    show "q = r" if "?T q = Some u" "?T r = Some u" for q r u
      using that pt_inj [OF pt, of q u r] ne [of q u] ne [of r u] by (simp split: if_splits)
    show "?T (q @ [j]) = (if load64 (pmem s') (u + 8 * j) AND PTE_V \<noteq> 0
        then Some (PTE2PA (load64 (pmem s') (u + 8 * j))) else None)"
      if q: "?T q = Some u" "length q < 2" and j: "unat j < 512" for q u j
    proof (cases "q = p @ [i]")
      case True
      then show ?thesis using q new [OF j] pt_none [OF pt n, of j] by simp
    next
      case False
      then have u: "T q = Some u" using q(1) by simp
      have tq: "u = t \<longleftrightarrow> q = p" using pt_inj [OF pt p(1), of q] u p(1) by auto
      show ?thesis
        using old [OF u j] pt_step [OF pt u q(2) j] tq table_entry_valid PTE2PA_table [OF vpg]
        by simp
    qed
    show "load64 (pmem s') (u + 8 * j) AND PTE_RWX = 0" if q: "?T q = Some u" "length q < 2"
      and j: "unat j < 512" and v: "load64 (pmem s') (u + 8 * j) AND PTE_V \<noteq> 0" for q u j
    proof (cases "q = p @ [i]")
      case True
      then show ?thesis using q new [OF j] by simp
    next
      case False
      then have u: "T q = Some u" using q(1) by simp
      show ?thesis using old [OF u j] pt_dir [OF pt u q(2) j] v table_entry_dir by (auto split: if_splits)
    qed
  qed (use pt_root [OF pt] pt_none [OF pt] p in \<open>auto split: if_splits\<close>)
  moreover have "kmem_inv kend s' ps"
  proof -
    have "fl_path (pmem s') (freelist s1) ps"
    proof (rule mframe_fl_path)
      show "fl_path (memset (pmem s1) pg 0 4096) (freelist s1) ps"
        using km km1 by (intro fl_path_same_outside [OF _ same_outside_memset vpg]) (auto simp: kmem_inv_def)
      show "set ps \<inter> {t} = {}" using dis(2) p(1) by (auto simp: ran_def)
    qed (use fr1 km1 in \<open>auto simp: kmem_inv_def\<close>)
    then show ?thesis using km1 by (simp add: kmem_inv_def s'_def)
  qed
  ultimately show "vm_inv kend root ?T ps s'"
    using km dis n by (simp add: vm_inv_def kmem_inv_def)
  have "leaf (pmem s') ?T va = leaf (pmem s) T va" for va
  proof (cases "p @ [i] = vpath va 0")
    case True
    then show ?thesis using n new [OF PX_less] by (simp add: leaf_def)
  next
    case False
    have "u \<noteq> t" if "T (vpath va 0) = Some u" for u
      using pt_inj [OF pt p(1), of "vpath va 0"] that p(2) by auto
    then show ?thesis
      unfolding leaf_vpath fun_upd_other [OF False [symmetric]]
      using old [OF _ PX_less] by (auto simp del: vpath_simps split: option.splits)
  qed
  moreover have "ran ?T = ran T \<union> set [pg]" using n by simp
  moreover have "mframe (ran ?T) (pmem s) (pmem s')"
  proof -
    have "{pg} \<subseteq> ran ?T" "{t} \<subseteq> ran ?T" using n p(1) by (auto simp: ran_def)
    then show ?thesis using fr fr1 by (intro mframe_trans [OF mframe_mono [OF fr] mframe_mono [OF fr1]])
  qed
  ultimately show "grows T (pg # ps) s ?T ps s'"
    unfolding grows_def tgrow_def using more n
    by (intro conjI exI [of _ "[pg]"]) (auto simp: s'_def map_le_def)
qed

lemma walk_loop_alloc:
  "vm_inv kend root T ps s \<Longrightarrow> l \<le> 2 \<Longrightarrow> T (vpath va l) = Some t \<Longrightarrow> va < MAXVA \<Longrightarrow>
   \<exists>T' ps' s'. walk_loop l t va True s = (leaf_addr T' va, s') \<and> vm_inv kend root T' ps' s' \<and>
     grows T ps s T' ps' s' \<and> (leaf_addr T' va = 0 \<longrightarrow> ps' = [] \<and> length ps < l) \<and>
     length ps \<le> length ps' + l"
proof (induction l arbitrary: t T ps s)
  case 0
  then have "walk_loop 0 t va True s = (leaf_addr T va, s)" "leaf_addr T va \<noteq> 0"
    using leaf_addr_nonzero by (auto simp: vm_inv_def leaf_addr_def)
  with 0 grows_refl [of T ps s] show ?case
    by (intro exI [of _ T] exI [of _ ps] exI [of _ s]) simp
next
  case (Suc l)
  let ?e = "load64 (pmem s) (t + 8 * PX (Suc l) va)"
  have pt: "pt_inv kend root T (pmem s)" and km: "kmem_inv kend s ps"
    using Suc.prems(1) by (auto simp: vm_inv_def)
  have n: "T (vpath va l) = (if ?e AND PTE_V \<noteq> 0 then Some (PTE2PA ?e) else None)"
    using pt_step [OF pt Suc.prems(3) length_vpath PX_less] Suc.prems(2) by (simp add: vpath_Suc)
  consider "?e AND PTE_V \<noteq> 0" | "?e AND PTE_V = 0" "ps = []"
    | pg qs where "?e AND PTE_V = 0" "ps = pg # qs" by (cases ps) auto
  then show ?case
  proof cases
    case 1
    then have "T (vpath va l) = Some (PTE2PA ?e)" using n by simp
    from Suc.IH [OF Suc.prems(1) _ this Suc.prems(4)] 1 show ?thesis using Suc.prems(2) by fastforce
  next
    case 2
    then have "leaf_addr T va = 0" using n Suc.prems pt by (intro leaf_addr_none [of kend root T "pmem s" l]) auto
    moreover have "kalloc s = (0, s)" using km 2 kalloc_empty by blast
    ultimately have "walk_loop (Suc l) t va True s = (leaf_addr T va, s)" using 2 by simp
    with 2 Suc.prems(1) grows_refl show ?thesis by fastforce
  next
    case 3
    obtain s1 where s1: "kalloc s = (pg, s1)" using km 3 kalloc_page by blast
    have pg: "pg \<noteq> 0" using km 3 by (auto simp: kmem_inv_def valid_page_def)
    let ?s = "s1\<lparr>pmem := store64 (memset (pmem s1) pg 0 4096) (t + 8 * PX (Suc l) va) (PA2PTE pg OR PTE_V)\<rparr>"
    let ?T = "T(vpath va l \<mapsto> pg)"
    have lo: "vpath va (Suc l) = [] \<longrightarrow> unat (PX (Suc l) va) < 256"
      using PX2_less [OF Suc.prems(4)] Suc.prems(2) by (auto simp: vpath_def le_Suc_eq numeral_2_eq_2)
    have t: "vm_inv kend root ?T qs ?s" "grows T ps s ?T qs ?s"
      using new_table [of kend root T pg qs s "vpath va (Suc l)" t "PX (Suc l) va" s1]
        Suc.prems n 3 s1 length_vpath PX_less lo by (auto simp: vpath_Suc)
    have w: "walk_loop (Suc l) t va True s = walk_loop l pg va True ?s" using 3 s1 pg by simp
    obtain T' ps' s' where r: "walk_loop l pg va True ?s = (leaf_addr T' va, s')"
        "vm_inv kend root T' ps' s'" "grows ?T qs ?s T' ps' s'" "leaf_addr T' va = 0 \<longrightarrow> ps' = [] \<and> length qs < l"
        "length qs \<le> length ps' + l"
      using Suc.IH [OF t(1), of pg] Suc.prems(2,4) by (auto simp del: fun_upd_apply simp: fun_upd_same)
    have "walk_loop (Suc l) t va True s = (leaf_addr T' va, s')" using w r(1) by (rule trans)
    with grows_trans [OF t(2) r(3)] r(2,4,5) 3(2) show ?thesis by auto
  qed
qed

lemma walk_alloc:
  assumes "vm_inv kend root T ps s" and "va < MAXVA"
  shows "\<exists>T' ps' s'. walk root va True s = Inr (leaf_addr T' va, s') \<and> vm_inv kend root T' ps' s' \<and>
     grows T ps s T' ps' s' \<and> (leaf_addr T' va = 0 \<longrightarrow> ps' = [] \<and> length ps < 2) \<and>
     length ps \<le> length ps' + 2"
  using walk_loop_alloc [OF assms(1), of 2 va root] pt_root assms by (auto simp: walk_def vm_inv_def)

text \<open>Writing the level-0 entry of one page.\<close>

lemma set_leaf:
  fixes v :: u64
  assumes vm: "vm_inv kend root T ps s" and ad: "leaf_addr T va \<noteq> 0" and va: "page_aligned va" "va < MAXVA"
  defines "s' \<equiv> s\<lparr>pmem := store64 (pmem s) (leaf_addr T va) v\<rparr>"
  shows "vm_inv kend root T ps s'" and "tgrow T ps s T ps s'"
    and "\<And>b. page_aligned b \<Longrightarrow> b < MAXVA \<Longrightarrow> leaf (pmem s') T b = (if b = va then v else leaf (pmem s) T b)"
proof -
  have pt: "pt_inv kend root T (pmem s)" and km: "kmem_inv kend s ps" and dis: "ran T \<inter> set ps = {}"
    using vm by (auto simp: vm_inv_def)
  obtain t where t: "T (vpath va 0) = Some t" and e: "leaf_addr T va = t + 8 * PX 0 va"
    using ad by (auto simp: leaf_addr_def split: option.splits)
  have vt: "valid_page kend t" using pt_table [OF pt t] by blast
  have fr: "mframe {t} (pmem s) (pmem s')"
    unfolding s'_def e using same_outside_slot [OF vt PX_less] vt
    by (auto simp: valid_page_def intro: same_outside_mframe)
  have ld: "load64 (pmem s') (u + 8 * j) = (if u = t \<and> j = PX 0 va then v else load64 (pmem s) (u + 8 * j))"
    if "T q = Some u" "unat j < 512" for q u j
    using load64_slot_frame [OF pt_table(1) [OF pt that(1)] vt that(2) PX_less, of 0 va] e
    by (auto simp: s'_def)
  have "pt_inv kend root T (pmem s')"
  proof (rule pt_invI)
    show "T (q @ [j]) = (if load64 (pmem s') (u + 8 * j) AND PTE_V \<noteq> 0
        then Some (PTE2PA (load64 (pmem s') (u + 8 * j))) else None)"
      if q: "T q = Some u" "length q < 2" and j: "unat j < 512" for q u j
    proof -
      have "u \<noteq> t" using pt_inj [OF pt t, of q] q by auto
      then show ?thesis using ld [OF q(1) j] pt_step [OF pt q j] by simp
    qed
    show "load64 (pmem s') (u + 8 * j) AND PTE_RWX = 0" if q: "T q = Some u" "length q < 2"
      and j: "unat j < 512" and v: "load64 (pmem s') (u + 8 * j) AND PTE_V \<noteq> 0" for q u j
    proof -
      have "u \<noteq> t" using pt_inj [OF pt t, of q] q by auto
      then show ?thesis using ld [OF q(1) j] pt_dir [OF pt q j] v by simp
    qed
  qed (use pt_root [OF pt] pt_table [OF pt] pt_inj [OF pt] pt_none [OF pt] in auto)
  moreover have "kmem_inv kend s' ps"
  proof -
    have "set ps \<inter> {t} = {}" using dis t by (auto simp: ran_def)
    then have "fl_path (pmem s') (freelist s) ps"
      using km by (intro mframe_fl_path [OF _ fr]) (auto simp: kmem_inv_def)
    then show ?thesis using km by (simp add: kmem_inv_def s'_def)
  qed
  ultimately show "vm_inv kend root T ps s'" using dis by (simp add: vm_inv_def)
  show "tgrow T ps s T ps s'"
    unfolding tgrow_def using mframe_mono [OF fr, of "ran T"] ranI [of T "vpath va 0" t] t
    by (intro conjI exI [of _ "[]"]) (auto simp: s'_def)
  show "leaf (pmem s') T b = (if b = va then v else leaf (pmem s) T b)"
    if b: "page_aligned b" "b < MAXVA" for b
  proof (cases "b = va")
    case True
    then show ?thesis using ad by (simp add: leaf_load s'_def)
  next
    case False
    have "\<not> (u = t \<and> PX 0 b = PX 0 va)" if u: "T (vpath b 0) = Some u" for u
    proof
      assume h: "u = t \<and> PX 0 b = PX 0 va"
      then have "vpath b 0 = vpath va 0" using pt_inj [OF pt u, of "vpath va 0"] t by simp
      then show False using PX_inj [OF b(1) va(1) b(2) va(2)] h False by simp
    qed
    then show ?thesis
      unfolding leaf_vpath using ld [OF _ PX_less, of "vpath b 0"] False
      by (auto simp del: vpath_simps split: option.splits)
  qed
qed

section \<open>Mapping\<close>

lemma aligned_next:
  assumes "page_aligned a" and "page_aligned b" and "a < MAXVA"
  shows "a \<le> b \<longleftrightarrow> b = a \<or> a + PGSIZE \<le> b"
  using aligned_apart [OF assms(1,2)] step_below_MAXVA [OF assms(3)]
  by (cases "a = b") (auto simp: word_le_nat_alt)

lemma page_aligned_next: "page_aligned a \<Longrightarrow> a < MAXVA \<Longrightarrow> page_aligned (a + PGSIZE)"
  using step_below_MAXVA [of a] by (simp add: page_aligned_unat)

definition mapped_to :: "u64 \<Rightarrow> u64 \<Rightarrow> u64 \<Rightarrow> u64 \<Rightarrow> u64" where
  "mapped_to a pa perm b = (PA2PTE (pa + (b - a)) OR perm OR PTE_V)"

lemma map_one:
  assumes vm: "vm_inv kend root T ps s" and a: "page_aligned a" "a < MAXVA"
    and inv: "leaf (pmem s) T a AND PTE_V = 0"
  obtains (full) T1 s1 where "vm_inv kend root T1 [] s1" "tgrow T ps s T1 [] s1"
      "mappages_loop root a lst pa perm s = Inr (-1, s1)" "\<forall>b. leaf (pmem s1) T1 b = leaf (pmem s) T b"
      "length ps < 2"
  | (ok) T1 ps1 s1 where "vm_inv kend root T1 ps1 s1" "tgrow T ps s T1 ps1 s1"
      "mappages_loop root a lst pa perm s =
         (if a = lst then Inr (0, s1) else mappages_loop root (a + PGSIZE) lst (pa + PGSIZE) perm s1)"
      "\<forall>b. page_aligned b \<longrightarrow> b < MAXVA \<longrightarrow>
         leaf (pmem s1) T1 b = (if b = a then PA2PTE pa OR perm OR PTE_V else leaf (pmem s) T b)"
      "length ps \<le> length ps1 + 2"
proof -
  obtain T1 ps1 s1 where w: "walk root a True s = Inr (leaf_addr T1 a, s1)"
    and vm1: "vm_inv kend root T1 ps1 s1" and gr: "grows T ps s T1 ps1 s1"
    and no: "leaf_addr T1 a = 0 \<longrightarrow> ps1 = [] \<and> length ps < 2" "length ps \<le> length ps1 + 2" using walk_alloc [OF vm a(2)] by blast
  have lf: "leaf (pmem s1) T1 b = leaf (pmem s) T b" for b using gr by (simp add: grows_def)
  have tg: "tgrow T ps s T1 ps1 s1" using gr by (simp add: grows_def)
  show thesis
  proof (cases "leaf_addr T1 a = 0")
    case True
    then have "mappages_loop root a lst pa perm s = Inr (-1, s1)"
      by (simp add: mappages_loop.simps w)
    with True vm1 tg no lf show thesis by (intro full [of T1 s1]) auto
  next
    case False
    let ?s = "s1\<lparr>pmem := store64 (pmem s1) (leaf_addr T1 a) (PA2PTE pa OR perm OR PTE_V)\<rparr>"
    note st = set_leaf [OF vm1 False a, where v = "PA2PTE pa OR perm OR PTE_V"]
    have "load64 (pmem s1) (leaf_addr T1 a) AND PTE_V = 0"
      using leaf_load [OF False, of "pmem s1"] lf inv by simp
    then have "mappages_loop root a lst pa perm s =
        (if a = lst then Inr (0, ?s) else mappages_loop root (a + PGSIZE) lst (pa + PGSIZE) perm ?s)"
      using False by (subst mappages_loop.simps) (simp add: w)
    then show thesis by (rule ok [OF st(1) tgrow_trans [OF tg st(2)]]) (use st(3) lf no(2) in auto)
  qed
qed

lemma mappages_loop_ok:
  "vm_inv kend root T ps s \<Longrightarrow> page_aligned a \<Longrightarrow> unat lst = unat a + 4096 * n \<Longrightarrow> lst < MAXVA \<Longrightarrow>
   \<forall>b. page_aligned b \<and> a \<le> b \<and> b \<le> lst \<longrightarrow> leaf (pmem s) T b AND PTE_V = 0 \<Longrightarrow>
   \<exists>r stop T' ps' s'. mappages_loop root a lst pa perm s = Inr (r, s') \<and>
     vm_inv kend root T' ps' s' \<and> tgrow T ps s T' ps' s' \<and>
     (r = 0 \<and> stop = lst + PGSIZE \<or> r = -1 \<and> a \<le> stop \<and> stop \<le> lst \<and> ps' = []) \<and>
     (\<forall>b. page_aligned b \<and> b < MAXVA \<longrightarrow> leaf (pmem s') T' b =
        (if a \<le> b \<and> b < stop then mapped_to a pa perm b else leaf (pmem s) T b))"
proof (induction n arbitrary: a pa T ps s)
  case (0 a pa T ps s)
  then have e: "lst = a" by (simp add: word_unat_eq_iff)
  have lt: "a < MAXVA" using 0 e by simp
  have inv: "leaf (pmem s) T a AND PTE_V = 0" using 0 e by simp
  show ?case
  proof (rule map_one [OF 0(1,2) lt inv, of lst pa perm])
    fix T1 s1
    assume "vm_inv kend root T1 [] s1" "tgrow T ps s T1 [] s1"
      "mappages_loop root a lst pa perm s = Inr (-1, s1)" "\<forall>b. leaf (pmem s1) T1 b = leaf (pmem s) T b"
    then show ?thesis
      using e by (intro exI [of _ "-1"] exI [of _ a] exI [of _ T1] exI [of _ "[]"] exI [of _ s1]) auto
  next
    fix T1 ps1 s1
    assume r: "vm_inv kend root T1 ps1 s1" "tgrow T ps s T1 ps1 s1"
      "mappages_loop root a lst pa perm s =
         (if a = lst then Inr (0, s1) else mappages_loop root (a + PGSIZE) lst (pa + PGSIZE) perm s1)"
      "\<forall>b. page_aligned b \<longrightarrow> b < MAXVA \<longrightarrow>
         leaf (pmem s1) T1 b = (if b = a then PA2PTE pa OR perm OR PTE_V else leaf (pmem s) T b)"
    have "a \<le> b \<and> b < a + PGSIZE \<longleftrightarrow> b = a" if "page_aligned b" for b
      using aligned_next [OF 0(2) that lt] step_below_MAXVA [OF lt] by (auto simp: word_less_nat_alt word_le_nat_alt)
    then show ?thesis
      using r e by (intro exI [of _ 0] exI [of _ "a + PGSIZE"] exI [of _ T1] exI [of _ ps1] exI [of _ s1])
        (auto simp: mapped_to_def)
  qed
next
  case (Suc n a pa T ps s)
  have lt: "a < MAXVA" using Suc.prems(3,4) by (simp add: word_less_nat_alt)
  have nx: "unat (a + PGSIZE) = unat a + 4096" using lt by (rule step_below_MAXVA)
  have al: "a \<le> lst" "a \<noteq> lst" using Suc.prems(3) by (auto simp: word_le_nat_alt)
  have inv: "leaf (pmem s) T a AND PTE_V = 0" using Suc.prems(2,5) al by simp
  show ?case
  proof (rule map_one [OF Suc.prems(1,2) lt inv, of lst pa perm])
    fix T1 s1
    assume "vm_inv kend root T1 [] s1" "tgrow T ps s T1 [] s1"
      "mappages_loop root a lst pa perm s = Inr (-1, s1)" "\<forall>b. leaf (pmem s1) T1 b = leaf (pmem s) T b"
    then show ?thesis
      using al by (intro exI [of _ "-1"] exI [of _ a] exI [of _ T1] exI [of _ "[]"] exI [of _ s1]) auto
  next
    fix T1 ps1 s1
    assume r: "vm_inv kend root T1 ps1 s1" "tgrow T ps s T1 ps1 s1"
      "mappages_loop root a lst pa perm s =
         (if a = lst then Inr (0, s1) else mappages_loop root (a + PGSIZE) lst (pa + PGSIZE) perm s1)"
      "\<forall>b. page_aligned b \<longrightarrow> b < MAXVA \<longrightarrow>
         leaf (pmem s1) T1 b = (if b = a then PA2PTE pa OR perm OR PTE_V else leaf (pmem s) T b)"
    have nb: "a \<le> b \<longleftrightarrow> b = a \<or> a + PGSIZE \<le> b" if "page_aligned b" for b
      using aligned_next [OF Suc.prems(2) that lt] .
    have "\<forall>b. page_aligned b \<and> a + PGSIZE \<le> b \<and> b \<le> lst \<longrightarrow> leaf (pmem s1) T1 b AND PTE_V = 0"
    proof (intro allI impI)
      fix b
      assume b: "page_aligned b \<and> a + PGSIZE \<le> b \<and> b \<le> lst"
      then have "b < MAXVA" "b \<noteq> a" "a \<le> b"
        using nx Suc.prems(4) by (auto simp: word_le_nat_alt word_less_nat_alt)
      then show "leaf (pmem s1) T1 b AND PTE_V = 0" using r(4) b Suc.prems(5) by simp
    qed
    then obtain q stop T' ps' s' where t: "mappages_loop root (a + PGSIZE) lst (pa + PGSIZE) perm s1 = Inr (q, s')"
      "vm_inv kend root T' ps' s'" "tgrow T1 ps1 s1 T' ps' s'"
      "q = 0 \<and> stop = lst + PGSIZE \<or> q = -1 \<and> a + PGSIZE \<le> stop \<and> stop \<le> lst \<and> ps' = []"
      "\<forall>b. page_aligned b \<and> b < MAXVA \<longrightarrow> leaf (pmem s') T' b =
        (if a + PGSIZE \<le> b \<and> b < stop then mapped_to (a + PGSIZE) (pa + PGSIZE) perm b else leaf (pmem s1) T1 b)"
      using Suc.IH [OF r(1) page_aligned_next [OF Suc.prems(2) lt], of "pa + PGSIZE"] Suc.prems(3,4) nx by auto
    have st: "a < stop"
      using t(4) nx Suc.prems(3) step_below_MAXVA [OF Suc.prems(4)] by (auto simp: word_less_nat_alt word_le_nat_alt)
    then show ?thesis
      using r t al tgrow_trans [OF r(2) t(3)] nb nx
      by (intro exI [of _ q] exI [of _ stop] exI [of _ T'] exI [of _ ps'] exI [of _ s'])
        (auto simp: mapped_to_def word_le_nat_alt)
  qed
qed

text \<open>
  C31. \<^verbatim>\<open>mappages\<close> on a page-aligned, non-empty range below \<^verbatim>\<open>MAXVA\<close> in which nothing is mapped
  does not panic. It returns 0 with every page of the range mapped to the corresponding
  physical page with the given permissions, or -1 when the free pages ran out on the way; in
  both cases every address outside the range keeps its entry, the tree stays well formed, and
  memory outside the (old and new) table pages is unchanged.
\<close>

theorem mappages_maps_range:
  assumes "vm_inv kend root T ps s" and "page_aligned va" and "page_aligned sz" and "sz \<noteq> 0"
    and "unat va + unat sz \<le> unat MAXVA"
    and "\<forall>b. page_aligned b \<and> va \<le> b \<and> b < va + sz \<longrightarrow> leaf (pmem s) T b AND PTE_V = 0"
  shows "\<exists>r stop T' ps' s'. mappages root va sz pa perm s = Inr (r, s') \<and>
     vm_inv kend root T' ps' s' \<and> tgrow T ps s T' ps' s' \<and>
     (r = 0 \<and> stop = va + sz \<or> r = -1 \<and> va \<le> stop \<and> stop < va + sz \<and> ps' = []) \<and>
     (\<forall>b. page_aligned b \<and> b < MAXVA \<longrightarrow> leaf (pmem s') T' b =
        (if va \<le> b \<and> b < stop then PA2PTE (pa + (b - va)) OR perm OR PTE_V else leaf (pmem s) T b))"
proof -
  have sz: "unat sz mod 4096 = 0" "unat sz \<noteq> 0" using assms(3,4) by (simp_all add: page_aligned_unat unat_eq_zero)
  then have sz1: "4096 \<le> unat sz" by (metis mod_less not_le)
  have mx: "unat MAXVA < 2 ^ 64 - 4096" by (simp add: MAXVA_def)
  have e: "unat (va + sz) = unat va + unat sz" using assms(5) mx unat_add_nowrap [of va sz] by simp
  have le: "PGSIZE \<le> va + sz" using e sz1 by (simp add: word_le_nat_alt)
  have l: "unat (va + sz - PGSIZE) = unat va + 4096 * ((unat sz - 4096) div 4096)"
    using sz sz1 e unat_sub [OF le] by (simp add: le_mod_geq minus_mod_eq_mult_div [symmetric])
  have st: "va + sz - PGSIZE + PGSIZE = va + sz" by simp
  have lt: "va + sz - PGSIZE < MAXVA"
    using l sz1 assms(5) e unat_sub [OF le] by (simp add: word_less_nat_alt)
  have below: "b \<le> va + sz - PGSIZE \<longrightarrow> b < va + sz" for b
    unfolding word_less_nat_alt word_le_nat_alt using unat_sub [OF le] e sz1 unat_PGSIZE by linarith
  have m: "mappages root va sz pa perm s = mappages_loop root va (va + sz - PGSIZE) pa perm s"
    using assms(2-4) by (simp add: mappages_def page_aligned_def)
  obtain r stop T' ps' s' where h: "mappages root va sz pa perm s = Inr (r, s')"
     "vm_inv kend root T' ps' s'" "tgrow T ps s T' ps' s'"
     "r = 0 \<and> stop = va + sz \<or> r = -1 \<and> va \<le> stop \<and> stop \<le> va + sz - PGSIZE \<and> ps' = []"
     "\<forall>b. page_aligned b \<and> b < MAXVA \<longrightarrow> leaf (pmem s') T' b =
        (if va \<le> b \<and> b < stop then mapped_to va pa perm b else leaf (pmem s) T b)"
    using mappages_loop_ok [OF assms(1,2) l lt, of pa perm] assms(6) below unfolding m st by auto
  from h(4) below [of stop] have "r = 0 \<and> stop = va + sz \<or> r = -1 \<and> va \<le> stop \<and> stop < va + sz \<and> ps' = []"
    by blast
  with h(1-3,5) show ?thesis unfolding mapped_to_def by blast
qed

text \<open>A fresh page table maps nothing.\<close>

lemma uvmcreate_ok:
  assumes "kmem_inv kend s (pg # ps)"
  shows "\<exists>s'. uvmcreate s = (pg, s') \<and> vm_inv kend pg [[] \<mapsto> pg] ps s' \<and>
     (\<forall>va. leaf (pmem s') [[] \<mapsto> pg] va = 0) \<and> kmem_state.more s' = kmem_state.more s \<and>
     mframe {pg} (pmem s) (pmem s')"
proof -
  obtain s1 where k: "kalloc s = (pg, s1)" "kmem_inv kend s1 ps" "same_outside pg (pmem s) (pmem s1)"
    "kmem_state.more s1 = kmem_state.more s" using kalloc_page [OF assms] by blast
  let ?m = "memset (pmem s1) pg 0 4096"
  have v: "valid_page kend pg" "pg \<notin> set ps" "pg \<noteq> 0" using assms by (auto simp: kmem_inv_def valid_page_def)
  have "pt_inv kend pg [[] \<mapsto> pg] ?m"
    using v(1) by (intro pt_invI) (auto simp: path_ok_def load64_zeroed split: if_splits)
  moreover have "kmem_inv kend (s1\<lparr>pmem := ?m\<rparr>) ps"
    using k(2) v fl_path_same_outside [OF _ same_outside_memset v(1,2)] by (auto simp: kmem_inv_def)
  ultimately have "vm_inv kend pg [[] \<mapsto> pg] ps (s1\<lparr>pmem := ?m\<rparr>)" using v by (auto simp: vm_inv_def)
  moreover have "mframe {pg} (pmem s) ?m"
    using same_outside_trans [OF k(3) same_outside_memset] v(1)
    by (intro same_outside_mframe) (auto simp: valid_page_def)
  ultimately show ?thesis using k v(3)
    by (intro exI [of _ "s1\<lparr>pmem := ?m\<rparr>"]) (auto simp: uvmcreate_def leaf_def)
qed

text \<open>A memory with three free pages, for the concrete instances below.\<close>

lemma three_pages: "\<exists>s :: kmem_state. kmem_inv 0x80020000 s [0x80023000, 0x80022000, 0x80021000]"
proof -
  have v: "valid_page 0x80020000 0x80021000" "valid_page 0x80020000 0x80022000" "valid_page 0x80020000 0x80023000"
    by (simp_all add: valid_page_def page_aligned_def PGSIZE_def PHYSTOP_def KERNBASE_def)
  have "kmem_inv 0x80020000 (\<lparr>pmem = \<lambda>_. 0, freelist = 0\<rparr> :: kmem_state) []" by (simp add: kmem_inv_def)
  from kfree_valid [OF this v(1)] obtain s1 :: kmem_state where "kmem_inv 0x80020000 s1 [0x80021000]" by auto
  from kfree_valid [OF this v(2)] obtain s2 :: kmem_state where "kmem_inv 0x80020000 s2 [0x80022000, 0x80021000]" by auto
  from kfree_valid [OF this v(3)] show ?thesis by auto
qed

lemma fresh_table:
  "\<exists>s :: kmem_state. vm_inv 0x80020000 0x80023000 [[] \<mapsto> 0x80023000] [0x80022000, 0x80021000] s \<and>
     (\<forall>va. leaf (pmem s) [[] \<mapsto> 0x80023000] va = 0)"
  using three_pages uvmcreate_ok by blast

theorem mappages_maps_range_witness:
  "\<exists>(s :: kmem_state) T r stop T' ps' s'.
     vm_inv 0x80020000 0x80023000 T [0x80022000, 0x80021000] s \<and>
     mappages 0x80023000 0x1000 0x2000 0x80100000 (PTE_R OR PTE_U) s = Inr (r, s') \<and>
     vm_inv 0x80020000 0x80023000 T' ps' s' \<and>
     (r = 0 \<and> stop = 0x3000 \<or> r = -1 \<and> 0x1000 \<le> stop \<and> stop < (0x3000 :: u64) \<and> ps' = [])"
proof -
  obtain s :: kmem_state where vm: "vm_inv 0x80020000 0x80023000 [[] \<mapsto> 0x80023000] [0x80022000, 0x80021000] s"
    and l: "\<forall>va. leaf (pmem s) [[] \<mapsto> 0x80023000] va = 0" using fresh_table by blast
  have "page_aligned 0x1000" "page_aligned 0x2000" "(0x2000 :: u64) \<noteq> 0"
    "unat (0x1000 :: u64) + unat (0x2000 :: u64) \<le> unat MAXVA"
    by (simp_all add: page_aligned_def PGSIZE_def MAXVA_def)
  note i = mappages_maps_range [OF vm this, of "0x80100000" "PTE_R OR PTE_U"]
  have "(0x1000 :: u64) + 0x2000 = 0x3000" by simp
  from i [unfolded this] l vm show ?thesis by simp blast
qed

section \<open>Unmapping\<close>

lemma vm_kfree:
  assumes "vm_inv kend root T ps s" and "valid_page kend pg" and "pg \<notin> ran T" and "pg \<notin> set ps"
  shows "\<exists>s'. kfree kend pg s = Inr s' \<and> vm_inv kend root T (pg # ps) s' \<and>
     (\<forall>va. leaf (pmem s') T va = leaf (pmem s) T va) \<and> mframe {pg} (pmem s) (pmem s') \<and>
     kmem_state.more s' = kmem_state.more s"
proof -
  have pt: "pt_inv kend root T (pmem s)" and km: "kmem_inv kend s ps" and dis: "ran T \<inter> set ps = {}"
    using assms(1) by (auto simp: vm_inv_def)
  obtain s' where k: "kfree kend pg s = Inr s'" "kmem_inv kend s' (pg # ps)"
    "same_outside pg (pmem s) (pmem s')" "kmem_state.more s' = kmem_state.more s"
    using kfree_valid [OF km assms(2,4)] by blast
  have fr: "mframe {pg} (pmem s) (pmem s')"
    using k(3) assms(2) by (intro same_outside_mframe) (auto simp: valid_page_def)
  have "ran T \<inter> {pg} = {}" using assms(3) by simp
  from pt_frame [OF pt fr this] k fr dis assms(3) show ?thesis by (auto simp: vm_inv_def)
qed

text \<open>The physical pages behind \<open>n\<close> consecutive virtual pages.\<close>

definition leaf_pages :: "mem \<Rightarrow> tables \<Rightarrow> u64 \<Rightarrow> nat \<Rightarrow> u64 list" where
  "leaf_pages m T a n = map (\<lambda>b. PTE2PA (leaf m T b)) (pages_from a n)"

lemma unat_pages:
  assumes "unat va + 4096 * unat n \<le> unat MAXVA"
  shows "unat (va + n * PGSIZE) = unat va + 4096 * unat n"
proof -
  have "unat va + unat n * 4096 < 2 ^ 64" using assms by (simp add: MAXVA_def)
  then have "unat (n * PGSIZE) = unat n * 4096" by (simp add: unat_word_ariths PGSIZE_def)
  then show ?thesis using assms by (subst unat_add_nowrap) (simp_all add: MAXVA_def)
qed

lemma pages_from_below:
  "page_aligned a \<Longrightarrow> unat a + 4096 * n \<le> unat MAXVA \<Longrightarrow> b \<in> set (pages_from a n) \<Longrightarrow>
   page_aligned b \<and> b < MAXVA \<and> a \<le> b"
proof (induction n arbitrary: a)
  case (Suc n)
  then have lt: "a < MAXVA" by (simp add: word_less_nat_alt)
  have nx: "unat (a + PGSIZE) = unat a + 4096" using lt by (rule step_below_MAXVA)
  have "b = a \<or> page_aligned b \<and> b < MAXVA \<and> a + PGSIZE \<le> b"
    using Suc.IH [of "a + PGSIZE"] Suc.prems page_aligned_next [OF Suc.prems(1) lt] nx
    by (auto simp: pages_from_Suc)
  with Suc.prems(1) lt nx show ?case by (auto simp: word_le_nat_alt)
qed simp

lemma unmap_one:
  assumes vm: "vm_inv kend root T ps s" and a: "page_aligned a" "a < MAXVA" "a < stop"
    and e: "leaf (pmem s) T a AND PTE_V \<noteq> 0" "PTE_FLAGS (leaf (pmem s) T a) \<noteq> PTE_V"
    and fr: "do_free \<longrightarrow> valid_page kend (PTE2PA (leaf (pmem s) T a)) \<and> PTE2PA (leaf (pmem s) T a) \<notin> ran T \<union> set ps"
  obtains s' where "uvmunmap_loop kend root a stop do_free s = uvmunmap_loop kend root (a + PGSIZE) stop do_free s'"
    "vm_inv kend root T (if do_free then PTE2PA (leaf (pmem s) T a) # ps else ps) s'"
    "\<forall>b. page_aligned b \<longrightarrow> b < MAXVA \<longrightarrow> leaf (pmem s') T b = (if b = a then 0 else leaf (pmem s) T b)"
    "mframe (ran T \<union> (if do_free then {PTE2PA (leaf (pmem s) T a)} else {})) (pmem s) (pmem s')"
    "kmem_state.more s' = kmem_state.more s"
proof -
  let ?e = "leaf (pmem s) T a" and ?pg = "PTE2PA (leaf (pmem s) T a)"
  let ?ps = "if do_free then ?pg # ps else ps" and ?P = "ran T \<union> (if do_free then {?pg} else {})"
  have pt: "pt_inv kend root T (pmem s)" using vm by (simp add: vm_inv_def)
  have ad: "leaf_addr T a \<noteq> 0" using e leaf_zero [OF pt] by fastforce
  note w = walk_find [OF pt a(2)] leaf_load [OF ad, of "pmem s"]
  obtain s1 where s1: "(if do_free then kfree kend ?pg s else Inr s) = Inr s1" "vm_inv kend root T ?ps s1"
      "\<forall>va. leaf (pmem s1) T va = leaf (pmem s) T va" "mframe (if do_free then {?pg} else {}) (pmem s) (pmem s1)"
      "kmem_state.more s1 = kmem_state.more s"
    using vm_kfree [OF vm, of ?pg] vm fr by (cases do_free) auto
  define s2 where "s2 = s1\<lparr>pmem := store64 (pmem s1) (leaf_addr T a) 0\<rparr>"
  note s2 = set_leaf [OF s1(2) ad a(1,2), where v = 0, folded s2_def]
  have "uvmunmap_loop kend root a stop do_free s = uvmunmap_loop kend root (a + PGSIZE) stop do_free s2"
    using w e ad s1(1) a(3) by (cases do_free; subst uvmunmap_loop.simps; simp add: s2_def)
  moreover have "mframe ?P (pmem s) (pmem s2)"
  proof (rule mframe_trans)
    show "mframe ?P (pmem s) (pmem s1)" using s1(4) by (rule mframe_mono) auto
    show "mframe ?P (pmem s1) (pmem s2)" using s2(2) unfolding tgrow_def by (blast intro: mframe_mono)
  qed
  moreover have "kmem_state.more s2 = kmem_state.more s" using s1(5) by (simp add: s2_def)
  ultimately show thesis using s2(1,3) s1(3) by (intro that [of s2]) auto
qed

lemma uvmunmap_loop_ok:
  "vm_inv kend root T ps s \<Longrightarrow> page_aligned a \<Longrightarrow> unat stop = unat a + 4096 * n \<Longrightarrow> unat stop \<le> unat MAXVA \<Longrightarrow>
   \<forall>b \<in> set (pages_from a n). leaf (pmem s) T b AND PTE_V \<noteq> 0 \<and> PTE_FLAGS (leaf (pmem s) T b) \<noteq> PTE_V \<Longrightarrow>
   do_free \<longrightarrow> distinct (leaf_pages (pmem s) T a n) \<and>
     (\<forall>pg \<in> set (leaf_pages (pmem s) T a n). valid_page kend pg \<and> pg \<notin> ran T \<and> pg \<notin> set ps) \<Longrightarrow>
   \<exists>s'. uvmunmap_loop kend root a stop do_free s = Inr s' \<and>
     vm_inv kend root T (if do_free then rev (leaf_pages (pmem s) T a n) @ ps else ps) s' \<and>
     (\<forall>b. page_aligned b \<and> b < MAXVA \<longrightarrow> leaf (pmem s') T b =
        (if b \<in> set (pages_from a n) then 0 else leaf (pmem s) T b)) \<and>
     mframe (ran T \<union> (if do_free then set (leaf_pages (pmem s) T a n) else {})) (pmem s) (pmem s') \<and>
     kmem_state.more s' = kmem_state.more s"
proof (induction n arbitrary: a ps s)
  case (0 a ps s)
  then show ?case by (subst uvmunmap_loop.simps) (auto simp: word_less_nat_alt leaf_pages_def)
next
  case (Suc n a ps s)
  let ?pg = "PTE2PA (leaf (pmem s) T a)"
  have lt: "a < MAXVA" "a < stop" using Suc.prems(3,4) by (auto simp: word_less_nat_alt)
  have nx: "unat (a + PGSIZE) = unat a + 4096" using lt(1) by (rule step_below_MAXVA)
  have lps: "leaf_pages (pmem s) T a (Suc n) = ?pg # leaf_pages (pmem s) T (a + PGSIZE) n"
    by (simp add: leaf_pages_def pages_from_Suc)
  define ps1 where "ps1 = (if do_free then ?pg # ps else ps)"
  obtain s2 where s2: "uvmunmap_loop kend root a stop do_free s = uvmunmap_loop kend root (a + PGSIZE) stop do_free s2"
    "vm_inv kend root T ps1 s2"
    "\<forall>b. page_aligned b \<longrightarrow> b < MAXVA \<longrightarrow> leaf (pmem s2) T b = (if b = a then 0 else leaf (pmem s) T b)"
    "mframe (ran T \<union> (if do_free then {?pg} else {})) (pmem s) (pmem s2)"
    "kmem_state.more s2 = kmem_state.more s"
    using unmap_one [OF Suc.prems(1,2) lt, of do_free] Suc.prems(5,6)
    unfolding ps1_def lps by (auto simp: pages_from_Suc)
  have tl: "b \<in> set (pages_from (a + PGSIZE) n) \<Longrightarrow> page_aligned b \<and> b < MAXVA \<and> b \<noteq> a" for b
    using pages_from_below [of "a + PGSIZE" n b] page_aligned_next [OF Suc.prems(2) lt(1)] Suc.prems(3,4) nx
    by (auto simp: word_le_nat_alt)
  have same: "leaf (pmem s2) T b = leaf (pmem s) T b" if "b \<in> set (pages_from (a + PGSIZE) n)" for b
    using s2(3) tl [OF that] by simp
  then have lp: "leaf_pages (pmem s2) T (a + PGSIZE) n = leaf_pages (pmem s) T (a + PGSIZE) n"
    by (simp add: leaf_pages_def)
  have ok: "\<forall>b \<in> set (pages_from (a + PGSIZE) n).
      leaf (pmem s2) T b AND PTE_V \<noteq> 0 \<and> PTE_FLAGS (leaf (pmem s2) T b) \<noteq> PTE_V"
    using Suc.prems(5) same by (simp add: pages_from_Suc)
  have fre: "do_free \<longrightarrow> distinct (leaf_pages (pmem s2) T (a + PGSIZE) n) \<and>
     (\<forall>pg \<in> set (leaf_pages (pmem s2) T (a + PGSIZE) n). valid_page kend pg \<and> pg \<notin> ran T \<and> pg \<notin> set ps1)"
    using Suc.prems(6) unfolding lp lps ps1_def by auto
  obtain s' where s': "uvmunmap_loop kend root (a + PGSIZE) stop do_free s2 = Inr s'"
      "vm_inv kend root T (if do_free then rev (leaf_pages (pmem s) T (a + PGSIZE) n) @ ps1 else ps1) s'"
      "\<forall>b. page_aligned b \<and> b < MAXVA \<longrightarrow> leaf (pmem s') T b =
        (if b \<in> set (pages_from (a + PGSIZE) n) then 0 else leaf (pmem s2) T b)"
      "mframe (ran T \<union> (if do_free then set (leaf_pages (pmem s) T (a + PGSIZE) n) else {})) (pmem s2) (pmem s')"
      "kmem_state.more s' = kmem_state.more s2"
    using Suc.IH [OF s2(2) page_aligned_next [OF Suc.prems(2) lt(1)] _ Suc.prems(4) ok fre] Suc.prems(3) nx
    unfolding lp by auto
  have "mframe (ran T \<union> (if do_free then set (leaf_pages (pmem s) T a (Suc n)) else {})) (pmem s) (pmem s')"
    by (rule mframe_trans [OF mframe_mono [OF s2(4)] mframe_mono [OF s'(4)]]) (auto simp: lps)
  with s' s2 show ?case
    by (intro exI [of _ s']) (cases do_free; simp add: lps ps1_def pages_from_Suc)
qed

lemma uvmunmap_ok:
  assumes "vm_inv kend root T ps s" and "page_aligned va" and "unat va + 4096 * unat npages \<le> unat MAXVA"
    and "\<forall>b \<in> set (pages_from va (unat npages)).
       leaf (pmem s) T b AND PTE_V \<noteq> 0 \<and> PTE_FLAGS (leaf (pmem s) T b) \<noteq> PTE_V"
    and "do_free \<longrightarrow> distinct (leaf_pages (pmem s) T va (unat npages)) \<and>
       (\<forall>pg \<in> set (leaf_pages (pmem s) T va (unat npages)). valid_page kend pg \<and> pg \<notin> ran T \<and> pg \<notin> set ps)"
  shows "\<exists>s'. uvmunmap kend root va npages do_free s = Inr s' \<and>
     vm_inv kend root T (if do_free then rev (leaf_pages (pmem s) T va (unat npages)) @ ps else ps) s' \<and>
     (\<forall>b. page_aligned b \<and> b < MAXVA \<longrightarrow> leaf (pmem s') T b =
        (if b \<in> set (pages_from va (unat npages)) then 0 else leaf (pmem s) T b)) \<and>
     mframe (ran T \<union> (if do_free then set (leaf_pages (pmem s) T va (unat npages)) else {})) (pmem s) (pmem s') \<and>
     kmem_state.more s' = kmem_state.more s"
proof -
  have st: "unat (va + npages * PGSIZE) = unat va + 4096 * unat npages"
    using assms(3) by (rule unat_pages)
  show ?thesis
    using uvmunmap_loop_ok [OF assms(1,2) st _ assms(4,5)] st assms(2,3)
    by (auto simp: uvmunmap_def page_aligned_def)
qed

text \<open>
  C32. \<^verbatim>\<open>uvmunmap\<close> on a page-aligned range of mapped user pages below \<^verbatim>\<open>MAXVA\<close> does not panic,
  removes exactly the entries of the range, and with \<^verbatim>\<open>do_free\<close> puts the pages behind them, each
  once, on the free list; without it the free list is unchanged.
\<close>

theorem uvmunmap_removes_range:
  assumes "vm_inv kend root T ps s" and "page_aligned va" and "unat va + 4096 * unat npages \<le> unat MAXVA"
    and "\<forall>b \<in> set (pages_from va (unat npages)).
       leaf (pmem s) T b AND PTE_V \<noteq> 0 \<and> PTE_FLAGS (leaf (pmem s) T b) \<noteq> PTE_V"
    and "do_free \<longrightarrow> distinct (leaf_pages (pmem s) T va (unat npages)) \<and>
       (\<forall>pg \<in> set (leaf_pages (pmem s) T va (unat npages)). valid_page kend pg \<and> pg \<notin> ran T \<and> pg \<notin> set ps)"
  shows "\<exists>s'. uvmunmap kend root va npages do_free s = Inr s' \<and>
     vm_inv kend root T (if do_free then rev (leaf_pages (pmem s) T va (unat npages)) @ ps else ps) s' \<and>
     (\<forall>b. page_aligned b \<and> b < MAXVA \<longrightarrow> leaf (pmem s') T b =
        (if b \<in> set (pages_from va (unat npages)) then 0 else leaf (pmem s) T b))"
  using uvmunmap_ok [OF assms] by blast

text \<open>A memory in which one user page is mapped.\<close>

definition one_entry :: u64 where
  "one_entry = (PA2PTE 0x80100000 OR (PTE_R OR PTE_W OR PTE_U) OR PTE_V)"

lemma one_page:
  obtains (ex) s :: kmem_state and T ps where "vm_inv 0x80020000 0x80023000 T ps s"
    "\<forall>b. page_aligned b \<longrightarrow> b < MAXVA \<longrightarrow> leaf (pmem s) T b = (if b = 0x1000 then one_entry else 0)"
    "ran T \<union> set ps \<subseteq> {0x80021000, 0x80022000, 0x80023000}"
proof -
  obtain s :: kmem_state where vm: "vm_inv 0x80020000 0x80023000 [[] \<mapsto> 0x80023000] [0x80022000, 0x80021000] s"
    and l: "\<forall>va. leaf (pmem s) [[] \<mapsto> 0x80023000] va = 0" using fresh_table by blast
  have a: "page_aligned 0x1000" "0x1000 < MAXVA" by (simp_all add: page_aligned_def PGSIZE_def MAXVA_def)
  have z: "leaf (pmem s) [[] \<mapsto> 0x80023000] 0x1000 AND PTE_V = 0" using l by simp
  show thesis
  proof (rule map_one [OF vm a z, where lst = "0x1000" and pa = "0x80100000" and perm = "PTE_R OR PTE_W OR PTE_U"])
    fix T1 ps1 and s1 :: kmem_state
    assume r: "vm_inv 0x80020000 0x80023000 T1 ps1 s1" "tgrow [[] \<mapsto> 0x80023000] [0x80022000, 0x80021000] s T1 ps1 s1"
      "\<forall>b. page_aligned b \<longrightarrow> b < MAXVA \<longrightarrow> leaf (pmem s1) T1 b =
         (if b = 0x1000 then PA2PTE 0x80100000 OR (PTE_R OR PTE_W OR PTE_U) OR PTE_V else leaf (pmem s) [[] \<mapsto> 0x80023000] b)"
    from r(2) obtain qs where "[0x80022000, 0x80021000] = qs @ ps1" "ran T1 = ran ([[] \<mapsto> 0x80023000] :: tables) \<union> set qs"
      unfolding tgrow_def by blast
    then have "ran T1 \<union> set ps1 = ran ([[] \<mapsto> 0x80023000] :: tables) \<union> set [0x80022000, 0x80021000]" by auto
    then have "ran T1 \<union> set ps1 \<subseteq> {0x80021000, 0x80022000, 0x80023000}" by simp
    with r(1,3) l show thesis by (intro ex [of T1 ps1 s1]) (auto simp: one_entry_def)
  qed simp
qed

lemma one_entry_simps [simp]:
  "one_entry AND PTE_V \<noteq> 0" "one_entry AND PTE_U \<noteq> 0" "one_entry AND PTE_W \<noteq> 0"
  "PTE_FLAGS one_entry \<noteq> PTE_V" "PTE2PA one_entry = 0x80100000"
  by (simp_all add: one_entry_def PA2PTE_def PTE2PA_def PTE_FLAGS_def PTE_V_def PTE_U_def PTE_W_def PTE_R_def)

theorem uvmunmap_removes_range_witness:
  "\<exists>(s :: kmem_state) T ps s'. leaf (pmem s) T 0x1000 = one_entry \<and>
     uvmunmap 0x80020000 0x80023000 0x1000 1 True s = Inr s' \<and>
     vm_inv 0x80020000 0x80023000 T (0x80100000 # ps) s' \<and> leaf (pmem s') T 0x1000 = 0"
proof -
  have a: "page_aligned 0x1000" "0x1000 < MAXVA" "unat (0x1000 :: u64) + 4096 * unat (1 :: u64) \<le> unat MAXVA"
    "valid_page 0x80020000 0x80100000"
    by (simp_all add: valid_page_def page_aligned_def PGSIZE_def MAXVA_def PHYSTOP_def KERNBASE_def)
  have pf: "pages_from 0x1000 (unat (1 :: u64)) = [0x1000]" by (simp add: pages_from_Suc)
  obtain s :: kmem_state and T ps where s: "vm_inv 0x80020000 0x80023000 T ps s"
    "\<forall>b. page_aligned b \<longrightarrow> b < MAXVA \<longrightarrow> leaf (pmem s) T b = (if b = 0x1000 then one_entry else 0)"
    "ran T \<union> set ps \<subseteq> {0x80021000, 0x80022000, 0x80023000}" by (rule one_page)
  then have lf: "leaf (pmem s) T 0x1000 = one_entry" using a(1,2) by simp
  have lp: "leaf_pages (pmem s) T 0x1000 (unat (1 :: u64)) = [0x80100000]"
    by (simp only: leaf_pages_def pf list.map lf one_entry_simps)
  have "0x80100000 \<notin> ran T" "0x80100000 \<notin> set ps" using s(3) by auto
  with uvmunmap_removes_range [OF s(1) a(1,3), of True] lf pf lp a obtain s' where
    "uvmunmap 0x80020000 0x80023000 0x1000 1 True s = Inr s'"
    "vm_inv 0x80020000 0x80023000 T (0x80100000 # ps) s'" "leaf (pmem s') T 0x1000 = 0" by auto
  with lf show ?thesis by blast
qed

end
