(* ===== verification/Xv6_Usermem.thy ===== *)
theory Xv6_Usermem
  imports Xv6_Pagetable
begin

text \<open>
  User memory as processes see it: \<open>umem m T a\<close> is the byte at the user virtual address \<open>a\<close>, None
  where the page table \<open>T\<close> maps no user page. \<open>as_inv\<close> adds to \<open>vm_inv\<close> that user pages are
  owned by one virtual page each and are neither table pages nor free. The lemmas show that
  \<^verbatim>\<open>copyin\<close>, \<^verbatim>\<open>copyout\<close> and \<^verbatim>\<open>copyinstr\<close> read and write exactly this memory.
\<close>

section \<open>User memory\<close>

definition ubit :: "mem \<Rightarrow> tables \<Rightarrow> u64 \<Rightarrow> bool" where
  "ubit m T va \<longleftrightarrow> va < MAXVA \<and> leaf m T va AND PTE_V \<noteq> 0 \<and> leaf m T va AND PTE_U \<noteq> 0"

definition upa :: "mem \<Rightarrow> tables \<Rightarrow> u64 \<Rightarrow> u64" where
  "upa m T va = PTE2PA (leaf m T va)"

definition umem :: "mem \<Rightarrow> tables \<Rightarrow> u64 \<Rightarrow> byte option" where
  "umem m T a =
     (if ubit m T (PGROUNDDOWN a) then Some (m (upa m T (PGROUNDDOWN a) + (a - PGROUNDDOWN a))) else None)"

definition uwritable :: "mem \<Rightarrow> tables \<Rightarrow> u64 \<Rightarrow> bool" where
  "uwritable m T a \<longleftrightarrow>
     ubit m T (PGROUNDDOWN a) \<and> leaf m T (PGROUNDDOWN a) AND PTE_W \<noteq> 0"

definition upages :: "mem \<Rightarrow> tables \<Rightarrow> u64 set" where
  "upages m T = {upa m T va | va. page_aligned va \<and> ubit m T va}"

definition as_inv :: "u64 \<Rightarrow> u64 \<Rightarrow> tables \<Rightarrow> u64 list \<Rightarrow> 'z kmem_state_scheme \<Rightarrow> bool" where
  "as_inv kend root T ps s \<longleftrightarrow>
     vm_inv kend root T ps s \<and>
     (\<forall>va. page_aligned va \<and> ubit (pmem s) T va \<longrightarrow>
        valid_page kend (upa (pmem s) T va) \<and> upa (pmem s) T va \<notin> ran T \<union> set ps) \<and>
     (\<forall>va vb. page_aligned va \<and> ubit (pmem s) T va \<and> page_aligned vb \<and> ubit (pmem s) T vb \<and>
        upa (pmem s) T va = upa (pmem s) T vb \<longrightarrow> va = vb)"

lemma as_vm: "as_inv kend root T ps s \<Longrightarrow> vm_inv kend root T ps s"
  by (simp add: as_inv_def)

lemma as_pt: "as_inv kend root T ps s \<Longrightarrow> pt_inv kend root T (pmem s)"
  by (simp add: as_inv_def vm_inv_def)

lemma as_page:
  assumes "as_inv kend root T ps s" and "page_aligned va" and "ubit (pmem s) T va"
  shows "valid_page kend (upa (pmem s) T va)" and "upa (pmem s) T va \<notin> ran T \<union> set ps"
  using assms by (auto simp: as_inv_def)

lemma as_inj:
  assumes "as_inv kend root T ps s" and "page_aligned va" "ubit (pmem s) T va"
    and "page_aligned vb" "ubit (pmem s) T vb" and "upa (pmem s) T va = upa (pmem s) T vb"
  shows "va = vb"
  using assms unfolding as_inv_def by blast

section \<open>Chunks of a page\<close>

lemma chunk_page:
  assumes "i < 4096 - unat va mod 4096"
  shows "PGROUNDDOWN (va + of_nat i) = PGROUNDDOWN va"
proof -
  let ?o = "va - PGROUNDDOWN va + of_nat i"
  have "unat ?o = unat va mod 4096 + i"
    using assms unat_add_of_nat [of "va - PGROUNDDOWN va" i] by (simp add: page_off)
  then have "PGROUNDDOWN (PGROUNDDOWN va + ?o) = PGROUNDDOWN va"
    using assms by (intro PGROUNDDOWN_in_page) auto
  then show ?thesis by simp
qed

lemma chunk_next: "PGROUNDDOWN va + PGSIZE = va + of_nat (4096 - unat va mod 4096)"
proof -
  have "of_nat (4096 - unat va mod 4096) = PGSIZE - (va - PGROUNDDOWN va)"
    unfolding unat_page_rest [symmetric] by simp
  then show ?thesis by simp
qed

lemma umem_chunk:
  assumes "i < 4096 - unat va mod 4096"
  shows "umem m T (va + of_nat i) =
     (if ubit m T (PGROUNDDOWN va)
      then Some (m (upa m T (PGROUNDDOWN va) + (va - PGROUNDDOWN va) + of_nat i)) else None)"
  by (simp add: umem_def chunk_page [OF assms] algebra_simps)

lemma walkaddr_ubit:
  assumes "pt_inv kend root T (pmem s)"
  shows "walkaddr root va s = Inr (if ubit (pmem s) T va then upa (pmem s) T va else 0)"
  unfolding walkaddr_leaf [OF assms] by (simp add: ubit_def upa_def)

section \<open>Reading\<close>

lemma copyin_ok:
  assumes "as_inv kend root T ps s"
  shows "\<exists>r bs. copyin root va n s = Inr (r, bs) \<and> length bs \<le> n \<and>
     (\<forall>i < length bs. umem (pmem s) T (va + of_nat i) = Some (bs ! i)) \<and>
     (r = 0 \<and> length bs = n \<or> r = -1 \<and> (\<exists>i < n. umem (pmem s) T (va + of_nat i) = None))"
proof (induction n arbitrary: va rule: less_induct)
  case (less n)
  let ?va0 = "PGROUNDDOWN va"
  define k where "k = min (4096 - unat va mod 4096) n"
  have k: "k \<le> n" "k \<le> 4096 - unat va mod 4096" "k < n \<longrightarrow> k = 4096 - unat va mod 4096"
    by (auto simp: k_def)
  let ?m = "pmem s"
  have w: "walkaddr root ?va0 s = Inr (if ubit ?m T ?va0 then upa ?m T ?va0 else 0)"
    by (rule walkaddr_ubit [OF as_pt [OF assms]])
  have pos: "0 < 4096 - unat va mod 4096" by simp
  consider "n = 0" | "n \<noteq> 0" "\<not> ubit ?m T ?va0" | "n \<noteq> 0" "ubit ?m T ?va0" by blast
  then show ?case
  proof cases
    case 1
    then show ?thesis by (simp add: copyin.simps)
  next
    case 2
    then have "copyin root va n s = Inr (-1, [])" by (simp add: copyin.simps w)
    moreover have "umem ?m T (va + of_nat 0) = None" using 2 umem_chunk [OF pos] by simp
    ultimately show ?thesis using 2 by fastforce
  next
    case 3
    let ?pa = "upa ?m T ?va0" and ?o = "va - ?va0"
    have nz: "?pa \<noteq> 0" using as_page(1) [OF assms _ 3(2)] by (simp add: valid_page_def)
    have "k \<noteq> 0" using 3(1) pos by (simp add: k_def)
    then obtain r bs where ih: "copyin root (?va0 + PGSIZE) (n - k) s = Inr (r, bs)" "length bs \<le> n - k"
      "\<forall>i < length bs. umem ?m T (?va0 + PGSIZE + of_nat i) = Some (bs ! i)"
      "r = 0 \<and> length bs = n - k \<or> r = -1 \<and> (\<exists>i < n - k. umem ?m T (?va0 + PGSIZE + of_nat i) = None)"
      using less.IH [of "n - k" "?va0 + PGSIZE"] 3(1) by auto
    have nx: "?va0 + PGSIZE + of_nat i = va + of_nat (k + i)" if "k < n" for i
      using that k(3) chunk_next [of va] by (simp add: add.assoc)
    let ?bs = "mem_read ?m (?pa + ?o) k @ bs"
    have c: "copyin root va n s = Inr (r, ?bs)"
      using 3 nz w ih(1) by (subst copyin.simps) (simp add: unat_page_rest Let_def k_def)
    have "umem ?m T (va + of_nat i) = Some (?bs ! i)" if "i < length ?bs" for i
    proof (cases "i < k")
      case True
      then show ?thesis using 3(2) k(2) umem_chunk [of i va ?m T] by (simp add: nth_append)
    next
      case False
      with that ih(2) k(1) have "k < n" "i - k < length bs" by auto
      then have "umem ?m T (?va0 + PGSIZE + of_nat (i - k)) = Some (bs ! (i - k))" using ih(3) by blast
      moreover have "?va0 + PGSIZE + of_nat (i - k) = va + of_nat i"
        using nx [OF \<open>k < n\<close>, of "i - k"] False by (simp only: not_less le_add_diff_inverse)
      moreover have "?bs ! i = bs ! (i - k)" using False by (simp only: nth_append length_mem_read if_False)
      ultimately show ?thesis by (simp only:)
    qed
    then have A: "\<forall>i < length ?bs. umem ?m T (va + of_nat i) = Some (?bs ! i)" by blast
    have "\<exists>i < n. umem ?m T (va + of_nat i) = None"
      if i: "i < n - k" "umem ?m T (?va0 + PGSIZE + of_nat i) = None" for i
    proof (intro exI conjI)
      show "k + i < n" using i(1) by linarith
      show "umem ?m T (va + of_nat (k + i)) = None" using i nx [of i] by simp
    qed
    then have "r = 0 \<and> length ?bs = n \<or> r = -1 \<and> (\<exists>i < n. umem ?m T (va + of_nat i) = None)"
      using ih(4) k(1) by auto
    moreover have "length ?bs \<le> n" using ih(2) k(1) by simp
    ultimately show ?thesis using c A by blast
  qed
qed

section \<open>Writing\<close>

lemma mframe_as_inv:
  assumes "as_inv kend root T ps s" and "mframe P (pmem s) m'" and "P \<inter> (ran T \<union> set ps) = {}"
  shows "as_inv kend root T ps (s\<lparr>pmem := m'\<rparr>)" and "\<forall>va. leaf m' T va = leaf (pmem s) T va"
proof -
  have vm: "vm_inv kend root T ps s" and pt: "pt_inv kend root T (pmem s)"
    using assms(1) by (auto simp: as_inv_def vm_inv_def)
  have d: "ran T \<inter> P = {}" "set ps \<inter> P = {}" using assms(3) by auto
  note fr = pt_frame [OF pt assms(2) d(1)]
  show l: "\<forall>va. leaf m' T va = leaf (pmem s) T va" using fr(2) by simp
  have "kmem_inv kend (s\<lparr>pmem := m'\<rparr>) ps"
    using vm mframe_fl_path [OF _ assms(2) d(2)] by (auto simp: vm_inv_def kmem_inv_def)
  with fr(1) vm have "vm_inv kend root T ps (s\<lparr>pmem := m'\<rparr>)" by (simp add: vm_inv_def)
  moreover have "ubit m' T = ubit (pmem s) T" "upa m' T = upa (pmem s) T"
    using l by (simp_all add: ubit_def upa_def fun_eq_iff)
  ultimately show "as_inv kend root T ps (s\<lparr>pmem := m'\<rparr>)"
    using assms(1) by (simp add: as_inv_def)
qed

lemma write_chunk:
  assumes as: "as_inv kend root T ps s" and u: "ubit (pmem s) T (PGROUNDDOWN va)"
    and len: "length cs \<le> 4096 - unat va mod 4096"
  defines "m' \<equiv> mem_write (pmem s) (upa (pmem s) T (PGROUNDDOWN va) + (va - PGROUNDDOWN va)) cs"
  shows "mframe {upa (pmem s) T (PGROUNDDOWN va)} (pmem s) m'"
    and "as_inv kend root T ps (s\<lparr>pmem := m'\<rparr>)" and "\<forall>b. leaf m' T b = leaf (pmem s) T b"
    and "umem m' T = (\<lambda>a. if unat (a - va) < length cs then Some (cs ! unat (a - va)) else umem (pmem s) T a)"
proof -
  let ?m = "pmem s" and ?va0 = "PGROUNDDOWN va"
  let ?pa = "upa ?m T ?va0"
  note pg = as_page [OF as page_aligned_PGROUNDDOWN u]
  have al: "page_aligned ?pa" using pg(1) by (simp add: valid_page_def)
  show fr: "mframe {?pa} ?m m'"
    unfolding mframe_def m'_def
  proof (intro allI impI mem_write_out)
    fix x
    assume x: "PGROUNDDOWN x \<notin> {?pa}"
    show "length cs \<le> unat (x - (?pa + (va - ?va0)))"
    proof (rule ccontr)
      assume "\<not> length cs \<le> unat (x - (?pa + (va - ?va0)))"
      then have "unat (va - ?va0 + (x - (?pa + (va - ?va0)))) < 4096"
        using len unat_add_nowrap [of "va - ?va0" "x - (?pa + (va - ?va0))"] by (simp add: page_off)
      then have "PGROUNDDOWN (?pa + (va - ?va0 + (x - (?pa + (va - ?va0))))) = ?pa"
        using al by (intro PGROUNDDOWN_in_page)
      with x show False by simp
    qed
  qed
  have dis: "{?pa} \<inter> (ran T \<union> set ps) = {}" using pg(2) by simp
  show "as_inv kend root T ps (s\<lparr>pmem := m'\<rparr>)" and l: "\<forall>b. leaf m' T b = leaf ?m T b"
    using mframe_as_inv [OF as fr dis] by auto
  show "umem m' T = (\<lambda>a. if unat (a - va) < length cs then Some (cs ! unat (a - va)) else umem ?m T a)"
  proof
    fix a
    let ?b = "PGROUNDDOWN a"
    have same: "ubit m' T b = ubit ?m T b" "upa m' T b = upa ?m T b" for b
      using l by (simp_all add: ubit_def upa_def)
    have inpage: "?b = ?va0" if "unat (a - va) < length cs"
      using chunk_page [of "unat (a - va)" va] that len by simp
    consider "\<not> ubit ?m T ?b" | "ubit ?m T ?b" "?b = ?va0" | "ubit ?m T ?b" "?b \<noteq> ?va0" by blast
    then show "umem m' T a = (if unat (a - va) < length cs then Some (cs ! unat (a - va)) else umem ?m T a)"
    proof cases
      case 1
      then show ?thesis using inpage u by (auto simp: umem_def same)
    next
      case 2
      have "?pa + (a - ?va0) - (?pa + (va - ?va0)) = a - va" by simp
      then have "m' (?pa + (a - ?va0)) = (if unat (a - va) < length cs then cs ! unat (a - va) else ?m (?pa + (a - ?va0)))"
        by (simp only: m'_def mem_write_def)
      then show ?thesis using 2 by (simp add: umem_def same)
    next
      case 3
      have "upa ?m T ?b \<noteq> ?pa"
        using as_inj [OF as page_aligned_PGROUNDDOWN 3(1) page_aligned_PGROUNDDOWN u] 3(2) by blast
      moreover have "PGROUNDDOWN (upa ?m T ?b + (a - ?b)) = upa ?m T ?b"
        using as_page(1) [OF as page_aligned_PGROUNDDOWN 3(1)]
        by (intro PGROUNDDOWN_in_page) (auto simp: valid_page_def page_off)
      ultimately have "m' (upa ?m T ?b + (a - ?b)) = ?m (upa ?m T ?b + (a - ?b))"
        using fr by (simp add: mframe_def)
      then show ?thesis using inpage 3 by (auto simp: umem_def same)
    qed
  qed
qed

lemma upages_frame:
  "\<forall>b. leaf m' T b = leaf m T b \<Longrightarrow> upages m' T = upages m T \<and> uwritable m' T = uwritable m T"
  by (simp add: upages_def ubit_def upa_def uwritable_def fun_eq_iff)

lemma copyout_page:
  assumes as: "as_inv kend root T ps s" and ne: "bs \<noteq> []"
  shows "copyout root va bs s =
    (if \<not> uwritable (pmem s) T va then Inr (-1, s)
     else copyout root (PGROUNDDOWN va + PGSIZE) (drop (4096 - unat va mod 4096) bs)
       (s\<lparr>pmem := mem_write (pmem s) (upa (pmem s) T (PGROUNDDOWN va) + (va - PGROUNDDOWN va))
                  (take (4096 - unat va mod 4096) bs)\<rparr>))"
proof -
  let ?va0 = "PGROUNDDOWN va"
  note pt = as_pt [OF as]
  have mn: "take (min n (length bs)) bs = take n bs" "drop (min n (length bs)) bs = drop n bs" for n
    by (simp_all add: min_def)
  have "uwritable (pmem s) T va \<longleftrightarrow> ?va0 < MAXVA \<and> leaf_addr T ?va0 \<noteq> 0 \<and>
      load64 (pmem s) (leaf_addr T ?va0) AND PTE_V \<noteq> 0 \<and> load64 (pmem s) (leaf_addr T ?va0) AND PTE_U \<noteq> 0 \<and>
      load64 (pmem s) (leaf_addr T ?va0) AND PTE_W \<noteq> 0"
    using leaf_load [of T ?va0 "pmem s"] leaf_zero [OF pt, of ?va0 "pmem s"]
    by (cases "leaf_addr T ?va0 = 0") (simp_all add: uwritable_def ubit_def)
  moreover have "upa (pmem s) T ?va0 = PTE2PA (load64 (pmem s) (leaf_addr T ?va0))" if "leaf_addr T ?va0 \<noteq> 0"
    using leaf_load [OF that] by (simp add: upa_def)
  moreover have "MAXVA \<le> ?va0 \<or> walk root ?va0 False s = Inr (leaf_addr T ?va0, s)"
    using walk_find [OF pt, of ?va0] by (cases "?va0 < MAXVA") auto
  ultimately show ?thesis
    using ne by (subst copyout.simps) (auto simp: Let_def unat_page_rest mn)
qed

lemma uwritable_chunk:
  "i < 4096 - unat va mod 4096 \<Longrightarrow> uwritable m T (va + of_nat i) = uwritable m T va"
  by (simp add: uwritable_def chunk_page)

lemma uwritable_room:
  assumes "uwritable m T va"
  shows "unat va + (4096 - unat va mod 4096) \<le> unat MAXVA"
proof -
  have "PGROUNDDOWN va < MAXVA" using assms by (simp add: uwritable_def ubit_def)
  moreover have "page_aligned MAXVA" by (simp add: page_aligned_def MAXVA_def PGSIZE_def)
  ultimately have "unat (PGROUNDDOWN va) + 4096 \<le> unat MAXVA"
    using aligned_apart [of "PGROUNDDOWN va" MAXVA] by (cases "PGROUNDDOWN va = MAXVA") (auto simp: word_less_nat_alt)
  then show ?thesis using mod_less_eq_dividend [of "unat va" 4096] unfolding unat_PGROUNDDOWN by linarith
qed

definition copied :: "u64 \<Rightarrow> byte list \<Rightarrow> nat \<Rightarrow> (u64 \<Rightarrow> byte option) \<Rightarrow> u64 \<Rightarrow> byte option" where
  "copied va bs k f = (\<lambda>a. if unat (a - va) < k then Some (bs ! unat (a - va)) else f a)"

lemma copied_append:
  assumes "c \<le> 4096" and "unat va + c + k \<le> unat MAXVA" and "k = 0 \<or> c \<le> length bs" and "c' = min c (length bs)"
  shows "copied (va + of_nat c) (drop c bs) k (copied va (take c bs) c' f) = copied va bs (c' + k) f"
proof
  fix a
  let ?x = "a - va"
  have sub: "a - (va + of_nat c) = ?x - of_nat c" by (simp add: diff_diff_eq)
  have c: "unat (of_nat c :: u64) = c" using assms(1) by (intro unat_of_nat_lt) simp
  have u: "unat (?x - of_nat c) = (if c \<le> unat ?x then unat ?x - c else unat ?x + 2 ^ 64 - c)"
    using c by (simp add: unat_sub_if')
  have mx: "unat MAXVA < 2 ^ 63" by (simp add: MAXVA_def)
  show "copied (va + of_nat c) (drop c bs) k (copied va (take c bs) c' f) a = copied va bs (c' + k) f a"
  proof (cases "k = 0")
    case True
    then show ?thesis using assms(4) by (simp add: copied_def)
  next
    case False
    then have cl: "c \<le> length bs" "c' = c" using assms(3,4) by auto
    have "unat (?x - of_nat c) < k \<longleftrightarrow> c \<le> unat ?x \<and> unat ?x - c < k"
      unfolding u using assms(1,2) mx by auto
    then show ?thesis using cl u unfolding copied_def sub by auto
  qed
qed

lemma copyout_ok:
  "as_inv kend root T ps s \<Longrightarrow>
   \<exists>r k s'. copyout root va bs s = Inr (r, s') \<and> as_inv kend root T ps s' \<and>
     k \<le> length bs \<and> (k = 0 \<or> unat va + k \<le> unat MAXVA) \<and>
     (\<forall>i < k. uwritable (pmem s) T (va + of_nat i)) \<and>
     (r = 0 \<and> k = length bs \<or> r = -1 \<and> k < length bs \<and> \<not> uwritable (pmem s) T (va + of_nat k)) \<and>
     (\<forall>b. leaf (pmem s') T b = leaf (pmem s) T b) \<and>
     umem (pmem s') T = copied va bs k (umem (pmem s) T) \<and>
     mframe (upages (pmem s) T) (pmem s) (pmem s') \<and>
     freelist s' = freelist s \<and> kmem_state.more s' = kmem_state.more s"
proof (induction "length bs" arbitrary: va bs s rule: less_induct)
  case (less bs va s)
  note as = less.prems
  consider "bs = []" | "bs \<noteq> []" "\<not> uwritable (pmem s) T va" | "bs \<noteq> []" "uwritable (pmem s) T va" by blast
  then show ?case
  proof cases
    case 1
    then show ?thesis using as
      by (intro exI [of _ 0] exI [of _ s]) (simp add: copyout.simps copied_def)
  next
    case 2
    then show ?thesis using as copyout_page [OF as 2(1)]
      by (intro exI [of _ "-1"] exI [of _ 0] exI [of _ s]) (simp add: copied_def)
  next
    case 3
    define c where "c = 4096 - unat va mod 4096"
    have c: "0 < c" "c \<le> 4096" by (simp_all add: c_def)
    let ?u = "PGROUNDDOWN va" and ?cs = "take c bs"
    have ub: "ubit (pmem s) T ?u" using 3 by (simp add: uwritable_def)
    let ?s = "s\<lparr>pmem := mem_write (pmem s) (upa (pmem s) T ?u + (va - ?u)) ?cs\<rparr>"
    have "length ?cs \<le> 4096 - unat va mod 4096" by (simp add: c_def)
    note w = write_chunk [OF as ub this]
    have "length (drop c bs) < length bs" using 3 c by simp
    from less.hyps [OF this w(2), of "va + of_nat c"] obtain r k s' where h:
      "copyout root (va + of_nat c) (drop c bs) ?s = Inr (r, s')" "as_inv kend root T ps s'"
      "k \<le> length (drop c bs)" "k = 0 \<or> unat (va + of_nat c) + k \<le> unat MAXVA"
      "\<forall>i < k. uwritable (pmem ?s) T (va + of_nat c + of_nat i)"
      "r = 0 \<and> k = length (drop c bs) \<or> r = -1 \<and> k < length (drop c bs) \<and> \<not> uwritable (pmem ?s) T (va + of_nat c + of_nat k)"
      "\<forall>b. leaf (pmem s') T b = leaf (pmem ?s) T b"
      "umem (pmem s') T = copied (va + of_nat c) (drop c bs) k (umem (pmem ?s) T)"
      "mframe (upages (pmem ?s) T) (pmem ?s) (pmem s')" "freelist s' = freelist s"
      "kmem_state.more s' = kmem_state.more s" by auto
    have uw: "uwritable (pmem ?s) T = uwritable (pmem s) T" "upages (pmem ?s) T = upages (pmem s) T"
      using upages_frame [OF w(3)] by auto
    have room: "unat va + c \<le> unat MAXVA" using uwritable_room [OF 3(2)] by (simp add: c_def)
    have uc: "unat (va + of_nat c) = unat va + c"
      using room by (intro unat_add_of_nat) (simp add: MAXVA_def)
    let ?c = "min c (length bs)"
    have kc: "k = 0 \<or> ?c = c" and kl: "k = 0 \<or> c \<le> length bs" using h(3) by auto
    have "copyout root va bs s = Inr (r, s')"
      using copyout_page [OF as 3(1)] 3(2) h(1) chunk_next [of va] by (simp add: c_def)
    moreover have "\<forall>i < ?c + k. uwritable (pmem s) T (va + of_nat i)"
    proof (intro allI impI)
      fix i
      assume i: "i < ?c + k"
      show "uwritable (pmem s) T (va + of_nat i)"
      proof (cases "i < ?c")
        case True
        then show ?thesis using uwritable_chunk [of i va] 3(2) by (simp add: c_def)
      next
        case False
        with i kc have "i - c < k" "i = c + (i - c)" by auto
        with h(5) uw(1) show ?thesis by (metis add.assoc of_nat_add)
      qed
    qed
    moreover have "r = 0 \<and> ?c + k = length bs \<or> r = -1 \<and> ?c + k < length bs \<and> \<not> uwritable (pmem s) T (va + of_nat (?c + k))"
      using h(6) uw kc by (auto simp: add.assoc)
    moreover have "?c + k = 0 \<or> unat va + (?c + k) \<le> unat MAXVA" using h(4) uc room kc by auto
    moreover have "umem (pmem s') T = copied va bs (?c + k) (umem (pmem s) T)"
    proof -
      have "umem (pmem ?s) T = copied va ?cs ?c (umem (pmem s) T)"
        using w(4) by (simp add: copied_def min.commute)
      then show ?thesis
        using h(4,8) copied_append [OF c(2), of va k bs ?c "umem (pmem s) T"] uc room kc kl by auto
    qed
    moreover have "mframe (upages (pmem s) T) (pmem s) (pmem s')"
    proof (rule mframe_trans)
      have "{upa (pmem s) T ?u} \<subseteq> upages (pmem s) T"
        using ub page_aligned_PGROUNDDOWN by (auto simp: upages_def)
      then show "mframe (upages (pmem s) T) (pmem s) (pmem ?s)" using mframe_mono [OF w(1)] by simp
      show "mframe (upages (pmem s) T) (pmem ?s) (pmem s')" using h(9) uw(2) by simp
    qed
    moreover have "?c + k \<le> length bs" using h(3) by auto
    ultimately show ?thesis using h(2,7,10,11) w(3)
      by (intro exI [of _ r] exI [of _ "?c + k"] exI [of _ s']) simp
  qed
qed

section \<open>Reading a string\<close>

lemma str_chunk_spec:
  "\<exists>bs nul. str_chunk m p n = (bs, nul) \<and> length bs \<le> n \<and> (\<forall>i < length bs. bs ! i = m (p + of_nat i)) \<and>
     (if nul then bs \<noteq> [] \<and> last bs = 0 \<and> 0 \<notin> set (butlast bs) else length bs = n \<and> 0 \<notin> set bs)"
proof (induction n arbitrary: p)
  case (Suc n)
  obtain bs nul where h: "str_chunk m (p + 1) n = (bs, nul)" "length bs \<le> n"
    "\<forall>i < length bs. bs ! i = m (p + 1 + of_nat i)"
    "if nul then bs \<noteq> [] \<and> last bs = 0 \<and> 0 \<notin> set (butlast bs) else length bs = n \<and> 0 \<notin> set bs"
    using Suc [of "p + 1"] by blast
  then have "\<forall>i < length (m p # bs). (m p # bs) ! i = m (p + of_nat i)"
    by (auto simp: nth_Cons algebra_simps split: nat.splits)
  with h show ?case by (auto split: if_splits)
qed (auto intro: exI [of _ False])

definition cstring_at :: "(u64 \<Rightarrow> byte option) \<Rightarrow> u64 \<Rightarrow> byte list \<Rightarrow> bool" where
  "cstring_at f va bs \<longleftrightarrow>
     bs \<noteq> [] \<and> last bs = 0 \<and> 0 \<notin> set (butlast bs) \<and> (\<forall>i < length bs. f (va + of_nat i) = Some (bs ! i))"

definition no_cstring :: "(u64 \<Rightarrow> byte option) \<Rightarrow> u64 \<Rightarrow> nat \<Rightarrow> bool" where
  "no_cstring f va n \<longleftrightarrow>
     (\<exists>k \<le> n. (\<forall>i < k. f (va + of_nat i) \<noteq> None \<and> f (va + of_nat i) \<noteq> Some 0) \<and>
             (k = n \<or> f (va + of_nat k) = None))"

lemma cstring_at_append:
  assumes "cstring_at f (va + of_nat c) bs" and "length cs = c" and "0 \<notin> set cs"
    and "\<forall>i < c. f (va + of_nat i) = Some (cs ! i)"
  shows "cstring_at f va (cs @ bs)"
proof -
  have "f (va + of_nat i) = Some ((cs @ bs) ! i)" if "i < length (cs @ bs)" for i
  proof (cases "i < c")
    case True
    then show ?thesis using assms(2,4) by (simp add: nth_append)
  next
    case False
    then have "i - c < length bs" using that assms(2) by simp
    then have "f (va + of_nat c + of_nat (i - c)) = Some (bs ! (i - c))"
      using assms(1) unfolding cstring_at_def by blast
    moreover have "va + of_nat c + of_nat (i - c) = va + of_nat i" using False by (simp add: add.assoc)
    ultimately show ?thesis using False assms(2) by (simp add: nth_append)
  qed
  then show ?thesis using assms(1,3) by (auto simp: cstring_at_def butlast_append)
qed

lemma no_cstring_append:
  assumes "no_cstring f (va + of_nat c) (n - c)" and "c \<le> n"
    and "\<forall>i < c. f (va + of_nat i) \<noteq> None \<and> f (va + of_nat i) \<noteq> Some 0"
  shows "no_cstring f va n"
proof -
  obtain k where k: "k \<le> n - c"
    "\<forall>i < k. f (va + of_nat c + of_nat i) \<noteq> None \<and> f (va + of_nat c + of_nat i) \<noteq> Some 0"
    "k = n - c \<or> f (va + of_nat c + of_nat k) = None" using assms(1) unfolding no_cstring_def by blast
  have "f (va + of_nat i) \<noteq> None \<and> f (va + of_nat i) \<noteq> Some 0" if "i < c + k" for i
  proof (cases "i < c")
    case False
    then have "f (va + of_nat c + of_nat (i - c)) \<noteq> None \<and> f (va + of_nat c + of_nat (i - c)) \<noteq> Some 0"
      using k(2) that by (metis add_diff_inverse_nat nat_add_left_cancel_less)
    with False show ?thesis by (simp add: add.assoc of_nat_diff)
  qed (use assms(3) in blast)
  with k(1,3) assms(2) show ?thesis
    unfolding no_cstring_def by (intro exI [of _ "c + k"]) (auto simp: add.assoc)
qed

lemma copyinstr_ok:
  assumes "as_inv kend root T ps s"
  shows "\<exists>r bs. copyinstr root va n s = Inr (r, bs) \<and>
     (r = 0 \<and> length bs \<le> n \<and> cstring_at (umem (pmem s) T) va bs \<or>
      r = -1 \<and> no_cstring (umem (pmem s) T) va n)"
proof (induction n arbitrary: va rule: less_induct)
  case (less n)
  let ?va0 = "PGROUNDDOWN va" and ?m = "pmem s"
  define k where "k = min (4096 - unat va mod 4096) n"
  have k: "k \<le> n" "k \<le> 4096 - unat va mod 4096" "k < n \<longrightarrow> k = 4096 - unat va mod 4096"
    by (auto simp: k_def)
  have w: "walkaddr root ?va0 s = Inr (if ubit ?m T ?va0 then upa ?m T ?va0 else 0)"
    by (rule walkaddr_ubit [OF as_pt [OF assms]])
  have pos: "0 < 4096 - unat va mod 4096" by simp
  consider "n = 0" | "n \<noteq> 0" "\<not> ubit ?m T ?va0" | "n \<noteq> 0" "ubit ?m T ?va0" by blast
  then show ?case
  proof cases
    case 1
    then show ?thesis by (simp add: copyinstr.simps no_cstring_def)
  next
    case 2
    then have "copyinstr root va n s = Inr (-1, [])" by (simp add: copyinstr.simps w)
    moreover have "umem ?m T (va + of_nat 0) = None" using 2 umem_chunk [OF pos] by simp
    ultimately show ?thesis unfolding no_cstring_def by auto
  next
    case 3
    let ?pa = "upa ?m T ?va0" and ?o = "va - ?va0"
    have nz: "?pa \<noteq> 0" using as_page(1) [OF assms _ 3(2)] by (simp add: valid_page_def)
    obtain cs nul where cs: "str_chunk ?m (?pa + ?o) k = (cs, nul)" "length cs \<le> k"
      "\<forall>i < length cs. cs ! i = ?m (?pa + ?o + of_nat i)"
      "if nul then cs \<noteq> [] \<and> last cs = 0 \<and> 0 \<notin> set (butlast cs) else length cs = k \<and> 0 \<notin> set cs"
      using str_chunk_spec by blast
    have um: "umem ?m T (va + of_nat i) = Some (cs ! i)" if "i < length cs" for i
      using that 3(2) k(2) cs(2,3) umem_chunk [of i va ?m T] by auto
    show ?thesis
    proof (cases nul)
      case True
      then have "copyinstr root va n s = Inr (0, cs)"
        using 3 nz w cs(1) by (subst copyinstr.simps) (simp add: unat_page_rest Let_def k_def)
      then show ?thesis using True cs(2,4) k(1) um by (auto simp: cstring_at_def)
    next
      case False
      have nx: "?va0 + PGSIZE = va + of_nat k" if "k < n" using that k(3) chunk_next [of va] by simp
      have "k \<noteq> 0" using 3(1) pos by (simp add: k_def)
      then obtain r bs where ih: "copyinstr root (?va0 + PGSIZE) (n - k) s = Inr (r, bs)"
        "r = 0 \<and> length bs \<le> n - k \<and> cstring_at (umem ?m T) (?va0 + PGSIZE) bs \<or>
         r = -1 \<and> no_cstring (umem ?m T) (?va0 + PGSIZE) (n - k)"
        using less.IH [of "n - k" "?va0 + PGSIZE"] 3(1) by auto
      have c: "copyinstr root va n s = Inr (r, cs @ bs)"
        using 3 nz w cs(1) False ih(1) by (subst copyinstr.simps) (simp add: unat_page_rest Let_def k_def)
      have ck: "length cs = k" "0 \<notin> set cs" using cs(4) False by auto
      have ok: "\<forall>i < k. umem ?m T (va + of_nat i) \<noteq> None \<and> umem ?m T (va + of_nat i) \<noteq> Some 0"
        using um ck by (metis nth_mem option.inject option.distinct(1))
      show ?thesis
      proof (cases "k < n")
        case True
        note ih' = ih(2) [unfolded nx [OF True]]
        show ?thesis
          using ih' c ck um k(1) ok cstring_at_append [of _ va k bs cs] no_cstring_append [of _ va k n] by auto
      next
        case False
        then have "r = -1" using ih(2) k(1) by (auto simp: cstring_at_def)
        moreover have "no_cstring (umem ?m T) va n" using ok False k(1) by (auto simp: no_cstring_def)
        ultimately show ?thesis using c by blast
      qed
    qed
  qed
qed

section \<open>Single bytes\<close>

lemma as_inv_cong:
  "pmem s = pmem s' \<Longrightarrow> freelist s = freelist s' \<Longrightarrow> as_inv kend root T ps s = as_inv kend root T ps s'"
  by (simp add: as_inv_def vm_inv_def kmem_inv_def)

text \<open>The bytes at consecutive user addresses.\<close>

definition ubytes :: "(u64 \<Rightarrow> byte option) \<Rightarrow> u64 \<Rightarrow> nat \<Rightarrow> byte list \<Rightarrow> bool" where
  "ubytes f a i bs \<longleftrightarrow> (\<forall>j < length bs. f (a + of_nat (i + j)) = Some (bs ! j))"

lemma ubytes_Nil [simp]: "ubytes f a i []"
  by (simp add: ubytes_def)

lemma ubytes_Cons: "ubytes f a i (b # bs) \<longleftrightarrow> f (a + of_nat i) = Some b \<and> ubytes f a (Suc i) bs"
  by (simp add: ubytes_def All_less_Suc2 algebra_simps)

lemma copyin_one:
  assumes "as_inv kend root T ps s"
  shows "copyin root a 1 s = (case umem (pmem s) T a of None \<Rightarrow> Inr (-1, []) | Some b \<Rightarrow> Inr (0, [b]))"
proof -
  obtain r bs where c: "copyin root a 1 s = Inr (r, bs)" "length bs \<le> 1"
    "\<forall>i < length bs. umem (pmem s) T (a + of_nat i) = Some (bs ! i)"
    "r = 0 \<and> length bs = 1 \<or> r = -1 \<and> (\<exists>i < 1. umem (pmem s) T (a + of_nat i) = None)"
    using copyin_ok [OF assms, of a 1] by blast
  show ?thesis
  proof (cases "umem (pmem s) T a")
    case None
    then have "bs = []" using c(2,3) by (cases bs) auto
    with None c(1,4) show ?thesis by auto
  next
    case (Some b)
    then have "bs = [b]" "r = 0" using c(3,4) by (auto simp: length_Suc_conv)
    with Some c(1) show ?thesis by simp
  qed
qed

text \<open>User memory after bytes have been stored at consecutive addresses.\<close>

primrec uputs :: "u64 \<Rightarrow> nat \<Rightarrow> byte list \<Rightarrow> (u64 \<Rightarrow> byte option) \<Rightarrow> u64 \<Rightarrow> byte option" where
  "uputs a i [] f = f"
| "uputs a i (b # bs) f = uputs a (Suc i) bs (f(a + of_nat i := Some b))"

lemma uputs_other:
  "\<forall>j < length bs. x \<noteq> a + of_nat (i + j) \<Longrightarrow> uputs a i bs f x = f x"
  by (induction bs arbitrary: i f) (simp_all add: All_less_Suc2 algebra_simps)

lemma uputs_ubytes:
  "i + length bs < 2 ^ 64 \<Longrightarrow> ubytes (uputs a i bs f) a i bs"
proof (induction bs arbitrary: i f)
  case (Cons b bs)
  have "a + of_nat i \<noteq> a + of_nat (Suc i + j)" if "j < length bs" for j
    using Cons.prems that of_nat_word_eq_iff [of i "Suc i + j", where 'a = 64] by simp
  then have "uputs a (Suc i) bs (f(a + of_nat i := Some b)) (a + of_nat i) = Some b"
    by (subst uputs_other) auto
  with Cons show ?case by (simp add: ubytes_Cons)
qed simp

lemma copyout_one:
  assumes "as_inv kend root T ps s"
  shows "\<exists>s'. copyout root a [b] s = Inr (if uwritable (pmem s) T a then 0 else -1, s') \<and>
     as_inv kend root T ps s' \<and> uwritable (pmem s') T = uwritable (pmem s) T \<and>
     umem (pmem s') T = (if uwritable (pmem s) T a then (umem (pmem s) T)(a := Some b) else umem (pmem s) T) \<and>
     kmem_state.more s' = kmem_state.more s"
proof -
  obtain r k s' where c: "copyout root a [b] s = Inr (r, s')" "as_inv kend root T ps s'" "k \<le> length [b]"
    "\<forall>i < k. uwritable (pmem s) T (a + of_nat i)"
    "r = 0 \<and> k = length [b] \<or> r = -1 \<and> k < length [b] \<and> \<not> uwritable (pmem s) T (a + of_nat k)"
    "\<forall>v. leaf (pmem s') T v = leaf (pmem s) T v"
    "umem (pmem s') T = copied a [b] k (umem (pmem s) T)" "kmem_state.more s' = kmem_state.more s"
    using copyout_ok [OF assms, of a "[b]"] by blast
  have "copied a [b] (Suc 0) f = f(a := Some b)" for f
    by (auto simp: copied_def fun_eq_iff unat_eq_zero)
  moreover have "copied a [b] 0 f = f" for f by (simp add: copied_def)
  moreover have "uwritable (pmem s) T a \<longleftrightarrow> k = 1" using c(4,5) by (cases "k = 0") auto
  ultimately show ?thesis using c upages_frame [OF c(6)] by (intro exI [of _ s']) auto
qed

section \<open>Properties\<close>

text \<open>
  C33. Memory copied out to a user address and copied back in is the same: when \<^verbatim>\<open>copyout\<close>
  returns 0, \<^verbatim>\<open>copyin\<close> from the same address returns 0 and the same bytes, whatever page
  boundaries the range crosses.
\<close>

theorem copyout_copyin_roundtrip:
  assumes "as_inv kend root T ps s" and "copyout root va bs s = Inr (0, s')"
  shows "copyin root va (length bs) s' = Inr (0, bs)"
proof -
  obtain k where k: "as_inv kend root T ps s'" "k = length bs" "k = 0 \<or> unat va + k \<le> unat MAXVA"
    "umem (pmem s') T = copied va bs k (umem (pmem s) T)"
    using copyout_ok [OF assms(1), of va bs] assms(2) by auto
  have um: "umem (pmem s') T (va + of_nat i) = Some (bs ! i)" if "i < length bs" for i
  proof -
    have "unat (of_nat i :: u64) = i" using that k(2,3) by (intro unat_of_nat_lt) (auto simp: MAXVA_def)
    then show ?thesis using that k(2,4) by (simp add: copied_def)
  qed
  obtain r cs where c: "copyin root va (length bs) s' = Inr (r, cs)"
    "\<forall>i < length cs. umem (pmem s') T (va + of_nat i) = Some (cs ! i)"
    "r = 0 \<and> length cs = length bs \<or> r = -1 \<and> (\<exists>i < length bs. umem (pmem s') T (va + of_nat i) = None)"
    using copyin_ok [OF k(1), of va "length bs"] by auto
  then have "r = 0" "length cs = length bs" using um by auto
  then have "cs = bs" using c(2) um by (intro nth_equalityI) auto
  with c(1) \<open>r = 0\<close> show ?thesis by simp
qed

text \<open>
  C5. \<^verbatim>\<open>copyout\<close> writes user memory and nothing else: it never panics, it copies up to the first
  address that is not a writable user page (returning 0 if there is none, -1 otherwise), the user
  memory of the process is the old one with those bytes replaced, the page table is unchanged,
  and no physical page other than the user pages of this address space is touched.
\<close>

theorem copyout_isolated:
  assumes "as_inv kend root T ps s"
  shows "\<exists>r k s'. copyout root va bs s = Inr (r, s') \<and> as_inv kend root T ps s' \<and>
     (\<forall>i < k. uwritable (pmem s) T (va + of_nat i)) \<and>
     (r = 0 \<and> k = length bs \<or> r = -1 \<and> k < length bs \<and> \<not> uwritable (pmem s) T (va + of_nat k)) \<and>
     umem (pmem s') T = (\<lambda>a. if unat (a - va) < k then Some (bs ! unat (a - va)) else umem (pmem s) T a) \<and>
     (\<forall>x. PGROUNDDOWN x \<notin> upages (pmem s) T \<longrightarrow> pmem s' x = pmem s x)"
proof -
  obtain r k s' where "copyout root va bs s = Inr (r, s')" "as_inv kend root T ps s'"
    "\<forall>i < k. uwritable (pmem s) T (va + of_nat i)"
    "r = 0 \<and> k = length bs \<or> r = -1 \<and> k < length bs \<and> \<not> uwritable (pmem s) T (va + of_nat k)"
    "umem (pmem s') T = copied va bs k (umem (pmem s) T)" "mframe (upages (pmem s) T) (pmem s) (pmem s')"
    using copyout_ok [OF assms, of va bs] by blast
  then show ?thesis unfolding mframe_def copied_def by blast
qed

text \<open>
  C34. \<^verbatim>\<open>copyinstr\<close> either returns 0 with the NUL-terminated string at the user address, all of
  it mapped and its only NUL the last byte, or returns -1 when no NUL occurs before the bound or
  the first unmapped address; it never panics.
\<close>

theorem copyinstr_finds_string:
  assumes "as_inv kend root T ps s"
  shows "\<exists>r bs. copyinstr root va n s = Inr (r, bs) \<and>
     (r = 0 \<and> length bs \<le> n \<and> cstring_at (umem (pmem s) T) va bs \<or>
      r = -1 \<and> no_cstring (umem (pmem s) T) va n)"
  using assms by (rule copyinstr_ok)

lemma one_page_as:
  obtains (ex) s :: kmem_state and T ps where "as_inv 0x80020000 0x80023000 T ps s"
    "leaf (pmem s) T 0x1000 = one_entry"
proof (rule one_page)
  fix s :: kmem_state and T ps
  assume h: "vm_inv 0x80020000 0x80023000 T ps s"
    "\<forall>b. page_aligned b \<longrightarrow> b < MAXVA \<longrightarrow> leaf (pmem s) T b = (if b = 0x1000 then one_entry else 0)"
    "ran T \<union> set ps \<subseteq> {0x80021000, 0x80022000, 0x80023000}"
  have a: "page_aligned 0x1000" "0x1000 < MAXVA" "valid_page 0x80020000 0x80100000"
    by (simp_all add: valid_page_def page_aligned_def PGSIZE_def MAXVA_def PHYSTOP_def KERNBASE_def)
  have u: "va = 0x1000" if "page_aligned va" "ubit (pmem s) T va" for va
    using that h(2) by (auto simp: ubit_def split: if_splits)
  have l: "leaf (pmem s) T 0x1000 = one_entry" using h(2) a by simp
  then have "upa (pmem s) T 0x1000 = 0x80100000" by (simp add: upa_def)
  moreover have "0x80100000 \<notin> ran T \<union> set ps" using h(3) by auto
  ultimately have "as_inv 0x80020000 0x80023000 T ps s"
    unfolding as_inv_def using h(1) a(3) u by metis
  with l show thesis by (rule ex [rotated])
qed

lemma one_page_writable:
  assumes "leaf m T 0x1000 = one_entry" and "i < 4096"
  shows "uwritable m T (0x1000 + of_nat i)"
proof -
  have p: "page_aligned 0x1000" "0x1000 < MAXVA" by (simp_all add: page_aligned_def PGSIZE_def MAXVA_def)
  have "PGROUNDDOWN (0x1000 + of_nat i) = 0x1000"
    using assms(2) unat_of_nat_lt [of i, where 'a = 64] by (intro PGROUNDDOWN_in_page [OF p(1)]) simp
  with assms(1) p show ?thesis by (simp add: uwritable_def ubit_def)
qed

theorem copyout_copyin_roundtrip_witness:
  "\<exists>s s' :: kmem_state. copyout 0x80023000 0x1ffe [1, 2] s = Inr (0, s') \<and>
     copyin 0x80023000 0x1ffe 2 s' = Inr (0, [1, 2])"
proof (rule one_page_as)
  fix s :: kmem_state and T ps
  assume h: "as_inv 0x80020000 0x80023000 T ps s" "leaf (pmem s) T 0x1000 = one_entry"
  have u: "uwritable (pmem s) T (0x1ffe + of_nat k)" if "k < 2" for k
    using one_page_writable [OF h(2), of "4094 + k"] that by (simp add: add.assoc [symmetric])
  obtain r k s' where c: "copyout 0x80023000 0x1ffe [1, 2] s = Inr (r, s')"
    "r = 0 \<and> k = length [1, 2 :: byte] \<or> r = -1 \<and> k < length [1, 2 :: byte] \<and> \<not> uwritable (pmem s) T (0x1ffe + of_nat k)"
    using copyout_ok [OF h(1), of "0x1ffe" "[1, 2]"] by blast
  then have "r = 0" using u [of k] by auto
  with c(1) copyout_copyin_roundtrip [OF h(1), of "0x1ffe" "[1, 2]" s'] show ?thesis
    by (auto simp: numeral_2_eq_2)
qed

theorem copyout_isolated_witness:
  "\<exists>(s :: kmem_state) s' T r. copyout 0x80023000 0x1fff [1, 2] s = Inr (r, s') \<and>
     (\<forall>x. PGROUNDDOWN x \<notin> upages (pmem s) T \<longrightarrow> pmem s' x = pmem s x)"
proof (rule one_page_as)
  fix s :: kmem_state and T ps
  assume h: "as_inv 0x80020000 0x80023000 T ps s"
  show ?thesis using copyout_isolated [OF h, of "0x1fff" "[1, 2]"] by blast
qed

theorem copyinstr_finds_string_witness:
  "\<exists>(s :: kmem_state) T r bs. copyinstr 0x80023000 0x1000 16 s = Inr (r, bs) \<and>
     (r = 0 \<and> length bs \<le> 16 \<and> cstring_at (umem (pmem s) T) 0x1000 bs \<or>
      r = -1 \<and> no_cstring (umem (pmem s) T) 0x1000 16)"
proof (rule one_page_as)
  fix s :: kmem_state and T ps
  assume h: "as_inv 0x80020000 0x80023000 T ps s"
  show ?thesis using copyinstr_finds_string [OF h, of "0x1000" 16] by blast
qed

end
