(* ===== verification/Xv6_Console.thy ===== *)
theory Xv6_Console
  imports Xv6_Proc Xv6_Printf Xv6_Ring Xv6_Usermem
begin

text \<open>
  The UART driver (\<^verbatim>\<open>kernel/uart.c\<close>), the console line discipline (\<^verbatim>\<open>kernel/console.c\<close>) and the
  process listing of \<^verbatim>\<open>kernel/proc.c\<close> that the console prints. An operation that may sleep returns
  an outcome: \<open>Ret r\<close> for \<^verbatim>\<open>return r\<close>, \<open>Sleep i\<close> when the caller has been put to sleep with its local
  counter at \<open>i\<close>; once woken it continues with the same operation started at \<open>i\<close>.
\<close>

datatype outcome = Ret int | Sleep nat

section \<open>The UART\<close>

definition UART_TX_BUF_SIZE :: nat where "UART_TX_BUF_SIZE = 32"

definition upd_uart :: "(uart \<Rightarrow> uart) \<Rightarrow> 'z kstate_scheme \<Rightarrow> 'z kstate_scheme" where
  "upd_uart f s = s\<lparr>uart := f (uart s)\<rparr>"

fun lsr_spin :: "bool list \<Rightarrow> bool list option" where
  "lsr_spin [] = None"
| "lsr_spin (b # bs) = (if b then Some bs else lsr_spin bs)"

definition uartputc_sync :: "byte \<Rightarrow> 'z kstate_scheme \<Rightarrow> 'z kstate_scheme kres" where
  "uartputc_sync c s =
     (case lsr_spin (u_lsr (uart s)) of None \<Rightarrow> Inl Diverges
      | Some bs \<Rightarrow> Inr (upd_uart (\<lambda>u. u\<lparr>u_lsr := bs, u_out := u_out u @ [c]\<rparr>) s))"

text \<open>Taking a character from the transmit ring, and putting one in.\<close>

definition uart_get :: "uart \<Rightarrow> byte \<times> uart" where
  "uart_get u = (tx_buf u ! (unat (tx_r u) mod UART_TX_BUF_SIZE), u\<lparr>tx_r := tx_r u + 1\<rparr>)"

definition uart_put :: "byte \<Rightarrow> uart \<Rightarrow> uart" where
  "uart_put c u = u\<lparr>tx_buf := (tx_buf u)[unat (tx_w u) mod UART_TX_BUF_SIZE := c], tx_w := tx_w u + 1\<rparr>"

function uartstart :: "'z kstate_scheme \<Rightarrow> 'z kstate_scheme" where
  "uartstart s =
     (let u = uart s
      in if tx_w u = tx_r u then s
         else case u_lsr u of
             [] \<Rightarrow> s
           | b # bs \<Rightarrow>
               if \<not> b then upd_uart (\<lambda>u. u\<lparr>u_lsr := bs\<rparr>) s
               else let (c, u) = uart_get u; s = upd_uart (\<lambda>_. u\<lparr>u_lsr := bs\<rparr>) s
                 in uartstart (upd_uart (\<lambda>u. u\<lparr>u_out := u_out u @ [c]\<rparr>) (wakeup ChanUart s)))"
  by pat_completeness auto
termination
  by (relation "measure (\<lambda>s. length (u_lsr (uart s)))") (auto simp: upd_uart_def uart_get_def)

declare uartstart.simps [simp del]

text \<open>\<^verbatim>\<open>uartputc\<close>: False when the caller sleeps because the buffer is full.\<close>

definition uartputc :: "byte \<Rightarrow> 'z kstate_scheme \<Rightarrow> bool \<times> 'z kstate_scheme" where
  "uartputc c s =
     (let u = uart s
      in if tx_w u = tx_r u + of_nat UART_TX_BUF_SIZE then (False, sleep_enter ChanUart s)
         else (True, uartstart (upd_uart (uart_put c) s)))"

definition uartgetc :: "'z kstate_scheme \<Rightarrow> int \<times> 'z kstate_scheme" where
  "uartgetc s =
     (case u_rx (uart s) of [] \<Rightarrow> (-1, s) | c # cs \<Rightarrow> (int (unat c), upd_uart (\<lambda>u. u\<lparr>u_rx := cs\<rparr>) s))"

section \<open>Kernel output\<close>

definition BACKSPACE :: u32 where "BACKSPACE = 0x100"

definition consputc :: "u32 \<Rightarrow> 'z kstate_scheme \<Rightarrow> 'z kstate_scheme kres" where
  "consputc c s =
     (if c = BACKSPACE then kbind (uartputc_sync 8 s) (\<lambda>s. kbind (uartputc_sync 32 s) (uartputc_sync 8))
      else uartputc_sync (ucast c) s)"

primrec consputs :: "byte list \<Rightarrow> 'z kstate_scheme \<Rightarrow> 'z kstate_scheme kres" where
  "consputs [] s = Inr s"
| "consputs (c # cs) s = kbind (consputc (ucast c) s) (consputs cs)"

definition printf :: "byte list \<Rightarrow> varg list \<Rightarrow> 'z kstate_scheme \<Rightarrow> 'z kstate_scheme kres" where
  "printf fmt as s = kbind (printf_loop fmt as) (\<lambda>out. consputs out s)"

fun state_name :: "procstate \<Rightarrow> byte list" where
  "state_name UNUSED = [117, 110, 117, 115, 101, 100]"
| "state_name USED = [117, 115, 101, 100]"
| "state_name SLEEPING = [115, 108, 101, 101, 112, 32]"
| "state_name RUNNABLE = [114, 117, 110, 98, 108, 101]"
| "state_name RUNNING = [114, 117, 110, 32, 32, 32]"
| "state_name ZOMBIE = [122, 111, 109, 98, 105, 101]"

primrec procdump_loop :: "nat list \<Rightarrow> 'z kstate_scheme \<Rightarrow> 'z kstate_scheme kres" where
  "procdump_loop [] s = Inr s"
| "procdump_loop (i # is) s =
     (let p = procs s i
      in if p_state p = UNUSED then procdump_loop is s
         else kbind (printf [37, 100, 32, 37, 115, 32, 37, 115]
                [VInt (of_int (p_pid p)), VStr (Some (state_name (p_state p))),
                 VStr (Some (takeWhile (\<lambda>c. c \<noteq> 0) (p_name p)))] s) (\<lambda>s.
              kbind (printf [10] [] s) (procdump_loop is)))"

definition procdump :: "'z kstate_scheme \<Rightarrow> 'z kstate_scheme kres" where
  "procdump s = kbind (printf [10] [] s) (procdump_loop [0..<NPROC])"

section \<open>The console\<close>

definition INPUT_BUF_SIZE :: nat where "INPUT_BUF_SIZE = 128"

definition upd_cons :: "(console \<Rightarrow> console) \<Rightarrow> 'z kstate_scheme \<Rightarrow> 'z kstate_scheme" where
  "upd_cons f s = s\<lparr>cons := f (cons s)\<rparr>"

definition cons_at :: "console \<Rightarrow> u32 \<Rightarrow> byte" where
  "cons_at c k = cons_buf c ! (unat k mod INPUT_BUF_SIZE)"

text \<open>
  \<^verbatim>\<open>consolewrite\<close> from its \<open>i\<close>-th byte on. After a sleep in \<^verbatim>\<open>uartputc\<close> the byte is read again from the
  caller's memory, where it has not changed.
\<close>

function consolewrite :: "source \<Rightarrow> int \<Rightarrow> nat \<Rightarrow> 'z kstate_scheme \<Rightarrow> (outcome \<times> 'z kstate_scheme) kres" where
  "consolewrite src n i s =
     (if n \<le> int i then Inr (Ret (int i), s)
      else kbind (either_copyin (adv_src i src) 1 s) (\<lambda>(r, bs).
        if r = -1 then Inr (Ret (int i), s)
        else case uartputc (hd bs) s of
            (False, s) \<Rightarrow> Inr (Sleep i, s)
          | (True, s) \<Rightarrow> consolewrite src n (Suc i) s))"
  by pat_completeness auto
termination
  by (relation "measure (\<lambda>(src, n, i, s). nat n - i)") auto

declare consolewrite.simps [simp del]

text \<open>
  \<^verbatim>\<open>consoleread\<close> with \<open>i\<close> bytes delivered so far; the code's \<^verbatim>\<open>n\<close> is \<open>n - i\<close> here, and its \<^verbatim>\<open>target\<close> is \<open>n\<close>.
\<close>

function consoleread :: "dest \<Rightarrow> int \<Rightarrow> nat \<Rightarrow> 'z kstate_scheme \<Rightarrow> (outcome \<times> 'z kstate_scheme) kres" where
  "consoleread dst n i s =
     (if n \<le> int i then Inr (Ret (int i), s)
      else if cons_r (cons s) = cons_w (cons s)
      then if killed (cur s) s then Inr (Ret (-1), s) else Inr (Sleep i, sleep_enter ChanCons s)
      else let c = cons_at (cons s) (cons_r (cons s))
        in if c = 4
           then Inr (Ret (int i), if i = 0 then upd_cons (\<lambda>k. k\<lparr>cons_r := cons_r k + 1\<rparr>) s else s)
           else let s = upd_cons (\<lambda>k. k\<lparr>cons_r := cons_r k + 1\<rparr>) s
             in kbind (either_copyout (adv_dst i dst) [c] s) (\<lambda>(r, _, s).
                if r = -1 then Inr (Ret (int i), s)
                else if c = 10 then Inr (Ret (int (Suc i)), s)
                else consoleread dst n (Suc i) s))"
  by pat_completeness auto
termination
  by (relation "measure (\<lambda>(dst, n, i, s). nat n - i)") auto

declare consoleread.simps [simp del]

function kill_line :: "'z kstate_scheme \<Rightarrow> 'z kstate_scheme kres" where
  "kill_line s =
     (let k = cons s
      in if cons_e k \<noteq> cons_w k \<and> cons_at k (cons_e k - 1) \<noteq> 10
         then case consputc BACKSPACE (upd_cons (\<lambda>k. k\<lparr>cons_e := cons_e k - 1\<rparr>) s) of
             Inl e \<Rightarrow> Inl e
           | Inr s' \<Rightarrow> kill_line s'
         else Inr s)"
  by pat_completeness auto

lemma uartputc_sync_cons: "uartputc_sync c s = Inr s' \<Longrightarrow> cons s' = cons s"
  by (auto simp: uartputc_sync_def upd_uart_def split: option.splits)

lemma consputc_cons: "consputc c s = Inr s' \<Longrightarrow> cons s' = cons s"
  by (auto simp: consputc_def kres_simps dest!: uartputc_sync_cons split: if_splits)

lemma unat_minus_1: "x \<noteq> 0 \<Longrightarrow> unat (x - 1 :: 'a::len word) < unat x"
  by (metis measure_unat)

termination kill_line
proof (relation "measure (\<lambda>s. unat (cons_e (cons s) - cons_w (cons s)))", goal_cases)
  case 1
  then show ?case by simp
next
  case (2 s k s')
  have "unat (cons_e k - cons_w k - 1) < unat (cons_e k - cons_w k)"
    using 2(2) by (intro unat_minus_1) simp
  moreover have "cons s' = k\<lparr>cons_e := cons_e k - 1\<rparr>"
    using consputc_cons [OF 2(3)] 2(1) by (simp add: upd_cons_def)
  ultimately show ?case using 2(1) by (simp add: algebra_simps)
qed

declare kill_line.simps [simp del]

definition store_char :: "byte \<Rightarrow> 'z kstate_scheme \<Rightarrow> 'z kstate_scheme" where
  "store_char c s =
     (let s = upd_cons (\<lambda>k. k\<lparr>cons_buf := (cons_buf k)[unat (cons_e k) mod INPUT_BUF_SIZE := c],
                              cons_e := cons_e k + 1\<rparr>) s
      in if c = 10 \<or> c = 4 \<or> cons_e (cons s) - cons_r (cons s) = of_nat INPUT_BUF_SIZE
         then wakeup ChanCons (upd_cons (\<lambda>k. k\<lparr>cons_w := cons_e k\<rparr>) s)
         else s)"

definition consoleintr :: "byte \<Rightarrow> 'z kstate_scheme \<Rightarrow> 'z kstate_scheme kres" where
  "consoleintr c s =
     (if c = 16 then procdump s
      else if c = 21 then kill_line s
      else if c = 8 \<or> c = 0x7f
      then if cons_e (cons s) \<noteq> cons_w (cons s)
           then consputc BACKSPACE (upd_cons (\<lambda>k. k\<lparr>cons_e := cons_e k - 1\<rparr>) s) else Inr s
      else if c \<noteq> 0 \<and> cons_e (cons s) - cons_r (cons s) < of_nat INPUT_BUF_SIZE
      then let c = (if c = 13 then 10 else c)
        in kbind (consputc (ucast c) s) (\<lambda>s. Inr (store_char c s))
      else Inr s)"

primrec uartintr_loop :: "byte list \<Rightarrow> 'z kstate_scheme \<Rightarrow> 'z kstate_scheme kres" where
  "uartintr_loop [] s = Inr s"
| "uartintr_loop (c # cs) s = kbind (consoleintr c (upd_uart (\<lambda>u. u\<lparr>u_rx := cs\<rparr>) s)) (uartintr_loop cs)"

definition uartintr :: "'z kstate_scheme \<Rightarrow> 'z kstate_scheme kres" where
  "uartintr s = kbind (uartintr_loop (u_rx (uart s)) s) (\<lambda>s. Inr (uartstart s))"

section \<open>Output in order\<close>

definition uart_q :: "uart \<Rightarrow> byte list" where
  "uart_q u = ring UART_TX_BUF_SIZE (tx_buf u) (tx_r u) (tx_w u)"

definition uart_ok :: "uart \<Rightarrow> bool" where
  "uart_ok u \<longleftrightarrow> length (tx_buf u) = UART_TX_BUF_SIZE \<and> length (uart_q u) \<le> UART_TX_BUF_SIZE"

lemma uart_full: "tx_w u = tx_r u + of_nat UART_TX_BUF_SIZE \<longleftrightarrow> length (uart_q u) = UART_TX_BUF_SIZE"
  unfolding uart_q_def by (rule ring_full) (simp add: UART_TX_BUF_SIZE_def)

interpretation uq: fifo uart_q uart_ok UART_TX_BUF_SIZE uart_put uart_get
proof unfold_locales
  fix b u assume h: "uart_ok u" "length (uart_q u) < UART_TX_BUF_SIZE"
  then show "uart_q (uart_put b u) = uart_q u @ [b]"
    unfolding uart_q_def uart_put_def uart_ok_def by (simp add: ring_push UART_TX_BUF_SIZE_def)
  with h show "uart_ok (uart_put b u)" by (simp add: uart_ok_def uart_put_def)
next
  fix u b u' assume h: "uart_ok u" "uart_q u \<noteq> []" "uart_get u = (b, u')"
  then show "uart_q u = b # uart_q u'"
    using ring_pop [of "tx_r u" "tx_w u" UART_TX_BUF_SIZE "tx_buf u"]
    by (auto simp: uart_q_def uart_get_def ring_empty)
  with h show "uart_ok u'" by (auto simp: uart_ok_def uart_get_def)
qed

text \<open>What has been sent, followed by what waits to be sent.\<close>

definition uart_stream :: "uart \<Rightarrow> byte list" where
  "uart_stream u = u_out u @ uart_q u"

definition uart_sent :: "byte \<Rightarrow> uart \<Rightarrow> bool list \<Rightarrow> 'z kstate_scheme \<Rightarrow> 'z kstate_scheme" where
  "uart_sent c u bs s =
     upd_uart (\<lambda>u. u\<lparr>u_out := u_out u @ [c]\<rparr>) (wakeup ChanUart (upd_uart (\<lambda>_. u\<lparr>u_lsr := bs\<rparr>) s))"

lemma uartstart_eqs:
  "tx_w (uart s) = tx_r (uart s) \<or> u_lsr (uart s) = [] \<Longrightarrow> uartstart s = s"
  "tx_w (uart s) \<noteq> tx_r (uart s) \<Longrightarrow> u_lsr (uart s) = False # bs \<Longrightarrow>
   uartstart s = upd_uart (\<lambda>u. u\<lparr>u_lsr := bs\<rparr>) s"
  "tx_w (uart s) \<noteq> tx_r (uart s) \<Longrightarrow> u_lsr (uart s) = True # bs \<Longrightarrow> uart_get (uart s) = (c, u) \<Longrightarrow>
   uartstart s = uartstart (uart_sent c u bs s)"
  by (subst uartstart.simps; auto simp: Let_def uart_sent_def)+

lemma uart_sent_frame: "uart_sent c u bs s = s\<lparr>uart := uart (uart_sent c u bs s), procs := procs (uart_sent c u bs s)\<rparr>"
  unfolding uart_sent_def by (subst (1 2 3) wakeup_frame) (simp add: upd_uart_def)

lemma uart_sent_uart [simp]: "uart (uart_sent c u bs s) = u\<lparr>u_lsr := bs, u_out := u_out u @ [c]\<rparr>"
  by (simp add: uart_sent_def upd_uart_def)

text \<open>Induction along the sent characters.\<close>

lemma uartstart_induct [case_names stop busy send]:
  assumes "\<And>s. tx_w (uart s) = tx_r (uart s) \<or> u_lsr (uart s) = [] \<Longrightarrow> P s"
    and "\<And>s bs. tx_w (uart s) \<noteq> tx_r (uart s) \<Longrightarrow> u_lsr (uart s) = False # bs \<Longrightarrow> P s"
    and "\<And>s bs c u. tx_w (uart s) \<noteq> tx_r (uart s) \<Longrightarrow> u_lsr (uart s) = True # bs \<Longrightarrow>
      uart_get (uart s) = (c, u) \<Longrightarrow> P (uart_sent c u bs s) \<Longrightarrow> P s"
  shows "P s"
proof (induction "length (u_lsr (uart s))" arbitrary: s)
  case 0
  then show ?case by (intro assms(1)) simp
next
  case (Suc n)
  then obtain b bs where l: "u_lsr (uart s) = b # bs" by (cases "u_lsr (uart s)") auto
  obtain c u where g: "uart_get (uart s) = (c, u)" by force
  have "P (uart_sent c u bs s)" using Suc l by simp
  show ?case
  proof (cases "tx_w (uart s) = tx_r (uart s)")
    case True
    then show ?thesis by (intro assms(1)) simp
  next
    case False
    show ?thesis
      using assms(2) [OF False, of bs] assms(3) [OF False _ g \<open>P (uart_sent c u bs s)\<close>] l by (cases b) simp_all
  qed
qed

lemma uartstart_frame:
  "uartstart s = s\<lparr>uart := uart (uartstart s), procs := procs (uartstart s)\<rparr>"
proof (induction s rule: uartstart_induct)
  case (stop s)
  then show ?case by (simp add: uartstart_eqs(1))
next
  case (busy s bs)
  then show ?case by (simp add: uartstart_eqs(2) upd_uart_def)
next
  case (send s bs c u)
  note e = uartstart_eqs(3) [OF send(1-3)]
  show ?case unfolding e using send(4) uart_sent_frame [of c u bs s] by (metis (no_types, lifting) kstate.update_convs(1,9) kstate.surjective)
qed

lemma uartstart_stream:
  "uart_ok (uart s) \<Longrightarrow>
   uart_ok (uart (uartstart s)) \<and> uart_stream (uart (uartstart s)) = uart_stream (uart s)"
proof (induction s rule: uartstart_induct)
  case (stop s)
  then show ?case by (simp add: uartstart_eqs(1))
next
  case (busy s bs)
  then show ?case
    by (simp add: uartstart_eqs(2) upd_uart_def uart_ok_def uart_q_def uart_stream_def)
next
  case (send s bs c u)
  have ne: "uart_q (uart s) \<noteq> []" using send(1) by (auto simp: uart_q_def ring_empty)
  have "uart_q (uart s) = c # uart_q u" "uart_ok u" "u_out u = u_out (uart s)"
    using uq.get_cont [OF send(5) ne send(3)] uq.get_ok [OF send(5) ne send(3)] send(3)
    by (auto simp: uart_get_def)
  then show ?case
    using send by (simp add: uartstart_eqs(3) uart_ok_def uart_q_def uart_stream_def)
qed

lemma uartputc_stream:
  assumes "uart_ok (uart s)" and "uartputc c s = (acc, s')"
  shows "uart_ok (uart s')" and "uart_stream (uart s') = uart_stream (uart s) @ (if acc then [c] else [])"
    and "\<not> acc \<longrightarrow> length (uart_q (uart s')) = UART_TX_BUF_SIZE"
    and "pmem s' = pmem s" "freelist s' = freelist s" "upagetable s' = upagetable s"
proof -
  have "uart_ok (uart s') \<and> uart_stream (uart s') = uart_stream (uart s) @ (if acc then [c] else []) \<and>
    (\<not> acc \<longrightarrow> length (uart_q (uart s')) = UART_TX_BUF_SIZE) \<and>
    pmem s' = pmem s \<and> freelist s' = freelist s \<and> upagetable s' = upagetable s"
  proof (cases "length (uart_q (uart s)) = UART_TX_BUF_SIZE")
    case True
    with assms show ?thesis
      by (auto simp: uartputc_def uart_full [symmetric] sleep_enter_def upd_proc_def)
  next
    case False
    then have lt: "length (uart_q (uart s)) < UART_TX_BUF_SIZE" using assms(1) by (simp add: uart_ok_def)
    let ?s = "upd_uart (uart_put c) s"
    have s': "s' = uartstart ?s" "acc" using assms(2) False by (auto simp: uartputc_def uart_full)
    have "uart_ok (uart ?s)" "uart_stream (uart ?s) = uart_stream (uart s) @ [c]"
      using uq.put_cont [OF assms(1) lt, of c] uq.put_ok [OF assms(1) lt, of c]
      by (simp_all add: upd_uart_def uart_stream_def uart_put_def)
    moreover have "pmem s' = pmem s" "freelist s' = freelist s" "upagetable s' = upagetable s"
      unfolding s' by (subst uartstart_frame, simp add: upd_uart_def)+
    ultimately show ?thesis using uartstart_stream [of ?s] s' by simp
  qed
  then show "uart_ok (uart s')" "uart_stream (uart s') = uart_stream (uart s) @ (if acc then [c] else [])"
    "\<not> acc \<longrightarrow> length (uart_q (uart s')) = UART_TX_BUF_SIZE"
    "pmem s' = pmem s" "freelist s' = freelist s" "upagetable s' = upagetable s" by blast+
qed

lemma consolewrite_ok:
  "as_inv kend (upagetable s) T ps s \<Longrightarrow> uart_ok (uart s) \<Longrightarrow>
   \<exists>out bs s'. consolewrite (UserSrc addr) n i s = Inr (out, s') \<and> uart_ok (uart s') \<and>
     uart_stream (uart s') = uart_stream (uart s) @ bs \<and> ubytes (umem (pmem s) T) addr i bs \<and>
     (out = Ret (int (i + length bs)) \<and>
        (n \<le> int (i + length bs) \<or> umem (pmem s) T (addr + of_nat (i + length bs)) = None) \<or>
      out = Sleep (i + length bs) \<and> int (i + length bs) < n \<and> length (uart_q (uart s')) = UART_TX_BUF_SIZE)"
proof (induction "nat n - i" arbitrary: i s)
  case 0
  then have "n \<le> int i" by linarith
  with 0 show ?case by (subst consolewrite.simps) (auto intro!: exI [of _ "[]"])
next
  case (Suc k)
  then have lt: "\<not> n \<le> int i" by linarith
  note cp = copyin_one [OF Suc.prems(1), of "addr + of_nat i"]
  show ?case
  proof (cases "umem (pmem s) T (addr + of_nat i)")
    case None
    then show ?thesis
      using lt Suc.prems(2) cp by (subst consolewrite.simps) (auto intro!: exI [of _ "[]"])
  next
    case (Some b)
    obtain acc s1 where pc: "uartputc b s = (acc, s1)" by force
    note st = uartputc_stream [OF Suc.prems(2) pc]
    show ?thesis
    proof (cases acc)
      case False
      then have "consolewrite (UserSrc addr) n i s = Inr (Sleep i, s1)"
        using lt cp Some pc by (subst consolewrite.simps) simp
      with False st lt show ?thesis by (auto intro!: exI [of _ "[]"])
    next
      case True
      have e: "consolewrite (UserSrc addr) n i s = consolewrite (UserSrc addr) n (Suc i) s1"
        using lt cp Some pc True by (subst consolewrite.simps) simp
      have as: "as_inv kend (upagetable s1) T ps s1"
        using Suc.prems(1) as_inv_cong [of s1 s kend "upagetable s" T ps] st by simp
      have "k = nat n - Suc i" using Suc.hyps(2) by simp
      from Suc.hyps(1) [OF this as st(1)] obtain out bs s' where
        "consolewrite (UserSrc addr) n (Suc i) s1 = Inr (out, s')" "uart_ok (uart s')"
        "uart_stream (uart s') = uart_stream (uart s1) @ bs" "ubytes (umem (pmem s1) T) addr (Suc i) bs"
        "out = Ret (int (Suc i + length bs)) \<and>
           (n \<le> int (Suc i + length bs) \<or> umem (pmem s1) T (addr + of_nat (Suc i + length bs)) = None) \<or>
         out = Sleep (Suc i + length bs) \<and> int (Suc i + length bs) < n \<and> length (uart_q (uart s')) = UART_TX_BUF_SIZE"
        by auto
      with True Some st show ?thesis
        by (intro exI [of _ out] exI [of _ "b # bs"] exI [of _ s']) (auto simp: e ubytes_Cons)
    qed
  qed
qed

section \<open>The line editor\<close>

text \<open>
  The input buffer as two lists: the lines that readers may take, and the line being edited.
\<close>

definition cons_abs :: "console \<Rightarrow> byte list \<times> byte list" where
  "cons_abs k = (let q = ring INPUT_BUF_SIZE (cons_buf k) (cons_r k) (cons_e k); m = unat (cons_w k - cons_r k)
                 in (take m q, drop m q))"

definition cons_ok :: "console \<Rightarrow> bool" where
  "cons_ok k \<longleftrightarrow> length (cons_buf k) = INPUT_BUF_SIZE \<and>
     unat (cons_w k - cons_r k) \<le> unat (cons_e k - cons_r k) \<and>
     unat (cons_e k - cons_r k) \<le> INPUT_BUF_SIZE \<and> 10 \<notin> set (snd (cons_abs k))"

text \<open>What one input character does to them.\<close>

definition edit_spec :: "byte \<Rightarrow> byte list \<times> byte list \<Rightarrow> byte list \<times> byte list" where
  "edit_spec c = (\<lambda>(lines, edit).
     if c = 16 \<or> c = 0 then (lines, edit)
     else if c = 21 then (lines, [])
     else if c = 8 \<or> c = 0x7f then (lines, butlast edit)
     else if length lines + length edit < INPUT_BUF_SIZE
     then let c = (if c = 13 then 10 else c); edit = edit @ [c]
       in if c = 10 \<or> c = 4 \<or> length lines + length edit = INPUT_BUF_SIZE then (lines @ edit, []) else (lines, edit)
     else (lines, edit))"

lemma cons_same:
  assumes "cons_ok k"
  shows "cons_e k = cons_w k \<longleftrightarrow> snd (cons_abs k) = []"
proof -
  have "cons_e k = cons_w k \<longleftrightarrow> unat (cons_e k - cons_r k) = unat (cons_w k - cons_r k)"
    by (metis diff_add_cancel word_unat_eq_iff)
  also have "\<dots> \<longleftrightarrow> snd (cons_abs k) = []" using assms by (auto simp: cons_abs_def cons_ok_def Let_def)
  finally show ?thesis .
qed

lemma cons_erase:
  assumes "cons_ok k" and "cons_e k \<noteq> cons_w k"
  defines "k' \<equiv> k\<lparr>cons_e := cons_e k - 1\<rparr>"
  shows "cons_ok k'" and "cons_abs k' = (fst (cons_abs k), butlast (snd (cons_abs k)))"
    and "cons_at k (cons_e k - 1) \<noteq> 10"
proof -
  let ?r = "cons_r k" and ?e = "cons_e k" and ?m = "unat (cons_w k - cons_r k)"
  let ?q = "ring INPUT_BUF_SIZE (cons_buf k) ?r ?e" and ?q' = "ring INPUT_BUF_SIZE (cons_buf k) ?r (?e - 1)"
  have ne: "snd (cons_abs k) \<noteq> []" using cons_same [OF assms(1)] assms(2) by simp
  then have m: "?m < length ?q" by (simp add: cons_abs_def Let_def)
  then have "?r \<noteq> ?e" by auto
  note l = ring_last [OF this, of INPUT_BUF_SIZE "cons_buf k"]
  have m': "?m \<le> length ?q'" using m unfolding l by simp
  have "cons_abs k' = (take ?m ?q', drop ?m ?q')" by (simp add: cons_abs_def k'_def Let_def)
  moreover have a: "cons_abs k = (take ?m ?q', drop ?m ?q' @ [cons_at k (?e - 1)])"
    using m' by (simp add: cons_abs_def l cons_at_def Let_def del: length_ring)
  ultimately show abs: "cons_abs k' = (fst (cons_abs k), butlast (snd (cons_abs k)))" by simp
  show "cons_at k (cons_e k - 1) \<noteq> 10" using assms(1) a by (auto simp: cons_ok_def)
  have "length ?q' < length ?q" unfolding l by simp
  then show "cons_ok k'"
    using assms(1) m' in_set_butlastD [of 10 "snd (cons_abs k)"] abs
    by (auto simp: cons_ok_def k'_def)
qed

lemma kill_line_ok:
  "kill_line s = Inr s' \<Longrightarrow> cons_ok (cons s) \<Longrightarrow>
   cons_ok (cons s') \<and> cons_abs (cons s') = (fst (cons_abs (cons s)), [])"
proof (induction s rule: kill_line.induct)
  case (1 s)
  show ?case
  proof (cases "cons_e (cons s) = cons_w (cons s)")
    case True
    then have "s' = s" using 1(2) by (subst (asm) kill_line.simps) simp
    then show ?thesis using 1(3) True cons_same [OF 1(3)] by (cases "cons_abs (cons s)") auto
  next
    case False
    note er = cons_erase [OF 1(3) False]
    let ?s = "upd_cons (\<lambda>k. k\<lparr>cons_e := cons_e k - 1\<rparr>) s"
    obtain s1 where p: "consputc BACKSPACE ?s = Inr s1" "kill_line s1 = Inr s'"
      using 1(2) False er(3) by (subst (asm) kill_line.simps) (auto simp: Let_def split: sum.splits)
    have c: "cons s1 = (cons s)\<lparr>cons_e := cons_e (cons s) - 1\<rparr>"
      using consputc_cons [OF p(1)] by (simp add: upd_cons_def)
    show ?thesis using 1(1) [of "cons s" s1] False er p c by simp
  qed
qed

lemma store_char_ok:
  assumes ok: "cons_ok (cons s)" and room: "unat (cons_e (cons s) - cons_r (cons s)) < INPUT_BUF_SIZE"
  shows "cons_ok (cons (store_char c s)) \<and> cons_abs (cons (store_char c s)) =
    (let (lines, edit) = cons_abs (cons s); edit = edit @ [c]
     in if c = 10 \<or> c = 4 \<or> length lines + length edit = INPUT_BUF_SIZE then (lines @ edit, []) else (lines, edit))"
proof -
  let ?k = "cons s"
  let ?b = "(cons_buf ?k)[unat (cons_e ?k) mod INPUT_BUF_SIZE := c]" and ?m = "unat (cons_w ?k - cons_r ?k)"
  let ?q = "ring INPUT_BUF_SIZE (cons_buf ?k) (cons_r ?k) (cons_e ?k)"
  let ?k1 = "?k\<lparr>cons_buf := ?b, cons_e := cons_e ?k + 1\<rparr>"
  have q: "ring INPUT_BUF_SIZE ?b (cons_r ?k) (cons_e ?k + 1) = ?q @ [c]"
    using ok room by (intro ring_push) (simp_all add: cons_ok_def INPUT_BUF_SIZE_def)
  have len: "unat (cons_e ?k + 1 - cons_r ?k) = Suc (length ?q)" using arg_cong [OF q, of length] by simp
  have m: "?m \<le> length ?q" using ok by (simp add: cons_ok_def)
  have abs: "cons_abs ?k = (take ?m ?q, drop ?m ?q)" by (simp add: cons_abs_def Let_def)
  have abs1: "cons_abs ?k1 = (take ?m ?q, drop ?m ?q @ [c])"
    using m by (simp add: cons_abs_def Let_def q del: length_ring)
  have full: "cons_e ?k + 1 - cons_r ?k = of_nat INPUT_BUF_SIZE \<longleftrightarrow> Suc (length ?q) = INPUT_BUF_SIZE"
    using len unat_of_nat_lt [of INPUT_BUF_SIZE, where 'a = 32]
    by (auto simp: INPUT_BUF_SIZE_def word_unat_eq_iff)
  show ?thesis
  proof (cases "c = 10 \<or> c = 4 \<or> Suc (length ?q) = INPUT_BUF_SIZE")
    case True
    let ?k2 = "?k1\<lparr>cons_w := cons_e ?k + 1\<rparr>"
    have "cons (store_char c s) = ?k2"
      using True full by (auto simp: store_char_def upd_cons_def Let_def)
    moreover have "cons_abs ?k2 = (?q @ [c], [])" by (simp add: cons_abs_def Let_def q len)
    moreover have "cons_ok ?k2"
      using ok room len calculation(2) by (simp add: cons_ok_def)
    ultimately show ?thesis using True m abs by (simp add: Let_def)
  next
    case False
    have "cons (store_char c s) = ?k1"
      using False full by (auto simp: store_char_def upd_cons_def Let_def)
    moreover have "cons_ok ?k1"
      using ok room len False abs abs1 m by (simp add: cons_ok_def)
    ultimately show ?thesis using False m abs abs1 by (simp add: Let_def)
  qed
qed

lemma consputs_cons: "consputs cs s = Inr s' \<Longrightarrow> cons s' = cons s"
  by (induction cs arbitrary: s) (auto simp: kbind_eq_Inr dest!: consputc_cons)

lemma printf_cons: "printf fmt as s = Inr s' \<Longrightarrow> cons s' = cons s"
  by (auto simp: printf_def kbind_eq_Inr dest: consputs_cons)

lemma procdump_cons: "procdump s = Inr s' \<Longrightarrow> cons s' = cons s"
proof -
  have "procdump_loop is s = Inr s' \<Longrightarrow> cons s' = cons s" for "is" s
    by (induction "is" arbitrary: s) (auto simp: Let_def kbind_eq_Inr dest!: printf_cons split: if_splits)
  then show "procdump s = Inr s' \<Longrightarrow> cons s' = cons s"
    by (auto simp: procdump_def kbind_eq_Inr dest!: printf_cons)
qed

section \<open>Properties\<close>



text \<open>
  Bytes written to the console reach the device in order and none is lost or repeated: the
  bytes sent so far followed by the bytes in the transmit ring grow by exactly the user's bytes
  from position \<open>i\<close> on, as many as \<^verbatim>\<open>consolewrite\<close> reports when it returns or sleeps. It stops early
  only at an unmapped address and sleeps only when the ring is full.\<close>

theorem consolewrite_in_order:
  assumes "as_inv kend (upagetable s) T ps s" and "uart_ok (uart s)"
  shows "\<exists>out bs s'. consolewrite (UserSrc addr) n i s = Inr (out, s') \<and> uart_ok (uart s') \<and>
     u_out (uart s') @ uart_q (uart s') = u_out (uart s) @ uart_q (uart s) @ bs \<and>
     (\<forall>j < length bs. umem (pmem s) T (addr + of_nat (i + j)) = Some (bs ! j)) \<and>
     (out = Ret (int (i + length bs)) \<and>
        (n \<le> int (i + length bs) \<or> umem (pmem s) T (addr + of_nat (i + length bs)) = None) \<or>
      out = Sleep (i + length bs) \<and> int (i + length bs) < n \<and> length (uart_q (uart s')) = UART_TX_BUF_SIZE)"
  using consolewrite_ok [OF assms, of addr n i] by (simp only: ubytes_def uart_stream_def append_assoc)

theorem consolewrite_in_order_witness:
  "\<exists>(s :: kstate) out bs s'. consolewrite (UserSrc 0x1000) 3 0 s = Inr (out, s') \<and>
     u_out (uart s') @ uart_q (uart s') = u_out (uart s) @ uart_q (uart s) @ bs"
proof (rule one_page_as)
  fix s0 :: kmem_state and T ps
  assume h: "as_inv 0x80020000 0x80023000 T ps s0"
  let ?s = "(start_state (\<lambda>_. []))\<lparr>pmem := pmem s0, freelist := freelist s0, upagetable := 0x80023000\<rparr>"
  have "as_inv 0x80020000 (upagetable ?s) T ps ?s"
    using h as_inv_cong [of ?s s0 "0x80020000" "0x80023000" T ps] by simp
  moreover have "uart_ok (uart ?s)"
    by (simp add: start_state_def uart_ok_def uart_q_def UART_TX_BUF_SIZE_def)
  ultimately show ?thesis using consolewrite_in_order [of "0x80020000" ?s T ps "0x1000" 3 0] by blast
qed

end
