(* ===== verification/Xv6_Pipe.thy ===== *)
theory Xv6_Pipe
  imports Xv6_Console
begin

text \<open>
  Pipes: \<^verbatim>\<open>pipeclose\<close>, \<^verbatim>\<open>pipewrite\<close> and \<^verbatim>\<open>piperead\<close> of \<^verbatim>\<open>kernel/pipe.c\<close> (\<^verbatim>\<open>pipealloc\<close>, which allocates files, is in
  \<open>Xv6_File\<close>). Both transfers hold the lock of the pipe from one \<^verbatim>\<open>sleep\<close> to the next, so a transfer
  is a sequence of atomic steps: each runs until the caller returns or sleeps.
\<close>

section \<open>Operations\<close>

definition PIPESIZE :: nat where "PIPESIZE = 512"

definition upd_pipe :: "u64 \<Rightarrow> (pipe \<Rightarrow> pipe) \<Rightarrow> 'z kstate_scheme \<Rightarrow> 'z kstate_scheme" where
  "upd_pipe pi f s = s\<lparr>pipes := (pipes s)(pi := f (pipes s pi))\<rparr>"

definition pipeclose :: "u64 \<Rightarrow> u64 \<Rightarrow> bool \<Rightarrow> 'z kstate_scheme \<Rightarrow> 'z kstate_scheme kres" where
  "pipeclose kend pi writable s =
     (let s = (if writable
               then wakeup (ChanPipeRead pi) (upd_pipe pi (\<lambda>p. p\<lparr>pi_writeopen := False\<rparr>) s)
               else wakeup (ChanPipeWrite pi) (upd_pipe pi (\<lambda>p. p\<lparr>pi_readopen := False\<rparr>) s))
      in if \<not> pi_readopen (pipes s pi) \<and> \<not> pi_writeopen (pipes s pi) then kfree kend pi s else Inr s)"

text \<open>The ring: the test for a full buffer, the store of \<^verbatim>\<open>pipewrite\<close> and the load of \<^verbatim>\<open>piperead\<close>.\<close>

definition pipe_full :: "pipe \<Rightarrow> bool" where
  "pipe_full p \<longleftrightarrow> pi_nwrite p = pi_nread p + of_nat PIPESIZE"

definition pipe_empty :: "pipe \<Rightarrow> bool" where
  "pipe_empty p \<longleftrightarrow> pi_nread p = pi_nwrite p"

definition pipe_put :: "byte \<Rightarrow> pipe \<Rightarrow> pipe" where
  "pipe_put ch p =
     p\<lparr>pi_data := (pi_data p)[unat (pi_nwrite p) mod PIPESIZE := ch], pi_nwrite := pi_nwrite p + 1\<rparr>"

definition pipe_get :: "pipe \<Rightarrow> byte \<times> pipe" where
  "pipe_get p = (pi_data p ! (unat (pi_nread p) mod PIPESIZE), p\<lparr>pi_nread := pi_nread p + 1\<rparr>)"

text \<open>\<^verbatim>\<open>pipewrite\<close> from its \<open>i\<close>-th byte on, to the next return or sleep.\<close>

function pipewrite ::
  "u64 \<Rightarrow> u64 \<Rightarrow> int \<Rightarrow> nat \<Rightarrow> 'z kstate_scheme \<Rightarrow> (outcome \<times> 'z kstate_scheme) kres" where
  "pipewrite pi addr n i s =
     (if n \<le> int i then Inr (Ret (int i), wakeup (ChanPipeRead pi) s)
      else if \<not> pi_readopen (pipes s pi) \<or> killed (cur s) s then Inr (Ret (-1), s)
      else if pipe_full (pipes s pi)
      then Inr (Sleep i, sleep_enter (ChanPipeWrite pi) (wakeup (ChanPipeRead pi) s))
      else kbind (copyin (p_pagetable (myproc s)) (addr + of_nat i) 1 s) (\<lambda>(r, bs).
        if r = -1 then Inr (Ret (int i), wakeup (ChanPipeRead pi) s)
        else pipewrite pi addr n (Suc i) (upd_pipe pi (pipe_put (hd bs)) s)))"
  by pat_completeness auto
termination
  by (relation "measure (\<lambda>(pi, addr, n, i, s). nat n - i)") auto

declare pipewrite.simps [simp del]

text \<open>The copying loop of \<^verbatim>\<open>piperead\<close>, and \<^verbatim>\<open>piperead\<close>, which sleeps before it has delivered anything.\<close>

function piperead_loop ::
  "u64 \<Rightarrow> u64 \<Rightarrow> int \<Rightarrow> nat \<Rightarrow> 'z kstate_scheme \<Rightarrow> (nat \<times> 'z kstate_scheme) kres" where
  "piperead_loop pi addr n i s =
     (if n \<le> int i \<or> pipe_empty (pipes s pi) then Inr (i, s)
      else let (ch, p) = pipe_get (pipes s pi); s = upd_pipe pi (\<lambda>_. p) s
        in kbind (copyout (p_pagetable (myproc s)) (addr + of_nat i) [ch] s) (\<lambda>(r, s).
           if r = -1 then Inr (i, s) else piperead_loop pi addr n (Suc i) s))"
  by pat_completeness auto
termination
  by (relation "measure (\<lambda>(pi, addr, n, i, s). nat n - i)") auto

declare piperead_loop.simps [simp del]

definition piperead :: "u64 \<Rightarrow> u64 \<Rightarrow> int \<Rightarrow> 'z kstate_scheme \<Rightarrow> (outcome \<times> 'z kstate_scheme) kres" where
  "piperead pi addr n s =
     (if pipe_empty (pipes s pi) \<and> pi_writeopen (pipes s pi)
      then if killed (cur s) s then Inr (Ret (-1), s)
           else Inr (Sleep 0, sleep_enter (ChanPipeRead pi) s)
      else kbind (piperead_loop pi addr n 0 s) (\<lambda>(i, s).
             Inr (Ret (int i), wakeup (ChanPipeWrite pi) s)))"

section \<open>The ring as a queue\<close>

definition pipe_q :: "pipe \<Rightarrow> byte list" where
  "pipe_q p = ring PIPESIZE (pi_data p) (pi_nread p) (pi_nwrite p)"

definition pipe_ok :: "pipe \<Rightarrow> bool" where
  "pipe_ok p \<longleftrightarrow> length (pi_data p) = PIPESIZE \<and> length (pipe_q p) \<le> PIPESIZE"

lemma pipe_empty_q: "pipe_empty p \<longleftrightarrow> pipe_q p = []"
  by (simp add: pipe_empty_def pipe_q_def ring_empty)

lemma pipe_full_q: "pipe_full p \<longleftrightarrow> length (pipe_q p) = PIPESIZE"
  unfolding pipe_full_def pipe_q_def by (rule ring_full) (simp add: PIPESIZE_def)

lemma pipe_put_q:
  assumes "pipe_ok p" and "length (pipe_q p) < PIPESIZE"
  shows "pipe_q (pipe_put b p) = pipe_q p @ [b]"
  using assms unfolding pipe_q_def pipe_put_def pipe_ok_def
  by (simp add: ring_push PIPESIZE_def)

lemma pipe_get_q:
  assumes "pipe_q p \<noteq> []" and "pipe_get p = (b, p')"
  shows "pipe_q p = b # pipe_q p'"
  using assms ring_pop [of "pi_nread p" "pi_nwrite p" PIPESIZE "pi_data p"]
  by (auto simp: pipe_q_def pipe_get_def ring_empty)

interpretation pq: fifo pipe_q pipe_ok PIPESIZE pipe_put pipe_get
proof unfold_locales
  fix b p assume h: "pipe_ok p" "length (pipe_q p) < PIPESIZE"
  show "pipe_q (pipe_put b p) = pipe_q p @ [b]" using h by (rule pipe_put_q)
  with h show "pipe_ok (pipe_put b p)" by (simp add: pipe_ok_def pipe_put_def)
next
  fix p b p' assume h: "pipe_ok p" "pipe_q p \<noteq> []" "pipe_get p = (b, p')"
  show "pipe_q p = b # pipe_q p'" using h(2,3) by (rule pipe_get_q)
  with h show "pipe_ok p'" by (auto simp: pipe_ok_def pipe_get_def)
qed

section \<open>Transfers\<close>

lemma upd_pipe_simps [simp]:
  "pmem (upd_pipe pi f s) = pmem s" "freelist (upd_pipe pi f s) = freelist s" "cur (upd_pipe pi f s) = cur s"
  "procs (upd_pipe pi f s) = procs s" "pipes (upd_pipe pi f s) pi = f (pipes s pi)"
  "myproc (upd_pipe pi f s) = myproc s" "killed i (upd_pipe pi f s) = killed i s"
  by (simp_all add: upd_pipe_def myproc_def killed_def)

lemma pipewrite_ok:
  "as_inv kend (p_pagetable (myproc s)) T ps s \<Longrightarrow> pipe_ok (pipes s pi) \<Longrightarrow>
   \<exists>out bs s'. pipewrite pi addr n i s = Inr (out, s') \<and> pipe_ok (pipes s' pi) \<and>
     pipe_q (pipes s' pi) = pipe_q (pipes s pi) @ bs \<and> ubytes (umem (pmem s) T) addr i bs \<and>
     pmem s' = pmem s \<and>
     (out = Ret (int (i + length bs)) \<and>
        (n \<le> int (i + length bs) \<or> umem (pmem s) T (addr + of_nat (i + length bs)) = None) \<or>
      out = Sleep (i + length bs) \<and> int (i + length bs) < n \<and> pipe_full (pipes s' pi) \<or>
      out = Ret (-1) \<and> bs = [] \<and> (\<not> pi_readopen (pipes s pi) \<or> killed (cur s) s))"
proof (induction "nat n - i" arbitrary: i s)
  case 0
  then have "n \<le> int i" by linarith
  with 0 show ?case by (subst pipewrite.simps) (auto intro!: exI [of _ "[]"])
next
  case (Suc k)
  then have lt: "\<not> n \<le> int i" by linarith
  consider "\<not> pi_readopen (pipes s pi) \<or> killed (cur s) s"
    | "pi_readopen (pipes s pi)" "\<not> killed (cur s) s" "pipe_full (pipes s pi)"
    | "pi_readopen (pipes s pi)" "\<not> killed (cur s) s" "\<not> pipe_full (pipes s pi)" by blast
  then show ?case
  proof cases
    case 1
    then show ?thesis
      using lt Suc.prems(2) by (subst pipewrite.simps) (auto intro!: exI [of _ "[]"])
  next
    case 2
    then show ?thesis
      using lt Suc.prems(2)
      by (subst pipewrite.simps) (auto intro!: exI [of _ "[]"] simp: sleep_enter_def upd_proc_def)
  next
    case 3
    note cp = copyin_one [OF Suc.prems(1), of "addr + of_nat i"]
    show ?thesis
    proof (cases "umem (pmem s) T (addr + of_nat i)")
      case None
      then show ?thesis
        using 3 lt Suc.prems(2) cp by (subst pipewrite.simps) (auto intro!: exI [of _ "[]"])
    next
      case (Some b)
      let ?s = "upd_pipe pi (pipe_put b) s"
      have q: "length (pipe_q (pipes s pi)) < PIPESIZE"
        using 3 Suc.prems(2) pipe_full_q [of "pipes s pi"] by (auto simp: pipe_ok_def)
      note put = pq.put_cont [OF Suc.prems(2) q, of b] pq.put_ok [OF Suc.prems(2) q, of b]
      have as: "as_inv kend (p_pagetable (myproc ?s)) T ps ?s"
        using Suc.prems(1) as_inv_cong [of ?s s kend "p_pagetable (myproc s)" T ps] by simp
      have e: "pipewrite pi addr n i s = pipewrite pi addr n (Suc i) ?s"
        using 3 lt cp Some by (subst pipewrite.simps) simp
      have "k = nat n - Suc i" using Suc.hyps(2) by simp
      from Suc.hyps(1) [OF this as] put obtain out bs s' where
        "pipewrite pi addr n (Suc i) ?s = Inr (out, s')" "pipe_ok (pipes s' pi)"
        "pipe_q (pipes s' pi) = pipe_q (pipes s pi) @ b # bs" "ubytes (umem (pmem s) T) addr (Suc i) bs"
        "pmem s' = pmem s"
        "out = Ret (int (Suc i + length bs)) \<and>
           (n \<le> int (Suc i + length bs) \<or> umem (pmem s) T (addr + of_nat (Suc i + length bs)) = None) \<or>
         out = Sleep (Suc i + length bs) \<and> int (Suc i + length bs) < n \<and> pipe_full (pipes s' pi) \<or>
         out = Ret (-1) \<and> bs = [] \<and> (\<not> pi_readopen (pipe_put b (pipes s pi)) \<or> killed (cur s) s)"
        by auto
      with 3 Some show ?thesis
        by (intro exI [of _ out] exI [of _ "b # bs"] exI [of _ s']) (auto simp: e ubytes_Cons pipe_put_def)
    qed
  qed
qed

lemma piperead_loop_ok:
  "as_inv kend (p_pagetable (myproc s)) T ps s \<Longrightarrow> pipe_ok (pipes s pi) \<Longrightarrow>
   \<exists>k s'. piperead_loop pi addr n i s = Inr (i + k, s') \<and> as_inv kend (p_pagetable (myproc s)) T ps s' \<and>
     pipe_ok (pipes s' pi) \<and> procs s' = procs s \<and> cur s' = cur s \<and>
     pi_readopen (pipes s' pi) = pi_readopen (pipes s pi) \<and> pi_writeopen (pipes s' pi) = pi_writeopen (pipes s pi) \<and>
     k \<le> length (pipe_q (pipes s pi)) \<and>
     umem (pmem s') T = uputs addr i (take k (pipe_q (pipes s pi))) (umem (pmem s) T) \<and>
     (pipe_q (pipes s' pi) = drop k (pipe_q (pipes s pi)) \<and>
        (n \<le> int (i + k) \<or> k = length (pipe_q (pipes s pi))) \<or>
      pipe_q (pipes s' pi) = drop (Suc k) (pipe_q (pipes s pi)) \<and> k < length (pipe_q (pipes s pi)) \<and>
        \<not> uwritable (pmem s) T (addr + of_nat (i + k)))"
proof (induction "nat n - i" arbitrary: i s)
  case 0
  then have "n \<le> int i" by linarith
  with 0 show ?case by (subst piperead_loop.simps) (auto intro!: exI [of _ "0 :: nat"])
next
  case (Suc k)
  then have lt: "\<not> n \<le> int i" by linarith
  show ?case
  proof (cases "pipe_empty (pipes s pi)")
    case True
    then show ?thesis
      using Suc.prems by (subst piperead_loop.simps) (auto intro!: exI [of _ "0 :: nat"] simp: pipe_empty_q)
  next
    case False
    obtain ch p where g: "pipe_get (pipes s pi) = (ch, p)" by force
    have ne: "pipe_q (pipes s pi) \<noteq> []" using False by (simp add: pipe_empty_q)
    note get = pq.get_cont [OF Suc.prems(2) ne g] pq.get_ok [OF Suc.prems(2) ne g]
    have fl: "pi_readopen p = pi_readopen (pipes s pi)" "pi_writeopen p = pi_writeopen (pipes s pi)"
      using g by (auto simp: pipe_get_def)
    let ?s = "upd_pipe pi (\<lambda>_. p) s" and ?a = "addr + of_nat i"
    have as: "as_inv kend (p_pagetable (myproc s)) T ps ?s"
      using Suc.prems(1) as_inv_cong [of ?s s kend "p_pagetable (myproc s)" T ps] by simp
    obtain s1 where c: "copyout (p_pagetable (myproc s)) ?a [ch] ?s = Inr (if uwritable (pmem s) T ?a then 0 else -1, s1)"
      "as_inv kend (p_pagetable (myproc s)) T ps s1" "uwritable (pmem s1) T = uwritable (pmem s) T"
      "umem (pmem s1) T = (if uwritable (pmem s) T ?a then (umem (pmem s) T)(?a := Some ch) else umem (pmem s) T)"
      "kmem_state.more s1 = kmem_state.more ?s"
      using copyout_one [OF as, of ?a ch] by auto
    note fr = kmem_more_frame [OF c(5)]
    have my: "myproc s1 = myproc s" "procs s1 = procs s" "cur s1 = cur s" "pipes s1 pi = p"
      using fr by (simp_all add: myproc_def)
    show ?thesis
    proof (cases "uwritable (pmem s) T ?a")
      case False
      then have "piperead_loop pi addr n i s = Inr (i, s1)"
        using lt g c(1) \<open>\<not> pipe_empty (pipes s pi)\<close> by (subst piperead_loop.simps) simp
      then show ?thesis
        using False c get my fl by (auto intro!: exI [of _ "0 :: nat"])
    next
      case True
      have e: "piperead_loop pi addr n i s = piperead_loop pi addr n (Suc i) s1"
        using True lt g c(1) \<open>\<not> pipe_empty (pipes s pi)\<close> by (subst piperead_loop.simps) simp
      have "k = nat n - Suc i" using Suc.hyps(2) by simp
      from Suc.hyps(1) [OF this, of s1] c(2) my get obtain k' s' where r:
        "piperead_loop pi addr n (Suc i) s1 = Inr (Suc i + k', s')" "as_inv kend (p_pagetable (myproc s)) T ps s'"
        "pipe_ok (pipes s' pi)" "procs s' = procs s" "cur s' = cur s"
        "pi_readopen (pipes s' pi) = pi_readopen p" "pi_writeopen (pipes s' pi) = pi_writeopen p"
        "k' \<le> length (pipe_q p)" "umem (pmem s') T = uputs addr (Suc i) (take k' (pipe_q p)) (umem (pmem s1) T)"
        "pipe_q (pipes s' pi) = drop k' (pipe_q p) \<and> (n \<le> int (Suc i + k') \<or> k' = length (pipe_q p)) \<or>
         pipe_q (pipes s' pi) = drop (Suc k') (pipe_q p) \<and> k' < length (pipe_q p) \<and>
           \<not> uwritable (pmem s1) T (addr + of_nat (Suc i + k'))"
        by metis
      show ?thesis
        using e r c(3,4) True get fl by (intro exI [of _ "Suc k'"] exI [of _ s']) auto
    qed
  qed
qed

section \<open>Sleepers\<close>

definition asleep :: "'z kstate_scheme \<Rightarrow> nat \<Rightarrow> chan \<Rightarrow> bool" where
  "asleep s i c \<longleftrightarrow> p_state (procs s i) = SLEEPING \<and> p_chan (procs s i) = Some c"

text \<open>
  A process sleeps on a pipe only while it has a reason to: a reader while the pipe is empty
  and has a writer, a writer while it is full and has a reader.
\<close>

definition readers_ok :: "u64 \<Rightarrow> 'z kstate_scheme \<Rightarrow> bool" where
  "readers_ok pi s \<longleftrightarrow>
     (\<forall>i < NPROC. asleep s i (ChanPipeRead pi) \<longrightarrow> pipe_empty (pipes s pi) \<and> pi_writeopen (pipes s pi))"

definition writers_ok :: "u64 \<Rightarrow> 'z kstate_scheme \<Rightarrow> bool" where
  "writers_ok pi s \<longleftrightarrow>
     (\<forall>i < NPROC. asleep s i (ChanPipeWrite pi) \<longrightarrow> pipe_full (pipes s pi) \<and> pi_readopen (pipes s pi))"

text \<open>
  One atomic step: the running process \<open>cur\<close> executes a part of one of the three operations, or
  something else happens that leaves the pipe alone and puts nobody to sleep on it (other
  processes run, are killed, woken, scheduled).
\<close>

inductive pipe_step :: "u64 \<Rightarrow> u64 \<Rightarrow> 'z kstate_scheme \<Rightarrow> 'z kstate_scheme \<Rightarrow> bool" for kend pi where
  step_write: "p_state (myproc s) = RUNNING \<Longrightarrow> pipewrite pi addr n i s = Inr (out, s') \<Longrightarrow> pipe_step kend pi s s'"
| step_read: "p_state (myproc s) = RUNNING \<Longrightarrow> piperead pi addr n s = Inr (out, s') \<Longrightarrow> pipe_step kend pi s s'"
| step_close: "p_state (myproc s) = RUNNING \<Longrightarrow> pipeclose kend pi writable s = Inr s' \<Longrightarrow> pipe_step kend pi s s'"
| step_other: "pipes s' pi = pipes s pi \<Longrightarrow>
    \<forall>i < NPROC. \<forall>c \<in> {ChanPipeRead pi, ChanPipeWrite pi}. asleep s' i c \<longrightarrow> asleep s i c \<Longrightarrow> pipe_step kend pi s s'"

lemma asleep_wakeup:
  "asleep (wakeup c s) i c' \<longleftrightarrow> asleep s i c' \<and> (i = cur s \<or> NPROC \<le> i \<or> c' \<noteq> c)"
  by (auto simp: asleep_def procs_wakeup)

lemma asleep_enter: "asleep (sleep_enter c s) i c' \<longleftrightarrow> i = cur s \<and> c' = c \<or> i \<noteq> cur s \<and> asleep s i c'"
  by (auto simp: asleep_def sleep_enter_def upd_proc_def)

lemma asleep_upd_pipe [simp]: "asleep (upd_pipe pi f s) i c = asleep s i c"
  by (simp add: asleep_def)

lemma sleep_enter_simps [simp]: "pipes (sleep_enter c s) = pipes s" "pmem (sleep_enter c s) = pmem s"
  by (simp_all add: sleep_enter_def upd_proc_def)

lemma running_awake: "p_state (myproc s) = RUNNING \<Longrightarrow> \<not> asleep s (cur s) c"
  by (simp add: asleep_def myproc_def)

lemmas pipe_wait_simps = asleep_wakeup asleep_enter readers_ok_def writers_ok_def

lemma pipewrite_awake:
  "pipewrite pi addr n i s = Inr (out, s') \<Longrightarrow> p_state (myproc s) = RUNNING \<Longrightarrow> writers_ok pi s \<Longrightarrow>
   readers_ok pi s \<or> pi_readopen (pipes s pi) \<and> \<not> killed (cur s) s \<Longrightarrow>
   readers_ok pi s' \<and> writers_ok pi s'"
proof (induction pi addr n i s rule: pipewrite.induct)
  case (1 pi addr n i s)
  note run = running_awake [OF 1(3)]
  consider (fin) "n \<le> int i" | (err) "\<not> n \<le> int i" "\<not> pi_readopen (pipes s pi) \<or> killed (cur s) s"
    | (full) "\<not> n \<le> int i" "pi_readopen (pipes s pi)" "\<not> killed (cur s) s" "pipe_full (pipes s pi)"
    | (put) "\<not> n \<le> int i" "pi_readopen (pipes s pi)" "\<not> killed (cur s) s" "\<not> pipe_full (pipes s pi)" by blast
  then show ?case
  proof cases
    case fin
    with 1(2,4) run show ?thesis by (subst (asm) pipewrite.simps) (auto simp: pipe_wait_simps)
  next
    case err
    with 1(2,4,5) show ?thesis by (subst (asm) pipewrite.simps) auto
  next
    case full
    with 1(2,4) run show ?thesis by (subst (asm) pipewrite.simps) (auto simp: pipe_wait_simps)
  next
    case put
    from 1(2) put obtain r bs where c: "copyin (p_pagetable (myproc s)) (addr + of_nat i) 1 s = Inr (r, bs)"
      "(if r = -1 then Inr (Ret (int i), wakeup (ChanPipeRead pi) s)
        else pipewrite pi addr n (Suc i) (upd_pipe pi (pipe_put (hd bs)) s)) = Inr (out, s')"
      by (subst (asm) pipewrite.simps) (auto simp: kbind_eq_Inr)
    have w: "writers_ok pi (upd_pipe pi f s)" for f using 1(4) put(4) by (auto simp: writers_ok_def)
    show ?thesis
    proof (cases "r = -1")
      case True
      with c(2) 1(4) run show ?thesis by (auto simp: pipe_wait_simps)
    next
      case False
      with c(2) show ?thesis
        using 1(1) [of "(r, bs)" r bs] put c(1) 1(3) w by (simp add: pipe_put_def)
    qed
  qed
qed

lemma piperead_loop_frame:
  "piperead_loop pi addr n i s = Inr (k, s') \<Longrightarrow>
   procs s' = procs s \<and> cur s' = cur s \<and> pi_readopen (pipes s' pi) = pi_readopen (pipes s pi) \<and>
   pi_writeopen (pipes s' pi) = pi_writeopen (pipes s pi)"
proof (induction pi addr n i s rule: piperead_loop.induct)
  case (1 pi addr n i s)
  show ?case
  proof (cases "n \<le> int i \<or> pipe_empty (pipes s pi)")
    case True
    with 1(2) show ?thesis by (subst (asm) piperead_loop.simps) auto
  next
    case False
    let ?p = "snd (pipe_get (pipes s pi))" and ?ch = "fst (pipe_get (pipes s pi))"
    let ?s = "upd_pipe pi (\<lambda>_. ?p) s"
    from 1(2) False obtain r s1 where c: "copyout (p_pagetable (myproc ?s)) (addr + of_nat i) [?ch] ?s = Inr (r, s1)"
      "(if r = -1 then Inr (i, s1) else piperead_loop pi addr n (Suc i) s1) = Inr (k, s')"
      by (subst (asm) piperead_loop.simps) (auto simp: kbind_eq_Inr pipe_get_def)
    have s1: "s1 = ?s\<lparr>pmem := pmem s1\<rparr>" using copyout_frame [OF c(1)] .
    have f: "procs s1 = procs s" "cur s1 = cur s" "pi_readopen (pipes s1 pi) = pi_readopen (pipes s pi)"
      "pi_writeopen (pipes s1 pi) = pi_writeopen (pipes s pi)"
      by (subst s1, simp add: upd_pipe_def pipe_get_def)+
    show ?thesis
    proof (cases "r = -1")
      case True
      with c(2) f show ?thesis by simp
    next
      case False
      have "procs s' = procs s1 \<and> cur s' = cur s1 \<and> pi_readopen (pipes s' pi) = pi_readopen (pipes s1 pi) \<and>
        pi_writeopen (pipes s' pi) = pi_writeopen (pipes s1 pi)"
        using 1(1) [of "(?ch, ?p)" ?ch ?p ?s "(r, s1)" r s1] False c \<open>\<not> (n \<le> int i \<or> pipe_empty (pipes s pi))\<close>
        by (simp add: pipe_get_def)
      with f show ?thesis by simp
    qed
  qed
qed

lemma piperead_awake:
  assumes "piperead pi addr n s = Inr (out, s')" and "p_state (myproc s) = RUNNING"
    and "readers_ok pi s" and "writers_ok pi s"
  shows "readers_ok pi s' \<and> writers_ok pi s'"
proof (cases "pipe_empty (pipes s pi) \<and> pi_writeopen (pipes s pi)")
  case True
  with assms running_awake [OF assms(2)] show ?thesis
    by (auto simp: piperead_def pipe_wait_simps split: if_splits)
next
  case False
  then obtain i s1 where l: "piperead_loop pi addr n 0 s = Inr (i, s1)" "s' = wakeup (ChanPipeWrite pi) s1"
    using assms(1) by (auto simp: piperead_def kbind_eq_Inr)
  note fr = piperead_loop_frame [OF l(1)]
  have "\<not> asleep s1 j (ChanPipeRead pi)" if "j < NPROC" for j
    using False assms(3) fr that by (auto simp: readers_ok_def asleep_def)
  moreover have "\<not> asleep s1 (cur s1) c" for c
    using fr running_awake [OF assms(2)] by (simp add: asleep_def)
  ultimately show ?thesis unfolding l(2) by (auto simp: pipe_wait_simps)
qed

lemma pipeclose_awake:
  assumes "pipeclose kend pi writable s = Inr s'" and "p_state (myproc s) = RUNNING"
    and "readers_ok pi s" and "writers_ok pi s"
  shows "readers_ok pi s' \<and> writers_ok pi s'"
proof -
  let ?s = "if writable then wakeup (ChanPipeRead pi) (upd_pipe pi (\<lambda>p. p\<lparr>pi_writeopen := False\<rparr>) s)
    else wakeup (ChanPipeWrite pi) (upd_pipe pi (\<lambda>p. p\<lparr>pi_readopen := False\<rparr>) s)"
  have "readers_ok pi ?s \<and> writers_ok pi ?s"
    using assms(3,4) running_awake [OF assms(2)]
    by (auto simp: pipe_wait_simps pipe_empty_def pipe_full_def)
  moreover have "procs s' = procs ?s" "pipes s' = pipes ?s"
    using assms(1) by (auto simp: pipeclose_def Let_def kfree_def split: if_splits)
  ultimately show ?thesis by (simp add: readers_ok_def writers_ok_def asleep_def)
qed

lemma pipe_step_awake:
  "pipe_step kend pi s s' \<Longrightarrow> readers_ok pi s \<and> writers_ok pi s \<Longrightarrow> readers_ok pi s' \<and> writers_ok pi s'"
proof (induction rule: pipe_step.induct)
  case (step_write s addr n i out s')
  then show ?case using pipewrite_awake by blast
next
  case (step_read s addr n out s')
  then show ?case using piperead_awake by blast
next
  case (step_close s writable s')
  then show ?case using pipeclose_awake by blast
next
  case (step_other s' s)
  then show ?case by (auto simp: readers_ok_def writers_ok_def)
qed

section \<open>Properties\<close>


definition ex_pipe_state :: kstate where
  "ex_pipe_state = (let s = start_state (\<lambda>_. replicate BSIZE 0) in
     s\<lparr>procs := (procs s)(0 := (procs s 0)\<lparr>p_state := RUNNING\<rparr>),
       pipes := (pipes s)(0 := (pipes s 0)\<lparr>pi_readopen := True, pi_writeopen := True\<rparr>)\<rparr>)"



text \<open>
  C39. \<^verbatim>\<open>piperead\<close> refines taking from the front of the queue. When there is something to read or
  no writer is left it returns the number \<open>k\<close> of bytes it delivered: the first \<open>k\<close> of the queue now
  stand at the user's addresses and no other user byte changed. All is delivered up to \<open>n\<close>,
  unless an address is not writable; the byte meant for that address is then lost.\<close>

theorem piperead_dequeues:
  assumes "as_inv kend (p_pagetable (myproc s)) T ps s" and "pipe_ok (pipes s pi)"
    and "\<not> (pipe_empty (pipes s pi) \<and> pi_writeopen (pipes s pi))"
  shows "\<exists>k s'. piperead pi addr n s = Inr (Ret (int k), s') \<and> pipe_ok (pipes s' pi) \<and>
     k \<le> length (pipe_q (pipes s pi)) \<and>
     (\<forall>j < k. umem (pmem s') T (addr + of_nat j) = Some (pipe_q (pipes s pi) ! j)) \<and>
     (\<forall>a. (\<forall>j < k. a \<noteq> addr + of_nat j) \<longrightarrow> umem (pmem s') T a = umem (pmem s) T a) \<and>
     (pipe_q (pipes s' pi) = drop k (pipe_q (pipes s pi)) \<and> (n \<le> int k \<or> k = length (pipe_q (pipes s pi))) \<or>
      pipe_q (pipes s' pi) = drop (Suc k) (pipe_q (pipes s pi)) \<and> k < length (pipe_q (pipes s pi)) \<and>
        \<not> uwritable (pmem s) T (addr + of_nat k))"
proof -
  let ?q = "pipe_q (pipes s pi)"
  obtain k s' where l: "piperead_loop pi addr n 0 s = Inr (0 + k, s')" "pipe_ok (pipes s' pi)" "k \<le> length ?q"
    "umem (pmem s') T = uputs addr 0 (take k ?q) (umem (pmem s) T)"
    "pipe_q (pipes s' pi) = drop k ?q \<and> (n \<le> int (0 + k) \<or> k = length ?q) \<or>
     pipe_q (pipes s' pi) = drop (Suc k) ?q \<and> k < length ?q \<and> \<not> uwritable (pmem s) T (addr + of_nat (0 + k))"
    using piperead_loop_ok [OF assms(1,2), of addr n 0] by blast
  have "k < 2 ^ 64" using l(3) assms(2) by (simp add: pipe_ok_def PIPESIZE_def)
  then have "ubytes (umem (pmem s') T) addr 0 (take k ?q)" unfolding l(4) by (intro uputs_ubytes) simp
  then have d: "\<forall>j < k. umem (pmem s') T (addr + of_nat j) = Some (?q ! j)" using l(3) by (simp add: ubytes_def)
  have o: "umem (pmem s') T a = umem (pmem s) T a" if "\<forall>j < k. a \<noteq> addr + of_nat j" for a
    unfolding l(4) using that by (intro uputs_other) simp
  have "piperead pi addr n s = Inr (Ret (int k), wakeup (ChanPipeWrite pi) s')"
    using assms(3) l(1) by (simp add: piperead_def)
  with l d o show ?thesis by (intro exI [of _ k] exI [of _ "wakeup (ChanPipeWrite pi) s'"]) auto
qed

text \<open>A process with one writable page, and an open pipe that holds one byte.\<close>

lemma pipe_example:
  obtains (ex) s :: kstate and T ps where "as_inv 0x80020000 (p_pagetable (myproc s)) T ps s"
    "leaf (pmem s) T 0x1000 = one_entry" "pipes s 0 = \<lparr>pi_data = replicate 512 7, pi_nread = 0xffffffff, pi_nwrite = 0,
      pi_readopen = True, pi_writeopen = True\<rparr>"
proof (rule one_page_as)
  fix s0 :: kmem_state and T ps
  assume h: "as_inv 0x80020000 0x80023000 T ps s0" "leaf (pmem s0) T 0x1000 = one_entry"
  define s where "s = (start_state (\<lambda>_. []))\<lparr>pmem := pmem s0, freelist := freelist s0,
    procs := (\<lambda>_. zero_proc\<lparr>p_pagetable := 0x80023000\<rparr>),
    pipes := (\<lambda>_. \<lparr>pi_data = replicate 512 7, pi_nread = 0xffffffff, pi_nwrite = 0,
      pi_readopen = True, pi_writeopen = True\<rparr>)\<rparr>"
  have "as_inv 0x80020000 (p_pagetable (myproc s)) T ps s"
    using h(1) as_inv_cong [of s s0 "0x80020000" "0x80023000" T ps] by (simp add: s_def myproc_def)
  then show thesis using h(2) by (intro ex [of s T ps]) (simp_all add: s_def)
qed

lemma pipe_example_ok:
  "pipe_ok \<lparr>pi_data = replicate 512 7, pi_nread = 0xffffffff, pi_nwrite = 0, pi_readopen = r, pi_writeopen = w\<rparr>"
  by (simp add: pipe_ok_def PIPESIZE_def pipe_q_def)


theorem piperead_dequeues_witness:
  "\<exists>(s :: kstate) k s'. \<not> (pipe_empty (pipes s 0) \<and> pi_writeopen (pipes s 0)) \<and>
     piperead 0 0x1000 2 s = Inr (Ret (int k), s') \<and> k \<le> length (pipe_q (pipes s 0))"
proof (rule pipe_example)
  fix s :: kstate and T ps
  assume h: "as_inv 0x80020000 (p_pagetable (myproc s)) T ps s" "pipes s 0 = \<lparr>pi_data = replicate 512 7,
    pi_nread = 0xffffffff, pi_nwrite = 0, pi_readopen = True, pi_writeopen = True\<rparr>"
  have ok: "pipe_ok (pipes s 0)" unfolding h(2) by (rule pipe_example_ok)
  have ne: "\<not> (pipe_empty (pipes s 0) \<and> pi_writeopen (pipes s 0))" by (simp add: h(2) pipe_empty_def)
  show ?thesis using piperead_dequeues [OF h(1) ok ne, of "0x1000" 2] ne by blast
qed

end
