(* ===== verification/Xv6_File.thy ===== *)
theory Xv6_File
  imports Xv6_Pipe
begin

text \<open>
  The table of open files: \<^verbatim>\<open>kernel/file.c\<close>, and \<^verbatim>\<open>pipealloc\<close> of \<^verbatim>\<open>kernel/pipe.c\<close>. \<open>kend\<close> is the linker's
  \<^verbatim>\<open>end\<close>, which \<^verbatim>\<open>kfree\<close> checks against; \<open>pad\<close> the four bytes between \<^verbatim>\<open>nlink\<close> and \<^verbatim>\<open>size\<close> of the \<^verbatim>\<open>struct stat\<close>
  that \<^verbatim>\<open>filestat\<close> has on its stack and does not set.
\<close>

definition CONSOLE :: u16 where "CONSOLE = 1"

definition upd_file :: "nat \<Rightarrow> (kfile \<Rightarrow> kfile) \<Rightarrow> 'z kstate_scheme \<Rightarrow> 'z kstate_scheme" where
  "upd_file f g s = s\<lparr>ftable := (ftable s)(f := g (ftable s f))\<rparr>"

definition filealloc :: "'z kstate_scheme \<Rightarrow> nat option \<times> 'z kstate_scheme" where
  "filealloc s =
     (case find (\<lambda>f. f_ref (ftable s f) = 0) [0..<NFILE] of
        Some f \<Rightarrow> (Some f, upd_file f (\<lambda>x. x\<lparr>f_ref := 1\<rparr>) s)
      | None \<Rightarrow> (None, s))"

definition filedup :: "nat \<Rightarrow> 'z kstate_scheme \<Rightarrow> (nat \<times> 'z kstate_scheme) kres" where
  "filedup f s =
     (if f_ref (ftable s f) < 1 then Inl (Panic ''filedup'')
      else Inr (f, upd_file f (\<lambda>x. x\<lparr>f_ref := f_ref x + 1\<rparr>) s))"

definition fileclose :: "u64 \<Rightarrow> nat \<Rightarrow> 'z kstate_scheme \<Rightarrow> 'z kstate_scheme kres" where
  "fileclose kend f s =
     (if f_ref (ftable s f) < 1 then Inl (Panic ''fileclose'')
      else if f_ref (ftable s f) - 1 > 0 then Inr (upd_file f (\<lambda>x. x\<lparr>f_ref := f_ref x - 1\<rparr>) s)
      else let ff = ftable s f; s = upd_file f (\<lambda>x. x\<lparr>f_ref := 0, f_type := FD_NONE\<rparr>) s
        in if f_type ff = FD_PIPE then pipeclose kend (f_pipe ff) (f_writable ff) s
           else if f_type ff = FD_INODE \<or> f_type ff = FD_DEVICE
           then kbind (begin_op s) (\<lambda>s. kbind (iput (f_ip ff) s) end_op)
           else Inr s)"

definition stat_bytes :: "byte list \<Rightarrow> stat \<Rightarrow> byte list" where
  "stat_bytes pad st =
     le_bytes 4 (unat (st_dev st)) @ le_bytes 4 (unat (st_ino st)) @ le_bytes 2 (unat (st_type st)) @
     le_bytes 2 (unat (st_nlink st)) @ pad @ le_bytes 8 (unat (st_size st))"

definition filestat ::
  "byte list \<Rightarrow> nat \<Rightarrow> u64 \<Rightarrow> 'z kstate_scheme \<Rightarrow> (int \<times> 'z kstate_scheme) kres" where
  "filestat pad f addr s =
     (let ff = ftable s f
      in if f_type ff = FD_INODE \<or> f_type ff = FD_DEVICE
         then kbind (ilock (f_ip ff) s) (\<lambda>s.
              let st = stati (f_ip ff) s
              in kbind (iunlock (f_ip ff) s) (\<lambda>s.
                 kbind (copyout (p_pagetable (myproc s)) addr (stat_bytes pad st) s) (\<lambda>(r, s).
                   Inr (if r < 0 then -1 else 0, s))))
         else Inr (-1, s))"

text \<open>\<^verbatim>\<open>devsw\<close>: \<^verbatim>\<open>consoleinit\<close> installs the one driver there is.\<close>

definition dev_ok :: "u16 \<Rightarrow> bool" where
  "dev_ok major \<longleftrightarrow> \<not> (sint major < 0 \<or> int NDEV \<le> sint major) \<and> major = CONSOLE"

definition fileread ::
  "nat \<Rightarrow> u64 \<Rightarrow> int \<Rightarrow> 'z kstate_scheme \<Rightarrow> (outcome \<times> 'z kstate_scheme) kres" where
  "fileread f addr n s =
     (let ff = ftable s f
      in if \<not> f_readable ff then Inr (Ret (-1), s)
         else case f_type ff of
             FD_PIPE \<Rightarrow> piperead (f_pipe ff) addr n s
           | FD_DEVICE \<Rightarrow>
               if \<not> dev_ok (f_major ff) then Inr (Ret (-1), s) else consoleread (UserDst addr) n 0 s
           | FD_INODE \<Rightarrow>
               kbind (ilock (f_ip ff) s) (\<lambda>s.
               kbind (readi (f_ip ff) (UserDst addr) (f_off (ftable s f)) (of_int n) s) (\<lambda>(r, _, s).
                 let s = (if r > 0 then upd_file f (\<lambda>x. x\<lparr>f_off := f_off x + of_int r\<rparr>) s else s)
                 in kbind (iunlock (f_ip ff) s) (\<lambda>s. Inr (Ret r, s))))
           | FD_NONE \<Rightarrow> Inl (Panic ''fileread''))"

text \<open>The loop of \<^verbatim>\<open>filewrite\<close> over an inode: \<open>max_wr\<close> bytes at most in one transaction.\<close>

definition max_wr :: nat where
  "max_wr = ((MAXOPBLOCKS - 1 - 1 - 2) div 2) * BSIZE"

function filewrite_loop ::
  "nat \<Rightarrow> u64 \<Rightarrow> int \<Rightarrow> int \<Rightarrow> 'z kstate_scheme \<Rightarrow> (int \<times> 'z kstate_scheme) kres" where
  "filewrite_loop f addr n i s =
     (if n \<le> i then Inr (i, s)
      else let n1 = min (n - i) (int max_wr); ip = f_ip (ftable s f)
        in kbind (begin_op s) (\<lambda>s.
           kbind (ilock ip s) (\<lambda>s.
           kbind (writei ip (UserSrc (addr + of_int i)) (f_off (ftable s f)) (of_int n1) s) (\<lambda>(r, s).
             let s = (if r > 0 then upd_file f (\<lambda>x. x\<lparr>f_off := f_off x + of_int r\<rparr>) s else s)
             in kbind (iunlock ip s) (\<lambda>s.
                kbind (end_op s) (\<lambda>s.
                  if r \<noteq> n1 then Inr (i, s) else filewrite_loop f addr n (i + r) s))))))"
  by pat_completeness auto
termination
  by (relation "measure (\<lambda>(f, addr, n, i, s). nat (n - i))")
     (auto simp: max_wr_def MAXOPBLOCKS_def BSIZE_def)

declare filewrite_loop.simps [simp del]

definition filewrite ::
  "nat \<Rightarrow> u64 \<Rightarrow> int \<Rightarrow> 'z kstate_scheme \<Rightarrow> (outcome \<times> 'z kstate_scheme) kres" where
  "filewrite f addr n s =
     (let ff = ftable s f
      in if \<not> f_writable ff then Inr (Ret (-1), s)
         else case f_type ff of
             FD_PIPE \<Rightarrow> pipewrite (f_pipe ff) addr n 0 s
           | FD_DEVICE \<Rightarrow>
               if \<not> dev_ok (f_major ff) then Inr (Ret (-1), s) else consolewrite (UserSrc addr) n 0 s
           | FD_INODE \<Rightarrow>
               kbind (filewrite_loop f addr n 0 s) (\<lambda>(i, s). Inr (Ret (if i = n then n else -1), s))
           | FD_NONE \<Rightarrow> Inl (Panic ''filewrite''))"

section \<open>Creating a pipe\<close>

definition close_opt :: "u64 \<Rightarrow> nat option \<Rightarrow> 'z kstate_scheme \<Rightarrow> 'z kstate_scheme kres" where
  "close_opt kend f s = (case f of None \<Rightarrow> Inr s | Some f \<Rightarrow> fileclose kend f s)"

text \<open>
  The fields of the new pipe other than its data, which keeps what \<^verbatim>\<open>kalloc\<close> filled the page with;
  and the two files.
\<close>

definition init_pipe :: "u64 \<Rightarrow> nat \<Rightarrow> nat \<Rightarrow> 'z kstate_scheme \<Rightarrow> 'z kstate_scheme" where
  "init_pipe pi f0 f1 s =
     (let s = upd_pipe pi (\<lambda>_. \<lparr>pi_data = replicate PIPESIZE 5, pi_nread = 0, pi_nwrite = 0,
                                pi_readopen = True, pi_writeopen = True\<rparr>) s;
          s = upd_file f0 (\<lambda>x. x\<lparr>f_type := FD_PIPE, f_readable := True, f_writable := False, f_pipe := pi\<rparr>) s
      in upd_file f1 (\<lambda>x. x\<lparr>f_type := FD_PIPE, f_readable := False, f_writable := True, f_pipe := pi\<rparr>) s)"

definition pipealloc ::
  "u64 \<Rightarrow> 'z kstate_scheme \<Rightarrow> ((nat \<times> nat) option \<times> 'z kstate_scheme) kres" where
  "pipealloc kend s =
     (let bad = (\<lambda>f0 f1 s. kbind (close_opt kend f0 s) (\<lambda>s. kbind (close_opt kend f1 s) (\<lambda>s. Inr (None, s))))
      in case filealloc s of
          (None, s) \<Rightarrow> bad None None s
        | (Some f0, s) \<Rightarrow> (case filealloc s of
              (None, s) \<Rightarrow> bad (Some f0) None s
            | (Some f1, s) \<Rightarrow>
                let (pi, s) = kalloc s
                in if pi = 0 then bad (Some f0) (Some f1) s
                   else Inr (Some (f0, f1), init_pipe pi f0 f1 s)))"

end
