(* ===== verification/Xv6_Process.thy ===== *)
theory Xv6_Process
  imports Xv6_File
begin

text \<open>
  Creating and ending processes: the operations of \<^verbatim>\<open>kernel/proc.c\<close> that allocate memory, share
  files and copy address spaces. The record \<open>kenv\<close> holds what the linker and the assembly files
  fix: the addresses of \<^verbatim>\<open>end\<close>, \<^verbatim>\<open>trampoline\<close>, \<^verbatim>\<open>forkret\<close>, \<^verbatim>\<open>usertrap\<close> and \<^verbatim>\<open>kernelvec\<close>, the offsets of \<^verbatim>\<open>uservec\<close>
  and \<^verbatim>\<open>userret\<close> in the trampoline, and the padding bytes of a \<^verbatim>\<open>struct stat\<close> on the kernel stack. A
  call runs without interruption to its return or to its next \<^verbatim>\<open>sleep\<close>.
\<close>

record kenv =
  k_end :: u64
  k_trampoline :: u64
  k_forkret :: u64
  k_usertrap :: u64
  k_kernelvec :: u64
  k_uservec :: u64
  k_userret :: u64
  k_pad :: "byte list"

section \<open>Trap frames\<close>

text \<open>The trap frame is a page of physical memory; a register is its offset in \<^verbatim>\<open>struct trapframe\<close>.\<close>

definition tf_kernel_satp :: u64 where "tf_kernel_satp = 0"
definition tf_kernel_sp :: u64 where "tf_kernel_sp = 8"
definition tf_kernel_trap :: u64 where "tf_kernel_trap = 16"
definition tf_epc :: u64 where "tf_epc = 24"
definition tf_kernel_hartid :: u64 where "tf_kernel_hartid = 32"
definition tf_sp :: u64 where "tf_sp = 48"

definition tf_a :: "nat \<Rightarrow> u64" where
  "tf_a k = 112 + 8 * of_nat k"

definition tf_get :: "nat \<Rightarrow> u64 \<Rightarrow> 'z kstate_scheme \<Rightarrow> u64" where
  "tf_get i off s = load64 (pmem s) (p_trapframe (procs s i) + off)"

definition tf_set :: "nat \<Rightarrow> u64 \<Rightarrow> u64 \<Rightarrow> 'z kstate_scheme \<Rightarrow> 'z kstate_scheme" where
  "tf_set i off v s = s\<lparr>pmem := store64 (pmem s) (p_trapframe (procs s i) + off) v\<rparr>"

definition safestrcpy_list :: "byte list \<Rightarrow> byte list \<Rightarrow> nat \<Rightarrow> byte list" where
  "safestrcpy_list d src n =
     (let cs = take (n - 1) (takeWhile (\<lambda>c. c \<noteq> 0) src) in cs @ 0 # drop (length cs + 1) d)"

section \<open>Page tables of processes\<close>

definition proc_pagetable ::
  "kenv \<Rightarrow> nat \<Rightarrow> 'z kstate_scheme \<Rightarrow> (u64 \<times> 'z kstate_scheme) kres" where
  "proc_pagetable E i s =
     (let (pagetable, s) = uvmcreate s
      in if pagetable = 0 then Inr (0, s)
         else kbind (mappages pagetable TRAMPOLINE PGSIZE (k_trampoline E) (PTE_R OR PTE_X) s) (\<lambda>(r, s).
           if r < 0 then kbind (uvmfree (k_end E) pagetable 0 s) (\<lambda>s. Inr (0, s))
           else kbind (mappages pagetable TRAPFRAME PGSIZE (p_trapframe (procs s i)) (PTE_R OR PTE_W) s)
             (\<lambda>(r, s).
               if r < 0
               then kbind (uvmunmap (k_end E) pagetable TRAMPOLINE 1 False s) (\<lambda>s.
                    kbind (uvmfree (k_end E) pagetable 0 s) (\<lambda>s. Inr (0, s)))
               else Inr (pagetable, s))))"

definition proc_freepagetable :: "kenv \<Rightarrow> u64 \<Rightarrow> u64 \<Rightarrow> 'z kstate_scheme \<Rightarrow> 'z kstate_scheme kres" where
  "proc_freepagetable E pagetable sz s =
     kbind (uvmunmap (k_end E) pagetable TRAMPOLINE 1 False s) (\<lambda>s.
     kbind (uvmunmap (k_end E) pagetable TRAPFRAME 1 False s) (uvmfree (k_end E) pagetable sz))"

section \<open>Process slots\<close>

definition freeproc :: "kenv \<Rightarrow> nat \<Rightarrow> 'z kstate_scheme \<Rightarrow> 'z kstate_scheme kres" where
  "freeproc E i s =
     kbind (if p_trapframe (procs s i) \<noteq> 0 then kfree (k_end E) (p_trapframe (procs s i)) s else Inr s) (\<lambda>s.
     let s = upd_proc i (\<lambda>p. p\<lparr>p_trapframe := 0\<rparr>) s
     in kbind (if p_pagetable (procs s i) \<noteq> 0
               then proc_freepagetable E (p_pagetable (procs s i)) (p_sz (procs s i)) s else Inr s) (\<lambda>s.
        Inr (upd_proc i (\<lambda>p. p\<lparr>p_pagetable := 0, p_sz := 0, p_pid := 0, p_parent := None,
               p_name := (p_name p)[0 := 0], p_chan := None, p_killed := False, p_xstate := 0,
               p_state := UNUSED\<rparr>) s)))"

definition allocproc :: "kenv \<Rightarrow> 'z kstate_scheme \<Rightarrow> (nat option \<times> 'z kstate_scheme) kres" where
  "allocproc E s =
     (case find (\<lambda>i. p_state (procs s i) = UNUSED) [0..<NPROC] of
        None \<Rightarrow> Inr (None, s)
      | Some i \<Rightarrow>
          kbind (allocpid s) (\<lambda>(pid, s).
          let s = upd_proc i (\<lambda>p. p\<lparr>p_pid := pid, p_state := USED\<rparr>) s;
              (tf, s) = kalloc s;
              s = upd_proc i (\<lambda>p. p\<lparr>p_trapframe := tf\<rparr>) s
          in if tf = 0 then kbind (freeproc E i s) (\<lambda>s. Inr (None, s))
             else kbind (proc_pagetable E i s) (\<lambda>(pt, s).
               let s = upd_proc i (\<lambda>p. p\<lparr>p_pagetable := pt\<rparr>) s
               in if pt = 0 then kbind (freeproc E i s) (\<lambda>s. Inr (None, s))
                  else Inr (Some i, upd_proc i (\<lambda>p. p\<lparr>p_context :=
                         (replicate 14 0)[0 := k_forkret E, 1 := p_kstack p + PGSIZE]\<rparr>) s))))"

definition initcode :: "byte list" where
  "initcode =
    [0x17, 0x05, 0x00, 0x00, 0x13, 0x05, 0x45, 0x02,
     0x97, 0x05, 0x00, 0x00, 0x93, 0x85, 0x35, 0x02,
     0x93, 0x08, 0x70, 0x00, 0x73, 0x00, 0x00, 0x00,
     0x93, 0x08, 0x20, 0x00, 0x73, 0x00, 0x00, 0x00,
     0xef, 0xf0, 0x9f, 0xff, 0x2f, 0x69, 0x6e, 0x69,
     0x74, 0x00, 0x00, 0x24, 0x00, 0x00, 0x00, 0x00,
     0x00, 0x00, 0x00, 0x00]"

text \<open>A failing \<^verbatim>\<open>allocproc\<close> would be dereferenced as a null pointer.\<close>

definition userinit :: "kenv \<Rightarrow> 'z kstate_scheme \<Rightarrow> 'z kstate_scheme kres" where
  "userinit E s =
     kbind (allocproc E s) (\<lambda>(r, s).
       case r of None \<Rightarrow> Inl Undefined
       | Some i \<Rightarrow>
           kbind (uvmfirst (p_pagetable (procs s i)) initcode (s\<lparr>initproc := i\<rparr>)) (\<lambda>s.
             let s = upd_proc i (\<lambda>p. p\<lparr>p_sz := PGSIZE\<rparr>) s;
                 s = tf_set i tf_epc 0 s; s = tf_set i tf_sp PGSIZE s;
                 s = upd_proc i (\<lambda>p. p\<lparr>p_name :=
                       safestrcpy_list (p_name p) [105, 110, 105, 116, 99, 111, 100, 101] 16\<rparr>) s
             in kbind (namei [slash] s) (\<lambda>(d, s).
                  Inr (upd_proc i (\<lambda>p. p\<lparr>p_cwd := d, p_state := RUNNABLE\<rparr>) s))))"

definition growproc :: "kenv \<Rightarrow> int \<Rightarrow> 'z kstate_scheme \<Rightarrow> (int \<times> 'z kstate_scheme) kres" where
  "growproc E n s =
     (let p = myproc s; sz = p_sz p
      in if 0 < n
         then kbind (uvmalloc (k_end E) (p_pagetable p) sz (sz + of_int n) PTE_W s) (\<lambda>(sz, s).
                if sz = 0 then Inr (-1, s) else Inr (0, upd_proc (cur s) (\<lambda>p. p\<lparr>p_sz := sz\<rparr>) s))
         else if n < 0
         then kbind (uvmdealloc (k_end E) (p_pagetable p) sz (sz + of_int n) s) (\<lambda>(sz, s).
                Inr (0, upd_proc (cur s) (\<lambda>p. p\<lparr>p_sz := sz\<rparr>) s))
         else Inr (0, upd_proc (cur s) (\<lambda>p. p\<lparr>p_sz := sz\<rparr>) s))"

section \<open>fork, exit, wait\<close>

primrec dup_files :: "nat \<Rightarrow> nat list \<Rightarrow> 'z kstate_scheme \<Rightarrow> 'z kstate_scheme kres" where
  "dup_files np [] s = Inr s"
| "dup_files np (i # is) s =
     (case p_ofile (myproc s) ! i of
        None \<Rightarrow> dup_files np is s
      | Some f \<Rightarrow> kbind (filedup f s) (\<lambda>(f, s).
          dup_files np is (upd_proc np (\<lambda>p. p\<lparr>p_ofile := (p_ofile p)[i := Some f]\<rparr>) s)))"

text \<open>The part of \<^verbatim>\<open>fork\<close> after the address space has been copied.\<close>

definition fork_child :: "nat \<Rightarrow> 'z kstate_scheme \<Rightarrow> (int \<times> 'z kstate_scheme) kres" where
  "fork_child np s =
     (let s = upd_proc np (\<lambda>p. p\<lparr>p_sz := p_sz (myproc s)\<rparr>) s;
          s = s\<lparr>pmem := mem_write (pmem s) (p_trapframe (procs s np))
                           (mem_read (pmem s) (p_trapframe (myproc s)) 288)\<rparr>;
          s = tf_set np (tf_a 0) 0 s
      in kbind (dup_files np [0..<NOFILE] s) (\<lambda>s.
         case p_cwd (myproc s) of None \<Rightarrow> Inl Undefined
         | Some d \<Rightarrow>
             let (d, s) = idup d s;
                 s = upd_proc np (\<lambda>p. p\<lparr>p_cwd := Some d,
                       p_name := safestrcpy_list (p_name p) (p_name (myproc s)) 16\<rparr>) s;
                 pid = p_pid (procs s np);
                 s = upd_proc np (\<lambda>p. p\<lparr>p_parent := Some (cur s)\<rparr>) s
             in Inr (pid, upd_proc np (\<lambda>p. p\<lparr>p_state := RUNNABLE\<rparr>) s)))"

definition fork :: "kenv \<Rightarrow> 'z kstate_scheme \<Rightarrow> (int \<times> 'z kstate_scheme) kres" where
  "fork E s =
     kbind (allocproc E s) (\<lambda>(r, s).
       case r of None \<Rightarrow> Inr (-1, s)
       | Some np \<Rightarrow>
           let p = myproc s
           in kbind (uvmcopy (k_end E) (p_pagetable p) (p_pagetable (procs s np)) (p_sz p) s) (\<lambda>(r, s).
                if r < 0 then kbind (freeproc E np s) (\<lambda>s. Inr (-1, s))
                else fork_child np s))"

primrec close_files :: "kenv \<Rightarrow> nat list \<Rightarrow> 'z kstate_scheme \<Rightarrow> 'z kstate_scheme kres" where
  "close_files E [] s = Inr s"
| "close_files E (fd # fds) s =
     (case p_ofile (myproc s) ! fd of
        None \<Rightarrow> close_files E fds s
      | Some f \<Rightarrow> kbind (fileclose (k_end E) f s) (\<lambda>s.
          close_files E fds (upd_proc (cur s) (\<lambda>p. p\<lparr>p_ofile := (p_ofile p)[fd := None]\<rparr>) s)))"

text \<open>
  \<^verbatim>\<open>exit\<close> up to its call of \<^verbatim>\<open>sched\<close>, which does not return: the process stays a zombie.
  \<open>exit_zombie\<close> is the part it does with \<^verbatim>\<open>wait_lock\<close> held.
\<close>

definition exit_zombie :: "int \<Rightarrow> 'z kstate_scheme \<Rightarrow> 'z kstate_scheme" where
  "exit_zombie status s =
     (let s = reparent (cur s) s;
          s = (case p_parent (myproc s) of None \<Rightarrow> s | Some q \<Rightarrow> wakeup (ChanProc q) s)
      in upd_proc (cur s) (\<lambda>p. p\<lparr>p_xstate := status, p_state := ZOMBIE\<rparr>) s)"

definition exit :: "kenv \<Rightarrow> int \<Rightarrow> 'z kstate_scheme \<Rightarrow> 'z kstate_scheme kres" where
  "exit E status s =
     (if cur s = initproc s then Inl (Panic ''init exiting'')
      else kbind (close_files E [0..<NOFILE] s) (\<lambda>s.
        kbind (begin_op s) (\<lambda>s.
        kbind (case p_cwd (myproc s) of None \<Rightarrow> Inl Undefined | Some d \<Rightarrow> iput d s) (\<lambda>s.
        kbind (end_op s) (\<lambda>s.
          Inr (exit_zombie status (upd_proc (cur s) (\<lambda>p. p\<lparr>p_cwd := None\<rparr>) s)))))))"

text \<open>The scan of \<^verbatim>\<open>wait\<close>: the value it returns with, if it finds a zombie, and \<^verbatim>\<open>havekids\<close>.\<close>

primrec wait_scan ::
  "kenv \<Rightarrow> u64 \<Rightarrow> nat list \<Rightarrow> bool \<Rightarrow> 'z kstate_scheme \<Rightarrow> (int option \<times> bool \<times> 'z kstate_scheme) kres" where
  "wait_scan E addr [] havekids s = Inr (None, havekids, s)"
| "wait_scan E addr (i # is) havekids s =
     (let pp = procs s i
      in if p_parent pp \<noteq> Some (cur s) then wait_scan E addr is havekids s
         else if p_state pp \<noteq> ZOMBIE then wait_scan E addr is True s
         else kbind (if addr \<noteq> 0
                     then copyout (p_pagetable (myproc s)) addr (le_bytes 4 (unat (of_int (p_xstate pp) :: u32))) s
                     else Inr (0, s)) (\<lambda>(r, s).
           if r < 0 then Inr (Some (-1), True, s)
           else kbind (freeproc E i s) (\<lambda>s. Inr (Some (p_pid pp), True, s))))"

definition wait :: "kenv \<Rightarrow> u64 \<Rightarrow> 'z kstate_scheme \<Rightarrow> (outcome \<times> 'z kstate_scheme) kres" where
  "wait E addr s =
     kbind (wait_scan E addr [0..<NPROC] False s) (\<lambda>(r, havekids, s).
       case r of Some v \<Rightarrow> Inr (Ret v, s)
       | None \<Rightarrow> if \<not> havekids \<or> killed (cur s) s then Inr (Ret (-1), s)
                 else Inr (Sleep 0, sleep_enter (ChanProc (cur s)) s))"

end
