(* ===== verification/Xv6_Sysfile.thy ===== *)
theory Xv6_Sysfile
  imports Xv6_Process
begin

text \<open>
  System call arguments (the helpers of \<^verbatim>\<open>kernel/syscall.c\<close>) and the file-system calls of
  \<^verbatim>\<open>kernel/sysfile.c\<close>. Strings fetched from user memory are lists of bytes without the NUL.
\<close>

section \<open>Arguments\<close>

definition MAXPATH :: nat where "MAXPATH = 128"
definition MAXARG :: nat where "MAXARG = 32"

definition fetchaddr :: "u64 \<Rightarrow> 'z kstate_scheme \<Rightarrow> (int \<times> u64) kres" where
  "fetchaddr addr s =
     (let p = myproc s
      in if p_sz p \<le> addr \<or> p_sz p < addr + 8 then Inr (-1, 0)
         else kbind (copyin (p_pagetable p) addr 8 s) (\<lambda>(r, bs).
                Inr (if r \<noteq> 0 then (-1, 0) else (0, of_nat (le_nat bs)))))"

definition fetchstr :: "u64 \<Rightarrow> nat \<Rightarrow> 'z kstate_scheme \<Rightarrow> (int \<times> byte list) kres" where
  "fetchstr addr mx s =
     kbind (copyinstr (p_pagetable (myproc s)) addr mx s) (\<lambda>(r, bs).
       let str = takeWhile (\<lambda>c. c \<noteq> 0) bs
       in Inr (if r < 0 then (-1, []) else (int (length str), str)))"

definition argraw :: "nat \<Rightarrow> 'z kstate_scheme \<Rightarrow> u64 kres" where
  "argraw n s = (if n \<le> 5 then Inr (tf_get (cur s) (tf_a n) s) else Inl (Panic ''argraw''))"

definition argint :: "nat \<Rightarrow> 'z kstate_scheme \<Rightarrow> int kres" where
  "argint n s = kbind (argraw n s) (\<lambda>v. Inr (sint (ucast v :: u32)))"

definition argaddr :: "nat \<Rightarrow> 'z kstate_scheme \<Rightarrow> u64 kres" where
  "argaddr n s = argraw n s"

definition argstr :: "nat \<Rightarrow> nat \<Rightarrow> 'z kstate_scheme \<Rightarrow> (int \<times> byte list) kres" where
  "argstr n mx s = kbind (argaddr n s) (\<lambda>addr. fetchstr addr mx s)"

definition argfd :: "nat \<Rightarrow> 'z kstate_scheme \<Rightarrow> (nat \<times> nat) option kres" where
  "argfd n s =
     kbind (argint n s) (\<lambda>fd.
       Inr (if fd < 0 \<or> int NOFILE \<le> fd then None
            else map_option (\<lambda>f. (nat fd, f)) (p_ofile (myproc s) ! nat fd)))"

section \<open>File descriptors\<close>

definition set_ofile :: "nat \<Rightarrow> nat option \<Rightarrow> 'z kstate_scheme \<Rightarrow> 'z kstate_scheme" where
  "set_ofile fd f s = upd_proc (cur s) (\<lambda>p. p\<lparr>p_ofile := (p_ofile p)[fd := f]\<rparr>) s"

definition fdalloc :: "nat \<Rightarrow> 'z kstate_scheme \<Rightarrow> int \<times> 'z kstate_scheme" where
  "fdalloc f s =
     (case find (\<lambda>fd. p_ofile (myproc s) ! fd = None) [0..<NOFILE] of
        Some fd \<Rightarrow> (int fd, set_ofile fd (Some f) s)
      | None \<Rightarrow> (-1, s))"

definition sys_dup :: "'z kstate_scheme \<Rightarrow> (int \<times> 'z kstate_scheme) kres" where
  "sys_dup s =
     kbind (argfd 0 s) (\<lambda>r. case r of None \<Rightarrow> Inr (-1, s)
       | Some (_, f) \<Rightarrow>
           let (fd, s) = fdalloc f s
           in if fd < 0 then Inr (-1, s) else kbind (filedup f s) (\<lambda>(_, s). Inr (fd, s)))"

definition sys_read :: "'z kstate_scheme \<Rightarrow> (outcome \<times> 'z kstate_scheme) kres" where
  "sys_read s =
     kbind (argaddr 1 s) (\<lambda>p. kbind (argint 2 s) (\<lambda>n.
     kbind (argfd 0 s) (\<lambda>r. case r of None \<Rightarrow> Inr (Ret (-1), s) | Some (_, f) \<Rightarrow> fileread f p n s)))"

definition sys_write :: "'z kstate_scheme \<Rightarrow> (outcome \<times> 'z kstate_scheme) kres" where
  "sys_write s =
     kbind (argaddr 1 s) (\<lambda>p. kbind (argint 2 s) (\<lambda>n.
     kbind (argfd 0 s) (\<lambda>r. case r of None \<Rightarrow> Inr (Ret (-1), s) | Some (_, f) \<Rightarrow> filewrite f p n s)))"

definition sys_close :: "kenv \<Rightarrow> 'z kstate_scheme \<Rightarrow> (int \<times> 'z kstate_scheme) kres" where
  "sys_close E s =
     kbind (argfd 0 s) (\<lambda>r. case r of None \<Rightarrow> Inr (-1, s)
       | Some (fd, f) \<Rightarrow> kbind (fileclose (k_end E) f (set_ofile fd None s)) (\<lambda>s. Inr (0, s)))"

definition sys_fstat :: "kenv \<Rightarrow> 'z kstate_scheme \<Rightarrow> (int \<times> 'z kstate_scheme) kres" where
  "sys_fstat E s =
     kbind (argaddr 1 s) (\<lambda>st.
     kbind (argfd 0 s) (\<lambda>r. case r of None \<Rightarrow> Inr (-1, s) | Some (_, f) \<Rightarrow> filestat (k_pad E) f st s))"

section \<open>Links\<close>

text \<open>Leaving a transaction with a result, and the change of \<^verbatim>\<open>nlink\<close> that \<^verbatim>\<open>iupdate\<close> writes.\<close>

definition finish :: "'a \<Rightarrow> 'z kstate_scheme \<Rightarrow> ('a \<times> 'z kstate_scheme) kres" where
  "finish r s = kbind (end_op s) (\<lambda>s. Inr (r, s))"

definition add_nlink :: "nat \<Rightarrow> u16 \<Rightarrow> 'z kstate_scheme \<Rightarrow> 'z kstate_scheme kres" where
  "add_nlink i d s = iupdate i (upd_dinode i (\<lambda>n. n\<lparr>d_nlink := d_nlink n + d\<rparr>) s)"

definition link_bad :: "nat \<Rightarrow> 'z kstate_scheme \<Rightarrow> (int \<times> 'z kstate_scheme) kres" where
  "link_bad ip s =
     kbind (ilock ip s) (\<lambda>s. kbind (add_nlink ip (-1) s) (\<lambda>s. kbind (iunlockput ip s) (finish (-1))))"

definition link_at :: "nat \<Rightarrow> byte list \<Rightarrow> 'z kstate_scheme \<Rightarrow> (int \<times> 'z kstate_scheme) kres" where
  "link_at ip new s =
     kbind (nameiparent new s) (\<lambda>(r, s). case r of None \<Rightarrow> link_bad ip s
       | Some (dp, name) \<Rightarrow>
           kbind (ilock dp s) (\<lambda>s.
           kbind (if i_dev (itable s dp) \<noteq> i_dev (itable s ip) then Inr (-1, s)
                  else dirlink dp name (i_num (itable s ip)) s) (\<lambda>(r, s).
             kbind (iunlockput dp s) (\<lambda>s.
               if r < 0 then link_bad ip s else kbind (iput ip s) (finish 0)))))"

definition sys_link :: "'z kstate_scheme \<Rightarrow> (int \<times> 'z kstate_scheme) kres" where
  "sys_link s =
     kbind (argstr 0 MAXPATH s) (\<lambda>(r, old). if r < 0 then Inr (-1, s)
     else kbind (argstr 1 MAXPATH s) (\<lambda>(r, new). if r < 0 then Inr (-1, s)
     else kbind (begin_op s) (\<lambda>s.
       kbind (namei old s) (\<lambda>(r, s). case r of None \<Rightarrow> finish (-1) s
         | Some ip \<Rightarrow>
             kbind (ilock ip s) (\<lambda>s.
               if d_type (i_disk (itable s ip)) = T_DIR
               then kbind (iunlockput ip s) (finish (-1))
               else kbind (add_nlink ip 1 s) (\<lambda>s. kbind (iunlock ip s) (link_at ip new)))))))"

function isdirempty_loop :: "nat \<Rightarrow> nat \<Rightarrow> 'z kstate_scheme \<Rightarrow> (bool \<times> 'z kstate_scheme) kres" where
  "isdirempty_loop dp off s =
     (if unat (d_size (i_disk (itable s dp))) \<le> off then Inr (True, s)
      else kbind (readi dp KernelDst (of_nat off) 16 s) (\<lambda>(r, de, s).
        if r \<noteq> 16 then Inl (Panic ''isdirempty: readi'')
        else if get16 de 0 \<noteq> 0 then Inr (False, s)
        else isdirempty_loop dp (off + 16) s))"
  by pat_completeness auto
termination
proof (relation "measure (\<lambda>(dp, off, s). 2 ^ 32 - off)", goal_cases)
  case 1
  then show ?case by simp
next
  case (2 dp off s)
  then show ?case using unat_lt_pow [of "d_size (i_disk (itable s dp))"] by auto
qed

declare isdirempty_loop.simps [simp del]

definition isdirempty :: "nat \<Rightarrow> 'z kstate_scheme \<Rightarrow> (bool \<times> 'z kstate_scheme) kres" where
  "isdirempty dp s = isdirempty_loop dp 32 s"

definition unlink_bad :: "nat \<Rightarrow> 'z kstate_scheme \<Rightarrow> (int \<times> 'z kstate_scheme) kres" where
  "unlink_bad dp s = kbind (iunlockput dp s) (finish (-1))"

text \<open>The part of \<^verbatim>\<open>sys_unlink\<close> that removes the entry: from the erased \<^verbatim>\<open>dirent\<close> to the end.\<close>

definition unlink_entry ::
  "nat \<Rightarrow> nat \<Rightarrow> nat \<Rightarrow> 'z kstate_scheme \<Rightarrow> (int \<times> 'z kstate_scheme) kres" where
  "unlink_entry dp ip off s =
     kbind (writei dp (KernelSrc (replicate 16 0)) (of_nat off) 16 s) (\<lambda>(r, s).
       if r \<noteq> 16 then Inl (Panic ''unlink: writei'')
       else kbind (if d_type (i_disk (itable s ip)) = T_DIR then add_nlink dp (-1) s else Inr s) (\<lambda>s.
            kbind (iunlockput dp s) (\<lambda>s.
            kbind (add_nlink ip (-1) s) (\<lambda>s.
            kbind (iunlockput ip s) (finish 0)))))"

definition unlink_at ::
  "nat \<Rightarrow> byte list \<Rightarrow> 'z kstate_scheme \<Rightarrow> (int \<times> 'z kstate_scheme) kres" where
  "unlink_at dp name s =
     kbind (ilock dp s) (\<lambda>s.
       if namecmp name [46] = 0 \<or> namecmp name [46, 46] = 0 then unlink_bad dp s
       else kbind (dirlookup dp name s) (\<lambda>(r, s). case r of None \<Rightarrow> unlink_bad dp s
         | Some (ip, off) \<Rightarrow>
             kbind (ilock ip s) (\<lambda>s.
               if sint (d_nlink (i_disk (itable s ip))) < 1 then Inl (Panic ''unlink: nlink < 1'')
               else kbind (if d_type (i_disk (itable s ip)) = T_DIR then isdirempty ip s else Inr (True, s))
                 (\<lambda>(empty, s).
                   if \<not> empty then kbind (iunlockput ip s) (unlink_bad dp)
                   else unlink_entry dp ip off s))))"

definition sys_unlink :: "'z kstate_scheme \<Rightarrow> (int \<times> 'z kstate_scheme) kres" where
  "sys_unlink s =
     kbind (argstr 0 MAXPATH s) (\<lambda>(r, path). if r < 0 then Inr (-1, s)
     else kbind (begin_op s) (\<lambda>s.
       kbind (nameiparent path s) (\<lambda>(r, s). case r of None \<Rightarrow> finish (-1) s
         | Some (dp, name) \<Rightarrow> unlink_at dp name s)))"

section \<open>Creating and opening\<close>

definition create_fail ::
  "nat \<Rightarrow> nat \<Rightarrow> 'z kstate_scheme \<Rightarrow> (nat option \<times> 'z kstate_scheme) kres" where
  "create_fail dp ip s =
     kbind (iupdate ip (upd_dinode ip (\<lambda>n. n\<lparr>d_nlink := 0\<rparr>) s)) (\<lambda>s.
     kbind (iunlockput ip s) (\<lambda>s. kbind (iunlockput dp s) (\<lambda>s. Inr (None, s))))"

text \<open>The part of \<^verbatim>\<open>create\<close> that makes a new inode, from \<^verbatim>\<open>ialloc\<close> on.\<close>

definition create_new ::
  "nat \<Rightarrow> byte list \<Rightarrow> u16 \<Rightarrow> u16 \<Rightarrow> u16 \<Rightarrow> 'z kstate_scheme \<Rightarrow> (nat option \<times> 'z kstate_scheme) kres" where
  "create_new dp name typ major minor s =
     kbind (ialloc (i_dev (itable s dp)) typ s) (\<lambda>(r, s). case r of
       None \<Rightarrow> kbind (iunlockput dp s) (\<lambda>s. Inr (None, s))
     | Some ip \<Rightarrow>
         kbind (ilock ip s) (\<lambda>s.
         kbind (iupdate ip (upd_dinode ip (\<lambda>n. n\<lparr>d_major := major, d_minor := minor, d_nlink := 1\<rparr>) s)) (\<lambda>s.
         kbind (if typ = T_DIR
                then kbind (dirlink ip [46] (i_num (itable s ip)) s) (\<lambda>(r, s).
                       if r < 0 then Inr (r, s) else dirlink ip [46, 46] (i_num (itable s dp)) s)
                else Inr (0, s)) (\<lambda>(r, s).
           if r < 0 then create_fail dp ip s
           else kbind (dirlink dp name (i_num (itable s ip)) s) (\<lambda>(r, s).
             if r < 0 then create_fail dp ip s
             else kbind (if typ = T_DIR then add_nlink dp 1 s else Inr s) (\<lambda>s.
                  kbind (iunlockput dp s) (\<lambda>s. Inr (Some ip, s))))))))"

definition create ::
  "byte list \<Rightarrow> u16 \<Rightarrow> u16 \<Rightarrow> u16 \<Rightarrow> 'z kstate_scheme \<Rightarrow> (nat option \<times> 'z kstate_scheme) kres" where
  "create path typ major minor s =
     kbind (nameiparent path s) (\<lambda>(r, s). case r of None \<Rightarrow> Inr (None, s)
     | Some (dp, name) \<Rightarrow>
         kbind (ilock dp s) (\<lambda>s.
         kbind (dirlookup dp name s) (\<lambda>(r, s). case r of
           Some (ip, _) \<Rightarrow>
             kbind (iunlockput dp s) (\<lambda>s.
             kbind (ilock ip s) (\<lambda>s.
               if typ = T_FILE \<and> (d_type (i_disk (itable s ip)) = T_FILE \<or> d_type (i_disk (itable s ip)) = T_DEVICE)
               then Inr (Some ip, s)
               else kbind (iunlockput ip s) (\<lambda>s. Inr (None, s))))
         | None \<Rightarrow> create_new dp name typ major minor s)))"


text \<open>\<^verbatim>\<open>sys_open\<close> up to the locked inode: no inode means that it failed.\<close>

definition open_inode ::
  "byte list \<Rightarrow> u32 \<Rightarrow> 'z kstate_scheme \<Rightarrow> (nat option \<times> 'z kstate_scheme) kres" where
  "open_inode path omode s =
     (if omode AND O_CREATE \<noteq> 0 then create path T_FILE 0 0 s
      else kbind (namei path s) (\<lambda>(r, s). case r of None \<Rightarrow> Inr (None, s)
        | Some ip \<Rightarrow>
            kbind (ilock ip s) (\<lambda>s.
              if d_type (i_disk (itable s ip)) = T_DIR \<and> omode \<noteq> 0
              then kbind (iunlockput ip s) (\<lambda>s. Inr (None, s))
              else Inr (Some ip, s))))"

definition open_file ::
  "nat \<Rightarrow> nat \<Rightarrow> int \<Rightarrow> u32 \<Rightarrow> 'z kstate_scheme \<Rightarrow> (int \<times> 'z kstate_scheme) kres" where
  "open_file ip f fd omode s =
     (let d = i_disk (itable s ip);
          s = (if d_type d = T_DEVICE then upd_file f (\<lambda>x. x\<lparr>f_type := FD_DEVICE, f_major := d_major d\<rparr>) s
               else upd_file f (\<lambda>x. x\<lparr>f_type := FD_INODE, f_off := 0\<rparr>) s);
          s = upd_file f (\<lambda>x. x\<lparr>f_ip := ip, f_readable := (omode AND O_WRONLY = 0),
                f_writable := (omode AND O_WRONLY \<noteq> 0 \<or> omode AND O_RDWR \<noteq> 0)\<rparr>) s
      in kbind (if omode AND O_TRUNC \<noteq> 0 \<and> d_type d = T_FILE then itrunc ip s else Inr s) (\<lambda>s.
         kbind (iunlock ip s) (finish fd)))"

definition sys_open :: "kenv \<Rightarrow> 'z kstate_scheme \<Rightarrow> (int \<times> 'z kstate_scheme) kres" where
  "sys_open E s =
     kbind (argint 1 s) (\<lambda>omode. let omode = (of_int omode :: u32) in
     kbind (argstr 0 MAXPATH s) (\<lambda>(n, path). if n < 0 then Inr (-1, s)
     else kbind (begin_op s) (\<lambda>s.
     kbind (open_inode path omode s) (\<lambda>(r, s). case r of None \<Rightarrow> finish (-1) s
     | Some ip \<Rightarrow>
         let d = i_disk (itable s ip)
         in if d_type d = T_DEVICE \<and> (sint (d_major d) < 0 \<or> int NDEV \<le> sint (d_major d))
            then kbind (iunlockput ip s) (finish (-1))
            else case filealloc s of
                (None, s) \<Rightarrow> kbind (iunlockput ip s) (finish (-1))
              | (Some f, s) \<Rightarrow>
                  let (fd, s) = fdalloc f s
                  in if fd < 0
                     then kbind (fileclose (k_end E) f s) (\<lambda>s. kbind (iunlockput ip s) (finish (-1)))
                     else open_file ip f fd omode s))))"

definition sys_mkdir :: "'z kstate_scheme \<Rightarrow> (int \<times> 'z kstate_scheme) kres" where
  "sys_mkdir s =
     kbind (begin_op s) (\<lambda>s.
     kbind (argstr 0 MAXPATH s) (\<lambda>(r, path). if r < 0 then finish (-1) s
     else kbind (create path T_DIR 0 0 s) (\<lambda>(r, s). case r of None \<Rightarrow> finish (-1) s
       | Some ip \<Rightarrow> kbind (iunlockput ip s) (finish 0))))"

definition sys_mknod :: "'z kstate_scheme \<Rightarrow> (int \<times> 'z kstate_scheme) kres" where
  "sys_mknod s =
     kbind (begin_op s) (\<lambda>s.
     kbind (argint 1 s) (\<lambda>major. kbind (argint 2 s) (\<lambda>minor.
     kbind (argstr 0 MAXPATH s) (\<lambda>(r, path). if r < 0 then finish (-1) s
     else kbind (create path T_DEVICE (of_int major) (of_int minor) s) (\<lambda>(r, s).
       case r of None \<Rightarrow> finish (-1) s
       | Some ip \<Rightarrow> kbind (iunlockput ip s) (finish 0))))))"

definition sys_chdir :: "'z kstate_scheme \<Rightarrow> (int \<times> 'z kstate_scheme) kres" where
  "sys_chdir s =
     kbind (begin_op s) (\<lambda>s.
     kbind (argstr 0 MAXPATH s) (\<lambda>(r, path). if r < 0 then finish (-1) s
     else kbind (namei path s) (\<lambda>(r, s). case r of None \<Rightarrow> finish (-1) s
       | Some ip \<Rightarrow>
           kbind (ilock ip s) (\<lambda>s.
             if d_type (i_disk (itable s ip)) \<noteq> T_DIR then kbind (iunlockput ip s) (finish (-1))
             else kbind (iunlock ip s) (\<lambda>s.
                  kbind (case p_cwd (myproc s) of None \<Rightarrow> Inl Undefined | Some d \<Rightarrow> iput d s) (\<lambda>s.
                  kbind (end_op s) (\<lambda>s.
                    Inr (0, (upd_proc (cur s) (\<lambda>p. p\<lparr>p_cwd := Some ip\<rparr>) s)\<lparr>cwd := ip\<rparr>))))))))"

section \<open>Pipes\<close>

definition pipe_undo ::
  "kenv \<Rightarrow> nat \<Rightarrow> nat \<Rightarrow> 'z kstate_scheme \<Rightarrow> (int \<times> 'z kstate_scheme) kres" where
  "pipe_undo E rdf wrf s =
     kbind (fileclose (k_end E) rdf s) (\<lambda>s. kbind (fileclose (k_end E) wrf s) (\<lambda>s. Inr (-1, s)))"

definition sys_pipe :: "kenv \<Rightarrow> 'z kstate_scheme \<Rightarrow> (int \<times> 'z kstate_scheme) kres" where
  "sys_pipe E s =
     kbind (argaddr 0 s) (\<lambda>fdarray.
     kbind (pipealloc (k_end E) s) (\<lambda>(r, s). case r of None \<Rightarrow> Inr (-1, s)
     | Some (rdf, wrf) \<Rightarrow>
         let (fd0, s) = fdalloc rdf s
         in if fd0 < 0 then pipe_undo E rdf wrf s
            else let (fd1, s) = fdalloc wrf s
              in if fd1 < 0 then pipe_undo E rdf wrf (set_ofile (nat fd0) None s)
                 else kbind (copyout (p_pagetable (myproc s)) fdarray (le_bytes 4 (nat fd0)) s) (\<lambda>(r0, s).
                   kbind (if r0 < 0 then Inr (r0, s)
                          else copyout (p_pagetable (myproc s)) (fdarray + 4) (le_bytes 4 (nat fd1)) s) (\<lambda>(r1, s).
                     if r1 < 0
                     then pipe_undo E rdf wrf (set_ofile (nat fd1) None (set_ofile (nat fd0) None s))
                     else Inr (0, s)))))"

end
