(* ===== verification/Xv6_Exec.thy ===== *)
theory Xv6_Exec
  imports Xv6_Sysfile
begin

text \<open>
  \<^verbatim>\<open>exec\<close>: the program loader of \<^verbatim>\<open>kernel/exec.c\<close> with the headers of \<^verbatim>\<open>kernel/elf.h\<close>, and \<^verbatim>\<open>sys_exec\<close> of
  \<^verbatim>\<open>kernel/sysfile.c\<close>, which fetches the argument vector. The arguments are lists of bytes without
  their NUL; \<^verbatim>\<open>sys_exec\<close> keeps with each the page that holds it.
\<close>

section \<open>ELF headers\<close>

definition get64 :: "byte list \<Rightarrow> nat \<Rightarrow> u64" where
  "get64 d off = of_nat (le_nat (take 8 (drop off d)))"

definition ELF_MAGIC :: u32 where "ELF_MAGIC = 0x464C457F"
definition ELF_PROG_LOAD :: u32 where "ELF_PROG_LOAD = 1"
definition USERSTACK :: u64 where "USERSTACK = 1"

record elfhdr =
  e_magic :: u32
  e_entry :: u64
  e_phoff :: u64
  e_phnum :: u16

definition get_elfhdr :: "byte list \<Rightarrow> elfhdr" where
  "get_elfhdr d = \<lparr>e_magic = get32 d 0, e_entry = get64 d 24, e_phoff = get64 d 32, e_phnum = get16 d 56\<rparr>"

record proghdr =
  ph_type :: u32
  ph_flags :: u32
  ph_off :: u64
  ph_vaddr :: u64
  ph_filesz :: u64
  ph_memsz :: u64

definition get_proghdr :: "byte list \<Rightarrow> proghdr" where
  "get_proghdr d =
     \<lparr>ph_type = get32 d 0, ph_flags = get32 d 4, ph_off = get64 d 8, ph_vaddr = get64 d 16,
      ph_filesz = get64 d 32, ph_memsz = get64 d 40\<rparr>"

definition flags2perm :: "u32 \<Rightarrow> u64" where
  "flags2perm flags =
     (if flags AND 1 \<noteq> 0 then PTE_X else 0) OR (if flags AND 2 \<noteq> 0 then PTE_W else 0)"

section \<open>Loading\<close>

text \<open>
  The counter of \<^verbatim>\<open>loadseg\<close> is a \<^verbatim>\<open>uint\<close>. Past its last page it would start again at 0 and repeat the
  whole segment without end.
\<close>

function loadseg ::
  "u64 \<Rightarrow> u64 \<Rightarrow> nat \<Rightarrow> u32 \<Rightarrow> u32 \<Rightarrow> nat \<Rightarrow> 'z kstate_scheme \<Rightarrow> (int \<times> 'z kstate_scheme) kres" where
  "loadseg pagetable va ip offset sz i s =
     (if unat sz \<le> i then Inr (0, s)
      else kbind (walkaddr pagetable (va + of_nat i) s) (\<lambda>pa.
        if pa = 0 then Inl (Panic ''loadseg: address should exist'')
        else let n = min (unat sz - i) 4096
          in kbind (readi ip KernelDst (offset + of_nat i) (of_nat n) s) (\<lambda>(r, bs, s).
               let s = s\<lparr>pmem := mem_write (pmem s) pa bs\<rparr>
               in if r \<noteq> int n then Inr (-1, s)
                  else if i + 4096 < 2 ^ 32 then loadseg pagetable va ip offset sz (i + 4096) s
                  else Inl Diverges)))"
  by pat_completeness auto
termination
  by (relation "measure (\<lambda>(pagetable, va, ip, offset, sz, i, s). unat sz - i)") auto

declare loadseg.simps [simp del]

text \<open>The loop over the program headers: whether all were loaded, and the size so far.\<close>

primrec load_loop ::
  "kenv \<Rightarrow> u64 \<Rightarrow> nat \<Rightarrow> nat \<Rightarrow> u32 \<Rightarrow> u64 \<Rightarrow> 'z kstate_scheme \<Rightarrow> (bool \<times> u64 \<times> 'z kstate_scheme) kres" where
  "load_loop E pagetable ip 0 off sz s = Inr (True, sz, s)"
| "load_loop E pagetable ip (Suc k) off sz s =
     kbind (readi ip KernelDst off 56 s) (\<lambda>(r, bs, s).
       if r \<noteq> 56 then Inr (False, sz, s)
       else let ph = get_proghdr bs
         in if ph_type ph \<noteq> ELF_PROG_LOAD then load_loop E pagetable ip k (off + 56) sz s
            else if ph_memsz ph < ph_filesz ph \<or> ph_vaddr ph + ph_memsz ph < ph_vaddr ph
                    \<or> ph_vaddr ph mod PGSIZE \<noteq> 0 then Inr (False, sz, s)
            else kbind (uvmalloc (k_end E) pagetable sz (ph_vaddr ph + ph_memsz ph) (flags2perm (ph_flags ph)) s)
              (\<lambda>(sz1, s).
                if sz1 = 0 then Inr (False, sz, s)
                else kbind (loadseg pagetable (ph_vaddr ph) ip (ucast (ph_off ph)) (ucast (ph_filesz ph)) 0 s)
                  (\<lambda>(r, s).
                    if r < 0 then Inr (False, sz1, s)
                    else load_loop E pagetable ip k (off + 56) sz1 s)))"

text \<open>
  The argument strings go below the stack pointer. \<open>n\<close> counts the arguments pushed so far.
\<close>

primrec push_args ::
  "u64 \<Rightarrow> u64 \<Rightarrow> nat \<Rightarrow> byte list list \<Rightarrow> u64 \<Rightarrow> u64 list \<Rightarrow> 'z kstate_scheme \<Rightarrow>
   (bool \<times> u64 list \<times> u64 \<times> 'z kstate_scheme) kres" where
  "push_args pagetable stackbase n [] sp ustack s =
     (if MAXARG \<le> n then Inl Undefined else Inr (True, ustack @ [0], sp, s))"
| "push_args pagetable stackbase n (a # as) sp ustack s =
     (if MAXARG \<le> n then Inr (False, ustack, sp, s)
      else let sp = sp - (of_nat (length a) + 1); sp = sp - sp mod 16
        in if sp < stackbase then Inr (False, ustack, sp, s)
           else kbind (copyout pagetable sp (a @ [0]) s) (\<lambda>(r, s).
                if r < 0 then Inr (False, ustack, sp, s)
                else push_args pagetable stackbase (Suc n) as sp (ustack @ [sp]) s))"

definition last_elem :: "byte list \<Rightarrow> byte list" where
  "last_elem path = rev (takeWhile (\<lambda>c. c \<noteq> slash) (rev path))"

section \<open>exec\<close>

definition exec_bad ::
  "kenv \<Rightarrow> u64 \<Rightarrow> u64 \<Rightarrow> nat option \<Rightarrow> 'z kstate_scheme \<Rightarrow> (int \<times> 'z kstate_scheme) kres" where
  "exec_bad E pagetable sz ip s =
     kbind (if pagetable \<noteq> 0 then proc_freepagetable E pagetable sz s else Inr s) (\<lambda>s.
     kbind (case ip of None \<Rightarrow> Inr s | Some i \<Rightarrow> kbind (iunlockput i s) end_op) (\<lambda>s. Inr (-1, s)))"

text \<open>From \<^verbatim>\<open>p->trapframe->a1 = sp\<close> to the end: the new image replaces the old one.\<close>

definition exec_commit ::
  "kenv \<Rightarrow> byte list \<Rightarrow> u64 \<Rightarrow> u64 \<Rightarrow> u64 \<Rightarrow> u64 \<Rightarrow> int \<Rightarrow> 'z kstate_scheme \<Rightarrow> (int \<times> 'z kstate_scheme) kres" where
  "exec_commit E path entry pagetable sz sp argc s =
     (let old = p_pagetable (myproc s); oldsz = p_sz (myproc s); i = cur s;
          s = tf_set i (tf_a 1) sp s;
          s = upd_proc i (\<lambda>p. p\<lparr>p_name := safestrcpy_list (p_name p) (last_elem path) 16,
                p_pagetable := pagetable, p_sz := sz\<rparr>) s;
          s = s\<lparr>upagetable := pagetable\<rparr>;
          s = tf_set i tf_epc entry s; s = tf_set i tf_sp sp s
      in kbind (proc_freepagetable E old oldsz s) (\<lambda>s. Inr (argc, s)))"

definition u64_bytes :: "u64 list \<Rightarrow> byte list" where
  "u64_bytes ws = concat (map (\<lambda>w. le_bytes 8 (unat w)) ws)"

text \<open>From the allocation of the stack on.\<close>

definition exec_stack ::
  "kenv \<Rightarrow> byte list \<Rightarrow> byte list list \<Rightarrow> u64 \<Rightarrow> u64 \<Rightarrow> u64 \<Rightarrow> 'z kstate_scheme \<Rightarrow> (int \<times> 'z kstate_scheme) kres" where
  "exec_stack E path argv entry pagetable sz s =
     (let sz = PGROUNDUP sz
      in kbind (uvmalloc (k_end E) pagetable sz (sz + (USERSTACK + 1) * PGSIZE) PTE_W s) (\<lambda>(sz1, s).
         if sz1 = 0 then exec_bad E pagetable sz None s
         else kbind (uvmclear pagetable (sz1 - (USERSTACK + 1) * PGSIZE) s) (\<lambda>s.
           let stackbase = sz1 - USERSTACK * PGSIZE
           in kbind (push_args pagetable stackbase 0 argv sz1 [] s) (\<lambda>(ok, ustack, sp, s).
              if \<not> ok then exec_bad E pagetable sz1 None s
              else let sp = sp - of_nat (8 * length ustack); sp = sp - sp mod 16
                in if sp < stackbase then exec_bad E pagetable sz1 None s
                   else kbind (copyout pagetable sp (u64_bytes ustack) s) (\<lambda>(r, s).
                     if r < 0 then exec_bad E pagetable sz1 None s
                     else exec_commit E path entry pagetable sz1 sp (int (length ustack) - 1) s)))))"

definition exec ::
  "kenv \<Rightarrow> byte list \<Rightarrow> byte list list \<Rightarrow> 'z kstate_scheme \<Rightarrow> (int \<times> 'z kstate_scheme) kres" where
  "exec E path argv s =
     kbind (begin_op s) (\<lambda>s.
     kbind (namei path s) (\<lambda>(r, s). case r of None \<Rightarrow> finish (-1) s
     | Some ip \<Rightarrow>
         kbind (ilock ip s) (\<lambda>s.
         kbind (readi ip KernelDst 0 64 s) (\<lambda>(r, bs, s).
           let elf = get_elfhdr bs
           in if r \<noteq> 64 \<or> e_magic elf \<noteq> ELF_MAGIC then exec_bad E 0 0 (Some ip) s
              else kbind (proc_pagetable E (cur s) s) (\<lambda>(pagetable, s).
                if pagetable = 0 then exec_bad E 0 0 (Some ip) s
                else kbind (load_loop E pagetable ip (unat (e_phnum elf)) (ucast (e_phoff elf)) 0 s) (\<lambda>(ok, sz, s).
                  if \<not> ok then exec_bad E pagetable sz (Some ip) s
                  else kbind (iunlockput ip s) (\<lambda>s.
                       kbind (end_op s) (exec_stack E path argv (e_entry elf) pagetable sz))))))))"

section \<open>sys_exec\<close>

text \<open>The loop that fetches the arguments: whether it succeeded, and the pages allocated.\<close>

function fetch_args ::
  "u64 \<Rightarrow> nat \<Rightarrow> 'z kstate_scheme \<Rightarrow> (bool \<times> (u64 \<times> byte list) list \<times> 'z kstate_scheme) kres" where
  "fetch_args uargv i s =
     (if MAXARG \<le> i then Inr (False, [], s)
      else kbind (fetchaddr (uargv + 8 * of_nat i) s) (\<lambda>(r, uarg).
        if r < 0 then Inr (False, [], s)
        else if uarg = 0 then Inr (True, [], s)
        else let (pg, s) = kalloc s
          in if pg = 0 then Inr (False, [], s)
             else kbind (fetchstr uarg 4096 s) (\<lambda>(r, str).
               if r < 0 then Inr (False, [(pg, [])], s)
               else kbind (fetch_args uargv (Suc i) (s\<lparr>pmem := mem_write (pmem s) pg (str @ [0])\<rparr>)) (\<lambda>(ok, as, s).
                      Inr (ok, (pg, str) # as, s)))))"
  by pat_completeness auto
termination
  by (relation "measure (\<lambda>(uargv, i, s). MAXARG - i)") auto

declare fetch_args.simps [simp del]

primrec kfree_all :: "u64 \<Rightarrow> u64 list \<Rightarrow> 'z kstate_scheme \<Rightarrow> 'z kstate_scheme kres" where
  "kfree_all kend [] s = Inr s"
| "kfree_all kend (pg # pgs) s = kbind (kfree kend pg s) (kfree_all kend pgs)"

definition sys_exec :: "kenv \<Rightarrow> 'z kstate_scheme \<Rightarrow> (int \<times> 'z kstate_scheme) kres" where
  "sys_exec E s =
     kbind (argaddr 1 s) (\<lambda>uargv.
     kbind (argstr 0 MAXPATH s) (\<lambda>(r, path). if r < 0 then Inr (-1, s)
     else kbind (fetch_args uargv 0 s) (\<lambda>(ok, args, s).
       kbind (if ok then exec E path (map snd args) s else Inr (-1, s)) (\<lambda>(ret, s).
       kbind (kfree_all (k_end E) (map fst args) s) (\<lambda>s. Inr (ret, s))))))"

end
