(* ===== verification/Xv6_Syscall.thy ===== *)
theory Xv6_Syscall
  imports Xv6_Exec
begin

text \<open>
  The process calls of \<^verbatim>\<open>kernel/sysproc.c\<close>, the dispatch of \<^verbatim>\<open>kernel/syscall.c\<close> and the trap handlers of
  \<^verbatim>\<open>kernel/trap.c\<close>.
\<close>

section \<open>Process calls\<close>

text \<open>\<^verbatim>\<open>exit\<close> does not return, so \<^verbatim>\<open>sys_exit\<close> has no result.\<close>

definition sys_exit :: "kenv \<Rightarrow> 'z kstate_scheme \<Rightarrow> 'z kstate_scheme kres" where
  "sys_exit E s = kbind (argint 0 s) (\<lambda>n. exit E n s)"

definition sys_getpid :: "'z kstate_scheme \<Rightarrow> int" where
  "sys_getpid s = p_pid (myproc s)"

definition sys_fork :: "kenv \<Rightarrow> 'z kstate_scheme \<Rightarrow> (int \<times> 'z kstate_scheme) kres" where
  "sys_fork E s = fork E s"

definition sys_wait :: "kenv \<Rightarrow> 'z kstate_scheme \<Rightarrow> (outcome \<times> 'z kstate_scheme) kres" where
  "sys_wait E s = kbind (argaddr 0 s) (\<lambda>p. wait E p s)"

definition sys_sbrk :: "kenv \<Rightarrow> 'z kstate_scheme \<Rightarrow> (int \<times> 'z kstate_scheme) kres" where
  "sys_sbrk E s =
     kbind (argint 0 s) (\<lambda>n.
       let addr = p_sz (myproc s)
       in kbind (growproc E n s) (\<lambda>(r, s). Inr (if r < 0 then -1 else uint addr, s)))"

text \<open>The loop of \<^verbatim>\<open>sys_sleep\<close>; what it keeps across a sleep is \<^verbatim>\<open>ticks0\<close>.\<close>

definition sleep_loop :: "u32 \<Rightarrow> u32 \<Rightarrow> 'z kstate_scheme \<Rightarrow> outcome \<times> 'z kstate_scheme" where
  "sleep_loop ticks0 n s =
     (if ticks s - ticks0 < n
      then if killed (cur s) s then (Ret (-1), s)
           else (Sleep (unat ticks0), sleep_enter ChanTicks s)
      else (Ret 0, s))"

definition sys_sleep :: "'z kstate_scheme \<Rightarrow> (outcome \<times> 'z kstate_scheme) kres" where
  "sys_sleep s = kbind (argint 0 s) (\<lambda>n. Inr (sleep_loop (ticks s) (of_int (if n < 0 then 0 else n)) s))"

definition sys_kill :: "'z kstate_scheme \<Rightarrow> (int \<times> 'z kstate_scheme) kres" where
  "sys_kill s = kbind (argint 0 s) (\<lambda>pid. Inr (kill pid s))"

definition sys_uptime :: "'z kstate_scheme \<Rightarrow> int" where
  "sys_uptime s = uint (ticks s)"

section \<open>Dispatch\<close>

definition returns :: "(int \<times> 'z kstate_scheme) kres \<Rightarrow> (outcome option \<times> 'z kstate_scheme) kres" where
  "returns m = kbind m (\<lambda>(r, s). Inr (Some (Ret r), s))"

definition may_sleep :: "(outcome \<times> 'z kstate_scheme) kres \<Rightarrow> (outcome option \<times> 'z kstate_scheme) kres" where
  "may_sleep m = kbind m (\<lambda>(r, s). Inr (Some r, s))"

text \<open>The table \<^verbatim>\<open>syscalls\<close>: a handler for each number, if it has one.\<close>

definition syscalls ::
  "kenv \<Rightarrow> int \<Rightarrow> ('z kstate_scheme \<Rightarrow> (outcome option \<times> 'z kstate_scheme) kres) option" where
  "syscalls E num =
     (if num = 1 then Some (\<lambda>s. returns (sys_fork E s))
      else if num = 2 then Some (\<lambda>s. kbind (sys_exit E s) (\<lambda>s. Inr (None, s)))
      else if num = 3 then Some (\<lambda>s. may_sleep (sys_wait E s))
      else if num = 4 then Some (\<lambda>s. returns (sys_pipe E s))
      else if num = 5 then Some (\<lambda>s. may_sleep (sys_read s))
      else if num = 6 then Some (\<lambda>s. returns (sys_kill s))
      else if num = 7 then Some (\<lambda>s. returns (sys_exec E s))
      else if num = 8 then Some (\<lambda>s. returns (sys_fstat E s))
      else if num = 9 then Some (\<lambda>s. returns (sys_chdir s))
      else if num = 10 then Some (\<lambda>s. returns (sys_dup s))
      else if num = 11 then Some (\<lambda>s. Inr (Some (Ret (sys_getpid s)), s))
      else if num = 12 then Some (\<lambda>s. returns (sys_sbrk E s))
      else if num = 13 then Some (\<lambda>s. may_sleep (sys_sleep s))
      else if num = 14 then Some (\<lambda>s. Inr (Some (Ret (sys_uptime s)), s))
      else if num = 15 then Some (\<lambda>s. returns (sys_open E s))
      else if num = 16 then Some (\<lambda>s. may_sleep (sys_write s))
      else if num = 17 then Some (\<lambda>s. returns (sys_mknod s))
      else if num = 18 then Some (\<lambda>s. returns (sys_unlink s))
      else if num = 19 then Some (\<lambda>s. returns (sys_link s))
      else if num = 20 then Some (\<lambda>s. returns (sys_mkdir s))
      else if num = 21 then Some (\<lambda>s. returns (sys_close E s))
      else None)"

text \<open>\<^verbatim>\<open>printf("%d %s: unknown sys call %d\n", \<dots>)\<close>\<close>

definition unknown_fmt :: "byte list" where
  "unknown_fmt =
     [37, 100, 32, 37, 115, 58, 32, 117, 110, 107, 110, 111, 119, 110, 32, 115, 121, 115, 32,
      99, 97, 108, 108, 32, 37, 100, 10]"

definition syscall :: "kenv \<Rightarrow> 'z kstate_scheme \<Rightarrow> (outcome option \<times> 'z kstate_scheme) kres" where
  "syscall E s =
     (let num = sint (ucast (tf_get (cur s) (tf_a 7) s) :: u32)
      in case syscalls E num of
          Some f \<Rightarrow> kbind (f s) (\<lambda>(r, s). Inr (r,
            case r of Some (Ret v) \<Rightarrow> tf_set (cur s) (tf_a 0) (of_int v) s | _ \<Rightarrow> s))
        | None \<Rightarrow>
            kbind (printf unknown_fmt [VInt (of_int (p_pid (myproc s))),
                     VStr (Some (takeWhile (\<lambda>c. c \<noteq> 0) (p_name (myproc s)))), VInt (of_int num)] s) (\<lambda>s.
              Inr (Some (Ret (-1)), tf_set (cur s) (tf_a 0) (- 1) s)))"

section \<open>Traps\<close>

text \<open>
  The supervisor registers the handlers read and write. The interrupt controller's answer to
  \<^verbatim>\<open>plic_claim\<close> is an argument; the disk answers within the call that starts the request, so its
  interrupt has nothing left to do.
\<close>

record hart =
  h_id :: u64
  h_sstatus :: u64
  h_scause :: u64
  h_sepc :: u64
  h_stval :: u64
  h_stvec :: u64
  h_satp :: u64

definition SSTATUS_SPP :: u64 where "SSTATUS_SPP = 0x100"
definition SSTATUS_SPIE :: u64 where "SSTATUS_SPIE = 0x20"
definition UART0_IRQ :: u32 where "UART0_IRQ = 10"
definition VIRTIO0_IRQ :: u32 where "VIRTIO0_IRQ = 1"

definition clockintr :: "u64 \<Rightarrow> 'z kstate_scheme \<Rightarrow> 'z kstate_scheme" where
  "clockintr hartid s = (if hartid = 0 then wakeup ChanTicks (s\<lparr>ticks := ticks s + 1\<rparr>) else s)"

definition irq_fmt :: "byte list" where
  "irq_fmt =
     [117, 110, 101, 120, 112, 101, 99, 116, 101, 100, 32, 105, 110, 116, 101, 114, 114, 117, 112, 116, 32,
      105, 114, 113, 61, 37, 100, 10]"

definition devintr :: "hart \<Rightarrow> u32 \<Rightarrow> 'z kstate_scheme \<Rightarrow> (int \<times> 'z kstate_scheme) kres" where
  "devintr h irq s =
     (if h_scause h = 0x8000000000000009
      then kbind (if irq = UART0_IRQ then uartintr s
                  else if irq = VIRTIO0_IRQ then Inr s
                  else if irq \<noteq> 0 then printf irq_fmt [VInt irq] s
                  else Inr s) (\<lambda>s. Inr (1, s))
      else if h_scause h = 0x8000000000000005 then Inr (2, clockintr (h_id h) s)
      else Inr (0, s))"

definition MAKE_SATP :: "u64 \<Rightarrow> u64" where
  "MAKE_SATP pagetable = (push_bit 63 1) OR drop_bit 12 pagetable"

definition usertrapret :: "kenv \<Rightarrow> hart \<Rightarrow> 'z kstate_scheme \<Rightarrow> hart \<times> u64 \<times> 'z kstate_scheme" where
  "usertrapret E h s =
     (let i = cur s;
          h = h\<lparr>h_stvec := TRAMPOLINE + k_uservec E\<rparr>;
          s = tf_set i tf_kernel_satp (h_satp h) s;
          s = tf_set i tf_kernel_sp (p_kstack (myproc s) + PGSIZE) s;
          s = tf_set i tf_kernel_trap (k_usertrap E) s;
          s = tf_set i tf_kernel_hartid (h_id h) s;
          h = h\<lparr>h_sstatus := (h_sstatus h AND NOT SSTATUS_SPP) OR SSTATUS_SPIE, h_sepc := tf_get i tf_epc s\<rparr>
      in (h, MAKE_SATP (p_pagetable (myproc s)), s))"

text \<open>How a trap ends: back in user mode, in \<^verbatim>\<open>exit\<close>, asleep in a system call, or yielding.\<close>

datatype trap_end = ToUser hart u64 | Exited | Asleep nat | Yielded

definition trap_exit :: "kenv \<Rightarrow> 'z kstate_scheme \<Rightarrow> (trap_end \<times> 'z kstate_scheme) kres" where
  "trap_exit E s = kbind (exit E (-1) s) (\<lambda>s. Inr (Exited, s))"

text \<open>The end of \<^verbatim>\<open>usertrap\<close>: the test for a kill, the yield of a timer interrupt, the return.\<close>

definition trap_leave :: "kenv \<Rightarrow> hart \<Rightarrow> int \<Rightarrow> 'z kstate_scheme \<Rightarrow> (trap_end \<times> 'z kstate_scheme) kres" where
  "trap_leave E h which_dev s =
     (if killed (cur s) s then trap_exit E s
      else if which_dev = 2 then Inr (Yielded, upd_proc (cur s) (\<lambda>p. p\<lparr>p_state := RUNNABLE\<rparr>) s)
      else let (h, satp, s) = usertrapret E h s in Inr (ToUser h satp, s))"

definition trap_fmt1 :: "byte list" where
  "trap_fmt1 =
     [117, 115, 101, 114, 116, 114, 97, 112, 40, 41, 58, 32, 117, 110, 101, 120, 112, 101, 99, 116, 101, 100, 32,
      115, 99, 97, 117, 115, 101, 32, 48, 120, 37, 108, 120, 32, 112, 105, 100, 61, 37, 100, 10]"

definition trap_fmt2 :: "byte list" where
  "trap_fmt2 =
     replicate 12 32 @ [115, 101, 112, 99, 61, 48, 120, 37, 108, 120, 32, 115, 116, 118, 97, 108, 61, 48, 120,
      37, 108, 120, 10]"

definition usertrap :: "kenv \<Rightarrow> hart \<Rightarrow> u32 \<Rightarrow> 'z kstate_scheme \<Rightarrow> (trap_end \<times> 'z kstate_scheme) kres" where
  "usertrap E h irq s =
     (if h_sstatus h AND SSTATUS_SPP \<noteq> 0 then Inl (Panic ''usertrap: not from user mode'')
      else let i = cur s; h = h\<lparr>h_stvec := k_kernelvec E\<rparr>; s = tf_set i tf_epc (h_sepc h) s
        in if h_scause h = 8
           then if killed i s then trap_exit E s
                else kbind (syscall E (tf_set i tf_epc (tf_get i tf_epc s + 4) s)) (\<lambda>(r, s).
                  case r of None \<Rightarrow> Inr (Exited, s)
                  | Some (Sleep k) \<Rightarrow> Inr (Asleep k, s)
                  | Some (Ret _) \<Rightarrow> trap_leave E h 0 s)
           else kbind (devintr h irq s) (\<lambda>(which_dev, s).
             if which_dev \<noteq> 0 then trap_leave E h which_dev s
             else kbind (printf trap_fmt1 [VLong (h_scause h), VInt (of_int (p_pid (myproc s)))] s) (\<lambda>s.
                  kbind (printf trap_fmt2 [VLong (h_sepc h), VLong (h_stval h)] s) (\<lambda>s.
                    trap_leave E h 0 (setkilled i s)))))"

definition ktrap_fmt :: "byte list" where
  "ktrap_fmt =
     [115, 99, 97, 117, 115, 101, 61, 48, 120, 37, 108, 120, 32, 115, 101, 112, 99, 61, 48, 120, 37, 108, 120, 32,
      115, 116, 118, 97, 108, 61, 48, 120, 37, 108, 120, 10]"

text \<open>
  \<^verbatim>\<open>kerneltrap\<close>: whether the interrupted thread yields (\<open>running\<close> says whether there is one), with the
  state at that point.
\<close>

definition kerneltrap ::
  "hart \<Rightarrow> bool \<Rightarrow> bool \<Rightarrow> u32 \<Rightarrow> 'z kstate_scheme \<Rightarrow> (bool \<times> 'z kstate_scheme) kres" where
  "kerneltrap h intr running irq s =
     (if h_sstatus h AND SSTATUS_SPP = 0 then Inl (Panic ''kerneltrap: not from supervisor mode'')
      else if intr then Inl (Panic ''kerneltrap: interrupts enabled'')
      else kbind (devintr h irq s) (\<lambda>(which_dev, s).
        if which_dev = 0
        then kbind (printf ktrap_fmt [VLong (h_scause h), VLong (h_sepc h), VLong (h_stval h)] s) (\<lambda>s.
               Inl (Panic ''kerneltrap''))
        else if which_dev = 2 \<and> running
        then Inr (True, upd_proc (cur s) (\<lambda>p. p\<lparr>p_state := RUNNABLE\<rparr>) s)
        else Inr (False, s)))"

text \<open>\<^verbatim>\<open>forkret\<close> of \<^verbatim>\<open>kernel/proc.c\<close>; \<open>first\<close> is its static variable.\<close>

definition forkret :: "kenv \<Rightarrow> hart \<Rightarrow> bool \<Rightarrow> 'z kstate_scheme \<Rightarrow> (hart \<times> u64 \<times> 'z kstate_scheme) kres" where
  "forkret E h first s =
     kbind (if first then fsinit ROOTDEV s else Inr s) (\<lambda>s. Inr (usertrapret E h s))"

end
