(* ===== verification/Xv6_Path.thy ===== *)
theory Xv6_Path
  imports Xv6_Fs
begin

text \<open>
  Path names: the elements that \<^verbatim>\<open>namex\<close> of \<^verbatim>\<open>kernel/fs.c\<close> looks up, one \<^verbatim>\<open>skipelem\<close> after the other, against
  the path split at its slashes.
\<close>

section \<open>Splitting\<close>

text \<open>The names \<^verbatim>\<open>skipelem\<close> yields when it is applied until it returns 0, as \<^verbatim>\<open>namex\<close> does.\<close>

function path_names :: "byte list \<Rightarrow> byte list list" where
  "path_names path = (case skipelem path of None \<Rightarrow> [] | Some (name, rest) \<Rightarrow> name # path_names rest)"
  by pat_completeness auto
termination
  by (relation "measure length") (auto dest: skipelem_shorter)

declare path_names.simps [simp del]

text \<open>The pieces between slashes.\<close>

primrec split_at_slash :: "byte list \<Rightarrow> byte list list" where
  "split_at_slash [] = [[]]"
| "split_at_slash (c # cs) =
     (if c = slash then [] # split_at_slash cs
      else (c # hd (split_at_slash cs)) # tl (split_at_slash cs))"

definition pieces :: "byte list \<Rightarrow> byte list list" where
  "pieces path = filter (\<lambda>p. p \<noteq> []) (split_at_slash path)"

lemma split_nonempty: "split_at_slash cs \<noteq> []"
  by (cases cs) auto

lemma pieces_slash: "pieces (slash # cs) = pieces cs"
  by (simp add: pieces_def)

lemma pieces_drop: "pieces (dropWhile (\<lambda>c. c = slash) cs) = pieces cs"
  by (induction cs) (auto simp: pieces_slash)

lemma split_elem:
  "split_at_slash cs =
     takeWhile (\<lambda>c. c \<noteq> slash) cs #
       (case dropWhile (\<lambda>c. c \<noteq> slash) cs of [] \<Rightarrow> [] | _ # rest \<Rightarrow> split_at_slash rest)"
  by (induction cs) auto

lemma pieces_elem:
  assumes "cs \<noteq> []" and "hd cs \<noteq> slash"
  shows "pieces cs = takeWhile (\<lambda>c. c \<noteq> slash) cs # pieces (dropWhile (\<lambda>c. c \<noteq> slash) cs)"
proof -
  have ne: "takeWhile (\<lambda>c. c \<noteq> slash) cs \<noteq> []" using assms by (cases cs) auto
  show ?thesis
  proof (cases "dropWhile (\<lambda>c. c \<noteq> slash) cs")
    case Nil
    show ?thesis unfolding pieces_def split_elem [of cs] Nil using ne by simp
  next
    case (Cons c rest)
    then have "c = slash" using hd_dropWhile [of "\<lambda>c. c \<noteq> slash" cs] by simp
    then show ?thesis unfolding pieces_def split_elem [of cs] Cons using ne by simp
  qed
qed

section \<open>Properties\<close>

text \<open>
  The names looked up along a path are its pieces between slashes: empty pieces (leading,
  trailing and repeated slashes) count for nothing, and a piece longer than a directory entry
  can hold is cut to its first 14 bytes.\<close>

theorem path_names_pieces: "path_names path = map (take DIRSIZ) (pieces path)"
proof (induction path rule: path_names.induct)
  case (1 path)
  let ?p = "dropWhile (\<lambda>c. c = slash) path"
  show ?case
  proof (cases "?p = []")
    case True
    then have "skipelem path = None" by (simp add: skipelem_def)
    moreover have "pieces path = []" using pieces_drop [of path] True by (simp add: pieces_def)
    ultimately show ?thesis by (subst path_names.simps) simp
  next
    case False
    let ?e = "takeWhile (\<lambda>c. c \<noteq> slash) ?p" and ?q = "dropWhile (\<lambda>c. c \<noteq> slash) ?p"
    let ?r = "dropWhile (\<lambda>c. c = slash) ?q"
    have h: "hd ?p \<noteq> slash" using hd_dropWhile [OF False] .
    have s: "skipelem path = Some (take DIRSIZ ?e, ?r)" using False by (simp add: skipelem_def Let_def)
    have "path_names path = take DIRSIZ ?e # path_names ?r" using s by (subst path_names.simps) simp
    also have "path_names ?r = map (take DIRSIZ) (pieces ?r)" using 1 [OF s refl] .
    also have "pieces ?r = pieces ?q" by (rule pieces_drop)
    finally have "path_names path = map (take DIRSIZ) (?e # pieces ?q)" by simp
    also have "?e # pieces ?q = pieces ?p" using pieces_elem [OF False h] by simp
    also have "pieces ?p = pieces path" by (rule pieces_drop)
    finally show ?thesis .
  qed
qed

end
