(* ===== verification/Xv6_Blocks.thy ===== *)
theory Xv6_Blocks
  imports Xv6_Fs
begin

text \<open>
  The block allocator of \<^verbatim>\<open>kernel/fs.c\<close> inside a transaction. The content of the blocks is the view
  that the buffer cache gives, \<open>v_blk\<close>; \<open>used\<close> reads the bitmap in it. \<^verbatim>\<open>balloc\<close> is shown to hand out a
  block that was free, to clear it and to mark it, and nothing else; \<^verbatim>\<open>bfree\<close> is its inverse.
\<close>

section \<open>The bitmap\<close>

definition bitmap_bit :: "byte list \<Rightarrow> nat \<Rightarrow> bool" where
  "bitmap_bit d bi = bit (d ! (bi div 8)) (bi mod 8)"

definition used :: "superblock \<Rightarrow> (u32 \<Rightarrow> byte list) \<Rightarrow> u32 \<Rightarrow> bool" where
  "used b V x = bitmap_bit (V (BBLOCK x b)) (unat x mod BPB)"

lemma unat_u32: "unat (x :: u32) < 2 ^ 32"
  using unsigned_less [of x] by simp

lemma and_bmask: "x AND bmask k = 0 \<longleftrightarrow> \<not> bit x (k mod 8)"
  by (simp add: bmask_def push_bit_of_1 and_exp_eq_0_iff_not_bit)

lemma bit_mask_ops:
  assumes "j < 8"
  shows "bit (x OR bmask k) j \<longleftrightarrow> bit x j \<or> j = k mod 8" "bit (x AND NOT (bmask k)) j \<longleftrightarrow> bit x j \<and> j \<noteq> k mod 8"
  using assms by (auto simp: bmask_def bit_simps)

lemma same_bit: "bi div 8 = bj div 8 \<and> bi mod 8 = bj mod 8 \<longleftrightarrow> bi = (bj :: nat)"
  by (metis div_mod_decomp)

lemma bitmap_set:
  assumes "length d = BSIZE" and "bi < BPB" and "bj < BPB"
  shows "bitmap_bit (d[bi div 8 := d ! (bi div 8) OR bmask bi]) bj \<longleftrightarrow> bitmap_bit d bj \<or> bj = bi"
    "bitmap_bit (d[bi div 8 := d ! (bi div 8) AND NOT (bmask bi)]) bj \<longleftrightarrow> bitmap_bit d bj \<and> bj \<noteq> bi"
proof -
  have "bj div 8 < length d" "bi div 8 < length d" using assms by (simp_all add: BPB_def BSIZE_def)
  then show "bitmap_bit (d[bi div 8 := d ! (bi div 8) OR bmask bi]) bj \<longleftrightarrow> bitmap_bit d bj \<or> bj = bi"
    "bitmap_bit (d[bi div 8 := d ! (bi div 8) AND NOT (bmask bi)]) bj \<longleftrightarrow> bitmap_bit d bj \<and> bj \<noteq> bi"
    using same_bit [of bj bi] by (auto simp: bitmap_bit_def nth_list_update bit_mask_ops)
qed

text \<open>Block \<open>b + bi\<close> has its bit in the bitmap block of \<open>b\<close>, at \<open>bi\<close>.\<close>

lemma bitmap_block:
  assumes "b mod BPB = 0" and "bi < BPB" and "b + bi < 2 ^ 32"
  shows "BBLOCK (of_nat (b + bi)) S = BBLOCK (of_nat b) S" "unat (of_nat (b + bi) :: u32) mod BPB = bi"
proof -
  have u: "unat (of_nat (b + bi) :: u32) = b + bi" "unat (of_nat b :: u32) = b" using assms by (simp_all add: unat_of_nat_lt del: of_nat_add)
  obtain k where k: "b = k * BPB" using assms(1) by (auto simp: mod_eq_0_iff_dvd dvd_def mult.commute)
  then have "(b + bi) div BPB = b div BPB" "(b + bi) mod BPB = bi" using assms(2) by simp_all
  then show "BBLOCK (of_nat (b + bi)) S = BBLOCK (of_nat b) S" "unat (of_nat (b + bi) :: u32) mod BPB = bi"
    by (simp_all add: BBLOCK_def u del: of_nat_add)
qed

lemma bitmap_position:
  assumes "BBLOCK x S = BBLOCK y S" and "unat x mod BPB = unat y mod BPB"
  shows "x = y"
proof -
  have "unat x div BPB < 2 ^ 32" "unat y div BPB < 2 ^ 32"
    using unat_u32 [of x] unat_u32 [of y] div_le_dividend le_less_trans by blast+
  moreover have "(of_nat (unat x div BPB) :: u32) = of_nat (unat y div BPB)" using assms(1) by (simp add: BBLOCK_def)
  then have "unat (of_nat (unat x div BPB) :: u32) = unat (of_nat (unat y div BPB) :: u32)" by (rule arg_cong)
  ultimately have "unat x div BPB = unat y div BPB" by (simp add: unat_of_nat_lt)
  with assms(2) have "unat x = unat y" by (metis div_mult_mod_eq)
  then show ?thesis by (simp only: word_unat_eq_iff)
qed

lemma used_change:
  assumes "length (V (BBLOCK x S)) = BSIZE"
  defines "d \<equiv> V (BBLOCK x S)" and "bi \<equiv> unat x mod BPB"
  shows "used S (V(BBLOCK x S := d[bi div 8 := d ! (bi div 8) OR bmask bi])) y \<longleftrightarrow> used S V y \<or> y = x"
    "used S (V(BBLOCK x S := d[bi div 8 := d ! (bi div 8) AND NOT (bmask bi)])) y \<longleftrightarrow> used S V y \<and> y \<noteq> x"
  using bitmap_set [of d bi "unat y mod BPB"] bitmap_position [of y S x] assms
  by (auto simp: used_def BPB_def BSIZE_def)

section \<open>Changing one block in a transaction\<close>

text \<open>
  \<open>txn dev H Y k s\<close>: a transaction that holds the buffers of the blocks \<open>H\<close> has room in the log for the blocks
  \<open>Y\<close> and for \<open>k\<close> more. Every use of a block outside \<open>Y\<close> costs one of the \<open>k\<close>, so that a lemma which turns
  \<open>txn dev H Y (j + k)\<close> into \<open>txn dev H Y k\<close> also says how much of the log the operation uses.
\<close>

definition txn :: "u32 \<Rightarrow> u32 set \<Rightarrow> u32 set \<Rightarrow> nat \<Rightarrow> 'z fs_state_scheme \<Rightarrow> bool" where
  "txn dev H Y k s \<longleftrightarrow>
     tx_inv dev H s \<and> finite H \<and> card H \<le> 1 \<and> finite Y \<and> 1 \<le> outstanding s \<and>
     card (set (log_blocks s) \<union> Y) + k + 1 < LOGSIZE \<and> int (card (set (log_blocks s) \<union> Y) + k) + 1 < log_size s"

text \<open>
  \<open>tx_keeps dev H s s'\<close>: only the buffers, the log header in memory and the inode table differ, the buffers of \<open>H\<close>
  stay in their slots, the blocks in the log stay there, and nothing was written to disk.
\<close>

definition tx_keeps :: "u32 \<Rightarrow> u32 set \<Rightarrow> 'z fs_state_scheme \<Rightarrow> 'z fs_state_scheme \<Rightarrow> bool" where
  "tx_keeps dev H s s' \<longleftrightarrow>
     pmem s' = pmem s \<and> freelist s' = freelist s \<and> curpid s' = curpid s \<and> disk s' = disk s \<and>
     dwrites s' = dwrites s \<and> log_start s' = log_start s \<and> log_size s' = log_size s \<and>
     outstanding s' = outstanding s \<and> committing s' = committing s \<and> log_dev s' = log_dev s \<and> sb s' = sb s \<and>
     upagetable s' = upagetable s \<and> cwd s' = cwd s \<and> fs_state.more s' = fs_state.more s \<and>
     (\<forall>b\<in>H. slot dev s' b = slot dev s b) \<and> set (log_blocks s) \<subseteq> set (log_blocks s')"

lemma keeps_refl [simp]: "tx_keeps dev H s s"
  by (simp add: tx_keeps_def)

lemma keeps_trans [trans]: "tx_keeps dev H s s' \<Longrightarrow> tx_keeps dev H s' s'' \<Longrightarrow> tx_keeps dev H s s''"
  by (auto simp: tx_keeps_def)

lemma keeps_mono: "tx_keeps dev H s s' \<Longrightarrow> H' \<subseteq> H \<Longrightarrow> tx_keeps dev H' s s'"
  by (auto simp: tx_keeps_def)

lemma keeps_fields:
  assumes "tx_keeps dev H s s'"
  shows "sb s' = sb s" "upagetable s' = upagetable s" "pmem s' = pmem s" "log_start s' = log_start s"
    "curpid s' = curpid s" "disk s' = disk s" "log_size s' = log_size s" "outstanding s' = outstanding s"
    "fs_state.more s' = fs_state.more s" "cwd s' = cwd s"
  using assms by (auto simp: tx_keeps_def)

lemma keeps_slot: "tx_keeps dev H s s' \<Longrightarrow> b \<in> H \<Longrightarrow> slot dev s' b = slot dev s b"
  by (simp add: tx_keeps_def)

lemma tframe_keeps:
  assumes "tframe s s'" and "\<forall>b\<in>H. slot dev s' b = slot dev s b" and "disk s' = disk s" and "dwrites s' = dwrites s"
    and "set (log_blocks s) \<subseteq> set (log_blocks s')"
  shows "tx_keeps dev H s s'" "itable s' = itable s"
proof -
  obtain x y z n bl where s': "s' = s\<lparr>bufs := x, disk := y, dwrites := z, lh_n := n, lh_block := bl\<rparr>"
    using assms(1) by (auto simp: tframe_def)
  then show "tx_keeps dev H s s'" using assms(2-5) by (simp add: tx_keeps_def)
  show "itable s' = itable s" by (simp add: s')
qed

text \<open>The inode table is not part of what the cache and the log see.\<close>

lemma itable_upd [simp]:
  "view dev (s\<lparr>itable := t\<rparr>) = view dev s" "slot dev (s\<lparr>itable := t\<rparr>) = slot dev s"
  "log_blocks (s\<lparr>itable := t\<rparr>) = log_blocks s" "tx_inv dev H (s\<lparr>itable := t\<rparr>) = tx_inv dev H s"
  "txn dev H Y k (s\<lparr>itable := t\<rparr>) = txn dev H Y k s"
proof -
  show v: "view dev (s\<lparr>itable := t\<rparr>) = view dev s" "slot dev (s\<lparr>itable := t\<rparr>) = slot dev s"
    "log_blocks (s\<lparr>itable := t\<rparr>) = log_blocks s"
    by (auto simp: view_def slot_def cached_def log_blocks_def fun_eq_iff split: option.splits)
  show x: "tx_inv dev H (s\<lparr>itable := t\<rparr>) = tx_inv dev H s" by (simp add: tx_inv_def v binv_def cong: if_cong)
  show "txn dev H Y k (s\<lparr>itable := t\<rparr>) = txn dev H Y k s" by (simp add: txn_def v x)
qed

lemma keeps_itable [simp]: "tx_keeps dev H s (s'\<lparr>itable := t\<rparr>) = tx_keeps dev H s s'"
  by (simp add: tx_keeps_def)

lemma txn_weaken: "txn dev H Y k s \<Longrightarrow> j \<le> k \<Longrightarrow> txn dev H Y j s"
  by (auto simp: txn_def)

lemma txn_take:
  assumes "txn dev H Y (Suc k) s"
  shows "txn dev H (insert b Y) k s"
proof -
  have "card (set (log_blocks s) \<union> insert b Y) \<le> Suc (card (set (log_blocks s) \<union> Y))"
    using assms by (simp add: txn_def card_insert_if)
  then show ?thesis using assms by (auto simp: txn_def)
qed

lemma txn_sub:
  assumes "txn dev H Y k s" and "Y' \<subseteq> Y"
  shows "txn dev H Y' k s"
proof -
  have "card (set (log_blocks s) \<union> Y') \<le> card (set (log_blocks s) \<union> Y)"
    using assms by (intro card_mono) (auto simp: txn_def)
  then show ?thesis using assms finite_subset [OF assms(2)] by (auto simp: txn_def)
qed

lemma txn_log:
  assumes "txn dev H Y k s" and "tx_inv dev H s'" and "tx_keeps dev H' s s'"
    and "set (log_blocks s') \<subseteq> set (log_blocks s) \<union> Y"
  shows "txn dev H Y k s'"
proof -
  have "card (set (log_blocks s') \<union> Y) \<le> card (set (log_blocks s) \<union> Y)"
    using assms(1,4) by (intro card_mono) (auto simp: txn_def)
  then show ?thesis using assms(1,2) keeps_fields [OF assms(3)] by (auto simp: txn_def)
qed

lemma txn_n:
  assumes "txn dev H Y k s"
  shows "nat (lh_n s) + k \<le> card (set (log_blocks s) \<union> Y) + k" "0 \<le> lh_n s"
proof -
  have "card (set (log_blocks s)) = nat (lh_n s)"
    using tx_length [of dev H s] assms by (simp add: distinct_card txn_def tx_inv_def)
  moreover have "card (set (log_blocks s)) \<le> card (set (log_blocks s) \<union> Y)"
    using assms by (intro card_mono) (auto simp: txn_def)
  ultimately show "nat (lh_n s) + k \<le> card (set (log_blocks s) \<union> Y) + k" by simp
  show "0 \<le> lh_n s" using assms by (simp add: txn_def tx_inv_def)
qed

lemma txn_space: "txn dev H Y k s \<Longrightarrow> log_space s"
  using txn_n [of dev H Y k s] by (auto simp: txn_def log_space_def)

lemma txn_room:
  assumes "txn dev H Y k s"
  shows "tx_room H b s"
proof -
  have "card (insert b (set (log_blocks s) \<union> H)) \<le> Suc (card (set (log_blocks s) \<union> H))" by (rule card_insert_le_m1) simp_all
  also have "\<dots> \<le> Suc (card (set (log_blocks s)) + card H)" using card_Un_le by simp
  also have "\<dots> \<le> Suc (nat (lh_n s) + 1)"
    using tx_length [of dev H s] card_length [of "log_blocks s"] assms by (simp add: txn_def)
  finally show ?thesis using assms txn_n [OF assms] by (auto simp: tx_room_def txn_def LOGSIZE_def NBUF_def MAXOPBLOCKS_def)
qed

lemma logged_mono: "L' = logged b L \<Longrightarrow> set L \<subseteq> set L'"
  by (auto simp: logged_def)

lemma txn_read:
  assumes "txn dev H Y k s" and "b \<notin> H"
  obtains i s1 s2 where "bread dev b s = Inr (i, s1)" and "get_data i s1 = v_blk (view dev s) b"
    and "sb s1 = sb s" and "itable s1 = itable s" and "upagetable s1 = upagetable s" and "pmem s1 = pmem s"
    and "brelse i s1 = Inr s2" and "txn dev H Y k s2" and "tx_keeps dev H s s2" and "itable s2 = itable s"
    and "v_blk (view dev s2) = v_blk (view dev s)"
proof -
  have tx: "tx_inv dev H s" using assms(1) by (simp add: txn_def)
  obtain i s1 s2 where r: "bread dev b s = Inr (i, s1)" "get_data i s1 = v_blk (view dev s) b"
    "brelse i s1 = Inr s2" "tx_inv dev H s2" "bframe s s1" "bframe s s2"
    "\<forall>b' \<in> H. slot dev s2 b' = slot dev s b'" "v_blk (view dev s2) = v_blk (view dev s)"
    "disk s2 = disk s" "dwrites s2 = dwrites s" "log_blocks s2 = log_blocks s"
    by (rule tx_read [OF tx assms(2) txn_room [OF assms(1)]])
  note k = tframe_keeps [OF bframe_tframe [OF r(6)] r(7,9,10) eq_refl [OF arg_cong [OF r(11) [symmetric]]]]
  have "txn dev H Y k s2" using txn_log [OF assms(1) r(4) k(1)] r(11) by simp
  moreover have "sb s1 = sb s" "itable s1 = itable s" "upagetable s1 = upagetable s" "pmem s1 = pmem s"
    using r(5) by (auto simp: bframe_def)
  ultimately show thesis using r k by (intro that [of i s1 s2]) simp_all
qed

lemma txn_update:
  assumes "txn dev H Y k s" and "b \<in> Y" and "b \<notin> H" and "b \<notin> log_region (log_start s)"
    and "length (f (v_blk (view dev s) b)) = BSIZE"
  obtains i s1 s2 s3 where "bread dev b s = Inr (i, s1)" and "get_data i s1 = v_blk (view dev s) b"
    and "sb s1 = sb s" and "itable s1 = itable s" and "upagetable s1 = upagetable s" and "pmem s1 = pmem s"
    and "log_write i (set_data i (f (v_blk (view dev s) b)) s1) = Inr s2" and "brelse i s2 = Inr s3"
    and "txn dev H Y k s3" and "tx_keeps dev H s s3" and "itable s3 = itable s"
    and "v_blk (view dev s3) = (v_blk (view dev s))(b := f (v_blk (view dev s) b))"
proof -
  have tx: "tx_inv dev H s" using assms(1) by (simp add: txn_def)
  obtain i s1 s2 s3 where r: "bread dev b s = Inr (i, s1)" "get_data i s1 = v_blk (view dev s) b"
    "bframe s s1" "log_write i (set_data i (f (get_data i s1)) s1) = Inr s2"
    "brelse i s2 = Inr s3" "tx_inv dev H s3" "tframe s s3"
    "\<forall>b' \<in> H. slot dev s3 b' = slot dev s b'"
    "v_blk (view dev s3) = (v_blk (view dev s))(b := f (v_blk (view dev s) b))"
    "disk s3 = disk s" "dwrites s3 = dwrites s" "log_blocks s3 = logged b (log_blocks s)"
    by (rule tx_update [where f = f, OF tx assms(3) txn_room [OF assms(1)] assms(4) txn_space [OF assms(1)] assms(5)])
  note k = tframe_keeps [OF r(7,8,10,11) logged_mono [OF r(12)]]
  have "txn dev H Y k s3" using txn_log [OF assms(1) r(6) k(1)] r(12) assms(2) by (auto simp: logged_def)
  moreover have "sb s1 = sb s" "itable s1 = itable s" "upagetable s1 = upagetable s" "pmem s1 = pmem s"
    using r(3) by (auto simp: bframe_def)
  ultimately show thesis using r k by (intro that [of i s1 s2 s3]) simp_all
qed

text \<open>A buffer that stays held while other blocks are changed.\<close>

lemma txn_open:
  assumes "txn dev {} Y k s"
  obtains i s' where "bread dev b s = Inr (i, s')" and "txn dev {b} Y k s'" and "tx_keeps dev {} s s'"
    and "itable s' = itable s" and "slot dev s' b = Some i" and "v_blk (view dev s') = v_blk (view dev s)"
    and "get_data i s' = v_blk (view dev s) b"
    and "b \<in> set (log_blocks s') \<or> v_blk (view dev s') b = disk s' b"
proof -
  have tx: "tx_inv dev {} s" using assms(1) by (simp add: txn_def)
  obtain i s1 where 1: "bread dev b s = Inr (i, s1)" "tx_inv dev {b} s1" "bframe s s1"
    "slot dev s1 b = Some i" "v_blk (view dev s1) = v_blk (view dev s)" "disk s1 = disk s" "dwrites s1 = dwrites s"
    "get_data i s1 = v_blk (view dev s) b" "log_blocks s1 = log_blocks s"
    by (rule tx_bread [OF tx _ txn_room [OF assms]]) simp_all
  note k = tframe_keeps [OF bframe_tframe [OF 1(3)] _ 1(6,7) eq_refl [OF arg_cong [OF 1(9) [symmetric]]], of "{}" dev]
  have "txn dev {b} Y k s1" using assms 1(2,9) keeps_fields [OF k(1)] by (simp add: txn_def)
  moreover have "b \<in> set (log_blocks s1) \<or> v_blk (view dev s1) b = disk s1 b"
    using bcache.unreferenced [of dev s b] tx by (auto simp: tx_inv_def 1)
  ultimately show thesis using 1 k by (intro that [of i s1]) simp_all
qed

lemma txn_close:
  assumes "txn dev {b} Y k s" and "slot dev s b = Some i" and "b \<in> set (log_blocks s) \<or> v_blk (view dev s) b = disk s b"
  obtains s' where "brelse i s = Inr s'" and "txn dev {} Y k s'" and "tx_keeps dev {} s s'" and "itable s' = itable s"
    and "v_blk (view dev s') = v_blk (view dev s)"
proof -
  have tx: "tx_inv dev {b} s" using assms(1) by (simp add: txn_def)
  obtain s' where s': "brelse i s = Inr s'" "tx_inv dev {} s'" "bframe s s'"
    "v_blk (view dev s') = v_blk (view dev s)" "disk s' = disk s" "dwrites s' = dwrites s" "log_blocks s' = log_blocks s"
    by (rule tx_brelse [OF tx _ assms(2,3)]) simp_all
  note k = tframe_keeps [OF bframe_tframe [OF s'(3)] _ s'(5,6) eq_refl [OF arg_cong [OF s'(7) [symmetric]]], of "{}" dev]
  have "txn dev {} Y k s'" using assms(1) s'(2,7) keeps_fields [OF k(1)] by (simp add: txn_def)
  then show thesis using s' k by (intro that [of s']) simp_all
qed

lemma txn_write_close:
  assumes "txn dev {b} Y k s" and "slot dev s b = Some i" and "b \<in> Y" and "b \<notin> log_region (log_start s)"
    and "length d = BSIZE"
  obtains s2 s3 where "log_write i (set_data i d s) = Inr s2" and "brelse i s2 = Inr s3" and "txn dev {} Y k s3"
    and "tx_keeps dev {} s s3" and "itable s3 = itable s" and "itable s2 = itable s"
    and "v_blk (view dev s3) = (v_blk (view dev s))(b := d)"
proof -
  have tx: "tx_inv dev {b} s" using assms(1) by (simp add: txn_def)
  obtain s2 s3 where r: "log_write i (set_data i d s) = Inr s2" "brelse i s2 = Inr s3"
    "tx_inv dev ({b} - {b}) s3" "tframe s s3" "slot dev s3 = slot dev s"
    "v_blk (view dev s3) = (v_blk (view dev s))(b := d)" "disk s3 = disk s"
    "dwrites s3 = dwrites s" "log_blocks s3 = logged b (log_blocks s)"
    by (rule tx_write [OF tx _ assms(2,4) txn_space [OF assms(1)] assms(5)]) simp_all
  note k = tframe_keeps [OF r(4) _ r(7,8) logged_mono [OF r(9)], of "{}" dev]
  have "txn dev {b} Y k s" by (rule assms(1))
  then have "txn dev {} Y k s3" using txn_log [of dev "{}" Y k "s" s3] assms(3) r(3,9) keeps_fields [OF k(1)]
    by (auto simp: txn_def logged_def insert_absorb intro: le_less_trans [OF card_mono])
  moreover have "itable s2 = itable s" 
    using r(1) by (auto simp: log_write_def set_data_def Let_def bpin_def upd_buf_def split: if_splits)
  ultimately show thesis using r k by (intro that [of s2 s3]) simp_all
qed

lemma bzero_ok:
  assumes "txn dev H Y (Suc k) s" and "b \<notin> H" and "b \<notin> log_region (log_start s)"
  obtains s' where "bzero dev b s = Inr s'" and "txn dev H (insert b Y) k s'" and "tx_keeps dev H s s'" and "itable s' = itable s"
    and "v_blk (view dev s') = (v_blk (view dev s))(b := replicate BSIZE 0)"
  by (rule txn_update [OF txn_take [OF assms(1)] _ assms(2,3), of b "\<lambda>_. replicate BSIZE 0"])
    (auto simp: bzero_def intro: that)

section \<open>The block allocator\<close>

definition bitmap_of :: "superblock \<Rightarrow> u32 set" where
  "bitmap_of b = (\<lambda>x. BBLOCK x b) ` {x. unat x < unat (sb_size b)}"

text \<open>The blocks that the bitmap has as free, among the blocks of the file system.\<close>

definition free_set :: "superblock \<Rightarrow> (u32 \<Rightarrow> byte list) \<Rightarrow> u32 set" where
  "free_set b V = {x. unat x < unat (sb_size b) \<and> \<not> used b V x}"

text \<open>
  The layout that \<^verbatim>\<open>mkfs\<close> makes: the bitmap is not in the log, and the blocks of the log, of the bitmap and of
  the inodes, and block 0, are never free. Nor is a block that the caller holds.
\<close>

definition inode_blocks :: "superblock \<Rightarrow> u32 set" where
  "inode_blocks b = (\<lambda>i. IBLOCK i b) ` {i. unat i < unat (sb_ninodes b)}"

definition layout_ok :: "u32 set \<Rightarrow> 'z fs_state_scheme \<Rightarrow> bool" where
  "layout_ok H s \<longleftrightarrow> unat (sb_size (sb s)) + BPB < 2 ^ 31 \<and>
     bitmap_of (sb s) \<inter> (H \<union> log_region (log_start s) \<union> inode_blocks (sb s)) = {} \<and>
     inode_blocks (sb s) \<inter> log_region (log_start s) = {}"

definition reserved :: "'z fs_state_scheme \<Rightarrow> u32 set" where
  "reserved s = insert 0 (log_region (log_start s) \<union> bitmap_of (sb s) \<union> inode_blocks (sb s))"

definition balloc_ok :: "u32 \<Rightarrow> u32 set \<Rightarrow> 'z fs_state_scheme \<Rightarrow> bool" where
  "balloc_ok dev H s \<longleftrightarrow> layout_ok H s \<and> free_set (sb s) (v_blk (view dev s)) \<inter> (H \<union> reserved s) = {}"

lemma layout_keeps: "tx_keeps dev H s s' \<Longrightarrow> layout_ok H' s' = layout_ok H' s" "tx_keeps dev H s s' \<Longrightarrow> reserved s' = reserved s"
  by (simp_all add: layout_ok_def reserved_def keeps_fields)

lemma balloc_ok_keeps:
  assumes "tx_keeps dev H s s'" and "balloc_ok dev H' s"
    and "free_set (sb s) (v_blk (view dev s')) \<subseteq> free_set (sb s) (v_blk (view dev s))"
  shows "balloc_ok dev H' s'"
  using assms(2,3) layout_keeps [OF assms(1)] by (auto simp: balloc_ok_def keeps_fields [OF assms(1)])

text \<open>What handing out \<open>x\<close> does to the blocks: its bit is set and its contents are cleared.\<close>

definition mark :: "superblock \<Rightarrow> u32 \<Rightarrow> (u32 \<Rightarrow> byte list) \<Rightarrow> u32 \<Rightarrow> byte list" where
  "mark S x V = (let d = V (BBLOCK x S); bi = unat x mod BPB
     in (V(BBLOCK x S := d[bi div 8 := d ! (bi div 8) OR bmask bi]))(x := replicate BSIZE 0))"

lemma find_first:
  "find P [0..<n] = Some i \<Longrightarrow> i < n \<and> P i \<and> (\<forall>j<i. \<not> P j)" "find P [0..<n] = None \<Longrightarrow> \<forall>j<n. \<not> P j"
  by (auto simp: find_Some_iff find_None_iff)

lemma bitmap_of_block:
  assumes "b < unat (sb_size S)"
  shows "BBLOCK (of_nat b) S \<in> bitmap_of S"
proof -
  have "unat (of_nat b :: u32) = b" using assms unat_u32 [of "sb_size S"] by (intro unat_of_nat_lt) simp
  then show ?thesis using assms unfolding bitmap_of_def by (intro image_eqI [of _ _ "of_nat b"]) simp_all
qed

lemma layout_block:
  assumes "layout_ok H s" and "b < unat (sb_size (sb s))"
  shows "BBLOCK (of_nat b) (sb s) \<notin> H" "BBLOCK (of_nat b) (sb s) \<notin> log_region (log_start s)"
  using assms bitmap_of_block [OF assms(2)] by (auto simp: layout_ok_def)

lemma block_len: "txn dev H Y k s \<Longrightarrow> length (v_blk (view dev s) b) = BSIZE"
  using bcache.block_length by (auto simp: txn_def tx_inv_def)

text \<open>The bit that the inner loop looks at is the bit of the block.\<close>

lemma loop_bit:
  assumes "b mod BPB = 0" and "bi < BPB" and "b + bi < 2 ^ 32"
  shows "V (BBLOCK (of_nat b) S) ! (bi div 8) AND bmask bi = 0 \<longleftrightarrow> \<not> used S V (of_nat (b + bi))"
  using bitmap_block [OF assms] by (simp add: used_def bitmap_bit_def and_bmask del: of_nat_add)

lemma balloc_skip:
  assumes "txn dev H Y k s" and "layout_ok H s" and "b < unat (sb_size (sb s))"
    and "find (\<lambda>bi. v_blk (view dev s) (BBLOCK (of_nat b) (sb s)) ! (bi div 8) AND bmask bi = 0)
          [0..<min BPB (unat (sb_size (sb s)) - b)] = None"
  obtains s' where "balloc_loop dev b s = balloc_loop dev (b + BPB) s'" and "txn dev H Y k s'" and "tx_keeps dev H s s'"
    and "itable s' = itable s" and "v_blk (view dev s') = v_blk (view dev s)"
proof -
  obtain i s1 s2 where r: "bread dev (BBLOCK (of_nat b) (sb s)) s = Inr (i, s1)"
    "get_data i s1 = v_blk (view dev s) (BBLOCK (of_nat b) (sb s))" "brelse i s1 = Inr s2" "txn dev H Y k s2" "tx_keeps dev H s s2"
    "itable s2 = itable s" "v_blk (view dev s2) = v_blk (view dev s)"
    by (rule txn_read [OF assms(1) layout_block(1) [OF assms(2,3)]])
  have "balloc_loop dev b s = balloc_loop dev (b + BPB) s2"
    using assms by (subst balloc_loop.simps) (simp add: r layout_ok_def Let_def)
  then show thesis using r by (intro that)
qed

lemma balloc_found:
  assumes "txn dev H Y (Suc k) s" and "bitmap_of (sb s) \<subseteq> Y" and "balloc_ok dev H s" and "b < unat (sb_size (sb s))"
    and "b mod BPB = 0"
    and f: "find (\<lambda>bi. v_blk (view dev s) (BBLOCK (of_nat b) (sb s)) ! (bi div 8) AND bmask bi = 0)
          [0..<min BPB (unat (sb_size (sb s)) - b)] = Some bi"
  defines "V \<equiv> v_blk (view dev s)" and "B \<equiv> BBLOCK (of_nat b) (sb s)"
  obtains s' where "balloc_loop dev b s = Inr (of_nat (b + bi), s')" and "txn dev H (insert (of_nat (b + bi)) Y) k s'" and "tx_keeps dev H s s'"
    and "itable s' = itable s" and "v_blk (view dev s') = mark (sb s) (of_nat (b + bi)) V"
    and "of_nat (b + bi) \<in> free_set (sb s) V"
proof -
  let ?f = "\<lambda>d. d[bi div 8 := d ! (bi div 8) OR bmask bi] :: byte list"
  have l: "layout_ok H s" using assms(3) by (simp add: balloc_ok_def)
  have bi: "bi < BPB" "b + bi < unat (sb_size (sb s))" "V B ! (bi div 8) AND bmask bi = 0"
    using find_first(1) [OF f] by (auto simp: V_def B_def)
  have x: "of_nat (b + bi) \<in> free_set (sb s) V"
    using bi loop_bit [OF assms(5) bi(1), of V "sb s"] unat_u32 [of "sb_size (sb s)"]
    by (auto simp: free_set_def B_def unat_of_nat_lt simp del: of_nat_add)
  have B: "B \<in> Y" "length (?f (V B)) = BSIZE"
    using assms(2) bitmap_of_block [OF assms(4)] block_len [OF assms(1)] by (auto simp: B_def V_def)
  obtain i s1 s2 s3 where r: "bread dev B s = Inr (i, s1)" "get_data i s1 = V B" "sb s1 = sb s"
    "log_write i (set_data i (?f (V B)) s1) = Inr s2" "brelse i s2 = Inr s3" "txn dev H Y (Suc k) s3"
    "tx_keeps dev H s s3" "itable s3 = itable s" "v_blk (view dev s3) = V(B := ?f (V B))"
    using B unfolding V_def B_def by (rule txn_update [where f = ?f, OF assms(1) _ layout_block [OF l assms(4)]])
  have nx: "of_nat (b + bi) \<notin> H" "of_nat (b + bi) \<notin> log_region (log_start s3)"
    using x assms(3) keeps_fields [OF r(7)] by (auto simp: balloc_ok_def reserved_def V_def simp del: of_nat_add)
  obtain s4 where z: "bzero dev (of_nat (b + bi)) s3 = Inr s4" "txn dev H (insert (of_nat (b + bi)) Y) k s4" "tx_keeps dev H s3 s4" "itable s4 = itable s3"
    "v_blk (view dev s4) = (v_blk (view dev s3))(of_nat (b + bi) := replicate BSIZE 0)"
    by (rule bzero_ok [OF r(6) nx])
  have "balloc_loop dev b s = Inr (of_nat (b + bi), s4)"
    using assms(4) l f by (subst balloc_loop.simps) (simp add: r z layout_ok_def Let_def V_def [symmetric] B_def [symmetric] del: of_nat_add)
  moreover have "mark (sb s) (of_nat (b + bi)) V = v_blk (view dev s4)"
    using bitmap_block [OF assms(5) bi(1)] bi(2) unat_u32 [of "sb_size (sb s)"] z(5) r(9)
    by (simp add: mark_def Let_def B_def del: of_nat_add)
  ultimately show thesis using x z keeps_trans [OF r(7) z(3)] r(8) by (intro that [of s4]) simp_all
qed

lemma scanned:
  assumes "b mod BPB = 0" and "\<forall>x. unat x < b \<and> unat x < n \<longrightarrow> used S V x"
    and "\<forall>j < min BPB (n - b). \<not> V (BBLOCK (of_nat b) S) ! (j div 8) AND bmask j = 0" and "unat x < b + BPB" and "unat x < n"
  shows "used S V x"
proof (cases "unat x < b")
  case False
  then have x: "unat x - b < BPB" "b + (unat x - b) < 2 ^ 32" "of_nat (b + (unat x - b)) = x"
    using assms(4) unat_u32 [of x] by (simp_all del: of_nat_add)
  show ?thesis using assms(3,5) x False loop_bit [OF assms(1) x(1,2), of V S]
    by (simp del: of_nat_add)
qed (use assms in simp)

text \<open>The outcome \<open>r\<close> of an allocation that turns the blocks \<open>V\<close> into \<open>V'\<close>.\<close>

definition allots :: "superblock \<Rightarrow> (u32 \<Rightarrow> byte list) \<Rightarrow> u32 \<Rightarrow> (u32 \<Rightarrow> byte list) \<Rightarrow> bool" where
  "allots S V r V' \<longleftrightarrow>
     (if r = 0 then free_set S V = {} \<and> V' = V
      else r \<in> free_set S V \<and> (\<forall>x\<in>free_set S V. r \<le> x) \<and> V' = mark S r V)"

lemma balloc_loop_ok:
  assumes "txn dev H Y (Suc k) s" and "bitmap_of (sb s) \<subseteq> Y" and "balloc_ok dev H s" and "b mod BPB = 0"
    and "\<forall>x. unat x < b \<and> unat x < unat (sb_size (sb s)) \<longrightarrow> used (sb s) (v_blk (view dev s)) x"
  shows "\<exists>r s'. balloc_loop dev b s = Inr (r, s') \<and> txn dev H (insert r Y) k s' \<and> tx_keeps dev H s s' \<and> itable s' = itable s \<and>
    allots (sb s) (v_blk (view dev s)) r (v_blk (view dev s'))"
  using assms
proof (induction "2 ^ 31 - b" arbitrary: b s rule: less_induct)
  case less
  let ?V = "v_blk (view dev s)" and ?S = "sb s"
  let ?P = "\<lambda>bi. ?V (BBLOCK (of_nat b) ?S) ! (bi div 8) AND bmask bi = 0"
  have l: "layout_ok H s" using less.prems(3) by (simp add: balloc_ok_def)
  have sz: "unat (sb_size ?S) + BPB < 2 ^ 31" using l by (simp add: layout_ok_def)
  consider (over) "\<not> b < unat (sb_size ?S)"
    | (next_block) "b < unat (sb_size ?S)" "find ?P [0..<min BPB (unat (sb_size ?S) - b)] = None"
    | (found) bi where "b < unat (sb_size ?S)" "find ?P [0..<min BPB (unat (sb_size ?S) - b)] = Some bi"
    by fastforce
  then show ?case
  proof cases
    case over
    then have "free_set ?S ?V = {}" using less.prems(5) by (auto simp: free_set_def)
    moreover have "balloc_loop dev b s = Inr (0, s)" using over by (subst balloc_loop.simps) simp
    ultimately show ?thesis using txn_take [OF less.prems(1)] by (simp add: allots_def)
  next
    case next_block
    obtain s' where s': "balloc_loop dev b s = balloc_loop dev (b + BPB) s'" "txn dev H Y (Suc k) s'" "tx_keeps dev H s s'"
      "itable s' = itable s" "v_blk (view dev s') = ?V"
      by (rule balloc_skip [OF less.prems(1) l next_block])
    note m = keeps_fields(1) [OF s'(3)]
    have sc: "\<forall>x. unat x < b + BPB \<and> unat x < unat (sb_size (sb s')) \<longrightarrow> used (sb s') (v_blk (view dev s')) x"
      using scanned [OF less.prems(4,5) find_first(2) [OF next_block(2)]] unfolding m s'(5) by blast
    have bo: "balloc_ok dev H s'" "bitmap_of (sb s') \<subseteq> Y"
      using balloc_ok_keeps [OF s'(3) less.prems(3)] s'(5) less.prems(2) m by simp_all
    have d: "2 ^ 31 - (b + BPB) < 2 ^ 31 - b" "(b + BPB) mod BPB = 0" using sz next_block(1) less.prems(4)
      by (simp_all add: BPB_def BSIZE_def)
    obtain r s'' where r: "balloc_loop dev (b + BPB) s' = Inr (r, s'')" "txn dev H (insert r Y) k s''" "tx_keeps dev H s' s''"
      "itable s'' = itable s'" "allots ?S ?V r (v_blk (view dev s''))"
      using less.hyps [OF d(1) s'(2) bo(2,1) d(2) sc] unfolding m s'(5) by (elim exE conjE)
    then show ?thesis using keeps_trans [OF s'(3) r(3)] s'(4) unfolding s'(1)
      by (intro exI [of _ r] exI [of _ s'']) simp
  next
    case (found bi)
    obtain s' where s': "balloc_loop dev b s = Inr (of_nat (b + bi), s')" "txn dev H (insert (of_nat (b + bi)) Y) k s'" "tx_keeps dev H s s'"
      "itable s' = itable s" "v_blk (view dev s') = mark ?S (of_nat (b + bi)) ?V" "of_nat (b + bi) \<in> free_set ?S ?V"
      by (rule balloc_found [OF less.prems(1-3) found(1) less.prems(4) found(2)])
    have bi: "bi < BPB" "b + bi < 2 ^ 32" "\<forall>j < bi. \<not> ?P j"
      using find_first(1) [OF found(2)] sz by auto
    then have "\<forall>j < min BPB (b + bi - b). \<not> ?P j" by simp
    moreover have "\<forall>x. unat x < b \<and> unat x < b + bi \<longrightarrow> used ?S ?V x" using less.prems(5) found(1) by auto
    ultimately have "used ?S ?V x" if "unat x < b + bi" for x
      using scanned [of b "b + bi" ?S ?V x] less.prems(4) that bi(1) by simp
    then have "\<forall>x\<in>free_set ?S ?V. of_nat (b + bi) \<le> x"
      using bi(2) by (auto simp: free_set_def word_le_nat_alt unat_of_nat_lt not_le [symmetric] simp del: of_nat_add)
    moreover have "of_nat (b + bi) \<noteq> (0 :: u32)" using s'(6) less.prems(3) by (auto simp: balloc_ok_def reserved_def)
    ultimately show ?thesis using s'
      by (intro exI [of _ "of_nat (b + bi)"] exI [of _ s']) (simp add: allots_def del: of_nat_add)
  qed
qed

lemma free_set_mark:
  assumes "length (V (BBLOCK x S)) = BSIZE" and "x \<notin> bitmap_of S"
  shows "free_set S (mark S x V) = free_set S V - {x}"
proof -
  have "used S (mark S x V) y \<longleftrightarrow> used S V y \<or> y = x" if "unat y < unat (sb_size S)" for y
  proof -
    have "BBLOCK y S \<noteq> x" using assms(2) that by (auto simp: bitmap_of_def)
    then show ?thesis using used_change(1) [of V x S y] assms(1) by (simp add: used_def mark_def Let_def)
  qed
  then show ?thesis by (auto simp: free_set_def)
qed

lemma allots_effect:
  assumes "allots S V r V'" and "r \<noteq> 0" and "r \<notin> bitmap_of S" and "\<forall>b. length (V b) = BSIZE"
  shows "r \<in> free_set S V" "\<forall>x\<in>free_set S V. r \<le> x" "free_set S V' = free_set S V - {r}" "V' r = replicate BSIZE 0"
    "\<forall>x. x \<noteq> r \<longrightarrow> x \<notin> bitmap_of S \<longrightarrow> V' x = V x"
proof -
  show k: "r \<in> free_set S V" "\<forall>x\<in>free_set S V. r \<le> x" using assms(1,2) by (simp_all add: allots_def)
  have V': "V' = mark S r V" using assms(1,2) by (simp add: allots_def)
  show "free_set S V' = free_set S V - {r}" using free_set_mark [of V r S] assms(3,4) by (simp add: V')
  have "BBLOCK r S \<in> bitmap_of S" using k(1) by (auto simp: bitmap_of_def free_set_def)
  then show "V' r = replicate BSIZE 0" "\<forall>x. x \<noteq> r \<longrightarrow> x \<notin> bitmap_of S \<longrightarrow> V' x = V x"
    by (auto simp: V' mark_def Let_def)
qed

lemma balloc_allots:
  assumes "txn dev H Y (Suc k) s" and "bitmap_of (sb s) \<subseteq> Y" and "balloc_ok dev H s"
  obtains r s' where "balloc dev s = Inr (r, s')" and "txn dev H (insert r Y) k s'" and "tx_keeps dev H s s'" and "itable s' = itable s"
    and "balloc_ok dev H s'" and "allots (sb s) (v_blk (view dev s)) r (v_blk (view dev s'))"
    and "r \<noteq> 0 \<longrightarrow> r \<notin> H \<union> reserved s"
proof -
  let ?V = "v_blk (view dev s)"
  obtain r s' where r: "balloc dev s = Inr (r, s')" "txn dev H (insert r Y) k s'" "tx_keeps dev H s s'" "itable s' = itable s"
    "allots (sb s) ?V r (v_blk (view dev s'))"
    using balloc_loop_ok [OF assms, of 0] unfolding balloc_def by auto
  have nb: "r \<noteq> 0 \<longrightarrow> r \<notin> H \<union> reserved s" using r(5) assms(3) by (auto simp: balloc_ok_def allots_def)
  have "free_set (sb s) (v_blk (view dev s')) \<subseteq> free_set (sb s) ?V"
  proof (cases "r = 0")
    case False
    then show ?thesis using allots_effect(3) [OF r(5)] nb block_len [OF assms(1)] by (auto simp: reserved_def)
  qed (use r(5) in \<open>simp add: allots_def\<close>)
  then have "balloc_ok dev H s'" by (rule balloc_ok_keeps [OF r(3) assms(3)])
  then show thesis using r nb by (intro that [of r s'])
qed

text \<open>\<^verbatim>\<open>bfree\<close> takes the bit of \<open>x\<close> out of the bitmap.\<close>

definition unmark :: "superblock \<Rightarrow> u32 \<Rightarrow> (u32 \<Rightarrow> byte list) \<Rightarrow> u32 \<Rightarrow> byte list" where
  "unmark S x V = (let d = V (BBLOCK x S); bi = unat x mod BPB
     in V(BBLOCK x S := d[bi div 8 := d ! (bi div 8) AND NOT (bmask bi)]))"

lemma unmark_effect:
  assumes "length (V (BBLOCK x S)) = BSIZE" and "unat x < unat (sb_size S)"
  shows "free_set S (unmark S x V) = insert x (free_set S V)" "y \<notin> bitmap_of S \<Longrightarrow> unmark S x V y = V y"
    "used S (unmark S x V) y \<longleftrightarrow> used S V y \<and> y \<noteq> x"
proof -
  show u: "used S (unmark S x V) y \<longleftrightarrow> used S V y \<and> y \<noteq> x" for y
    using used_change(2) [of V x S y] assms(1) by (simp add: unmark_def Let_def)
  show "free_set S (unmark S x V) = insert x (free_set S V)" using assms(2) by (auto simp: free_set_def u)
  have "BBLOCK x S \<in> bitmap_of S" using assms(2) by (auto simp: bitmap_of_def)
  then show "unmark S x V y = V y" if "y \<notin> bitmap_of S" using that by (auto simp: unmark_def Let_def)
qed

lemma bfree_ok:
  assumes "txn dev H Y k s" and "bitmap_of (sb s) \<subseteq> Y" and "layout_ok H s" and "unat x < unat (sb_size (sb s))"
    and "used (sb s) (v_blk (view dev s)) x"
  obtains s' where "bfree dev x s = Inr s'" and "txn dev H Y k s'" and "tx_keeps dev H s s'" and "itable s' = itable s"
    and "v_blk (view dev s') = unmark (sb s) x (v_blk (view dev s))"
proof -
  let ?B = "BBLOCK x (sb s)" and ?bi = "unat x mod BPB" and ?V = "v_blk (view dev s)"
  let ?f = "\<lambda>d. d[?bi div 8 := d ! (?bi div 8) AND NOT (bmask ?bi)] :: byte list"
  have B: "?B \<in> bitmap_of (sb s)" using assms(4) by (auto simp: bitmap_of_def)
  then have nB: "?B \<in> Y" "?B \<notin> H" "?B \<notin> log_region (log_start s)" "length (?f (?V ?B)) = BSIZE"
    using assms(2,3) block_len [OF assms(1)] by (auto simp: layout_ok_def)
  obtain i s1 s2 s3 where r: "bread dev ?B s = Inr (i, s1)" "get_data i s1 = ?V ?B"
    "log_write i (set_data i (?f (?V ?B)) s1) = Inr s2" "brelse i s2 = Inr s3" "txn dev H Y k s3" "tx_keeps dev H s s3"
    "itable s3 = itable s" "v_blk (view dev s3) = ?V(?B := ?f (?V ?B))"
    by (rule txn_update [where f = ?f, OF assms(1) nB])
  have "?V ?B ! (?bi div 8) AND bmask ?bi \<noteq> 0" using assms(5) by (simp add: used_def bitmap_bit_def and_bmask)
  then have "bfree dev x s = Inr s3" using r by (simp add: bfree_def Let_def)
  then show thesis using r by (intro that [of s3]) (simp_all add: unmark_def Let_def)
qed

lemma bfree_free:
  assumes "txn dev H Y k s" and "layout_ok H s" and "unat x < unat (sb_size (sb s))"
    and "\<not> used (sb s) (v_blk (view dev s)) x"
  shows "bfree dev x s = Inl (Panic ''freeing free block'')"
proof -
  let ?B = "BBLOCK x (sb s)"
  have "?B \<in> bitmap_of (sb s)" using assms(3) by (auto simp: bitmap_of_def)
  then have "?B \<notin> H" using assms(2) by (auto simp: layout_ok_def)
  then obtain i s1 where "bread dev ?B s = Inr (i, s1)" "get_data i s1 = v_blk (view dev s) ?B"
    by (rule txn_read [OF assms(1)])
  then show ?thesis using assms(4) by (simp add: bfree_def Let_def used_def bitmap_bit_def and_bmask)
qed

section \<open>A small file system\<close>

text \<open>
  A disk of 60 blocks as \<^verbatim>\<open>mkfs\<close> lays it out: the log in blocks 2 to 31, the inodes in block 32, the bitmap in
  block 33, and free blocks after it. \<open>small_fs\<close> is the machine with this disk inside an operation.
\<close>

definition small_sb :: superblock where
  "small_sb = \<lparr>sb_magic = FSMAGIC, sb_size = 60, sb_nblocks = 26, sb_ninodes = 16, sb_nlog = 30, sb_logstart = 2,
     sb_inodestart = 32, sb_bmapstart = 33\<rparr>"

definition small_disk :: "u32 \<Rightarrow> byte list" where
  "small_disk b = (if b = 33 then [255, 255, 255, 255, 3] @ replicate (BSIZE - 5) 0 else replicate BSIZE 0)"

definition small_inode :: inode where
  "small_inode = \<lparr>i_dev = 1, i_num = 7, i_ref = 1, i_lock = \<lparr>sl_locked = 1, sl_pid = 1\<rparr>, i_valid = True,
     i_disk = \<lparr>d_type = T_FILE, d_major = 0, d_minor = 0, d_nlink = 1, d_size = 0, d_addrs = replicate 13 0\<rparr>\<rparr>"

definition small_fs :: fs_state where
  "small_fs = binit
     \<lparr>pmem = (\<lambda>_. 0), freelist = 0, curpid = 1, bufs = (\<lambda>_. zero_buf), disk = small_disk, dwrites = [],
      log_start = 2, log_size = 30, outstanding = 1, committing = False, log_dev = 1,
      lh_n = 0, lh_block = replicate LOGSIZE 0, sb = small_sb, itable = (\<lambda>_. small_inode), upagetable = 0, cwd = 0\<rparr>"

lemma small_disk_length: "length (small_disk b) = BSIZE"
  by (simp add: small_disk_def BSIZE_def)

lemma bframe_fs: "bframe s s' \<Longrightarrow> sb s' = sb s" "bframe s s' \<Longrightarrow> itable s' = itable s"
  by (auto simp: bframe_def)

lemma small_fs_fields:
  "log_start small_fs = 2" "log_size small_fs = 30" "outstanding small_fs = 1" "log_dev small_fs = 1" "lh_n small_fs = 0"
  "lh_block small_fs = replicate LOGSIZE 0" "curpid small_fs = 1" "sb small_fs = small_sb"
  "itable small_fs = (\<lambda>_. small_inode)" "log_blocks small_fs = []"
  by (simp_all add: small_fs_def log_blocks_def bframe_log [OF bframe_binit] bframe_fs [OF bframe_binit])

lemma small_fs_view:
  "binv 1 small_fs" "view 1 small_fs = \<lparr>v_blk = small_disk, v_disk = small_disk, v_refs = (\<lambda>b. 0), v_lock = (\<lambda>b. None), v_writes = []\<rparr>"
  unfolding small_fs_def
  using binit_ok [of "\<lparr>pmem = (\<lambda>_. 0), freelist = 0, curpid = 1, bufs = (\<lambda>_. zero_buf), disk = small_disk, dwrites = [],
      log_start = 2, log_size = 30, outstanding = 1, committing = False, log_dev = 1,
      lh_n = 0, lh_block = replicate LOGSIZE 0, sb = small_sb, itable = (\<lambda>_. small_inode), upagetable = 0, cwd = 0\<rparr>" 1]
    small_disk_length by (simp_all add: zero_buf_def)

lemma small_fs_txn:
  assumes "finite Y" and "card Y + k < 29"
  shows "txn 1 {} Y k small_fs"
proof -
  have "disk small_fs = small_disk" using view_disk [of 1 small_fs] small_fs_view by simp
  moreover have "hdr_n (small_disk 2) = 0" by (simp add: small_disk_def zero_header)
  ultimately show ?thesis using assms small_fs_view
    by (simp add: txn_def tx_inv_def small_fs_fields LOGSIZE_def MAXOPBLOCKS_def)
qed

lemma below_60: "unat (x :: u32) < 60 \<Longrightarrow> unat x div BPB = 0 \<and> unat x mod BPB = unat x"
  by (simp add: BPB_def BSIZE_def)

lemma small_regions:
  "bitmap_of small_sb = {33}" "inode_blocks small_sb = {32}" "log_region 2 = {x. 2 \<le> unat x \<and> unat x < 32}"
proof -
  have "unat (0 :: u32) < 60" by simp
  then show "bitmap_of small_sb = {33}" unfolding bitmap_of_def
    by (auto simp: small_sb_def BBLOCK_def below_60 intro!: image_eqI [of _ _ 0])
  show "inode_blocks small_sb = {32}"
    by (auto simp: inode_blocks_def small_sb_def IBLOCK_def IPB_def BSIZE_def intro!: image_eqI [of _ _ 0])
  show "log_region 2 = {x. 2 \<le> unat x \<and> unat x < 32}"
  proof (intro equalityI subsetI)
    fix x :: u32 assume "x \<in> log_region 2"
    then show "x \<in> {x. 2 \<le> unat x \<and> unat x < 32}"
      by (auto simp: log_region_def log_blk_def LOGSIZE_def MAXOPBLOCKS_def unat_word_ariths unat_of_nat)
  next
    fix x :: u32 assume x: "x \<in> {x. 2 \<le> unat x \<and> unat x < 32}"
    show "x \<in> log_region 2"
    proof (cases "unat x = 2")
      case True
      then have "x = 2" by (simp add: word_unat_eq_iff)
      then show ?thesis by (simp add: log_region_def)
    next
      case False
      have "x = of_nat (unat x)" by simp
      also have "\<dots> = log_blk 2 (unat x - 3)" using x False by (simp add: log_blk_def of_nat_diff)
      finally show ?thesis using x False by (auto simp: log_region_def LOGSIZE_def MAXOPBLOCKS_def)
    qed
  qed
qed

lemma small_free: "free_set small_sb small_disk = {x. 34 \<le> unat x \<and> unat x < 60}"
proof -
  have "used small_sb small_disk x \<longleftrightarrow> unat x < 34" if "unat x < 60" for x
  proof -
    have "BBLOCK x small_sb = 33" using that by (simp add: BBLOCK_def small_sb_def below_60)
    then have u: "used small_sb small_disk x = bit (([255, 255, 255, 255, 3] @ replicate (BSIZE - 5) 0) ! (unat x div 8) :: byte) (unat x mod 8)"
      using that by (simp add: used_def bitmap_bit_def small_disk_def below_60)
    have "unat x \<in> set [0..<60]" using that by simp
    then show ?thesis unfolding u by (simp add: upt_rec BSIZE_def) (elim disjE; simp add: nth_append bit_numeral_rec)
  qed
  then show ?thesis by (auto simp: free_set_def small_sb_def)
qed

lemma small_fs_ok: "balloc_ok 1 {} small_fs" "layout_ok {} small_fs"
proof -
  show "layout_ok {} small_fs"
    by (simp add: layout_ok_def small_fs_fields small_regions) (simp add: small_sb_def BPB_def BSIZE_def)
  then show "balloc_ok 1 {} small_fs"
    by (auto simp: balloc_ok_def small_fs_fields small_fs_view small_free reserved_def small_regions)
qed

section \<open>Properties\<close>

text \<open>
  C26. In a transaction that has room in the log for the bitmap and one more block, on a file system with the
  layout of \<^verbatim>\<open>mkfs\<close>, \<^verbatim>\<open>balloc\<close> always returns and uses no more of the log. It returns 0 exactly if the
  bitmap has no free block, and then changes no block; otherwise it returns the lowest free block, which is
  then no longer free and all zeros, while the other free blocks stay free and no block but it and the
  bitmap changes. The layout stays as it was, so the next \<^verbatim>\<open>balloc\<close> returns another block.\<close>

theorem balloc_correct:
  assumes "txn dev H Y (Suc k) s" and "bitmap_of (sb s) \<subseteq> Y" and "balloc_ok dev H s"
  shows "\<exists>r s'. balloc dev s = Inr (r, s') \<and> txn dev H Y k s' \<and> tx_keeps dev H s s' \<and> balloc_ok dev H s' \<and>
    (let V = v_blk (view dev s); V' = v_blk (view dev s'); F = free_set (sb s) V
     in if F = {} then r = 0 \<and> V' = V
        else r \<in> F \<and> (\<forall>x\<in>F. r \<le> x) \<and> free_set (sb s) V' = F - {r} \<and> V' r = replicate BSIZE 0 \<and>
          (\<forall>x. x \<noteq> r \<longrightarrow> x \<notin> bitmap_of (sb s) \<longrightarrow> V' x = V x))"
proof -
  obtain r s' where r: "balloc dev s = Inr (r, s')" "txn dev H (insert r Y) k s'" "tx_keeps dev H s s'" "balloc_ok dev H s'"
    "allots (sb s) (v_blk (view dev s)) r (v_blk (view dev s'))" "r \<noteq> 0 \<longrightarrow> r \<notin> H \<union> reserved s"
    by (rule balloc_allots [OF assms])
  have tx: "txn dev H Y k s'" using txn_sub [OF r(2)] by blast
  show ?thesis
  proof (cases "r = 0")
    case True
    then show ?thesis using tx r(1-5) by (auto simp: allots_def Let_def)
  next
    case False
    then have "r \<notin> bitmap_of (sb s)" using r(6) by (auto simp: reserved_def)
    note e = allots_effect [OF r(5) False this]
    then show ?thesis using tx r(1-4) block_len [OF assms(1)] by (intro exI [of _ r] exI [of _ s']) (auto simp: Let_def)
  qed
qed

theorem balloc_correct_witness:
  "\<exists>s'. balloc 1 small_fs = Inr (34, s') \<and> free_set small_sb (v_blk (view 1 s')) = {x. 35 \<le> unat x \<and> unat x < 60}"
proof -
  have t: "txn 1 {} {33} (Suc 0) small_fs" "bitmap_of (sb small_fs) \<subseteq> {33}"
    by (simp_all add: small_fs_txn small_fs_fields small_regions)
  have m: "34 \<in> free_set small_sb small_disk" by (simp add: small_free)
  then have ne: "free_set small_sb small_disk \<noteq> {}" by blast
  obtain r s' where r: "balloc 1 small_fs = Inr (r, s')" "r \<in> free_set small_sb small_disk"
    "\<forall>x\<in>free_set small_sb small_disk. r \<le> x" "free_set small_sb (v_blk (view 1 s')) = free_set small_sb small_disk - {r}"
    using balloc_correct [OF t small_fs_ok(1)] ne by (auto simp: small_fs_view small_fs_fields Let_def)
  have "r \<le> 34" using r(3) m by blast
  then have "r = 34" using r(2) by (simp add: small_free word_le_nat_alt word_unat_eq_iff)
  moreover have "{x. 34 \<le> unat x \<and> unat x < 60} - {34 :: u32} = {x. 35 \<le> unat x \<and> unat x < 60}"
    by (auto simp: word_unat_eq_iff)
  ultimately show ?thesis using r by (simp add: small_free)
qed

text \<open>
  \<^verbatim>\<open>bfree\<close> of a block that the bitmap has as used makes exactly that block free and changes no block outside
  the bitmap; \<^verbatim>\<open>bfree\<close> of a block that is already free panics.\<close>

theorem bfree_correct:
  assumes "txn dev H Y k s" and "bitmap_of (sb s) \<subseteq> Y" and "layout_ok H s" and "unat x < unat (sb_size (sb s))"
  shows "if used (sb s) (v_blk (view dev s)) x
    then \<exists>s'. bfree dev x s = Inr s' \<and> txn dev H Y k s' \<and> tx_keeps dev H s s' \<and>
      free_set (sb s) (v_blk (view dev s')) = insert x (free_set (sb s) (v_blk (view dev s))) \<and>
      (\<forall>y. y \<notin> bitmap_of (sb s) \<longrightarrow> v_blk (view dev s') y = v_blk (view dev s) y)
    else bfree dev x s = Inl (Panic ''freeing free block'')"
proof (cases "used (sb s) (v_blk (view dev s)) x")
  case True
  obtain s' where s': "bfree dev x s = Inr s'" "txn dev H Y k s'" "tx_keeps dev H s s'"
    "v_blk (view dev s') = unmark (sb s) x (v_blk (view dev s))"
    by (rule bfree_ok [OF assms True])
  then show ?thesis
    using True unmark_effect(1,2) [OF _ assms(4), of "v_blk (view dev s)"] block_len [OF assms(1)] by auto
next
  case False
  then show ?thesis using bfree_free [OF assms(1,3,4)] by simp
qed

theorem bfree_correct_witness:
  "(\<exists>s'. bfree 1 10 small_fs = Inr s' \<and> 10 \<in> free_set small_sb (v_blk (view 1 s'))) \<and>
   bfree 1 40 small_fs = Inl (Panic ''freeing free block'')"
proof -
  have t: "txn 1 {} {33} 0 small_fs" "bitmap_of (sb small_fs) \<subseteq> {33}"
    by (simp_all add: small_fs_txn small_fs_fields small_regions)
  have "(10 :: u32) \<notin> free_set small_sb small_disk" "(40 :: u32) \<in> free_set small_sb small_disk" by (simp_all add: small_free)
  then have u: "used small_sb small_disk 10" "\<not> used small_sb small_disk 40" by (simp_all add: free_set_def small_sb_def)
  show ?thesis
    using bfree_correct [OF t small_fs_ok(2), of 10] bfree_correct [OF t small_fs_ok(2), of 40] u
    by (auto simp: small_fs_view small_fs_fields) (auto simp: small_sb_def)
qed

end
