(* ===== verification/Xv6_Content.thy ===== *)
theory Xv6_Content
  imports Xv6_Blocks
begin

text \<open>
  The content of a file: \<^verbatim>\<open>bmap\<close>, \<^verbatim>\<open>readi\<close>, \<^verbatim>\<open>writei\<close> and \<^verbatim>\<open>itrunc\<close> of \<^verbatim>\<open>kernel/fs.c\<close> against a file
  that is a list of bytes. The block map of an inode is read off its twelve direct slots and its indirect
  block; \<open>file_ok\<close> says that the blocks of the file are in use, distinct and outside the areas the file system
  keeps for itself, and every operation is shown to keep it.
\<close>

section \<open>The block map of an inode\<close>

text \<open>Block \<open>k\<close> of the file, 0 if there is none; \<open>k = MAXFILE\<close> stands for the indirect block itself.\<close>

definition fblk :: "dinode \<Rightarrow> (u32 \<Rightarrow> byte list) \<Rightarrow> nat \<Rightarrow> u32" where
  "fblk n V k =
     (if k < NDIRECT then d_addrs n ! k
      else if k < MAXFILE then (if d_addrs n ! NDIRECT = 0 then 0 else get32 (V (d_addrs n ! NDIRECT)) (4 * (k - NDIRECT)))
      else d_addrs n ! NDIRECT)"

definition file_blocks :: "dinode \<Rightarrow> (u32 \<Rightarrow> byte list) \<Rightarrow> u32 set" where
  "file_blocks n V = fblk n V ` {..MAXFILE} - {0}"

definition file_ok :: "superblock \<Rightarrow> u32 set \<Rightarrow> (u32 \<Rightarrow> byte list) \<Rightarrow> dinode \<Rightarrow> bool" where
  "file_ok S R V n \<longleftrightarrow>
     length (d_addrs n) = NDIRECT + 1 \<and>
     (\<forall>j\<le>MAXFILE. \<forall>k\<le>MAXFILE. fblk n V j = fblk n V k \<longrightarrow> fblk n V j = 0 \<or> j = k) \<and>
     (\<forall>b\<in>file_blocks n V. b \<notin> R \<and> unat b < unat (sb_size S) \<and> used S V b)"

text \<open>The byte at \<open>off\<close>, and the whole content. A block that is not there reads as zeros.\<close>

definition fbyte :: "dinode \<Rightarrow> (u32 \<Rightarrow> byte list) \<Rightarrow> nat \<Rightarrow> byte" where
  "fbyte n V off = (if fblk n V (off div BSIZE) = 0 then 0 else V (fblk n V (off div BSIZE)) ! (off mod BSIZE))"

definition fcontent :: "dinode \<Rightarrow> (u32 \<Rightarrow> byte list) \<Rightarrow> byte list" where
  "fcontent n V = map (fbyte n V) [0..<unat (d_size n)]"

definition no_holes :: "dinode \<Rightarrow> (u32 \<Rightarrow> byte list) \<Rightarrow> bool" where
  "no_holes n V \<longleftrightarrow> unat (d_size n) \<le> MAXFILE * BSIZE \<and> (\<forall>p < unat (d_size n). fblk n V (p div BSIZE) \<noteq> 0)"

lemma blocks_pos: "NDIRECT < MAXFILE" "0 < BSIZE" "NDIRECT + NINDIRECT = MAXFILE" "4 * NINDIRECT = BSIZE"
  by (simp_all add: MAXFILE_def NINDIRECT_def BSIZE_def)

lemma fblk_max: "fblk n V MAXFILE = d_addrs n ! NDIRECT"
  using blocks_pos by (simp add: fblk_def)

lemma fblk_in: "k \<le> MAXFILE \<Longrightarrow> fblk n V k \<noteq> 0 \<Longrightarrow> fblk n V k \<in> file_blocks n V"
  by (auto simp: file_blocks_def)

lemma file_okD:
  assumes "file_ok S R V n" and "k \<le> MAXFILE" and "fblk n V k \<noteq> 0"
  shows "fblk n V k \<notin> R" "unat (fblk n V k) < unat (sb_size S)" "used S V (fblk n V k)" "fblk n V k \<notin> free_set S V"
  using assms fblk_in [OF assms(2,3)] by (auto simp: file_ok_def free_set_def)

lemma file_ok_inj: "file_ok S R V n \<Longrightarrow> j \<le> MAXFILE \<Longrightarrow> k \<le> MAXFILE \<Longrightarrow> fblk n V j = fblk n V k \<Longrightarrow> fblk n V j \<noteq> 0 \<Longrightarrow> j = k"
  by (auto simp: file_ok_def)

lemma off_block: "off < MAXFILE * BSIZE \<Longrightarrow> off div BSIZE < MAXFILE"
  by (simp add: less_mult_imp_div_less)

text \<open>The map depends only on the indirect block.\<close>

lemma fblk_cong: "V' (d_addrs n ! NDIRECT) = V (d_addrs n ! NDIRECT) \<or> d_addrs n ! NDIRECT = 0 \<Longrightarrow> fblk n V' = fblk n V"
  by (auto simp: fblk_def fun_eq_iff)

lemma file_ok_cong:
  assumes "file_ok S R V n" and "fblk n' V' = fblk n V" and "\<forall>b\<in>file_blocks n V. used S V b \<longrightarrow> used S V' b"
    and "length (d_addrs n') = length (d_addrs n)"
  shows "file_ok S R V' n'"
  using assms by (auto simp: file_ok_def file_blocks_def)

lemma fbyte_cong:
  assumes "fblk n' V' = fblk n V" and "\<forall>b\<in>file_blocks n V. V' b = V b" and "off < MAXFILE * BSIZE"
  shows "fbyte n' V' off = fbyte n V off"
  using assms(1,2) fblk_in [of "off div BSIZE" n V] off_block [OF assms(3)] by (auto simp: fbyte_def)

text \<open>An inode without its disk copy, and a disk inode without its block numbers.\<close>

definition inode_head :: "inode \<Rightarrow> u32 \<times> u32 \<times> int \<times> sleeplock \<times> bool" where
  "inode_head x = (i_dev x, i_num x, i_ref x, i_lock x, i_valid x)"

definition dinode_head :: "dinode \<Rightarrow> u16 \<times> u16 \<times> u16 \<times> u16 \<times> u32" where
  "dinode_head n = (d_type n, d_major n, d_minor n, d_nlink n, d_size n)"

section \<open>Giving a file a block\<close>

text \<open>
  \<open>extends S V n k r V' n'\<close>: the free block \<open>r\<close>, cleared, has become block \<open>k\<close> of the file. Only the bitmap, \<open>r\<close>
  and the indirect block have changed.
\<close>

definition extends :: "superblock \<Rightarrow> (u32 \<Rightarrow> byte list) \<Rightarrow> dinode \<Rightarrow> nat \<Rightarrow> u32 \<Rightarrow> (u32 \<Rightarrow> byte list) \<Rightarrow> dinode \<Rightarrow> bool" where
  "extends S V n k r V' n' \<longleftrightarrow>
     fblk n V k = 0 \<and> r \<noteq> 0 \<and> r \<in> free_set S V \<and> free_set S V' = free_set S V - {r} \<and> V' r = replicate BSIZE 0 \<and>
     (\<forall>b. b \<notin> bitmap_of S \<union> {r} \<union> ({d_addrs n ! NDIRECT} - {0}) \<longrightarrow> V' b = V b) \<and>
     (\<forall>j\<le>MAXFILE. fblk n' V' j = (if j = k then r else fblk n V j)) \<and> dinode_head n' = dinode_head n \<and>
     length (d_addrs n') = length (d_addrs n)"

lemma dinode_head_upd [simp]: "dinode_head (n\<lparr>d_addrs := x\<rparr>) = dinode_head n"
  by (simp add: dinode_head_def)

lemma extends_ok:
  assumes "extends S V n k r V' n'" and "k \<le> MAXFILE" and "file_ok S R V n" and "r \<notin> R"
  shows "file_ok S R V' n'" "file_blocks n' V' = insert r (file_blocks n V)"
proof -
  note e = assms(1) [unfolded extends_def]
  have f: "fblk n' V' j = (if j = k then r else fblk n V j)" if "j \<le> MAXFILE" for j using e that by blast
  have nr: "fblk n V j \<noteq> r" if "j \<le> MAXFILE" for j
    using file_okD(4) [OF assms(3) that] e by auto
  show b: "file_blocks n' V' = insert r (file_blocks n V)"
    using f e assms(2) unfolding file_blocks_def by (auto simp: image_iff)
  have u: "used S V' b" if "b \<in> file_blocks n V \<or> b = r" "unat b < unat (sb_size S)" for b
  proof -
    have "b \<notin> free_set S V'" using that e assms(3) by (auto simp: file_ok_def free_set_def)
    then show ?thesis using that(2) by (simp add: free_set_def)
  qed
  have "unat r < unat (sb_size S)" using e by (simp add: free_set_def)
  then show "file_ok S R V' n'"
    unfolding file_ok_def b using e assms(3,4) f nr u by (auto simp: file_ok_def)
qed

lemma extends_bytes:
  assumes "extends S V n k r V' n'" and "k \<le> MAXFILE" and "file_ok S R V n" and "bitmap_of S \<subseteq> R"
    and "off < MAXFILE * BSIZE"
  shows "fbyte n' V' off = fbyte n V off"
proof -
  note e = assms(1) [unfolded extends_def] and ob = off_block [OF assms(5)]
  let ?j = "off div BSIZE"
  have f: "fblk n' V' ?j = (if ?j = k then r else fblk n V ?j)" using e ob by auto
  consider "?j = k" | "?j \<noteq> k" "fblk n V ?j = 0" | "?j \<noteq> k" "fblk n V ?j \<noteq> 0" by blast
  then show ?thesis
  proof cases
    case 3
    have "fblk n V ?j \<noteq> d_addrs n ! NDIRECT"
      using file_ok_inj [OF assms(3), of ?j MAXFILE] 3 ob by (auto simp: fblk_max)
    moreover have "fblk n V ?j \<noteq> r" "fblk n V ?j \<notin> bitmap_of S"
      using file_okD [OF assms(3) _ 3(2)] ob assms(4) e by auto
    ultimately have "V' (fblk n V ?j) = V (fblk n V ?j)" using e by auto
    then show ?thesis using 3 by (simp add: fbyte_def f)
  qed (use e f blocks_pos in \<open>simp_all add: fbyte_def\<close>)
qed

lemma free_set_cong:
  assumes "\<forall>b\<in>bitmap_of S. V' b = V b"
  shows "free_set S V' = free_set S V"
proof -
  have "used S V' x = used S V x" if "unat x < unat (sb_size S)" for x
    using assms that by (auto simp: used_def bitmap_of_def)
  then show ?thesis by (auto simp: free_set_def)
qed

lemma get32_zeros: "get32 (replicate m 0) off = 0"
proof -
  have "le_nat (replicate k 0) = 0" for k by (induction k) (simp_all add: le_nat_def)
  then show ?thesis by (simp add: get32_def take_replicate)
qed

lemma extends_slot:
  assumes "allots S V r V'" and "r \<noteq> 0" and "r \<notin> bitmap_of S" and "\<forall>b. length (V b) = BSIZE"
    and "file_ok S R V n" and "bitmap_of S \<subseteq> R" and "j \<le> NDIRECT" and "d_addrs n ! j = 0"
  shows "extends S V n (if j < NDIRECT then j else MAXFILE) r V' (n\<lparr>d_addrs := (d_addrs n)[j := r]\<rparr>)"
proof -
  note a = allots_effect [OF assms(1-4)]
  let ?n = "n\<lparr>d_addrs := (d_addrs n)[j := r]\<rparr>"
  have l: "length (d_addrs n) = NDIRECT + 1" using assms(5) by (simp add: file_ok_def)
  have V': "V' (d_addrs n ! NDIRECT) = V (d_addrs n ! NDIRECT)" if "d_addrs n ! NDIRECT \<noteq> 0"
    using file_okD [OF assms(5), of MAXFILE] that a(1,5) assms(6) by (auto simp: fblk_max)
  have "fblk ?n V' q = (if q = (if j < NDIRECT then j else MAXFILE) then r else fblk n V q)" if "q \<le> MAXFILE" for q
    using that assms(7,8) l V' blocks_pos(1) a(4)
    by (cases "j < NDIRECT") (auto simp: fblk_def nth_list_update get32_zeros)
  moreover have "fblk n V (if j < NDIRECT then j else MAXFILE) = 0"
    using assms(7,8) blocks_pos(1) by (auto simp: fblk_def)
  ultimately show ?thesis using a assms(2) by (simp add: extends_def)
qed

lemma extends_entry:
  assumes "allots S V r V'" and "r \<noteq> 0" and "r \<notin> bitmap_of S" and "\<forall>b. length (V b) = BSIZE"
    and "file_ok S R V n" and "bitmap_of S \<subseteq> R" and "NDIRECT \<le> k" and "k < MAXFILE"
    and "d_addrs n ! NDIRECT \<noteq> 0" and "fblk n V k = 0"
  shows "extends S V n k r (V'(d_addrs n ! NDIRECT := put32 (V' (d_addrs n ! NDIRECT)) (4 * (k - NDIRECT)) r)) n"
proof -
  let ?a = "d_addrs n ! NDIRECT"
  let ?W = "V'(?a := put32 (V' ?a) (4 * (k - NDIRECT)) r)"
  note a = allots_effect [OF assms(1-4)]
  note f = file_okD [OF assms(5), of MAXFILE, unfolded fblk_max, OF _ assms(9), simplified]
  have ne: "?a \<noteq> r" "?a \<notin> bitmap_of S" using f(1,4) a(1) assms(6) by auto
  then have V': "V' ?a = V ?a" using a(5) by blast
  have fs: "free_set S ?W = free_set S V - {r}" using ne(2) a(3) by (subst free_set_cong [of S ?W V']) auto
  have "fblk n ?W q = (if q = k then r else fblk n V q)" if "q \<le> MAXFILE" for q
  proof (cases "NDIRECT \<le> q \<and> q < MAXFILE")
    case True
    have b: "4 * (k - NDIRECT) + 4 \<le> length (V ?a)" "4 * (q - NDIRECT) + 4 \<le> length (V ?a)"
      using True assms(4,7,8) by (auto simp: MAXFILE_def NINDIRECT_def BSIZE_def)
    show ?thesis
    proof (cases "q = k")
      case False
      then have "4 * (k - NDIRECT) + 4 \<le> 4 * (q - NDIRECT) \<or> 4 * (q - NDIRECT) + 4 \<le> 4 * (k - NDIRECT)"
        using True assms(7) by auto
      then have "get32 (put32 (V ?a) (4 * (k - NDIRECT)) r) (4 * (q - NDIRECT)) = get32 (V ?a) (4 * (q - NDIRECT))"
        using b by (intro get32_put32_other) auto
      then show ?thesis using True False assms(9) by (simp add: fblk_def V')
    qed (use True assms(9) b in \<open>simp add: fblk_def V' get32_put32_same\<close>)
  qed (use assms(7,8) that in \<open>auto simp: fblk_def\<close>)
  moreover have "?W r = replicate BSIZE 0" "\<forall>b. b \<notin> bitmap_of S \<union> {r} \<union> ({?a} - {0}) \<longrightarrow> ?W b = V b" using a(4,5) ne(1) assms(9) by auto
  ultimately show ?thesis unfolding extends_def using a(1) assms(2,10) fs by (intro conjI) (simp_all del: fun_upd_apply)
qed

section \<open>An inode in the inode table\<close>

abbreviation ino :: "nat \<Rightarrow> 'z fs_state_scheme \<Rightarrow> dinode" where
  "ino i s \<equiv> i_disk (itable s i)"

abbreviation blks :: "u32 \<Rightarrow> 'z fs_state_scheme \<Rightarrow> u32 \<Rightarrow> byte list" where
  "blks dev s \<equiv> v_blk (view dev s)"

text \<open>Inode \<open>i\<close> of the table is a file of device \<open>dev\<close>, and the allocator has not lost track of the disk.\<close>

definition fctx :: "u32 \<Rightarrow> nat \<Rightarrow> 'z fs_state_scheme \<Rightarrow> bool" where
  "fctx dev i s \<longleftrightarrow>
     i_dev (itable s i) = dev \<and> unat (i_num (itable s i)) < unat (sb_ninodes (sb s)) \<and> balloc_ok dev {} s \<and>
     file_ok (sb s) (reserved s) (blks dev s) (ino i s)"

text \<open>
  \<open>touches dev i s s'\<close>: file \<open>i\<close> may have got blocks that were free, and only its blocks, those and the bitmap
  may have changed. \<open>fgrows dev i s s'\<close>: moreover the bytes of the file are the same.
\<close>

definition touches :: "u32 \<Rightarrow> nat \<Rightarrow> 'z fs_state_scheme \<Rightarrow> 'z fs_state_scheme \<Rightarrow> bool" where
  "touches dev i s s' \<longleftrightarrow>
     tx_keeps dev {} s s' \<and> (\<forall>j. j \<noteq> i \<longrightarrow> itable s' j = itable s j) \<and>
     inode_head (itable s' i) = inode_head (itable s i) \<and> dinode_head (ino i s') = dinode_head (ino i s) \<and>
     (\<forall>k \<le> MAXFILE. fblk (ino i s) (blks dev s) k \<noteq> 0 \<longrightarrow> fblk (ino i s') (blks dev s') k = fblk (ino i s) (blks dev s) k) \<and>
     free_set (sb s) (blks dev s') \<subseteq> free_set (sb s) (blks dev s) \<and>
     file_blocks (ino i s') (blks dev s') \<subseteq> file_blocks (ino i s) (blks dev s) \<union> free_set (sb s) (blks dev s) \<and>
     (\<forall>b. b \<notin> bitmap_of (sb s) \<union> free_set (sb s) (blks dev s) \<union> file_blocks (ino i s) (blks dev s) \<longrightarrow>
        blks dev s' b = blks dev s b)"

definition fgrows :: "u32 \<Rightarrow> nat \<Rightarrow> 'z fs_state_scheme \<Rightarrow> 'z fs_state_scheme \<Rightarrow> bool" where
  "fgrows dev i s s' \<longleftrightarrow> touches dev i s s' \<and>
     (\<forall>off < MAXFILE * BSIZE. fbyte (ino i s') (blks dev s') off = fbyte (ino i s) (blks dev s) off)"

lemma touches_refl: "touches dev i s s"
  by (simp add: touches_def)

lemma touches_trans:
  assumes "touches dev i s s'" and "touches dev i s' s''"
  shows "touches dev i s s''"
proof -
  note a = assms(1) [unfolded touches_def] and b = assms(2) [unfolded touches_def]
  have sb: "sb s' = sb s" using a keeps_fields(1) by blast
  have "tx_keeps dev {} s s''" "\<forall>j. j \<noteq> i \<longrightarrow> itable s'' j = itable s j"
    "inode_head (itable s'' i) = inode_head (itable s i)" "dinode_head (ino i s'') = dinode_head (ino i s)"
    using a b by (auto intro: keeps_trans [of dev "{}" s s' s''])
  moreover have "free_set (sb s) (blks dev s'') \<subseteq> free_set (sb s) (blks dev s)"
    "file_blocks (ino i s'') (blks dev s'') \<subseteq> file_blocks (ino i s) (blks dev s) \<union> free_set (sb s) (blks dev s)"
    using a b sb by auto
  moreover have "blks dev s'' x = blks dev s x"
    if "x \<notin> bitmap_of (sb s) \<union> free_set (sb s) (blks dev s) \<union> file_blocks (ino i s) (blks dev s)" for x
  proof -
    have "x \<notin> free_set (sb s') (blks dev s') \<union> file_blocks (ino i s') (blks dev s')" using a sb that by auto
    then show ?thesis using a b sb that by simp
  qed
  moreover have "\<forall>k \<le> MAXFILE. fblk (ino i s) (blks dev s) k \<noteq> 0 \<longrightarrow> fblk (ino i s'') (blks dev s'') k = fblk (ino i s) (blks dev s) k"
    using a b by simp
  ultimately show ?thesis unfolding touches_def by blast
qed

lemma fgrows_trans: "fgrows dev i s s' \<Longrightarrow> fgrows dev i s' s'' \<Longrightarrow> fgrows dev i s s''"
  using touches_trans [of dev i s s' s''] by (simp add: fgrows_def)

lemma touches_fields:
  assumes "touches dev i s s'"
  shows "tx_keeps dev {} s s'" "sb s' = sb s" "i_num (itable s' i) = i_num (itable s i)" "i_dev (itable s' i) = i_dev (itable s i)"
    "d_size (ino i s') = d_size (ino i s)" "reserved s' = reserved s"
proof -
  show k: "tx_keeps dev {} s s'" using assms by (simp add: touches_def)
  show "sb s' = sb s" "reserved s' = reserved s" using keeps_fields(1) [OF k] layout_keeps(2) [OF k] by simp_all
  show "i_num (itable s' i) = i_num (itable s i)" "i_dev (itable s' i) = i_dev (itable s i)" "d_size (ino i s') = d_size (ino i s)"
    using assms by (auto simp: touches_def inode_head_def dinode_head_def)
qed

lemma fctx_bitmap: "fctx dev i s \<Longrightarrow> bitmap_of (sb s) \<subseteq> reserved s"
  by (auto simp: reserved_def)

lemma fgrows_step:
  assumes "fctx dev i s" and "tx_keeps dev {} s s'" and "k \<le> MAXFILE" and "r \<notin> reserved s" and "balloc_ok dev {} s'"
    and "extends (sb s) (blks dev s) (ino i s) k r (blks dev s') (ino i s')" and "\<forall>j. j \<noteq> i \<longrightarrow> itable s' j = itable s j"
    and "inode_head (itable s' i) = inode_head (itable s i)"
  shows "fgrows dev i s s'" "fctx dev i s'" "fblk (ino i s') (blks dev s') k = r"
proof -
  note e = assms(6) [unfolded extends_def]
  have f: "file_ok (sb s) (reserved s) (blks dev s) (ino i s)" using assms(1) by (simp add: fctx_def)
  note x = extends_ok [OF assms(6,3) f assms(4)] extends_bytes [OF assms(6,3) f fctx_bitmap [OF assms(1)]]
  have ki: "d_addrs (ino i s) ! NDIRECT \<in> insert 0 (file_blocks (ino i s) (blks dev s))"
    using fblk_in [of MAXFILE "ino i s" "blks dev s"] by (auto simp: fblk_max)
  have z: "blks dev s' b = blks dev s b"
    if "b \<notin> bitmap_of (sb s) \<union> free_set (sb s) (blks dev s) \<union> file_blocks (ino i s) (blks dev s)" for b
    using that e ki by auto
  have k: "\<forall>j \<le> MAXFILE. fblk (ino i s) (blks dev s) j \<noteq> 0 \<longrightarrow> fblk (ino i s') (blks dev s') j = fblk (ino i s) (blks dev s) j"
    using e by auto
  show "fgrows dev i s s'" unfolding fgrows_def touches_def using assms(2,7,8) e x k z by (intro conjI) auto
  show "fctx dev i s'"
    using assms(1,5,8) x(1) layout_keeps(2) [OF assms(2)] keeps_fields(1) [OF assms(2)] by (auto simp: fctx_def inode_head_def)
  show "fblk (ino i s') (blks dev s') k = r" using e assms(3) by auto
qed

text \<open>\<open>addr_slot\<close>, the common part of the two places where \<^verbatim>\<open>bmap\<close> fills an empty slot of the inode.\<close>

lemma addr_slot_alloc:
  assumes "fctx dev i s" and "txn dev {} Y (Suc k) s" and "bitmap_of (sb s) \<subseteq> Y" and "j \<le> NDIRECT"
    and "d_addrs (ino i s) ! j = 0"
  obtains r s' where "addr_slot i j s = Inr (r, s')" and "txn dev {} (insert r Y) k s'" and "fgrows dev i s s'" and "fctx dev i s'"
    and "fblk (ino i s') (blks dev s') (if j < NDIRECT then j else MAXFILE) = r"
    and "r = 0 \<longrightarrow> free_set (sb s) (blks dev s') = {}"
    and "\<forall>q \<le> MAXFILE. q \<noteq> (if j < NDIRECT then j else MAXFILE) \<longrightarrow> fblk (ino i s') (blks dev s') q = fblk (ino i s) (blks dev s) q"
proof -
  let ?j = "if j < NDIRECT then j else MAXFILE"
  have c: "i_dev (itable s i) = dev" "balloc_ok dev {} s" "file_ok (sb s) (reserved s) (blks dev s) (ino i s)"
    using assms(1) by (simp_all add: fctx_def)
  obtain r s' where r: "balloc dev s = Inr (r, s')" "txn dev {} (insert r Y) k s'" "tx_keeps dev {} s s'" "itable s' = itable s"
    "balloc_ok dev {} s'" "allots (sb s) (blks dev s) r (blks dev s')" "r \<noteq> 0 \<longrightarrow> r \<notin> {} \<union> reserved s"
    by (rule balloc_allots [OF assms(2,3) c(2)])
  have l: "\<forall>b. length (blks dev s b) = BSIZE" using block_len [OF assms(2)] by simp
  have j: "?j \<le> MAXFILE" using assms(4) blocks_pos(1) by auto
  show thesis
  proof (cases "r = 0")
    case True
    have "addr_slot i j s = Inr (0, s')" using True assms(5) r(1) by (simp add: addr_slot_def c(1))
    moreover have "blks dev s' = blks dev s" "free_set (sb s) (blks dev s) = {}" using r(6) True by (simp_all add: allots_def)
    moreover have "fblk (ino i s) (blks dev s) ?j = 0" using assms(4,5) blocks_pos(1) by (auto simp: fblk_def)
    ultimately show thesis using r True assms(1) layout_keeps(2) [OF r(3)] keeps_fields(1) [OF r(3)]
      by (intro that [of 0 s']) (auto simp: fgrows_def touches_def fctx_def)
  next
    case False
    let ?t = "set_addr i j r s'"
    have t: "?t = s'\<lparr>itable := (itable s')(i := (itable s' i)\<lparr>i_disk := (ino i s)\<lparr>d_addrs := (d_addrs (ino i s))[j := r]\<rparr>\<rparr>)\<rparr>"
      by (simp add: set_addr_def upd_dinode_def upd_inode_def r(4))
    have nr: "r \<notin> reserved s" "r \<notin> bitmap_of (sb s)" using r(7) False by (auto simp: reserved_def)
    have "addr_slot i j s = Inr (r, ?t)" using False assms(5) r(1) by (simp add: addr_slot_def c(1))
    moreover have e: "extends (sb s) (blks dev s) (ino i s) ?j r (blks dev ?t) (ino i ?t)"
      using extends_slot [OF r(6) False nr(2) l c(3) fctx_bitmap [OF assms(1)] assms(4,5)] by (simp add: t)
    moreover have "\<forall>q \<le> MAXFILE. q \<noteq> ?j \<longrightarrow> fblk (ino i ?t) (blks dev ?t) q = fblk (ino i s) (blks dev s) q"
      using e by (simp add: extends_def)
    moreover have kt: "tx_keeps dev {} s ?t" "txn dev {} (insert r Y) k ?t" using r(2,3) by (simp_all add: t)
    moreover have "balloc_ok dev {} ?t" using r(5) by (simp add: t balloc_ok_def layout_ok_def reserved_def)
    ultimately show thesis
      using fgrows_step [OF assms(1) kt(1) j nr(1) _ e] r(4) False
      by (intro that [of r ?t]) (simp_all add: t inode_head_def)
  qed
qed

section \<open>Mapping a block of a file\<close>

lemma read_block:
  assumes "tx_inv dev {} s"
  obtains i s1 s2 where "bread dev b s = Inr (i, s1)" and "get_data i s1 = blks dev s b" and "itable s1 = itable s"
    and "brelse i s1 = Inr s2" and "tx_inv dev {} s2" and "tx_keeps dev {} s s2" and "itable s2 = itable s"
    and "blks dev s2 = blks dev s" and "log_blocks s2 = log_blocks s"
proof -
  have room: "tx_room {} b s" using assms by (intro tx_room_empty) (auto simp: tx_inv_def LOGSIZE_def NBUF_def)
  obtain i s1 s2 where r: "bread dev b s = Inr (i, s1)" "get_data i s1 = v_blk (view dev s) b"
    "brelse i s1 = Inr s2" "tx_inv dev {} s2" "bframe s s1" "bframe s s2"
    "v_blk (view dev s2) = v_blk (view dev s)" "disk s2 = disk s" "dwrites s2 = dwrites s" "log_blocks s2 = log_blocks s"
    by (rule tx_read [OF assms _ room]) simp
  have "itable s1 = itable s" by (rule bframe_fs(2) [OF r(5)])
  then show thesis
    using r tframe_keeps [OF bframe_tframe [OF r(6)] _ r(8,9), of "{}" dev] by (intro that [of i s1 s2]) simp_all
qed

lemma bmap_found:
  assumes "tx_inv dev {} s" and "i_dev (itable s i) = dev" and "k < MAXFILE" and "fblk (ino i s) (blks dev s) k \<noteq> 0"
  obtains s' where "bmap i k s = Inr (fblk (ino i s) (blks dev s) k, s')" and "tx_inv dev {} s'" and "tx_keeps dev {} s s'"
    and "itable s' = itable s" and "blks dev s' = blks dev s" and "log_blocks s' = log_blocks s"
proof (cases "k < NDIRECT")
  case True
  then have "bmap i k s = Inr (fblk (ino i s) (blks dev s) k, s)"
    using assms(4) by (simp add: bmap_def addr_slot_def fblk_def)
  then show thesis using assms(1) by (intro that [of s]) simp_all
next
  case False
  let ?a = "d_addrs (ino i s) ! NDIRECT"
  have a: "?a \<noteq> 0" "get32 (blks dev s ?a) (4 * (k - NDIRECT)) = fblk (ino i s) (blks dev s) k"
    using False assms(3,4) by (auto simp: fblk_def split: if_splits)
  have k: "k - NDIRECT < NINDIRECT" using False assms(3) blocks_pos(3) by linarith
  obtain b s1 s2 where r: "bread dev ?a s = Inr (b, s1)" "get_data b s1 = blks dev s ?a" "itable s1 = itable s"
    "brelse b s1 = Inr s2" "tx_inv dev {} s2" "tx_keeps dev {} s s2" "itable s2 = itable s" "blks dev s2 = blks dev s"
    "log_blocks s2 = log_blocks s"
    by (rule read_block [OF assms(1)])
  have "bmap i k s = Inr (fblk (ino i s) (blks dev s) k, s2)"
    using False k a assms(2,4) r by (simp add: bmap_def addr_slot_def Let_def)
  then show thesis using r by (intro that [of s2])
qed

text \<open>The room in the log that \<^verbatim>\<open>writei\<close> needs besides the data blocks.\<close>

definition file_area :: "nat \<Rightarrow> 'z fs_state_scheme \<Rightarrow> u32 set" where
  "file_area i s = bitmap_of (sb s) \<union> {IBLOCK (i_num (itable s i)) (sb s)} \<union> ({d_addrs (ino i s) ! NDIRECT} - {0})"

definition ind_need :: "nat \<Rightarrow> 'z fs_state_scheme \<Rightarrow> nat" where
  "ind_need i s = (if d_addrs (ino i s) ! NDIRECT = 0 then 1 else 0)"

definition ftx :: "u32 \<Rightarrow> nat \<Rightarrow> u32 set \<Rightarrow> nat \<Rightarrow> 'z fs_state_scheme \<Rightarrow> bool" where
  "ftx dev i X k s \<longleftrightarrow> fctx dev i s \<and> txn dev {} (X \<union> file_area i s) (k + ind_need i s) s"

lemma fgrows_same:
  assumes "tx_keeps dev {} s s'" and "itable s' = itable s" and "blks dev s' = blks dev s" and "fctx dev i s"
  shows "fgrows dev i s s'" "fctx dev i s'"
  using assms layout_keeps [OF assms(1)] keeps_fields(1) [OF assms(1)]
  by (simp_all add: fgrows_def touches_def fctx_def balloc_ok_def)

lemma file_area_same:
  assumes "tx_keeps dev H s s'" and "i_num (itable s' i) = i_num (itable s i)"
    and "d_addrs (ino i s') ! NDIRECT = d_addrs (ino i s) ! NDIRECT"
  shows "file_area i s' = file_area i s" "ind_need i s' = ind_need i s"
  using assms keeps_fields(1) [OF assms(1)] by (simp_all add: file_area_def ind_need_def)

lemma balloc_ok_hold:
  assumes "fctx dev i s" and "b \<in> file_blocks (ino i s) (blks dev s)"
  shows "balloc_ok dev {b} s"
  using assms by (auto simp: fctx_def file_ok_def balloc_ok_def layout_ok_def reserved_def free_set_def)

text \<open>The part of \<^verbatim>\<open>bmap\<close> below the indirect block: an empty entry is filled.\<close>

lemma bmap_entry:
  assumes "fctx dev i s" and "txn dev {} Y (Suc k) s" and "bitmap_of (sb s) \<subseteq> Y" and "NDIRECT \<le> bn" and "bn < MAXFILE"
    and a: "a = d_addrs (ino i s) ! NDIRECT" "a \<noteq> 0" "a \<in> Y" and "fblk (ino i s) (blks dev s) bn = 0"
  obtains r s' where "bmap i bn s = Inr (r, s')" and "txn dev {} (insert r Y) k s'" and "fgrows dev i s s'" and "fctx dev i s'"
    and "fblk (ino i s') (blks dev s') bn = r" and "r = 0 \<longrightarrow> free_set (sb s) (blks dev s') = {}"
    and "d_addrs (ino i s') ! NDIRECT = a"
proof -
  let ?V = "blks dev s" and ?q = "4 * (bn - NDIRECT)"
  have c: "i_dev (itable s i) = dev" "file_ok (sb s) (reserved s) ?V (ino i s)" using assms(1) by (simp_all add: fctx_def)
  have fa: "a \<in> file_blocks (ino i s) ?V" using a fblk_in [of MAXFILE "ino i s" ?V] by (simp add: fblk_max)
  then have na: "a \<notin> reserved s" using c(2) by (auto simp: file_ok_def)
  have l: "\<forall>b. length (?V b) = BSIZE" using block_len [OF assms(2)] by simp
  have k: "bn - NDIRECT < NINDIRECT" "?q + 4 \<le> BSIZE" using assms(4,5) blocks_pos by linarith+
  have g0: "get32 (?V a) ?q = 0" using assms(4,5,9) a by (simp add: fblk_def)
  obtain b s1 where 1: "bread dev a s = Inr (b, s1)" "txn dev {a} Y (Suc k) s1" "tx_keeps dev {} s s1" "itable s1 = itable s"
    "slot dev s1 a = Some b" "blks dev s1 = ?V" "get_data b s1 = ?V a" "a \<in> set (log_blocks s1) \<or> blks dev s1 a = disk s1 a"
    by (rule txn_open [OF assms(2)])
  have "balloc_ok dev {a} s1" using balloc_ok_hold [OF assms(1) fa] balloc_ok_keeps [OF 1(3)] 1(6) by simp
  moreover have "bitmap_of (sb s1) \<subseteq> Y" using assms(3) keeps_fields(1) [OF 1(3)] by simp
  ultimately obtain r s2 where 2: "balloc dev s1 = Inr (r, s2)" "txn dev {a} (insert r Y) k s2" "tx_keeps dev {a} s1 s2"
    "itable s2 = itable s1" "balloc_ok dev {a} s2" "allots (sb s1) (blks dev s1) r (blks dev s2)" "r \<noteq> 0 \<longrightarrow> r \<notin> {a} \<union> reserved s1"
    using balloc_allots [OF 1(2)] by metis
  have m: "sb s1 = sb s" "reserved s1 = reserved s" "log_start s2 = log_start s"
    using keeps_fields [OF 1(3)] keeps_fields [OF 2(3)] layout_keeps(2) [OF 1(3)] by simp_all
  have k2: "tx_keeps dev {} s s2" using keeps_trans [OF 1(3) keeps_mono [OF 2(3)]] by simp
  have bo: "balloc_ok dev {} s2" using 2(5) by (auto simp: balloc_ok_def layout_ok_def)
  have sl: "slot dev s2 a = Some b" using keeps_slot [OF 2(3)] 1(5) by simp
  have al: "allots (sb s) ?V r (blks dev s2)" using 2(6) by (simp only: m 1(6))
  show thesis
  proof (cases "r = 0")
    case True
    have v2: "blks dev s2 = ?V" "free_set (sb s) ?V = {}" using al True by (simp_all add: allots_def)
    have lg: "a \<in> set (log_blocks s2) \<or> blks dev s2 a = disk s2 a"
      using 1(6,8) 2(3) v2(1) keeps_fields(6) [OF 2(3)] by (auto simp: tx_keeps_def)
    obtain s3 where 3: "brelse b s2 = Inr s3" "txn dev {} (insert r Y) k s3" "tx_keeps dev {} s2 s3" "itable s3 = itable s2"
      "blks dev s3 = blks dev s2"
      by (rule txn_close [OF 2(2) sl lg])
    have "bmap i bn s = Inr (0, s3)"
      using assms(4) k(1) a c(1) g0 1 2(1,4) True 3(1) by (simp add: bmap_def addr_slot_def Let_def)
    then show thesis using fgrows_same [OF keeps_trans [OF k2 3(3)] _ _ assms(1)] 1(4) 2(4) 3 v2 True assms(9) a(1)
      by (intro that [of 0 s3]) simp_all
  next
    case False
    let ?d = "put32 (blks dev s2 a) ?q r"
    have nr: "r \<notin> reserved s" "r \<notin> bitmap_of (sb s)" using 2(7) False m(2) by (auto simp: reserved_def)
    note ef = allots_effect [OF al False nr(2) l]
    have "r \<noteq> a" using 2(7) False by auto
    moreover have "a \<notin> bitmap_of (sb s)" using na by (auto simp: reserved_def)
    ultimately have v2: "blks dev s2 a = ?V a" using ef(5) by auto
    have nl: "a \<notin> log_region (log_start s2)" "length ?d = BSIZE" "a \<in> insert r Y"
      using na a(3) k(2) l by (auto simp: reserved_def m v2)
    obtain s3 s4 where 3: "log_write b (set_data b ?d s2) = Inr s3" "brelse b s3 = Inr s4" "txn dev {} (insert r Y) k s4"
      "tx_keeps dev {} s2 s4" "itable s4 = itable s2" "itable s3 = itable s2" "blks dev s4 = (blks dev s2)(a := ?d)"
      by (rule txn_write_close [OF 2(2) sl nl(3,1,2)])
    have gd: "get_data b s2 = blks dev s2 a" using tx_get [OF _ _ sl] 2(2) by (auto simp: txn_def)
    have "bmap i bn s = Inr (r, s4)"
      using assms(4) k(1) a c(1) g0 1 2(1,4) False 3 gd by (simp add: bmap_def addr_slot_def Let_def)
    moreover have e: "extends (sb s) ?V (ino i s) bn r (blks dev s4) (ino i s4)"
      using extends_entry [OF al False nr(2) l c(2) fctx_bitmap [OF assms(1)] assms(4,5)] a assms(9)
      by (simp add: 3(5,7) 2(4) 1(4) del: fun_upd_apply)
    moreover have k4: "tx_keeps dev {} s s4" by (rule keeps_trans [OF k2 3(4)])
    moreover have "free_set (sb s2) (blks dev s4) = free_set (sb s2) (blks dev s2)"
      using \<open>a \<notin> bitmap_of (sb s)\<close> keeps_fields(1) [OF k2] by (intro free_set_cong) (auto simp: 3(7))
    then have "balloc_ok dev {} s4" using balloc_ok_keeps [OF 3(4) bo] by simp
    ultimately show thesis
      using fgrows_step [OF assms(1) k4 less_imp_le [OF assms(5)] nr(1) _ e] 1(4) 2(4) 3 False a(1)
      by (intro that [of r s4]) simp_all
  qed
qed

lemma fgrows_touches: "fgrows dev i s s' \<Longrightarrow> touches dev i s s'"
  by (simp add: fgrows_def)

lemmas fgrows_fields = touches_fields [OF fgrows_touches]

text \<open>\<open>maps\<close>: what \<^verbatim>\<open>bmap\<close> does when it returns \<open>a\<close> for block \<open>bn\<close>, with room for \<open>k\<close> more blocks left.\<close>

definition maps :: "u32 \<Rightarrow> nat \<Rightarrow> nat \<Rightarrow> nat \<Rightarrow> u32 \<Rightarrow> 'z fs_state_scheme \<Rightarrow> 'z fs_state_scheme \<Rightarrow> bool" where
  "maps dev i bn k a s s' \<longleftrightarrow>
     ftx dev i {a} k s' \<and> fgrows dev i s s' \<and> fblk (ino i s') (blks dev s') bn = a \<and>
     (a = 0 \<longrightarrow> free_set (sb s) (blks dev s') = {})"

lemma bmap_direct:
  assumes "ftx dev i {} (Suc k) s" and "bn < NDIRECT" and "fblk (ino i s) (blks dev s) bn = 0"
  shows "\<exists>r s'. bmap i bn s = Inr (r, s') \<and> maps dev i bn k r s s'"
proof -
  have c: "fctx dev i s" "txn dev {} (file_area i s) (Suc (k + ind_need i s)) s" "bitmap_of (sb s) \<subseteq> file_area i s"
    using assms(1) by (auto simp: ftx_def file_area_def)
  obtain r s' where r: "addr_slot i bn s = Inr (r, s')" "txn dev {} (insert r (file_area i s)) (k + ind_need i s) s'"
    "fgrows dev i s s'" "fctx dev i s'" "fblk (ino i s') (blks dev s') (if bn < NDIRECT then bn else MAXFILE) = r"
    "r = 0 \<longrightarrow> free_set (sb s) (blks dev s') = {}"
    "\<forall>q \<le> MAXFILE. q \<noteq> (if bn < NDIRECT then bn else MAXFILE) \<longrightarrow> fblk (ino i s') (blks dev s') q = fblk (ino i s) (blks dev s) q"
    using assms(2,3) by (rule_tac addr_slot_alloc [OF c, of bn]) (auto simp: fblk_def)
  have "fblk (ino i s') (blks dev s') MAXFILE = fblk (ino i s) (blks dev s) MAXFILE" using r(7) assms(2) blocks_pos(1) by simp
  then have "file_area i s' = file_area i s" "ind_need i s' = ind_need i s"
    using file_area_same [OF fgrows_fields(1) [OF r(3)] fgrows_fields(3) [OF r(3)]] by (simp_all add: fblk_max)
  then have "maps dev i bn k r s s'" using r assms(2) by (simp add: maps_def ftx_def)
  moreover have "bmap i bn s = Inr (r, s')" using r(1) assms(2) by (simp add: bmap_def)
  ultimately show ?thesis by blast
qed

lemma bmap_present:
  assumes "ftx dev i {} (Suc k) s" and "bn < MAXFILE" and "fblk (ino i s) (blks dev s) bn \<noteq> 0"
  shows "\<exists>r s'. bmap i bn s = Inr (r, s') \<and> maps dev i bn k r s s'"
proof -
  let ?a = "fblk (ino i s) (blks dev s) bn"
  have c: "fctx dev i s" "i_dev (itable s i) = dev" "txn dev {} (file_area i s) (Suc (k + ind_need i s)) s"
    using assms(1) by (simp_all add: ftx_def fctx_def)
  then have tx: "tx_inv dev {} s" by (simp add: txn_def)
  obtain s' where s': "bmap i bn s = Inr (?a, s')" "tx_inv dev {} s'" "tx_keeps dev {} s s'" "itable s' = itable s"
    "blks dev s' = blks dev s" "log_blocks s' = log_blocks s"
    by (rule bmap_found [OF tx c(2) assms(2,3)])
  have "txn dev {} (file_area i s) (Suc (k + ind_need i s)) s'" using txn_log [OF c(3) s'(2,3)] s'(6) by simp
  then have "txn dev {} (insert ?a (file_area i s)) (k + ind_need i s) s'" by (rule txn_take)
  moreover have "file_area i s' = file_area i s" "ind_need i s' = ind_need i s"
    using file_area_same [OF s'(3), of i] s'(4) by simp_all
  ultimately have "maps dev i bn k ?a s s'"
    using fgrows_same [OF s'(3-5) c(1)] assms(3) s'(4,5) by (simp add: maps_def ftx_def)
  then show ?thesis using s'(1) by blast
qed

lemma maps_fgrows: "fgrows dev i s s1 \<Longrightarrow> maps dev i bn k r s1 s' \<Longrightarrow> maps dev i bn k r s s'"
  using fgrows_trans [of dev i s s1 s'] fgrows_fields(2) [of dev i s s1] by (auto simp: maps_def)

lemma bmap_indirect:
  assumes "ftx dev i {} (Suc k) s" and "NDIRECT \<le> bn" and "bn < MAXFILE" and "fblk (ino i s) (blks dev s) bn = 0"
    and "d_addrs (ino i s) ! NDIRECT \<noteq> 0"
  shows "\<exists>r s'. bmap i bn s = Inr (r, s') \<and> maps dev i bn k r s s'"
proof -
  let ?a = "d_addrs (ino i s) ! NDIRECT"
  have n: "ind_need i s = 0" using assms(5) by (simp add: ind_need_def)
  have c: "fctx dev i s" "txn dev {} (file_area i s) (Suc k) s" "bitmap_of (sb s) \<subseteq> file_area i s" "?a \<in> file_area i s"
    using assms(1,5) n by (auto simp: ftx_def file_area_def)
  obtain r s' where r: "bmap i bn s = Inr (r, s')" "txn dev {} (insert r (file_area i s)) k s'" "fgrows dev i s s'" "fctx dev i s'"
    "fblk (ino i s') (blks dev s') bn = r" "r = 0 \<longrightarrow> free_set (sb s) (blks dev s') = {}" "d_addrs (ino i s') ! NDIRECT = ?a"
    by (rule bmap_entry [OF c(1-3) assms(2,3) refl assms(5) c(4) assms(4)])
  have "file_area i s' = file_area i s" "ind_need i s' = 0"
    using file_area_same [OF fgrows_fields(1) [OF r(3)] fgrows_fields(3) [OF r(3)]] r(7) n by simp_all
  then have "maps dev i bn k r s s'" using r by (simp add: maps_def ftx_def)
  then show ?thesis using r(1) by blast
qed

text \<open>Once the indirect block is there, the rest of \<^verbatim>\<open>bmap\<close> is as if it had always been there.\<close>

lemma bmap_after_slot:
  assumes "addr_slot i NDIRECT s = Inr (r, s1)" and "r \<noteq> 0" and "d_addrs (ino i s1) ! NDIRECT = r" and "NDIRECT \<le> bn"
  shows "bmap i bn s = bmap i bn s1"
  using assms by (simp add: bmap_def addr_slot_def [of i NDIRECT s1] Let_def)

lemma bmap_ok:
  assumes "ftx dev i {} (Suc k) s" and "bn < MAXFILE"
  shows "\<exists>r s'. bmap i bn s = Inr (r, s') \<and> maps dev i bn k r s s'"
proof -
  consider "fblk (ino i s) (blks dev s) bn \<noteq> 0" | "fblk (ino i s) (blks dev s) bn = 0" "bn < NDIRECT"
    | "fblk (ino i s) (blks dev s) bn = 0" "NDIRECT \<le> bn" "d_addrs (ino i s) ! NDIRECT \<noteq> 0"
    | (new) "fblk (ino i s) (blks dev s) bn = 0" "NDIRECT \<le> bn" "d_addrs (ino i s) ! NDIRECT = 0" by linarith
  then show ?thesis
  proof cases
    case new
    have n: "ind_need i s = 1" using new(3) by (simp add: ind_need_def)
    have c: "fctx dev i s" "txn dev {} (file_area i s) (Suc (Suc k)) s" "bitmap_of (sb s) \<subseteq> file_area i s"
      using assms(1) n by (auto simp: ftx_def file_area_def)
    obtain r s1 where r: "addr_slot i NDIRECT s = Inr (r, s1)" "txn dev {} (insert r (file_area i s)) (Suc k) s1"
      "fgrows dev i s s1" "fctx dev i s1" "fblk (ino i s1) (blks dev s1) (if NDIRECT < NDIRECT then NDIRECT else MAXFILE) = r"
      "r = 0 \<longrightarrow> free_set (sb s) (blks dev s1) = {}"
      "\<forall>q \<le> MAXFILE. q \<noteq> (if NDIRECT < NDIRECT then NDIRECT else MAXFILE) \<longrightarrow> fblk (ino i s1) (blks dev s1) q = fblk (ino i s) (blks dev s) q"
      by (rule addr_slot_alloc [OF c order_refl new(3)])
    note g = fgrows_fields [OF r(3)]
    have ind: "d_addrs (ino i s1) ! NDIRECT = r" using r(5) by (simp add: fblk_max)
    have z: "fblk (ino i s1) (blks dev s1) bn = 0" using r(7) assms(2) new(1) by simp
    show ?thesis
    proof (cases "r = 0")
      case True
      have "file_area i s1 = file_area i s" "ind_need i s1 = 1"
        using True ind new(3) n file_area_same [OF g(1,3)] by simp_all
      then have "maps dev i bn k 0 s s1" using True r(2-4,6) z by (simp add: maps_def ftx_def)
      moreover have "bmap i bn s = Inr (0, s1)"
        using new(2) assms(2) r(1) True blocks_pos(3) by (simp add: bmap_def Let_def)
      ultimately show ?thesis by blast
    next
      case False
      have "file_area i s1 = insert r (file_area i s)" "ind_need i s1 = 0"
        using False ind new(3) g(2,3) by (auto simp: file_area_def ind_need_def)
      then have "ftx dev i {} (Suc k) s1" using r(2,4) by (simp add: ftx_def)
      then obtain r' s' where "bmap i bn s1 = Inr (r', s')" "maps dev i bn k r' s1 s'"
        using bmap_indirect [of dev i k s1 bn] new(2) assms(2) z False ind by blast
      then show ?thesis using maps_fgrows [OF r(3)] bmap_after_slot [OF r(1) False ind new(2)] by auto
    qed
  qed (use bmap_present [OF assms] bmap_direct [OF assms(1)] bmap_indirect [OF assms(1) _ assms(2)] in simp_all)
qed

section \<open>Copying in and out\<close>

lemma walk_loop_pmem:
  assumes "pmem (s' :: 'b kmem_state_scheme) = pmem (s :: 'a kmem_state_scheme)"
  shows "fst (walk_loop l p va False s') = fst (walk_loop l p va False s) \<and> snd (walk_loop l p va False s) = s"
  by (induction l arbitrary: p) (simp_all add: assms Let_def)

lemma walkaddr_pmem:
  assumes "pmem s' = pmem s"
  shows "walkaddr p va s' = walkaddr p va s"
  using walk_loop_pmem [OF assms, of 2 p va] walk_loop_pmem [OF refl, of 2 p va s'] assms
  by (simp add: walkaddr_def walk_def split_beta)

lemma copyin_pmem: "pmem s' = pmem s \<Longrightarrow> copyin p va n s' = copyin p va n s"
proof (induction p va n s rule: copyin.induct)
  case (1 p va n s)
  show ?case
    using 1 walkaddr_pmem [OF 1(2), of p] by (subst (1 2) copyin.simps) (auto simp: Let_def intro!: kbind_cong)
qed

text \<open>The source holds the bytes \<open>bs\<close>: every part of them can be copied in.\<close>

definition supplies :: "source \<Rightarrow> byte list \<Rightarrow> 'z fs_state_scheme \<Rightarrow> bool" where
  "supplies src bs s \<longleftrightarrow> (\<forall>j m. j + m \<le> length bs \<longrightarrow> either_copyin (adv_src j src) m s = Inr (0, take m (drop j bs)))"

lemma supplies_kernel: "supplies (KernelSrc bs) bs s"
  by (auto simp: supplies_def)

lemma supplies_keeps:
  assumes "supplies src bs s" and "tx_keeps dev H s s'"
  shows "supplies src bs s'"
proof -
  have "either_copyin x m s' = either_copyin x m s" for x m
    using copyin_pmem [OF keeps_fields(3) [OF assms(2)]] keeps_fields(2) [OF assms(2)] by (cases x) simp_all
  then show ?thesis using assms(1) by (simp add: supplies_def)
qed

lemma supplies_adv:
  assumes "supplies src bs s" and "m \<le> length bs"
  shows "supplies (adv_src m src) (drop m bs) s"
proof -
  have "adv_src j (adv_src m src) = adv_src (m + j) src" for j by (cases src) (simp_all add: add.commute)
  then show ?thesis using assms by (auto simp: supplies_def add.commute [of m])
qed

section \<open>Writing\<close>

text \<open>The number of blocks that \<open>m\<close> bytes at \<open>off\<close> lie in.\<close>

definition touched :: "nat \<Rightarrow> nat \<Rightarrow> nat" where
  "touched off m = (if m = 0 then 0 else (off + m - 1) div BSIZE - off div BSIZE + 1)"

lemma blk_rest_bounds: "blk_rest m off \<le> m" "off mod BSIZE + blk_rest m off \<le> BSIZE" "0 < m \<Longrightarrow> 0 < blk_rest m off"
  using mod_less_divisor [OF blocks_pos(2), of off] by (auto simp: blk_rest_def)

lemma touched_step:
  assumes "0 < m"
  shows "touched off m = Suc (touched (off + blk_rest m off) (m - blk_rest m off))"
proof (cases "m \<le> BSIZE - off mod BSIZE")
  case True
  then have d: "blk_rest m off = m" by (simp add: blk_rest_def)
  have "off + m - 1 = off div BSIZE * BSIZE + (off mod BSIZE + m - 1)" using assms div_mult_mod_eq [of off BSIZE] by linarith
  moreover have "off mod BSIZE + m - 1 < BSIZE" using True assms mod_less_divisor [OF blocks_pos(2), of off] by linarith
  ultimately have "(off + m - 1) div BSIZE = off div BSIZE" by simp
  then show ?thesis using assms by (simp add: touched_def d)
next
  case False
  then have d: "blk_rest m off = BSIZE - off mod BSIZE" by (simp add: blk_rest_def)
  let ?o = "off + blk_rest m off"
  have oe: "?o = Suc (off div BSIZE) * BSIZE"
    using div_mult_mod_eq [of off BSIZE] mod_less_divisor [OF blocks_pos(2), of off] unfolding d mult_Suc by linarith
  have "?o \<le> off + m - 1" using False d by simp
  then have "?o div BSIZE \<le> (off + m - 1) div BSIZE" by (rule div_le_mono)
  moreover have "?o div BSIZE = Suc (off div BSIZE)" unfolding oe using blocks_pos(2) by simp
  ultimately show ?thesis using False d by (simp add: touched_def)
qed

lemma put_bytes_nth:
  assumes "off + length bs \<le> length d" and "q < length d"
  shows "put_bytes d off bs ! q = (if off \<le> q \<and> q < off + length bs then bs ! (q - off) else d ! q)"
  using assms by (auto simp: put_bytes_def nth_append)

lemma length_put_bytes: "off + length bs \<le> length d \<Longrightarrow> length (put_bytes d off bs) = length d"
  by (simp add: put_bytes_def)

lemma same_block:
  assumes "off \<le> p" and "p < off + m" and "off mod BSIZE + m \<le> BSIZE"
  shows "p div BSIZE = off div BSIZE"
proof -
  have "p < off div BSIZE * BSIZE + BSIZE" using assms(2,3) div_mult_mod_eq [of off BSIZE] by linarith
  then have "p div BSIZE < Suc (off div BSIZE)" by (intro less_mult_imp_div_less) simp
  moreover have "off div BSIZE \<le> p div BSIZE" using assms(1) by (rule div_le_mono)
  ultimately show ?thesis by simp
qed

lemma put_data:
  assumes "file_ok S R V n" and "off div BSIZE < MAXFILE" and "fblk n V (off div BSIZE) \<noteq> 0" and "length (V (fblk n V (off div BSIZE))) = BSIZE"
    and "off mod BSIZE + length bs \<le> BSIZE"
  defines "a \<equiv> fblk n V (off div BSIZE)"
  shows "fblk n (V(a := put_bytes (V a) (off mod BSIZE) bs)) = fblk n V"
    "p < MAXFILE * BSIZE \<Longrightarrow> fbyte n (V(a := put_bytes (V a) (off mod BSIZE) bs)) p =
       (if off \<le> p \<and> p < off + length bs then bs ! (p - off) else fbyte n V p)"
proof -
  let ?V = "V(a := put_bytes (V a) (off mod BSIZE) bs)"
  have "a \<noteq> d_addrs n ! NDIRECT"
    using file_ok_inj [OF assms(1), of "off div BSIZE" MAXFILE] assms(2,3) by (auto simp: a_def fblk_max)
  then show f: "fblk n ?V = fblk n V" by (intro fblk_cong) simp
  assume p: "p < MAXFILE * BSIZE"
  have om: "off div BSIZE * BSIZE + off mod BSIZE = off" "p div BSIZE * BSIZE + p mod BSIZE = p" by simp_all
  show "fbyte n ?V p = (if off \<le> p \<and> p < off + length bs then bs ! (p - off) else fbyte n V p)"
  proof (cases "p div BSIZE = off div BSIZE")
    case True
    have "p - off = p mod BSIZE - off mod BSIZE" using om True by (metis diff_cancel)
    moreover have "off \<le> p \<longleftrightarrow> off mod BSIZE \<le> p mod BSIZE" "p < off + length bs \<longleftrightarrow> p mod BSIZE < off mod BSIZE + length bs"
      using om True by (metis add.assoc add_le_cancel_left add_less_cancel_left)+
    moreover have a: "fblk n V (p div BSIZE) = a" "a \<noteq> 0" "length (V a) = BSIZE" using True assms(3,4) by (simp_all add: a_def)
    ultimately show ?thesis
      using assms(5) blocks_pos(2) unfolding fbyte_def f a(1) by (simp add: put_bytes_nth)
  next
    case False
    then have "\<not> (off \<le> p \<and> p < off + length bs)" using same_block [OF _ _ assms(5), of p] by blast
    moreover have "fblk n V (p div BSIZE) = a \<Longrightarrow> fblk n V (p div BSIZE) = 0"
      using file_ok_inj [OF assms(1), of "p div BSIZE" "off div BSIZE"] off_block [OF p] assms(2) False by (auto simp: a_def)
    ultimately show ?thesis by (auto simp: fbyte_def f)
  qed
qed

end
