(* ===== verification/Xv6_Fileio.thy ===== *)
theory Xv6_Fileio
  imports Xv6_Content
begin

text \<open>
  \<^verbatim>\<open>writei\<close>, \<^verbatim>\<open>readi\<close>, \<^verbatim>\<open>iupdate\<close> and \<^verbatim>\<open>itrunc\<close> of \<^verbatim>\<open>kernel/fs.c\<close> as operations on the bytes of a file, on
  top of the block map of \<open>Xv6_Content\<close>.
\<close>

section \<open>Writing one block\<close>

text \<open>What a write of \<open>bs\<close> at \<open>off\<close> has done once it has reached \<open>off'\<close>.\<close>

definition written :: "u32 \<Rightarrow> nat \<Rightarrow> nat \<Rightarrow> nat \<Rightarrow> byte list \<Rightarrow> 'z fs_state_scheme \<Rightarrow> 'z fs_state_scheme \<Rightarrow> bool" where
  "written dev i off off' bs s s' \<longleftrightarrow>
     touches dev i s s' \<and>
     (\<forall>p < MAXFILE * BSIZE. fbyte (ino i s') (blks dev s') p =
        (if off \<le> p \<and> p < off' then bs ! (p - off) else fbyte (ino i s) (blks dev s) p)) \<and>
     (\<forall>p < MAXFILE * BSIZE. off \<le> p \<and> p < off' \<longrightarrow> fblk (ino i s') (blks dev s') (p div BSIZE) \<noteq> 0)"

lemma write_block:
  assumes "ftx dev i {a} k s" and "off < MAXFILE * BSIZE" and "a = fblk (ino i s) (blks dev s) (off div BSIZE)" and "a \<noteq> 0"
    and "off mod BSIZE + length bs \<le> BSIZE"
  obtains b s1 s2 s3 where "bread dev a s = Inr (b, s1)" and "get_data b s1 = blks dev s a" and "upagetable s1 = upagetable s"
    and "pmem s1 = pmem s" and "itable s1 = itable s"
    and "log_write b (set_data b (put_bytes (blks dev s a) (off mod BSIZE) bs) s1) = Inr s2" and "brelse b s2 = Inr s3"
    and "ftx dev i {} k s3" and "written dev i off (off + length bs) bs s s3"
proof -
  let ?n = "ino i s" and ?V = "blks dev s" and ?o = "off mod BSIZE"
  let ?f = "\<lambda>d. put_bytes d ?o bs"
  have c: "fctx dev i s" "txn dev {} ({a} \<union> file_area i s) (k + ind_need i s) s" using assms(1) by (simp_all add: ftx_def)
  have f: "file_ok (sb s) (reserved s) ?V ?n" using c(1) by (simp add: fctx_def)
  have ob: "off div BSIZE < MAXFILE" by (rule off_block [OF assms(2)])
  have l: "length (?V a) = BSIZE" by (rule block_len [OF c(2)])
  have na: "a \<notin> reserved s" "a \<in> file_blocks ?n ?V" "used (sb s) ?V a"
    using file_okD [OF f, of "off div BSIZE"] fblk_in [of "off div BSIZE" ?n ?V] assms(3,4) ob by auto
  then have nl: "a \<in> {a} \<union> file_area i s" "a \<notin> {}" "a \<notin> log_region (log_start s)" "length (?f (?V a)) = BSIZE"
    using l assms(5) by (auto simp: reserved_def length_put_bytes)
  obtain b s1 s2 s3 where r: "bread dev a s = Inr (b, s1)" "get_data b s1 = ?V a" "itable s1 = itable s"
    "upagetable s1 = upagetable s" "pmem s1 = pmem s" "log_write b (set_data b (?f (?V a)) s1) = Inr s2" "brelse b s2 = Inr s3"
    "txn dev {} ({a} \<union> file_area i s) (k + ind_need i s) s3" "tx_keeps dev {} s s3" "itable s3 = itable s"
    "blks dev s3 = ?V(a := ?f (?V a))"
    by (rule txn_update [where f = ?f, OF c(2) nl])
  note d = put_data [OF f ob _ _ assms(5), folded assms(3), OF assms(4) l]
  have nb: "\<forall>b\<in>bitmap_of (sb s). blks dev s3 b = ?V b" using na(1) by (auto simp: r(11) reserved_def)
  have fs: "free_set (sb s) (blks dev s3) = free_set (sb s) ?V" by (rule free_set_cong [OF nb])
  have fb: "file_blocks ?n (blks dev s3) = file_blocks ?n ?V" unfolding file_blocks_def r(11) d(1) by (rule refl)
  have us: "used (sb s) (blks dev s3) x" if "x \<in> file_blocks ?n ?V" "used (sb s) ?V x" for x
    using that f nb by (auto simp: used_def file_ok_def bitmap_of_def)
  have "touches dev i s s3"
    unfolding touches_def using r(9,10) fs fb na(2) d(1) by (auto simp: r(11))
  moreover have "\<forall>p. off \<le> p \<and> p < off + length bs \<longrightarrow> fblk ?n (blks dev s3) (p div BSIZE) \<noteq> 0"
    using same_block [OF _ _ assms(5)] assms(3,4) d(1) by (auto simp: r(11))
  ultimately have "written dev i off (off + length bs) bs s s3"
    using d(2) by (simp add: written_def r(10,11))
  moreover have "file_ok (sb s) (reserved s) (blks dev s3) ?n"
    using f us d(1) by (intro file_ok_cong [OF f]) (simp_all add: r(11))
  then have "fctx dev i s3"
    using c(1) r(10) balloc_ok_keeps [OF r(9)] fs layout_keeps(2) [OF r(9)] keeps_fields(1) [OF r(9)] by (simp add: fctx_def)
  moreover have "txn dev {} (file_area i s) (k + ind_need i s) s3" using txn_sub [OF r(8)] by blast
  then have "txn dev {} (file_area i s3) (k + ind_need i s3) s3" using file_area_same [OF r(9), of i] r(10) by simp
  ultimately show thesis using r(1-7) by (intro that [of b s1 s2 s3]) (simp_all add: ftx_def)
qed

section \<open>Writing a file\<close>

lemma written_after:
  assumes "written dev i off (off + length bs) bs s s'" and "written dev i (off + length bs) off' cs s' s''" and "off + length bs \<le> off'"
  shows "written dev i off off' (bs @ cs) s s''"
proof -
  note a = assms(1) [unfolded written_def] and b = assms(2) [unfolded written_def]
  have f: "fbyte (ino i s'') (blks dev s'') p = (if off \<le> p \<and> p < off' then (bs @ cs) ! (p - off) else fbyte (ino i s) (blks dev s) p)"
    if p: "p < MAXFILE * BSIZE" for p
  proof (cases "p < off + length bs")
    case True
    then show ?thesis using a b p assms(3) by (simp add: nth_append) linarith
  next
    case False
    then have "p - off - length bs = p - (off + length bs)" "\<not> p - off < length bs" by linarith+
    then show ?thesis using False a b p assms(3) by (simp add: nth_append)
  qed
  have "fblk (ino i s'') (blks dev s'') (p div BSIZE) \<noteq> 0" if p: "p < MAXFILE * BSIZE" "off \<le> p \<and> p < off'" for p
  proof (cases "p < off + length bs")
    case True
    then have "fblk (ino i s') (blks dev s') (p div BSIZE) \<noteq> 0" using a p by blast
    then show ?thesis using b off_block [OF p(1)] by (simp add: touches_def)
  next
    case False
    then show ?thesis using b p by simp
  qed
  then show ?thesis unfolding written_def using f touches_trans [of dev i s s' s''] a b by blast
qed

text \<open>One round of the loop of \<^verbatim>\<open>writei\<close>, after \<^verbatim>\<open>bmap\<close> has returned a block.\<close>

lemma writei_round:
  assumes "bmap i (off div BSIZE) s = Inr (a, s1)" and "a \<noteq> 0" and "i_dev (itable s1 i) = dev" and "bread dev a s1 = Inr (b, s2)"
    and "either_copyin src (blk_rest (n - tot) off) s2 = Inr (0, bs)"
    and "log_write b (set_data b (put_bytes (get_data b s2) (off mod BSIZE) bs) s2) = Inr s3" and "brelse b s3 = Inr s4" and "\<not> n \<le> tot"
  shows "writei_loop i src off tot n s =
    writei_loop i (adv_src (blk_rest (n - tot) off) src) (off + blk_rest (n - tot) off) (tot + blk_rest (n - tot) off) n s4"
  using assms by (subst writei_loop.simps) (simp add: Let_def)

lemma written_nothing: "touches dev i s s' \<Longrightarrow> \<forall>p < MAXFILE * BSIZE. fbyte (ino i s') (blks dev s') p = fbyte (ino i s) (blks dev s) p \<Longrightarrow>
    written dev i off off bs s s'"
  by (auto simp: written_def)

lemma written_fgrows: "fgrows dev i s s1 \<Longrightarrow> written dev i off off' bs s1 s' \<Longrightarrow> written dev i off off' bs s s'"
  using touches_trans [of dev i s s1 s'] by (simp add: written_def fgrows_def)

lemma writei_loop_ok:
  assumes "ftx dev i {} k s" and "supplies src bs s" and "length bs = n - tot" and "off + length bs \<le> MAXFILE * BSIZE"
    and "touched off (length bs) \<le> k" and "tot \<le> n"
  shows "\<exists>w s'. writei_loop i src off tot n s = Inr (tot + w, off + w, s') \<and> w \<le> length bs \<and> ftx dev i {} 0 s' \<and>
    written dev i off (off + w) bs s s' \<and> (w < length bs \<longrightarrow> free_set (sb s) (blks dev s') = {})"
  using assms
proof (induction "n - tot" arbitrary: src bs off tot k s rule: less_induct)
  case less
  show ?case
  proof (cases "n \<le> tot")
    case True
    have "ftx dev i {} 0 s" using less.prems(1) txn_weaken [of dev "{}" _ "k + ind_need i s" s "ind_need i s"] by (auto simp: ftx_def)
    moreover have "writei_loop i src off tot n s = Inr (tot, off, s)" using True by (subst writei_loop.simps) simp
    ultimately show ?thesis
      using True less.prems(3) touches_refl [of dev i s] by (intro exI [of _ 0] exI [of _ s]) (simp add: written_nothing)
  next
    case False
    define m where "m = blk_rest (n - tot) off"
    have m: "m \<le> length bs" "off mod BSIZE + m \<le> BSIZE" "0 < m"
      using blk_rest_bounds(1,3) [of "n - tot" off] blk_rest_bounds(2) [of off "n - tot"] False less.prems(3) by (simp_all add: m_def)
    have t: "touched off (length bs) = Suc (touched (off + m) (length (drop m bs)))"
      using touched_step [of "length bs" off] less.prems(3) m False by (simp add: m_def)
    then obtain k' where k: "k = Suc k'" "touched (off + m) (length (drop m bs)) \<le> k'" using less.prems(5) by (cases k) auto
    have ob: "off < MAXFILE * BSIZE" using less.prems(4) m by linarith
    obtain a s1 where 1: "bmap i (off div BSIZE) s = Inr (a, s1)" "maps dev i (off div BSIZE) k' a s s1"
      using bmap_ok [OF _ off_block [OF ob]] less.prems(1) k(1) by blast
    note mp = 1(2) [unfolded maps_def]
    show ?thesis
    proof (cases "a = 0")
      case True
      have "txn dev {} (file_area i s1) (ind_need i s1) s1"
        using mp txn_weaken [OF txn_sub [of dev "{}" "{a} \<union> file_area i s1"], of "k' + ind_need i s1" s1 "file_area i s1" "ind_need i s1"]
        by (auto simp: ftx_def)
      then have "ftx dev i {} 0 s1" using mp by (simp add: ftx_def)
      moreover have "writei_loop i src off tot n s = Inr (tot, off, s1)" using False 1(1) True by (subst writei_loop.simps) simp
      ultimately show ?thesis
        using mp True by (intro exI [of _ 0] exI [of _ s1]) (simp add: written_nothing fgrows_def)
    next
      case a: False
      let ?bs = "take m bs"
      have l: "length ?bs = m" using m(1) by simp
      obtain b s2 s3 s4 where 2: "bread dev a s1 = Inr (b, s2)" "get_data b s2 = blks dev s1 a" "upagetable s2 = upagetable s1"
        "pmem s2 = pmem s1" "itable s2 = itable s1"
        "log_write b (set_data b (put_bytes (blks dev s1 a) (off mod BSIZE) ?bs) s2) = Inr s3" "brelse b s3 = Inr s4"
        "ftx dev i {} k' s4" "written dev i off (off + length ?bs) ?bs s1 s4"
        using m(2) mp a l by (rule_tac write_block [of dev i a k' s1 off ?bs, OF _ ob]) auto
      have k1: "tx_keeps dev {} s s1" "tx_keeps dev {} s1 s4" "sb s4 = sb s"
        using mp 2(9) fgrows_fields(1,2) [of dev i s s1] touches_fields(1,2) [of dev i s1 s4] by (simp_all add: written_def)
      have sup: "supplies src bs s1" "supplies src bs s4"
        using supplies_keeps [OF less.prems(2) k1(1)] supplies_keeps [OF less.prems(2) keeps_trans [OF k1(1,2)]] by simp_all
      have "adv_src 0 src = src" by (cases src) simp_all
      then have "either_copyin src m s1 = Inr (0, ?bs)" using sup(1) m(1) unfolding supplies_def by (metis add_0 drop0)
      moreover have "either_copyin src m s2 = either_copyin src m s1"
        using copyin_pmem [OF 2(4)] 2(3) by (cases src) simp_all
      moreover have "i_dev (itable s1 i) = dev" using mp by (simp add: ftx_def fctx_def)
      ultimately have st: "writei_loop i src off tot n s = writei_loop i (adv_src m src) (off + m) (tot + m) n s4"
        using writei_round [OF 1(1) a _ 2(1) _ _ 2(7) False, of src ?bs] 2(2,6) by (simp add: m_def)
      have h: "n - (tot + m) < n - tot" "length (drop m bs) = n - (tot + m)" "off + m + length (drop m bs) \<le> MAXFILE * BSIZE" "tot + m \<le> n"
        using False m(1,3) less.prems(3,4) by auto
      obtain w s' where w: "writei_loop i (adv_src m src) (off + m) (tot + m) n s4 = Inr (tot + m + w, off + m + w, s')"
        "w \<le> length (drop m bs)" "ftx dev i {} 0 s'" "written dev i (off + m) (off + m + w) (drop m bs) s4 s'"
        "w < length (drop m bs) \<longrightarrow> free_set (sb s4) (blks dev s') = {}"
        using less.hyps [OF h(1) 2(8) supplies_adv [OF sup(2) m(1)] h(2,3) k(2) h(4)] by blast
      have "written dev i off (off + (m + w)) bs s1 s'"
        using written_after [OF 2(9), of "off + m + w" "drop m bs" s'] w(4) l by (simp add: add.assoc)
      then have "written dev i off (off + (m + w)) bs s s'" using written_fgrows mp by blast
      then show ?thesis using st w h(2) m(1) k1(3)
        by (intro exI [of _ "m + w"] exI [of _ s']) (auto simp: add.assoc)
    qed
  qed
qed

section \<open>The inode on disk\<close>

lemma drop_put_bytes:
  assumes "off + length bs \<le> length d" and "j + m \<le> length bs"
  shows "take m (drop (off + j) (put_bytes d off bs)) = take m (drop j bs)"
  using assms by (simp add: put_bytes_def)

lemma concat_chunk:
  assumes "\<forall>x\<in>set xs. length (f x) = c" and "j < length xs"
  shows "take c (drop (c * j) (concat (map f xs))) = f (xs ! j)"
  using assms
proof (induction xs arbitrary: j)
  case (Cons x xs)
  then show ?case by (cases j) simp_all
qed simp

lemma length_chunks: "\<forall>x\<in>set xs. length (f x) = c \<Longrightarrow> length (concat (map f xs)) = c * length xs"
  by (induction xs) simp_all

lemma length_dinode_bytes: "length (d_addrs n) = NDIRECT + 1 \<Longrightarrow> length (dinode_bytes n) = 64"
  by (simp add: dinode_bytes_def length_chunks [where c = 4] NDIRECT_def)

lemma word_of_bytes: "of_nat (unat (x :: u16) mod 65536) = x" "of_nat (unat (y :: u32) mod 4294967296) = y"
proof -
  have "unat x < 65536" "unat y < 4294967296" using unsigned_less [of x] unsigned_less [of y] by simp_all
  then show "of_nat (unat x mod 65536) = x" "of_nat (unat y mod 4294967296) = y" by simp_all
qed

lemma get_put_dinode:
  assumes "64 * k + 64 \<le> length d" and "length (d_addrs n) = NDIRECT + 1"
  shows "get_dinode (put_dinode d k n) k = n"
proof -
  let ?b = "dinode_bytes n" and ?d = "put_bytes d (64 * k) (dinode_bytes n)"
  have l: "length ?b = 64" by (rule length_dinode_bytes [OF assms(2)])
  have p: "take m (drop (64 * k + j) ?d) = take m (drop j ?b)" if "j + m \<le> 64" for j m
    using drop_put_bytes [of "64 * k" ?b d j m] assms(1) l that by simp
  have a: "take 4 (drop (12 + 4 * j) ?b) = le_bytes 4 (unat (d_addrs n ! j))" if "j < NDIRECT + 1" for j
    using concat_chunk [of "d_addrs n" "\<lambda>a. le_bytes 4 (unat a)" 4 j] that assms(2) by (simp add: dinode_bytes_def)
  have "map (\<lambda>j. get32 ?d (64 * k + 12 + 4 * j)) [0..<NDIRECT + 1] = d_addrs n"
  proof (rule nth_equalityI)
    fix j assume "j < length (map (\<lambda>j. get32 ?d (64 * k + 12 + 4 * j)) [0..<NDIRECT + 1])"
    then have j: "j < NDIRECT + 1" by simp
    then show "map (\<lambda>j. get32 ?d (64 * k + 12 + 4 * j)) [0..<NDIRECT + 1] ! j = d_addrs n ! j"
      using p [of "12 + 4 * j" 4] a [OF j] by (simp add: word_of_bytes get32_def le_nat_le_bytes NDIRECT_def add.assoc del: upt_Suc)
  qed (use assms(2) in simp)
  moreover have "get16 ?d (64 * k) = d_type n" "get16 ?d (64 * k + 2) = d_major n" "get16 ?d (64 * k + 4) = d_minor n"
    "get16 ?d (64 * k + 6) = d_nlink n" "get32 ?d (64 * k + 8) = d_size n"
    using p [of 0 2] p [of 2 2] p [of 4 2] p [of 6 2] p [of 8 4]
    by (simp_all add: get16_def get32_def dinode_bytes_def le_nat_le_bytes word_of_bytes)
  ultimately show ?thesis by (simp add: get_dinode_def put_dinode_def)
qed

lemma inode_slot: "unat (x :: u32) mod IPB < IPB" "64 * (unat x mod IPB) + 64 \<le> BSIZE"
  by (simp_all add: IPB_def BSIZE_def)

lemma iupdate_ok:
  assumes "txn dev {} Y k s" and "i_dev (itable s i) = dev" and "IBLOCK (i_num (itable s i)) (sb s) \<in> Y"
    and "IBLOCK (i_num (itable s i)) (sb s) \<notin> log_region (log_start s)" and "length (d_addrs (ino i s)) = NDIRECT + 1"
  obtains s' where "iupdate i s = Inr s'" and "txn dev {} Y k s'" and "tx_keeps dev {} s s'" and "itable s' = itable s"
    and "blks dev s' = (blks dev s)(IBLOCK (i_num (itable s i)) (sb s) :=
      put_dinode (blks dev s (IBLOCK (i_num (itable s i)) (sb s))) (unat (i_num (itable s i)) mod IPB) (ino i s))"
proof -
  let ?f = "\<lambda>d. put_dinode d (unat (i_num (itable s i)) mod IPB) (ino i s)" and ?b = "IBLOCK (i_num (itable s i)) (sb s)"
  have "length (?f (blks dev s ?b)) = BSIZE"
    using block_len [OF assms(1)] length_dinode_bytes [OF assms(5)] inode_slot(2) by (simp add: put_dinode_def length_put_bytes)
  then obtain b s1 s2 s3 where r: "bread dev ?b s = Inr (b, s1)" "get_data b s1 = blks dev s ?b" "itable s1 = itable s"
    "log_write b (set_data b (?f (blks dev s ?b)) s1) = Inr s2" "brelse b s2 = Inr s3" "txn dev {} Y k s3" "tx_keeps dev {} s s3"
    "itable s3 = itable s" "blks dev s3 = (blks dev s)(?b := ?f (blks dev s ?b))"
    using assms(3,4) by (rule_tac txn_update [where f = ?f, OF assms(1)]) auto
  have "iupdate i s = Inr s3" using r assms(2) by (simp add: iupdate_def Let_def)
  then show thesis using r by (intro that [of s3])
qed

text \<open>An inode block is no block of a file, so writing one changes no file and no free block.\<close>

lemma inode_block_apart:
  assumes "fctx dev i s" and "b \<in> inode_blocks (sb s)"
  shows "b \<notin> log_region (log_start s)" "b \<notin> bitmap_of (sb s)" "b \<notin> file_blocks (ino i s) (blks dev s)" "b \<in> reserved s"
proof -
  show "b \<in> reserved s" using assms(2) by (simp add: reserved_def)
  then show "b \<notin> log_region (log_start s)" "b \<notin> bitmap_of (sb s)" "b \<notin> file_blocks (ino i s) (blks dev s)"
    using assms by (auto simp: fctx_def file_ok_def balloc_ok_def layout_ok_def)
qed

lemma inode_write_apart:
  assumes "fctx dev i s" and "b \<in> inode_blocks (sb s)"
  shows "fblk (ino i s) ((blks dev s)(b := d)) = fblk (ino i s) (blks dev s)"
    "p < MAXFILE * BSIZE \<Longrightarrow> fbyte (ino i s) ((blks dev s)(b := d)) p = fbyte (ino i s) (blks dev s) p"
    "free_set (sb s) ((blks dev s)(b := d)) = free_set (sb s) (blks dev s)"
    "file_ok (sb s) (reserved s) ((blks dev s)(b := d)) (ino i s)"
proof -
  note a = inode_block_apart [OF assms]
  have fo: "file_ok (sb s) (reserved s) (blks dev s) (ino i s)" using assms(1) by (simp add: fctx_def)
  have ind: "d_addrs (ino i s) ! NDIRECT \<noteq> 0 \<Longrightarrow> d_addrs (ino i s) ! NDIRECT \<noteq> b"
    using a(3) fblk_in [of MAXFILE "ino i s" "blks dev s"] by (auto simp: fblk_max)
  then show f: "fblk (ino i s) ((blks dev s)(b := d)) = fblk (ino i s) (blks dev s)" by (intro fblk_cong) auto
  show "fbyte (ino i s) ((blks dev s)(b := d)) p = fbyte (ino i s) (blks dev s) p" if "p < MAXFILE * BSIZE"
    using a(3) by (intro fbyte_cong [OF f _ that]) auto
  show "free_set (sb s) ((blks dev s)(b := d)) = free_set (sb s) (blks dev s)" using a(2) by (intro free_set_cong) auto
  have "used (sb s) ((blks dev s)(b := d)) x" if "x \<in> file_blocks (ino i s) (blks dev s)" "used (sb s) (blks dev s) x" for x
    using that fo a(2) by (auto simp: used_def file_ok_def bitmap_of_def)
  then show "file_ok (sb s) (reserved s) ((blks dev s)(b := d)) (ino i s)"
    by (intro file_ok_cong [OF fo f]) auto
qed

section \<open>Reading\<close>

lemma block_bytes:
  assumes "fblk n V (off div BSIZE) \<noteq> 0" and "length (V (fblk n V (off div BSIZE))) = BSIZE" and "off mod BSIZE + m \<le> BSIZE"
  shows "take m (drop (off mod BSIZE) (V (fblk n V (off div BSIZE)))) = map (fbyte n V) [off..<off + m]"
proof (rule nth_equalityI)
  show "length (take m (drop (off mod BSIZE) (V (fblk n V (off div BSIZE))))) = length (map (fbyte n V) [off..<off + m])"
    using assms(2,3) by simp
  fix q assume "q < length (take m (drop (off mod BSIZE) (V (fblk n V (off div BSIZE)))))"
  then have q: "q < m" by simp
  have "(off + q) div BSIZE = off div BSIZE" using same_block [OF _ _ assms(3), of "off + q"] q by simp
  moreover have "(off + q) mod BSIZE = off mod BSIZE + q"
    using q assms(3) by (subst mod_add_left_eq [symmetric]) simp
  ultimately show "take m (drop (off mod BSIZE) (V (fblk n V (off div BSIZE)))) ! q = map (fbyte n V) [off..<off + m] ! q"
    using q assms by (simp add: fbyte_def)
qed

lemma readi_loop_ok:
  assumes "tx_inv dev {} s" and "i_dev (itable s i) = dev" and "tot \<le> n" and "off + (n - tot) \<le> MAXFILE * BSIZE"
    and "\<forall>p. off \<le> p \<and> p < off + (n - tot) \<longrightarrow> fblk (ino i s) (blks dev s) (p div BSIZE) \<noteq> 0"
  shows "\<exists>s'. readi_loop i KernelDst off tot n s = Inr (int n, map (fbyte (ino i s) (blks dev s)) [off..<off + (n - tot)], s') \<and>
    tx_inv dev {} s' \<and> tx_keeps dev {} s s' \<and> itable s' = itable s \<and> blks dev s' = blks dev s"
  using assms
proof (induction "n - tot" arbitrary: off tot s rule: less_induct)
  case less
  show ?case
  proof (cases "n \<le> tot")
    case True
    then have "readi_loop i KernelDst off tot n s = Inr (int n, [], s)" using less.prems(3) by (subst readi_loop.simps) simp
    then show ?thesis using True less.prems(1) by simp
  next
    case False
    let ?n = "ino i s" and ?V = "blks dev s"
    define m where "m = blk_rest (n - tot) off"
    have m: "m \<le> n - tot" "off mod BSIZE + m \<le> BSIZE" "0 < m"
      using blk_rest_bounds(1,3) [of "n - tot" off] blk_rest_bounds(2) [of off "n - tot"] False by (simp_all add: m_def)
    have a: "fblk ?n ?V (off div BSIZE) \<noteq> 0" "off div BSIZE < MAXFILE"
      using less.prems(4,5) m(1,3) by (auto intro!: off_block)
    obtain s1 where 1: "bmap i (off div BSIZE) s = Inr (fblk ?n ?V (off div BSIZE), s1)" "tx_inv dev {} s1" "tx_keeps dev {} s s1"
      "itable s1 = itable s" "blks dev s1 = ?V"
      by (rule bmap_found [OF less.prems(1,2) a(2,1)])
    obtain b s2 s3 where 2: "bread dev (fblk ?n ?V (off div BSIZE)) s1 = Inr (b, s2)"
      "get_data b s2 = ?V (fblk ?n ?V (off div BSIZE))" "brelse b s2 = Inr s3" "tx_inv dev {} s3" "tx_keeps dev {} s1 s3"
      "itable s3 = itable s1" "blks dev s3 = ?V"
      using read_block [OF 1(2)] unfolding 1(5) by metis
    have l: "length (?V (fblk ?n ?V (off div BSIZE))) = BSIZE"
      using bcache.block_length less.prems(1) by (auto simp: tx_inv_def)
    have h: "n - (tot + m) < n - tot" "tot + m \<le> n" using m(1,3) False by auto
    obtain s4 where 3: "readi_loop i KernelDst (off + m) (tot + m) n s3 = Inr (int n, map (fbyte ?n ?V) [off + m..<off + m + (n - (tot + m))], s4)"
      "tx_inv dev {} s4" "tx_keeps dev {} s3 s4" "itable s4 = itable s3" "blks dev s4 = ?V"
      using less.hyps [OF h(1) 2(4) _ h(2), of "off + m"] less.prems(2,4,5) 2(6,7) 1(4) m(1,3) by auto
    have e: "off + m + (n - (tot + m)) = off + (n - tot)" using m(1) False by linarith
    have "[off..<off + (n - tot)] = [off..<off + m] @ [off + m..<off + m + (n - (tot + m))]"
      using upt_add_eq_append [of off "off + m" "n - (tot + m)"] unfolding e by simp
    then have "readi_loop i KernelDst off tot n s = Inr (int n, map (fbyte ?n ?V) [off..<off + (n - tot)], s4)"
      using False 1 2 3 a(1) less.prems(2) block_bytes [OF a(1) l m(2)]
      by (subst readi_loop.simps) (simp add: Let_def m_def [symmetric])
    then show ?thesis using 1 2 3 keeps_trans [OF keeps_trans [OF 1(3) 2(5)] 3(3)] by simp
  qed
qed

section \<open>A file as a list of bytes\<close>

text \<open>Inode \<open>i\<close> is a file with content \<open>c\<close>.\<close>

definition holds :: "u32 \<Rightarrow> nat \<Rightarrow> byte list \<Rightarrow> 'z fs_state_scheme \<Rightarrow> bool" where
  "holds dev i c s \<longleftrightarrow> fctx dev i s \<and> no_holes (ino i s) (blks dev s) \<and> fcontent (ino i s) (blks dev s) = c"

lemma holds_length: "holds dev i c s \<Longrightarrow> length c = unat (d_size (ino i s))"
  by (auto simp: holds_def fcontent_def)

lemma readi_ok:
  assumes "tx_inv dev {} s" and "holds dev i c s" and "unat off + unat n < 2 ^ 32"
  obtains s' where "readi i KernelDst off n s = Inr (int (length (take (unat n) (drop (unat off) c))), take (unat n) (drop (unat off) c), s')"
    and "tx_inv dev {} s'" and "tx_keeps dev {} s s'" and "itable s' = itable s" and "blks dev s' = blks dev s"
proof -
  let ?n = "ino i s" and ?V = "blks dev s"
  have h: "fctx dev i s" "no_holes ?n ?V" "c = fcontent ?n ?V" "length c = unat (d_size ?n)"
    using assms(2) holds_length [OF assms(2)] by (auto simp: holds_def)
  have nw: "\<not> off + n < off" "unat (off + n) = unat off + unat n"
    using assms(3) by (simp_all add: word_less_nat_alt unat_word_ariths)
  show thesis
  proof (cases "unat off \<le> length c")
    case False
    then have "readi i KernelDst off n s = Inr (0, [], s)" using h(4) by (simp add: readi_def word_less_nat_alt)
    then show thesis using False assms(1) by (intro that [of s]) simp_all
  next
    case True
    let ?m = "min (unat n) (length c - unat off)"
    have r: "readi i KernelDst off n s = readi_loop i KernelDst (unat off) 0 ?m s"
      using True nw h(4) by (auto simp: readi_def word_less_nat_alt unat_sub_if_size min_def Let_def)
    have "unat off + (?m - 0) \<le> MAXFILE * BSIZE"
      "\<forall>p. unat off \<le> p \<and> p < unat off + (?m - 0) \<longrightarrow> fblk ?n ?V (p div BSIZE) \<noteq> 0"
      using h(2,4) True by (auto simp: no_holes_def)
    then obtain s' where s': "readi_loop i KernelDst (unat off) 0 ?m s = Inr (int ?m, map (fbyte ?n ?V) [unat off..<unat off + (?m - 0)], s')"
      "tx_inv dev {} s'" "tx_keeps dev {} s s'" "itable s' = itable s" "blks dev s' = ?V"
      using readi_loop_ok [OF assms(1), of i 0 ?m "unat off"] h(1) by (auto simp: fctx_def)
    have "map (fbyte ?n ?V) [unat off..<unat off + (?m - 0)] = take (unat n) (drop (unat off) c)"
      using h(4) True unfolding h(3) fcontent_def by (auto simp: drop_map take_map min_def take_upt)
    then show thesis using s' r True by (intro that [of s']) (simp_all add: min.commute)
  qed
qed

text \<open>Setting the size changes neither the blocks nor the bytes of a file.\<close>

definition set_size :: "nat \<Rightarrow> u32 \<Rightarrow> 'z fs_state_scheme \<Rightarrow> 'z fs_state_scheme" where
  "set_size i sz s = upd_dinode i (\<lambda>d. d\<lparr>d_size := sz\<rparr>) s"

lemma set_size_eq: "set_size i sz s = s\<lparr>itable := (itable s)(i := (itable s i)\<lparr>i_disk := (ino i s)\<lparr>d_size := sz\<rparr>\<rparr>)\<rparr>"
  by (simp add: set_size_def upd_dinode_def upd_inode_def)

lemma size_apart [simp]:
  "fblk (n\<lparr>d_size := sz\<rparr>) V = fblk n V" "file_blocks (n\<lparr>d_size := sz\<rparr>) V = file_blocks n V"
  "file_ok S R V (n\<lparr>d_size := sz\<rparr>) = file_ok S R V n" "fbyte (n\<lparr>d_size := sz\<rparr>) V = fbyte n V"
proof -
  show f: "fblk (n\<lparr>d_size := sz\<rparr>) V = fblk n V" by (simp add: fblk_def fun_eq_iff)
  show b: "file_blocks (n\<lparr>d_size := sz\<rparr>) V = file_blocks n V" by (simp add: file_blocks_def f)
  show "file_ok S R V (n\<lparr>d_size := sz\<rparr>) = file_ok S R V n" "fbyte (n\<lparr>d_size := sz\<rparr>) V = fbyte n V"
    by (simp_all add: file_ok_def f b fbyte_def fun_eq_iff)
qed

lemma set_size_ftx:
  "ftx dev i X k (set_size i sz s) = ftx dev i X k s" "ino i (set_size i sz s) = (ino i s)\<lparr>d_size := sz\<rparr>"
  "blks dev (set_size i sz s) = blks dev s" "i_num (itable (set_size i sz s) i) = i_num (itable s i)" "sb (set_size i sz s) = sb s"
  by (simp_all add: set_size_eq ftx_def fctx_def file_area_def ind_need_def balloc_ok_def layout_ok_def reserved_def)

text \<open>The last step of \<^verbatim>\<open>writei\<close> and \<^verbatim>\<open>itrunc\<close>: the inode goes to disk.\<close>

definition iblock :: "nat \<Rightarrow> 'z fs_state_scheme \<Rightarrow> u32" where
  "iblock i s = IBLOCK (i_num (itable s i)) (sb s)"

definition on_disk :: "u32 \<Rightarrow> nat \<Rightarrow> 'z fs_state_scheme \<Rightarrow> bool" where
  "on_disk dev i s \<longleftrightarrow> get_dinode (blks dev s (iblock i s)) (unat (i_num (itable s i)) mod IPB) = ino i s"

lemma iupdate_file:
  assumes "ftx dev i {} k s"
  obtains s' where "iupdate i s = Inr s'" and "ftx dev i {} k s'" and "tx_keeps dev {} s s'" and "itable s' = itable s"
    and "on_disk dev i s'" and "fblk (ino i s') (blks dev s') = fblk (ino i s) (blks dev s)"
    and "\<forall>p < MAXFILE * BSIZE. fbyte (ino i s') (blks dev s') p = fbyte (ino i s) (blks dev s) p"
    and "free_set (sb s) (blks dev s') = free_set (sb s) (blks dev s)" and "\<forall>b. b \<noteq> iblock i s \<longrightarrow> blks dev s' b = blks dev s b"
proof -
  have c: "fctx dev i s" "txn dev {} (file_area i s) (k + ind_need i s) s" "i_dev (itable s i) = dev"
    "length (d_addrs (ino i s)) = NDIRECT + 1" using assms by (simp_all add: ftx_def fctx_def file_ok_def)
  have ib: "iblock i s \<in> inode_blocks (sb s)" using c(1) by (auto simp: iblock_def inode_blocks_def fctx_def)
  note a = inode_block_apart [OF c(1) ib]
  obtain s' where s': "iupdate i s = Inr s'" "txn dev {} (file_area i s) (k + ind_need i s) s'" "tx_keeps dev {} s s'" "itable s' = itable s"
    "blks dev s' = (blks dev s)(iblock i s := put_dinode (blks dev s (iblock i s)) (unat (i_num (itable s i)) mod IPB) (ino i s))"
    using a(1) unfolding iblock_def by (rule_tac iupdate_ok [OF c(2,3) _ _ c(4)]) (auto simp: file_area_def)
  note w = inode_write_apart [OF c(1) ib, where d = "put_dinode (blks dev s (iblock i s)) (unat (i_num (itable s i)) mod IPB) (ino i s)", folded s'(5)]
  have "fctx dev i s'"
    using c(1) w(3,4) s'(4) balloc_ok_keeps [OF s'(3)] keeps_fields(1) [OF s'(3)] layout_keeps(2) [OF s'(3)] by (simp add: fctx_def)
  then have "ftx dev i {} k s'" using s'(2,4) file_area_same [OF s'(3), of i] by (simp add: ftx_def)
  moreover have "on_disk dev i s'"
    using get_put_dinode [OF _ c(4), of "unat (i_num (itable s i)) mod IPB" "blks dev s (iblock i s)"] block_len [OF c(2)]
      inode_slot(2) [of "i_num (itable s i)"] s'(4) keeps_fields(1) [OF s'(3)] by (simp add: on_disk_def iblock_def s'(5))
  ultimately show thesis using s' w by (intro that [of s']) (simp_all add: s'(4))
qed

lemma content_put:
  assumes "unat (d_size n') = max (unat (d_size n)) (off + w)" and "off \<le> unat (d_size n)" and "w \<le> length bs"
    and "\<forall>p < unat (d_size n'). fbyte n' V' p = (if off \<le> p \<and> p < off + w then bs ! (p - off) else fbyte n V p)"
  shows "fcontent n' V' = put_bytes (fcontent n V) off (take w bs)"
proof (rule nth_equalityI)
  show l: "length (fcontent n' V') = length (put_bytes (fcontent n V) off (take w bs))"
    using assms(1-3) by (simp add: fcontent_def put_bytes_def)
  fix p assume "p < length (fcontent n' V')"
  then have p: "p < unat (d_size n')" by (simp add: fcontent_def)
  then have "fcontent n' V' ! p = fbyte n' V' p" by (simp add: fcontent_def)
  moreover have "put_bytes (fcontent n V) off (take w bs) ! p = (if off \<le> p \<and> p < off + w then bs ! (p - off) else fbyte n V p)"
    using p assms(1-3) by (auto simp: put_bytes_def nth_append fcontent_def)
  ultimately show "fcontent n' V' ! p = put_bytes (fcontent n V) off (take w bs) ! p" using assms(4) p by simp
qed

text \<open>Only file \<open>i\<close>, blocks that were free, the bitmap and the block of the inode may have changed.\<close>

definition spares :: "u32 \<Rightarrow> nat \<Rightarrow> 'z fs_state_scheme \<Rightarrow> 'z fs_state_scheme \<Rightarrow> bool" where
  "spares dev i s s' \<longleftrightarrow> tx_keeps dev {} s s' \<and> (\<forall>j. j \<noteq> i \<longrightarrow> itable s' j = itable s j) \<and>
     (\<forall>b. b \<notin> bitmap_of (sb s) \<union> free_set (sb s) (blks dev s) \<union> file_blocks (ino i s) (blks dev s) \<union> {iblock i s} \<longrightarrow>
        blks dev s' b = blks dev s b)"

lemma writei_ok:
  assumes "ftx dev i {} k s" and "holds dev i c s" and "supplies src bs s" and "length bs = unat n" and "unat off \<le> length c"
    and "unat off + unat n \<le> MAXFILE * BSIZE" and "touched (unat off) (unat n) \<le> k"
  obtains w s' where "writei i src off n s = Inr (int w, s')" and "w \<le> unat n" and "ftx dev i {} 0 s'"
    and "holds dev i (put_bytes c (unat off) (take w bs)) s'" and "w < unat n \<longrightarrow> free_set (sb s) (blks dev s') = {}"
    and "on_disk dev i s'" and "spares dev i s s'"
proof -
  have h: "no_holes (ino i s) (blks dev s)" "c = fcontent (ino i s) (blks dev s)" "length c = unat (d_size (ino i s))"
    using assms(2) holds_length [OF assms(2)] by (auto simp: holds_def)
  have mx: "MAXFILE * BSIZE < 2 ^ 32" by (simp add: MAXFILE_def NINDIRECT_def NDIRECT_def BSIZE_def)
  have nw: "\<not> off + n < off" "unat (off + n) = unat off + unat n"
    using assms(6) mx by (simp_all add: word_less_nat_alt unat_word_ariths)
  obtain w s1 where w: "writei_loop i src (unat off) 0 (unat n) s = Inr (0 + w, unat off + w, s1)" "w \<le> length bs" "ftx dev i {} 0 s1"
    "written dev i (unat off) (unat off + w) bs s s1" "w < length bs \<longrightarrow> free_set (sb s) (blks dev s1) = {}"
    using writei_loop_ok [OF assms(1,3), of "unat n" 0 "unat off"] assms(4,6,7) by auto
  have tch: "touches dev i s s1" using w(4) by (simp add: written_def)
  note tf = touches_fields [OF tch]
  define sz where "sz = (if unat (d_size (ino i s1)) < unat off + w then of_nat (unat off + w) else d_size (ino i s1))"
  have sz: "unat sz = max (unat (d_size (ino i s))) (unat off + w)"
    using w(2) assms(4,6) mx tf(5) by (auto simp: sz_def unat_of_nat_lt max_def simp del: of_nat_add)
  let ?t = "set_size i sz s1"
  have t: "ftx dev i {} 0 ?t" using w(3) by (simp add: set_size_ftx)
  obtain s2 where 2: "iupdate i ?t = Inr s2" "ftx dev i {} 0 s2" "tx_keeps dev {} ?t s2" "itable s2 = itable ?t" "on_disk dev i s2"
    "fblk (ino i s2) (blks dev s2) = fblk (ino i ?t) (blks dev ?t)"
    "\<forall>p < MAXFILE * BSIZE. fbyte (ino i s2) (blks dev s2) p = fbyte (ino i ?t) (blks dev ?t) p"
    "free_set (sb ?t) (blks dev s2) = free_set (sb ?t) (blks dev ?t)" "\<forall>b. b \<noteq> iblock i ?t \<longrightarrow> blks dev s2 b = blks dev ?t b"
    by (rule iupdate_file [OF t])
  have "?t = (if unat (d_size (ino i s1)) < unat off + w then upd_dinode i (\<lambda>d. d\<lparr>d_size := of_nat (unat off + w)\<rparr>) s1 else s1)"
    by (auto simp: sz_def set_size_def upd_dinode_def upd_inode_def)
  then have "writei i src off n s = Inr (int w, s2)"
    using nw assms(5,6) h(3) w(1) 2(1) by (simp add: writei_def word_less_nat_alt Let_def del: of_nat_add)
  moreover have s2: "ino i s2 = (ino i s1)\<lparr>d_size := sz\<rparr>" "iblock i ?t = iblock i s"
    using 2(4) tf(2,3) by (simp_all add: set_size_ftx iblock_def)
  have bound: "unat (d_size (ino i s2)) \<le> MAXFILE * BSIZE"
    using s2 sz h(1) w(2) assms(4,6) by (simp add: no_holes_def)
  have "fcontent (ino i s2) (blks dev s2) = put_bytes c (unat off) (take w bs)"
    unfolding h(2) using sz s2 h(3) assms(5) w(2,4) 2(7) bound
    by (intro content_put) (auto simp: set_size_ftx written_def)
  moreover have "no_holes (ino i s2) (blks dev s2)"
  proof -
    have "fblk (ino i s1) (blks dev s1) (p div BSIZE) \<noteq> 0" if p: "p < unat (d_size (ino i s2))" for p
    proof (cases "p < unat (d_size (ino i s))")
      case True
      then show ?thesis
        using h(1) tch off_block [of p] p bound by (auto simp: no_holes_def touches_def)
    next
      case False
      then show ?thesis using p sz s2 w(4) bound assms(5) h(3) by (auto simp: written_def)
    qed
    then show ?thesis using bound 2(6) by (simp add: no_holes_def set_size_ftx)
  qed
  moreover have "fctx dev i s2" using 2(2) by (simp add: ftx_def)
  moreover have "tx_keeps dev {} s s2" using keeps_trans [OF tf(1), of s2] 2(3) by (simp add: set_size_eq tx_keeps_def)
  moreover have "\<forall>j. j \<noteq> i \<longrightarrow> itable s2 j = itable s j" using 2(4) tch by (simp add: set_size_eq touches_def)
  moreover have "free_set (sb s) (blks dev s2) = free_set (sb s) (blks dev s1)" using 2(8) tf(2) by (simp add: set_size_ftx)
  moreover have "\<forall>b. b \<notin> bitmap_of (sb s) \<union> free_set (sb s) (blks dev s) \<union> file_blocks (ino i s) (blks dev s) \<union> {iblock i s} \<longrightarrow>
      blks dev s2 b = blks dev s b" using 2(9) tch s2(2) by (simp add: touches_def set_size_ftx)
  ultimately show thesis using w(2,5) assms(4) 2(2,5) by (intro that [of w s2]) (simp_all add: holds_def spares_def)
qed

section \<open>The room an operation reserves\<close>

text \<open>\<^verbatim>\<open>begin_op\<close> reserves \<open>MAXOPBLOCKS\<close> blocks of the log, and \<^verbatim>\<open>filewrite\<close> writes three blocks at a time.\<close>

definition op_room :: "u32 \<Rightarrow> 'z fs_state_scheme \<Rightarrow> bool" where
  "op_room dev s \<longleftrightarrow> tx_inv dev {} s \<and> 1 \<le> outstanding s \<and> lh_n s + int MAXOPBLOCKS + 1 < int LOGSIZE \<and>
     lh_n s + int MAXOPBLOCKS + 1 < log_size s \<and> unat (sb_size (sb s)) \<le> BPB"

lemma bitmap_one:
  assumes "unat (sb_size S) \<le> BPB"
  shows "bitmap_of S \<subseteq> {sb_bmapstart S}"
  using assms by (auto simp: bitmap_of_def BBLOCK_def)

lemma touched_three:
  assumes "m \<le> 3 * BSIZE"
  shows "touched off m \<le> 4"
proof -
  have "(off + m - 1) div BSIZE \<le> (off + 3 * BSIZE) div BSIZE" using assms by (intro div_le_mono) simp
  also have "\<dots> = off div BSIZE + 3" using blocks_pos(2) by simp
  finally show ?thesis by (auto simp: touched_def)
qed

lemma op_room_ftx:
  assumes "op_room dev s" and "fctx dev i s" and "k \<le> 4"
  shows "ftx dev i {} k s"
proof -
  let ?Y = "file_area i s" and ?L = "set (log_blocks s)"
  have tx: "tx_inv dev {} s" using assms(1) by (simp add: op_room_def)
  have Y: "?Y \<subseteq> {sb_bmapstart (sb s), iblock i s} \<union> ({d_addrs (ino i s) ! NDIRECT} - {0})"
    using bitmap_one [of "sb s"] assms(1) by (auto simp: file_area_def op_room_def iblock_def)
  have "card ({sb_bmapstart (sb s), iblock i s} \<union> ({d_addrs (ino i s) ! NDIRECT} - {0})) + ind_need i s \<le> 3"
    by (auto simp: ind_need_def card_insert_if)
  then have "card ?Y + ind_need i s \<le> 3" using card_mono [OF _ Y] by simp
  moreover have "card (?L \<union> ?Y) \<le> card ?L + card ?Y" by (rule card_Un_le)
  moreover have "int (card ?L) \<le> lh_n s" using tx_length [OF tx] card_length [of "log_blocks s"] tx by (simp add: tx_inv_def) linarith
  ultimately have "int (card (?L \<union> ?Y) + (k + ind_need i s)) \<le> lh_n s + int MAXOPBLOCKS"
    using assms(3) by (simp add: MAXOPBLOCKS_def)
  then show ?thesis using assms(1,2) tx finite_subset [OF Y] by (simp add: ftx_def txn_def op_room_def)
qed

lemma small_fs_room: "op_room 1 small_fs"
  using small_fs_txn [of "{}" 0] by (simp add: op_room_def txn_def small_fs_fields MAXOPBLOCKS_def LOGSIZE_def)
    (simp add: small_sb_def BPB_def BSIZE_def)

lemma small_file: "holds 1 0 [] small_fs"
proof -
  have "fblk (i_disk small_inode) V k = 0" if "k \<le> MAXFILE" for V k
    using that by (simp add: fblk_def small_inode_def NDIRECT_def)
  then have "file_ok S R V (i_disk small_inode)" for S R V
    by (auto simp: file_ok_def file_blocks_def) (simp add: small_inode_def NDIRECT_def)
  then show ?thesis
    using small_fs_ok(1) by (simp add: holds_def fctx_def small_fs_fields no_holes_def fcontent_def)
      (simp add: small_inode_def small_sb_def)
qed

section \<open>Properties\<close>



text \<open>
  C12. What \<^verbatim>\<open>writei\<close> wrote is what \<^verbatim>\<open>readi\<close> returns. After a \<^verbatim>\<open>writei\<close> that returned \<open>w\<close>, reading any
  range of the file gives the bytes of the old content with the first \<open>w\<close> bytes of the source in place at
  the offset, cut at the end of the file; reading changes no block and no inode.\<close>

theorem write_read_roundtrip:
  assumes "op_room dev s" and "holds dev i c s" and "length bs = unat n" and "unat n \<le> 3 * BSIZE"
    and "unat off \<le> length c" and "unat off + unat n \<le> MAXFILE * BSIZE" and "unat off' + unat n' < 2 ^ 32"
  shows "\<exists>w s' s''. writei i (KernelSrc bs) off n s = Inr (int w, s') \<and>
    (let r = take (unat n') (drop (unat off') (put_bytes c (unat off) (take w bs)))
     in readi i KernelDst off' n' s' = Inr (int (length r), r, s'')) \<and>
    w \<le> unat n \<and> blks dev s'' = blks dev s' \<and> itable s'' = itable s'"
proof -
  have "fctx dev i s" using assms(2) by (simp add: holds_def)
  then have f: "ftx dev i {} (touched (unat off) (unat n)) s"
    by (rule op_room_ftx [OF assms(1) _ touched_three [OF assms(4)]])
  obtain w s' where w: "writei i (KernelSrc bs) off n s = Inr (int w, s')" "w \<le> unat n" "ftx dev i {} 0 s'"
    "holds dev i (put_bytes c (unat off) (take w bs)) s'"
    by (rule writei_ok [OF f assms(2) supplies_kernel assms(3,5,6) order_refl])
  have "tx_inv dev {} s'" using w(3) by (simp add: ftx_def txn_def)
  then obtain s'' where "readi i KernelDst off' n' s' =
      Inr (int (length (take (unat n') (drop (unat off') (put_bytes c (unat off) (take w bs))))),
        take (unat n') (drop (unat off') (put_bytes c (unat off) (take w bs))), s'')"
    "itable s'' = itable s'" "blks dev s'' = blks dev s'"
    by (rule readi_ok [OF _ w(4) assms(7)])
  then show ?thesis using w(1,2) by (intro exI [of _ w] exI [of _ s'] exI [of _ s'']) (simp add: Let_def)
qed

theorem write_read_roundtrip_witness:
  "\<exists>w s' s''. writei 0 (KernelSrc [104, 105]) 0 2 small_fs = Inr (int w, s') \<and>
    readi 0 KernelDst 1 10 s' = Inr (int (w - 1), drop 1 (take w [104, 105]), s'')"
proof -
  have take10: "take 10 (drop (Suc 0) (take w xs)) = drop (Suc 0) (take w xs)" if "length xs = 2" for w and xs :: "byte list"
    using that by simp
  obtain w s' s'' where "writei 0 (KernelSrc [104, 105]) 0 2 small_fs = Inr (int w, s')" "w \<le> 2"
    "readi 0 KernelDst 1 10 s' = Inr (int (length (take 10 (drop 1 (take w [104, 105])))), take 10 (drop 1 (take w [104, 105])), s'')"
    using write_read_roundtrip [OF small_fs_room small_file, of "[104, 105]" 2 0 1 10]
    by (auto simp: put_bytes_def BSIZE_def MAXFILE_def NINDIRECT_def NDIRECT_def Let_def)
  then show ?thesis by (intro exI [of _ w] exI [of _ s'] exI [of _ s'']) (simp add: take10)
qed

end
