(* ===== verification/Xv6_Trunc.thy ===== *)
theory Xv6_Trunc
  imports Xv6_Fileio
begin

text \<open>
  \<^verbatim>\<open>itrunc\<close>, \<^verbatim>\<open>iput\<close> and \<^verbatim>\<open>ilock\<close> of \<^verbatim>\<open>kernel/fs.c\<close>: giving up a file gives back exactly the blocks it had, and an
  inode read again from disk is the one that was written.
\<close>

section \<open>Freeing the blocks of a file\<close>

lemma balloc_ok_grow:
  assumes "tx_keeps dev H s s'" and "balloc_ok dev H' s" and "free_set (sb s) (blks dev s') \<subseteq> insert x (free_set (sb s) (blks dev s))"
    and "x \<notin> H' \<union> reserved s"
  shows "balloc_ok dev H' s'"
  using assms(2-4) layout_keeps [OF assms(1)] by (auto simp: balloc_ok_def keeps_fields [OF assms(1)])

lemma free_blocks_ok:
  assumes "txn dev H Y k s" and "bitmap_of (sb s) \<subseteq> Y" and "layout_ok H s" and "distinct (filter (\<lambda>a. a \<noteq> 0) as)"
    and "\<forall>a\<in>set as - {0}. unat a < unat (sb_size (sb s)) \<and> used (sb s) (blks dev s) a"
  shows "\<exists>s'. free_blocks dev as s = Inr s' \<and> txn dev H Y k s' \<and> tx_keeps dev H s s' \<and> itable s' = itable s \<and>
    (\<forall>x. used (sb s) (blks dev s') x \<longleftrightarrow> used (sb s) (blks dev s) x \<and> x \<notin> set as - {0}) \<and>
    (\<forall>b. b \<notin> bitmap_of (sb s) \<longrightarrow> blks dev s' b = blks dev s b)"
  using assms
proof (induction as arbitrary: s)
  case (Cons a as)
  show ?case
  proof (cases "a = 0")
    case True
    then show ?thesis using Cons.IH [OF Cons.prems(1-3)] Cons.prems(4,5) by auto
  next
    case False
    have a: "unat a < unat (sb_size (sb s))" "used (sb s) (blks dev s) a" using Cons.prems(5) False by auto
    obtain s1 where 1: "bfree dev a s = Inr s1" "txn dev H Y k s1" "tx_keeps dev H s s1" "itable s1 = itable s"
      "blks dev s1 = unmark (sb s) a (blks dev s)"
      by (rule bfree_ok [OF Cons.prems(1-3) a])
    note m = keeps_fields(1) [OF 1(3)] layout_keeps(1) [OF 1(3)]
    note u = unmark_effect(2,3) [OF _ a(1), of "blks dev s", folded 1(5)]
    have l: "length (blks dev s (BBLOCK a (sb s))) = BSIZE" by (rule block_len [OF Cons.prems(1)])
    have "\<exists>s'. free_blocks dev as s1 = Inr s' \<and> txn dev H Y k s' \<and> tx_keeps dev H s1 s' \<and> itable s' = itable s1 \<and>
      (\<forall>x. used (sb s1) (blks dev s') x \<longleftrightarrow> used (sb s1) (blks dev s1) x \<and> x \<notin> set as - {0}) \<and>
      (\<forall>b. b \<notin> bitmap_of (sb s1) \<longrightarrow> blks dev s' b = blks dev s1 b)"
      using Cons.prems m u(2) [OF l] False by (intro Cons.IH [OF 1(2)]) auto
    then obtain s' where s': "free_blocks dev as s1 = Inr s'" "txn dev H Y k s'" "tx_keeps dev H s1 s'" "itable s' = itable s1"
      "\<forall>x. used (sb s) (blks dev s') x \<longleftrightarrow> used (sb s) (blks dev s1) x \<and> x \<notin> set as - {0}"
      "\<forall>b. b \<notin> bitmap_of (sb s) \<longrightarrow> blks dev s' b = blks dev s1 b" unfolding m(1) by blast
    have "free_blocks dev (a # as) s = Inr s'" using False 1(1) s'(1) by simp
    moreover have "tx_keeps dev H s s'" by (rule keeps_trans [OF 1(3) s'(3)])
    ultimately show ?thesis using s'(2,4-6) 1(4) u(1) [OF l] u(2) [OF l] False by (intro exI [of _ s']) auto
  qed
qed simp

lemma used_free_set:
  assumes "\<forall>x. used S V' x \<longleftrightarrow> used S V x \<and> x \<notin> A" and "\<forall>x\<in>A. unat x < unat (sb_size S)"
  shows "free_set S V' = free_set S V \<union> A"
  using assms by (auto simp: free_set_def)

text \<open>\<open>sheds dev i K s s'\<close>: the blocks of file \<open>i\<close> with index in \<open>K\<close> have become free, and nothing else has changed.\<close>

definition sheds :: "u32 \<Rightarrow> nat \<Rightarrow> nat set \<Rightarrow> 'z fs_state_scheme \<Rightarrow> 'z fs_state_scheme \<Rightarrow> bool" where
  "sheds dev i K s s' \<longleftrightarrow>
     tx_keeps dev {} s s' \<and> (\<forall>j. j \<noteq> i \<longrightarrow> itable s' j = itable s j) \<and>
     inode_head (itable s' i) = inode_head (itable s i) \<and> dinode_head (ino i s') = dinode_head (ino i s) \<and>
     length (d_addrs (ino i s')) = length (d_addrs (ino i s)) \<and>
     (\<forall>q \<le> MAXFILE. fblk (ino i s') (blks dev s') q = (if q \<in> K then 0 else fblk (ino i s) (blks dev s) q)) \<and>
     (\<forall>x. used (sb s) (blks dev s') x \<longleftrightarrow> used (sb s) (blks dev s) x \<and> x \<notin> fblk (ino i s) (blks dev s) ` K - {0}) \<and>
     (\<forall>b. b \<notin> bitmap_of (sb s) \<longrightarrow> blks dev s' b = blks dev s b)"

lemma sheds_refl: "sheds dev i {} s s"
  by (simp add: sheds_def)

lemma shedsD:
  assumes "sheds dev i K s s'"
  shows "tx_keeps dev {} s s'" "\<forall>j. j \<noteq> i \<longrightarrow> itable s' j = itable s j"
    "inode_head (itable s' i) = inode_head (itable s i)" "dinode_head (ino i s') = dinode_head (ino i s)"
    "length (d_addrs (ino i s')) = length (d_addrs (ino i s))"
    "\<And>q. q \<le> MAXFILE \<Longrightarrow> fblk (ino i s') (blks dev s') q = (if q \<in> K then 0 else fblk (ino i s) (blks dev s) q)"
    "\<And>x. used (sb s) (blks dev s') x \<longleftrightarrow> used (sb s) (blks dev s) x \<and> x \<notin> fblk (ino i s) (blks dev s) ` K - {0}"
    "\<And>b. b \<notin> bitmap_of (sb s) \<Longrightarrow> blks dev s' b = blks dev s b"
  using assms unfolding sheds_def by blast+

lemma sheds_trans:
  assumes "sheds dev i K s s'" and "sheds dev i K' s' s''" and "K' \<subseteq> {..MAXFILE}"
  shows "sheds dev i (K \<union> K') s s''"
proof -
  note a = shedsD [OF assms(1)] and b = shedsD [OF assms(2)]
  have sb: "sb s' = sb s" by (rule keeps_fields(1) [OF a(1)])
  have "fblk (ino i s') (blks dev s') ` K' - {0} = fblk (ino i s) (blks dev s) ` (K' - K) - {0}"
  proof -
    have "fblk (ino i s') (blks dev s') q = (if q \<in> K then 0 else fblk (ino i s) (blks dev s) q)" if "q \<in> K'" for q
      using a(6) that assms(3) by auto
    then show ?thesis by (auto simp: image_iff split: if_splits)
  qed
  then have u: "fblk (ino i s) (blks dev s) ` (K \<union> K') - {0} =
      (fblk (ino i s) (blks dev s) ` K - {0}) \<union> (fblk (ino i s') (blks dev s') ` K' - {0})" by auto
  have "used (sb s) (blks dev s'') x \<longleftrightarrow> used (sb s) (blks dev s) x \<and> x \<notin> fblk (ino i s) (blks dev s) ` (K \<union> K') - {0}" for x
    unfolding u using a(7) [of x] b(7) [of x, unfolded sb] by simp
  moreover have "fblk (ino i s'') (blks dev s'') q = (if q \<in> K \<union> K' then 0 else fblk (ino i s) (blks dev s) q)" if "q \<le> MAXFILE" for q
    using a(6) [OF that] b(6) [OF that] by simp
  ultimately show ?thesis
    unfolding sheds_def using a(2-5,8) b(2-5,8) sb keeps_trans [OF a(1) b(1)] by simp
qed

lemma sheds_effect:
  assumes "sheds dev i K s s'" and "fctx dev i s" and "K \<subseteq> {..MAXFILE}"
  shows "fctx dev i s'" "free_set (sb s) (blks dev s') = free_set (sb s) (blks dev s) \<union> (fblk (ino i s) (blks dev s) ` K - {0})"
proof -
  note a = shedsD [OF assms(1)]
  note m = keeps_fields(1) [OF a(1)] layout_keeps [OF a(1)]
  let ?A = "fblk (ino i s) (blks dev s) ` K - {0}"
  have fo: "file_ok (sb s) (reserved s) (blks dev s) (ino i s)" and bo: "balloc_ok dev {} s" using assms(2) by (simp_all add: fctx_def)
  have "?A \<subseteq> file_blocks (ino i s) (blks dev s)" using assms(3) by (auto simp: file_blocks_def)
  then have A: "\<forall>x\<in>?A. unat x < unat (sb_size (sb s))" "?A \<inter> reserved s = {}" using fo unfolding file_ok_def by blast+
  show fs: "free_set (sb s) (blks dev s') = free_set (sb s) (blks dev s) \<union> ?A" using used_free_set [OF _ A(1)] a(7) by blast
  have fb: "b \<in> file_blocks (ino i s) (blks dev s)" "b \<notin> ?A" if b: "b \<in> file_blocks (ino i s') (blks dev s')" for b
  proof -
    obtain q where q: "q \<le> MAXFILE" "b = fblk (ino i s') (blks dev s') q" "b \<noteq> 0" using b by (auto simp: file_blocks_def)
    then have qb: "q \<notin> K" "b = fblk (ino i s) (blks dev s) q" using a(6) [OF q(1)] by (auto split: if_splits)
    show "b \<in> file_blocks (ino i s) (blks dev s)" using q(1,3) fblk_in [of q "ino i s" "blks dev s"] unfolding qb(2) by simp
    show "b \<notin> ?A"
    proof
      assume "b \<in> ?A"
      then obtain k where k: "k \<in> K" "b = fblk (ino i s) (blks dev s) k" by blast
      then show False using file_ok_inj [OF fo q(1), of k] qb q(3) assms(3) by auto
    qed
  qed
  have "file_ok (sb s) (reserved s) (blks dev s') (ino i s')" unfolding file_ok_def
  proof (intro conjI ballI allI impI)
    fix j k assume "j \<le> MAXFILE" "k \<le> MAXFILE" "fblk (ino i s') (blks dev s') j = fblk (ino i s') (blks dev s') k"
    then show "fblk (ino i s') (blks dev s') j = 0 \<or> j = k"
      using a(6) [of j] a(6) [of k] file_ok_inj [OF fo, of j k] by (auto split: if_splits)
  qed (use fb fo a(5,7) in \<open>auto simp: file_ok_def\<close>)
  moreover have "balloc_ok dev {} s'" using bo A(2) unfolding balloc_ok_def m fs by blast
  ultimately show "fctx dev i s'" using assms(2) a(3) m by (simp add: fctx_def inode_head_def)
qed

text \<open>\<open>set_addr i j 0\<close> after the block of the slot was freed.\<close>

lemma shed_slot:
  assumes "fctx dev i s" and "txn dev {} Y m s" and "bitmap_of (sb s) \<subseteq> Y" and "j < NDIRECT" and "d_addrs (ino i s) ! j \<noteq> 0"
  obtains s1 where "bfree dev (d_addrs (ino i s) ! j) s = Inr s1" and "txn dev {} Y m (set_addr i j 0 s1)"
    and "sheds dev i {j} s (set_addr i j 0 s1)"
proof -
  let ?a = "d_addrs (ino i s) ! j" and ?V = "blks dev s"
  have c: "layout_ok {} s" "file_ok (sb s) (reserved s) ?V (ino i s)" using assms(1) by (simp_all add: fctx_def balloc_ok_def)
  have fj: "fblk (ino i s) ?V j = ?a" using assms(4) by (simp add: fblk_def)
  have jm: "j \<le> MAXFILE" using assms(4) blocks_pos(1) by simp
  note f = file_okD [OF c(2) jm, unfolded fj, OF assms(5)]
  obtain s1 where 1: "bfree dev ?a s = Inr s1" "txn dev {} Y m s1" "tx_keeps dev {} s s1" "itable s1 = itable s"
    "blks dev s1 = unmark (sb s) ?a ?V"
    by (rule bfree_ok [OF assms(2,3) c(1) f(2,3)])
  let ?t = "set_addr i j 0 s1"
  have t: "?t = s1\<lparr>itable := (itable s)(i := (itable s i)\<lparr>i_disk := (ino i s)\<lparr>d_addrs := (d_addrs (ino i s))[j := 0]\<rparr>\<rparr>)\<rparr>"
    by (simp add: set_addr_def upd_dinode_def upd_inode_def 1(4))
  note u = unmark_effect(2,3) [of ?V, OF block_len [OF assms(2)] f(2), folded 1(5)]
  have ind: "blks dev s1 (d_addrs (ino i s) ! NDIRECT) = ?V (d_addrs (ino i s) ! NDIRECT) \<or> d_addrs (ino i s) ! NDIRECT = 0"
    using file_okD(1) [OF c(2), of MAXFILE] u(1) by (auto simp: fblk_max reserved_def)
  have "fblk ((ino i s)\<lparr>d_addrs := (d_addrs (ino i s))[j := 0]\<rparr>) (blks dev s1) q = (if q \<in> {j} then 0 else fblk (ino i s) ?V q)" for q
    using ind assms(4) c(2) blocks_pos(1) by (auto simp: fblk_def nth_list_update file_ok_def)
  then have "sheds dev i {j} s ?t" unfolding sheds_def
    using 1(3,4) u assms(5) by (simp add: t fj inode_head_def)
  then show thesis using 1(1,2) by (intro that [of s1]) (simp_all add: t)
qed

lemma free_direct_ok:
  assumes "fctx dev i s" and "txn dev {} Y m s" and "bitmap_of (sb s) \<subseteq> Y" and "set ks \<subseteq> {..<NDIRECT}"
  shows "\<exists>s'. free_direct i ks s = Inr s' \<and> txn dev {} Y m s' \<and> fctx dev i s' \<and> sheds dev i (set ks) s s'"
  using assms
proof (induction ks arbitrary: s)
  case Nil
  then show ?case by (simp add: sheds_refl)
next
  case (Cons k ks)
  have k: "k < NDIRECT" "{k} \<subseteq> {..MAXFILE}" "set ks \<subseteq> {..MAXFILE}" "set ks \<subseteq> {..<NDIRECT}"
    using Cons.prems(4) blocks_pos(1) by auto
  have dev: "i_dev (itable s i) = dev" using Cons.prems(1) by (simp add: fctx_def)
  have "\<exists>s1. free_direct i (k # ks) s = free_direct i ks s1 \<and> txn dev {} Y m s1 \<and> sheds dev i {k} s s1"
  proof (cases "d_addrs (ino i s) ! k = 0")
    case True
    then have "fblk (ino i s) (blks dev s) k = 0" using k(1) by (simp add: fblk_def)
    then have "sheds dev i {k} s s" by (auto simp: sheds_def)
    then show ?thesis using True Cons.prems(2) by auto
  next
    case False
    obtain s1 where "bfree dev (d_addrs (ino i s) ! k) s = Inr s1" "txn dev {} Y m (set_addr i k 0 s1)" "sheds dev i {k} s (set_addr i k 0 s1)"
      by (rule shed_slot [OF Cons.prems(1-3) k(1) False])
    then show ?thesis using False dev by auto
  qed
  then obtain s1 where 1: "free_direct i (k # ks) s = free_direct i ks s1" "txn dev {} Y m s1" "sheds dev i {k} s s1" by blast
  have "fctx dev i s1" "bitmap_of (sb s1) \<subseteq> Y"
    using sheds_effect(1) [OF 1(3) Cons.prems(1) k(2)] Cons.prems(3) keeps_fields(1) [OF shedsD(1) [OF 1(3)]] by simp_all
  then obtain s' where "free_direct i ks s1 = Inr s'" "txn dev {} Y m s'" "fctx dev i s'" "sheds dev i (set ks) s1 s'"
    using Cons.IH [OF _ 1(2) _ k(4)] by blast
  then show ?case using 1(1) sheds_trans [OF 1(3) _ k(3)] by auto
qed

text \<open>The entries of the indirect block, then the block itself.\<close>

definition shed_indirect :: "nat \<Rightarrow> 'z fs_state_scheme \<Rightarrow> 'z fs_state_scheme kres" where
  "shed_indirect i s =
     (let a = d_addrs (ino i s) ! NDIRECT; dev = i_dev (itable s i)
      in if a \<noteq> 0
         then kbind (bread dev a s) (\<lambda>(bp, s).
              kbind (free_blocks dev (map (\<lambda>j. get32 (get_data bp s) (4 * j)) [0..<NINDIRECT]) s) (\<lambda>s.
              kbind (brelse bp s) (\<lambda>s.
              kbind (bfree dev a s) (\<lambda>s. Inr (set_addr i NDIRECT 0 s)))))
         else Inr s)"

lemma itrunc_eq: "itrunc i s = kbind (free_direct i [0..<NDIRECT] s) (\<lambda>s. kbind (shed_indirect i s) (\<lambda>s. iupdate i (set_size i 0 s)))"
  by (simp add: itrunc_def shed_indirect_def set_size_def Let_def)

lemma entries_distinct:
  assumes "file_ok S R V n" and "d_addrs n ! NDIRECT \<noteq> 0"
  defines "es \<equiv> map (\<lambda>j. get32 (V (d_addrs n ! NDIRECT)) (4 * j)) [0..<NINDIRECT]"
  shows "distinct (filter (\<lambda>a. a \<noteq> 0) es)" "set es = fblk n V ` {NDIRECT..<MAXFILE}" "d_addrs n ! NDIRECT \<notin> set es"
proof -
  have e: "es ! j = fblk n V (NDIRECT + j)" "NDIRECT + j < MAXFILE" if "j < NINDIRECT" for j
    using that assms(2) blocks_pos(3) by (auto simp: es_def fblk_def)
  have l: "length es = NINDIRECT" by (simp add: es_def)
  show s: "set es = fblk n V ` {NDIRECT..<MAXFILE}"
  proof -
    have "fblk n V k = es ! (k - NDIRECT)" "k - NDIRECT < NINDIRECT" if "NDIRECT \<le> k" "k < MAXFILE" for k
      using that e(1) [of "k - NDIRECT"] blocks_pos(3) by auto
    then show ?thesis using e l by (auto simp: set_conv_nth image_iff) force+
  qed
  have "distinct (filter (\<lambda>a. a \<noteq> 0) (map (\<lambda>j. fblk n V (NDIRECT + j)) [0..<m]))" if "m \<le> NINDIRECT" for m
    using that
  proof (induction m)
    case (Suc m)
    have "fblk n V (NDIRECT + m) \<noteq> fblk n V (NDIRECT + j)" if "j < m" "fblk n V (NDIRECT + m) \<noteq> 0" for j
      using file_ok_inj [OF assms(1), of "NDIRECT + m" "NDIRECT + j"] that Suc.prems blocks_pos(3) by auto
    then have "fblk n V (NDIRECT + m) = 0 \<or> fblk n V (NDIRECT + m) \<notin> (\<lambda>j. fblk n V (NDIRECT + j)) ` {..<m}" by blast
    then show ?case using Suc by (auto simp: lessThan_atLeast0)
  qed simp
  moreover have "es = map (\<lambda>j. fblk n V (NDIRECT + j)) [0..<NINDIRECT]" using e(1) by (simp add: es_def)
  ultimately show "distinct (filter (\<lambda>a. a \<noteq> 0) es)" by simp
  show "d_addrs n ! NDIRECT \<notin> set es"
  proof
    assume "d_addrs n ! NDIRECT \<in> set es"
    then obtain k where "k < MAXFILE" "fblk n V MAXFILE = fblk n V k" unfolding s fblk_max by auto
    then show False using file_ok_inj [OF assms(1), of MAXFILE k] assms(2) by (simp add: fblk_max)
  qed
qed

lemma shed_indirect_ok:
  assumes "fctx dev i s" and "txn dev {} Y m s" and "bitmap_of (sb s) \<subseteq> Y"
  shows "\<exists>s'. shed_indirect i s = Inr s' \<and> txn dev {} Y m s' \<and> sheds dev i {NDIRECT..MAXFILE} s s'"
proof (cases "d_addrs (ino i s) ! NDIRECT = 0")
  case True
  then have "fblk (ino i s) (blks dev s) q = 0" if "q \<in> {NDIRECT..MAXFILE}" for q using that by (simp add: fblk_def)
  then have "sheds dev i {NDIRECT..MAXFILE} s s" by (auto simp: sheds_def)
  then show ?thesis using True assms(2) by (simp add: shed_indirect_def)
next
  case a: False
  let ?a = "d_addrs (ino i s) ! NDIRECT" and ?V = "blks dev s"
  let ?es = "map (\<lambda>j. get32 (?V ?a) (4 * j)) [0..<NINDIRECT]"
  have c: "i_dev (itable s i) = dev" "file_ok (sb s) (reserved s) ?V (ino i s)" using assms(1) by (simp_all add: fctx_def)
  note es = entries_distinct [OF c(2) a] and fa = file_okD [OF c(2), of MAXFILE, unfolded fblk_max, OF order_refl a]
  have ai: "?a \<in> file_blocks (ino i s) ?V" using fblk_in [of MAXFILE "ino i s" ?V] a by (simp add: fblk_max)
  have na: "?a \<notin> bitmap_of (sb s)" using fa(1) by (simp add: reserved_def)
  have lo: "layout_ok {?a} s" "layout_ok {} s" using balloc_ok_hold [OF assms(1) ai] assms(1) by (simp_all add: balloc_ok_def fctx_def)
  obtain b s1 where 1: "bread dev ?a s = Inr (b, s1)" "txn dev {?a} Y m s1" "tx_keeps dev {} s s1" "itable s1 = itable s"
    "slot dev s1 ?a = Some b" "blks dev s1 = ?V" "get_data b s1 = ?V ?a" "?a \<in> set (log_blocks s1) \<or> blks dev s1 ?a = disk s1 ?a"
    by (rule txn_open [OF assms(2)])
  note m1 = keeps_fields(1) [OF 1(3)]
  have "\<forall>x\<in>set ?es - {0}. unat x < unat (sb_size (sb s)) \<and> used (sb s) ?V x"
    using file_okD(2,3) [OF c(2)] unfolding es(2) by auto
  then obtain s2 where 2: "free_blocks dev ?es s1 = Inr s2" "txn dev {?a} Y m s2" "tx_keeps dev {?a} s1 s2" "itable s2 = itable s1"
    "\<forall>x. used (sb s) (blks dev s2) x \<longleftrightarrow> used (sb s) ?V x \<and> x \<notin> set ?es - {0}" "\<forall>x. x \<notin> bitmap_of (sb s) \<longrightarrow> blks dev s2 x = ?V x"
    using free_blocks_ok [OF 1(2) _ _ es(1)] assms(3) lo(1) layout_keeps(1) [OF 1(3)] unfolding m1 1(6) by blast
  have lg: "?a \<in> set (log_blocks s2) \<or> blks dev s2 ?a = disk s2 ?a"
    using 1(6,8) 2(3,6) na keeps_fields(6) [OF 2(3)] by (auto simp: tx_keeps_def)
  obtain s3 where 3: "brelse b s2 = Inr s3" "txn dev {} Y m s3" "tx_keeps dev {} s2 s3" "itable s3 = itable s2" "blks dev s3 = blks dev s2"
    using keeps_slot [OF 2(3)] 1(5) by (rule_tac txn_close [OF 2(2) _ lg, of b]) simp_all
  have k3: "tx_keeps dev {} s s3" using keeps_trans [OF keeps_trans [OF 1(3) keeps_mono [OF 2(3)]] 3(3)] by simp
  note m3 = keeps_fields(1) [OF k3]
  have u3: "used (sb s3) (blks dev s3) ?a" using fa(3) es(3) 2(5) by (simp add: m3 3(5))
  obtain s4 where 4: "bfree dev ?a s3 = Inr s4" "txn dev {} Y m s4" "tx_keeps dev {} s3 s4" "itable s4 = itable s3"
    "blks dev s4 = unmark (sb s3) ?a (blks dev s3)"
    using assms(3) lo(2) layout_keeps(1) [OF k3] fa(2) by (rule_tac bfree_ok [OF 3(2) _ _ _ u3]) (simp_all add: m3)
  let ?t = "set_addr i NDIRECT 0 s4"
  have t: "?t = s4\<lparr>itable := (itable s)(i := (itable s i)\<lparr>i_disk := (ino i s)\<lparr>d_addrs := (d_addrs (ino i s))[NDIRECT := 0]\<rparr>\<rparr>)\<rparr>"
    by (simp add: set_addr_def upd_dinode_def upd_inode_def 1(4) 2(4) 3(4) 4(4))
  note u = unmark_effect(2,3) [of "blks dev s3", OF block_len [OF 3(2)] fa(2), folded m3, folded 4(5)]
  have im: "fblk (ino i s) ?V ` {NDIRECT..MAXFILE} - {0} = insert ?a (set ?es - {0})"
  proof -
    have "{NDIRECT..MAXFILE} = insert MAXFILE {NDIRECT..<MAXFILE}" using blocks_pos(1) by auto
    then show ?thesis using a unfolding es(2) by (auto simp: fblk_max)
  qed
  have "fblk ((ino i s)\<lparr>d_addrs := (d_addrs (ino i s))[NDIRECT := 0]\<rparr>) (blks dev s4) q =
      (if q \<in> {NDIRECT..MAXFILE} then 0 else fblk (ino i s) ?V q)" if "q \<le> MAXFILE" for q
    using that c(2) by (auto simp: fblk_def file_ok_def)
  moreover have "used (sb s) (blks dev s4) x \<longleftrightarrow> used (sb s) ?V x \<and> x \<notin> fblk (ino i s) ?V ` {NDIRECT..MAXFILE} - {0}" for x
    unfolding im using u(2) [of x] 2(5) by (auto simp: 3(5) m3)
  moreover have "\<forall>x. x \<notin> bitmap_of (sb s) \<longrightarrow> blks dev s4 x = ?V x" using u(1) 2(6) by (simp add: 3(5) m3)
  ultimately have "sheds dev i {NDIRECT..MAXFILE} s ?t"
    unfolding sheds_def using keeps_trans [OF k3 4(3)] by (simp add: t inode_head_def)
  moreover have "shed_indirect i s = Inr ?t" using a c(1) 1(1,7) 2(1) 3(1) 4(1) by (simp add: shed_indirect_def Let_def)
  ultimately show ?thesis using 4(2) by (simp add: t)
qed

section \<open>Truncating\<close>

lemma itrunc_ok:
  assumes "ftx dev i {} 1 s"
  obtains s' where "itrunc i s = Inr s'" and "ftx dev i {} 0 s'" and "tx_keeps dev {} s s'" and "on_disk dev i s'"
    and "\<forall>j. j \<noteq> i \<longrightarrow> itable s' j = itable s j" and "inode_head (itable s' i) = inode_head (itable s i)"
    and "d_type (ino i s') = d_type (ino i s)" and "d_nlink (ino i s') = d_nlink (ino i s)" and "d_size (ino i s') = 0"
    and "file_blocks (ino i s') (blks dev s') = {}"
    and "free_set (sb s) (blks dev s') = free_set (sb s) (blks dev s) \<union> file_blocks (ino i s) (blks dev s)"
    and "\<forall>b. b \<notin> bitmap_of (sb s) \<longrightarrow> b \<noteq> iblock i s \<longrightarrow> blks dev s' b = blks dev s b"
proof -
  let ?Y = "file_area i s"
  have c: "fctx dev i s" "txn dev {} ?Y (1 + ind_need i s) s" "bitmap_of (sb s) \<subseteq> ?Y"
    using assms by (auto simp: ftx_def file_area_def)
  have k: "{..<NDIRECT} \<union> {NDIRECT..MAXFILE} = {..MAXFILE}" "{NDIRECT..MAXFILE} \<subseteq> {..MAXFILE}" using blocks_pos(1) by auto
  obtain s1 where 1: "free_direct i [0..<NDIRECT] s = Inr s1" "txn dev {} ?Y (1 + ind_need i s) s1" "fctx dev i s1" "sheds dev i {..<NDIRECT} s s1"
    using free_direct_ok [OF c, of "[0..<NDIRECT]"] by (auto simp: lessThan_atLeast0)
  have "bitmap_of (sb s1) \<subseteq> ?Y" using c(3) keeps_fields(1) [OF shedsD(1) [OF 1(4)]] by simp
  then obtain s2 where 2: "shed_indirect i s1 = Inr s2" "txn dev {} ?Y (1 + ind_need i s) s2" "sheds dev i {NDIRECT..MAXFILE} s1 s2"
    using shed_indirect_ok [OF 1(3,2)] by blast
  have sh: "sheds dev i {..MAXFILE} s s2" using sheds_trans [OF 1(4) 2(3) k(2)] by (simp add: k(1))
  note d = shedsD [OF sh] and e = sheds_effect [OF sh c(1) order_refl]
  note m = keeps_fields(1) [OF d(1)]
  have num: "i_num (itable s2 i) = i_num (itable s i)" using d(3) by (simp add: inode_head_def)
  have "d_addrs (ino i s2) ! NDIRECT = 0" using d(6) [of MAXFILE] by (simp add: fblk_max)
  then have fa: "file_area i s2 \<subseteq> ?Y" "ind_need i s2 = 1" using m num by (auto simp: file_area_def ind_need_def)
  have "txn dev {} (file_area i s2) (0 + ind_need i s2) s2"
    using txn_weaken [OF txn_sub [OF 2(2) fa(1)], of 1] fa(2) by simp
  then have "ftx dev i {} 0 s2" using e(1) by (simp add: ftx_def)
  then have t: "ftx dev i {} 0 (set_size i 0 s2)" by (simp add: set_size_ftx)
  obtain s3 where 3: "iupdate i (set_size i 0 s2) = Inr s3" "ftx dev i {} 0 s3" "tx_keeps dev {} (set_size i 0 s2) s3"
    "itable s3 = itable (set_size i 0 s2)" "on_disk dev i s3" "fblk (ino i s3) (blks dev s3) = fblk (ino i (set_size i 0 s2)) (blks dev (set_size i 0 s2))"
    "free_set (sb (set_size i 0 s2)) (blks dev s3) = free_set (sb (set_size i 0 s2)) (blks dev (set_size i 0 s2))"
    "\<forall>b. b \<noteq> iblock i (set_size i 0 s2) \<longrightarrow> blks dev s3 b = blks dev (set_size i 0 s2) b"
    by (rule iupdate_file [OF t])
  have "itrunc i s = Inr s3" using 1(1) 2(1) 3(1) by (simp add: itrunc_eq)
  moreover have "tx_keeps dev {} s s3" using keeps_trans [OF d(1), of s3] 3(3) by (simp add: set_size_eq tx_keeps_def)
  moreover have "\<forall>j. j \<noteq> i \<longrightarrow> itable s3 j = itable s j" "inode_head (itable s3 i) = inode_head (itable s i)"
    using d(2,3) by (simp_all add: 3(4) set_size_eq inode_head_def)
  moreover have n: "ino i s3 = (ino i s2)\<lparr>d_size := 0\<rparr>" by (simp add: 3(4) set_size_ftx)
  then have "d_type (ino i s3) = d_type (ino i s)" "d_nlink (ino i s3) = d_nlink (ino i s)" "d_size (ino i s3) = 0"
    using d(4) by (simp_all add: dinode_head_def)
  moreover have "file_blocks (ino i s3) (blks dev s3) = {}"
    using d(6) 3(6) by (auto simp: file_blocks_def set_size_ftx)
  moreover have "free_set (sb s) (blks dev s3) = free_set (sb s) (blks dev s) \<union> file_blocks (ino i s) (blks dev s)"
    using 3(7) e(2) m by (simp add: set_size_ftx file_blocks_def)
  moreover have "\<forall>b. b \<notin> bitmap_of (sb s) \<longrightarrow> b \<noteq> iblock i s \<longrightarrow> blks dev s3 b = blks dev s b"
    using 3(8) d(8) num m by (simp add: set_size_ftx iblock_def)
  ultimately show thesis using 3(2,5) by (intro that [of s3])
qed

section \<open>Giving up an inode\<close>

lemma type_apart [simp]:
  "fblk (n\<lparr>d_type := x\<rparr>) V = fblk n V" "file_blocks (n\<lparr>d_type := x\<rparr>) V = file_blocks n V"
  "file_ok S R V (n\<lparr>d_type := x\<rparr>) = file_ok S R V n"
proof -
  show f: "fblk (n\<lparr>d_type := x\<rparr>) V = fblk n V" by (simp add: fblk_def fun_eq_iff)
  show b: "file_blocks (n\<lparr>d_type := x\<rparr>) V = file_blocks n V" by (simp add: file_blocks_def f)
  show "file_ok S R V (n\<lparr>d_type := x\<rparr>) = file_ok S R V n" by (simp add: file_ok_def f b)
qed

text \<open>Fields of the inode table that are not part of the file, and the type.\<close>

lemma upd_inode_ftx:
  assumes "i_dev (g (itable s i)) = i_dev (itable s i)" and "i_num (g (itable s i)) = i_num (itable s i)"
    and "i_disk (g (itable s i)) = ino i s \<or> i_disk (g (itable s i)) = (ino i s)\<lparr>d_type := x\<rparr>"
  shows "ftx dev i X k (upd_inode i g s) = ftx dev i X k s" "blks dev (upd_inode i g s) = blks dev s"
    "sb (upd_inode i g s) = sb s" "iblock i (upd_inode i g s) = iblock i s" "tx_keeps dev H s (upd_inode i g s)"
    "file_blocks (ino i (upd_inode i g s)) V = file_blocks (ino i s) V" "itable (upd_inode i g s) i = g (itable s i)"
  using assms
  by (auto simp: upd_inode_def ftx_def fctx_def file_area_def ind_need_def balloc_ok_def layout_ok_def reserved_def iblock_def)

lemma upd_dinode_inode: "upd_dinode i f s = upd_inode i (\<lambda>n. n\<lparr>i_disk := f (i_disk n)\<rparr>) s"
  by (simp add: upd_dinode_def)

text \<open>
  C11. The last \<^verbatim>\<open>iput\<close> of a file without links deletes it. Inside an operation with room in the log it never
  panics; the blocks that become free are exactly the blocks of the file, the inode in its block is marked
  unused, the entry of the inode table is free again, and no block but the bitmap and that of the inode changes.\<close>

theorem iput_deletes:
  assumes "op_room dev s" and "fctx dev i s" and "i_ref (itable s i) = 1" and "i_valid (itable s i)"
    and "d_nlink (ino i s) = 0" and "sl_locked (i_lock (itable s i)) = 0"
  shows "\<exists>s'. iput i s = Inr s' \<and> i_ref (itable s' i) = 0 \<and> \<not> i_valid (itable s' i) \<and>
    d_type (get_dinode (blks dev s' (iblock i s)) (unat (i_num (itable s i)) mod IPB)) = 0 \<and>
    free_set (sb s) (blks dev s') = free_set (sb s) (blks dev s) \<union> file_blocks (ino i s) (blks dev s) \<and>
    (\<forall>b. b \<notin> bitmap_of (sb s) \<longrightarrow> b \<noteq> iblock i s \<longrightarrow> blks dev s' b = blks dev s b)"
proof -
  define lk where "lk = (i_lock (itable s i))\<lparr>sl_locked := 1, sl_pid := curpid s\<rparr>"
  let ?s0 = "upd_inode i (\<lambda>n. n\<lparr>i_lock := lk\<rparr>) s"
  note u0 = upd_inode_ftx [of "\<lambda>n. n\<lparr>i_lock := lk\<rparr>" s i, simplified]
  have "ftx dev i {} 1 ?s0" using op_room_ftx [OF assms(1,2), of 1] by (simp add: u0)
  then obtain s1 where 1: "itrunc i ?s0 = Inr s1" "ftx dev i {} 0 s1" "tx_keeps dev {} ?s0 s1" "inode_head (itable s1 i) = inode_head (itable ?s0 i)"
    "free_set (sb ?s0) (blks dev s1) = free_set (sb ?s0) (blks dev ?s0) \<union> file_blocks (ino i ?s0) (blks dev ?s0)"
    "\<forall>b. b \<notin> bitmap_of (sb ?s0) \<longrightarrow> b \<noteq> iblock i ?s0 \<longrightarrow> blks dev s1 b = blks dev ?s0 b"
    by (rule itrunc_ok)
  let ?s1 = "upd_dinode i (\<lambda>n. n\<lparr>d_type := 0\<rparr>) s1"
  note u1 = upd_inode_ftx [of "\<lambda>n. n\<lparr>i_disk := (i_disk n)\<lparr>d_type := 0\<rparr>\<rparr>" s1 i 0, folded upd_dinode_inode, simplified]
  have "ftx dev i {} 0 ?s1" using 1(2) by (simp add: u1)
  then obtain s2 where 2: "iupdate i ?s1 = Inr s2" "ftx dev i {} 0 s2" "itable s2 = itable ?s1" "on_disk dev i s2"
    "free_set (sb ?s1) (blks dev s2) = free_set (sb ?s1) (blks dev ?s1)" "\<forall>b. b \<noteq> iblock i ?s1 \<longrightarrow> blks dev s2 b = blks dev ?s1 b" "tx_keeps dev {} ?s1 s2"
    by (rule iupdate_file)
  let ?s2 = "upd_inode i (\<lambda>n. n\<lparr>i_valid := False, i_lock := releasesleep (i_lock n)\<rparr>) s2"
  let ?s3 = "upd_inode i (\<lambda>n. n\<lparr>i_ref := i_ref n - 1\<rparr>) ?s2"
  note u2 = upd_inode_ftx [of "\<lambda>n. n\<lparr>i_valid := False, i_lock := releasesleep (i_lock n)\<rparr>" s2 i, simplified]
  note u3 = upd_inode_ftx [of "\<lambda>n. n\<lparr>i_ref := i_ref n - 1\<rparr>" ?s2 i, simplified]
  have h: "i_num (itable s1 i) = i_num (itable s i)" "i_ref (itable s1 i) = 1"
    using 1(4) assms(3) by (simp_all add: inode_head_def u0)
  have m: "sb s1 = sb s" "sb s2 = sb s" using keeps_fields(1) [OF 1(3)] keeps_fields(1) [OF 2(7)] by (simp_all add: u0 u1)
  have "acquiresleep (curpid s) (i_lock (itable s i)) = Inr lk" using assms(6) by (simp add: acquiresleep_def lk_def)
  then have "iput i s = Inr ?s3" using assms(3-5) 1(1) 2(1) by (simp add: iput_def)
  moreover have "i_ref (itable ?s3 i) = 0" "\<not> i_valid (itable ?s3 i)" using h(2) by (simp_all add: u3 u2 2(3) u1)
  moreover have ib: "iblock i s2 = iblock i s" "iblock i ?s1 = iblock i s" "i_num (itable s2 i) = i_num (itable s i)"
    by (simp_all add: iblock_def m u1 2(3) h)
  then have "d_type (get_dinode (blks dev ?s3 (iblock i s)) (unat (i_num (itable s i)) mod IPB)) = 0"
    using 2(4) by (simp add: on_disk_def u3 u2 2(3) u1)
  moreover have "free_set (sb s) (blks dev ?s3) = free_set (sb s) (blks dev s) \<union> file_blocks (ino i s) (blks dev s)"
    using 1(5) 2(5) by (simp add: u3 u2 u1 u0 m)
  moreover have "\<forall>b. b \<notin> bitmap_of (sb s) \<longrightarrow> b \<noteq> iblock i s \<longrightarrow> blks dev ?s3 b = blks dev s b"
    using 1(6) 2(6) ib(2) by (simp add: u3 u2 u1 u0)
  ultimately show ?thesis by blast
qed

theorem iput_deletes_witness:
  "\<exists>s'. iput 0 (small_fs\<lparr>itable := (\<lambda>_. small_inode\<lparr>i_lock := \<lparr>sl_locked = 0, sl_pid = 0\<rparr>, i_disk := (i_disk small_inode)\<lparr>d_nlink := 0\<rparr>\<rparr>)\<rparr>) = Inr s' \<and>
    i_ref (itable s' 0) = 0 \<and> d_type (get_dinode (blks 1 s' 32) 7) = 0"
proof -
  let ?n = "(i_disk small_inode)\<lparr>d_nlink := 0\<rparr>"
  let ?s = "small_fs\<lparr>itable := (\<lambda>_. small_inode\<lparr>i_lock := \<lparr>sl_locked = 0, sl_pid = 0\<rparr>, i_disk := ?n\<rparr>)\<rparr>"
  have r: "op_room 1 ?s" using small_fs_room by (simp add: op_room_def)
  have "fblk ?n V k = 0" for V k by (simp add: fblk_def small_inode_def NDIRECT_def)
  then have "file_ok S R V ?n" for S R V by (auto simp: file_ok_def file_blocks_def) (simp add: small_inode_def NDIRECT_def)
  then have f: "fctx 1 0 ?s"
    using small_fs_ok(1) by (simp add: fctx_def balloc_ok_def layout_ok_def reserved_def small_fs_fields)
      (simp add: small_inode_def small_sb_def)
  have "iblock 0 ?s = 32" by (simp add: iblock_def IBLOCK_def small_fs_fields small_sb_def small_inode_def IPB_def BSIZE_def)
  then show ?thesis using iput_deletes [OF r f] by (auto simp: small_inode_def IPB_def BSIZE_def)
qed

section \<open>Reading an inode back\<close>

lemma ilock_loads:
  assumes "tx_inv dev {} s" and "i_dev (itable s j) = dev" and "\<not> i_valid (itable s j)" and "1 \<le> i_ref (itable s j)"
    and "sl_locked (i_lock (itable s j)) = 0"
    and "get_dinode (blks dev s (iblock j s)) (unat (i_num (itable s j)) mod IPB) = n" and "d_type n \<noteq> 0"
  obtains s' where "ilock j s = Inr s'" and "ino j s' = n" and "i_valid (itable s' j)" and "blks dev s' = blks dev s"
    and "holdingsleep (curpid s) (i_lock (itable s' j))"
proof -
  define lk where "lk = (i_lock (itable s j))\<lparr>sl_locked := 1, sl_pid := curpid s\<rparr>"
  let ?s0 = "upd_inode j (\<lambda>n. n\<lparr>i_lock := lk\<rparr>) s"
  have s0: "?s0 = s\<lparr>itable := (itable s)(j := (itable s j)\<lparr>i_lock := lk\<rparr>)\<rparr>" by (simp add: upd_inode_def)
  have tx: "tx_inv dev {} ?s0" using assms(1) by (simp add: s0)
  have room: "tx_room {} (iblock j s) ?s0" using tx by (intro tx_room_empty) (auto simp: tx_inv_def LOGSIZE_def NBUF_def)
  obtain b s1 where 1: "bread dev (iblock j s) ?s0 = Inr (b, s1)" "tx_inv dev {iblock j s} s1" "bframe ?s0 s1"
    "slot dev s1 (iblock j s) = Some b" "blks dev s1 = blks dev ?s0" "disk s1 = disk ?s0" "get_data b s1 = blks dev ?s0 (iblock j s)"
    "log_blocks s1 = log_blocks ?s0"
    by (rule tx_bread [OF tx _ room]) simp_all
  have t1: "itable s1 = (itable s)(j := (itable s j)\<lparr>i_lock := lk\<rparr>)" using bframe_fs(2) [OF 1(3)] by (simp add: s0)
  let ?s1 = "upd_inode j (\<lambda>x. x\<lparr>i_disk := n\<rparr>) s1"
  have s1: "?s1 = s1\<lparr>itable := (itable s)(j := (itable s j)\<lparr>i_lock := lk, i_disk := n\<rparr>)\<rparr>" by (simp add: upd_inode_def t1)
  have "iblock j s \<in> set (log_blocks s1) \<or> blks dev s1 (iblock j s) = disk s1 (iblock j s)"
    using bcache.unreferenced [of dev ?s0 "iblock j s"] tx by (auto simp: tx_inv_def 1)
  then obtain s2 where 2: "brelse b ?s1 = Inr s2" "bframe ?s1 s2" "blks dev s2 = blks dev ?s1"
    using tx_brelse [of dev "{iblock j s}" ?s1 "iblock j s" b] 1(2,4) by (auto simp: s1)
  have t2: "itable s2 = itable ?s1" by (rule bframe_fs(2) [OF 2(2)])
  let ?s2 = "upd_inode j (\<lambda>n. n\<lparr>i_valid := True\<rparr>) s2"
  have "acquiresleep (curpid s) (i_lock (itable s j)) = Inr lk" using assms(5) by (simp add: acquiresleep_def lk_def)
  then have "ilock j s = Inr ?s2"
    using assms(2-4,6,7) 1(1,7) 2(1) by (simp add: ilock_def Let_def s0 iblock_def t2) (simp add: s1 t2 upd_inode_def)
  then show thesis
    using 1(5) 2(3) by (intro that [of ?s2]) (simp_all add: upd_inode_def t2 s0 t1 holdingsleep_def lk_def)
qed

text \<open>
  C27. What \<^verbatim>\<open>iupdate\<close> stores is what \<^verbatim>\<open>ilock\<close> loads. After \<^verbatim>\<open>iupdate\<close> of a file, whatever has become of the inode
  table since, \<^verbatim>\<open>ilock\<close> of an entry for the same inode that is not valid yet loads exactly the inode that was in
  memory: type, device numbers, links, size and all thirteen block numbers; it changes no block.\<close>

theorem iupdate_ilock_roundtrip:
  assumes "op_room dev s" and "fctx dev i s" and "d_type (ino i s) \<noteq> 0" and "i_dev x = dev" and "i_num x = i_num (itable s i)"
    and "\<not> i_valid x" and "1 \<le> i_ref x" and "sl_locked (i_lock x) = 0"
  shows "\<exists>s' s''. iupdate i s = Inr s' \<and> ilock j (s'\<lparr>itable := t(j := x)\<rparr>) = Inr s'' \<and> ino j s'' = ino i s \<and>
    i_valid (itable s'' j) \<and> blks dev s'' = blks dev s'"
proof -
  have "ftx dev i {} 0 s" by (rule op_room_ftx [OF assms(1,2)]) simp
  then obtain s' where s': "iupdate i s = Inr s'" "ftx dev i {} 0 s'" "tx_keeps dev {} s s'" "itable s' = itable s" "on_disk dev i s'"
    by (rule iupdate_file)
  let ?t = "s'\<lparr>itable := t(j := x)\<rparr>"
  have tx: "tx_inv dev {} ?t" using s'(2) by (simp add: ftx_def txn_def)
  have "iblock j ?t = iblock i s'" using assms(5) s'(4) by (simp add: iblock_def)
  then have "get_dinode (blks dev ?t (iblock j ?t)) (unat (i_num (itable ?t j)) mod IPB) = ino i s"
    using s'(4,5) assms(5) by (simp add: on_disk_def)
  then obtain s'' where "ilock j ?t = Inr s''" "ino j s'' = ino i s" "i_valid (itable s'' j)" "blks dev s'' = blks dev ?t"
    using assms(3-8) by (rule_tac ilock_loads [OF tx, of j "ino i s"]) auto
  then show ?thesis using s'(1) by auto
qed

theorem iupdate_ilock_roundtrip_witness:
  "\<exists>s' s''. iupdate 0 small_fs = Inr s' \<and>
    ilock 1 (s'\<lparr>itable := (\<lambda>_. small_inode)(1 := small_inode\<lparr>i_valid := False, i_lock := \<lparr>sl_locked = 0, sl_pid = 0\<rparr>\<rparr>)\<rparr>) = Inr s'' \<and>
    i_disk (itable s'' 1) = i_disk small_inode"
proof -
  have f: "fctx 1 0 small_fs" using small_file by (simp add: holds_def)
  have "d_type (i_disk small_inode) \<noteq> 0" "i_dev small_inode = 1" "i_ref small_inode = 1" by (simp_all add: small_inode_def T_FILE_def)
  then show ?thesis
    using iupdate_ilock_roundtrip [OF small_fs_room f, of "small_inode\<lparr>i_valid := False, i_lock := \<lparr>sl_locked = 0, sl_pid = 0\<rparr>\<rparr>" 1 "\<lambda>_. small_inode"]
    by (auto simp: small_fs_fields)
qed

end
