(* ===== verification/Xv6_Virtio.thy ===== *)
theory Xv6_Virtio
  imports Xv6_Bio Xv6_Ring
begin

text \<open>
  The disk driver, \<^verbatim>\<open>kernel/virtio_disk.c\<close>, over the structures of \<^verbatim>\<open>kernel/virtio.h\<close>. The
  descriptor table, the two rings and the driver's own bookkeeping are fields of one record; a DMA
  address names what it points to (a request header, the data of a buffer, a status byte). The
  calls of \<^verbatim>\<open>virtio_disk_rw\<close> are threads: each runs under \<^verbatim>\<open>vdisk_lock\<close> from one \<^verbatim>\<open>sleep\<close> to the
  next, so the function is given as the two sections between its sleeps, and the program counter of
  a thread says where it sleeps or may go on. The iterations of the loop of \<^verbatim>\<open>virtio_disk_intr\<close> are
  single steps, because the device adds entries while the loop runs. The device registers that
  \<^verbatim>\<open>virtio_disk_init\<close> reads are a parameter.
\<close>

section \<open>State\<close>

definition NUM :: nat where "NUM = 8"
definition VRING_DESC_F_NEXT :: u16 where "VRING_DESC_F_NEXT = 1"
definition VRING_DESC_F_WRITE :: u16 where "VRING_DESC_F_WRITE = 2"
definition VIRTIO_BLK_T_IN :: u32 where "VIRTIO_BLK_T_IN = 0"
definition VIRTIO_BLK_T_OUT :: u32 where "VIRTIO_BLK_T_OUT = 1"

datatype dma_addr = DNull | DOp nat | DData nat | DStatus nat

record virtq_desc =
  d_addr :: dma_addr
  d_len :: u32
  d_flags :: u16
  d_next :: u16

record virtio_blk_req =
  r_type :: u32
  r_reserved :: u32
  r_sector :: u64

text \<open>The fields of \<^verbatim>\<open>struct buf\<close> that the driver and the device use.\<close>

record dbuf =
  vb_disk :: bool
  vb_blockno :: u32
  vb_data :: "byte list"

text \<open>
  \<open>VTry b w\<close>: a call of \<^verbatim>\<open>virtio_disk_rw(b, w)\<close> before the allocation of its descriptors;
  \<open>VSleepFree b w\<close>: asleep on \<^verbatim>\<open>&disk.free[0]\<close>; \<open>VWait z b w h\<close>: in the loop that waits for the
  chain with head \<open>h\<close>, asleep on \<^verbatim>\<open>b\<close> when \<open>z\<close>.
\<close>

datatype vpc = VIdle | VTry nat bool | VSleepFree nat bool | VWait bool nat bool nat

datatype vchan = ChFree | ChBuf nat

record vdisk =
  q_desc :: u64
  q_avail :: u64
  q_used :: u64
  desc :: "nat \<Rightarrow> virtq_desc"
  avail_idx :: u16
  avail_ring :: "u16 list"
  used_dev :: u16
  used_ring :: "u32 list"
  dfree :: "nat \<Rightarrow> bool"
  used_idx :: u16
  info_b :: "nat \<Rightarrow> nat option"
  info_status :: "nat \<Rightarrow> byte"
  vops :: "nat \<Rightarrow> virtio_blk_req"
  vbuf :: "nat \<Rightarrow> dbuf"
  in_intr :: bool
  vthr :: "nat \<Rightarrow> vpc"
  notified :: bool
  isr :: u32
  dev_last :: u16
  dev_todo :: "nat list"
  dev_done :: "nat list"
  sectors :: "u64 \<Rightarrow> byte list"
  dev_writes :: "(u64 \<times> byte list) list"

definition vwakeup :: "vchan \<Rightarrow> vdisk \<Rightarrow> vdisk" where
  "vwakeup c s = s\<lparr>vthr := (\<lambda>t. case vthr s t of
       VSleepFree b w \<Rightarrow> if c = ChFree then VTry b w else VSleepFree b w
     | VWait z b w h \<Rightarrow> if c = ChBuf b then VWait False b w h else VWait z b w h
     | p \<Rightarrow> p)\<rparr>"

definition set_vthr :: "nat \<Rightarrow> vpc \<Rightarrow> vdisk \<Rightarrow> vdisk" where
  "set_vthr t p s = s\<lparr>vthr := (vthr s)(t := p)\<rparr>"

definition upd_desc :: "nat \<Rightarrow> (virtq_desc \<Rightarrow> virtq_desc) \<Rightarrow> vdisk \<Rightarrow> vdisk" where
  "upd_desc i f s = s\<lparr>desc := (desc s)(i := f (desc s i))\<rparr>"

section \<open>Descriptors\<close>

definition alloc_desc :: "vdisk \<Rightarrow> nat option \<times> vdisk" where
  "alloc_desc s =
     (case find (dfree s) [0..<NUM] of
        Some i \<Rightarrow> (Some i, s\<lparr>dfree := (dfree s)(i := False)\<rparr>)
      | None \<Rightarrow> (None, s))"

definition free_desc :: "nat \<Rightarrow> vdisk \<Rightarrow> vdisk kres" where
  "free_desc i s =
     (if NUM \<le> i then Inl (Panic ''free_desc 1'')
      else if dfree s i then Inl (Panic ''free_desc 2'')
      else let s = upd_desc i (\<lambda>d. d\<lparr>d_addr := DNull, d_len := 0, d_flags := 0, d_next := 0\<rparr>) s;
               s = s\<lparr>dfree := (dfree s)(i := True)\<rparr>
           in Inr (vwakeup ChFree s))"

lemma vwakeup_fields [simp]:
  "dfree (vwakeup c s) = dfree s" "desc (vwakeup c s) = desc s" "info_b (vwakeup c s) = info_b s"
  "info_status (vwakeup c s) = info_status s" "vops (vwakeup c s) = vops s" "vbuf (vwakeup c s) = vbuf s"
  "in_intr (vwakeup c s) = in_intr s" "avail_idx (vwakeup c s) = avail_idx s"
  "avail_ring (vwakeup c s) = avail_ring s" "used_dev (vwakeup c s) = used_dev s"
  "used_ring (vwakeup c s) = used_ring s" "used_idx (vwakeup c s) = used_idx s"
  "notified (vwakeup c s) = notified s" "isr (vwakeup c s) = isr s" "dev_last (vwakeup c s) = dev_last s"
  "dev_todo (vwakeup c s) = dev_todo s" "dev_done (vwakeup c s) = dev_done s"
  "sectors (vwakeup c s) = sectors s" "dev_writes (vwakeup c s) = dev_writes s"
  by (simp_all add: vwakeup_def)

definition busy_desc :: "vdisk \<Rightarrow> nat set" where
  "busy_desc s = {i. i < NUM \<and> \<not> dfree s i}"

lemma finite_busy_desc [simp]: "finite (busy_desc s)"
  by (simp add: busy_desc_def)

lemma free_desc_busy:
  assumes "free_desc i s = Inr s'"
  shows "i \<in> busy_desc s" and "busy_desc s' = busy_desc s - {i}"
  using assms by (auto simp: free_desc_def busy_desc_def upd_desc_def Let_def split: if_splits)

text \<open>The loop frees one more descriptor in every round, so it ends after at most \<open>NUM\<close> rounds.\<close>

function free_chain :: "nat \<Rightarrow> vdisk \<Rightarrow> vdisk kres" where
  "free_chain i s =
     (let flag = d_flags (desc s i); nxt = d_next (desc s i)
      in case free_desc i s of
           Inl e \<Rightarrow> Inl e
         | Inr s \<Rightarrow> if flag AND VRING_DESC_F_NEXT \<noteq> 0 then free_chain (unat nxt) s else Inr s)"
  by pat_completeness auto

termination
proof (relation "measure (\<lambda>(i, s). card (busy_desc s))")
  fix i s flag nxt s'
  assume "free_desc i s = Inr (s' :: vdisk)"
  then have "card (busy_desc s') < card (busy_desc s)"
    using free_desc_busy [of i s s'] finite_busy_desc [of s] by (simp only: card_Diff1_less)
  then show "((unat (nxt :: u16), s'), (i, s)) \<in> measure (\<lambda>(i, s). card (busy_desc s))" by simp
qed simp

declare free_chain.simps [simp del]

primrec free_all :: "nat list \<Rightarrow> vdisk \<Rightarrow> vdisk kres" where
  "free_all [] s = Inr s"
| "free_all (i # is) s = kbind (free_desc i s) (free_all is)"

primrec alloc_loop :: "nat \<Rightarrow> nat list \<Rightarrow> vdisk \<Rightarrow> (nat list option \<times> vdisk) kres" where
  "alloc_loop 0 idx s = Inr (Some idx, s)"
| "alloc_loop (Suc k) idx s =
     (case alloc_desc s of
        (Some d, s) \<Rightarrow> alloc_loop k (idx @ [d]) s
      | (None, s) \<Rightarrow> kbind (free_all idx s) (\<lambda>s. Inr (None, s)))"

definition alloc3_desc :: "vdisk \<Rightarrow> (nat list option \<times> vdisk) kres" where
  "alloc3_desc s = alloc_loop 3 [] s"

section \<open>Reads and writes\<close>

text \<open>From the formatting of the three descriptors to the notification of the device.\<close>

definition rw_submit :: "nat \<Rightarrow> bool \<Rightarrow> nat list \<Rightarrow> vdisk \<Rightarrow> vdisk" where
  "rw_submit b write idx s =
     (let sector = ucast (vb_blockno (vbuf s b) * of_nat (BSIZE div 512));
          i0 = idx ! 0; i1 = idx ! 1; i2 = idx ! 2;
          s = s\<lparr>vops := (vops s)(i0 := \<lparr>r_type = (if write then VIRTIO_BLK_T_OUT else VIRTIO_BLK_T_IN),
                                       r_reserved = 0, r_sector = sector\<rparr>)\<rparr>;
          s = upd_desc i0 (\<lambda>d. \<lparr>d_addr = DOp i0, d_len = 16, d_flags = VRING_DESC_F_NEXT, d_next = of_nat i1\<rparr>) s;
          s = upd_desc i1 (\<lambda>d. d\<lparr>d_addr := DData b, d_len := of_nat BSIZE\<rparr>) s;
          s = upd_desc i1 (\<lambda>d. d\<lparr>d_flags := if write then 0 else VRING_DESC_F_WRITE\<rparr>) s;
          s = upd_desc i1 (\<lambda>d. d\<lparr>d_flags := d_flags d OR VRING_DESC_F_NEXT, d_next := of_nat i2\<rparr>) s;
          s = s\<lparr>info_status := (info_status s)(i0 := 0xff)\<rparr>;
          s = upd_desc i2 (\<lambda>d. \<lparr>d_addr = DStatus i0, d_len = 1, d_flags = VRING_DESC_F_WRITE, d_next = 0\<rparr>) s;
          s = s\<lparr>vbuf := (vbuf s)(b := (vbuf s b)\<lparr>vb_disk := True\<rparr>)\<rparr>;
          s = s\<lparr>info_b := (info_b s)(i0 := Some b)\<rparr>;
          s = s\<lparr>avail_ring := (avail_ring s)[unat (avail_idx s) mod NUM := of_nat i0]\<rparr>;
          s = s\<lparr>avail_idx := avail_idx s + 1\<rparr>
      in s\<lparr>notified := True\<rparr>)"

text \<open>The loop that waits for the interrupt handler, up to its next \<^verbatim>\<open>sleep\<close>, and what follows it.\<close>

definition rw_wait :: "nat \<Rightarrow> nat \<Rightarrow> bool \<Rightarrow> nat \<Rightarrow> vdisk \<Rightarrow> vdisk kres" where
  "rw_wait t b write h s =
     (if vb_disk (vbuf s b) then Inr (set_vthr t (VWait True b write h) s)
      else kbind (free_chain h (s\<lparr>info_b := (info_b s)(h := None)\<rparr>)) (\<lambda>s. Inr (set_vthr t VIdle s)))"

text \<open>The loop that allocates the descriptors, up to its next \<^verbatim>\<open>sleep\<close>, and what follows it.\<close>

definition rw_try :: "nat \<Rightarrow> nat \<Rightarrow> bool \<Rightarrow> vdisk \<Rightarrow> vdisk kres" where
  "rw_try t b write s =
     kbind (alloc3_desc s) (\<lambda>(r, s).
       case r of
         None \<Rightarrow> Inr (set_vthr t (VSleepFree b write) s)
       | Some idx \<Rightarrow> rw_wait t b write (idx ! 0) (rw_submit b write idx s))"

section \<open>Interrupts\<close>

text \<open>\<^verbatim>\<open>virtio_disk_intr\<close> up to its loop: the lock is taken and the interrupt acknowledged.\<close>

definition intr_enter :: "vdisk \<Rightarrow> vdisk" where
  "intr_enter s = s\<lparr>isr := isr s AND NOT (isr s AND 3), in_intr := True\<rparr>"

text \<open>One iteration of the loop, whose condition \<^verbatim>\<open>disk.used_idx != disk.used->idx\<close> holds.\<close>

definition intr_iter :: "vdisk \<Rightarrow> vdisk kres" where
  "intr_iter s =
     (let i = unat (used_ring s ! (unat (used_idx s) mod NUM))
      in if NUM \<le> i then Inl Undefined
         else if info_status s i \<noteq> 0 then Inl (Panic ''virtio_disk_intr status'')
         else case info_b s i of
                None \<Rightarrow> Inl Undefined
              | Some b \<Rightarrow>
                  (let s = s\<lparr>vbuf := (vbuf s)(b := (vbuf s b)\<lparr>vb_disk := False\<rparr>)\<rparr>;
                       s = vwakeup (ChBuf b) s
                   in Inr (s\<lparr>used_idx := used_idx s + 1\<rparr>)))"

definition intr_exit :: "vdisk \<Rightarrow> vdisk" where
  "intr_exit s = s\<lparr>in_intr := False\<rparr>"

section \<open>Initialisation\<close>

text \<open>
  \<open>rd ws r\<close> is what a read of the device register \<open>r\<close> returns after the writes \<open>ws\<close>, pairs of
  register and value in the order they were made. The result holds the writes made, the driver and
  the memory. The descriptor table and the rings are empty because their pages are zeroed.
\<close>

definition VIRTIO_MMIO_MAGIC_VALUE :: u32 where "VIRTIO_MMIO_MAGIC_VALUE = 0x000"
definition VIRTIO_MMIO_VERSION :: u32 where "VIRTIO_MMIO_VERSION = 0x004"
definition VIRTIO_MMIO_DEVICE_ID :: u32 where "VIRTIO_MMIO_DEVICE_ID = 0x008"
definition VIRTIO_MMIO_VENDOR_ID :: u32 where "VIRTIO_MMIO_VENDOR_ID = 0x00c"
definition VIRTIO_MMIO_DEVICE_FEATURES :: u32 where "VIRTIO_MMIO_DEVICE_FEATURES = 0x010"
definition VIRTIO_MMIO_DRIVER_FEATURES :: u32 where "VIRTIO_MMIO_DRIVER_FEATURES = 0x020"
definition VIRTIO_MMIO_QUEUE_SEL :: u32 where "VIRTIO_MMIO_QUEUE_SEL = 0x030"
definition VIRTIO_MMIO_QUEUE_NUM_MAX :: u32 where "VIRTIO_MMIO_QUEUE_NUM_MAX = 0x034"
definition VIRTIO_MMIO_QUEUE_NUM :: u32 where "VIRTIO_MMIO_QUEUE_NUM = 0x038"
definition VIRTIO_MMIO_QUEUE_READY :: u32 where "VIRTIO_MMIO_QUEUE_READY = 0x044"
definition VIRTIO_MMIO_STATUS :: u32 where "VIRTIO_MMIO_STATUS = 0x070"
definition VIRTIO_MMIO_QUEUE_DESC_LOW :: u32 where "VIRTIO_MMIO_QUEUE_DESC_LOW = 0x080"
definition VIRTIO_MMIO_QUEUE_DESC_HIGH :: u32 where "VIRTIO_MMIO_QUEUE_DESC_HIGH = 0x084"
definition VIRTIO_MMIO_DRIVER_DESC_LOW :: u32 where "VIRTIO_MMIO_DRIVER_DESC_LOW = 0x090"
definition VIRTIO_MMIO_DRIVER_DESC_HIGH :: u32 where "VIRTIO_MMIO_DRIVER_DESC_HIGH = 0x094"
definition VIRTIO_MMIO_DEVICE_DESC_LOW :: u32 where "VIRTIO_MMIO_DEVICE_DESC_LOW = 0x0a0"
definition VIRTIO_MMIO_DEVICE_DESC_HIGH :: u32 where "VIRTIO_MMIO_DEVICE_DESC_HIGH = 0x0a4"

definition VIRTIO_CONFIG_S_ACKNOWLEDGE :: u32 where "VIRTIO_CONFIG_S_ACKNOWLEDGE = 1"
definition VIRTIO_CONFIG_S_DRIVER :: u32 where "VIRTIO_CONFIG_S_DRIVER = 2"
definition VIRTIO_CONFIG_S_DRIVER_OK :: u32 where "VIRTIO_CONFIG_S_DRIVER_OK = 4"
definition VIRTIO_CONFIG_S_FEATURES_OK :: u32 where "VIRTIO_CONFIG_S_FEATURES_OK = 8"

lemmas virtio_mmio_defs =
  VIRTIO_MMIO_MAGIC_VALUE_def VIRTIO_MMIO_VERSION_def VIRTIO_MMIO_DEVICE_ID_def VIRTIO_MMIO_VENDOR_ID_def
  VIRTIO_MMIO_DEVICE_FEATURES_def VIRTIO_MMIO_DRIVER_FEATURES_def VIRTIO_MMIO_QUEUE_SEL_def
  VIRTIO_MMIO_QUEUE_NUM_MAX_def VIRTIO_MMIO_QUEUE_NUM_def VIRTIO_MMIO_QUEUE_READY_def VIRTIO_MMIO_STATUS_def
  VIRTIO_MMIO_QUEUE_DESC_LOW_def VIRTIO_MMIO_QUEUE_DESC_HIGH_def VIRTIO_MMIO_DRIVER_DESC_LOW_def
  VIRTIO_MMIO_DRIVER_DESC_HIGH_def VIRTIO_MMIO_DEVICE_DESC_LOW_def VIRTIO_MMIO_DEVICE_DESC_HIGH_def
  VIRTIO_CONFIG_S_ACKNOWLEDGE_def VIRTIO_CONFIG_S_DRIVER_def VIRTIO_CONFIG_S_DRIVER_OK_def
  VIRTIO_CONFIG_S_FEATURES_OK_def

text \<open>The features the driver does not want, bits 5, 7, 11, 12, 27, 29 and 28, are masked one by one.\<close>

definition negotiate :: "u32 \<Rightarrow> u32" where
  "negotiate offered = ucast (foldl (\<lambda>features i. features AND NOT (push_bit i 1)) (ucast offered :: u64)
     [5, 7, 11, 12, 27, 29, 28])"

definition init_handshake :: "((u32 \<times> u32) list \<Rightarrow> u32 \<Rightarrow> u32) \<Rightarrow> ((u32 \<times> u32) list \<times> u32) kres" where
  "init_handshake rd =
     (if rd [] VIRTIO_MMIO_MAGIC_VALUE \<noteq> 0x74726976 \<or> rd [] VIRTIO_MMIO_VERSION \<noteq> 2 \<or>
         rd [] VIRTIO_MMIO_DEVICE_ID \<noteq> 2 \<or> rd [] VIRTIO_MMIO_VENDOR_ID \<noteq> 0x554d4551
      then Inl (Panic ''could not find virtio disk'')
      else
        let status = 0; ws = [(VIRTIO_MMIO_STATUS, status)];
            status = status OR VIRTIO_CONFIG_S_ACKNOWLEDGE; ws = ws @ [(VIRTIO_MMIO_STATUS, status)];
            status = status OR VIRTIO_CONFIG_S_DRIVER; ws = ws @ [(VIRTIO_MMIO_STATUS, status)];
            features = rd ws VIRTIO_MMIO_DEVICE_FEATURES;
            ws = ws @ [(VIRTIO_MMIO_DRIVER_FEATURES, negotiate features)];
            status = status OR VIRTIO_CONFIG_S_FEATURES_OK; ws = ws @ [(VIRTIO_MMIO_STATUS, status)];
            status = rd ws VIRTIO_MMIO_STATUS
        in if status AND VIRTIO_CONFIG_S_FEATURES_OK = 0 then Inl (Panic ''virtio disk FEATURES_OK unset'')
           else
             let ws = ws @ [(VIRTIO_MMIO_QUEUE_SEL, 0)]; max = rd ws VIRTIO_MMIO_QUEUE_NUM_MAX
             in if rd ws VIRTIO_MMIO_QUEUE_READY \<noteq> 0 then Inl (Panic ''virtio disk should not be ready'')
                else if max = 0 then Inl (Panic ''virtio disk has no queue 0'')
                else if max < of_nat NUM then Inl (Panic ''virtio disk max queue too short'')
                else Inr (ws, status))"

definition virtio_disk_init ::
  "((u32 \<times> u32) list \<Rightarrow> u32 \<Rightarrow> u32) \<Rightarrow> vdisk \<Rightarrow> 'z kmem_state_scheme \<Rightarrow>
   ((u32 \<times> u32) list \<times> vdisk \<times> 'z kmem_state_scheme) kres" where
  "virtio_disk_init rd s k =
     (let s = s\<lparr>in_intr := False\<rparr>
      in kbind (init_handshake rd) (\<lambda>(ws, status).
        let (d, k) = kalloc k; (a, k) = kalloc k; (u, k) = kalloc k
        in if d = 0 \<or> a = 0 \<or> u = 0 then Inl (Panic ''virtio disk kalloc'')
           else
             let k = k\<lparr>pmem := memset (memset (memset (pmem k) d 0 4096) a 0 4096) u 0 4096\<rparr>;
                 s = s\<lparr>q_desc := d, q_avail := a, q_used := u,
                       desc := (\<lambda>_. \<lparr>d_addr = DNull, d_len = 0, d_flags = 0, d_next = 0\<rparr>),
                       avail_idx := 0, avail_ring := replicate NUM 0,
                       used_dev := 0, used_ring := replicate NUM 0\<rparr>;
                 ws = ws @ [(VIRTIO_MMIO_QUEUE_NUM, of_nat NUM),
                            (VIRTIO_MMIO_QUEUE_DESC_LOW, ucast d), (VIRTIO_MMIO_QUEUE_DESC_HIGH, ucast (drop_bit 32 d)),
                            (VIRTIO_MMIO_DRIVER_DESC_LOW, ucast a), (VIRTIO_MMIO_DRIVER_DESC_HIGH, ucast (drop_bit 32 a)),
                            (VIRTIO_MMIO_DEVICE_DESC_LOW, ucast u), (VIRTIO_MMIO_DEVICE_DESC_HIGH, ucast (drop_bit 32 u)),
                            (VIRTIO_MMIO_QUEUE_READY, 1)];
                 s = s\<lparr>dfree := (\<lambda>i. i < NUM \<or> dfree s i)\<rparr>;
                 status = status OR VIRTIO_CONFIG_S_DRIVER_OK
             in Inr (ws @ [(VIRTIO_MMIO_STATUS, status)], s, k)))"

section \<open>What the operations do\<close>

abbreviation no_desc :: virtq_desc where
  "no_desc \<equiv> \<lparr>d_addr = DNull, d_len = 0, d_flags = 0, d_next = 0\<rparr>"

definition release_desc :: "nat set \<Rightarrow> vdisk \<Rightarrow> vdisk" where
  "release_desc A s = vwakeup ChFree
     (s\<lparr>desc := (\<lambda>i. if i \<in> A then no_desc else desc s i), dfree := (\<lambda>i. i \<in> A \<or> dfree s i)\<rparr>)"

lemma vwakeup_twice: "vwakeup c (vwakeup c s) = vwakeup c s"
  by (auto simp: vwakeup_def fun_eq_iff split: vpc.splits)

lemma vwakeup_cong:
  "d = d' \<Longrightarrow> e = e' \<Longrightarrow> vwakeup c (s\<lparr>desc := d, dfree := e\<rparr>) = vwakeup c (s\<lparr>desc := d', dfree := e'\<rparr>)"
  by simp

lemma free_desc_release:
  assumes "i \<in> busy_desc s"
  shows "free_desc i s = Inr (release_desc {i} s)"
proof -
  have "free_desc i s = Inr (vwakeup ChFree (s\<lparr>desc := (desc s)(i := no_desc), dfree := (dfree s)(i := True)\<rparr>))"
    using assms by (cases "desc s i") (simp add: free_desc_def busy_desc_def upd_desc_def Let_def)
  then show ?thesis unfolding release_desc_def by (auto simp: fun_eq_iff intro!: vwakeup_cong)
qed

lemma release_desc_take: "i \<in> A \<Longrightarrow> release_desc A (s\<lparr>dfree := (dfree s)(i := False)\<rparr>) = release_desc A s"
proof -
  assume "i \<in> A"
  then have "(\<lambda>j. j \<in> A \<or> ((dfree s)(i := False)) j) = (\<lambda>j. j \<in> A \<or> dfree s j)" by auto
  then show ?thesis by (simp add: release_desc_def cong: if_cong)
qed

lemma release_desc_fields [simp]:
  "desc (release_desc A s) i = (if i \<in> A then no_desc else desc s i)"
  "dfree (release_desc A s) i \<longleftrightarrow> i \<in> A \<or> dfree s i"
  "busy_desc (release_desc A s) = busy_desc s - A"
  by (auto simp: release_desc_def busy_desc_def)

lemma release_desc_Un: "release_desc A (release_desc B s) = release_desc (A \<union> B) s"
proof -
  let ?d = "\<lambda>i. if i \<in> A then no_desc else if i \<in> B then no_desc else desc s i"
    and ?e = "\<lambda>i. i \<in> A \<or> i \<in> B \<or> dfree s i"
  have "release_desc A (release_desc B s) = vwakeup ChFree (vwakeup ChFree (s\<lparr>desc := ?d, dfree := ?e\<rparr>))"
    by (simp add: release_desc_def vwakeup_def cong: if_cong)
  then show ?thesis unfolding vwakeup_twice release_desc_def by (auto simp: fun_eq_iff intro!: vwakeup_cong)
qed

text \<open>A chain of three descriptors is freed as a whole.\<close>

lemma free_chain_three:
  assumes "{i, j, k} \<subseteq> busy_desc s" and "distinct [i, j, k]"
    and "d_flags (desc s i) AND VRING_DESC_F_NEXT \<noteq> 0" and "unat (d_next (desc s i)) = j"
    and "d_flags (desc s j) AND VRING_DESC_F_NEXT \<noteq> 0" and "unat (d_next (desc s j)) = k"
    and "d_flags (desc s k) AND VRING_DESC_F_NEXT = 0"
  shows "free_chain i s = Inr (release_desc {i, j, k} s)"
proof -
  let ?s1 = "release_desc {i} s" and ?s2 = "release_desc {j} (release_desc {i} s)"
  have "free_chain i s = free_chain j ?s1"
    using assms by (subst free_chain.simps) (simp add: Let_def free_desc_release)
  also have "\<dots> = free_chain k ?s2"
    using assms by (subst free_chain.simps) (simp add: Let_def free_desc_release)
  also have "\<dots> = Inr (release_desc {k} ?s2)"
    using assms by (subst free_chain.simps) (simp add: Let_def free_desc_release)
  finally show ?thesis by (simp add: release_desc_Un insert_commute)
qed

lemma alloc_desc_cases:
  obtains (some) i where "i < NUM" "dfree s i" "alloc_desc s = (Some i, s\<lparr>dfree := (dfree s)(i := False)\<rparr>)"
  | (none) "busy_desc s = {..<NUM}" "alloc_desc s = (None, s)"
proof (cases "find (dfree s) [0..<NUM]")
  case None
  then have "busy_desc s = {..<NUM}" by (auto simp: find_None_iff busy_desc_def)
  then show ?thesis using none None by (simp add: alloc_desc_def)
next
  case (Some i)
  then have "i < NUM" "dfree s i" by (auto simp: find_Some_iff)
  then show ?thesis using some Some by (simp add: alloc_desc_def)
qed

text \<open>
  \<^verbatim>\<open>alloc3_desc\<close> takes three descriptors, or gives back what it took and wakes the sleepers.
\<close>

lemma busy_desc_take: "i < NUM \<Longrightarrow> busy_desc (s\<lparr>dfree := (dfree s)(i := False)\<rparr>) = insert i (busy_desc s)"
  by (auto simp: busy_desc_def)

lemma alloc3_desc_cases:
  obtains (some) i j k where "{i, j, k} \<subseteq> {..<NUM} - busy_desc s" "distinct [i, j, k]"
      "alloc3_desc s = Inr (Some [i, j, k], s\<lparr>dfree := (dfree s)(i := False, j := False, k := False)\<rparr>)"
  | (none) A where "A \<subseteq> {..<NUM} - busy_desc s" "NUM < card (busy_desc s) + 3"
      "alloc3_desc s = Inr (None, if A = {} then s else release_desc A s)"
proof (cases rule: alloc_desc_cases [of s])
  case none
  then show ?thesis using that(2) [of "{}"] by (simp add: alloc3_desc_def numeral_3_eq_3)
next
  case (some i)
  let ?s1 = "s\<lparr>dfree := (dfree s)(i := False)\<rparr>"
  have b1: "busy_desc ?s1 = insert i (busy_desc s)" using some(1) by (rule busy_desc_take)
  show ?thesis
  proof (cases rule: alloc_desc_cases [of ?s1])
    case none
    then have "NUM \<le> Suc (card (busy_desc s))" using b1 by (metis card_insert_le_m1 card_insert_if card_lessThan finite_busy_desc le_SucI order_refl)
    moreover have "release_desc {i} ?s1 = release_desc {i} s" by (simp add: release_desc_take)
    moreover have "i \<in> busy_desc ?s1" by (simp add: b1)
    ultimately show ?thesis using that(2) [of "{i}"] none some
      by (simp add: alloc3_desc_def numeral_3_eq_3 free_desc_release busy_desc_def)
  next
    case j: (some j)
    let ?s2 = "s\<lparr>dfree := (dfree s)(i := False, j := False)\<rparr>"
    have b2: "busy_desc ?s2 = insert j (insert i (busy_desc s))" using busy_desc_take [OF j(1), of ?s1] b1 by simp
    have ij: "i \<noteq> j" "dfree s j" using j(2) by (auto split: if_splits)
    show ?thesis
    proof (cases rule: alloc_desc_cases [of ?s2])
      case none
      then have "NUM \<le> Suc (Suc (card (busy_desc s)))" using b2
        by (metis Suc_le_mono card_insert_if card_lessThan finite_busy_desc finite_insert le_SucI order_refl)
      moreover have "release_desc {j, i} ?s2 = release_desc {j, i} s"
        using release_desc_take [of j "{j, i}" ?s1] release_desc_take [of i "{j, i}" s] by simp
      moreover have "i \<in> busy_desc ?s2" "j \<in> busy_desc (release_desc {i} ?s2)" using ij by (auto simp: b2)
      ultimately show ?thesis using that(2) [of "{j, i}"] none some j ij
        by (simp add: alloc3_desc_def numeral_3_eq_3 free_desc_release busy_desc_def release_desc_Un insert_commute)
    next
      case k: (some k)
      then have "k \<noteq> i" "k \<noteq> j" "dfree s k" by (auto split: if_splits)
      then show ?thesis using that(1) [of i j k] some j k ij
        by (simp add: alloc3_desc_def numeral_3_eq_3 busy_desc_def)
    qed
  qed
qed

end
