(* ===== verification/Xv6_Vdisk.thy ===== *)
theory Xv6_Vdisk
  imports Xv6_Virtio
begin

text \<open>
  The disk driver running against a virtio block device. The device is a relation \<open>D\<close> on states of
  which only the documented behaviour is assumed (\<open>follows_virtio\<close>): it fetches the heads of chains
  from the available ring in order, carries well-formed requests out in any order, publishes their
  completion in the used ring in any order and raises its interrupt. The system \<open>vstep\<close> interleaves
  the device with any number of threads in \<^verbatim>\<open>virtio_disk_rw\<close> and with the interrupt handler. It
  refines the disk the buffer cache is modelled over: each call is served exactly once, between its
  start and its return, by \<^const>\<open>virtio_disk_rw\<close>.
\<close>

section \<open>The device\<close>

definition read_sectors :: "nat \<Rightarrow> u64 \<Rightarrow> (u64 \<Rightarrow> byte list) \<Rightarrow> byte list" where
  "read_sectors n sec f = concat (map (\<lambda>k. f (sec + of_nat k)) [0..<n])"

definition write_sectors :: "nat \<Rightarrow> u64 \<Rightarrow> byte list \<Rightarrow> (u64 \<Rightarrow> byte list) \<Rightarrow> u64 \<Rightarrow> byte list" where
  "write_sectors n sec d f x =
     (if unat (x - sec) < n then take 512 (drop (512 * unat (x - sec)) d) else f x)"

text \<open>A request as the specification of virtio block devices wants it.\<close>

definition well_formed :: "vdisk \<Rightarrow> nat \<Rightarrow> bool" where
  "well_formed s h =
     (let d0 = desc s h; d1 = desc s (unat (d_next d0)); d2 = desc s (unat (d_next d1))
      in h < NUM \<and> unat (d_next d0) < NUM \<and> unat (d_next d1) < NUM \<and>
         (case (d_addr d0, d_addr d1, d_addr d2) of
            (DOp i, DData b, DStatus j) \<Rightarrow>
              d_flags d0 = VRING_DESC_F_NEXT \<and> d_len d0 = 16 \<and>
              d_flags d2 = VRING_DESC_F_WRITE \<and> d_len d2 = 1 \<and>
              r_reserved (vops s i) = 0 \<and>
              (r_type (vops s i) = VIRTIO_BLK_T_OUT \<and> d_flags d1 = VRING_DESC_F_NEXT \<or>
               r_type (vops s i) = VIRTIO_BLK_T_IN \<and> d_flags d1 = VRING_DESC_F_NEXT OR VRING_DESC_F_WRITE) \<and>
              unat (d_len d1) mod 512 = 0 \<and> unat (d_len d1) = length (vb_data (vbuf s b))
          | _ \<Rightarrow> False))"

definition dev_fetch :: "vdisk \<Rightarrow> vdisk" where
  "dev_fetch s = s\<lparr>dev_last := dev_last s + 1,
                   dev_todo := dev_todo s @ [unat (avail_ring s ! (unat (dev_last s) mod NUM))]\<rparr>"

definition dev_perform :: "nat \<Rightarrow> vdisk \<Rightarrow> vdisk" where
  "dev_perform h s =
     (let d0 = desc s h; d1 = desc s (unat (d_next d0)); d2 = desc s (unat (d_next d1));
          n = unat (d_len d1) div 512
      in case (d_addr d0, d_addr d1, d_addr d2) of
           (DOp i, DData b, DStatus j) \<Rightarrow>
             (let sec = r_sector (vops s i);
                  s = (if r_type (vops s i) = VIRTIO_BLK_T_OUT
                       then s\<lparr>sectors := write_sectors n sec (vb_data (vbuf s b)) (sectors s),
                              dev_writes := dev_writes s @ [(sec, vb_data (vbuf s b))]\<rparr>
                       else s\<lparr>vbuf := (vbuf s)(b := (vbuf s b)\<lparr>vb_data := read_sectors n sec (sectors s)\<rparr>)\<rparr>)
              in s\<lparr>info_status := (info_status s)(j := 0),
                   dev_todo := remove1 h (dev_todo s), dev_done := h # dev_done s\<rparr>)
         | _ \<Rightarrow> s)"

definition dev_publish :: "nat \<Rightarrow> vdisk \<Rightarrow> vdisk" where
  "dev_publish h s =
     s\<lparr>dev_done := remove1 h (dev_done s),
       used_ring := (used_ring s)[unat (used_dev s) mod NUM := of_nat h],
       used_dev := used_dev s + 1, isr := isr s OR 1\<rparr>"

inductive dev_step :: "vdisk \<Rightarrow> vdisk \<Rightarrow> bool" where
  fetch: "dev_last s \<noteq> avail_idx s \<Longrightarrow> dev_step s (dev_fetch s)"
| perform: "h \<in> set (dev_todo s) \<Longrightarrow> dev_step s (dev_perform h s)"
| publish: "h \<in> set (dev_done s) \<Longrightarrow> dev_step s (dev_publish h s)"
| config: "dev_step s (s\<lparr>isr := isr s OR 2\<rparr>)"
| quiet: "dev_last s = avail_idx s \<Longrightarrow> dev_step s (s\<lparr>notified := False\<rparr>)"

text \<open>While all the requests it has fetched are well-formed, the device does what is documented.\<close>

definition follows_virtio :: "(vdisk \<Rightarrow> vdisk \<Rightarrow> bool) \<Rightarrow> bool" where
  "follows_virtio D \<longleftrightarrow> (\<forall>s s'. D s s' \<and> (\<forall>h\<in>set (dev_todo s). well_formed s h) \<longrightarrow> dev_step s s')"

section \<open>The system\<close>

fun uses :: "vpc \<Rightarrow> nat option" where
  "uses VIdle = None"
| "uses (VTry b w) = Some b"
| "uses (VSleepFree b w) = Some b"
| "uses (VWait z b w h) = Some b"

text \<open>
  A caller holds the sleep lock of the buffer it passes, so no other call has the buffer, and the
  caller may have set the block number and the content before the call.
\<close>

inductive vstep :: "(vdisk \<Rightarrow> vdisk \<Rightarrow> bool) \<Rightarrow> vdisk \<Rightarrow> vdisk \<Rightarrow> bool" for D where
  call: "vthr s t = VIdle \<Longrightarrow> \<forall>t. uses (vthr s t) \<noteq> Some b \<Longrightarrow> n < 2 ^ 31 \<Longrightarrow> length d = BSIZE \<Longrightarrow>
     vstep D s (set_vthr t (VTry b w)
       (s\<lparr>vbuf := (vbuf s)(b := (vbuf s b)\<lparr>vb_blockno := n, vb_data := d\<rparr>)\<rparr>))"
| attempt: "vthr s t = VTry b w \<Longrightarrow> \<not> in_intr s \<Longrightarrow> rw_try t b w s = Inr s' \<Longrightarrow> vstep D s s'"
| resume: "vthr s t = VWait False b w h \<Longrightarrow> \<not> in_intr s \<Longrightarrow> rw_wait t b w h s = Inr s' \<Longrightarrow> vstep D s s'"
| enter: "isr s \<noteq> 0 \<Longrightarrow> \<not> in_intr s \<Longrightarrow> vstep D s (intr_enter s)"
| iter: "in_intr s \<Longrightarrow> used_idx s \<noteq> used_dev s \<Longrightarrow> intr_iter s = Inr s' \<Longrightarrow> vstep D s s'"
| leave: "in_intr s \<Longrightarrow> used_idx s = used_dev s \<Longrightarrow> vstep D s (intr_exit s)"
| device: "D s s' \<Longrightarrow> vstep D s s'"

section \<open>The invariant\<close>

definition availq :: "vdisk \<Rightarrow> nat list" where
  "availq s = map unat (ring NUM (avail_ring s) (dev_last s) (avail_idx s))"

definition usedq :: "vdisk \<Rightarrow> nat list" where
  "usedq s = map unat (ring NUM (used_ring s) (used_idx s) (used_dev s))"

definition pending :: "vdisk \<Rightarrow> nat list" where
  "pending s = availq s @ dev_todo s"

definition completed :: "vdisk \<Rightarrow> nat list" where
  "completed s = dev_done s @ usedq s"

definition second :: "vdisk \<Rightarrow> nat \<Rightarrow> nat" where
  "second s h = unat (d_next (desc s h))"

definition own :: "vdisk \<Rightarrow> nat \<Rightarrow> nat set" where
  "own s h = {h, second s h, second s (second s h)}"

definition the_chain :: "vdisk \<Rightarrow> nat \<Rightarrow> nat \<Rightarrow> bool \<Rightarrow> bool" where
  "the_chain s h b w \<longleftrightarrow>
     (let i = second s h; j = second s i
      in own s h \<subseteq> busy_desc s \<and> distinct [h, i, j] \<and>
         d_addr (desc s h) = DOp h \<and> d_len (desc s h) = 16 \<and> d_flags (desc s h) = VRING_DESC_F_NEXT \<and>
         d_addr (desc s i) = DData b \<and> d_len (desc s i) = of_nat BSIZE \<and>
         d_flags (desc s i) = VRING_DESC_F_NEXT OR (if w then 0 else VRING_DESC_F_WRITE) \<and>
         d_addr (desc s j) = DStatus h \<and> d_len (desc s j) = 1 \<and> d_flags (desc s j) = VRING_DESC_F_WRITE \<and>
         vops s h = \<lparr>r_type = (if w then VIRTIO_BLK_T_OUT else VIRTIO_BLK_T_IN), r_reserved = 0,
                     r_sector = ucast (vb_blockno (vbuf s b) * 2)\<rparr> \<and>
         info_b s h = Some b)"

text \<open>What holds of a call that waits for the chain \<open>h\<close>.\<close>

definition progress :: "vdisk \<Rightarrow> bool \<Rightarrow> nat \<Rightarrow> nat \<Rightarrow> bool" where
  "progress s z b h \<longleftrightarrow>
     (vb_disk (vbuf s b) \<longleftrightarrow> h \<in> set (pending s) \<union> set (completed s)) \<and>
     info_status s h = (if h \<in> set (pending s) then 0xff else 0) \<and>
     (z \<longrightarrow> vb_disk (vbuf s b))"

definition waiting :: "vdisk \<Rightarrow> bool \<Rightarrow> nat \<Rightarrow> bool \<Rightarrow> nat \<Rightarrow> bool" where
  "waiting s z b w h \<longleftrightarrow> the_chain s h b w \<and> progress s z b h"

definition calls_ok :: "vdisk \<Rightarrow> bool" where
  "calls_ok s \<longleftrightarrow>
     (\<forall>t z b w h. vthr s t = VWait z b w h \<longrightarrow> waiting s z b w h) \<and>
     (\<forall>t b. uses (vthr s t) = Some b \<longrightarrow> vb_blockno (vbuf s b) < 2 ^ 31 \<and> length (vb_data (vbuf s b)) = BSIZE) \<and>
     (\<forall>t t' b. uses (vthr s t) = Some b \<longrightarrow> uses (vthr s t') = Some b \<longrightarrow> t = t') \<and>
     (\<forall>t z b w h t' z' b' w' h'. vthr s t = VWait z b w h \<longrightarrow> vthr s t' = VWait z' b' w' h' \<longrightarrow>
        t \<noteq> t' \<longrightarrow> own s h \<inter> own s h' = {})"

definition queues_ok :: "vdisk \<Rightarrow> bool" where
  "queues_ok s \<longleftrightarrow>
     length (avail_ring s) = NUM \<and> length (used_ring s) = NUM \<and> (\<forall>x. length (sectors s x) = 512) \<and>
     distinct (pending s @ completed s) \<and>
     (\<forall>h \<in> set (pending s) \<union> set (completed s). \<exists>t z b w. vthr s t = VWait z b w h) \<and>
     (\<forall>i\<in>busy_desc s. \<exists>t z b w h. vthr s t = VWait z b w h \<and> i \<in> own s h)"

definition wakeups_ok :: "vdisk \<Rightarrow> bool" where
  "wakeups_ok s \<longleftrightarrow>
     (\<forall>t b w. vthr s t = VSleepFree b w \<longrightarrow> NUM < card (busy_desc s) + 3) \<and>
     (used_idx s \<noteq> used_dev s \<longrightarrow> isr s \<noteq> 0 \<or> in_intr s) \<and>
     (dev_last s \<noteq> avail_idx s \<longrightarrow> notified s)"

definition vinv :: "vdisk \<Rightarrow> bool" where
  "vinv s \<longleftrightarrow> calls_ok s \<and> queues_ok s \<and> wakeups_ok s"

section \<open>Frames\<close>

text \<open>Thread states that differ at most in being asleep.\<close>

fun wants :: "vpc \<Rightarrow> (nat \<times> bool) option" where
  "wants VIdle = None"
| "wants (VTry b w) = Some (b, w)"
| "wants (VSleepFree b w) = Some (b, w)"
| "wants (VWait z b w h) = Some (b, w)"

definition similar :: "vpc \<Rightarrow> vpc \<Rightarrow> bool" where
  "similar p p' \<longleftrightarrow> uses p' = uses p \<and> wants p' = wants p \<and> (\<forall>b w h. (\<exists>z. p' = VWait z b w h) \<longleftrightarrow> (\<exists>z. p = VWait z b w h))"

lemma similar_refl [simp]: "similar p p"
  by (simp add: similar_def)

lemma similar_wakeup [simp]: "similar (vthr s t) (vthr (vwakeup c s) t)"
  by (auto simp: similar_def vwakeup_def split: vpc.splits if_splits)

lemma vwakeup_sleeping: "vthr (vwakeup c s) t = VSleepFree b w \<Longrightarrow> vthr s t = VSleepFree b w \<and> c \<noteq> ChFree"
  by (cases "vthr s t") (auto simp: vwakeup_def split: if_splits)

lemma similar_trans: "similar p q \<Longrightarrow> similar q r \<Longrightarrow> similar p r"
  by (auto simp: similar_def)

lemma similarD:
  assumes "similar p p'"
  shows "uses p' = uses p" and "p' = VWait z b w h \<Longrightarrow> \<exists>z. p = VWait z b w h"
    and "p = VWait z b w h \<Longrightarrow> \<exists>z. p' = VWait z b w h" and "wants p' = wants p"
  using assms unfolding similar_def by blast+

lemma own_cong: "\<forall>i\<in>own s h. desc s' i = desc s i \<Longrightarrow> own s' h = own s h"
  by (simp add: own_def second_def)

lemma the_chain_cong:
  assumes "\<forall>i\<in>own s h. desc s' i = desc s i \<and> dfree s' i = dfree s i"
    and "vops s' h = vops s h" and "info_b s' h = info_b s h"
    and "vb_blockno (vbuf s' b) = vb_blockno (vbuf s b)"
  shows "the_chain s' h b w = the_chain s h b w"
proof -
  have "own s' h = own s h" using assms(1) by (intro own_cong) blast
  moreover have "own s h \<subseteq> busy_desc s' \<longleftrightarrow> own s h \<subseteq> busy_desc s" using assms(1) by (auto simp: busy_desc_def)
  moreover have "second s' h = second s h" "second s' (second s h) = second s (second s h)"
    using assms(1) by (simp_all add: own_def second_def)
  ultimately show ?thesis using assms by (simp add: the_chain_def own_def Let_def)
qed

lemma the_chain_own: "the_chain s h b w \<Longrightarrow> own s h \<subseteq> busy_desc s"
  by (simp add: the_chain_def Let_def)

lemma busy_less: "i \<in> busy_desc s \<Longrightarrow> i < NUM"
  by (simp add: busy_desc_def)

lemma own_self [simp]: "h \<in> own s h"
  by (simp add: own_def)

lemma calls_okD:
  assumes "calls_ok s"
  shows "vthr s t = VWait z b w h \<Longrightarrow> waiting s z b w h"
    and "uses (vthr s t) = Some b \<Longrightarrow> vb_blockno (vbuf s b) < 2 ^ 31 \<and> length (vb_data (vbuf s b)) = BSIZE"
    and "uses (vthr s t) = Some b \<Longrightarrow> uses (vthr s t') = Some b \<Longrightarrow> t = t'"
    and "vthr s t = VWait z b w h \<Longrightarrow> vthr s t' = VWait z' b' w' h' \<Longrightarrow> t \<noteq> t' \<Longrightarrow> own s h \<inter> own s h' = {}"
  using assms unfolding calls_ok_def by metis+

lemma queues_okD:
  assumes "queues_ok s"
  shows "length (avail_ring s) = NUM" "length (used_ring s) = NUM" "length (sectors s x) = 512"
    and "distinct (pending s @ completed s)"
    and "h \<in> set (pending s) \<union> set (completed s) \<Longrightarrow> \<exists>t z b w. vthr s t = VWait z b w h"
    and "i \<in> busy_desc s \<Longrightarrow> \<exists>t z b w h. vthr s t = VWait z b w h \<and> i \<in> own s h"
  using assms unfolding queues_ok_def by metis+

lemma waiting_own: "calls_ok s \<Longrightarrow> vthr s t = VWait z b w h \<Longrightarrow> own s h \<subseteq> busy_desc s"
  using the_chain_own calls_okD(1) unfolding waiting_def by metis

lemma same_head:
  assumes "calls_ok s" and "vthr s t = VWait z b w h" and "vthr s t' = VWait z' b' w' h"
  shows "t' = t" and "z' = z" and "b' = b" and "w' = w"
proof -
  have "own s h \<inter> own s h \<noteq> {}" by (auto simp: own_def)
  then show "t' = t" using calls_okD(4) [OF assms] by blast
  then show "z' = z" "b' = b" "w' = w" using assms by auto
qed

text \<open>Steps that start and end no request.\<close>

lemma frame_ok:
  assumes "calls_ok s" and "queues_ok s"
    and thr: "\<And>t. similar (vthr s t) (vthr s' t)"
    and dsc: "\<And>i. i \<in> busy_desc s \<Longrightarrow> desc s' i = desc s i"
    and same: "dfree s' = dfree s" "vops s' = vops s" "info_b s' = info_b s"
    and buf: "\<And>b. vb_blockno (vbuf s' b) = vb_blockno (vbuf s b)"
      "\<And>b. length (vb_data (vbuf s b)) = BSIZE \<Longrightarrow> length (vb_data (vbuf s' b)) = BSIZE"
    and len: "length (avail_ring s') = NUM" "length (used_ring s') = NUM" "\<And>x. length (sectors s' x) = 512"
    and dis: "distinct (pending s' @ completed s')"
    and sets: "set (pending s') \<union> set (completed s') \<subseteq> set (pending s) \<union> set (completed s)"
    and wait: "\<And>t z b w h. vthr s' t = VWait z b w h \<Longrightarrow> progress s' z b h"
  shows "calls_ok s'" and "queues_ok s'"
proof -
  have own: "own s' h = own s h" if "vthr s t = VWait z b w h" for t z b w h
    using waiting_own [OF assms(1) that] dsc by (intro own_cong) blast
  have chain: "the_chain s' h b w" if "vthr s t = VWait z b w h" for t z b w h
    using waiting_own [OF assms(1) that] dsc calls_okD(1) [OF assms(1) that] the_chain_cong [of s h s' b w] same buf(1)
    by (auto simp: waiting_def)
  have w: "waiting s' z b w h" if p: "vthr s' t = VWait z b w h" for t z b w h
  proof -
    obtain z' where t: "vthr s t = VWait z' b w h" using similarD(2) [OF thr p] by blast
    show ?thesis using chain [OF t] wait [OF p] unfolding waiting_def by blast
  qed
  show "calls_ok s'" unfolding calls_ok_def
  proof (intro conjI allI impI)
    fix t z b w h t' z' b' w' h'
    assume t: "vthr s' t = VWait z b w h" and t': "vthr s' t' = VWait z' b' w' h'" and "t \<noteq> t'"
    obtain y y' where "vthr s t = VWait y b w h" "vthr s t' = VWait y' b' w' h'"
      using similarD(2) [OF thr t] similarD(2) [OF thr t'] by blast
    then show "own s' h \<inter> own s' h' = {}" using own calls_okD(4) [OF assms(1)] \<open>t \<noteq> t'\<close> by metis
  qed (use w calls_okD [OF assms(1)] similarD(1) [OF thr] buf in metis)+
  have b: "busy_desc s' = busy_desc s" using same by (simp add: busy_desc_def)
  show "queues_ok s'" unfolding queues_ok_def
  proof (intro conjI ballI allI)
    fix h assume "h \<in> set (pending s') \<union> set (completed s')"
    then obtain t z b w where "vthr s t = VWait z b w h" using queues_okD(5) [OF assms(2)] sets by blast
    then show "\<exists>t z b w. vthr s' t = VWait z b w h" using similarD(3) [OF thr] by metis
  next
    fix i assume "i \<in> busy_desc s'"
    then obtain t z b w h where "vthr s t = VWait z b w h" "i \<in> own s h" using queues_okD(6) [OF assms(2)] b by metis
    then show "\<exists>t z b w h. vthr s' t = VWait z b w h \<and> i \<in> own s' h" using similarD(3) [OF thr] own by metis
  qed (use len dis in auto)
qed

lemma waitingD:
  assumes "calls_ok s" and "vthr s t = VWait z b w h"
  shows "the_chain s h b w" and "progress s z b h"
    and "vb_disk (vbuf s b) \<longleftrightarrow> h \<in> set (pending s) \<union> set (completed s)"
    and "info_status s h = (if h \<in> set (pending s) then 0xff else 0)"
    and "z \<Longrightarrow> vb_disk (vbuf s b)"
  using calls_okD(1) [OF assms] unfolding waiting_def progress_def by blast+

lemma frame_same:
  assumes "calls_ok s" and "queues_ok s" and "vthr s' = vthr s" and "desc s' = desc s" and "dfree s' = dfree s"
    and "vops s' = vops s" and "info_b s' = info_b s" and "info_status s' = info_status s" and "vbuf s' = vbuf s"
    and "sectors s' = sectors s" and "length (avail_ring s') = NUM" and "length (used_ring s') = NUM"
    and "distinct (pending s' @ completed s')" and "set (pending s') = set (pending s)"
    and "set (completed s') = set (completed s)"
  shows "calls_ok s'" and "queues_ok s'"
proof -
  have w: "progress s' z b h" if "vthr s' t = VWait z b w h" for t z b w h
    using waitingD(2) [OF assms(1), of t z b w h] that assms(3,8,9,14,15) by (auto simp: progress_def)
  show "calls_ok s'" "queues_ok s'"
    by (rule frame_ok [OF assms(1,2) _ _ assms(5-7) _ _ assms(11,12) _ assms(13) _ w];
        simp add: assms(3,4,9,10,14,15) queues_okD(3) [OF assms(2)])+
qed

section \<open>The device keeps the invariant\<close>

lemma vinvD: "vinv s \<Longrightarrow> calls_ok s" "vinv s \<Longrightarrow> queues_ok s" "vinv s \<Longrightarrow> wakeups_ok s"
  by (simp_all add: vinv_def)

lemma head_less:
  assumes "calls_ok s" and "queues_ok s" and "h \<in> set (pending s) \<union> set (completed s)"
  shows "h < NUM"
proof -
  obtain t z b w where "vthr s t = VWait z b w h" using queues_okD(5) [OF assms(2,3)] by blast
  then show ?thesis using waiting_own [OF assms(1)] own_self busy_less by blast
qed

lemma short_queue:
  assumes "distinct xs" and "set xs \<subseteq> {..<NUM}" and "h < NUM" and "h \<notin> set xs"
  shows "length xs < NUM"
proof -
  have "card (insert h (set xs)) \<le> card {..<NUM}" using assms by (intro card_mono) auto
  then show ?thesis using assms by (simp add: distinct_card)
qed

lemma usedq_push:
  assumes "length (used_ring s) = NUM" and "length (usedq s) < NUM" and "h < NUM"
  shows "map unat (ring NUM ((used_ring s)[unat (used_dev s) mod NUM := of_nat h]) (used_idx s) (used_dev s + 1)) = usedq s @ [h]"
proof -
  have "unat (of_nat h :: u32) = h" using assms(3) by (simp add: NUM_def unat_of_nat_lt)
  then show ?thesis using assms ring_push [of "used_ring s" NUM "used_dev s" "used_idx s" "of_nat h"]
    by (simp add: usedq_def NUM_def)
qed

lemma availq_push:
  assumes "length (avail_ring s) = NUM" and "length (availq s) < NUM" and "h < NUM"
  shows "map unat (ring NUM ((avail_ring s)[unat (avail_idx s) mod NUM := of_nat h]) (dev_last s) (avail_idx s + 1)) = availq s @ [h]"
proof -
  have "unat (of_nat h :: u16) = h" using assms(3) by (simp add: NUM_def unat_of_nat_lt)
  then show ?thesis using assms ring_push [of "avail_ring s" NUM "avail_idx s" "dev_last s" "of_nat h"]
    by (simp add: availq_def NUM_def)
qed

lemma or_not_0: "(x :: u32) OR 1 \<noteq> 0" "(x :: u32) OR 2 = 0 \<Longrightarrow> x = 0"
  by (metis or_eq_0_iff one_neq_zero) (metis or_eq_0_iff)

lemma vinv_fetch:
  assumes "vinv s" and "dev_last s \<noteq> avail_idx s"
  shows "vinv (dev_fetch s)"
proof -
  let ?x = "unat (avail_ring s ! (unat (dev_last s) mod NUM))"
  have q: "availq s = ?x # availq (dev_fetch s)"
    using ring_pop [OF assms(2), of NUM "avail_ring s"] by (simp add: availq_def dev_fetch_def)
  have c: "completed (dev_fetch s) = completed s" by (simp add: completed_def usedq_def dev_fetch_def)
  have p: "pending s = ?x # availq (dev_fetch s) @ dev_todo s"
    "pending (dev_fetch s) = availq (dev_fetch s) @ dev_todo s @ [?x]"
    using q by (simp_all add: pending_def, simp add: dev_fetch_def)
  have "set (pending (dev_fetch s)) = set (pending s)" "set (completed (dev_fetch s)) = set (completed s)"
    "distinct (pending (dev_fetch s) @ completed (dev_fetch s))"
    using queues_okD(4) [OF vinvD(2) [OF assms(1)]] unfolding p c by auto
  then have "calls_ok (dev_fetch s)" "queues_ok (dev_fetch s)"
    by (intro frame_same [OF vinvD(1,2) [OF assms(1)]]; simp add: dev_fetch_def queues_okD(1,2) [OF vinvD(2) [OF assms(1)]])+
  moreover have "wakeups_ok (dev_fetch s)"
    using vinvD(3) [OF assms(1)] assms(2) by (simp add: wakeups_ok_def dev_fetch_def busy_desc_def)
  ultimately show ?thesis by (simp add: vinv_def)
qed

lemma vinv_publish:
  assumes "vinv s" and "h \<in> set (dev_done s)"
  shows "vinv (dev_publish h s)"
proof -
  note inv = vinvD(1,2) [OF assms(1)]
  note q = queues_okD [OF inv(2)]
  have less: "set (completed s) \<subseteq> {..<NUM}" using head_less [OF inv] by auto
  have dis: "distinct (usedq s)" "distinct (dev_done s)" "h \<notin> set (usedq s)" using q(4) assms(2) by (auto simp: completed_def)
  have h: "h < NUM" and short: "length (usedq s) < NUM"
    using less assms(2) short_queue [of "usedq s" h] dis by (auto simp: completed_def)
  have p: "pending (dev_publish h s) = pending s" by (simp add: pending_def availq_def dev_publish_def)
  have c: "completed (dev_publish h s) = remove1 h (dev_done s) @ usedq s @ [h]"
    using usedq_push [OF q(2) short h] by (simp add: completed_def usedq_def dev_publish_def)
  have "set (completed (dev_publish h s)) = set (completed s)" "distinct (pending (dev_publish h s) @ completed (dev_publish h s))"
    using q(4) assms(2) dis unfolding c p by (auto simp: completed_def set_remove1_eq)
  then have "calls_ok (dev_publish h s)" "queues_ok (dev_publish h s)"
    using p by (intro frame_same [OF inv]; simp add: dev_publish_def q(1,2))+
  moreover have "wakeups_ok (dev_publish h s)"
    using vinvD(3) [OF assms(1)] by (auto simp: wakeups_ok_def dev_publish_def busy_desc_def or_not_0)
  ultimately show ?thesis by (simp add: vinv_def)
qed

lemma vinv_registers:
  assumes "vinv s" and "wakeups_ok (s\<lparr>isr := x, notified := y, in_intr := z\<rparr>)"
  shows "vinv (s\<lparr>isr := x, notified := y, in_intr := z\<rparr>)"
proof -
  note inv = vinvD(1,2) [OF assms(1)]
  have "calls_ok (s\<lparr>isr := x, notified := y, in_intr := z\<rparr>)" "queues_ok (s\<lparr>isr := x, notified := y, in_intr := z\<rparr>)"
    using queues_okD(4) [OF inv(2)]
    by (intro frame_same [OF inv]; simp add: pending_def completed_def availq_def usedq_def queues_okD(1,2) [OF inv(2)])+
  then show ?thesis using assms(2) by (simp add: vinv_def)
qed

lemma sector_of_block: "n < 2 ^ 31 \<Longrightarrow> unat (ucast (n * 2) :: u64) = 2 * unat (n :: u32)"
  by (simp add: unsigned_ucast_eq unat_word_ariths word_less_nat_alt take_bit_eq_mod)

lemma the_chain_well_formed:
  assumes "the_chain s h b w" and "length (vb_data (vbuf s b)) = BSIZE"
  shows "well_formed s h"
proof -
  have "own s h \<subseteq> busy_desc s" using assms(1) by (rule the_chain_own)
  then have "h < NUM" "second s h < NUM" "second s (second s h) < NUM" by (auto simp: own_def busy_desc_def)
  then show ?thesis using assms unfolding the_chain_def well_formed_def second_def
    by (auto simp: Let_def BSIZE_def VIRTIO_BLK_T_IN_def VIRTIO_BLK_T_OUT_def split: if_splits)
qed

text \<open>The effect of a request on the disk and on its buffer.\<close>

definition transfer :: "nat \<Rightarrow> bool \<Rightarrow> vdisk \<Rightarrow> vdisk" where
  "transfer b w s =
     (let sec = ucast (vb_blockno (vbuf s b) * 2)
      in if w then s\<lparr>sectors := write_sectors 2 sec (vb_data (vbuf s b)) (sectors s),
                     dev_writes := dev_writes s @ [(sec, vb_data (vbuf s b))]\<rparr>
         else s\<lparr>vbuf := (vbuf s)(b := (vbuf s b)\<lparr>vb_data := read_sectors 2 sec (sectors s)\<rparr>)\<rparr>)"

lemma dev_perform_eq:
  assumes "the_chain s h b w"
  shows "dev_perform h s = (transfer b w s)\<lparr>info_status := (info_status s)(h := 0),
           dev_todo := remove1 h (dev_todo s), dev_done := h # dev_done s\<rparr>"
  using assms unfolding the_chain_def dev_perform_def second_def transfer_def
  by (auto simp: Let_def BSIZE_def VIRTIO_BLK_T_IN_def VIRTIO_BLK_T_OUT_def)

lemma transfer_fields [simp]:
  "vthr (transfer b w s) = vthr s" "desc (transfer b w s) = desc s" "dfree (transfer b w s) = dfree s"
  "vops (transfer b w s) = vops s" "info_b (transfer b w s) = info_b s" "info_status (transfer b w s) = info_status s"
  "avail_ring (transfer b w s) = avail_ring s" "used_ring (transfer b w s) = used_ring s"
  "avail_idx (transfer b w s) = avail_idx s" "used_idx (transfer b w s) = used_idx s"
  "used_dev (transfer b w s) = used_dev s" "dev_last (transfer b w s) = dev_last s"
  "dev_todo (transfer b w s) = dev_todo s" "dev_done (transfer b w s) = dev_done s"
  "isr (transfer b w s) = isr s" "in_intr (transfer b w s) = in_intr s" "notified (transfer b w s) = notified s"
  "vb_blockno (vbuf (transfer b w s) b') = vb_blockno (vbuf s b')"
  "vb_disk (vbuf (transfer b w s) b') = vb_disk (vbuf s b')"
  by (simp_all add: transfer_def Let_def)

lemma read_sectors_two: "read_sectors 2 sec f = f sec @ f (sec + 1)"
  by (simp add: read_sectors_def numeral_2_eq_2)

lemma transfer_lengths:
  assumes "\<And>x. length (sectors s x) = 512" and "length (vb_data (vbuf s b)) = BSIZE"
  shows "length (sectors (transfer b w s) x) = 512"
    and "length (vb_data (vbuf s b')) = BSIZE \<Longrightarrow> length (vb_data (vbuf (transfer b w s) b')) = BSIZE"
  using assms by (simp_all add: transfer_def Let_def write_sectors_def read_sectors_two BSIZE_def)

lemma vinv_perform:
  assumes "vinv s" and "h \<in> set (dev_todo s)"
  obtains t z b w where "vthr s t = VWait z b w h" "vinv (dev_perform h s)" "h \<in> set (pending s)"
    "dev_perform h s = (transfer b w s)\<lparr>info_status := (info_status s)(h := 0),
           dev_todo := remove1 h (dev_todo s), dev_done := h # dev_done s\<rparr>"
proof -
  note inv = vinvD(1,2) [OF assms(1)]
  note q = queues_okD [OF inv(2)]
  have h: "h \<in> set (pending s)" using assms(2) by (simp add: pending_def)
  then obtain t z b w where t: "vthr s t = VWait z b w h" using q(5) by blast
  then have eq: "dev_perform h s = (transfer b w s)\<lparr>info_status := (info_status s)(h := 0),
           dev_todo := remove1 h (dev_todo s), dev_done := h # dev_done s\<rparr>" (is "_ = ?s")
    using waitingD(1) [OF inv(1)] dev_perform_eq by blast
  have data: "length (vb_data (vbuf s b)) = BSIZE" using calls_okD(2) [OF inv(1), of t b] t by simp
  have p: "pending ?s = availq s @ remove1 h (dev_todo s)" and c: "completed ?s = h # completed s"
    by (simp_all add: pending_def completed_def availq_def usedq_def)
  have sp: "set (pending ?s) = set (pending s) - {h}" and dis: "distinct (pending ?s @ completed ?s)"
    using q(4) assms(2) unfolding p c by (auto simp: pending_def)
  have w: "progress ?s z b' h'" if "vthr ?s t' = VWait z b' w h'" for t' z b' w h'
    using waitingD(2) [OF inv(1), of t' z b' w h'] that sp c h by (auto simp: progress_def)
  have "calls_ok ?s" "queues_ok ?s"
    by (rule frame_ok [OF inv _ _ _ _ _ _ _ _ _ _ dis _ w];
        use sp c h transfer_lengths [OF q(3) data, where w = w] q(1,2) in auto)+
  moreover have "wakeups_ok ?s" using vinvD(3) [OF assms(1)] by (simp add: wakeups_ok_def busy_desc_def)
  ultimately have "vinv (dev_perform h s)" unfolding eq by (simp only: vinv_def simp_thms)
  then show ?thesis using that [OF t _ h eq] by blast
qed

section \<open>The driver keeps the invariant\<close>

lemma wakeups_ok_frame:
  assumes "wakeups_ok s" and "busy_desc s' = busy_desc s"
    and "\<And>t b w. vthr s' t = VSleepFree b w \<Longrightarrow> vthr s t = VSleepFree b w"
    and "used_idx s' \<noteq> used_dev s' \<Longrightarrow> isr s' \<noteq> 0 \<or> in_intr s'" and "dev_last s' \<noteq> avail_idx s' \<Longrightarrow> notified s'"
  shows "wakeups_ok s'"
  using assms unfolding wakeups_ok_def by metis

lemma intr_iter_ok:
  assumes "vinv s" and "used_idx s \<noteq> used_dev s" and "in_intr s"
  obtains t z b w h where "vthr s t = VWait z b w h" "h \<in> set (completed s)"
    "intr_iter s = Inr ((vwakeup (ChBuf b) (s\<lparr>vbuf := (vbuf s)(b := (vbuf s b)\<lparr>vb_disk := False\<rparr>)\<rparr>))\<lparr>used_idx := used_idx s + 1\<rparr>)"
    "vinv ((vwakeup (ChBuf b) (s\<lparr>vbuf := (vbuf s)(b := (vbuf s b)\<lparr>vb_disk := False\<rparr>)\<rparr>))\<lparr>used_idx := used_idx s + 1\<rparr>)"
proof -
  note inv = vinvD(1,2) [OF assms(1)]
  note q = queues_okD [OF inv(2)]
  define h where "h = unat (used_ring s ! (unat (used_idx s) mod NUM))"
  define rest where "rest = map unat (ring NUM (used_ring s) (used_idx s + 1) (used_dev s))"
  have u: "usedq s = h # rest"
    using ring_pop [OF assms(2), of NUM "used_ring s"] by (simp add: usedq_def h_def rest_def)
  then have hc: "h \<in> set (completed s)" by (simp add: completed_def)
  then have hp: "h \<notin> set (pending s)" using q(4) by auto
  obtain t z b w where t: "vthr s t = VWait z b w h" using q(5) hc by blast
  let ?s = "(vwakeup (ChBuf b) (s\<lparr>vbuf := (vbuf s)(b := (vbuf s b)\<lparr>vb_disk := False\<rparr>)\<rparr>))\<lparr>used_idx := used_idx s + 1\<rparr>"
  have "info_b s h = Some b" using waitingD(1) [OF inv(1) t] by (simp add: the_chain_def Let_def)
  moreover have "info_status s h = 0" using waitingD(4) [OF inv(1) t] hp by simp
  moreover have "h < NUM" using head_less [OF inv] hc by blast
  ultimately have eq: "intr_iter s = Inr ?s" by (simp add: intr_iter_def h_def [symmetric])
  have c: "completed s = dev_done s @ h # rest" "completed ?s = dev_done s @ rest" and p: "pending ?s = pending s"
    using u by (simp_all add: completed_def, simp_all add: usedq_def rest_def pending_def availq_def)
  have sim: "similar (vthr s t') (vthr ?s t')" for t'
    using similar_wakeup [of "s\<lparr>vbuf := (vbuf s)(b := (vbuf s b)\<lparr>vb_disk := False\<rparr>)\<rparr>" t'] by simp
  have sets: "set (pending ?s) \<union> set (completed ?s) = set (pending s) \<union> set (completed s) - {h}"
    using q(4) hp unfolding p c by auto
  have w: "progress ?s y b' h'" if p': "vthr ?s t' = VWait y b' w' h'" for t' y b' w' h'
  proof (cases "t' = t")
    case True
    then show ?thesis using t p' sets waitingD(4) [OF inv(1) t] p by (auto simp: progress_def vwakeup_def)
  next
    case False
    obtain z' where t': "vthr s t' = VWait z' b' w' h'" using similarD(2) [OF sim p'] by blast
    then have "b' \<noteq> b" "h' \<noteq> h" using calls_okD(3) [OF inv(1), of t' b t] same_head [OF inv(1) t, of t'] t False by auto
    then show ?thesis using waitingD(2) [OF inv(1) t'] sets p' t' p by (auto simp: progress_def vwakeup_def split: if_splits)
  qed
  have dis: "distinct (pending ?s @ completed ?s)" using q(4) unfolding p c by auto
  have sub: "set (pending ?s) \<union> set (completed ?s) \<subseteq> set (pending s) \<union> set (completed s)" unfolding sets by blast
  have "calls_ok ?s" "queues_ok ?s"
    by (rule frame_ok [OF inv sim _ _ _ _ _ _ _ _ _ dis sub w]; auto simp: q(1-3))+
  moreover have "wakeups_ok ?s"
  proof (rule wakeups_ok_frame [OF vinvD(3) [OF assms(1)]])
    show "vthr s t' = VSleepFree b' w'" if "vthr ?s t' = VSleepFree b' w'" for t' b' w'
      using that vwakeup_sleeping [of "ChBuf b" "s\<lparr>vbuf := (vbuf s)(b := (vbuf s b)\<lparr>vb_disk := False\<rparr>)\<rparr>" t' b' w'] by simp
  qed (use assms(3) vinvD(3) [OF assms(1)] in \<open>simp_all add: wakeups_ok_def busy_desc_def\<close>)
  ultimately have "vinv ?s" by (simp only: vinv_def simp_thms)
  then show ?thesis using that [OF t hc eq] by blast
qed

lemma vinv_sleep:
  assumes "vinv s" and "vthr s t = VWait False b w h" and "vb_disk (vbuf s b)"
  shows "vinv (set_vthr t (VWait True b w h) s)" (is "vinv ?s")
proof -
  note inv = vinvD(1,2) [OF assms(1)]
  note q = queues_okD [OF inv(2)]
  have p: "pending ?s = pending s" "completed ?s = completed s"
    by (simp_all add: pending_def completed_def availq_def usedq_def set_vthr_def)
  have sim: "similar (vthr s t') (vthr ?s t')" for t' using assms(2) by (auto simp: set_vthr_def similar_def)
  have w: "progress ?s y b' h'" if "vthr ?s t' = VWait y b' w' h'" for t' y b' w' h'
    using that waitingD(2) [OF inv(1), of t' y b' w' h'] waitingD(2) [OF inv(1) assms(2)] assms(3) p
    by (auto simp: progress_def set_vthr_def split: if_splits)
  have "calls_ok ?s" "queues_ok ?s"
    by (rule frame_ok [OF inv sim _ _ _ _ _ _ _ _ _ _ _ w]; use p q in \<open>auto simp: set_vthr_def\<close>)+
  moreover have "wakeups_ok ?s"
    using vinvD(3) [OF assms(1)] by (auto simp: wakeups_ok_def set_vthr_def busy_desc_def split: if_splits)
  ultimately show ?thesis by (simp only: vinv_def simp_thms)
qed

text \<open>Giving back descriptors that were free before, and going to sleep until more are.\<close>

lemma vinv_no_desc:
  assumes "vinv s" and "vthr s t = VTry b w" and "A \<subseteq> {..<NUM} - busy_desc s" and "NUM < card (busy_desc s) + 3"
    and "s' = (if A = {} then s else release_desc A s)"
  shows "vinv (set_vthr t (VSleepFree b w) s')" (is "vinv ?s")
proof -
  note inv = vinvD(1,2) [OF assms(1)]
  note q = queues_okD [OF inv(2)]
  have p: "pending ?s = pending s" "completed ?s = completed s"
    by (simp_all add: assms(5) pending_def completed_def availq_def usedq_def set_vthr_def release_desc_def)
  have free: "dfree s' = dfree s" using assms(3) by (auto simp: assms(5) fun_eq_iff busy_desc_def)
  have sim: "similar (vthr s t') (vthr ?s t')" for t'
    using assms(2) by (auto simp: assms(5) set_vthr_def similar_def release_desc_def vwakeup_def split: vpc.splits)
  have w: "progress ?s y b' h'" if "vthr ?s t' = VWait y b' w' h'" for t' y b' w' h'
    using that waitingD(2) [OF inv(1), of t' y b' w' h'] p
    by (auto simp: progress_def set_vthr_def assms(5) release_desc_def vwakeup_def split: if_splits vpc.splits)
  have "calls_ok ?s" "queues_ok ?s"
    by (rule frame_ok [OF inv sim _ _ _ _ _ _ _ _ _ _ _ w];
        use p q free assms(3) in \<open>auto simp: set_vthr_def assms(5) release_desc_def\<close>)+
  moreover have "wakeups_ok ?s"
    using vinvD(3) [OF assms(1)] assms(4) free by (auto simp: wakeups_ok_def set_vthr_def busy_desc_def assms(5) release_desc_def)
  ultimately show ?thesis by (simp only: vinv_def simp_thms)
qed

text \<open>Steps that start or end the request of one thread.\<close>

lemma update_ok:
  assumes "calls_ok s"
    and thr: "\<And>t'. t' \<noteq> t \<Longrightarrow> similar (vthr s t') (vthr s' t')"
    and others: "\<And>t' z b w h. t' \<noteq> t \<Longrightarrow> vthr s t' = VWait z b w h \<Longrightarrow> the_chain s' h b w \<and> own s' h = own s h"
    and bufs: "\<And>t' b. t' \<noteq> t \<Longrightarrow> uses (vthr s t') = Some b \<Longrightarrow>
      vb_blockno (vbuf s' b) = vb_blockno (vbuf s b) \<and> vb_data (vbuf s' b) = vb_data (vbuf s b)"
    and wait: "\<And>t' z b w h. vthr s' t' = VWait z b w h \<Longrightarrow> progress s' z b h"
    and mine: "\<And>z b w h. vthr s' t = VWait z b w h \<Longrightarrow> the_chain s' h b w \<and> own s' h \<inter> busy_desc s = {}"
    and my_buf: "\<And>b. uses (vthr s' t) = Some b \<Longrightarrow> vb_blockno (vbuf s' b) < 2 ^ 31 \<and> length (vb_data (vbuf s' b)) = BSIZE \<and>
      (\<forall>t'. t' \<noteq> t \<longrightarrow> uses (vthr s t') \<noteq> Some b)"
  shows "calls_ok s'"
proof -
  have before: "\<exists>z. vthr s t' = VWait z b w h" if "vthr s' t' = VWait z b w h" and "t' \<noteq> t" for t' z b w h
    using similarD(2) [OF thr [OF that(2)] that(1)] .
  have my_uses: "uses (vthr s' t') = uses (vthr s t')" if "t' \<noteq> t" for t' using similarD(1) [OF thr [OF that]] .
  have apart: "own s' h \<inter> own s' h' = {}"
    if p: "vthr s' t = VWait z b w h" and p': "vthr s' t' = VWait z' b' w' h'" and ne: "t' \<noteq> t" for z b w h t' z' b' w' h'
  proof -
    obtain y where "vthr s t' = VWait y b' w' h'" using before [OF p' ne] by blast
    then have "own s' h' \<subseteq> busy_desc s" using others [OF ne] waiting_own [OF assms(1)] by metis
    then show ?thesis using mine [OF p] by blast
  qed
  show ?thesis unfolding calls_ok_def
  proof (intro conjI allI impI)
    fix t' z b w h assume p: "vthr s' t' = VWait z b w h"
    then have "the_chain s' h b w" using mine others before by (cases "t' = t") metis+
    then show "waiting s' z b w h" using wait [OF p] by (simp add: waiting_def)
  next
    fix t' b assume "uses (vthr s' t') = Some b"
    then show "vb_blockno (vbuf s' b) < 2 ^ 31" "length (vb_data (vbuf s' b)) = BSIZE"
      using my_buf bufs my_uses calls_okD(2) [OF assms(1)] by metis+
  next
    fix t1 t2 b assume "uses (vthr s' t1) = Some b" "uses (vthr s' t2) = Some b"
    then show "t1 = t2" using my_buf my_uses calls_okD(3) [OF assms(1)] by metis
  next
    fix t1 z b w h t2 z' b' w' h'
    assume p: "vthr s' t1 = VWait z b w h" "vthr s' t2 = VWait z' b' w' h'" and ne: "t1 \<noteq> t2"
    consider "t1 = t" | "t2 = t" | "t1 \<noteq> t" "t2 \<noteq> t" by blast
    then show "own s' h \<inter> own s' h' = {}"
    proof cases
      case 3
      obtain y y' where y: "vthr s t1 = VWait y b w h" "vthr s t2 = VWait y' b' w' h'"
        using before [OF p(1) 3(1)] before [OF p(2) 3(2)] by blast
      then show ?thesis using calls_okD(4) [OF assms(1) y ne] others [OF 3(1) y(1)] others [OF 3(2) y(2)] by simp
    qed (use p ne apart in blast)+
  qed
qed

lemma vinv_call:
  assumes "vinv s" and "vthr s t = VIdle" and "\<forall>t. uses (vthr s t) \<noteq> Some b" and "n < 2 ^ 31" and "length d = BSIZE"
  shows "vinv (set_vthr t (VTry b w) (s\<lparr>vbuf := (vbuf s)(b := (vbuf s b)\<lparr>vb_blockno := n, vb_data := d\<rparr>)\<rparr>))" (is "vinv ?s")
proof -
  note inv = vinvD(1,2) [OF assms(1)]
  have p: "pending ?s = pending s" "completed ?s = completed s" "own ?s = own s" "busy_desc ?s = busy_desc s"
    by (simp_all add: pending_def completed_def availq_def usedq_def set_vthr_def own_def second_def busy_desc_def fun_eq_iff)
  have other: "b' \<noteq> b" if "vthr s t' = VWait z b' w h" for t' z b' w h using assms(3) that by (metis uses.simps(4))
  have chain: "the_chain ?s h b' w" if "vthr s t' = VWait z b' w h" for t' z b' w h
    using waitingD(1) [OF inv(1) that] other [OF that] the_chain_cong [of s h ?s b' w] by (simp add: set_vthr_def)
  have "calls_ok ?s"
  proof (rule update_ok [OF inv(1), where t = t])
    show "progress ?s z b' h" if "vthr ?s t' = VWait z b' w h" for t' z b' w h
      using that waitingD(2) [OF inv(1), of t' z b' w h] other [of t' z b' w h] p by (auto simp: progress_def set_vthr_def split: if_splits)
  qed (use assms(3-5) p chain in \<open>auto simp: set_vthr_def\<close>)
  moreover have "queues_ok ?s"
    using inv(2) assms(2) p unfolding queues_ok_def by (simp add: set_vthr_def) (metis vpc.distinct(5))
  moreover have "wakeups_ok ?s"
    using vinvD(3) [OF assms(1)] unfolding wakeups_ok_def p by (auto simp: set_vthr_def split: if_splits)
  ultimately show ?thesis by (simp only: vinv_def simp_thms)
qed

text \<open>The end of a call.\<close>

definition finished :: "nat \<Rightarrow> nat \<Rightarrow> vdisk \<Rightarrow> vdisk" where
  "finished t h s = set_vthr t VIdle (release_desc (own s h) (s\<lparr>info_b := (info_b s)(h := None)\<rparr>))"

lemma rw_wait_finished:
  assumes "the_chain s h b w" and "\<not> vb_disk (vbuf s b)"
  shows "rw_wait t b w h s = Inr (finished t h s)"
proof -
  let ?s = "s\<lparr>info_b := (info_b s)(h := None)\<rparr>"
  have "free_chain h ?s = Inr (release_desc {h, second s h, second s (second s h)} ?s)"
  proof (rule free_chain_three)
    show "{h, second s h, second s (second s h)} \<subseteq> busy_desc ?s"
      using the_chain_own [OF assms(1)] by (simp add: own_def busy_desc_def)
    show "distinct [h, second s h, second s (second s h)]" using assms(1) by (simp add: the_chain_def Let_def)
  qed (use assms(1) in \<open>auto simp: the_chain_def Let_def second_def VRING_DESC_F_NEXT_def VRING_DESC_F_WRITE_def\<close>)
  then show ?thesis using assms(2) by (simp add: rw_wait_def finished_def own_def)
qed

lemma finished_fields:
  "pending (finished t h s) = pending s" "completed (finished t h s) = completed s" "vops (finished t h s) = vops s"
  "info_b (finished t h s) = (info_b s)(h := None)" "info_status (finished t h s) = info_status s"
  "vbuf (finished t h s) = vbuf s" "sectors (finished t h s) = sectors s" "dev_writes (finished t h s) = dev_writes s"
  "avail_ring (finished t h s) = avail_ring s" "used_ring (finished t h s) = used_ring s"
  "desc (finished t h s) i = (if i \<in> own s h then no_desc else desc s i)"
  "dfree (finished t h s) i \<longleftrightarrow> i \<in> own s h \<or> dfree s i" "busy_desc (finished t h s) = busy_desc s - own s h"
  "vthr (finished t h s) t' = (if t' = t then VIdle else vthr (vwakeup ChFree s) t')"
  by (auto simp: finished_def pending_def completed_def availq_def usedq_def set_vthr_def release_desc_def vwakeup_def busy_desc_def)

lemma vwakeup_free_wait: "vthr (vwakeup ChFree s) t = VWait z b w h \<longleftrightarrow> vthr s t = VWait z b w h"
  by (cases "vthr s t") (auto simp: vwakeup_def)

lemma vinv_finished:
  assumes "vinv s" and "vthr s t = VWait z b w h" and "\<not> vb_disk (vbuf s b)"
  shows "vinv (finished t h s)" (is "vinv ?s")
proof -
  note inv = vinvD(1,2) [OF assms(1)]
  note q = queues_okD [OF inv(2)]
  have gone: "h \<notin> set (pending s) \<union> set (completed s)" using waitingD(3) [OF inv(1) assms(2)] assms(3) by simp
  have apart: "own s h' \<inter> own s h = {}" if "vthr s t' = VWait z' b' w' h'" "t' \<noteq> t" for t' z' b' w' h'
    using calls_okD(4) [OF inv(1) that(1) assms(2) that(2)] .
  have own: "own ?s h' = own s h'" if "vthr s t' = VWait z' b' w' h'" "t' \<noteq> t" for t' z' b' w' h'
    using apart [OF that] by (intro own_cong) (auto simp: finished_fields)
  have chain: "the_chain ?s h' b' w'" if "vthr s t' = VWait z' b' w' h'" "t' \<noteq> t" for t' z' b' w' h'
  proof -
    have "h' \<noteq> h" using apart [OF that] own_self by blast
    then show ?thesis using waitingD(1) [OF inv(1) that(1)] apart [OF that]
      by (subst the_chain_cong [of s h']) (auto simp: finished_fields)
  qed
  have "calls_ok ?s"
  proof (rule update_ok [OF inv(1), where t = t])
    show "progress ?s z' b' h'" if "vthr ?s t' = VWait z' b' w' h'" for t' z' b' w' h'
      using that waitingD(2) [OF inv(1), of t' z' b' w' h'] by (auto simp: progress_def finished_fields vwakeup_free_wait split: if_splits)
  qed (use chain own in \<open>auto simp: finished_fields\<close>)
  moreover have "queues_ok ?s" unfolding queues_ok_def
  proof (intro conjI ballI allI)
    fix h' assume "h' \<in> set (pending ?s) \<union> set (completed ?s)"
    then obtain t' z' b' w' where "vthr s t' = VWait z' b' w' h'" "h' \<noteq> h" using q(5) [of h'] gone by (auto simp: finished_fields)
    then have "vthr ?s t' = VWait z' b' w' h'" using assms(2) by (auto simp: finished_fields vwakeup_free_wait)
    then show "\<exists>t z b w. vthr ?s t = VWait z b w h'" by blast
  next
    fix i assume "i \<in> busy_desc ?s"
    then obtain t' z' b' w' h' where t': "vthr s t' = VWait z' b' w' h'" "i \<in> own s h'" "i \<notin> own s h"
      using q(6) [of i] by (auto simp: finished_fields)
    then have "t' \<noteq> t" using assms(2) by auto
    then have "vthr ?s t' = VWait z' b' w' h'" "i \<in> own ?s h'"
      using t' own [OF t'(1)] by (simp_all add: finished_fields vwakeup_free_wait)
    then show "\<exists>t z b w h. vthr ?s t = VWait z b w h \<and> i \<in> own ?s h" by blast
  qed (use q(1-4) in \<open>simp_all add: finished_fields\<close>)
  moreover have "wakeups_ok ?s"
  proof -
    have "vthr ?s t' \<noteq> VSleepFree b' w'" for t' b' w'
      using vwakeup_sleeping [of ChFree s t' b' w'] by (auto simp: finished_fields(14))
    moreover have "used_idx ?s = used_idx s" "used_dev ?s = used_dev s" "isr ?s = isr s" "in_intr ?s = in_intr s"
      "dev_last ?s = dev_last s" "avail_idx ?s = avail_idx s" "notified ?s = notified s"
      by (simp_all add: finished_def set_vthr_def release_desc_def)
    ultimately show ?thesis using vinvD(3) [OF assms(1)] by (simp add: wakeups_ok_def)
  qed
  ultimately show ?thesis by (simp only: vinv_def simp_thms)
qed

text \<open>The submission of a request on the free descriptors \<open>i\<close>, \<open>j\<close> and \<open>k\<close>.\<close>

definition submitted :: "nat \<Rightarrow> nat \<Rightarrow> bool \<Rightarrow> nat \<Rightarrow> nat \<Rightarrow> nat \<Rightarrow> vdisk \<Rightarrow> vdisk" where
  "submitted t b w i j k s = set_vthr t (VWait True b w i)
     (rw_submit b w [i, j, k] (s\<lparr>dfree := (dfree s)(i := False, j := False, k := False)\<rparr>))"

lemma submitted_fields:
  assumes "distinct [i, j, k]"
  shows "vthr (submitted t b w i j k s) = (vthr s)(t := VWait True b w i)"
    "dfree (submitted t b w i j k s) = (dfree s)(i := False, j := False, k := False)"
    "vops (submitted t b w i j k s) = (vops s)(i := \<lparr>r_type = (if w then VIRTIO_BLK_T_OUT else VIRTIO_BLK_T_IN),
       r_reserved = 0, r_sector = ucast (vb_blockno (vbuf s b) * 2)\<rparr>)"
    "info_b (submitted t b w i j k s) = (info_b s)(i := Some b)"
    "info_status (submitted t b w i j k s) = (info_status s)(i := 0xff)"
    "vbuf (submitted t b w i j k s) = (vbuf s)(b := (vbuf s b)\<lparr>vb_disk := True\<rparr>)"
    "avail_ring (submitted t b w i j k s) = (avail_ring s)[unat (avail_idx s) mod NUM := of_nat i]"
    "avail_idx (submitted t b w i j k s) = avail_idx s + 1" "notified (submitted t b w i j k s)"
    "sectors (submitted t b w i j k s) = sectors s" "dev_writes (submitted t b w i j k s) = dev_writes s"
    "used_ring (submitted t b w i j k s) = used_ring s" "used_idx (submitted t b w i j k s) = used_idx s"
    "used_dev (submitted t b w i j k s) = used_dev s" "isr (submitted t b w i j k s) = isr s"
    "in_intr (submitted t b w i j k s) = in_intr s" "dev_last (submitted t b w i j k s) = dev_last s"
    "dev_todo (submitted t b w i j k s) = dev_todo s" "dev_done (submitted t b w i j k s) = dev_done s"
    "desc (submitted t b w i j k s) =
       (desc s)(i := \<lparr>d_addr = DOp i, d_len = 16, d_flags = VRING_DESC_F_NEXT, d_next = of_nat j\<rparr>,
                j := \<lparr>d_addr = DData b, d_len = of_nat BSIZE,
                      d_flags = (if w then 0 else VRING_DESC_F_WRITE) OR VRING_DESC_F_NEXT, d_next = of_nat k\<rparr>,
                k := \<lparr>d_addr = DStatus i, d_len = 1, d_flags = VRING_DESC_F_WRITE, d_next = 0\<rparr>)"
  using assms by (simp_all add: submitted_def rw_submit_def set_vthr_def upd_desc_def Let_def BSIZE_def)
    (cases "desc s j", simp)

lemma rw_try_cases:
  obtains (sleep) A where "A \<subseteq> {..<NUM} - busy_desc s" "NUM < card (busy_desc s) + 3"
      "rw_try t b w s = Inr (set_vthr t (VSleepFree b w) (if A = {} then s else release_desc A s))"
  | (submit) i j k where "{i, j, k} \<subseteq> {..<NUM} - busy_desc s" "distinct [i, j, k]"
      "rw_try t b w s = Inr (submitted t b w i j k s)"
proof (cases rule: alloc3_desc_cases [of s])
  case (some i j k)
  have "vb_disk (vbuf (rw_submit b w [i, j, k] (s\<lparr>dfree := (dfree s)(i := False, j := False, k := False)\<rparr>)) b)"
    by (simp add: rw_submit_def Let_def upd_desc_def)
  then show ?thesis using submit some by (simp add: rw_try_def rw_wait_def submitted_def)
next
  case (none A)
  then show ?thesis using sleep by (simp add: rw_try_def)
qed

lemma vinv_submitted:
  assumes "vinv s" and "vthr s t = VTry b w" and "{i, j, k} \<subseteq> {..<NUM} - busy_desc s" and d: "distinct [i, j, k]"
  shows "vinv (submitted t b w i j k s)" (is "vinv ?s")
proof -
  note inv = vinvD(1,2) [OF assms(1)]
  note q = queues_okD [OF inv(2)]
  note f = submitted_fields [OF d, of t b w s]
  have unused: "i \<notin> set (pending s) \<union> set (completed s)"
  proof
    assume "i \<in> set (pending s) \<union> set (completed s)"
    then obtain t z b w where "vthr s t = VWait z b w i" using q(5) by blast
    then show False using waiting_own [OF inv(1)] own_self assms(3) by blast
  qed
  have less: "i < NUM" "j < NUM" "k < NUM" using assms(3) by auto
  have "set (availq s) \<subseteq> {..<NUM}" using head_less [OF inv] by (auto simp: pending_def)
  then have "length (availq s) < NUM" using short_queue [of "availq s" i] unused less q(4) by (simp add: pending_def)
  then have p: "pending ?s = availq s @ i # dev_todo s" and c: "completed ?s = completed s"
    using availq_push [OF q(1) _ less(1)] by (simp_all add: pending_def availq_def completed_def usedq_def f)
  have sets: "set (pending ?s) = insert i (set (pending s))" "distinct (pending ?s @ completed ?s)"
    using q(4) unused unfolding p c by (auto simp: pending_def)
  have busy: "busy_desc ?s = busy_desc s \<union> {i, j, k}" using less by (auto simp: busy_desc_def f)
  have word: "unat (of_nat j :: u16) = j" "unat (of_nat k :: u16) = k" using less by (simp_all add: NUM_def unat_of_nat_lt)
  have mine: "own ?s i = {i, j, k}" using d word by (simp add: own_def second_def f)
  have chain: "the_chain ?s i b w"
    using d word busy unfolding the_chain_def mine
    by (auto simp: second_def f Let_def or.commute VRING_DESC_F_NEXT_def VRING_DESC_F_WRITE_def)
  have keep: "the_chain ?s h b' w' \<and> own ?s h = own s h" if "vthr s t' = VWait z b' w' h" for t' z b' w' h
  proof -
    have o: "own s h \<subseteq> busy_desc s" using waiting_own [OF inv(1) that] .
    then have "h \<noteq> i" "i \<notin> own s h" "j \<notin> own s h" "k \<notin> own s h" using assms(3) own_self by blast+
    then have e: "\<forall>x\<in>own s h. desc ?s x = desc s x \<and> dfree ?s x = dfree s x" by (auto simp: f)
    then have "own ?s h = own s h" by (intro own_cong) blast
    then show ?thesis using waitingD(1) [OF inv(1) that] the_chain_cong [OF e, of b' w'] \<open>h \<noteq> i\<close> by (simp add: f)
  qed
  have only: "b' \<noteq> b" if "vthr s t' = VWait z b' w' h" for t' z b' w' h
    using calls_okD(3) [OF inv(1), of t' b' t] that assms(2) by auto
  have "calls_ok ?s"
  proof (rule update_ok [OF inv(1), where t = t])
    fix t' z b' w' h assume p': "vthr ?s t' = VWait z b' w' h"
    show "progress ?s z b' h"
    proof (cases "t' = t")
      case True
      have "progress ?s True b i" using sets(1) by (simp add: progress_def f)
      moreover have "z" "b' = b" "h = i" using p' True by (simp_all add: f)
      ultimately show ?thesis by simp
    next
      case False
      then have t': "vthr s t' = VWait z b' w' h" using p' by (simp add: f)
      then have "h \<noteq> i" using waiting_own [OF inv(1)] own_self assms(3) by blast
      then show ?thesis using waitingD(2) [OF inv(1) t'] only [OF t'] sets c by (auto simp: progress_def f)
    qed
  next
    fix b' assume "uses (vthr ?s t) = Some b'"
    then have b': "b' = b" by (simp add: f)
    show "vb_blockno (vbuf ?s b') < 2 ^ 31 \<and> length (vb_data (vbuf ?s b')) = BSIZE \<and> (\<forall>t'. t' \<noteq> t \<longrightarrow> uses (vthr s t') \<noteq> Some b')"
      using calls_okD(2) [OF inv(1), of t b] calls_okD(3) [OF inv(1), of t b] assms(2) unfolding b' by (auto simp: f)
  qed (use keep chain mine assms(3) in \<open>auto simp: f\<close>)
  moreover have "queues_ok ?s" unfolding queues_ok_def
  proof (intro conjI ballI allI)
    fix h assume "h \<in> set (pending ?s) \<union> set (completed ?s)"
    then consider "h = i" | "h \<in> set (pending s) \<union> set (completed s)" using sets c by auto
    then show "\<exists>t z b w. vthr ?s t = VWait z b w h"
    proof cases
      case 1
      then show ?thesis by (auto simp: f)
    next
      case 2
      then obtain t' z' b' w' where "vthr s t' = VWait z' b' w' h" using q(5) by blast
      then show ?thesis using assms(2) by (intro exI [of _ t']) (auto simp: f)
    qed
  next
    fix x assume "x \<in> busy_desc ?s"
    then consider "x \<in> {i, j, k}" | "x \<in> busy_desc s" using busy by blast
    then show "\<exists>t z b w h. vthr ?s t = VWait z b w h \<and> x \<in> own ?s h"
    proof cases
      case 1
      then show ?thesis using mine by (intro exI [of _ t]) (auto simp: f)
    next
      case 2
      then obtain t' z' b' w' h where "vthr s t' = VWait z' b' w' h" "x \<in> own s h" using q(6) by blast
      then show ?thesis using assms(2) keep [of t' z' b' w' h] by (intro exI [of _ t']) (auto simp: f)
    qed
  qed (use q(1-3) sets in \<open>simp_all add: f\<close>)
  moreover have "wakeups_ok ?s"
  proof -
    have "card (busy_desc s) \<le> card (busy_desc ?s)" unfolding busy by (intro card_mono) auto
    then show ?thesis using vinvD(3) [OF assms(1)] by (fastforce simp: wakeups_ok_def f)
  qed
  ultimately show ?thesis by (simp only: vinv_def simp_thms)
qed

end
