(* ===== verification/Xv6_Diskspec.thy ===== *)
theory Xv6_Diskspec
  imports Xv6_Vdisk
begin

text \<open>
  What the disk driver promises. The specification is a disk whose operations are atomic: a thread
  that asks for a transfer is served by \<^const>\<open>virtio_disk_rw\<close> of the buffer cache's model at one
  moment between its call and its return. The driver with its device refines it, never panics, and
  leaves no thread asleep that nobody will wake.
\<close>

section \<open>The specification\<close>

datatype dreq = RNone | RPending nat bool | RDone nat bool

fun dreq_buf :: "dreq \<Rightarrow> nat option" where
  "dreq_buf RNone = None"
| "dreq_buf (RPending b w) = Some b"
| "dreq_buf (RDone b w) = Some b"

inductive disk_step :: "(nat \<Rightarrow> dreq) \<times> 'z bio_state_scheme \<Rightarrow> (nat \<Rightarrow> dreq) \<times> 'z bio_state_scheme \<Rightarrow> bool" where
  call: "r t = RNone \<Longrightarrow> \<forall>t. dreq_buf (r t) \<noteq> Some b \<Longrightarrow>
    disk_step (r, c) (r(t := RPending b w), upd_buf b (\<lambda>k. k\<lparr>blockno := n, b_data := d\<rparr>) c)"
| serve: "r t = RPending b w \<Longrightarrow> disk_step (r, c) (r(t := RDone b w), virtio_disk_rw b w c)"
| return: "r t = RDone b w \<Longrightarrow> disk_step (r, c) (r(t := RNone), c)"

section \<open>The abstraction\<close>

text \<open>A request counts as served once the device has written its status byte.\<close>

definition req_of :: "vdisk \<Rightarrow> nat \<Rightarrow> dreq" where
  "req_of s t =
     (case vthr s t of
        VIdle \<Rightarrow> RNone
      | VTry b w \<Rightarrow> RPending b w
      | VSleepFree b w \<Rightarrow> RPending b w
      | VWait z b w h \<Rightarrow> if info_status s h = 0 then RDone b w else RPending b w)"

definition block_of :: "vdisk \<Rightarrow> u32 \<Rightarrow> byte list" where
  "block_of s n = read_sectors 2 (ucast (n * 2)) (sectors s)"

definition bio_of :: "'z bio_state_scheme \<Rightarrow> vdisk \<Rightarrow> 'z bio_state_scheme" where
  "bio_of c s =
     c\<lparr>bufs := (\<lambda>b. (bufs c b)\<lparr>blockno := vb_blockno (vbuf s b), b_data := vb_data (vbuf s b)\<rparr>),
       disk := (\<lambda>n. if n < 2 ^ 31 then block_of s n else disk c n),
       dwrites := map (\<lambda>(sec, d). (ucast (sec div 2), d)) (dev_writes s)\<rparr>"

definition disk_of :: "'z bio_state_scheme \<Rightarrow> vdisk \<Rightarrow> (nat \<Rightarrow> dreq) \<times> 'z bio_state_scheme" where
  "disk_of c s = (req_of s, bio_of c s)"

lemma bio_of_cong:
  assumes "\<And>b. vb_blockno (vbuf s' b) = vb_blockno (vbuf s b)" and "\<And>b. vb_data (vbuf s' b) = vb_data (vbuf s b)"
    and "sectors s' = sectors s" and "dev_writes s' = dev_writes s"
  shows "bio_of c s' = bio_of c s"
  using assms by (simp add: bio_of_def block_of_def cong: if_cong)

lemma req_of_wants:
  "req_of s t =
     (case wants (vthr s t) of None \<Rightarrow> RNone
      | Some (b, w) \<Rightarrow> if \<exists>z h. vthr s t = VWait z b w h \<and> info_status s h = 0 then RDone b w else RPending b w)"
  by (cases "vthr s t") (auto simp: req_of_def)

lemma req_of_similar:
  assumes "similar (vthr s t) (vthr s' t)" and "\<And>z b w h. vthr s t = VWait z b w h \<Longrightarrow> info_status s' h = info_status s h"
  shows "req_of s' t = req_of s t"
proof -
  have "(\<exists>z h. vthr s' t = VWait z b w h \<and> info_status s' h = 0) \<longleftrightarrow> (\<exists>z h. vthr s t = VWait z b w h \<and> info_status s h = 0)" for b w
    using similarD(2,3) [OF assms(1)] assms(2) by metis
  then show ?thesis unfolding req_of_wants similarD(4) [OF assms(1)] by (simp split: option.split)
qed

lemma disk_of_similar:
  assumes "\<And>t. similar (vthr s t) (vthr s' t)"
    and "\<And>t z b w h. vthr s t = VWait z b w h \<Longrightarrow> info_status s' h = info_status s h"
    and "\<And>b. vb_blockno (vbuf s' b) = vb_blockno (vbuf s b)" and "\<And>b. vb_data (vbuf s' b) = vb_data (vbuf s b)"
    and "sectors s' = sectors s" and "dev_writes s' = dev_writes s"
  shows "disk_of c s' = disk_of c s"
  using bio_of_cong [OF assms(3-6)] req_of_similar [OF assms(1,2)] by (simp add: disk_of_def fun_eq_iff)

section \<open>The driver refines the specification\<close>

lemma read_write_sectors:
  fixes m n :: u32
  assumes "m < 2 ^ 31" and "n < 2 ^ 31" and "length d = BSIZE"
  shows "read_sectors 2 (ucast (m * 2)) (write_sectors 2 (ucast (n * 2)) d f) =
    (if m = n then d else read_sectors 2 (ucast (m * 2)) (f :: u64 \<Rightarrow> byte list))"
proof -
  let ?x = "ucast (m * 2) :: u64" and ?y = "ucast (n * 2) :: u64"
  have u: "unat ?x = 2 * unat m" "unat ?y = 2 * unat n" using sector_of_block [OF assms(1)] sector_of_block [OF assms(2)] by simp_all
  have le: "unat m < 2 ^ 31" "unat n < 2 ^ 31" using assms(1,2) by (simp_all add: word_less_nat_alt)
  have x1: "unat (?x + 1) = 2 * unat m + 1" and y1: "unat (?y + 1) = 2 * unat n + 1"
    using u le unat_add_of_nat [of ?x 1] unat_add_of_nat [of ?y 1] by simp_all
  have near: "a = b \<or> a = b + 1" if "unat (a - b) < 2" for a b :: u64
  proof -
    have "unat (a - b) = unat (0 :: u64) \<or> unat (a - b) = unat (1 :: u64)" using that by auto
    then have "a - b = 0 \<or> a - b = 1" by (simp only: word_unat_eq_iff)
    then show ?thesis by (auto simp: algebra_simps)
  qed
  show ?thesis
  proof (cases "m = n")
    case True
    then show ?thesis using assms(3) by (simp add: read_sectors_two write_sectors_def BSIZE_def append_take_drop_id [symmetric])
  next
    case False
    have "\<not> unat (?x - ?y) < 2" "\<not> unat (?x + 1 - ?y) < 2"
      using near [of ?x ?y] near [of "?x + 1" ?y] u x1 y1 False by (auto simp: word_unat_eq_iff)
    then show ?thesis using False by (simp add: read_sectors_two write_sectors_def)
  qed
qed

lemma transfer_serves:
  assumes "vb_blockno (vbuf s b) < 2 ^ 31" and "length (vb_data (vbuf s b)) = BSIZE"
  shows "bio_of c (transfer b w s) = virtio_disk_rw b w (bio_of c s)"
proof (cases w)
  case True
  let ?n = "vb_blockno (vbuf s b)" and ?d = "vb_data (vbuf s b)"
  have "unat (ucast (?n * 2) div 2 :: u64) = unat ?n" using sector_of_block [OF assms(1)] by (simp add: unat_div)
  then have "(ucast (ucast (?n * 2) div 2 :: u64) :: u32) = ?n" 
    using take_bit_nat_eq_self [of "unat ?n" 32] unat_lt_pow [of ?n] by (simp add: word_unat_eq_iff unsigned_ucast_eq)
  moreover have "(\<lambda>m. if m < 2 ^ 31 then read_sectors 2 (ucast (m * 2)) (write_sectors 2 (ucast (?n * 2)) ?d (sectors s)) else disk c m) =
    (\<lambda>m. if m < 2 ^ 31 then read_sectors 2 (ucast (m * 2)) (sectors s) else disk c m)(?n := ?d)"
    using read_write_sectors [OF _ assms, of _ "sectors s"] assms(1) by (auto simp: fun_eq_iff)
  ultimately show ?thesis using True
    by (simp add: transfer_def virtio_disk_rw_def bio_of_def block_of_def Let_def cong: if_cong)
next
  case False
  then show ?thesis using assms(1)
    by (auto simp: transfer_def virtio_disk_rw_def bio_of_def block_of_def upd_buf_def Let_def fun_eq_iff intro!: bio_state.equality)
qed

lemma perform_serves:
  assumes "vinv s" and "h \<in> set (dev_todo s)"
  shows "disk_step (disk_of c s) (disk_of c (dev_perform h s))"
proof (cases rule: vinv_perform [OF assms])
  case (1 t z b w)
  note inv = vinvD(1) [OF assms(1)]
  let ?s = "dev_perform h s"
  have buf: "vb_blockno (vbuf s b) < 2 ^ 31" "length (vb_data (vbuf s b)) = BSIZE"
    using calls_okD(2) [OF inv, of t b] 1(1) by auto
  have "bio_of c ?s = bio_of c (transfer b w s)" unfolding 1(4) by (rule bio_of_cong) simp_all
  then have bio: "bio_of c ?s = virtio_disk_rw b w (bio_of c s)" using transfer_serves [OF buf] by simp
  have before: "req_of s t = RPending b w" using waitingD(4) [OF inv 1(1)] 1(1,3) by (simp add: req_of_def)
  have "req_of ?s = (req_of s)(t := RDone b w)"
  proof
    fix t'
    show "req_of ?s t' = ((req_of s)(t := RDone b w)) t'"
    proof (cases "t' = t")
      case True
      then show ?thesis using 1(1) by (simp add: 1(4) req_of_def)
    next
      case False
      have "req_of ?s t' = req_of s t'"
        using same_head(1) [OF inv 1(1), of t'] False by (intro req_of_similar) (auto simp: 1(4))
      then show ?thesis using False by simp
    qed
  qed
  then show ?thesis using disk_step.serve [of "req_of s" t b w] before by (simp add: disk_of_def bio)
qed

lemma finished_returns:
  assumes "vinv s" and "vthr s t = VWait z b w h" and "\<not> vb_disk (vbuf s b)"
  shows "disk_step (disk_of c s) (disk_of c (finished t h s))"
proof -
  note inv = vinvD(1) [OF assms(1)]
  have "info_status s h = 0" using waitingD(3,4) [OF inv assms(2)] assms(3) by simp
  then have before: "req_of s t = RDone b w" using assms(2) by (simp add: req_of_def)
  have "bio_of c (finished t h s) = bio_of c s" by (rule bio_of_cong) (simp_all add: finished_fields)
  moreover have "req_of (finished t h s) = (req_of s)(t := RNone)"
  proof
    fix t'
    show "req_of (finished t h s) t' = ((req_of s)(t := RNone)) t'"
    proof (cases "t' = t")
      case True
      then show ?thesis by (simp add: req_of_def finished_fields)
    next
      case False
      then have "req_of (finished t h s) t' = req_of s t'" by (intro req_of_similar) (simp_all add: finished_fields)
      then show ?thesis using False by simp
    qed
  qed
  ultimately show ?thesis using disk_step.return [of "req_of s" t b w] before by (simp add: disk_of_def)
qed

lemma submitted_silent:
  assumes "vinv s" and "vthr s t = VTry b w" and "{i, j, k} \<subseteq> {..<NUM} - busy_desc s" and d: "distinct [i, j, k]"
  shows "disk_of c (submitted t b w i j k s) = disk_of c s"
proof -
  note f = submitted_fields [OF d, of t b w s]
  have "bio_of c (submitted t b w i j k s) = bio_of c s" by (rule bio_of_cong) (simp_all add: f)
  moreover have "req_of (submitted t b w i j k s) t' = req_of s t'" for t'
  proof (cases "t' = t")
    case True
    then show ?thesis using assms(2) by (simp add: req_of_def f)
  next
    case False
    have "h \<noteq> i" if "vthr s t' = VWait z b w h" for z b w h
      using waiting_own [OF vinvD(1) [OF assms(1)] that] own_self [of h s] assms(3) by blast
    then show ?thesis using False by (intro req_of_similar) (auto simp: f)
  qed
  ultimately show ?thesis by (simp add: disk_of_def fun_eq_iff)
qed

lemma call_calls:
  assumes "vthr s t = VIdle" and "\<forall>t. uses (vthr s t) \<noteq> Some b"
  shows "disk_step (disk_of c s) (disk_of c (set_vthr t (VTry b w)
    (s\<lparr>vbuf := (vbuf s)(b := (vbuf s b)\<lparr>vb_blockno := n, vb_data := d\<rparr>)\<rparr>)))" (is "disk_step _ (disk_of c ?s)")
proof -
  have "req_of ?s = (req_of s)(t := RPending b w)" by (auto simp: req_of_def set_vthr_def fun_eq_iff split: vpc.split)
  moreover have "bio_of c ?s = upd_buf b (\<lambda>k. k\<lparr>blockno := n, b_data := d\<rparr>) (bio_of c s)"
    by (auto simp: bio_of_def upd_buf_def set_vthr_def block_of_def fun_eq_iff cong: if_cong)
  moreover have "req_of s t = RNone" using assms(1) by (simp add: req_of_def)
  moreover have "dreq_buf (req_of s t') = uses (vthr s t')" for t' by (cases "vthr s t'") (simp_all add: req_of_def)
  ultimately show ?thesis using assms(2) disk_step.call [of "req_of s" t b "bio_of c s" w] by (simp add: disk_of_def)
qed

lemma iter_silent:
  assumes "vinv s" and "used_idx s \<noteq> used_dev s" and "in_intr s" and "intr_iter s = Inr s'"
  shows "disk_of c s' = disk_of c s" and "vinv s'"
proof -
  obtain b where s': "s' = (vwakeup (ChBuf b) (s\<lparr>vbuf := (vbuf s)(b := (vbuf s b)\<lparr>vb_disk := False\<rparr>)\<rparr>))\<lparr>used_idx := used_idx s + 1\<rparr>" "vinv s'"
    using intr_iter_ok [OF assms(1-3)] assms(4) by (metis sum.inject(2))
  show "vinv s'" by fact
  have "similar (vthr s t) (vthr s' t)" for t
    using similar_wakeup [of "s\<lparr>vbuf := (vbuf s)(b := (vbuf s b)\<lparr>vb_disk := False\<rparr>)\<rparr>" t "ChBuf b"] by (simp add: s'(1))
  then show "disk_of c s' = disk_of c s" by (rule disk_of_similar) (auto simp: s'(1))
qed

section \<open>Reachable states\<close>

text \<open>The driver's static data and the device before \<^verbatim>\<open>virtio_disk_init\<close>.\<close>

definition at_boot :: "vdisk \<Rightarrow> bool" where
  "at_boot s \<longleftrightarrow> used_idx s = 0 \<and> (\<forall>t. vthr s t = VIdle) \<and> dev_last s = 0 \<and> dev_todo s = [] \<and> dev_done s = [] \<and>
     (\<forall>x. length (sectors s x) = 512)"

inductive running :: "(vdisk \<Rightarrow> vdisk \<Rightarrow> bool) \<Rightarrow> vdisk \<Rightarrow> bool" for D where
  init: "at_boot s \<Longrightarrow> virtio_disk_init rd s (k :: kmem_state) = Inr (ws, s', k') \<Longrightarrow> running D s'"
| step: "running D s \<Longrightarrow> vstep D s s' \<Longrightarrow> running D s'"

lemma ring_same [simp]: "ring n d r r = []"
  by (simp add: ring_def)

lemma virtio_disk_init_state:
  assumes "virtio_disk_init rd s k = Inr (ws, s', k')"
  obtains x y z where "s' = s\<lparr>in_intr := False, q_desc := x, q_avail := y, q_used := z, desc := (\<lambda>_. no_desc), avail_idx := 0,
      avail_ring := replicate NUM 0, used_dev := 0, used_ring := replicate NUM 0, dfree := (\<lambda>i. i < NUM \<or> dfree s i)\<rparr>"
proof (cases "init_handshake rd")
  case (Inr r)
  obtain d k1 where 1: "kalloc k = (d, k1)" by fastforce
  obtain a k2 where 2: "kalloc k1 = (a, k2)" by fastforce
  obtain u k3 where 3: "kalloc k2 = (u, k3)" by fastforce
  show ?thesis using assms Inr 1 2 3 that [of u a d] by (cases r) (auto simp: virtio_disk_init_def Let_def split: if_splits)
qed (use assms in \<open>simp add: virtio_disk_init_def\<close>)

lemma vinv_init:
  assumes "at_boot s" and "virtio_disk_init rd s k = Inr (ws, s', k')"
  shows "vinv s'"
proof -
  obtain x y z where s': "s' = s\<lparr>in_intr := False, q_desc := x, q_avail := y, q_used := z, desc := (\<lambda>_. no_desc), avail_idx := 0,
      avail_ring := replicate NUM 0, used_dev := 0, used_ring := replicate NUM 0, dfree := (\<lambda>i. i < NUM \<or> dfree s i)\<rparr>"
    using virtio_disk_init_state [OF assms(2)] by blast
  have "calls_ok s'" using assms(1) by (simp add: s' calls_ok_def at_boot_def)
  moreover have "queues_ok s'" "wakeups_ok s'" using assms(1)
    by (simp_all add: s' queues_ok_def wakeups_ok_def at_boot_def pending_def completed_def availq_def usedq_def busy_desc_def)
  ultimately show ?thesis by (simp add: vinv_def)
qed

lemma vinv_well_formed:
  assumes "vinv s" and "h \<in> set (dev_todo s)"
  shows "well_formed s h"
proof -
  note inv = vinvD(1,2) [OF assms(1)]
  have "h \<in> set (pending s)" using assms(2) by (simp add: pending_def)
  then obtain t z b w where t: "vthr s t = VWait z b w h" using queues_okD(5) [OF inv(2)] by blast
  then show ?thesis using the_chain_well_formed waitingD(1) [OF inv(1) t] calls_okD(2) [OF inv(1), of t b] by simp
qed

lemma dev_step_refines:
  assumes "vinv s" and "dev_step s s'"
  shows "vinv s' \<and> (disk_of c s' = disk_of c s \<or> disk_step (disk_of c s) (disk_of c s'))"
  using assms(2)
proof cases
  case fetch
  have "disk_of c (dev_fetch s) = disk_of c s" by (rule disk_of_similar) (simp_all add: dev_fetch_def)
  then show ?thesis using vinv_fetch [OF assms(1)] fetch by simp
next
  case (perform h)
  have "vinv (dev_perform h s)" using vinv_perform [OF assms(1) perform(2)] by blast
  then show ?thesis using perform_serves [OF assms(1) perform(2), of c] perform(1) by simp
next
  case (publish h)
  have "disk_of c (dev_publish h s) = disk_of c s" by (rule disk_of_similar) (simp_all add: dev_publish_def)
  then show ?thesis using vinv_publish [OF assms(1) publish(2)] publish(1) by simp
next
  case config
  have "wakeups_ok (s\<lparr>isr := isr s OR 2, notified := notified s, in_intr := in_intr s\<rparr>)"
    using vinvD(3) [OF assms(1)] or_not_0(2) [of "isr s"] by (auto simp: wakeups_ok_def busy_desc_def)
  then have "vinv (s\<lparr>isr := isr s OR 2\<rparr>)" using vinv_registers [OF assms(1), where x = "isr s OR 2" and y = "notified s" and z = "in_intr s"] by simp
  moreover have "disk_of c (s\<lparr>isr := isr s OR 2\<rparr>) = disk_of c s" by (rule disk_of_similar) simp_all
  ultimately show ?thesis using config by simp
next
  case quiet
  have "wakeups_ok (s\<lparr>isr := isr s, notified := False, in_intr := in_intr s\<rparr>)"
    using vinvD(3) [OF assms(1)] quiet(2) by (simp add: wakeups_ok_def busy_desc_def)
  then have "vinv (s\<lparr>notified := False\<rparr>)" using vinv_registers [OF assms(1), where x = "isr s" and y = False and z = "in_intr s"] by simp
  moreover have "disk_of c (s\<lparr>notified := False\<rparr>) = disk_of c s" by (rule disk_of_similar) simp_all
  ultimately show ?thesis using quiet by simp
qed

lemma vstep_refines:
  assumes "follows_virtio D" and "vinv s" and "vstep D s s'"
  shows "vinv s' \<and> (disk_of c s' = disk_of c s \<or> disk_step (disk_of c s) (disk_of c s'))"
  using assms(3)
proof cases
  case (call t b n d w)
  then show ?thesis using vinv_call [OF assms(2), of t b n d w] call_calls [of s t b c w] by simp
next
  case (attempt t b w)
  show ?thesis
  proof (cases rule: rw_try_cases [of s t b w])
    case (sleep A)
    let ?r = "if A = {} then s else release_desc A s"
    have "similar (vthr s t') (vthr (set_vthr t (VSleepFree b w) ?r) t')" for t'
      using attempt(1) by (auto simp: set_vthr_def similar_def release_desc_def vwakeup_def split: vpc.splits)
    then have "disk_of c (set_vthr t (VSleepFree b w) ?r) = disk_of c s"
      by (rule disk_of_similar) (simp_all add: set_vthr_def release_desc_def)
    then show ?thesis using vinv_no_desc [OF assms(2) attempt(1) sleep(1,2)] sleep(3) attempt(3) by simp
  next
    case (submit i j k)
    then show ?thesis
      using vinv_submitted [OF assms(2) attempt(1) submit(1,2)] submitted_silent [OF assms(2) attempt(1) submit(1,2), of c] attempt(3)
      by simp
  qed
next
  case (resume t b w h)
  show ?thesis
  proof (cases "vb_disk (vbuf s b)")
    case True
    have "disk_of c (set_vthr t (VWait True b w h) s) = disk_of c s"
      using resume(1) by (intro disk_of_similar) (auto simp: set_vthr_def similar_def)
    then show ?thesis using vinv_sleep [OF assms(2) resume(1) True] resume(3) True by (simp add: rw_wait_def)
  next
    case False
    then have "s' = finished t h s"
      using rw_wait_finished [OF waitingD(1) [OF vinvD(1) [OF assms(2)] resume(1)]] resume(3) by simp
    then show ?thesis
      using vinv_finished [OF assms(2) resume(1) False] finished_returns [OF assms(2) resume(1) False, of c] by simp
  qed
next
  case enter
  have "wakeups_ok (s\<lparr>isr := isr s AND NOT (isr s AND 3), notified := notified s, in_intr := True\<rparr>)"
    using vinvD(3) [OF assms(2)] by (simp add: wakeups_ok_def busy_desc_def)
  then have "vinv (intr_enter s)"
    using vinv_registers [OF assms(2), where x = "isr s AND NOT (isr s AND 3)" and y = "notified s" and z = True] by (simp add: intr_enter_def)
  moreover have "disk_of c (intr_enter s) = disk_of c s" by (rule disk_of_similar) (simp_all add: intr_enter_def)
  ultimately show ?thesis using enter by simp
next
  case iter
  then show ?thesis using iter_silent(1) [OF assms(2), of s' c] iter_silent(2) [OF assms(2)] by simp
next
  case leave
  have "wakeups_ok (s\<lparr>isr := isr s, notified := notified s, in_intr := False\<rparr>)"
    using vinvD(3) [OF assms(2)] leave(3) by (simp add: wakeups_ok_def busy_desc_def)
  then have "vinv (intr_exit s)" using vinv_registers [OF assms(2), where x = "isr s" and y = "notified s" and z = False] by (simp add: intr_exit_def)
  moreover have "disk_of c (intr_exit s) = disk_of c s" by (rule disk_of_similar) (simp_all add: intr_exit_def)
  ultimately show ?thesis using leave by simp
next
  case device
  then have "dev_step s s'" using assms(1) vinv_well_formed [OF assms(2)] unfolding follows_virtio_def by blast
  then show ?thesis using dev_step_refines [OF assms(2), of s' c] by blast
qed

lemma running_vinv:
  assumes "follows_virtio D" and "running D s"
  shows "vinv s"
  using assms(2)
proof induction
  case init
  then show ?case using vinv_init by blast
next
  case step
  then show ?case using vstep_refines [OF assms(1), where c = "undefined :: bio_state"] by blast
qed

section \<open>Properties\<close>

text \<open>The driver on a device that always does what is documented, right after \<^verbatim>\<open>virtio_disk_init\<close>.\<close>

definition example_registers :: "(u32 \<times> u32) list \<Rightarrow> u32 \<Rightarrow> u32" where
  "example_registers ws r =
     (if r = VIRTIO_MMIO_MAGIC_VALUE then 0x74726976 else if r = VIRTIO_MMIO_VERSION then 2
      else if r = VIRTIO_MMIO_DEVICE_ID then 2 else if r = VIRTIO_MMIO_VENDOR_ID then 0x554d4551
      else if r = VIRTIO_MMIO_STATUS then VIRTIO_CONFIG_S_FEATURES_OK
      else if r = VIRTIO_MMIO_QUEUE_NUM_MAX then 1024 else 0)"

definition example_boot :: vdisk where
  "example_boot = \<lparr>q_desc = 0, q_avail = 0, q_used = 0, desc = (\<lambda>_. no_desc), avail_idx = 0, avail_ring = [],
     used_dev = 0, used_ring = [], dfree = (\<lambda>_. False), used_idx = 0, info_b = (\<lambda>_. None), info_status = (\<lambda>_. 0),
     vops = (\<lambda>_. \<lparr>r_type = 0, r_reserved = 0, r_sector = 0\<rparr>),
     vbuf = (\<lambda>_. \<lparr>vb_disk = False, vb_blockno = 0, vb_data = []\<rparr>), in_intr = False, vthr = (\<lambda>_. VIdle),
     notified = False, isr = 0, dev_last = 0, dev_todo = [], dev_done = [], sectors = (\<lambda>_. replicate 512 0), dev_writes = []\<rparr>"

lemma follows_virtio_dev_step: "follows_virtio dev_step"
  by (simp add: follows_virtio_def)

lemma init_handshake_ok:
  assumes "rd [] VIRTIO_MMIO_MAGIC_VALUE = 0x74726976" "rd [] VIRTIO_MMIO_VERSION = 2"
    "rd [] VIRTIO_MMIO_DEVICE_ID = 2" "rd [] VIRTIO_MMIO_VENDOR_ID = 0x554d4551"
    and "\<And>ws. rd ws VIRTIO_MMIO_STATUS AND VIRTIO_CONFIG_S_FEATURES_OK \<noteq> 0"
    and "\<And>ws. rd ws VIRTIO_MMIO_QUEUE_READY = 0" and "\<And>ws. of_nat NUM \<le> rd ws VIRTIO_MMIO_QUEUE_NUM_MAX"
  shows "\<exists>ws st. init_handshake rd = Inr (ws, st)"
proof -
  have "0 < (of_nat NUM :: u32)" by (simp add: NUM_def)
  then have "rd ws VIRTIO_MMIO_QUEUE_NUM_MAX \<noteq> 0" for ws using assms(7) [of ws] by (metis leD)
  then show ?thesis using assms by (simp add: init_handshake_def Let_def not_less)
qed

lemma virtio_disk_init_page:
  assumes "init_handshake rd = Inr (ws, st)" and "kmem_inv kend k (d # a # u # ps)"
  obtains ws' s' k' where "virtio_disk_init rd s k = Inr (ws @ ws', s', k')" "kmem_inv kend k' ps"
    "q_desc s' = d" "q_avail s' = a" "q_used s' = u" "busy_desc s' = {}"
    "mem_read (pmem k') d 4096 = replicate 4096 0" "mem_read (pmem k') a 4096 = replicate 4096 0"
    "mem_read (pmem k') u 4096 = replicate 4096 0"
    "ws' = [(VIRTIO_MMIO_QUEUE_NUM, of_nat NUM),
            (VIRTIO_MMIO_QUEUE_DESC_LOW, ucast d), (VIRTIO_MMIO_QUEUE_DESC_HIGH, ucast (drop_bit 32 d)),
            (VIRTIO_MMIO_DRIVER_DESC_LOW, ucast a), (VIRTIO_MMIO_DRIVER_DESC_HIGH, ucast (drop_bit 32 a)),
            (VIRTIO_MMIO_DEVICE_DESC_LOW, ucast u), (VIRTIO_MMIO_DEVICE_DESC_HIGH, ucast (drop_bit 32 u)),
            (VIRTIO_MMIO_QUEUE_READY, 1), (VIRTIO_MMIO_STATUS, st OR VIRTIO_CONFIG_S_DRIVER_OK)]"
proof -
  obtain k1 where k1: "kalloc k = (d, k1)" "kmem_inv kend k1 (a # u # ps)" using kmem.alloc_page [OF assms(2)] by blast
  obtain k2 where k2: "kalloc k1 = (a, k2)" "kmem_inv kend k2 (u # ps)" using kmem.alloc_page [OF k1(2)] by blast
  obtain k3 where k3: "kalloc k2 = (u, k3)" "kmem_inv kend k3 ps" using kmem.alloc_page [OF k2(2)] by blast
  have v: "valid_page kend d" "valid_page kend a" "valid_page kend u" "distinct (d # a # u # ps)"
    using assms(2) by (auto simp: kmem_inv_def)
  let ?m1 = "memset (pmem k3) d 0 4096" let ?m2 = "memset ?m1 a 0 4096" let ?m3 = "memset ?m2 u 0 4096"
  have zero: "mem_read (memset m p 0 4096) p 4096 = replicate 4096 0" for m p
    using mem_read_write_same [of "replicate 4096 0" m p] by (simp add: memset_spec)
  have keep: "mem_read (memset m q 0 4096) p 4096 = mem_read m p 4096" if "valid_page kend p" "valid_page kend q" "p \<noteq> q" for m p q
    using that aligned_apart [of p q] valid_page_room [OF that(1)] valid_page_room [OF that(2)]
    by (simp add: memset_spec mem_read_write_disjoint disjoint_range_def valid_page_def)
  have inv: "kmem_inv kend (r\<lparr>pmem := memset (pmem r) q 0 4096\<rparr>) ps" if "kmem_inv kend r ps" "valid_page kend q" "q \<notin> set ps" for r q
    using that fl_path_same_outside [OF _ same_outside_memset, of "pmem r" "freelist r" ps kend q]
    by (simp add: kmem_inv_def)
  have "kmem_inv kend (k3\<lparr>pmem := ?m3\<rparr>) ps"
    using inv [OF inv [OF inv [OF k3(2) v(1)] v(2)] v(3)] v(4) by simp
  moreover have "mem_read ?m3 d 4096 = replicate 4096 0" "mem_read ?m3 a 4096 = replicate 4096 0" "mem_read ?m3 u 4096 = replicate 4096 0"
    using keep zero v by simp_all
  moreover have "d \<noteq> 0" "a \<noteq> 0" "u \<noteq> 0" using v by (auto simp: valid_page_def)
  ultimately show ?thesis using that assms(1) k1(1) k2(1) k3(1) by (simp add: virtio_disk_init_def Let_def busy_desc_def)
qed

text \<open>The registers of a block device as the specification documents them.\<close>

definition virtio_registers :: "((u32 \<times> u32) list \<Rightarrow> u32 \<Rightarrow> u32) \<Rightarrow> bool" where
  "virtio_registers rd \<longleftrightarrow>
     rd [] VIRTIO_MMIO_MAGIC_VALUE = 0x74726976 \<and> rd [] VIRTIO_MMIO_VERSION = 2 \<and>
     rd [] VIRTIO_MMIO_DEVICE_ID = 2 \<and> rd [] VIRTIO_MMIO_VENDOR_ID = 0x554d4551 \<and>
     (\<forall>ws. rd ws VIRTIO_MMIO_STATUS AND VIRTIO_CONFIG_S_FEATURES_OK \<noteq> 0) \<and>
     (\<forall>ws. rd ws VIRTIO_MMIO_QUEUE_READY = 0) \<and> (\<forall>ws. of_nat NUM \<le> rd ws VIRTIO_MMIO_QUEUE_NUM_MAX)"

text \<open>The 64-bit address that the last writes to two registers have programmed.\<close>

definition programmed :: "(u32 \<times> u32) list \<Rightarrow> u32 \<Rightarrow> u32 \<Rightarrow> u64 option" where
  "programmed ws lo hi =
     (case (map_of (rev ws) lo, map_of (rev ws) hi) of
        (Some l, Some h) \<Rightarrow> Some (push_bit 32 (ucast h) OR ucast l)
      | _ \<Rightarrow> None)"

lemma address_halves: "push_bit 32 (ucast (ucast (drop_bit 32 x) :: u32)) OR ucast (ucast x :: u32) = (x :: u64)"
  by (rule bit_word_eqI) (auto simp: bit_simps)

lemma example_registers_ok: "virtio_registers example_registers"
  by (simp add: virtio_registers_def example_registers_def virtio_mmio_defs NUM_def)

lemma virtio_registers_handshake: "virtio_registers rd \<Longrightarrow> \<exists>ws st. init_handshake rd = Inr (ws, st)"
  by (rule init_handshake_ok) (simp_all add: virtio_registers_def)

lemma init_without_pages:
  assumes "init_handshake rd = Inr (ws, st)" and "kmem_inv kend k ps" and "length ps < 3"
  shows "virtio_disk_init rd s k = Inl (Panic ''virtio disk kalloc'')"
proof -
  obtain d k1 where 1: "kalloc k = (d, k1)" by fastforce
  obtain a k2 where 2: "kalloc k1 = (a, k2)" by fastforce
  obtain u k3 where 3: "kalloc k2 = (u, k3)" by fastforce
  have "d = 0 \<or> a = 0 \<or> u = 0"
  proof (cases ps)
    case Nil
    then show ?thesis using kalloc_empty [of kend k] assms(2) 1 by simp
  next
    case (Cons p qs)
    then have q: "kmem_inv kend k1 qs" using kmem.alloc_page [of kend k p qs] assms(2) 1 by auto
    show ?thesis
    proof (cases qs)
      case Nil
      then show ?thesis using kalloc_empty [of kend k1] q 2 by simp
    next
      case (Cons p' rs)
      then have "kmem_inv kend k2 rs" "rs = []" using kmem.alloc_page [of kend k1 p' rs] q 2 assms(3) \<open>ps = p # qs\<close> by auto
      then show ?thesis using kalloc_empty [of kend k2] 3 by simp
    qed
  qed
  then show ?thesis using assms(1) 1 2 3 by (simp add: virtio_disk_init_def Let_def)
qed


lemma queue_pages: "\<exists>k :: kmem_state. kmem_inv 0x80020000 k [0x80021000, 0x80022000, 0x80023000]"
proof -
  let ?e = "0x80020000 :: u64"
  have v: "valid_page ?e 0x80021000" "valid_page ?e 0x80022000" "valid_page ?e 0x80023000"
    by (simp_all add: valid_page_def page_aligned_def PGSIZE_def PHYSTOP_def KERNBASE_def)
  have "kmem_inv ?e (\<lparr>pmem = (\<lambda>_. 0), freelist = 0\<rparr> :: kmem_state) []" by (simp add: kmem_inv_def)
  then obtain k1 :: kmem_state where "kmem_inv ?e k1 [0x80023000]" using kfree_valid [OF _ v(3)] by fastforce
  then obtain k2 :: kmem_state where "kmem_inv ?e k2 [0x80022000, 0x80023000]" using kfree_valid [OF _ v(2)] by fastforce
  then show ?thesis using kfree_valid [OF _ v(1)] by fastforce
qed


text \<open>A state in which one call has just been made.\<close>

definition first_call :: "vdisk \<Rightarrow> vdisk" where
  "first_call s = set_vthr 0 (VTry 7 False)
     (s\<lparr>vbuf := (vbuf s)(7 := (vbuf s 7)\<lparr>vb_blockno := 33, vb_data := replicate BSIZE 0\<rparr>)\<rparr>)"

lemma example_run:
  obtains s where "running dev_step s" "vthr s = (\<lambda>_. VIdle)" "\<not> in_intr s" "vstep dev_step s (first_call s)"
proof -
  obtain k :: kmem_state where k: "kmem_inv 0x80020000 k [0x80021000, 0x80022000, 0x80023000]" using queue_pages by blast
  obtain hs st where "init_handshake example_registers = Inr (hs, st)" using virtio_registers_handshake example_registers_ok by blast
  then obtain ws s k' where init: "virtio_disk_init example_registers example_boot k = Inr (ws, s, k')"
    using virtio_disk_init_page [OF _ k] by metis
  have "at_boot example_boot" by (simp add: at_boot_def example_boot_def)
  then have r: "running dev_step s" using init by (rule running.init)
  have s: "vthr s = (\<lambda>_. VIdle)" "\<not> in_intr s"
    by (rule virtio_disk_init_state [OF init], simp add: example_boot_def)+
  have "vstep dev_step s (first_call s)"
    unfolding first_call_def by (rule vstep.call) (simp_all add: s(1))
  then show ?thesis using that r s by blast
qed

text \<open>
  C3. The disk driver refines atomic disk operations. With a device that follows the virtio
  specification, and whatever the interleaving of the threads that call \<^verbatim>\<open>virtio_disk_rw\<close>, of the
  device (which may complete requests out of order) and of \<^verbatim>\<open>virtio_disk_intr\<close>, every step of the
  system is either invisible to the callers or one step of the specification: a call, the transfer
  of one pending request by \<open>virtio_disk_rw\<close> on the disk and the buffer of the caller, or the return
  of a call that has been served. So each call is served exactly once, between its start and its
  return.
\<close>

theorem virtio_disk_refines:
  assumes "follows_virtio D" and "running D s" and "vstep D s s'"
  shows "disk_of c s' = disk_of c s \<or> disk_step (disk_of c s) (disk_of c s')"
  using vstep_refines [OF assms(1) running_vinv [OF assms(1,2)] assms(3), of c] by blast

theorem virtio_disk_refines_witness:
  "\<exists>s s'. follows_virtio dev_step \<and> running dev_step s \<and> vstep dev_step s s' \<and>
     (\<forall>c :: bio_state. disk_step (disk_of c s) (disk_of c s'))"
proof -
  obtain s where s: "running dev_step s" "vthr s = (\<lambda>_. VIdle)" "vstep dev_step s (first_call s)" using example_run by blast
  have "req_of (first_call s) 0 \<noteq> req_of s 0" by (simp add: req_of_def first_call_def set_vthr_def s(2))
  then have "disk_of c (first_call s) \<noteq> disk_of c s" for c :: bio_state by (auto simp: disk_of_def)
  then show ?thesis using virtio_disk_refines [OF follows_virtio_dev_step s(1,3)] follows_virtio_dev_step s(1,3) by blast
qed



text \<open>
  C13. No lost wakeup in the disk driver: as long as some call has not returned, a thread can go on,
  or the interrupt handler is running or its interrupt is raised, or the device has work: it has been
  notified of requests it has not fetched, or has requests to carry out or completions to publish.
\<close>

theorem virtio_disk_no_lost_wakeup:
  assumes "follows_virtio D" and "running D s" and "vthr s t \<noteq> VIdle"
  shows "(\<exists>t b w. vthr s t = VTry b w) \<or> (\<exists>t b w h. vthr s t = VWait False b w h) \<or>
    in_intr s \<or> isr s \<noteq> 0 \<or> dev_last s \<noteq> avail_idx s \<and> notified s \<or> dev_todo s \<noteq> [] \<or> dev_done s \<noteq> []"
proof -
  note inv = vinvD [OF running_vinv [OF assms(1,2)]]
  have waits: ?thesis if p: "vthr s t = VWait z b w h" for t z b w h
  proof (cases z)
    case True
    then have "h \<in> set (pending s) \<union> set (completed s)" using waitingD(3,5) [OF inv(1) p] by blast
    then have "dev_last s \<noteq> avail_idx s \<or> dev_todo s \<noteq> [] \<or> dev_done s \<noteq> [] \<or> used_idx s \<noteq> used_dev s"
      by (auto simp: pending_def completed_def availq_def usedq_def)
    then show ?thesis using inv(3) unfolding wakeups_ok_def by blast
  qed (use p in auto)
  show ?thesis
  proof (cases "vthr s t")
    case (VSleepFree b w)
    then have "NUM < card (busy_desc s) + 3" using inv(3) unfolding wakeups_ok_def by blast
    then have "busy_desc s \<noteq> {}" by (auto simp: NUM_def)
    then obtain t z b w h where "vthr s t = VWait z b w h" using queues_okD(6) [OF inv(2)] by blast
    then show ?thesis by (rule waits)
  qed (use assms(3) waits in blast)+
qed

theorem virtio_disk_no_lost_wakeup_witness:
  "\<exists>s. running dev_step s \<and> vthr s 0 \<noteq> VIdle \<and>
    ((\<exists>t b w. vthr s t = VTry b w) \<or> (\<exists>t b w h. vthr s t = VWait False b w h) \<or>
     in_intr s \<or> isr s \<noteq> 0 \<or> dev_last s \<noteq> avail_idx s \<and> notified s \<or> dev_todo s \<noteq> [] \<or> dev_done s \<noteq> [])"
proof -
  obtain s where s: "running dev_step s" "vstep dev_step s (first_call s)" using example_run by blast
  have r: "running dev_step (first_call s)" using s by (rule running.step)
  have "vthr (first_call s) 0 \<noteq> VIdle" by (simp add: first_call_def set_vthr_def)
  then show ?thesis using virtio_disk_no_lost_wakeup [OF follows_virtio_dev_step r] r by blast
qed

end
