(* ===== verification/Xv6_Frames.thy ===== *)
theory Xv6_Frames
  imports Xv6_Fs
begin

text \<open>
  What the file system leaves alone: every operation of \<open>Xv6_Bio\<close>, \<open>Xv6_Log\<close> and \<open>Xv6_Fs\<close>, whatever
  its result and without any precondition, keeps the free list, the identity of the running
  process and all kernel state above the file system.
\<close>

section \<open>Frames\<close>

definition fs_frame :: "'z fs_state_scheme \<Rightarrow> 'z fs_state_scheme \<Rightarrow> bool" where
  "fs_frame s s' \<longleftrightarrow> freelist s' = freelist s \<and> curpid s' = curpid s \<and> upagetable s' = upagetable s \<and>
     cwd s' = cwd s \<and> fs_state.more s' = fs_state.more s"

lemma fs_frame_refl [simp]: "fs_frame s s"
  by (simp add: fs_frame_def)

lemma fs_frame_trans [trans]: "fs_frame s s' \<Longrightarrow> fs_frame s' s'' \<Longrightarrow> fs_frame s s''"
  by (simp add: fs_frame_def)

lemma fs_frame_upd [simp]:
  "fs_frame s (s'\<lparr>pmem := m\<rparr>) = fs_frame s s'" "fs_frame s (upd_buf i f s') = fs_frame s s'"
  "fs_frame s (s'\<lparr>disk := d\<rparr>) = fs_frame s s'" "fs_frame s (s'\<lparr>dwrites := w\<rparr>) = fs_frame s s'"
  "fs_frame s (s'\<lparr>lh_n := n\<rparr>) = fs_frame s s'" "fs_frame s (s'\<lparr>lh_block := bl\<rparr>) = fs_frame s s'"
  "fs_frame s (s'\<lparr>outstanding := k\<rparr>) = fs_frame s s'" "fs_frame s (s'\<lparr>committing := c\<rparr>) = fs_frame s s'"
  "fs_frame s (upd_inode i g s') = fs_frame s s'" "fs_frame s (upd_dinode i h s') = fs_frame s s'"
  "fs_frame s (set_addr i j a s') = fs_frame s s'" "fs_frame s (set_data i x s') = fs_frame s s'"
  by (simp_all add: fs_frame_def upd_buf_def upd_inode_def upd_dinode_def set_addr_def set_data_def)

lemma fs_frame_from [simp]:
  "fs_frame (s\<lparr>pmem := m\<rparr>) s' = fs_frame s s'" "fs_frame (upd_buf i f s) s' = fs_frame s s'"
  "fs_frame (s\<lparr>disk := d\<rparr>) s' = fs_frame s s'" "fs_frame (s\<lparr>dwrites := w\<rparr>) s' = fs_frame s s'"
  "fs_frame (s\<lparr>lh_n := n\<rparr>) s' = fs_frame s s'" "fs_frame (s\<lparr>lh_block := bl\<rparr>) s' = fs_frame s s'"
  "fs_frame (s\<lparr>outstanding := k\<rparr>) s' = fs_frame s s'" "fs_frame (s\<lparr>committing := c\<rparr>) s' = fs_frame s s'"
  "fs_frame (upd_inode i g s) s' = fs_frame s s'" "fs_frame (upd_dinode i h s) s' = fs_frame s s'"
  "fs_frame (set_addr i j a s) s' = fs_frame s s'" "fs_frame (set_data i x s) s' = fs_frame s s'"
  by (simp_all add: fs_frame_def upd_buf_def upd_inode_def upd_dinode_def set_addr_def set_data_def)

text \<open>A bind keeps the frame when both parts do.\<close>

lemma frame_bind1:
  "kbind m f = Inr y \<Longrightarrow> (\<And>x. m = Inr x \<Longrightarrow> fs_frame s x) \<Longrightarrow>
   (\<And>x. m = Inr x \<Longrightarrow> f x = Inr y \<Longrightarrow> fs_frame x s') \<Longrightarrow> fs_frame s s'"
  by (auto simp: kbind_eq_Inr intro: fs_frame_trans)

lemma frame_bind2:
  "kbind m f = Inr y \<Longrightarrow> (\<And>a x. m = Inr (a, x) \<Longrightarrow> fs_frame s x) \<Longrightarrow>
   (\<And>a x. m = Inr (a, x) \<Longrightarrow> f (a, x) = Inr y \<Longrightarrow> fs_frame x s') \<Longrightarrow> fs_frame s s'"
  by (auto simp: kbind_eq_Inr intro: fs_frame_trans)

section \<open>Buffers and the log\<close>

lemma bread_frame: "bread dev b s = Inr (i, s') \<Longrightarrow> fs_frame s s'"
  by (auto simp: bread_def bget_def lock_buf_def virtio_disk_rw_def kbind_eq_Inr split: option.splits if_splits)

lemma bwrite_frame: "bwrite i s = Inr s' \<Longrightarrow> fs_frame s s'"
  by (auto simp: bwrite_def virtio_disk_rw_def split: if_splits)

lemma brelse_frame: "brelse i s = Inr s' \<Longrightarrow> fs_frame s s'"
  by (auto simp: brelse_def Let_def list_push_def list_unlink_def split: if_splits)

lemma log_write_frame: "log_write i s = Inr s' \<Longrightarrow> fs_frame s s'"
  by (auto simp: log_write_def Let_def bpin_def split: if_splits)

lemma write_log_block_frame: "write_log_block t s = Inr s' \<Longrightarrow> fs_frame s s'"
  by (auto simp: write_log_block_def split: if_splits
      elim!: frame_bind2 frame_bind1 dest: bread_frame bwrite_frame brelse_frame)

lemma write_log_loop_frame: "write_log_loop t k s = Inr s' \<Longrightarrow> fs_frame s s'"
  by (induction k arbitrary: t s) (auto elim!: frame_bind1 dest: write_log_block_frame)

lemma install_block_frame: "install_block r t s = Inr s' \<Longrightarrow> fs_frame s s'"
  by (auto simp: install_block_def Let_def bunpin_def split: if_splits
      elim!: frame_bind2 frame_bind1 dest: bread_frame bwrite_frame brelse_frame)

lemma install_loop_frame: "install_loop r t k s = Inr s' \<Longrightarrow> fs_frame s s'"
  by (induction k arbitrary: t s) (auto elim!: frame_bind1 dest: install_block_frame)

lemma write_head_frame: "write_head s = Inr s' \<Longrightarrow> fs_frame s s'"
proof -
  assume "write_head s = Inr s'"
  then obtain i s1 d s2 where "bread (log_dev s) (log_start s) s = Inr (i, s1)"
    "bwrite i (set_data i d s1) = Inr s2" "brelse i s2 = Inr s'"
    by (auto simp: write_head_def kbind_eq_Inr)
  from bread_frame [OF this(1)] bwrite_frame [OF this(2)] brelse_frame [OF this(3)]
  show ?thesis by (auto intro: fs_frame_trans)
qed

lemma commit_frame: "commit s = Inr s' \<Longrightarrow> fs_frame s s'"
  by (auto simp: commit_def write_log_def install_trans_def split: if_splits
      elim!: frame_bind1 dest: write_log_loop_frame install_loop_frame dest!: write_head_frame)

lemma begin_op_frame: "begin_op s = Inr s' \<Longrightarrow> fs_frame s s'"
  by (auto simp: begin_op_def split: if_splits)

lemma end_op_frame: "end_op s = Inr s' \<Longrightarrow> fs_frame s s'"
  by (auto simp: end_op_def Let_def kbind_eq_Inr split: if_splits dest!: commit_frame)

lemmas log_frames = bread_frame bwrite_frame brelse_frame log_write_frame begin_op_frame end_op_frame

section \<open>Blocks and inodes\<close>

lemma bzero_frame: "bzero dev b s = Inr s' \<Longrightarrow> fs_frame s s'"
  by (auto simp: bzero_def elim!: frame_bind2 frame_bind1 dest: log_frames dest!: log_write_frame)

lemma balloc_take_frame:
  "kbind (log_write bp (set_data bp d s)) (\<lambda>s. kbind (brelse bp s) (\<lambda>s.
   kbind (bzero dev n s) (\<lambda>s. Inr (n, s)))) = Inr (r, s') \<Longrightarrow> fs_frame s s'"
  by (auto elim!: frame_bind1 dest: brelse_frame bzero_frame dest!: log_write_frame)

lemma balloc_loop_frame: "balloc_loop dev b s = Inr (r, s') \<Longrightarrow> fs_frame s s'"
proof (induction dev b s rule: balloc_loop.induct)
  case (1 dev b s)
  show ?case
  proof (cases "unat (sb_size (sb s)) \<le> b \<or> 2 ^ 31 \<le> b + BPB")
    case True
    with 1(2) show ?thesis by (subst (asm) balloc_loop.simps) (auto split: if_splits)
  next
    case False
    let ?n = "min BPB (unat (sb_size (sb s)) - b)"
    from 1(2) False obtain bp s1 where br: "bread dev (BBLOCK (of_nat b) (sb s)) s = Inr (bp, s1)"
      by (subst (asm) balloc_loop.simps) (auto simp: kbind_eq_Inr)
    let ?d = "get_data bp s1"
    show ?thesis
    proof (cases "find (\<lambda>bi. ?d ! (bi div 8) AND bmask bi = 0) [0..<?n]")
      case None
      with 1(2) False br obtain s2 where "brelse bp s1 = Inr s2" "balloc_loop dev (b + BPB) s2 = Inr (r, s')"
        by (subst (asm) balloc_loop.simps) (auto simp: kbind_eq_Inr Let_def)
      with 1(1) [OF _ _ br refl refl None] False bread_frame [OF br] brelse_frame
      show ?thesis by (blast intro: fs_frame_trans)
    next
      case (Some bi)
      from 1(2) False br Some have "fs_frame s1 s'"
        by (subst (asm) balloc_loop.simps) (auto simp: Let_def dest: balloc_take_frame)
      with bread_frame [OF br] show ?thesis by (rule fs_frame_trans)
    qed
  qed
qed

lemma balloc_frame: "balloc dev s = Inr (r, s') \<Longrightarrow> fs_frame s s'"
  unfolding balloc_def by (rule balloc_loop_frame)

lemma bfree_frame: "bfree dev b s = Inr s' \<Longrightarrow> fs_frame s s'"
  by (auto simp: bfree_def Let_def split: if_splits elim!: frame_bind2 frame_bind1
      dest: bread_frame brelse_frame dest!: log_write_frame)

lemma iget_frame: "iget dev n s = Inr (i, s') \<Longrightarrow> fs_frame s s'"
  by (auto simp: iget_def split: option.splits)

lemma idup_frame: "idup i s = (j, s') \<Longrightarrow> fs_frame s s'"
  by (auto simp: idup_def)

lemma ialloc_loop_frame: "ialloc_loop dev typ is s = Inr (r, s') \<Longrightarrow> fs_frame s s'"
proof (induction "is" arbitrary: s)
  case (Cons i "is")
  from Cons.prems show ?case
    by (auto simp: Let_def split: if_splits elim!: frame_bind2 frame_bind1
        dest: bread_frame brelse_frame iget_frame Cons.IH dest!: log_write_frame)
qed simp

lemma iupdate_frame: "iupdate i s = Inr s' \<Longrightarrow> fs_frame s s'"
  by (auto simp: iupdate_def Let_def elim!: frame_bind2 frame_bind1
      dest: bread_frame brelse_frame dest!: log_write_frame)

lemma ilock_frame: "ilock i s = Inr s' \<Longrightarrow> fs_frame s s'"
proof -
  assume a: "ilock i s = Inr s'"
  then obtain lk where lk: "acquiresleep (curpid s) (i_lock (itable s i)) = Inr lk" "\<not> i_ref (itable s i) < 1"
    by (auto simp: ilock_def kbind_eq_Inr split: if_splits)
  show ?thesis
  proof (cases "i_valid (itable (upd_inode i (\<lambda>n. n\<lparr>i_lock := lk\<rparr>) s) i)")
    case True
    with a lk show ?thesis by (auto simp: ilock_def Let_def)
  next
    case False
    with a lk obtain bp s1 n s2 g where "bread (i_dev (itable (upd_inode i (\<lambda>n. n\<lparr>i_lock := lk\<rparr>) s) i)) n
        (upd_inode i (\<lambda>n. n\<lparr>i_lock := lk\<rparr>) s) = Inr (bp, s1)"
      "brelse bp (upd_inode i g s1) = Inr s2" "s' = upd_inode i (\<lambda>n. n\<lparr>i_valid := True\<rparr>) s2"
      by (auto simp: ilock_def Let_def kbind_eq_Inr split: if_splits)
    then show ?thesis by (auto dest!: bread_frame brelse_frame intro: fs_frame_trans)
  qed
qed

lemma iunlock_frame: "iunlock i s = Inr s' \<Longrightarrow> fs_frame s s'"
  by (auto simp: iunlock_def split: if_splits)

lemma free_direct_frame: "free_direct i ks s = Inr s' \<Longrightarrow> fs_frame s s'"
proof (induction ks arbitrary: s)
  case (Cons k ks)
  from Cons.prems show ?case
    by (auto simp: Let_def kbind_eq_Inr split: if_splits dest!: bfree_frame Cons.IH intro: fs_frame_trans)
qed simp

lemma free_blocks_frame: "free_blocks dev as s = Inr s' \<Longrightarrow> fs_frame s s'"
proof (induction as arbitrary: s)
  case (Cons a as)
  from Cons.prems show ?case
    by (auto simp: kbind_eq_Inr split: if_splits dest!: bfree_frame Cons.IH intro: fs_frame_trans)
qed simp

lemma free_indirect_frame:
  "(if a \<noteq> 0
    then kbind (bread dev a s) (\<lambda>(bp, s). kbind (free_blocks dev (f bp s) s) (\<lambda>s.
         kbind (brelse bp s) (\<lambda>s. kbind (bfree dev a s) (\<lambda>s. Inr (set_addr i NDIRECT 0 s)))))
    else Inr s) = Inr s' \<Longrightarrow> fs_frame s s'"
  by (auto split: if_splits elim!: frame_bind1 frame_bind2
      dest: bread_frame free_blocks_frame brelse_frame bfree_frame)

lemma itrunc_frame: "itrunc i s = Inr s' \<Longrightarrow> fs_frame s s'"
  unfolding itrunc_def Let_def kbind_eq_Inr
  by (elim exE conjE, drule free_direct_frame, drule free_indirect_frame, drule iupdate_frame)
     (simp, blast intro: fs_frame_trans)

lemma iput_frame: "iput i s = Inr s' \<Longrightarrow> fs_frame s s'"
  by (auto simp: iput_def kbind_eq_Inr split: if_splits dest!: itrunc_frame iupdate_frame intro: fs_frame_trans)

lemma iunlockput_frame: "iunlockput i s = Inr s' \<Longrightarrow> fs_frame s s'"
  by (auto simp: iunlockput_def kbind_eq_Inr dest!: iunlock_frame iput_frame intro: fs_frame_trans)

lemma ialloc_frame: "ialloc dev typ s = Inr (r, s') \<Longrightarrow> fs_frame s s'"
  unfolding ialloc_def by (rule ialloc_loop_frame)

lemma addr_slot_frame: "addr_slot i k s = Inr (a, s') \<Longrightarrow> fs_frame s s'"
  by (auto simp: addr_slot_def Let_def kbind_eq_Inr split: if_splits dest!: balloc_frame)

lemma indirect_slot_frame:
  "(if a \<noteq> 0 then Inr (a, s)
    else kbind (balloc dev s) (\<lambda>(a, s). if a = 0 then Inr (a, s)
      else kbind (log_write bp (set_data bp (f a s) s)) (\<lambda>s. Inr (a, s)))) = Inr (r, s') \<Longrightarrow> fs_frame s s'"
  by (auto simp: kbind_eq_Inr split: if_splits dest!: balloc_frame log_write_frame intro: fs_frame_trans)

lemma bmap_frame: "bmap i bn s = Inr (a, s') \<Longrightarrow> fs_frame s s'"
proof -
  assume b: "bmap i bn s = Inr (a, s')"
  show ?thesis
  proof (cases "bn < NDIRECT")
    case True
    with b show ?thesis by (auto simp: bmap_def dest: addr_slot_frame)
  next
    case False
    with b obtain ad s1 where s1: "addr_slot i NDIRECT s = Inr (ad, s1)"
      by (auto simp: bmap_def Let_def kbind_eq_Inr split: if_splits)
    show ?thesis
    proof (cases "ad = 0")
      case True
      with b False s1 show ?thesis by (auto simp: bmap_def Let_def split: if_splits dest: addr_slot_frame)
    next
      case nz: False
      from b False s1 nz obtain bp s2 x s3 where c: "bread (i_dev (itable s1 i)) ad s1 = Inr (bp, s2)"
        "(let a = get32 (get_data bp s2) (4 * (bn - NDIRECT)) in
           if a \<noteq> 0 then Inr (a, s2)
           else kbind (balloc (i_dev (itable s2 i)) s2) (\<lambda>(a, s). if a = 0 then Inr (a, s)
             else kbind (log_write bp (set_data bp (put32 (get_data bp s) (4 * (bn - NDIRECT)) a) s))
                    (\<lambda>s. Inr (a, s)))) = Inr (x, s3)" "brelse bp s3 = Inr s'"
        by (auto simp: bmap_def Let_def kbind_eq_Inr split: if_splits)
      from c(2) have "fs_frame s2 s3" unfolding Let_def by (rule indirect_slot_frame)
      with addr_slot_frame [OF s1] bread_frame [OF c(1)] brelse_frame [OF c(3)] show ?thesis
        by (blast intro: fs_frame_trans)
    qed
  qed
qed

section \<open>Content and directories\<close>

lemma either_copyout_frame: "either_copyout dst bs s = Inr (r, ks, s') \<Longrightarrow> fs_frame s s'"
proof (cases dst)
  case (UserDst a)
  assume "either_copyout dst bs s = Inr (r, ks, s')"
  then have "copyout (upagetable s) a bs s = Inr (r, s')" using UserDst by (auto simp: kbind_eq_Inr)
  from copyout_frame [OF this] have "s' = s\<lparr>pmem := pmem s'\<rparr>" .
  then have "fs_frame s (s\<lparr>pmem := pmem s'\<rparr>) = fs_frame s s'" by simp
  then show ?thesis by simp
qed simp

lemma readi_loop_frame: "readi_loop i dst off tot n s = Inr (r, ks, s') \<Longrightarrow> fs_frame s s'"
proof (induction i dst off tot n s arbitrary: r ks rule: readi_loop.induct)
  case (1 i dst off tot n s)
  show ?case
  proof (cases "n \<le> tot")
    case True
    with 1(2) show ?thesis by (subst (asm) readi_loop.simps) simp
  next
    case False
    from 1(2) False obtain ad s1 where b: "bmap i (off div BSIZE) s = Inr (ad, s1)"
      by (subst (asm) readi_loop.simps) (auto simp: kbind_eq_Inr)
    show ?thesis
    proof (cases "ad = 0")
      case True
      with 1(2) False b show ?thesis by (subst (asm) readi_loop.simps) (auto dest: bmap_frame)
    next
      case nz: False
      let ?m = "blk_rest (n - tot) off"
      from 1(2) False b nz obtain bp s2 q ks' s3 s4 where c: "bread (i_dev (itable s1 i)) ad s1 = Inr (bp, s2)"
        "either_copyout dst (take ?m (drop (off mod BSIZE) (get_data bp s2))) s2 = Inr (q, ks', s3)"
        "brelse bp s3 = Inr s4"
        by (subst (asm) readi_loop.simps) (auto simp: kbind_eq_Inr Let_def)
      have f: "fs_frame s s4"
        using bmap_frame [OF b] bread_frame [OF c(1)] either_copyout_frame [OF c(2)] brelse_frame [OF c(3)]
        by (blast intro: fs_frame_trans)
      show ?thesis
      proof (cases "q = -1")
        case True
        with 1(2) False b nz c f show ?thesis by (subst (asm) readi_loop.simps) (auto simp: Let_def)
      next
        case q: False
        with 1(2) False b nz c obtain t rest where
          "readi_loop i (adv_dst ?m dst) (off + ?m) (tot + ?m) n s4 = Inr (t, rest, s')"
          by (subst (asm) readi_loop.simps) (auto simp: Let_def kbind_eq_Inr)
        from 1(1) [OF False b refl nz c(1) refl refl c(2) refl refl c(3) q this] f show ?thesis
          by (blast intro: fs_frame_trans)
      qed
    qed
  qed
qed

lemma readi_frame: "readi i dst off n s = Inr (r, ks, s') \<Longrightarrow> fs_frame s s'"
  by (auto simp: readi_def Let_def split: if_splits dest: readi_loop_frame)

end
