(* ===== verification/Xv6_Procinv.thy ===== *)
theory Xv6_Procinv
  imports Xv6_Process Xv6_Frames
begin

text \<open>
  The process table under any interleaving of the process operations: what each operation of
  \<^verbatim>\<open>kernel/proc.c\<close> does to the identifiers, states, parents and channels of the table, the step
  relation made of them, and its invariants.
\<close>

section \<open>Effects on the process table\<close>

text \<open>File-system operations and the rest of the kernel state.\<close>

lemma fs_more_eq:
  fixes s s' :: "'z kstate_scheme"
  shows "fs_state.more s' = fs_state.more s \<Longrightarrow>
    procs s' = procs s \<and> cur s' = cur s \<and> initproc s' = initproc s \<and> nextpid s' = nextpid s \<and>
    ftable s' = ftable s \<and> pipes s' = pipes s \<and> cons s' = cons s \<and> uart s' = uart s"
  by (cases s; cases s') simp

lemma fs_more_frame:
  fixes s s' :: "'z kstate_scheme"
  assumes "fs_frame s s'"
  shows "procs s' = procs s" "cur s' = cur s" "initproc s' = initproc s" "nextpid s' = nextpid s"
    "ftable s' = ftable s" "pipes s' = pipes s" "cons s' = cons s" "uart s' = uart s"
  using assms fs_more_eq [of s' s] by (simp_all add: fs_frame_def)

lemma kmem_more_eq:
  fixes s s' :: "'z kstate_scheme"
  shows "kmem_state.more s' = kmem_state.more s \<Longrightarrow>
    initproc s' = initproc s \<and> nextpid s' = nextpid s \<and> itable s' = itable s"
  by (cases s; cases s') simp

lemma kmem_more_proc:
  fixes s s' :: "'z kstate_scheme"
  assumes "kmem_state.more s' = kmem_state.more s"
  shows "initproc s' = initproc s" "nextpid s' = nextpid s" "itable s' = itable s"
  using kmem_more_eq [OF assms] by simp_all

lemmas kmem_keeps = kmem_more_frame kmem_more_proc

text \<open>
  \<open>wakes s s'\<close>: the table of \<open>s'\<close> is that of \<open>s\<close> up to sleepers that were woken and fields that the
  invariants do not mention.
\<close>

definition wakes :: "'z kstate_scheme \<Rightarrow> 'z kstate_scheme \<Rightarrow> bool" where
  "wakes s s' \<longleftrightarrow> cur s' = cur s \<and> initproc s' = initproc s \<and> nextpid s' = nextpid s \<and>
     (\<forall>i. p_pid (procs s' i) = p_pid (procs s i) \<and> p_parent (procs s' i) = p_parent (procs s i) \<and>
          p_chan (procs s' i) = p_chan (procs s i) \<and>
          (p_state (procs s' i) = p_state (procs s i) \<or>
           p_state (procs s i) = SLEEPING \<and> p_state (procs s' i) = RUNNABLE))"

lemma wakes_refl [simp]: "wakes s s"
  by (simp add: wakes_def)

lemma wakes_trans [trans]:
  assumes "wakes s s'" "wakes s' s''"
  shows "wakes s s''"
  unfolding wakes_def
proof (intro conjI allI)
  fix i
  show "p_state (procs s'' i) = p_state (procs s i) \<or>
      p_state (procs s i) = SLEEPING \<and> p_state (procs s'' i) = RUNNABLE"
    using assms unfolding wakes_def by (metis procstate.distinct(25))
qed (use assms in \<open>simp_all add: wakes_def\<close>)

lemma wakes_proc:
  "wakes s s' \<Longrightarrow> p_pid (procs s' i) = p_pid (procs s i) \<and> p_parent (procs s' i) = p_parent (procs s i) \<and>
     p_chan (procs s' i) = p_chan (procs s i) \<and> (p_state (procs s' i) = p_state (procs s i) \<or>
       p_state (procs s i) = SLEEPING \<and> p_state (procs s' i) = RUNNABLE)"
  by (simp add: wakes_def)

lemma wakes_sleeping: "wakes s s' \<Longrightarrow> p_state (procs s' i) = SLEEPING \<Longrightarrow> p_state (procs s i) = SLEEPING"
  unfolding wakes_def by (metis procstate.distinct(25))

lemma wakes_fs: "fs_frame s s' \<Longrightarrow> wakes s s'"
  using fs_more_frame [of s s'] by (simp add: wakes_def)

lemma wakes_kmem: "kmem_state.more s' = kmem_state.more s \<Longrightarrow> wakes s s'"
  using kmem_keeps [of s' s] by (simp add: wakes_def)

lemma wakes_wakeup: "wakes s (wakeup c s)"
  by (auto simp: wakes_def procs_wakeup)

lemma wakes_upd [simp]:
  "wakes s (upd_file f g s') = wakes s s'" "wakes s (upd_pipe pi h s') = wakes s s'"
  by (simp_all add: wakes_def upd_file_def upd_pipe_def)

lemma wakes_upd_from [simp]:
  "wakes (upd_file f g s) s' = wakes s s'" "wakes (upd_pipe pi h s) s' = wakes s s'"
  by (simp_all add: wakes_def upd_file_def upd_pipe_def)

lemma wakes_upd_proc:
  assumes "\<And>p. p_pid (f p) = p_pid p" "\<And>p. p_parent (f p) = p_parent p"
    "\<And>p. p_chan (f p) = p_chan p" "\<And>p. p_state (f p) = p_state p"
  shows "wakes s (upd_proc i f s)"
  using assms by (simp add: wakes_def upd_proc_def)

lemma pipeclose_wakes: "pipeclose kend pi w s = Inr s' \<Longrightarrow> wakes s s'"
proof -
  assume p: "pipeclose kend pi w s = Inr s'"
  define s1 where "s1 = (if w then wakeup (ChanPipeRead pi) (upd_pipe pi (\<lambda>p. p\<lparr>pi_writeopen := False\<rparr>) s)
               else wakeup (ChanPipeWrite pi) (upd_pipe pi (\<lambda>p. p\<lparr>pi_readopen := False\<rparr>) s))"
  have "wakes s s1" 
    using wakes_wakeup [of "upd_pipe pi _ s"] by (simp add: s1_def)
  moreover have "wakes s1 s'"
    using p unfolding pipeclose_def s1_def [symmetric] Let_def
    by (auto split: if_splits dest!: kfree_more wakes_kmem)
  ultimately show ?thesis by (rule wakes_trans)
qed

lemma fileclose_wakes: "fileclose kend f s = Inr s' \<Longrightarrow> wakes s s'"
proof -
  assume c: "fileclose kend f s = Inr s'"
  have fs: "wakes s s'" if "kbind (begin_op s) (\<lambda>s. kbind (iput i s) end_op) = Inr s'" for s s' :: "'a kstate_scheme" and i
    using that by (auto simp: kbind_eq_Inr dest!: begin_op_frame iput_frame end_op_frame
        intro!: wakes_fs intro: fs_frame_trans)
  show ?thesis
    using c unfolding fileclose_def Let_def
    by (auto split: if_splits dest!: fs pipeclose_wakes)
qed

lemma close_files_wakes: "close_files E fds s = Inr s' \<Longrightarrow> wakes s s'"
proof (induction fds arbitrary: s)
  case (Cons fd fds)
  show ?case
  proof (cases "p_ofile (myproc s) ! fd")
    case None
    with Cons show ?thesis by simp
  next
    case (Some f)
    with Cons.prems obtain s1 where s1: "fileclose (k_end E) f s = Inr s1"
      "close_files E fds (upd_proc (cur s1) (\<lambda>p. p\<lparr>p_ofile := (p_ofile p)[fd := None]\<rparr>) s1) = Inr s'"
      by (auto simp: kbind_eq_Inr)
    note fileclose_wakes [OF s1(1)]
    also have "wakes s1 (upd_proc (cur s1) (\<lambda>p. p\<lparr>p_ofile := (p_ofile p)[fd := None]\<rparr>) s1)"
      by (rule wakes_upd_proc) simp_all
    also note Cons.IH [OF s1(2)]
    finally show ?thesis .
  qed
qed simp

lemma uvmfirst_more: "uvmfirst t src s = Inr s' \<Longrightarrow> kmem_state.more s' = kmem_state.more s"
  by (auto simp: uvmfirst_def Let_def kbind_eq_Inr split: if_splits prod.splits dest!: mappages_more kalloc_more)

lemma proc_pagetable_more: "proc_pagetable E i s = Inr (r, s') \<Longrightarrow> kmem_state.more s' = kmem_state.more s"
  by (auto simp: proc_pagetable_def Let_def kbind_eq_Inr split: if_splits prod.splits
      dest!: mappages_more uvmcreate_more uvmfree_more uvmunmap_more)

lemma proc_freepagetable_more:
  "proc_freepagetable E t sz s = Inr s' \<Longrightarrow> kmem_state.more s' = kmem_state.more s"
  by (auto simp: proc_freepagetable_def kbind_eq_Inr dest!: uvmfree_more uvmunmap_more)

section \<open>Allocating and freeing slots\<close>

text \<open>A slot after \<^verbatim>\<open>freeproc\<close>. The open files and the directory are left: \<^verbatim>\<open>exit\<close> has dropped them.\<close>

definition freed :: "proc \<Rightarrow> proc" where
  "freed p = p\<lparr>p_trapframe := 0, p_pagetable := 0, p_sz := 0, p_pid := 0, p_parent := None,
     p_name := (p_name p)[0 := 0], p_chan := None, p_killed := False, p_xstate := 0, p_state := UNUSED\<rparr>"

lemma freed_simps [simp]:
  "p_state (freed p) = UNUSED" "p_pid (freed p) = 0" "p_parent (freed p) = None" "p_chan (freed p) = None"
  "p_killed (freed p) = False" "p_ofile (freed p) = p_ofile p" "p_cwd (freed p) = p_cwd p"
  by (simp_all add: freed_def)

text \<open>The tables other than that of the processes, as far as they matter to it.\<close>

definition ksame :: "'z kstate_scheme \<Rightarrow> 'z kstate_scheme \<Rightarrow> bool" where
  "ksame s s' \<longleftrightarrow> cur s' = cur s \<and> initproc s' = initproc s \<and> ftable s' = ftable s \<and> itable s' = itable s"

lemma ksame_refl [simp]: "ksame s s" by (simp add: ksame_def)

lemma ksame_trans [trans]: "ksame s s' \<Longrightarrow> ksame s' s'' \<Longrightarrow> ksame s s''" by (simp add: ksame_def)

lemma ksame_more: "kmem_state.more s' = kmem_state.more s \<Longrightarrow> ksame s s'"
  using kmem_keeps [of s' s] by (simp add: ksame_def)

lemma ksame_upd [simp]: "ksame s (upd_proc i f s') = ksame s s'" "ksame (upd_proc i f s) s' = ksame s s'"
  by (simp_all add: ksame_def upd_proc_def)

lemma upd_proc_simps [simp]:
  "procs (upd_proc i f s) = (procs s)(i := f (procs s i))" "nextpid (upd_proc i f s) = nextpid s"
  "cur (upd_proc i f s) = cur s" "initproc (upd_proc i f s) = initproc s" "ftable (upd_proc i f s) = ftable s"
  "itable (upd_proc i f s) = itable s" "pmem (upd_proc i f s) = pmem s" "freelist (upd_proc i f s) = freelist s"
  by (simp_all add: upd_proc_def)

lemma freeproc_effect:
  assumes "freeproc E i s = Inr s'"
  shows "procs s' = (procs s)(i := freed (procs s i))" "nextpid s' = nextpid s" "ksame s s'"
proof -
  let ?t = "upd_proc i (\<lambda>p. p\<lparr>p_trapframe := 0\<rparr>)"
  from assms obtain s1 s2 where
    s1: "(if p_trapframe (procs s i) \<noteq> 0 then kfree (k_end E) (p_trapframe (procs s i)) s else Inr s) = Inr s1"
    and s2: "(if p_pagetable (procs (?t s1) i) \<noteq> 0
       then proc_freepagetable E (p_pagetable (procs (?t s1) i)) (p_sz (procs (?t s1) i)) (?t s1)
       else Inr (?t s1)) = Inr s2"
    and s': "s' = upd_proc i (\<lambda>p. p\<lparr>p_pagetable := 0, p_sz := 0, p_pid := 0, p_parent := None,
               p_name := (p_name p)[0 := 0], p_chan := None, p_killed := False, p_xstate := 0,
               p_state := UNUSED\<rparr>) s2"
    by (auto simp: freeproc_def Let_def kbind_eq_Inr)
  have m1: "kmem_state.more s1 = kmem_state.more s" using s1 by (auto split: if_splits dest: kfree_more)
  have m2: "kmem_state.more s2 = kmem_state.more (?t s1)"
    using s2 by (auto split: if_splits dest: proc_freepagetable_more)
  note k1 = kmem_keeps [OF m1] and k2 = kmem_keeps [OF m2]
  show "procs s' = (procs s)(i := freed (procs s i))" using k1(2) k2(2) by (simp add: s' freed_def)
  show "nextpid s' = nextpid s" using k1(10) k2(10) by (simp add: s')
  show "ksame s s'" using ksame_more [OF m1] ksame_more [OF m2] ksame_trans by (simp add: s') blast
qed

lemma allocpid_effect:
  assumes "allocpid s = Inr (pid, s')"
  shows "pid = nextpid s" "s' = s\<lparr>nextpid := nextpid s + 1\<rparr>"
  using assms by (auto simp: allocpid_def split: if_splits)

text \<open>
  \<^verbatim>\<open>allocproc\<close> takes the first unused slot, keeps its fields but for the ones it sets, and on
  failure leaves the slot unused.
\<close>

definition free_slot :: "'z kstate_scheme \<Rightarrow> nat option" where
  "free_slot s = find (\<lambda>i. p_state (procs s i) = UNUSED) [0..<NPROC]"

lemma free_slot_Some: "free_slot s = Some i \<Longrightarrow> i < NPROC \<and> p_state (procs s i) = UNUSED"
  by (auto simp: free_slot_def find_Some_iff)

lemma allocproc_effect:
  assumes "allocproc E s = Inr (r, s')"
  shows "ksame s s' \<and>
    (case r of
       None \<Rightarrow> (procs s' = procs s \<and> nextpid s' = nextpid s \<or>
         (\<exists>i p. free_slot s = Some i \<and> procs s' = (procs s)(i := freed p) \<and>
           p_ofile p = p_ofile (procs s i) \<and> nextpid s' = nextpid s + 1))
     | Some i \<Rightarrow> free_slot s = Some i \<and> nextpid s' = nextpid s + 1 \<and>
         (\<exists>tf pt ctx. procs s' = (procs s)(i := (procs s i)\<lparr>p_pid := nextpid s, p_state := USED,
            p_trapframe := tf, p_pagetable := pt, p_context := ctx\<rparr>)))"
proof (cases "free_slot s")
  case None
  with assms show ?thesis by (auto simp: allocproc_def free_slot_def)
next
  case (Some i)
  with assms obtain pid s1 where a: "allocpid s = Inr (pid, s1)"
    by (auto simp: allocproc_def free_slot_def kbind_eq_Inr)
  define s2 where "s2 = upd_proc i (\<lambda>p. p\<lparr>p_pid := pid, p_state := USED\<rparr>) s1"
  obtain tf s3 where k: "kalloc s2 = (tf, s3)" by force
  define s4 where "s4 = upd_proc i (\<lambda>p. p\<lparr>p_trapframe := tf\<rparr>) s3"
  note k3 = kmem_keeps [OF kalloc_more [OF k]] and ks3 = ksame_more [OF kalloc_more [OF k]]
  note al = allocpid_effect [OF a]
  have s4: "procs s4 = (procs s)(i := (procs s i)\<lparr>p_pid := nextpid s, p_state := USED, p_trapframe := tf\<rparr>)"
    "nextpid s4 = nextpid s + 1" "ksame s s4"
    using k3(2,10) al ks3 by (auto simp: s4_def s2_def ksame_def)
  show ?thesis
  proof (cases "tf = 0")
    case True
    from assms Some a k True obtain s5 where f: "freeproc E i s4 = Inr s5" "r = None" "s' = s5"
      by (auto simp: allocproc_def free_slot_def kbind_eq_Inr Let_def s2_def s4_def)
    from freeproc_effect [OF f(1)] s4 Some f show ?thesis by (auto intro: ksame_trans)
  next
    case False
    from assms Some a k False obtain pt s5 where pp: "proc_pagetable E i s4 = Inr (pt, s5)"
      by (auto simp: allocproc_def free_slot_def kbind_eq_Inr Let_def s2_def s4_def)
    define s6 where "s6 = upd_proc i (\<lambda>p. p\<lparr>p_pagetable := pt\<rparr>) s5"
    note k5 = kmem_keeps [OF proc_pagetable_more [OF pp]] and ks5 = ksame_more [OF proc_pagetable_more [OF pp]]
    have s6: "procs s6 = (procs s)(i := (procs s i)\<lparr>p_pid := nextpid s, p_state := USED, p_trapframe := tf,
        p_pagetable := pt\<rparr>)" "nextpid s6 = nextpid s + 1" "ksame s s6"
      using k5(2,10) s4 ks5 by (auto simp: s6_def intro: ksame_trans)
    show ?thesis
    proof (cases "pt = 0")
      case True
      from assms Some a k False pp True obtain s7 where f: "freeproc E i s6 = Inr s7" "r = None" "s' = s7"
        by (auto simp: allocproc_def free_slot_def kbind_eq_Inr Let_def s2_def s4_def s6_def)
      from freeproc_effect [OF f(1)] s6 Some f show ?thesis by (auto intro: ksame_trans)
    next
      case pt: False
      with assms Some a k False pp have "r = Some i"
        "s' = upd_proc i (\<lambda>p. p\<lparr>p_context := (replicate 14 0)[0 := k_forkret E, 1 := p_kstack p + PGSIZE]\<rparr>) s6"
        by (auto simp: allocproc_def free_slot_def kbind_eq_Inr Let_def s2_def s4_def s6_def)
      with s6 Some show ?thesis by auto
    qed
  qed
qed

section \<open>fork, exit and wait\<close>

lemma filedup_effect:
  "filedup f s = Inr (g, s') \<Longrightarrow> g = f \<and> s' = upd_file f (\<lambda>x. x\<lparr>f_ref := f_ref x + 1\<rparr>) s \<and> 1 \<le> f_ref (ftable s f)"
  by (auto simp: filedup_def split: if_splits)

lemma upd_file_simps [simp]:
  "procs (upd_file f g s) = procs s" "nextpid (upd_file f g s) = nextpid s" "cur (upd_file f g s) = cur s"
  "initproc (upd_file f g s) = initproc s" "itable (upd_file f g s) = itable s"
  "ftable (upd_file f g s) = (ftable s)(f := g (ftable s f))" "myproc (upd_file f g s) = myproc s"
  by (simp_all add: upd_file_def myproc_def)

lemma dup_files_effect:
  "dup_files np is s = Inr s' \<Longrightarrow> np \<noteq> cur s \<Longrightarrow>
   (\<exists>fs. procs s' = (procs s)(np := (procs s np)\<lparr>p_ofile := fs\<rparr>)) \<and>
   nextpid s' = nextpid s \<and> cur s' = cur s \<and> initproc s' = initproc s \<and> itable s' = itable s"
proof (induction "is" arbitrary: s)
  case Nil
  have "(procs s)(np := (procs s np)\<lparr>p_ofile := p_ofile (procs s np)\<rparr>) = procs s" by simp
  with Nil show ?case by (metis dup_files.simps(1) sum.inject(2))
next
  case (Cons i "is")
  show ?case
  proof (cases "p_ofile (myproc s) ! i")
    case None
    with Cons show ?thesis by simp
  next
    case (Some f)
    with Cons.prems obtain g s1 where s1: "filedup f s = Inr (g, s1)"
      "dup_files np is (upd_proc np (\<lambda>p. p\<lparr>p_ofile := (p_ofile p)[i := Some g]\<rparr>) s1) = Inr s'"
      by (auto simp: kbind_eq_Inr)
    from filedup_effect [OF s1(1)] Cons.IH [OF s1(2)] Cons.prems(2) show ?thesis
      by (auto simp del: fun_upd_apply simp: fun_upd_same)
  qed
qed

lemma idup_effect: "idup d s = (r, s') \<Longrightarrow> procs s' = procs s \<and> nextpid s' = nextpid s \<and> cur s' = cur s \<and>
   initproc s' = initproc s \<and> ftable s' = ftable s"
  by (auto simp: idup_def upd_inode_def)

lemma fork_child_effect:
  assumes "fork_child np s = Inr (r, s')" "np \<noteq> cur s"
  shows "\<exists>p. procs s' = (procs s)(np := p) \<and> r = p_pid (procs s np) \<and> p_pid p = r \<and> p_state p = RUNNABLE \<and>
     p_parent p = Some (cur s) \<and> p_chan p = p_chan (procs s np) \<and> p_killed p = p_killed (procs s np)"
    "nextpid s' = nextpid s" "cur s' = cur s" "initproc s' = initproc s"
proof -
  define s0 where "s0 = upd_proc np (\<lambda>p. p\<lparr>p_sz := p_sz (myproc s)\<rparr>) s"
  define s1 where "s1 = tf_set np (tf_a 0) 0 (s0\<lparr>pmem := mem_write (pmem s0) (p_trapframe (procs s0 np))
        (mem_read (pmem s0) (p_trapframe (myproc s0)) 288)\<rparr>)"
  have s1: "procs s1 = (procs s)(np := (procs s np)\<lparr>p_sz := p_sz (myproc s)\<rparr>)" "nextpid s1 = nextpid s"
    "cur s1 = cur s" "initproc s1 = initproc s"
    by (simp_all add: s1_def s0_def tf_set_def)
  from assms(1) obtain s2 d where s2: "dup_files np [0..<NOFILE] s1 = Inr s2" "p_cwd (myproc s2) = Some d"
    unfolding fork_child_def Let_def s0_def [symmetric] s1_def [symmetric]
    by (auto simp: kbind_eq_Inr split: option.split_asm)
  obtain d' s3 where s3: "idup d s2 = (d', s3)" by force
  note e2 = dup_files_effect [OF s2(1)] and e3 = idup_effect [OF s3]
  from assms(1) s2 s3 have rs: "r = p_pid (procs s3 np)"
    "s' = upd_proc np (\<lambda>p. p\<lparr>p_cwd := Some d', p_name := safestrcpy_list (p_name p) (p_name (myproc s3)) 16,
            p_parent := Some (cur s3), p_state := RUNNABLE\<rparr>) s3"
    unfolding fork_child_def Let_def s0_def [symmetric] s1_def [symmetric]
    by (auto simp: myproc_def upd_proc_def)
  show "nextpid s' = nextpid s" "cur s' = cur s" "initproc s' = initproc s"
    using e2 e3 s1 assms(2) by (auto simp: rs)
  show "\<exists>p. procs s' = (procs s)(np := p) \<and> r = p_pid (procs s np) \<and> p_pid p = r \<and> p_state p = RUNNABLE \<and>
     p_parent p = Some (cur s) \<and> p_chan p = p_chan (procs s np) \<and> p_killed p = p_killed (procs s np)"
    using e2 e3 s1 assms(2) by (auto simp: rs)
qed

text \<open>What \<^verbatim>\<open>fork\<close> does to the table: nothing, or one child in the first unused slot.\<close>

lemma fork_effect:
  assumes f: "fork E s = Inr (r, s')" and c: "p_state (myproc s) \<noteq> UNUSED"
  shows "cur s' = cur s \<and> initproc s' = initproc s \<and>
    (r = -1 \<and> procs s' = procs s \<and> nextpid s' = nextpid s \<or>
     (\<exists>i p. r = -1 \<and> free_slot s = Some i \<and> procs s' = (procs s)(i := freed p) \<and> nextpid s' = nextpid s + 1) \<or>
     (\<exists>i p. free_slot s = Some i \<and> procs s' = (procs s)(i := p) \<and> r = nextpid s \<and> p_pid p = r \<and>
        p_state p = RUNNABLE \<and> p_parent p = Some (cur s) \<and> p_killed p = p_killed (procs s i) \<and>
        nextpid s' = nextpid s + 1))"
proof -
  from f obtain a s1 where a: "allocproc E s = Inr (a, s1)" by (auto simp: fork_def kbind_eq_Inr)
  note ae = allocproc_effect [OF a]
  show ?thesis
  proof (cases a)
    case None
    with f a ae show ?thesis by (auto simp: fork_def ksame_def)
  next
    case (Some np)
    with ae have np: "free_slot s = Some np" "nextpid s1 = nextpid s + 1" and k1: "ksame s s1" by auto
    from Some ae obtain tf pt ctx where ps: "procs s1 = (procs s)(np := (procs s np)\<lparr>p_pid := nextpid s,
        p_state := USED, p_trapframe := tf, p_pagetable := pt, p_context := ctx\<rparr>)" by auto
    from f a Some obtain q s2 where u: "uvmcopy (k_end E) (p_pagetable (myproc s1)) (p_pagetable (procs s1 np))
        (p_sz (myproc s1)) s1 = Inr (q, s2)" by (auto simp: fork_def kbind_eq_Inr Let_def)
    note k2 = kmem_keeps [OF uvmcopy_more [OF u]]
    have nc: "np \<noteq> cur s" using free_slot_Some [OF np(1)] c by (auto simp: myproc_def)
    show ?thesis
    proof (cases "q < 0")
      case True
      from f a Some u True obtain s3 where "freeproc E np s2 = Inr s3" "r = -1" "s' = s3"
        by (auto simp: fork_def kbind_eq_Inr Let_def)
      with freeproc_effect [of E np s2 s3] k1 k2 np ps show ?thesis by (auto simp: ksame_def)
    next
      case False
      with f a Some u have fc: "fork_child np s2 = Inr (r, s')" by (simp add: fork_def Let_def)
      have "np \<noteq> cur s2" using nc k1 k2(3) by (simp add: ksame_def)
      from fork_child_effect [OF fc this] k1 k2 np ps show ?thesis by (auto simp: ksame_def)
    qed
  qed
qed

text \<open>\<^verbatim>\<open>reparent\<close> hands the children to init and wakes it if there are any.\<close>

lemma reparent_loop_simps:
  "cur (reparent_loop p is s) = cur s" "initproc (reparent_loop p is s) = initproc s"
  "nextpid (reparent_loop p is s) = nextpid s"
  by (induction "is" arbitrary: s) simp_all

lemma reparent_loop_proc:
  "p_pid (procs (reparent_loop p is s) i) = p_pid (procs s i) \<and>
   p_chan (procs (reparent_loop p is s) i) = p_chan (procs s i) \<and>
   p_parent (procs (reparent_loop p is s) i) =
     (if i \<in> set is \<and> p_parent (procs s i) = Some p then Some (initproc s) else p_parent (procs s i)) \<and>
   (p_state (procs (reparent_loop p is s) i) = p_state (procs s i) \<or>
    i \<noteq> cur s \<and> p_state (procs s i) = SLEEPING \<and> p_state (procs (reparent_loop p is s) i) = RUNNABLE)"
proof (induction "is" arbitrary: s)
  case (Cons j "is")
  show ?case
  proof (cases "p_parent (procs s j) = Some p")
    case True
    let ?s = "wakeup (ChanProc (initproc s)) (upd_proc j (\<lambda>q. q\<lparr>p_parent := Some (initproc s)\<rparr>) s)"
    from Cons.IH [of ?s] True show ?thesis by (auto simp: procs_wakeup split: if_splits)
  next
    case False
    with Cons.IH [of s] show ?thesis by auto
  qed
qed simp

lemma reparent_loop_wakes_init:
  "j \<in> set is \<Longrightarrow> p_parent (procs s j) = Some p \<Longrightarrow> i < NPROC \<Longrightarrow> i \<noteq> cur s \<Longrightarrow>
   p_state (procs (reparent_loop p is s) i) = SLEEPING \<Longrightarrow>
   p_chan (procs s i) \<noteq> Some (ChanProc (initproc s))"
proof (induction "is" arbitrary: s)
  case (Cons k "is")
  show ?case
  proof (cases "p_parent (procs s k) = Some p")
    case True
    let ?s = "wakeup (ChanProc (initproc s)) (upd_proc k (\<lambda>q. q\<lparr>p_parent := Some (initproc s)\<rparr>) s)"
    from reparent_loop_proc [of p "is" ?s i] True Cons.prems(3-5) show ?thesis
      by (auto simp: procs_wakeup split: if_splits)
  next
    case False
    with Cons show ?thesis by auto
  qed
qed simp

lemma exit_parts:
  assumes "exit E st s = Inr s'"
  obtains s1 where "wakes s s1" "cur s \<noteq> initproc s" "s' = exit_zombie st s1"
proof -
  from assms have ni: "cur s \<noteq> initproc s" by (auto simp: exit_def)
  with assms obtain a b c d s1 where e: "close_files E [0..<NOFILE] s = Inr a" "begin_op a = Inr b"
    "p_cwd (myproc b) = Some d" "iput d b = Inr c" "end_op c = Inr s1"
    and s': "s' = exit_zombie st (upd_proc (cur s1) (\<lambda>p. p\<lparr>p_cwd := None\<rparr>) s1)"
    unfolding exit_def by (auto simp: kbind_eq_Inr split: option.split_asm)
  have "wakes s a" by (rule close_files_wakes [OF e(1)])
  also have "wakes a s1"
    using begin_op_frame [OF e(2)] iput_frame [OF e(4)] end_op_frame [OF e(5)]
    by (blast intro: wakes_fs fs_frame_trans)
  also have "wakes s1 (upd_proc (cur s1) (\<lambda>p. p\<lparr>p_cwd := None\<rparr>) s1)"
    by (rule wakes_upd_proc) simp_all
  finally show ?thesis using ni s' by (rule that)
qed

lemmas reparent_simps = reparent_loop_simps [of _ "[0..<NPROC]", folded reparent_def]

lemmas reparent_proc = reparent_loop_proc [of _ "[0..<NPROC]", folded reparent_def]

lemmas reparent_wakes_init = reparent_loop_wakes_init [of _ "[0..<NPROC]", folded reparent_def]

definition wake_parent :: "'z kstate_scheme \<Rightarrow> 'z kstate_scheme" where
  "wake_parent s = (case p_parent (myproc s) of None \<Rightarrow> s | Some q \<Rightarrow> wakeup (ChanProc q) s)"

lemma wake_parent_wakes: "wakes s (wake_parent s)"
  by (simp add: wake_parent_def wakes_wakeup split: option.split)

lemma exit_zombie_alt:
  "exit_zombie st s = upd_proc (cur s) (\<lambda>p. p\<lparr>p_xstate := st, p_state := ZOMBIE\<rparr>) (wake_parent (reparent (cur s) s))"
proof -
  have "cur (wake_parent (reparent (cur s) s)) = cur s"
    using wake_parent_wakes [of "reparent (cur s) s"] by (simp add: wakes_def reparent_simps)
  then show ?thesis by (simp add: exit_zombie_def wake_parent_def Let_def)
qed

lemma exit_zombie_proc:
  "p_pid (procs (exit_zombie st s) i) = p_pid (procs s i) \<and>
   p_chan (procs (exit_zombie st s) i) = p_chan (procs s i) \<and>
   p_parent (procs (exit_zombie st s) i) =
     (if i < NPROC \<and> p_parent (procs s i) = Some (cur s) then Some (initproc s) else p_parent (procs s i)) \<and>
   (if i = cur s then p_state (procs (exit_zombie st s) i) = ZOMBIE
    else p_state (procs (exit_zombie st s) i) = p_state (procs s i) \<or>
      p_state (procs s i) = SLEEPING \<and> p_state (procs (exit_zombie st s) i) = RUNNABLE)"
  using wakes_proc [OF wake_parent_wakes, of "reparent (cur s) s" i] reparent_proc [of "cur s" s i]
  by (auto simp: exit_zombie_alt reparent_simps)

lemma exit_zombie_simps [simp]:
  "cur (exit_zombie st s) = cur s" "initproc (exit_zombie st s) = initproc s" "nextpid (exit_zombie st s) = nextpid s"
  using wake_parent_wakes [of "reparent (cur s) s"]
  by (simp_all add: exit_zombie_alt wakes_def reparent_simps)

text \<open>
  Who still sleeps on a process after an exit is not waiting for the new zombie, and if it is
  init, no child was handed to it.
\<close>

lemma exit_zombie_wakes:
  assumes "i < NPROC" "p_state (procs (exit_zombie st s) i) = SLEEPING" "p_chan (procs s i) = Some (ChanProc q)"
  shows "p_parent (procs (exit_zombie st s) (cur s)) \<noteq> Some q"
    "q = initproc s \<Longrightarrow> j < NPROC \<Longrightarrow> p_parent (procs s j) \<noteq> Some (cur s)"
proof -
  let ?r = "reparent (cur s) s" and ?w = "wake_parent (reparent (cur s) s)"
  have ic: "i \<noteq> cur s" using assms(2) by (auto simp: exit_zombie_alt)
  with assms(2) have w: "p_state (procs ?w i) = SLEEPING" by (simp add: exit_zombie_alt)
  with wake_parent_wakes have r: "p_state (procs ?r i) = SLEEPING" by (rule wakes_sleeping)
  have ch: "p_chan (procs ?r i) = Some (ChanProc q)" using assms(3) reparent_proc by metis
  show "p_parent (procs (exit_zombie st s) (cur s)) \<noteq> Some q"
  proof
    assume "p_parent (procs (exit_zombie st s) (cur s)) = Some q"
    with wake_parent_wakes [of ?r] have "p_parent (myproc ?r) = Some q"
      by (simp add: exit_zombie_alt wakes_def myproc_def reparent_simps)
    then have "?w = wakeup (ChanProc q) ?r" by (simp add: wake_parent_def)
    with w ch ic assms(1) show False by (auto simp: procs_wakeup reparent_simps split: if_splits)
  qed
  show "p_parent (procs s j) \<noteq> Some (cur s)" if "q = initproc s" "j < NPROC"
    using reparent_wakes_init [of j s "cur s" i] that assms(1,3) ic r by auto
qed

text \<open>\<^verbatim>\<open>wait\<close> frees one zombie child, fails, or finds that there is none.\<close>

lemma wait_scan_effect:
  "wait_scan E addr is h s = Inr (r, h', s') \<Longrightarrow>
   r = None \<and> s' = s \<and> (\<forall>j\<in>set is. p_parent (procs s j) = Some (cur s) \<longrightarrow> p_state (procs s j) \<noteq> ZOMBIE) \<or>
   r \<noteq> None \<and> ksame s s' \<and> nextpid s' = nextpid s \<and> (procs s' = procs s \<or>
     (\<exists>j\<in>set is. p_state (procs s j) = ZOMBIE \<and> p_parent (procs s j) = Some (cur s) \<and>
        procs s' = (procs s)(j := freed (procs s j))))"
proof (induction "is" arbitrary: h)
  case (Cons j "is")
  show ?case
  proof (cases "p_parent (procs s j) = Some (cur s) \<and> p_state (procs s j) = ZOMBIE")
    case False
    with Cons.prems have "\<exists>h. wait_scan E addr is h s = Inr (r, h', s')" by (auto simp: Let_def split: if_splits)
    with Cons.IH False show ?thesis by auto
  next
    case True
    with Cons.prems obtain q s1 where c: "(if addr \<noteq> 0
        then copyout (p_pagetable (myproc s)) addr (le_bytes 4 (unat (of_int (p_xstate (procs s j)) :: u32))) s
        else Inr (0, s)) = Inr (q, s1)" by (auto simp: Let_def kbind_eq_Inr)
    have m: "kmem_state.more s1 = kmem_state.more s" using c by (auto split: if_splits dest: copyout_more)
    note k = kmem_keeps [OF m] and ks = ksame_more [OF m]
    show ?thesis
    proof (cases "q < 0")
      case True
      with Cons.prems \<open>p_parent _ = _ \<and> _\<close> c k ks show ?thesis by (auto simp: Let_def)
    next
      case False
      with Cons.prems \<open>p_parent _ = _ \<and> _\<close> c obtain s2 where f: "freeproc E j s1 = Inr s2" "r \<noteq> None" "s' = s2"
        by (auto simp: Let_def kbind_eq_Inr)
      from freeproc_effect [OF f(1)] f(2,3) k ks True show ?thesis by (auto intro: ksame_trans)
    qed
  qed
qed simp

section \<open>The invariants of the process table\<close>

text \<open>
  Every used slot has an identifier of its own, below \<^verbatim>\<open>nextpid\<close>, and an unused slot has 0; only \<^verbatim>\<open>wait\<close>
  sleeps on a process, its own; and no process sleeps there while it has a zombie child.
\<close>

definition pid_inv :: "'z kstate_scheme \<Rightarrow> bool" where
  "pid_inv s \<longleftrightarrow> 1 \<le> nextpid s \<and>
     (\<forall>i<NPROC. if p_state (procs s i) = UNUSED then p_pid (procs s i) = 0
                else 0 < p_pid (procs s i) \<and> p_pid (procs s i) < nextpid s) \<and>
     (\<forall>i<NPROC. \<forall>j<NPROC. p_state (procs s i) \<noteq> UNUSED \<longrightarrow> p_pid (procs s i) = p_pid (procs s j) \<longrightarrow> i = j)"

definition waits :: "'z kstate_scheme \<Rightarrow> nat \<Rightarrow> bool" where
  "waits s i \<longleftrightarrow> p_state (procs s i) = SLEEPING \<and> p_chan (procs s i) = Some (ChanProc i)"

definition zombie_child :: "'z kstate_scheme \<Rightarrow> nat \<Rightarrow> nat \<Rightarrow> bool" where
  "zombie_child s i j \<longleftrightarrow> p_parent (procs s j) = Some i \<and> p_state (procs s j) = ZOMBIE"

definition wait_inv :: "'z kstate_scheme \<Rightarrow> bool" where
  "wait_inv s \<longleftrightarrow>
     (\<forall>i<NPROC. \<forall>q. p_state (procs s i) = SLEEPING \<longrightarrow> p_chan (procs s i) = Some (ChanProc q) \<longrightarrow> q = i) \<and>
     (\<forall>i<NPROC. waits s i \<longrightarrow> (\<forall>j<NPROC. \<not> zombie_child s i j))"

text \<open>
  The steps. A call is one step: \<^verbatim>\<open>wait_lock\<close> and the locks of the slots make it atomic towards the
  others. \<open>st_cpu\<close> lets any other CPU with a running process go next, \<open>st_other\<close> is all that leaves
  these fields alone: user code and the remaining system calls.
\<close>

definition running :: "'z kstate_scheme \<Rightarrow> bool" where
  "running s \<longleftrightarrow> cur s < NPROC \<and> p_state (myproc s) = RUNNING"

definition table_same :: "'z kstate_scheme \<Rightarrow> 'z kstate_scheme \<Rightarrow> bool" where
  "table_same s s' \<longleftrightarrow> cur s' = cur s \<and> initproc s' = initproc s \<and> nextpid s' = nextpid s \<and>
     (\<forall>i. p_pid (procs s' i) = p_pid (procs s i) \<and> p_parent (procs s' i) = p_parent (procs s i) \<and>
          p_chan (procs s' i) = p_chan (procs s i) \<and> p_state (procs s' i) = p_state (procs s i))"

inductive proc_step :: "kenv \<Rightarrow> 'z kstate_scheme \<Rightarrow> 'z kstate_scheme \<Rightarrow> bool" for E where
  st_fork: "running s \<Longrightarrow> fork E s = Inr (r, s') \<Longrightarrow> proc_step E s s'"
| st_exit: "running s \<Longrightarrow> exit E status s = Inr s' \<Longrightarrow> proc_step E s s'"
| st_wait: "running s \<Longrightarrow> wait E addr s = Inr (w, s') \<Longrightarrow> proc_step E s s'"
| st_kill: "kill pid s = (r, s') \<Longrightarrow> proc_step E s s'"
| st_sleep: "running s \<Longrightarrow> (\<And>q. c \<noteq> ChanProc q) \<Longrightarrow> proc_step E s (sleep_enter c s)"
| st_awake: "running s \<Longrightarrow> proc_step E s (sleep_leave s)"
| st_wakeup: "proc_step E s (wakeup c s)"
| st_yield: "running s \<Longrightarrow> yield c s = Inr s' \<Longrightarrow> proc_step E s s'"
| st_switch: "i < NPROC \<Longrightarrow> p_state (procs s i) = RUNNABLE \<Longrightarrow> proc_step E s (switch_to i s)"
| st_cpu: "i < NPROC \<Longrightarrow> p_state (procs s i) = RUNNING \<Longrightarrow> proc_step E s (s\<lparr>cur := i\<rparr>)"
| st_boot: "userinit E s = Inr s' \<Longrightarrow> proc_step E s s'"
| st_other: "table_same s s' \<Longrightarrow> proc_step E s s'"

lemma pid_range:
  "pid_inv s \<Longrightarrow> i < NPROC \<Longrightarrow> if p_state (procs s i) = UNUSED then p_pid (procs s i) = 0
     else 0 < p_pid (procs s i) \<and> p_pid (procs s i) < nextpid s"
  by (simp add: pid_inv_def)

lemma pid_inj:
  "pid_inv s \<Longrightarrow> i < NPROC \<Longrightarrow> j < NPROC \<Longrightarrow> p_state (procs s i) \<noteq> UNUSED \<Longrightarrow>
   p_pid (procs s i) = p_pid (procs s j) \<Longrightarrow> i = j"
  by (simp add: pid_inv_def)

lemma pid_invI:
  assumes "1 \<le> nextpid s" "\<And>i. i < NPROC \<Longrightarrow> if p_state (procs s i) = UNUSED then p_pid (procs s i) = 0
     else 0 < p_pid (procs s i) \<and> p_pid (procs s i) < nextpid s"
    "\<And>i j. i < NPROC \<Longrightarrow> j < NPROC \<Longrightarrow> p_state (procs s i) \<noteq> UNUSED \<Longrightarrow>
       p_pid (procs s i) = p_pid (procs s j) \<Longrightarrow> i = j"
  shows "pid_inv s"
  using assms by (simp add: pid_inv_def)

lemma pid_inv_wakes: "wakes s s' \<Longrightarrow> pid_inv s \<Longrightarrow> pid_inv s'"
  unfolding wakes_def pid_inv_def by (metis procstate.distinct(1-9))

lemma wait_inv_wakes: "wakes s s' \<Longrightarrow> wait_inv s \<Longrightarrow> wait_inv s'"
  unfolding wakes_def wait_inv_def waits_def zombie_child_def
  by (metis procstate.distinct(25) procstate.distinct(27) procstate.distinct(29))

lemma pid_inv_free:
  assumes "pid_inv s" "procs s' = (procs s)(i := freed p)" "nextpid s \<le> nextpid s'"
  shows "pid_inv s'"
proof (rule pid_invI)
  fix j assume "j < NPROC"
  with pid_range [OF assms(1)] assms(2,3) show "if p_state (procs s' j) = UNUSED then p_pid (procs s' j) = 0
     else 0 < p_pid (procs s' j) \<and> p_pid (procs s' j) < nextpid s'" by (fastforce split: if_splits)
next
  fix j k assume "j < NPROC" "k < NPROC" "p_state (procs s' j) \<noteq> UNUSED" "p_pid (procs s' j) = p_pid (procs s' k)"
  with pid_inj [OF assms(1), of j k] pid_range [OF assms(1), of j] assms(2) show "j = k"
    by (auto split: if_splits)
qed (use assms(1,3) in \<open>simp add: pid_inv_def\<close>)

lemma pid_inv_new:
  assumes "pid_inv s" "procs s' = (procs s)(i := p)" "p_pid p = nextpid s" "p_state p \<noteq> UNUSED"
    "nextpid s' = nextpid s + 1"
  shows "pid_inv s'"
proof -
  have lt: "p_pid (procs s j) < nextpid s" if "j < NPROC" for j
    using assms(1) that unfolding pid_inv_def by (metis less_le_trans zero_less_one)
  have np: "1 \<le> nextpid s" using assms(1) by (simp add: pid_inv_def)
  have ne: "p_pid (procs s j) \<noteq> nextpid s" if "j < NPROC" for j using lt [OF that] by simp
  show ?thesis unfolding pid_inv_def assms(2,5)
  proof (intro conjI allI impI)
    fix j k assume "j < NPROC" "k < NPROC" "p_state (((procs s)(i := p)) j) \<noteq> UNUSED"
      "p_pid (((procs s)(i := p)) j) = p_pid (((procs s)(i := p)) k)"
    with assms(3) ne [of j] ne [of k] pid_inj [OF assms(1), of j k] show "j = k" by (auto split: if_splits)
  next
    fix j assume "j < NPROC"
    with assms(3,4) pid_range [OF assms(1), of j] np show "if p_state (((procs s)(i := p)) j) = UNUSED then p_pid (((procs s)(i := p)) j) = 0
      else 0 < p_pid (((procs s)(i := p)) j) \<and> p_pid (((procs s)(i := p)) j) < nextpid s + 1"
      by (auto split: if_splits)
  qed (use np in simp)
qed

lemma pid_inv_keep:
  assumes "pid_inv s" "procs s' = (procs s)(i := p)" "p_pid p = p_pid (procs s i)"
    "(p_state p = UNUSED) = (p_state (procs s i) = UNUSED)" "nextpid s' = nextpid s"
  shows "pid_inv s'"
proof -
  have "p_pid (procs s' j) = p_pid (procs s j)" "(p_state (procs s' j) = UNUSED) = (p_state (procs s j) = UNUSED)" for j
    using assms(2-4) by auto
  with assms(1,5) show ?thesis by (simp add: pid_inv_def)
qed

lemma wait_inv_upd:
  assumes "wait_inv s" "procs s' = (procs s)(i := p)" "p_state p \<noteq> SLEEPING" "p_state p \<noteq> ZOMBIE"
  shows "wait_inv s'"
proof -
  have "waits s' j \<Longrightarrow> waits s j" "zombie_child s' j k \<Longrightarrow> zombie_child s j k"
    "p_state (procs s' j) = SLEEPING \<Longrightarrow> p_state (procs s j) = SLEEPING \<and> p_chan (procs s j) = p_chan (procs s' j)" for j k
    using assms(2-4) by (auto simp: waits_def zombie_child_def split: if_splits)
  with assms(1) show ?thesis unfolding wait_inv_def by metis
qed

lemma pid_inv_upd_proc:
  assumes "pid_inv s" "p_pid (f (procs s i)) = p_pid (procs s i)"
    "(p_state (f (procs s i)) = UNUSED) = (p_state (procs s i) = UNUSED)"
  shows "pid_inv (upd_proc i f s)"
  by (rule pid_inv_keep [OF assms(1) _ assms(2,3)]) simp_all

lemma wait_inv_upd_proc:
  assumes "wait_inv s" "p_state (f (procs s i)) \<noteq> SLEEPING" "p_state (f (procs s i)) \<noteq> ZOMBIE"
  shows "wait_inv (upd_proc i f s)"
  by (rule wait_inv_upd [OF assms(1) _ assms(2,3)]) simp

lemma wait_inv_sleep:
  assumes "wait_inv s" "\<And>q. c = ChanProc q \<Longrightarrow> q = cur s \<and> (\<forall>j<NPROC. \<not> zombie_child s q j)"
  shows "wait_inv (sleep_enter c s)"
proof -
  let ?s = "sleep_enter c s"
  have z: "zombie_child ?s i j \<Longrightarrow> zombie_child s i j" for i j
    by (auto simp: zombie_child_def sleep_enter_def split: if_splits)
  have "q = i \<and> (\<forall>j<NPROC. \<not> zombie_child s i j)" if "i < NPROC" "p_state (procs ?s i) = SLEEPING"
    "p_chan (procs ?s i) = Some (ChanProc q)" for i q
    using assms that by (cases "i = cur s") (auto simp: sleep_enter_def wait_inv_def waits_def)
  with z show ?thesis unfolding wait_inv_def waits_def by blast
qed

lemma inv_cur [simp]:
  "pid_inv (s\<lparr>cur := i\<rparr>) = pid_inv s" "wait_inv (s\<lparr>cur := i\<rparr>) = wait_inv s"
  "pid_inv (s\<lparr>curpid := j\<rparr>) = pid_inv s" "wait_inv (s\<lparr>curpid := j\<rparr>) = wait_inv s"
  "pid_inv (s\<lparr>upagetable := t\<rparr>) = pid_inv s" "wait_inv (s\<lparr>upagetable := t\<rparr>) = wait_inv s"
  "pid_inv (s\<lparr>cwd := d\<rparr>) = pid_inv s" "wait_inv (s\<lparr>cwd := d\<rparr>) = wait_inv s"
  by (simp_all add: pid_inv_def wait_inv_def waits_def zombie_child_def)

lemma kill_loop_effect:
  "kill_loop pid is s = (r, s') \<Longrightarrow> wakes s s'"
  by (induction "is") (auto simp: wakes_def split: if_splits)

lemma exit_inv:
  assumes "exit E st s = Inr s'" "running s" "pid_inv s" "wait_inv s"
  shows "pid_inv s'" "wait_inv s'"
proof -
  obtain s1 where s1: "wakes s s1" "s' = exit_zombie st s1" using exit_parts [OF assms(1)] .
  have p1: "pid_inv s1" and w1: "wait_inv s1"
    using s1(1) assms(3,4) by (blast intro: pid_inv_wakes wait_inv_wakes)+
  have "p_state (procs s1 (cur s1)) \<noteq> UNUSED" "cur s1 < NPROC"
    using wakes_proc [OF s1(1), of "cur s"] s1(1) assms(2) by (auto simp: running_def myproc_def wakes_def)
  then have st: "(p_state (procs s' i) = UNUSED) = (p_state (procs s1 i) = UNUSED)" for i
    using exit_zombie_proc [of st s1 i] by (auto simp: s1(2) split: if_splits)
  show "pid_inv s'"
    using p1 exit_zombie_proc [of st s1] unfolding pid_inv_def by (simp add: st) (simp add: s1(2))
  have no: False if "i < NPROC" "j < NPROC" "waits s' i" "zombie_child s' i j" for i j
  proof -
    have ch: "p_chan (procs s1 i) = Some (ChanProc i)" "p_state (procs (exit_zombie st s1) i) = SLEEPING"
      using that(3) exit_zombie_proc [of st s1 i] by (auto simp: waits_def s1(2))
    note ex = exit_zombie_wakes [OF that(1) ch(2,1)]
    have "j \<noteq> cur s1" using that(4) ex(1) by (auto simp: zombie_child_def s1(2))
    with that(4) ex(2) [OF _ that(2)] exit_zombie_proc [of st s1 j]
    have "zombie_child s1 i j" by (auto simp: zombie_child_def s1(2) that(2) split: if_splits)
    moreover have "waits s1 i" using ch exit_zombie_proc [of st s1 i] by (auto simp: waits_def split: if_splits)
    ultimately show False using w1 that(1,2) by (auto simp: wait_inv_def)
  qed
  have "q = i" if "i < NPROC" "p_state (procs s' i) = SLEEPING" "p_chan (procs s' i) = Some (ChanProc q)" for i q
    using w1 that exit_zombie_proc [of st s1 i] by (auto simp: wait_inv_def s1(2) split: if_splits)
  with no show "wait_inv s'" by (auto simp: wait_inv_def)
qed

lemma fork_inv:
  assumes "fork E s = Inr (r, s')" "running s" "pid_inv s" "wait_inv s"
  shows "pid_inv s'" "wait_inv s'"
proof -
  have "p_state (myproc s) \<noteq> UNUSED" using assms(2) by (simp add: running_def)
  note fe = fork_effect [OF assms(1) this]
  from fe consider "procs s' = procs s" "nextpid s' = nextpid s"
    | i p where "procs s' = (procs s)(i := freed p)" "nextpid s' = nextpid s + 1"
    | i p where "procs s' = (procs s)(i := p)" "p_pid p = nextpid s" "p_state p = RUNNABLE" "nextpid s' = nextpid s + 1"
    by blast
  then have "pid_inv s' \<and> wait_inv s'"
  proof cases
    case 1
    with assms(3,4) show ?thesis by (simp add: pid_inv_def wait_inv_def waits_def zombie_child_def)
  next
    case 2
    with assms(3,4) show ?thesis by (auto intro: pid_inv_free wait_inv_upd)
  next
    case 3
    with assms(3,4) show ?thesis by (auto intro: pid_inv_new wait_inv_upd)
  qed
  then show "pid_inv s'" "wait_inv s'" by simp_all
qed

lemma wait_inv_step:
  assumes "wait E addr s = Inr (w, s')" "running s" "pid_inv s" "wait_inv s"
  shows "pid_inv s'" "wait_inv s'"
proof -
  from assms(1) obtain r h s1 where sc: "wait_scan E addr [0..<NPROC] False s = Inr (r, h, s1)"
    by (auto simp: wait_def kbind_eq_Inr)
  note we = wait_scan_effect [OF sc]
  have "pid_inv s' \<and> wait_inv s'"
  proof (cases "r = None \<and> h \<and> \<not> killed (cur s) s")
    case True
    with we have s1: "s1 = s" and nz: "\<forall>j<NPROC. p_parent (procs s j) = Some (cur s) \<longrightarrow> p_state (procs s j) \<noteq> ZOMBIE"
      by auto
    from True assms(1) sc s1 have s': "s' = sleep_enter (ChanProc (cur s)) s"
      by (auto simp: wait_def)
    have "pid_inv s'" unfolding s' sleep_enter_def
      using assms(2,3) by (auto simp: running_def myproc_def intro: pid_inv_upd_proc)
    moreover have "wait_inv s'"
      unfolding s' by (rule wait_inv_sleep [OF assms(4)]) (use nz in \<open>auto simp: zombie_child_def\<close>)
    ultimately show ?thesis ..
  next
    case False
    with assms(1) sc we have "s' = s1" by (auto simp: wait_def split: option.split_asm)
    with we consider "procs s' = procs s" "nextpid s' = nextpid s"
      | j where "procs s' = (procs s)(j := freed (procs s j))" "nextpid s' = nextpid s" by auto
    then show ?thesis
    proof cases
      case 1
      with assms(3,4) show ?thesis by (simp add: pid_inv_def wait_inv_def waits_def zombie_child_def)
    next
      case 2
      with assms(3,4) show ?thesis by (auto intro: pid_inv_free wait_inv_upd)
    qed
  qed
  then show "pid_inv s'" "wait_inv s'" by simp_all
qed

lemma namei_root_frame: "namei [slash] s = Inr (r, s') \<Longrightarrow> fs_frame s s'"
  by (auto simp: namei_def namex_def Let_def namex_loop.simps skipelem_def kbind_eq_Inr split: if_splits dest!: iget_frame)

lemma userinit_effect:
  assumes "userinit E s = Inr s'"
  obtains i p where "free_slot s = Some i" "procs s' = (procs s)(i := p)" "p_pid p = nextpid s"
    "p_state p = RUNNABLE" "nextpid s' = nextpid s + 1"
proof -
  from assms obtain i s1 where a: "allocproc E s = Inr (Some i, s1)"
    by (auto simp: userinit_def kbind_eq_Inr split: option.split_asm)
  with assms obtain s2 where u: "uvmfirst (p_pagetable (procs s1 i)) initcode (s1\<lparr>initproc := i\<rparr>) = Inr s2"
    by (auto simp: userinit_def kbind_eq_Inr)
  define s3 where "s3 = (let s = upd_proc i (\<lambda>p. p\<lparr>p_sz := PGSIZE\<rparr>) s2;
                 s = tf_set i tf_epc 0 s; s = tf_set i tf_sp PGSIZE s
             in upd_proc i (\<lambda>p. p\<lparr>p_name :=
                       safestrcpy_list (p_name p) [105, 110, 105, 116, 99, 111, 100, 101] 16\<rparr>) s)"
  from assms a u obtain d s4 where n: "namei [slash] s3 = Inr (d, s4)"
    "s' = upd_proc i (\<lambda>p. p\<lparr>p_cwd := d, p_state := RUNNABLE\<rparr>) s4"
    by (auto simp: userinit_def kbind_eq_Inr s3_def Let_def)
  note al = allocproc_effect [OF a] and f = fs_more_frame [OF namei_root_frame [OF n(1)]]
    and k = kmem_keeps [OF uvmfirst_more [OF u]]
  have "procs s3 = (procs s2)(i := procs s3 i)" "p_pid (procs s3 i) = p_pid (procs s2 i)" "nextpid s3 = nextpid s2"
    by (auto simp: s3_def Let_def tf_set_def)
  with al f(1,4) k(2,10) show ?thesis
    by (intro that [of i "procs s' i"]) (auto simp: n(2) intro: fun_upd_upd [symmetric], metis fun_upd_upd)
qed

lemma proc_step_inv:
  assumes "proc_step E s s'" "pid_inv s" "wait_inv s"
  shows "pid_inv s' \<and> wait_inv s'"
  using assms
proof (induction rule: proc_step.induct)
  case (st_kill pid s r s')
  then show ?case using kill_loop_effect pid_inv_wakes wait_inv_wakes by (metis kill_def)
next
  case (st_sleep s c)
  then show ?case
    by (auto simp: running_def myproc_def sleep_enter_def intro!: pid_inv_upd_proc wait_inv_sleep [unfolded sleep_enter_def])
next
  case (st_awake s)
  then show ?case
    by (auto simp: sleep_leave_def running_def myproc_def intro!: pid_inv_upd_proc wait_inv_upd_proc)
next
  case (st_wakeup s c)
  then show ?case using wakes_wakeup pid_inv_wakes wait_inv_wakes by metis
next
  case (st_yield s c s')
  then have "s' = upd_proc (cur s) (\<lambda>p. p\<lparr>p_state := RUNNABLE\<rparr>) s"
    by (auto simp: yield_def sched_def split: if_splits)
  with st_yield show ?case
    by (auto simp: running_def myproc_def intro!: pid_inv_upd_proc wait_inv_upd_proc)
next
  case (st_switch i s)
  then show ?case
    by (auto simp: switch_to_def Let_def intro!: pid_inv_upd_proc wait_inv_upd_proc)
next
  case (st_boot s s')
  then show ?case by (elim userinit_effect) (auto intro: pid_inv_new wait_inv_upd)
next
  case (st_other s s')
  then show ?case by (simp add: table_same_def pid_inv_def wait_inv_def waits_def zombie_child_def)
qed (auto dest: exit_inv fork_inv wait_inv_step)

lemma proc_steps_inv:
  assumes "(proc_step E)\<^sup>*\<^sup>* s s'" "pid_inv s" "wait_inv s"
  shows "pid_inv s' \<and> wait_inv s'"
  using assms by (induction rule: rtranclp_induct) (auto dest: proc_step_inv)

text \<open>The table is in order after \<^verbatim>\<open>procinit\<close>.\<close>

lemma procinit_procs:
  "procs (foldl (\<lambda>s i. upd_proc i (\<lambda>p. p\<lparr>p_state := UNUSED, p_kstack := KSTACK i\<rparr>) s) s is) i =
     (if i \<in> set is then (procs s i)\<lparr>p_state := UNUSED, p_kstack := KSTACK i\<rparr> else procs s i)"
  "nextpid (foldl (\<lambda>s i. upd_proc i (\<lambda>p. p\<lparr>p_state := UNUSED, p_kstack := KSTACK i\<rparr>) s) s is) = nextpid s"
  by (induction "is" arbitrary: s) simp_all

lemma start_inv: "pid_inv (procinit (start_state d)) \<and> wait_inv (procinit (start_state d))"
  by (simp add: pid_inv_def wait_inv_def waits_def procinit_def procinit_procs start_state_def zero_proc_def)

text \<open>init with one child: it waits, and the child, switched to, exits.\<close>

definition family :: kstate where
  "family = (start_state (\<lambda>_. replicate 1024 0))\<lparr>
     procs := (\<lambda>_. zero_proc)(0 := zero_proc\<lparr>p_state := RUNNING, p_pid := 1, p_cwd := Some 0\<rparr>,
       2 := zero_proc\<lparr>p_state := RUNNABLE, p_pid := 2, p_parent := Some 0, p_cwd := Some 0\<rparr>),
     nextpid := 3, itable := (\<lambda>_. zero_inode)(0 := zero_inode\<lparr>i_ref := 2\<rparr>)\<rparr>"

lemma family_inv: "pid_inv family \<and> wait_inv family"
  by (auto simp: pid_inv_def wait_inv_def waits_def family_def start_state_def zero_proc_def)

lemma family_wait: "wait E 0 family = Inr (Sleep 0, sleep_enter (ChanProc 0) family)"
  by (simp add: wait_def family_def start_state_def zero_proc_def NPROC_def upt_rec killed_def)

definition family_child :: kstate where
  "family_child = switch_to 2 (sleep_enter (ChanProc 0) family)"

lemma family_exit:
  "exit E 7 family_child = Inr (exit_zombie 7 (upd_proc 2 (\<lambda>p. p\<lparr>p_cwd := None\<rparr>)
     (family_child\<lparr>itable := (itable family_child)(0 := zero_inode\<lparr>i_ref := 1\<rparr>)\<rparr>)))"
  by (simp add: exit_def family_child_def family_def start_state_def zero_proc_def switch_to_def Let_def
      sleep_enter_def upd_proc_def NOFILE_def upt_rec myproc_def begin_op_def end_op_def commit_def iput_def
      upd_inode_def MAXOPBLOCKS_def LOGSIZE_def zero_inode_def)

definition family_end :: kstate where
  "family_end = exit_zombie 7 (upd_proc 2 (\<lambda>p. p\<lparr>p_cwd := None\<rparr>)
     (family_child\<lparr>itable := (itable family_child)(0 := zero_inode\<lparr>i_ref := 1\<rparr>)\<rparr>))"

lemma family_procs:
  "procs family_child 0 = zero_proc\<lparr>p_state := SLEEPING, p_pid := 1, p_cwd := Some 0, p_chan := Some (ChanProc 0)\<rparr>"
  "procs family_child 2 = zero_proc\<lparr>p_state := RUNNING, p_pid := 2, p_parent := Some 0, p_cwd := Some 0\<rparr>"
  "cur family_child = 2" "initproc family_child = 0"
  by (simp_all add: family_child_def family_def switch_to_def sleep_enter_def upd_proc_def start_state_def zero_proc_def)

lemma family_steps:
  "(proc_step E)\<^sup>*\<^sup>* family family_child" "proc_step E family_child family_end"
proof -
  have "proc_step E family (sleep_enter (ChanProc 0) family)"
    by (rule st_wait [OF _ family_wait]) (simp add: running_def myproc_def family_def start_state_def NPROC_def)
  moreover have "proc_step E (sleep_enter (ChanProc 0) family) family_child" unfolding family_child_def
    by (rule st_switch) (simp_all add: NPROC_def sleep_enter_def family_def start_state_def)
  ultimately show "(proc_step E)\<^sup>*\<^sup>* family family_child" by (meson rtranclp.intros)
  show "proc_step E family_child family_end"
    by (rule st_exit [OF _ family_exit [folded family_end_def]])
       (simp add: running_def myproc_def family_procs NPROC_def zero_proc_def)
qed

lemma family_run: "(proc_step E)\<^sup>*\<^sup>* family family_end"
  using family_steps by (rule rtranclp.rtrancl_into_rtrancl)

lemma family_end_procs:
  "zombie_child family_end 0 2" "p_state (procs family_end 0) = RUNNABLE" "p_pid (procs family_end 0) = 1"
  "p_pid (procs family_end 2) = 2"
proof -
  let ?s = "upd_proc 2 (\<lambda>p. p\<lparr>p_cwd := None\<rparr>) (family_child\<lparr>itable := (itable family_child)(0 := zero_inode\<lparr>i_ref := 1\<rparr>)\<rparr>)"
  have c: "cur ?s = 2" "initproc ?s = 0" by (simp_all add: family_procs)
  note e = exit_zombie_proc [of 7 ?s, folded family_end_def, unfolded c]
  show z: "zombie_child family_end 0 2" "p_pid (procs family_end 0) = 1" "p_pid (procs family_end 2) = 2"
    using e [of 2] e [of 0] by (simp_all add: zombie_child_def family_procs zero_proc_def)
  show "p_state (procs family_end 0) = RUNNABLE"
    using e [of 0] exit_zombie_wakes(1) [of 0 7 ?s 0, folded family_end_def, unfolded c] z(1)
    by (auto simp: family_procs zero_proc_def zombie_child_def NPROC_def)
qed

section \<open>Properties\<close>

text \<open>
  C21. Processes keep distinct identifiers under every interleaving of \<^verbatim>\<open>fork\<close>, \<^verbatim>\<open>exit\<close>, \<^verbatim>\<open>wait\<close>, \<^verbatim>\<open>kill\<close>,
  sleeping, waking, scheduling and the start of the first process: from a table in order
  (which \<^verbatim>\<open>procinit\<close> gives), every used slot of a later table has a positive identifier below
  \<^verbatim>\<open>nextpid\<close>, and no two used slots share one.
\<close>

theorem pids_unique:
  assumes "pid_inv s" and "wait_inv s" and "(proc_step E)\<^sup>*\<^sup>* s s'"
    and "i < NPROC" and "p_state (procs s' i) \<noteq> UNUSED"
  shows "0 < p_pid (procs s' i) \<and> p_pid (procs s' i) < nextpid s' \<and>
    (\<forall>j<NPROC. j \<noteq> i \<longrightarrow> p_pid (procs s' j) \<noteq> p_pid (procs s' i))"
  using proc_steps_inv [OF assms(3,1,2)] pid_range [of s' i] pid_inj [of s' i] assms(4,5) by fastforce

theorem pids_unique_witness:
  "\<forall>E. (proc_step E)\<^sup>*\<^sup>* family family_end \<and> p_pid (procs family_end 2) < nextpid family_end \<and>
     p_pid (procs family_end 0) \<noteq> p_pid (procs family_end 2)"
proof
  fix E
  have "p_state (procs family_end 2) \<noteq> UNUSED" using family_end_procs(1) by (simp add: zombie_child_def)
  from pids_unique [OF _ _ family_run [of E] _ this] family_inv family_run [of E]
  show "(proc_step E)\<^sup>*\<^sup>* family family_end \<and> p_pid (procs family_end 2) < nextpid family_end \<and>
     p_pid (procs family_end 0) \<noteq> p_pid (procs family_end 2)" by (simp add: NPROC_def)
qed

text \<open>
  C6. No exit is lost on a waiting parent. Under the same interleavings, a process that sleeps
  in \<^verbatim>\<open>wait\<close> (on its own process slot) never has a zombie child: an exiting child wakes its
  parent, and \<^verbatim>\<open>reparent\<close> wakes init for the children it takes over.
\<close>

theorem exit_wakes_waiting_parent:
  assumes "pid_inv s" and "wait_inv s" and "(proc_step E)\<^sup>*\<^sup>* s s'"
    and "i < NPROC" and "p_state (procs s' i) = SLEEPING" and "p_chan (procs s' i) = Some (ChanProc q)"
  shows "q = i \<and> (\<forall>j<NPROC. \<not> (p_parent (procs s' j) = Some i \<and> p_state (procs s' j) = ZOMBIE))"
  using proc_steps_inv [OF assms(3,1,2)] assms(4-6) by (auto simp: wait_inv_def waits_def zombie_child_def)

theorem exit_wakes_waiting_parent_witness:
  "\<forall>E. (proc_step E)\<^sup>*\<^sup>* family family_child \<and> p_state (procs family_child 0) = SLEEPING \<and>
     \<not> zombie_child family_child 0 2 \<and>
     proc_step E family_child family_end \<and> zombie_child family_end 0 2 \<and> p_state (procs family_end 0) = RUNNABLE"
proof
  fix E
  have "p_state (procs family_child 0) = SLEEPING" "p_chan (procs family_child 0) = Some (ChanProc 0)"
    by (simp_all add: family_procs zero_proc_def)
  from exit_wakes_waiting_parent [OF _ _ family_steps(1) [of E] _ this] family_inv family_steps [of E] this
    family_end_procs
  show "(proc_step E)\<^sup>*\<^sup>* family family_child \<and> p_state (procs family_child 0) = SLEEPING \<and>
     \<not> zombie_child family_child 0 2 \<and>
     proc_step E family_child family_end \<and> zombie_child family_end 0 2 \<and> p_state (procs family_end 0) = RUNNABLE"
    by (auto simp: NPROC_def zombie_child_def)
qed

end
