(* ===== verification/Xv6_Uvm.thy ===== *)
theory Xv6_Uvm
  imports Xv6_Usermem "HOL-Library.Sublist"
begin

text \<open>
  Whole address spaces: freeing the page-table tree, and with it an address space, copying an
  address space for \<^verbatim>\<open>fork\<close>, and growing one. The recursion of \<^verbatim>\<open>freewalk\<close> runs with a fuel of three,
  one for each level, and the lemmas show that it is enough.
\<close>

section \<open>Subtrees of a page table\<close>

text \<open>The table pages at and below a path, and the entries that memory holds in them.\<close>

definition tpages :: "tables \<Rightarrow> u64 list \<Rightarrow> u64 set" where
  "tpages T p = {t. \<exists>q. prefix p q \<and> T q = Some t}"

definition entry_ok :: "mem \<Rightarrow> tables \<Rightarrow> u64 list \<Rightarrow> u64 \<Rightarrow> u64 \<Rightarrow> bool" where
  "entry_ok m T q t i \<longleftrightarrow>
     (let e = load64 m (t + 8 * i)
      in if length q < 2
         then T (q @ [i]) = (if e AND PTE_V \<noteq> 0 then Some (PTE2PA e) else None) \<and>
              (e AND PTE_V \<noteq> 0 \<longrightarrow> e AND PTE_RWX = 0)
         else e AND PTE_V = 0)"

definition tree_at :: "u64 \<Rightarrow> tables \<Rightarrow> u64 list \<Rightarrow> mem \<Rightarrow> bool" where
  "tree_at kend T p m \<longleftrightarrow>
     (\<forall>q t. prefix p q \<longrightarrow> T q = Some t \<longrightarrow> path_ok q \<and> valid_page kend t \<and>
        (\<forall>i. unat i < 512 \<longrightarrow> entry_ok m T q t i) \<and> (\<forall>r. prefix p r \<longrightarrow> T r = Some t \<longrightarrow> q = r)) \<and>
     (\<forall>q i. prefix p q \<longrightarrow> T q = None \<longrightarrow> T (q @ [i]) = None)"

lemma tree_atD:
  assumes "tree_at kend T p m" and "prefix p q" and "T q = Some t"
  shows "path_ok q" "valid_page kend t" "unat i < 512 \<Longrightarrow> entry_ok m T q t i"
    "prefix p r \<Longrightarrow> T r = Some t \<Longrightarrow> q = r"
  using assms unfolding tree_at_def by blast+

lemma tree_at_sub: "tree_at kend T p m \<Longrightarrow> prefix p q \<Longrightarrow> tree_at kend T q m"
  unfolding tree_at_def by (meson prefix_order.trans)

lemma tree_at_frame:
  assumes "tree_at kend T p m" and "mframe P m m'" and "tpages T p \<inter> P = {}"
  shows "tree_at kend T p m'"
proof -
  have "load64 m' (t + 8 * i) = load64 m (t + 8 * i)" if "prefix p q" "T q = Some t" "unat i < 512" for q t i
    using mframe_load64 [OF assms(2) tree_atD(2) [OF assms(1) that(1,2)] _ that(3)] that(1,2) assms(3)
    by (auto simp: tpages_def)
  then have "entry_ok m' T q t i = entry_ok m T q t i" if "prefix p q" "T q = Some t" "unat i < 512" for q t i
    using that by (simp add: entry_ok_def)
  with assms(1) show ?thesis unfolding tree_at_def by blast
qed

lemma tree_at_none: "tree_at kend T p m \<Longrightarrow> T p = None \<Longrightarrow> tpages T p = {}"
proof -
  assume t: "tree_at kend T p m" "T p = None"
  have "T (p @ q) = None" for q
  proof (induction q rule: rev_induct)
    case (snoc i q)
    then show ?case using t(1) unfolding tree_at_def by (metis append_assoc prefixI)
  qed (simp add: t(2))
  then show ?thesis by (auto simp: tpages_def prefix_def)
qed

text \<open>The children of a table have disjoint subtrees, without the table itself.\<close>

lemma tpages_child_disjoint:
  assumes "tree_at kend T p m" and "i \<noteq> j"
  shows "tpages T (p @ [i]) \<inter> tpages T (p @ [j]) = {}"
proof (rule ccontr)
  assume "tpages T (p @ [i]) \<inter> tpages T (p @ [j]) \<noteq> {}"
  then obtain t q r where "prefix (p @ [i]) q" "prefix (p @ [j]) r" "T q = Some t" "T r = Some t"
    by (auto simp: tpages_def)
  moreover from this have "q = r" using tree_atD(4) [OF assms(1), of q t r] by (auto dest: append_prefixD)
  ultimately show False using assms(2) by (auto simp: prefix_def)
qed

lemma tpages_self:
  assumes "tree_at kend T p m" and "T p = Some t"
  shows "t \<notin> tpages T (p @ [i])" "t \<in> tpages T p"
proof -
  show "t \<notin> tpages T (p @ [i])"
  proof
    assume "t \<in> tpages T (p @ [i])"
    then obtain q where "prefix (p @ [i]) q" "T q = Some t" by (auto simp: tpages_def)
    moreover from this have "p = q" using tree_atD(4) [OF assms(1) _ assms(2), of q] by (auto dest: append_prefixD)
    ultimately show False by auto
  qed
  show "t \<in> tpages T p" using assms(2) by (auto simp: tpages_def)
qed

lemma kmem_frame:
  assumes "kmem_inv kend s ps" and "mframe P (pmem s) m'" and "set ps \<inter> P = {}"
  shows "kmem_inv kend (s\<lparr>pmem := m'\<rparr>) ps"
  using mframe_fl_path [of "pmem s" "freelist s" ps P m' kend] assms by (auto simp: kmem_inv_def)

section \<open>Freeing the tree\<close>

text \<open>\<open>gives P s ps s'\<close>: the pages \<open>P\<close>, each once, were put on the free list, and nothing else changed.\<close>

definition gives :: "u64 \<Rightarrow> u64 set \<Rightarrow> u64 set \<Rightarrow> 'z kmem_state_scheme \<Rightarrow> u64 list \<Rightarrow> 'z kmem_state_scheme \<Rightarrow> bool" where
  "gives kend P W s ps s' \<longleftrightarrow> (\<exists>qs. kmem_inv kend s' (qs @ ps) \<and> set qs = P) \<and>
     mframe W (pmem s) (pmem s') \<and> kmem_state.more s' = kmem_state.more s"

text \<open>The children of a table at path \<open>p\<close>, by index.\<close>

abbreviation child :: "u64 list \<Rightarrow> nat \<Rightarrow> u64 list" where
  "child p i \<equiv> p @ [of_nat i]"

lemma unat_index: "i < 512 \<Longrightarrow> unat (of_nat i :: u64) = i"
  by (simp add: unat_of_nat)

lemma freewalk_entries_ok:
  assumes static: "tree_at kend T p m0" "T p = Some t" "length p < 2"
    and rec: "\<And>i c s ps. i < 512 \<Longrightarrow> T (child p i) = Some c \<Longrightarrow> tree_at kend T (child p i) (pmem s) \<Longrightarrow>
       kmem_inv kend s ps \<Longrightarrow> tpages T (child p i) \<inter> set ps = {} \<Longrightarrow>
       \<exists>s'. rec c s = Inr s' \<and> gives kend (tpages T (child p i)) (tpages T (child p i)) s ps s'"
  shows "\<forall>i\<in>set is. i < 512 \<and> tree_at kend T (child p i) (pmem s) \<and> entry_ok (pmem s) T p t (of_nat i) \<Longrightarrow>
    distinct is \<Longrightarrow> kmem_inv kend s ps \<Longrightarrow> (\<Union>i\<in>set is. tpages T (child p i)) \<inter> set ps = {} \<Longrightarrow> t \<notin> set ps \<Longrightarrow>
    \<exists>s'. freewalk_entries rec t is s = Inr s' \<and>
      gives kend (\<Union>i\<in>set is. tpages T (child p i)) (insert t (\<Union>i\<in>set is. tpages T (child p i))) s ps s'"
proof (induction "is" arbitrary: s ps)
  case Nil
  then show ?case by (auto simp: gives_def)
next
  case (Cons i "is")
  let ?e = "load64 (pmem s) (t + 8 * of_nat i)" and ?C = "tpages T (child p i)"
  have i: "i < 512" "tree_at kend T (child p i) (pmem s)" and eo: "entry_ok (pmem s) T p t (of_nat i)"
    using Cons.prems(1) by auto
  have e: "T (child p i) = (if ?e AND PTE_V \<noteq> 0 then Some (PTE2PA ?e) else None)"
    "?e AND PTE_V \<noteq> 0 \<longrightarrow> ?e AND PTE_RWX = 0"
    using eo static(3) by (auto simp: entry_ok_def Let_def)
  show ?case
  proof (cases "?e AND PTE_V = 0")
    case True
    then have "?C = {}" using e(1) i(2) tree_at_none by auto
    then show ?thesis using Cons True by simp
  next
    case False
    note vt = tree_atD(2) [OF static(1) _ static(2), simplified]
    obtain s1 where s1: "rec (PTE2PA ?e) s = Inr s1" "gives kend ?C ?C s ps s1"
      using rec [OF i(1) _ i(2) Cons.prems(3)] e(1) False Cons.prems(4) by auto
    then obtain qs where qs: "kmem_inv kend s1 (qs @ ps)" "set qs = ?C" "mframe ?C (pmem s) (pmem s1)"
      "kmem_state.more s1 = kmem_state.more s" by (auto simp: gives_def)
    let ?s = "s1\<lparr>pmem := store64 (pmem s1) (t + 8 * of_nat i) 0\<rparr>"
    have tC: "t \<notin> ?C" using tpages_self [OF static(1,2)] by blast
    have fr: "mframe {t} (pmem s1) (pmem ?s)"
      using same_outside_slot [OF vt] vt i(1) by (auto simp: valid_page_def unat_index intro: same_outside_mframe)
    have f: "mframe (insert t ?C) (pmem s) (pmem ?s)"
      by (rule mframe_trans [OF mframe_mono [OF qs(3)] mframe_mono [OF fr]]) auto
    have "kmem_inv kend ?s (qs @ ps)"
      by (rule kmem_frame [OF qs(1) fr [simplified]]) (use Cons.prems(5) tC qs(2) in auto)
    moreover have "j < 512 \<and> tree_at kend T (child p j) (pmem ?s) \<and> entry_ok (pmem ?s) T p t (of_nat j)"
      if j: "j \<in> set is" for j
    proof -
      have jj: "j < 512" "j \<noteq> i" "tree_at kend T (child p j) (pmem s)" "entry_ok (pmem s) T p t (of_nat j)"
        using Cons.prems(1,2) j by auto
      have ne: "(of_nat j :: u64) \<noteq> of_nat i" using jj(1,2) i(1) unat_index by metis
      have "tree_at kend T (child p j) (pmem ?s)"
        using tree_at_frame [OF jj(3) f] tpages_child_disjoint [OF static(1) ne] tpages_self(1) [OF static(1,2)]
        by auto
      moreover have "load64 (pmem ?s) (t + 8 * of_nat j) = load64 (pmem s) (t + 8 * of_nat j)"
        using load64_slot_frame [OF vt vt, of "of_nat j" "of_nat i"] ne i(1) jj(1)
          mframe_load64 [OF qs(3) vt tC, of "of_nat j"] by (simp add: unat_index)
      ultimately show ?thesis using jj by (simp add: entry_ok_def)
    qed
    moreover have "(\<Union>i\<in>set is. tpages T (child p i)) \<inter> set (qs @ ps) = {}"
    proof -
      have "tpages T (child p j) \<inter> ?C = {}" if "j \<in> set is" for j
        using tpages_child_disjoint [OF static(1), of "of_nat j" "of_nat i"] that Cons.prems(1,2) i(1) unat_index
        by (metis distinct.simps(2) list.set_intros(2))
      then show ?thesis using Cons.prems(4) qs(2) by auto
    qed
    moreover have "t \<notin> set (qs @ ps)" using Cons.prems(5) tC qs(2) by auto
    ultimately obtain s' where s': "freewalk_entries rec t is ?s = Inr s'"
      "gives kend (\<Union>i\<in>set is. tpages T (child p i)) (insert t (\<Union>i\<in>set is. tpages T (child p i))) ?s (qs @ ps) s'"
      using Cons.IH [of ?s "qs @ ps"] Cons.prems(2) by auto
    from s'(2) obtain rs where rs: "kmem_inv kend s' (rs @ qs @ ps)" "set rs = (\<Union>i\<in>set is. tpages T (child p i))"
      "mframe (insert t (\<Union>i\<in>set is. tpages T (child p i))) (pmem ?s) (pmem s')" "kmem_state.more s' = kmem_state.more ?s"
      by (auto simp: gives_def)
    have "freewalk_entries rec t (i # is) s = Inr s'"
      using False e(2) s1(1) s'(1) by (simp add: Let_def PTE_RWX_def)
    moreover have "mframe (insert t (\<Union>i\<in>set (i # is). tpages T (child p i))) (pmem s) (pmem s')"
      by (rule mframe_trans [OF mframe_mono [OF f] mframe_mono [OF rs(3)]]) auto
    moreover have "\<exists>us. kmem_inv kend s' (us @ ps) \<and> set us = (\<Union>i\<in>set (i # is). tpages T (child p i))"
      using rs(1,2) qs(2) by (intro exI [of _ "rs @ qs"]) auto
    ultimately show ?thesis using rs(4) qs(4) by (auto simp: gives_def)
  qed
qed

lemma freewalk_entries_none:
  "\<forall>i\<in>set is. load64 (pmem s) (t + 8 * of_nat i) AND PTE_V = 0 \<Longrightarrow> freewalk_entries rec t is s = Inr s"
  by (induction "is") (simp_all add: Let_def)

lemma tpages_unfold:
  assumes "tree_at kend T p m" and "T p = Some t"
  shows "tpages T p = insert t (\<Union>i\<in>{0..<512}. tpages T (child p i))"
proof -
  have down: "\<exists>i<512. u \<in> tpages T (child p i)" if "prefix p q" "T q = Some u" "u \<noteq> t" for q u
  proof -
    from that(1) obtain zs where "q = p @ zs" by (rule prefixE)
    with that(2,3) assms(2) obtain j r where q: "q = p @ j # r" by (cases zs) auto
    have "unat j < 512" using tree_atD(1) [OF assms(1) that(1,2)] q by (simp add: path_ok_def)
    moreover have "u \<in> tpages T (child p (unat j))" using that(2) q by (auto simp: tpages_def intro!: exI [of _ "p @ j # r"])
    ultimately show ?thesis by blast
  qed
  have up: "tpages T (child p i) \<subseteq> tpages T p" for i by (auto simp: tpages_def dest: append_prefixD)
  have "u = t \<or> (\<exists>i\<in>{0..<512}. u \<in> tpages T (child p i))" if "u \<in> tpages T p" for u
    using that down unfolding tpages_def by fastforce
  with up tpages_self(2) [OF assms] show ?thesis by blast
qed

lemma tpages_bottom: "tree_at kend T p m \<Longrightarrow> 2 \<le> length p \<Longrightarrow> tpages T (p @ [i]) = {}"
proof -
  assume t: "tree_at kend T p m" "2 \<le> length p"
  have False if q: "prefix (p @ [i]) q" "T q = Some u" for q u
    using tree_atD(1) [OF t(1) append_prefixD [OF q(1)] q(2)] prefix_length_le [OF q(1)] t(2)
    by (simp add: path_ok_def)
  then show ?thesis by (auto simp: tpages_def)
qed

lemma freewalk_ok:
  "fuel + length p = 3 \<Longrightarrow> T p = Some t \<Longrightarrow> tree_at kend T p (pmem s) \<Longrightarrow> kmem_inv kend s ps \<Longrightarrow>
   tpages T p \<inter> set ps = {} \<Longrightarrow>
   \<exists>s'. freewalk fuel kend t s = Inr s' \<and> gives kend (tpages T p) (tpages T p) s ps s'"
proof (induction fuel arbitrary: p t s ps)
  case 0
  then show ?case using tree_atD(1) [of kend T p "pmem s" p t] by (simp add: path_ok_def)
next
  case (Suc fuel)
  note tr = Suc.prems(3)
  let ?U = "\<Union>i\<in>{0..<512}. tpages T (child p i)"
  have vt: "valid_page kend t" and tp: "tpages T p = insert t ?U"
    using tree_atD(2) [OF tr _ Suc.prems(2)] tpages_unfold [OF tr Suc.prems(2)] by auto
  have tU: "t \<notin> ?U" using tpages_self(1) [OF tr Suc.prems(2)] by auto
  have eo: "entry_ok (pmem s) T p t (of_nat i)" if "i < 512" for i
    using tree_atD(3) [OF tr _ Suc.prems(2)] that by (simp add: unat_index)
  obtain s1 where s1: "freewalk_entries (freewalk fuel kend) t [0..<512] s = Inr s1" "gives kend ?U (insert t ?U) s ps s1"
  proof (cases "length p < 2")
    case True
    have "\<exists>s'. freewalk_entries (freewalk fuel kend) t [0..<512] s = Inr s' \<and>
      gives kend (\<Union>i\<in>set [0..<512]. tpages T (child p i)) (insert t (\<Union>i\<in>set [0..<512]. tpages T (child p i))) s ps s'"
    proof (rule freewalk_entries_ok [OF tr Suc.prems(2) True])
      fix i c and s :: "'a kmem_state_scheme" and ps
      assume "i < 512" "T (child p i) = Some c" "tree_at kend T (child p i) (pmem s)" "kmem_inv kend s ps"
        "tpages T (child p i) \<inter> set ps = {}"
      then show "\<exists>s'. freewalk fuel kend c s = Inr s' \<and> gives kend (tpages T (child p i)) (tpages T (child p i)) s ps s'"
        using Suc.prems(1) by (intro Suc.IH) auto
    qed (use eo tree_at_sub [OF tr] Suc.prems(4,5) tp in auto)
    with that show thesis by auto
  next
    case False
    have U: "?U = {}" using tpages_bottom [OF tr] False by simp
    have "freewalk_entries (freewalk fuel kend) t [0..<512] s = Inr s"
      by (rule freewalk_entries_none) (use eo False in \<open>auto simp: entry_ok_def Let_def\<close>)
    with that [of s] U Suc.prems(4) show thesis by (auto simp: gives_def)
  qed
  from s1(2) obtain qs where qs: "kmem_inv kend s1 (qs @ ps)" "set qs = ?U" "mframe (insert t ?U) (pmem s) (pmem s1)"
    "kmem_state.more s1 = kmem_state.more s" by (auto simp: gives_def)
  obtain s2 where s2: "kfree kend t s1 = Inr s2" "kmem_inv kend s2 (t # qs @ ps)" "same_outside t (pmem s1) (pmem s2)"
    "kmem_state.more s2 = kmem_state.more s1"
    using kfree_valid [OF qs(1) vt] qs(2) tU Suc.prems(5) tp by auto
  have fr: "mframe {t} (pmem s1) (pmem s2)" using s2(3) vt by (auto simp: valid_page_def intro: same_outside_mframe)
  have "mframe (tpages T p) (pmem s) (pmem s2)"
    unfolding tp by (rule mframe_trans [OF qs(3) mframe_mono [OF fr]]) simp
  moreover have "\<exists>us. kmem_inv kend s2 (us @ ps) \<and> set us = tpages T p"
    using s2(2) qs(2) tp by (intro exI [of _ "t # qs"]) simp
  ultimately show ?case using s1(1) s2(1,4) qs(4) by (auto simp: gives_def)
qed

section \<open>Freeing an address space\<close>

text \<open>Every entry of a bottom table belongs to an address.\<close>

definition va_of :: "u64 \<Rightarrow> u64 \<Rightarrow> u64 \<Rightarrow> u64" where
  "va_of a b i = (push_bit 30 a OR push_bit 21 b OR push_bit 12 i)"

lemma va_of_bits:
  assumes "unat a < 256" "unat b < 512" "unat i < 512"
  shows "PX 2 (va_of a b i) = a" "PX 1 (va_of a b i) = b" "PX 0 (va_of a b i) = i"
    "page_aligned (va_of a b i)" "va_of a b i < MAXVA"
proof -
  have a: "bit a n \<Longrightarrow> n < 8" and b: "bit b n \<Longrightarrow> n < 9" and i: "bit i n \<Longrightarrow> n < 9" for n
    using bit_below_pow [of a 8 n] bit_below_pow [of b 9 n] bit_below_pow [of i 9 n] assms by auto
  show "PX 2 (va_of a b i) = a" "PX 1 (va_of a b i) = b" "PX 0 (va_of a b i) = i"
    by (rule bit_eqI; auto simp: bit_PX va_of_def bit_simps dest: a b i)+
  show "page_aligned (va_of a b i)" unfolding page_aligned_bits
    by (rule bit_eqI) (auto simp: va_of_def bit_simps)
  have "take_bit 38 (va_of a b i) = va_of a b i"
    by (rule bit_eqI) (auto simp: va_of_def bit_simps dest: a b i)
  then have "unat (va_of a b i) = take_bit 38 (unat (va_of a b i))" by (metis unsigned_take_bit_eq)
  then have "unat (va_of a b i) < 2 ^ 38" by (metis take_bit_nat_less_exp)
  then show "va_of a b i < MAXVA" by (simp add: word_less_nat_alt MAXVA_def)
qed

lemma tree_at_root:
  assumes "pt_inv kend root T m" and "\<And>va. page_aligned va \<Longrightarrow> va < MAXVA \<Longrightarrow> leaf m T va AND PTE_V = 0"
  shows "tree_at kend T [] m"
  unfolding tree_at_def
proof (intro conjI allI impI)
  fix q t i assume q: "T q = Some t" and i: "unat (i :: u64) < 512"
  show "entry_ok m T q t i"
  proof (cases "length q < 2")
    case True
    then show ?thesis using pt_step [OF assms(1) q True i] pt_dir [OF assms(1) q True i] by (simp add: entry_ok_def)
  next
    case False
    then have "length q = 2" using pt_table(2) [OF assms(1) q] by (simp add: path_ok_def)
    then obtain a b where ab: "q = [a, b]" by (auto simp: numeral_2_eq_2 length_Suc_conv)
    have "unat a < 256" "unat b < 512" using pt_table(2) [OF assms(1) q] ab by (auto simp: path_ok_def)
    note v = va_of_bits [OF this i]
    have "leaf m T (va_of a b i) = load64 m (t + 8 * i)" using v q ab by (simp add: leaf_def)
    with assms(2) [OF v(4,5)] False show ?thesis by (simp add: entry_ok_def)
  qed
qed (use pt_table [OF assms(1)] pt_inj [OF assms(1)] pt_none [OF assms(1)] in auto)

lemma tpages_root: "tpages T [] = ran T"
  by (auto simp: tpages_def ran_def)

text \<open>
  The user part of an address space: the first \<open>n\<close> pages are mapped, with more than \<^verbatim>\<open>PTE_V\<close>, to
  distinct pages that are not tables.
\<close>

definition region :: "u64 \<Rightarrow> tables \<Rightarrow> nat \<Rightarrow> mem \<Rightarrow> bool" where
  "region kend T n m \<longleftrightarrow> 4096 * n \<le> unat MAXVA \<and>
     (\<forall>b\<in>set (pages_from 0 n). leaf m T b AND PTE_V \<noteq> 0 \<and> PTE_FLAGS (leaf m T b) \<noteq> PTE_V) \<and>
     (\<forall>pg\<in>set (leaf_pages m T 0 n). valid_page kend pg \<and> pg \<notin> ran T) \<and> distinct (leaf_pages m T 0 n)"

definition npages :: "u64 \<Rightarrow> nat" where
  "npages sz = unat (PGROUNDUP sz) div 4096"

lemma freewalk_frees:
  assumes "vm_inv kend root T ps s" and "\<And>va. page_aligned va \<Longrightarrow> va < MAXVA \<Longrightarrow> leaf (pmem s) T va AND PTE_V = 0"
  shows "\<exists>s'. freewalk 3 kend root s = Inr s' \<and> gives kend (ran T) (ran T) s ps s'"
proof -
  have pt: "pt_inv kend root T (pmem s)" using assms(1) by (simp add: vm_inv_def)
  show ?thesis
    using freewalk_ok [of 3 "[]" T root kend s ps] tree_at_root [OF pt assms(2)] pt_root [OF pt] assms(1)
    by (simp add: vm_inv_def tpages_root)
qed

lemma unat_npages:
  assumes "sz \<le> MAXVA"
  shows "unat (PGROUNDUP sz div PGSIZE) = npages sz" "4096 * npages sz = unat (PGROUNDUP sz)"
    "unat (PGROUNDUP sz) \<le> unat MAXVA"
proof -
  show "unat (PGROUNDUP sz div PGSIZE) = npages sz" by (simp add: npages_def unat_div)
  have "unat (PGROUNDUP sz) mod 4096 = 0" using page_aligned_PGROUNDUP by (simp only: page_aligned_unat)
  then show "4096 * npages sz = unat (PGROUNDUP sz)" by (simp add: npages_def mod_eq_0_iff_dvd)
  have le: "unat sz \<le> 2 ^ 38" using assms by (simp add: word_le_nat_alt MAXVA_def)
  then have "unat (PGROUNDUP sz) = (unat sz + 4095) div 4096 * 4096"
    using unat_PGROUNDUP [of sz] by (simp add: minus_mod_eq_div_mult)
  moreover have "(unat sz + 4095) div 4096 \<le> (2 ^ 38 + 4095) div 4096" using le by (intro div_le_mono) simp
  ultimately show "unat (PGROUNDUP sz) \<le> unat MAXVA" by (simp add: MAXVA_def)
qed

lemma npages_0 [simp]: "npages 0 = 0"
  by (simp add: npages_def PGROUNDUP_def PGSIZE_def)

lemma uvmfree_ok:
  assumes vm: "vm_inv kend root T ps s" and r: "region kend T (npages sz) (pmem s)"
    and ps: "set (leaf_pages (pmem s) T 0 (npages sz)) \<inter> set ps = {}"
    and up: "\<And>va. page_aligned va \<Longrightarrow> va < MAXVA \<Longrightarrow> va \<notin> set (pages_from 0 (npages sz)) \<Longrightarrow> leaf (pmem s) T va AND PTE_V = 0"
    and sz: "sz \<le> MAXVA"
  shows "\<exists>s'. uvmfree kend root sz s = Inr s' \<and>
    gives kend (ran T \<union> set (leaf_pages (pmem s) T 0 (npages sz)))
      (ran T \<union> set (leaf_pages (pmem s) T 0 (npages sz))) s ps s'"
proof (cases "sz = 0")
  case True
  with freewalk_frees [OF vm] up show ?thesis by (simp add: uvmfree_def leaf_pages_def)
next
  case False
  let ?n = "PGROUNDUP sz div PGSIZE" and ?L = "leaf_pages (pmem s) T 0 (npages sz)"
  note n = unat_npages [OF sz]
  have "\<exists>s1. uvmunmap kend root 0 ?n True s = Inr s1 \<and> vm_inv kend root T (rev ?L @ ps) s1 \<and>
     (\<forall>b. page_aligned b \<and> b < MAXVA \<longrightarrow> leaf (pmem s1) T b =
        (if b \<in> set (pages_from 0 (npages sz)) then 0 else leaf (pmem s) T b)) \<and>
     mframe (ran T \<union> set ?L) (pmem s) (pmem s1) \<and> kmem_state.more s1 = kmem_state.more s"
  proof -
    have "page_aligned 0" by (simp add: page_aligned_def)
    moreover have "\<forall>pg\<in>set ?L. valid_page kend pg \<and> pg \<notin> ran T \<and> pg \<notin> set ps"
      using r ps by (auto simp: region_def)
    ultimately show ?thesis
      using uvmunmap_ok [OF vm, of 0 ?n True, unfolded n(1)] r n(2,3) by (simp add: region_def)
  qed
  then obtain s1 where s1: "uvmunmap kend root 0 ?n True s = Inr s1" "vm_inv kend root T (rev ?L @ ps) s1"
     "\<forall>b. page_aligned b \<and> b < MAXVA \<longrightarrow> leaf (pmem s1) T b =
        (if b \<in> set (pages_from 0 (npages sz)) then 0 else leaf (pmem s) T b)"
     "mframe (ran T \<union> set ?L) (pmem s) (pmem s1)" "kmem_state.more s1 = kmem_state.more s" by blast
  have "leaf (pmem s1) T va AND PTE_V = 0" if "page_aligned va" "va < MAXVA" for va
    using s1(3) up that by auto
  from freewalk_frees [OF s1(2) this] obtain s2 where s2: "freewalk 3 kend root s1 = Inr s2"
    "gives kend (ran T) (ran T) s1 (rev ?L @ ps) s2" by blast
  from s2(2) obtain qs where qs: "kmem_inv kend s2 (qs @ rev ?L @ ps)" "set qs = ran T"
    "mframe (ran T) (pmem s1) (pmem s2)" "kmem_state.more s2 = kmem_state.more s1" by (auto simp: gives_def)
  have "mframe (ran T \<union> set ?L) (pmem s) (pmem s2)"
    by (rule mframe_trans [OF s1(4) mframe_mono [OF qs(3)]]) simp
  moreover have "\<exists>us. kmem_inv kend s2 (us @ ps) \<and> set us = ran T \<union> set ?L"
    using qs(1,2) by (intro exI [of _ "qs @ rev ?L"]) simp
  moreover have "0 < sz" using False by (simp add: word_neq_0_conv)
  ultimately show ?thesis using s1(1,5) s2(1) qs(4) by (simp add: uvmfree_def gives_def)
qed

section \<open>Single pages\<close>

lemma vm_frame:
  assumes "vm_inv kend root T ps s" and "mframe P (pmem s) m'" and "P \<inter> (ran T \<union> set ps) = {}"
  shows "vm_inv kend root T ps (s\<lparr>pmem := m'\<rparr>)" "leaf m' T va = leaf (pmem s) T va"
  using assms pt_frame [of kend root T "pmem s" P m'] kmem_frame [of kend s ps P m']
  by (auto simp: vm_inv_def)

lemma vm_kalloc:
  assumes "vm_inv kend root T (pg # ps) s"
  shows "\<exists>s1. kalloc s = (pg, s1) \<and> vm_inv kend root T ps s1 \<and> mframe {pg} (pmem s) (pmem s1) \<and>
    kmem_state.more s1 = kmem_state.more s \<and> valid_page kend pg \<and> pg \<notin> ran T \<and> pg \<notin> set ps \<and>
    (\<forall>va. leaf (pmem s1) T va = leaf (pmem s) T va)"
proof -
  have km: "kmem_inv kend s (pg # ps)" and pt: "pt_inv kend root T (pmem s)" and d: "pg \<notin> ran T" "ran T \<inter> set ps = {}"
    using assms by (auto simp: vm_inv_def)
  obtain s1 where s1: "kalloc s = (pg, s1)" "kmem_inv kend s1 ps" "same_outside pg (pmem s) (pmem s1)"
    "kmem_state.more s1 = kmem_state.more s" using kalloc_page [OF km] by blast
  have v: "valid_page kend pg" "pg \<notin> set ps" using km by (auto simp: kmem_inv_def)
  have fr: "mframe {pg} (pmem s) (pmem s1)" using s1(3) v(1) by (auto simp: valid_page_def intro: same_outside_mframe)
  have "ran T \<inter> {pg} = {}" using d by simp
  from pt_frame [OF pt fr this] s1 v d fr show ?thesis by (auto simp: vm_inv_def)
qed

lemma mappages_one:
  assumes "vm_inv kend root T ps s" and "page_aligned a" "a < MAXVA" and "leaf (pmem s) T a AND PTE_V = 0"
  obtains (full) T1 s1 where "mappages root a PGSIZE pa perm s = Inr (-1, s1)" "vm_inv kend root T1 [] s1"
      "tgrow T ps s T1 [] s1" "\<forall>b. leaf (pmem s1) T1 b = leaf (pmem s) T b" "length ps < 2"
  | (ok) T1 ps1 s1 where "mappages root a PGSIZE pa perm s = Inr (0, s1)" "vm_inv kend root T1 ps1 s1"
      "tgrow T ps s T1 ps1 s1" "\<forall>b. page_aligned b \<longrightarrow> b < MAXVA \<longrightarrow>
         leaf (pmem s1) T1 b = (if b = a then PA2PTE pa OR perm OR PTE_V else leaf (pmem s) T b)"
      "length ps \<le> length ps1 + 2"
proof -
  have m: "mappages root a PGSIZE pa perm s = mappages_loop root a a pa perm s"
    using assms(2) by (simp add: mappages_def page_aligned_def PGSIZE_def)
  show thesis
    by (rule map_one [OF assms, of a pa perm]) (use m full ok in auto)
qed

lemma pages_from_snoc: "pages_from a (Suc k) = pages_from a k @ [a + of_nat k * PGSIZE]"
  by (simp add: pages_from_def)

lemma leaf_pages_snoc: "leaf_pages m T a (Suc k) = leaf_pages m T a k @ [PTE2PA (leaf m T (a + of_nat k * PGSIZE))]"
  by (simp add: leaf_pages_def pages_from_snoc)

lemma unat_page_addr: "4096 * k \<le> unat MAXVA \<Longrightarrow> unat (of_nat k * PGSIZE :: u64) = 4096 * k"
proof -
  assume k: "4096 * k \<le> unat MAXVA"
  then have "k < 2 ^ 64" by (simp add: MAXVA_def)
  then show ?thesis using unat_pages [of 0 "of_nat k"] k by (simp add: unat_of_nat)
qed

lemma page_addr_in: "b \<in> set (pages_from 0 n) \<longleftrightarrow> (\<exists>k<n. b = of_nat k * PGSIZE)"
  by (auto simp: pages_from_def)

lemma page_addr_iff:
  assumes "4096 * n \<le> unat MAXVA"
  shows "b \<in> set (pages_from 0 n) \<longleftrightarrow> page_aligned b \<and> unat b < 4096 * n"
proof
  assume "b \<in> set (pages_from 0 n)"
  then obtain k where k: "k < n" "b = of_nat k * PGSIZE" by (auto simp: page_addr_in)
  moreover from k(1) assms have "unat (of_nat k * PGSIZE :: u64) = 4096 * k" by (intro unat_page_addr) simp
  ultimately show "page_aligned b \<and> unat b < 4096 * n" by (simp add: page_aligned_unat)
next
  assume b: "page_aligned b \<and> unat b < 4096 * n"
  define k where "k = unat b div 4096"
  have e: "unat b = 4096 * k" using b by (auto simp: k_def page_aligned_unat)
  have "k < n" using b e by simp
  moreover from this assms have "unat (of_nat k * PGSIZE :: u64) = 4096 * k" by (intro unat_page_addr) simp
  ultimately show "b \<in> set (pages_from 0 n)" using e by (auto simp: page_addr_in word_unat_eq_iff)
qed

section \<open>Copying an address space\<close>

lemma mem_read_frame:
  assumes "mframe P m m'" and "page_aligned pg" and "pg \<notin> P"
  shows "mem_read m' pg 4096 = mem_read m pg 4096"
proof (rule nth_equalityI)
  fix j assume "j < length (mem_read m' pg 4096)"
  then have j: "j < 4096" by simp
  then have "PGROUNDDOWN (pg + of_nat j) = pg" by (intro PGROUNDDOWN_in_page [OF assms(2)]) (simp add: unat_of_nat)
  with assms(1,3) j show "mem_read m' pg 4096 ! j = mem_read m pg 4096 ! j" by (simp add: mframe_def)
qed simp

lemma memmove_page:
  assumes "valid_page kend dst" and "valid_page kend src"
  shows "mframe {dst} m (memmove m dst src 4096)" "mem_read (memmove m dst src 4096) dst 4096 = mem_read m src 4096"
proof -
  have e: "memmove m dst src 4096 = mem_write m dst (mem_read m src 4096)"
    using memmove_spec [of src 4096 m dst] assms(2) by (simp add: valid_page_def word_less_nat_alt unat_PHYSTOP)
  show "mframe {dst} m (memmove m dst src 4096)"
    unfolding e using assms(1)
    by (intro same_outside_mframe) (auto simp: same_outside_def mem_write_out valid_page_def)
  show "mem_read (memmove m dst src 4096) dst 4096 = mem_read m src 4096"
    unfolding e using mem_read_write_same [of "mem_read m src 4096" m dst] by simp
qed

lemma copied_entry:
  assumes "valid_page kend pg" and "e AND PTE_V \<noteq> 0"
  shows "PTE2PA (PA2PTE pg OR PTE_FLAGS e OR PTE_V) = pg"
    "PTE_FLAGS (PA2PTE pg OR PTE_FLAGS e OR PTE_V) = PTE_FLAGS e"
    "(PA2PTE pg OR PTE_FLAGS e OR PTE_V) AND PTE_V \<noteq> 0"
proof -
  have "bit e 0" using assms(2) by (simp add: PTE_V_1 and_one_eq odd_iff_mod_2_eq_one bit_0)
  then have v: "PTE_FLAGS e OR PTE_V = PTE_FLAGS e"
    by (intro bit_eqI) (auto simp: PTE_FLAGS_def PTE_V_1 bit_simps bit_0)
  have "PTE_FLAGS e = take_bit 10 e" by (simp add: PTE_FLAGS_def take_bit_eq_mask mask_eq_exp_minus_1)
  then have fl: "unat (PTE_FLAGS e) < 2 ^ 10" by (metis unsigned_take_bit_eq take_bit_nat_less_exp)
  have p: "page_aligned pg" "unat pg < 2 ^ 56"
    using assms(1) by (auto simp: valid_page_def word_less_nat_alt unat_PHYSTOP)
  show "PTE2PA (PA2PTE pg OR PTE_FLAGS e OR PTE_V) = pg"
    "PTE_FLAGS (PA2PTE pg OR PTE_FLAGS e OR PTE_V) = PTE_FLAGS e"
    unfolding or.assoc v using PTE2PA_PA2PTE [OF p fl] by simp_all
  show "(PA2PTE pg OR PTE_FLAGS e OR PTE_V) AND PTE_V \<noteq> 0" by (rule entry_valid)
qed

text \<open>
  The invariant of the loop of \<^verbatim>\<open>uvmcopy\<close> after \<open>k\<close> pages. \<open>m0\<close> is memory at the start, \<open>W\<close> the pages
  the child's tables and the free list had then, \<open>L\<close> the child's other entries. No page is lost:
  tables, free pages and copied pages make up \<open>W\<close>.
\<close>

definition copy_inv ::
  "u64 \<Rightarrow> u64 \<Rightarrow> tables \<Rightarrow> mem \<Rightarrow> u64 set \<Rightarrow> (u64 \<Rightarrow> u64) \<Rightarrow> nat \<Rightarrow> tables \<Rightarrow> u64 list \<Rightarrow> 'z kmem_state_scheme \<Rightarrow> bool" where
  "copy_inv kend root T1 m0 W L k T ps s \<longleftrightarrow>
     vm_inv kend root T ps s \<and> mframe W m0 (pmem s) \<and>
     ran T \<union> set ps \<union> set (leaf_pages (pmem s) T 0 k) = W \<and>
     region kend T k (pmem s) \<and> set (leaf_pages (pmem s) T 0 k) \<inter> set ps = {} \<and>
     (\<forall>b\<in>set (pages_from 0 k). PTE_FLAGS (leaf (pmem s) T b) = PTE_FLAGS (leaf m0 T1 b) \<and>
        mem_read (pmem s) (PTE2PA (leaf (pmem s) T b)) 4096 = mem_read m0 (PTE2PA (leaf m0 T1 b)) 4096) \<and>
     (\<forall>b. page_aligned b \<longrightarrow> b < MAXVA \<longrightarrow> b \<notin> set (pages_from 0 k) \<longrightarrow> leaf (pmem s) T b = L b)"

text \<open>The parent, which no write to \<open>W\<close> touches.\<close>

definition parent_ok :: "u64 \<Rightarrow> u64 \<Rightarrow> tables \<Rightarrow> mem \<Rightarrow> u64 set \<Rightarrow> nat \<Rightarrow> bool" where
  "parent_ok kend old T1 m0 W n \<longleftrightarrow> pt_inv kend old T1 m0 \<and> region kend T1 n m0 \<and>
     W \<inter> (ran T1 \<union> set (leaf_pages m0 T1 0 n)) = {}"

lemma copy_step:
  assumes ci: "copy_inv kend root T1 m0 W L k T (pg # qs) s" and po: "parent_ok kend old T1 m0 W n" and k: "k < n"
    and s1: "kalloc s = (pg, s1)" "vm_inv kend root T qs s1" "mframe {pg} (pmem s) (pmem s1)"
    and pg: "valid_page kend pg" "pg \<notin> ran T" "pg \<notin> set qs"
    and lf: "\<forall>va. leaf (pmem s1) T va = leaf (pmem s) T va"
  defines "a \<equiv> of_nat k * PGSIZE" and "e \<equiv> leaf m0 T1 (of_nat k * PGSIZE)"
  defines "s2 \<equiv> s1\<lparr>pmem := memmove (pmem s1) pg (PTE2PA e) 4096\<rparr>"
  shows "vm_inv kend root T qs s2" "\<forall>va. leaf (pmem s2) T va = leaf (pmem s) T va"
    "mframe {pg} (pmem s) (pmem s2)" "mem_read (pmem s2) pg 4096 = mem_read m0 (PTE2PA e) 4096"
proof -
  have ein: "a \<in> set (pages_from 0 n)" using k by (auto simp: page_addr_in a_def)
  then have el: "PTE2PA e \<in> set (leaf_pages m0 T1 0 n)" by (auto simp: leaf_pages_def e_def a_def)
  have ve: "valid_page kend (PTE2PA e)" "PTE2PA e \<notin> W" using po el by (auto simp: parent_ok_def region_def)
  have fr2: "mframe {pg} (pmem s1) (pmem s2)" using memmove_page(1) [OF pg(1) ve(1)] by (simp add: s2_def)
  show fr: "mframe {pg} (pmem s) (pmem s2)" by (rule mframe_trans [OF s1(3) fr2])
  show "vm_inv kend root T qs s2" "\<forall>va. leaf (pmem s2) T va = leaf (pmem s) T va"
    using vm_frame [OF s1(2) fr2] pg(2,3) lf by (auto simp: s2_def)
  have "pg \<in> W" "mframe W m0 (pmem s)" using ci by (auto simp: copy_inv_def)
  then have "mframe W m0 (pmem s1)" using mframe_trans [OF _ mframe_mono [OF s1(3)]] by simp
  then have "mem_read (pmem s1) (PTE2PA e) 4096 = mem_read m0 (PTE2PA e) 4096"
    using ve by (intro mem_read_frame) (auto simp: valid_page_def)
  then show "mem_read (pmem s2) pg 4096 = mem_read m0 (PTE2PA e) 4096"
    using memmove_page(2) [OF pg(1) ve(1), of "pmem s1"] by (simp add: s2_def)
qed

text \<open>After one more page has been mapped.\<close>

lemma copy_next:
  assumes ci: "copy_inv kend root T1 m0 W L k T (pg # qs) s" and po: "parent_ok kend old T1 m0 W n" and k: "k < n"
    and pg: "valid_page kend pg" "pg \<notin> ran T" "pg \<notin> set qs"
    and s2: "\<forall>va. leaf (pmem s2) T va = leaf (pmem s) T va" "mframe {pg} (pmem s) (pmem s2)"
      "mem_read (pmem s2) pg 4096 = mem_read m0 (PTE2PA (leaf m0 T1 (of_nat k * PGSIZE))) 4096"
    and s3: "vm_inv kend root T' ps' s3" "tgrow T qs s2 T' ps' s3"
      "\<forall>b. page_aligned b \<longrightarrow> b < MAXVA \<longrightarrow> leaf (pmem s3) T' b = (if b = of_nat k * PGSIZE
         then PA2PTE pg OR PTE_FLAGS (leaf m0 T1 (of_nat k * PGSIZE)) OR PTE_V else leaf (pmem s2) T b)"
  shows "copy_inv kend root T1 m0 W L (Suc k) T' ps' s3"
proof -
  let ?a = "of_nat k * PGSIZE :: u64" and ?e = "leaf m0 T1 (of_nat k * PGSIZE)"
  have "?a \<in> set (pages_from 0 n)" using k by (auto simp: page_addr_in)
  then have n: "4096 * n \<le> unat MAXVA" and ev: "?e AND PTE_V \<noteq> 0" "PTE_FLAGS ?e \<noteq> PTE_V"
    using po by (auto simp: parent_ok_def region_def)
  have kn: "4096 * Suc k \<le> unat MAXVA" using n mult_le_mono2 [OF Suc_leI [OF k], of 4096] by linarith
  note pa = page_addr_iff [OF kn]
  have below: "page_aligned b \<and> b < MAXVA" if "b \<in> set (pages_from 0 (Suc k))" for b
    using that kn unfolding pa by (simp add: word_less_nat_alt)
  have ua: "unat ?a = 4096 * k" using kn by (intro unat_page_addr) simp
  have ne: "b \<noteq> ?a" if "b \<in> set (pages_from 0 k)" for b
    using that page_addr_iff [of k b] kn ua by auto
  note ce = copied_entry [OF pg(1) ev(1)]
  have la: "leaf (pmem s3) T' ?a = PA2PTE pg OR PTE_FLAGS ?e OR PTE_V"
    using s3(3) below [of ?a] by (simp add: pages_from_snoc)
  have lb: "leaf (pmem s3) T' b = leaf (pmem s) T b" if "b \<in> set (pages_from 0 k)" for b
    using s3(3) s2(1) below [of b] ne [OF that] that by (simp add: pages_from_snoc)
  then have lp: "leaf_pages (pmem s3) T' 0 k = leaf_pages (pmem s) T 0 k" by (simp add: leaf_pages_def)
  have lps: "leaf_pages (pmem s3) T' 0 (Suc k) = leaf_pages (pmem s) T 0 k @ [pg]"
    using la ce(1) lp by (simp add: leaf_pages_snoc)
  obtain us where us: "qs = us @ ps'" "ran T' = ran T \<union> set us" and fr3: "mframe (ran T') (pmem s2) (pmem s3)"
    using s3(2) by (auto simp: tgrow_def)
  define C where "C = set (leaf_pages (pmem s) T 0 k)"
  have W: "ran T \<union> insert pg (set qs) \<union> C = W" and dis: "C \<inter> insert pg (set qs) = {}" "C \<inter> ran T = {}"
    and rg: "region kend T k (pmem s)" and fW: "mframe W m0 (pmem s)"
    using ci by (auto simp: copy_inv_def region_def C_def)
  have "mframe W m0 (pmem s3)"
    by (rule mframe_trans [OF fW mframe_trans [OF mframe_mono [OF s2(2)] mframe_mono [OF fr3]]]) (use W us in auto)
  moreover have fr: "mframe (insert pg (ran T')) (pmem s) (pmem s3)"
    by (rule mframe_trans [OF mframe_mono [OF s2(2)] mframe_mono [OF fr3]]) auto
  moreover have "region kend T' (Suc k) (pmem s3)"
    unfolding region_def lps pages_from_snoc
    using rg kn la lb ce ev(2) pg us dis unfolding region_def C_def by auto
  moreover have "mem_read (pmem s3) (PTE2PA (leaf (pmem s3) T' b)) 4096 = mem_read m0 (PTE2PA (leaf m0 T1 b)) 4096 \<and>
      PTE_FLAGS (leaf (pmem s3) T' b) = PTE_FLAGS (leaf m0 T1 b)" if b: "b \<in> set (pages_from 0 (Suc k))" for b
  proof (cases "b = ?a")
    case True
    have "mem_read (pmem s3) pg 4096 = mem_read (pmem s2) pg 4096"
      using pg us by (intro mem_read_frame [OF fr3]) (auto simp: valid_page_def)
    with True la ce s2(3) show ?thesis by simp
  next
    case False
    with b have b': "b \<in> set (pages_from 0 k)" by (simp add: pages_from_snoc)
    then have "PTE2PA (leaf (pmem s) T b) \<in> C" by (auto simp: C_def leaf_pages_def)
    then have "mem_read (pmem s3) (PTE2PA (leaf (pmem s) T b)) 4096 = mem_read (pmem s) (PTE2PA (leaf (pmem s) T b)) 4096"
      using rg dis us by (intro mem_read_frame [OF fr]) (auto simp: region_def valid_page_def C_def)
    with ci b' lb [OF b'] show ?thesis by (auto simp: copy_inv_def)
  qed
  moreover have "leaf (pmem s3) T' b = L b" if "page_aligned b" "b < MAXVA" "b \<notin> set (pages_from 0 (Suc k))" for b
    using that s3(3) s2(1) ci by (auto simp: copy_inv_def pages_from_snoc)
  ultimately show ?thesis
    using s3(1) us W dis pg(3) unfolding copy_inv_def lps C_def [symmetric] by (auto simp: C_def)
qed

text \<open>Moving pages between the tables and the free list keeps the invariant.\<close>

lemma copy_keep:
  assumes ci: "copy_inv kend root T1 m0 W L k T ps s" and vm: "vm_inv kend root T' ps' s'"
    and fr: "mframe (ran T' \<union> set ps') (pmem s) (pmem s')" and u: "ran T' \<union> set ps' = ran T \<union> set ps"
    and lf: "\<forall>b. leaf (pmem s') T' b = leaf (pmem s) T b"
  shows "copy_inv kend root T1 m0 W L k T' ps' s'"
proof -
  have lp: "leaf_pages (pmem s') T' 0 k = leaf_pages (pmem s) T 0 k" using lf by (simp add: leaf_pages_def)
  define C where "C = set (leaf_pages (pmem s) T 0 k)"
  have W: "ran T \<union> set ps \<union> C = W" and dis: "C \<inter> set ps = {}" "C \<inter> ran T = {}"
    and rg: "region kend T k (pmem s)" and fW: "mframe W m0 (pmem s)"
    using ci by (auto simp: copy_inv_def region_def C_def)
  have dis': "C \<inter> set ps' = {}" "C \<inter> ran T' = {}" using dis u by blast+
  have "region kend T' k (pmem s')" using rg dis' lf by (auto simp: region_def lp C_def)
  moreover have "mframe W m0 (pmem s')" by (rule mframe_trans [OF fW mframe_mono [OF fr]]) (use u W in auto)
  moreover have "mem_read (pmem s') (PTE2PA (leaf (pmem s) T b)) 4096 = mem_read (pmem s) (PTE2PA (leaf (pmem s) T b)) 4096"
    if "b \<in> set (pages_from 0 k)" for b
  proof -
    have "PTE2PA (leaf (pmem s) T b) \<in> C" using that by (auto simp: C_def leaf_pages_def)
    then show ?thesis using rg dis' by (intro mem_read_frame [OF fr]) (auto simp: region_def valid_page_def C_def)
  qed
  moreover have "ran T' \<union> set ps' \<union> C = W" using u W by simp
  ultimately show ?thesis
    using ci vm lf dis' unfolding copy_inv_def lp C_def [symmetric] by simp
qed

text \<open>The error path gives the copied pages back.\<close>

definition copy_undone ::
  "u64 \<Rightarrow> u64 \<Rightarrow> mem \<Rightarrow> u64 set \<Rightarrow> (u64 \<Rightarrow> u64) \<Rightarrow> nat \<Rightarrow> tables \<Rightarrow> u64 list \<Rightarrow> 'z kmem_state_scheme \<Rightarrow> bool" where
  "copy_undone kend root m0 W L k T ps s \<longleftrightarrow> vm_inv kend root T ps s \<and> mframe W m0 (pmem s) \<and> ran T \<union> set ps = W \<and>
     (\<forall>b. page_aligned b \<longrightarrow> b < MAXVA \<longrightarrow> leaf (pmem s) T b = (if b \<in> set (pages_from 0 k) then 0 else L b))"

lemma copy_err:
  assumes ci: "copy_inv kend root T1 m0 W L k T ps s"
  shows "\<exists>ps' s'. uvmcopy_err kend root (of_nat k * PGSIZE) s = Inr (-1, s') \<and> copy_undone kend root m0 W L k T ps' s' \<and>
    kmem_state.more s' = kmem_state.more s"
proof -
  let ?C = "leaf_pages (pmem s) T 0 k" and ?n = "of_nat k * PGSIZE div PGSIZE :: u64"
  have rg: "region kend T k (pmem s)" and vm: "vm_inv kend root T ps s" and W: "ran T \<union> set ps \<union> set ?C = W"
    and dis: "set ?C \<inter> set ps = {}" and fW: "mframe W m0 (pmem s)"
    using ci by (auto simp: copy_inv_def)
  have n: "unat ?n = k" using rg unat_page_addr [of k] by (simp add: region_def unat_div)
  have "page_aligned 0" by (simp add: page_aligned_def)
  moreover have "\<forall>pg\<in>set ?C. valid_page kend pg \<and> pg \<notin> ran T \<and> pg \<notin> set ps" using rg dis by (auto simp: region_def)
  ultimately obtain s' where s': "uvmunmap kend root 0 ?n True s = Inr s'" "vm_inv kend root T (rev ?C @ ps) s'"
    "\<forall>b. page_aligned b \<and> b < MAXVA \<longrightarrow> leaf (pmem s') T b = (if b \<in> set (pages_from 0 k) then 0 else leaf (pmem s) T b)"
    "mframe (ran T \<union> set ?C) (pmem s) (pmem s')" "kmem_state.more s' = kmem_state.more s"
    using uvmunmap_ok [OF vm, of 0 ?n True, unfolded n] rg by (auto simp: region_def)
  have "mframe W m0 (pmem s')" by (rule mframe_trans [OF fW mframe_mono [OF s'(4)]]) (use W in auto)
  then have "copy_undone kend root m0 W L k T (rev ?C @ ps) s'"
    using s' W ci unfolding copy_undone_def copy_inv_def by auto
  with s' show ?thesis by (auto simp: uvmcopy_err_def)
qed

lemma uvmcopy_loop_ok:
  assumes po: "parent_ok kend old T1 m0 W n" and sz: "\<And>j. j \<le> n \<Longrightarrow> (of_nat j * PGSIZE < sz) = (j < n)"
    and L: "\<And>b. b \<in> set (pages_from 0 n) \<Longrightarrow> L b AND PTE_V = 0"
  shows "k \<le> n \<Longrightarrow> copy_inv kend root T1 m0 W L k T ps s \<Longrightarrow>
    \<exists>r T' ps' s'. uvmcopy_loop kend old root (of_nat k * PGSIZE) sz s = Inr (r, s') \<and>
      (r = 0 \<and> copy_inv kend root T1 m0 W L n T' ps' s' \<or>
       r = -1 \<and> (\<exists>j<n. copy_undone kend root m0 W L j T' ps' s')) \<and> kmem_state.more s' = kmem_state.more s"
proof (induction "n - k" arbitrary: k T ps s)
  case 0
  then have "k = n" by simp
  with 0 sz [of n] show ?case by (subst uvmcopy_loop.simps) auto
next
  case (Suc d)
  let ?a = "of_nat k * PGSIZE :: u64"
  have k: "k < n" using Suc.hyps(2) by simp
  have lt: "?a < sz" using sz [of k] k by simp
  have ain: "?a \<in> set (pages_from 0 n)" using k by (auto simp: page_addr_in)
  have n: "4096 * n \<le> unat MAXVA" using po by (simp add: parent_ok_def region_def)
  have a: "page_aligned ?a" "?a < MAXVA" using ain n page_addr_iff [OF n] by (auto simp: word_less_nat_alt)
  note ci = Suc.prems(2)
  have fW: "mframe W m0 (pmem s)" and vm: "vm_inv kend root T ps s" using ci by (auto simp: copy_inv_def)
  have pt0: "pt_inv kend old T1 m0" and dW: "ran T1 \<inter> W = {}" using po by (auto simp: parent_ok_def)
  note pt = pt_frame [OF pt0 fW dW]
  let ?e = "leaf m0 T1 ?a"
  have e: "?e AND PTE_V \<noteq> 0" "PTE_FLAGS ?e \<noteq> PTE_V" using po ain by (auto simp: parent_ok_def region_def)
  have ad: "leaf_addr T1 ?a \<noteq> 0" using e(1) leaf_zero [OF pt0] by fastforce
  have w: "walk old ?a False s = Inr (leaf_addr T1 ?a, s)" "load64 (pmem s) (leaf_addr T1 ?a) = ?e"
    using walk_find [OF pt(1) a(2)] leaf_load [OF ad, of "pmem s"] pt(2) by simp_all
  obtain ps0 s0 where er: "uvmcopy_err kend root ?a s = Inr (-1, s0)" "copy_undone kend root m0 W L k T ps0 s0"
    "kmem_state.more s0 = kmem_state.more s" using copy_err [OF ci] by blast
  show ?case
  proof (cases ps)
    case Nil
    then have "kalloc s = (0, s)" using vm kalloc_empty [of kend s] by (simp add: vm_inv_def)
    then have "uvmcopy_loop kend old root ?a sz s = Inr (-1, s0)"
      using lt w ad e er(1) by (subst uvmcopy_loop.simps) (simp add: Let_def)
    with er(2,3) k show ?thesis by blast
  next
    case (Cons pg qs)
    note ci = ci [unfolded Cons]
    obtain s1 where s1: "kalloc s = (pg, s1)" "vm_inv kend root T qs s1" "mframe {pg} (pmem s) (pmem s1)"
      "kmem_state.more s1 = kmem_state.more s" "valid_page kend pg" "pg \<notin> ran T" "pg \<notin> set qs"
      "\<forall>va. leaf (pmem s1) T va = leaf (pmem s) T va" using vm_kalloc [OF vm [unfolded Cons]] by blast
    let ?s2 = "s1\<lparr>pmem := memmove (pmem s1) pg (PTE2PA ?e) 4096\<rparr>"
    note st = copy_step [OF ci po k s1(1,2,3,5-8)]
    have pg0: "pg \<noteq> 0" using s1(5) by (auto simp: valid_page_def)
    have un: "leaf (pmem ?s2) T ?a AND PTE_V = 0"
    proof -
      have "?a \<notin> set (pages_from 0 k)" using page_addr_iff [of k ?a] n k unat_page_addr [of k] by auto
      then have "leaf (pmem s) T ?a = L ?a" using ci a by (simp add: copy_inv_def)
      then show ?thesis using L [OF ain] st(2) by simp
    qed
    show ?thesis
    proof (rule mappages_one [OF st(1) a un, of pg "PTE_FLAGS ?e"])
      fix T3 ps3 s3
      assume m: "mappages root ?a PGSIZE pg (PTE_FLAGS ?e) ?s2 = Inr (0, s3)" "vm_inv kend root T3 ps3 s3"
        "tgrow T qs ?s2 T3 ps3 s3" "\<forall>b. page_aligned b \<longrightarrow> b < MAXVA \<longrightarrow>
           leaf (pmem s3) T3 b = (if b = ?a then PA2PTE pg OR PTE_FLAGS ?e OR PTE_V else leaf (pmem ?s2) T b)"
      have ci3: "copy_inv kend root T1 m0 W L (Suc k) T3 ps3 s3"
        by (rule copy_next [OF ci po k s1(5-7) st(2-4) m(2-4)])
      have nx: "?a + PGSIZE = of_nat (Suc k) * PGSIZE" by (simp add: algebra_simps)
      have lo: "uvmcopy_loop kend old root ?a sz s = uvmcopy_loop kend old root (of_nat (Suc k) * PGSIZE) sz s3"
        unfolding nx [symmetric]
        using lt w ad e s1(1) pg0 m(1) by (subst uvmcopy_loop.simps) (simp add: Let_def)
      have "kmem_state.more s3 = kmem_state.more s" using m(3) s1(4) by (simp add: tgrow_def)
      with Suc.hyps(1) [OF _ _ ci3] Suc.hyps(2) k lo show ?thesis by auto
    next
      fix T3 s3
      assume m: "mappages root ?a PGSIZE pg (PTE_FLAGS ?e) ?s2 = Inr (-1, s3)" "vm_inv kend root T3 [] s3"
        "tgrow T qs ?s2 T3 [] s3" "\<forall>b. leaf (pmem s3) T3 b = leaf (pmem ?s2) T b"
      from m(3) have u: "ran T3 = ran T \<union> set qs" and fr3: "mframe (ran T3) (pmem ?s2) (pmem s3)"
        and mo: "kmem_state.more s3 = kmem_state.more s1" by (auto simp: tgrow_def)
      obtain s4 where s4: "kfree kend pg s3 = Inr s4" "vm_inv kend root T3 [pg] s4"
        "\<forall>va. leaf (pmem s4) T3 va = leaf (pmem s3) T3 va" "mframe {pg} (pmem s3) (pmem s4)"
        "kmem_state.more s4 = kmem_state.more s3"
        using vm_kfree [OF m(2) s1(5)] s1(6,7) u by auto
      have "mframe (ran T3 \<union> set [pg]) (pmem s) (pmem s4)"
        by (rule mframe_trans [OF mframe_mono [OF st(3)] mframe_trans [OF mframe_mono [OF fr3] mframe_mono [OF s4(4)]]]) auto
      then have "copy_inv kend root T1 m0 W L k T3 [pg] s4"
        using s4 m(4) st(2) u by (intro copy_keep [OF ci s4(2)]) auto
      from copy_err [OF this] obtain ps5 s5 where s5: "uvmcopy_err kend root ?a s4 = Inr (-1, s5)"
        "copy_undone kend root m0 W L k T3 ps5 s5" "kmem_state.more s5 = kmem_state.more s4" by blast
      have "uvmcopy_loop kend old root ?a sz s = Inr (-1, s5)"
        using lt w ad e s1(1) pg0 m(1) s4(1) s5(1) by (subst uvmcopy_loop.simps) (simp add: Let_def)
      with s5 s4(5) mo s1(4) k show ?thesis by auto
    qed
  qed
qed

lemma npages_iff:
  assumes "sz \<le> MAXVA" and "j \<le> npages sz"
  shows "(of_nat j * PGSIZE < sz) = (j < npages sz)"
proof -
  have le: "unat sz \<le> 2 ^ 38" using assms(1) by (simp add: word_le_nat_alt MAXVA_def)
  then have n: "npages sz = (unat sz + 4095) div 4096"
    using unat_PGROUNDUP [of sz] by (simp add: npages_def minus_mod_eq_div_mult)
  have "unat (of_nat j * PGSIZE :: u64) = 4096 * j"
    using assms unat_npages [OF assms(1)] by (intro unat_page_addr) linarith
  then have "(of_nat j * PGSIZE < sz) = (4096 * j < unat sz)" by (simp add: word_less_nat_alt)
  also have "\<dots> = (j < (unat sz + 4095) div 4096)" by (simp add: less_eq_div_iff_mult_less_eq Suc_le_eq [symmetric] del: Suc_le_eq) linarith
  finally show ?thesis by (simp add: n)
qed

lemma uvmcopy_ok:
  assumes "vm_inv kend new T ps s" and "parent_ok kend old T1 (pmem s) (ran T \<union> set ps) (npages sz)" and "sz \<le> MAXVA"
    and "\<forall>b\<in>set (pages_from 0 (npages sz)). leaf (pmem s) T b AND PTE_V = 0"
  shows "\<exists>r T' ps' s'. uvmcopy kend old new sz s = Inr (r, s') \<and>
      (r = 0 \<and> copy_inv kend new T1 (pmem s) (ran T \<union> set ps) (leaf (pmem s) T) (npages sz) T' ps' s' \<or>
       r = -1 \<and> (\<exists>j<npages sz. copy_undone kend new (pmem s) (ran T \<union> set ps) (leaf (pmem s) T) j T' ps' s')) \<and>
      kmem_state.more s' = kmem_state.more s"
proof -
  have "copy_inv kend new T1 (pmem s) (ran T \<union> set ps) (leaf (pmem s) T) 0 T ps s"
    using assms(1) by (simp add: copy_inv_def region_def leaf_pages_def)
  from uvmcopy_loop_ok [OF assms(2) npages_iff [OF assms(3)] _ _ this] assms(4) show ?thesis
    by (simp add: uvmcopy_def)
qed

section \<open>The user's view of a copy\<close>

lemma flags_and:
  assumes "PTE_FLAGS e = PTE_FLAGS e'" and "0x3FF AND f = f"
  shows "e AND f = e' AND f"
proof -
  have "x AND f = PTE_FLAGS x AND f" for x unfolding PTE_FLAGS_def by (simp only: and.assoc assms(2))
  with assms(1) show ?thesis by metis
qed

lemma same_page_view:
  assumes "PTE_FLAGS (leaf m' T' b) = PTE_FLAGS (leaf m T b)"
    and "mem_read m' (PTE2PA (leaf m' T' b)) 4096 = mem_read m (PTE2PA (leaf m T b)) 4096" and "b = PGROUNDDOWN a"
  shows "umem m' T' a = umem m T a" "uwritable m' T' a = uwritable m T a"
proof -
  have f: "leaf m' T' b AND x = leaf m T b AND x" if "x \<in> {PTE_V, PTE_U, PTE_W}" for x
    using flags_and [OF assms(1), of x] that by (auto simp: PTE_V_def PTE_U_def PTE_W_def)
  then have u: "ubit m' T' b = ubit m T b" by (simp add: ubit_def)
  have "unat (a - PGROUNDDOWN a) < 4096" by (simp add: page_off)
  then have "m' (PTE2PA (leaf m' T' b) + (a - b)) = m (PTE2PA (leaf m T b) + (a - b))"
    using arg_cong [OF assms(2), of "\<lambda>xs. xs ! unat (a - b)"] assms(3) by simp
  then show "umem m' T' a = umem m T a" using u assms(3) by (simp add: umem_def upa_def)
  show "uwritable m' T' a = uwritable m T a" using u f assms(3) by (simp add: uwritable_def)
qed

lemma page_of_region:
  assumes "4096 * n \<le> unat MAXVA" and "unat a < 4096 * n"
  shows "PGROUNDDOWN a \<in> set (pages_from 0 n)"
  using assms unfolding page_addr_iff [OF assms(1)]
  by (simp add: unat_PGROUNDDOWN)

lemma parent_view:
  assumes "parent_ok kend old T1 m0 W n" and "mframe W m0 m" and "unat a < 4096 * n"
  shows "umem m T1 a = umem m0 T1 a"
proof -
  have n: "4096 * n \<le> unat MAXVA" and pt: "pt_inv kend old T1 m0" and d: "ran T1 \<inter> W = {}"
    using assms(1) by (auto simp: parent_ok_def region_def)
  let ?b = "PGROUNDDOWN a"
  have "PTE2PA (leaf m0 T1 ?b) \<in> set (leaf_pages m0 T1 0 n)"
    using page_of_region [OF n assms(3)] by (auto simp: leaf_pages_def)
  then have "valid_page kend (PTE2PA (leaf m0 T1 ?b))" "PTE2PA (leaf m0 T1 ?b) \<notin> W"
    using assms(1) by (auto simp: parent_ok_def region_def)
  then have "mem_read m (PTE2PA (leaf m0 T1 ?b)) 4096 = mem_read m0 (PTE2PA (leaf m0 T1 ?b)) 4096"
    by (intro mem_read_frame [OF assms(2)]) (auto simp: valid_page_def)
  with pt_frame [OF pt assms(2) d] show ?thesis by (intro same_page_view(1)) auto
qed


section \<open>A parent with one page and an empty child\<close>

lemma kmem_exists: "distinct ps \<Longrightarrow> \<forall>p\<in>set ps. valid_page kend p \<Longrightarrow> \<exists>s :: kmem_state. kmem_inv kend s ps"
proof (induction ps)
  case Nil
  have "kmem_inv kend (\<lparr>pmem = \<lambda>_. 0, freelist = 0\<rparr> :: kmem_state) []" by (simp add: kmem_inv_def)
  then show ?case by blast
next
  case (Cons p ps)
  then obtain s :: kmem_state where "kmem_inv kend s ps" by auto
  from kfree_valid [OF this, of p] Cons.prems show ?case by auto
qed

definition eight :: "u64 list" where
  "eight = [0x80028000, 0x80027000, 0x80026000, 0x80025000, 0x80024000, 0x80023000, 0x80022000, 0x80021000]"

lemma eight_ok: "distinct eight" "\<forall>p\<in>set eight. valid_page 0x80020000 p" "0x80100000 \<notin> set eight"
  by (simp_all add: eight_def valid_page_def page_aligned_def PGSIZE_def PHYSTOP_def KERNBASE_def)

lemma npages_one: "npages 0x1000 = 1" "pages_from 0 1 = [0]" "leaf_pages m T 0 1 = [PTE2PA (leaf m T 0)]"
  by (simp_all add: npages_def PGROUNDUP_def PGSIZE_def pages_from_def leaf_pages_def)

lemma one_at_zero:
  obtains (ex) s :: kmem_state and T ps where "vm_inv 0x80020000 0x80028000 T ps s"
    "\<forall>b. page_aligned b \<longrightarrow> b < MAXVA \<longrightarrow> leaf (pmem s) T b = (if b = 0 then one_entry else 0)"
    "0x80100000 \<notin> ran T \<union> set ps" "5 \<le> length ps"
proof -
  obtain s0 :: kmem_state where "kmem_inv 0x80020000 s0 eight" using kmem_exists [OF eight_ok(1,2)] by blast
  then have k0: "kmem_inv 0x80020000 s0 (0x80028000 # tl eight)" by (simp add: eight_def)
  let ?T0 = "[[] \<mapsto> 0x80028000] :: tables"
  obtain s1 :: kmem_state where s1: "vm_inv 0x80020000 0x80028000 ?T0 (tl eight) s1" "\<forall>va. leaf (pmem s1) ?T0 va = 0"
    using uvmcreate_ok [OF k0] by blast
  have a: "page_aligned 0" "0 < MAXVA" by (simp_all add: page_aligned_def MAXVA_def)
  have z: "leaf (pmem s1) ?T0 0 AND PTE_V = 0" using s1(2) by simp
  have l7: "length (tl eight) = 7" by (simp add: eight_def)
  show thesis
  proof (rule mappages_one [OF s1(1) a z, of "0x80100000" "PTE_R OR PTE_W OR PTE_U"])
    fix T1 and s2 :: kmem_state assume "length (tl eight) < 2"
    with l7 show thesis by simp
  next
    fix T1 ps1 and s2 :: kmem_state
    assume m: "vm_inv 0x80020000 0x80028000 T1 ps1 s2" "tgrow ?T0 (tl eight) s1 T1 ps1 s2"
      "\<forall>b. page_aligned b \<longrightarrow> b < MAXVA \<longrightarrow> leaf (pmem s2) T1 b =
         (if b = 0 then PA2PTE 0x80100000 OR (PTE_R OR PTE_W OR PTE_U) OR PTE_V else leaf (pmem s1) ?T0 b)"
      "length (tl eight) \<le> length ps1 + 2"
    obtain qs where qs: "tl eight = qs @ ps1" "ran T1 = ran ?T0 \<union> set qs" using m(2) unfolding tgrow_def by blast
    have "set (tl eight) = set qs \<union> set ps1" unfolding qs(1) by simp
    moreover have "ran ?T0 = {0x80028000}" "(0x80100000 :: u64) \<notin> set (tl eight)" by (simp_all add: eight_def)
    ultimately have "0x80100000 \<notin> ran T1 \<union> set ps1" unfolding qs(2) by auto
    then show thesis using m s1(2) l7 by (intro ex [of T1 ps1 s2]) (auto simp: one_entry_def)
  qed
qed

lemma two_spaces:
  obtains (ex) s :: kmem_state and T1 T ps new where
    "vm_inv 0x80020000 new T ps s" "parent_ok 0x80020000 0x80028000 T1 (pmem s) (ran T \<union> set ps) (npages 0x1000)"
    "\<forall>va. leaf (pmem s) T va = 0" "leaf (pmem s) T1 0 = one_entry"
proof -
  obtain s2 :: kmem_state and T1 ps1 where m: "vm_inv 0x80020000 0x80028000 T1 ps1 s2"
    "\<forall>b. page_aligned b \<longrightarrow> b < MAXVA \<longrightarrow> leaf (pmem s2) T1 b = (if b = 0 then one_entry else 0)"
    "0x80100000 \<notin> ran T1 \<union> set ps1" "5 \<le> length ps1" by (rule one_at_zero)
  have e: "leaf (pmem s2) T1 0 = one_entry" using m(2) by (simp add: page_aligned_def MAXVA_def)
  from m(4) obtain pg ps2 where ps1: "ps1 = pg # ps2" by (cases ps1) auto
  have k2: "kmem_inv 0x80020000 s2 (pg # ps2)" and pt2: "pt_inv 0x80020000 0x80028000 T1 (pmem s2)"
    and d: "ran T1 \<inter> insert pg (set ps2) = {}" using m(1) ps1 by (auto simp: vm_inv_def)
  obtain s3 :: kmem_state where s3: "vm_inv 0x80020000 pg [[] \<mapsto> pg] ps2 s3" "\<forall>va. leaf (pmem s3) [[] \<mapsto> pg] va = 0"
    "mframe {pg} (pmem s2) (pmem s3)" using uvmcreate_ok [OF k2] by blast
  have "ran T1 \<inter> {pg} = {}" using d by auto
  note pt3 = pt_frame [OF pt2 s3(3) this]
  have "parent_ok 0x80020000 0x80028000 T1 (pmem s3) (ran ([[] \<mapsto> pg] :: tables) \<union> set ps2) (npages 0x1000)"
    using pt3 e d m(3) ps1 unfolding parent_ok_def region_def npages_one
    by (auto simp: valid_page_def page_aligned_def PGSIZE_def PHYSTOP_def KERNBASE_def MAXVA_def)
  then show thesis using pt3(2) e s3(1,2) by (intro ex [of pg "[[] \<mapsto> pg]" ps2 s3 T1]) auto
qed


section \<open>Freeing an address space, as a property\<close>

text \<open>
  C20. \<^verbatim>\<open>uvmfree\<close> gives back everything. When the pages up to the size of the process, and no others,
  are mapped, it terminates without a panic (the recursion of \<^verbatim>\<open>freewalk\<close> is at most three deep)
  and puts each user page and each page of the page table on the free list exactly once,
  changing no memory outside those pages.
\<close>

theorem uvmfree_frees_everything:
  assumes "vm_inv kend root T ps s" and "region kend T (npages sz) (pmem s)"
    and "set (leaf_pages (pmem s) T 0 (npages sz)) \<inter> set ps = {}"
    and "\<forall>va. page_aligned va \<and> va < MAXVA \<and> va \<notin> set (pages_from 0 (npages sz)) \<longrightarrow> leaf (pmem s) T va AND PTE_V = 0"
    and "sz \<le> MAXVA"
  shows "\<exists>s' qs. uvmfree kend root sz s = Inr s' \<and> kmem_inv kend s' (qs @ ps) \<and> distinct (qs @ ps) \<and>
    set qs = ran T \<union> set (leaf_pages (pmem s) T 0 (npages sz)) \<and> mframe (set qs) (pmem s) (pmem s') \<and>
    kmem_state.more s' = kmem_state.more s"
proof -
  obtain s' where "uvmfree kend root sz s = Inr s'"
    "gives kend (ran T \<union> set (leaf_pages (pmem s) T 0 (npages sz)))
      (ran T \<union> set (leaf_pages (pmem s) T 0 (npages sz))) s ps s'"
    using uvmfree_ok [OF assms(1-3) _ assms(5)] assms(4) by blast
  then show ?thesis unfolding gives_def kmem_inv_def by metis
qed

theorem uvmfree_frees_everything_witness:
  "\<exists>(s :: kmem_state) T ps s' qs. vm_inv 0x80020000 0x80028000 T ps s \<and> leaf (pmem s) T 0 = one_entry \<and>
     uvmfree 0x80020000 0x80028000 0x1000 s = Inr s' \<and> kmem_inv 0x80020000 s' (qs @ ps) \<and>
     set qs = insert 0x80100000 (ran T)"
proof -
  obtain s :: kmem_state and T ps where m: "vm_inv 0x80020000 0x80028000 T ps s"
    "\<forall>b. page_aligned b \<longrightarrow> b < MAXVA \<longrightarrow> leaf (pmem s) T b = (if b = 0 then one_entry else 0)"
    "0x80100000 \<notin> ran T \<union> set ps" by (rule one_at_zero)
  have e: "leaf (pmem s) T 0 = one_entry" using m(2) by (simp add: page_aligned_def MAXVA_def)
  have "region 0x80020000 T (npages 0x1000) (pmem s)"
    using e m(3) unfolding region_def npages_one
    by (auto simp: valid_page_def page_aligned_def PGSIZE_def PHYSTOP_def KERNBASE_def MAXVA_def)
  moreover have "\<forall>va. page_aligned va \<and> va < MAXVA \<and> va \<notin> set (pages_from 0 (npages 0x1000)) \<longrightarrow>
      leaf (pmem s) T va AND PTE_V = 0"
    using m(2) unfolding npages_one by simp
  moreover have "(0x1000 :: u64) \<le> MAXVA" by (simp add: MAXVA_def)
  ultimately obtain s' qs where r: "uvmfree 0x80020000 0x80028000 0x1000 s = Inr s'" "kmem_inv 0x80020000 s' (qs @ ps)"
    "set qs = ran T \<union> set (leaf_pages (pmem s) T 0 (npages 0x1000))"
    using uvmfree_frees_everything [OF m(1), of "0x1000"] m(3) e unfolding npages_one by auto
  have "set qs = insert 0x80100000 (ran T)" using r(3) e unfolding npages_one by simp
  with m(1) e r(1,2) show ?thesis by blast
qed

end
