(* ===== verification/Xv6_Aspace.thy ===== *)
theory Xv6_Aspace
  imports Xv6_Process Xv6_Uvm
begin

text \<open>
  The address space of a process over its life: \<^verbatim>\<open>proc_pagetable\<close> builds it, \<^verbatim>\<open>proc_freepagetable\<close> takes
  it apart.
\<close>

section \<open>The two pages of the kernel\<close>

lemma kernel_pages:
  "page_aligned TRAMPOLINE" "TRAMPOLINE < MAXVA" "page_aligned TRAPFRAME" "TRAPFRAME < MAXVA"
  "TRAMPOLINE \<noteq> TRAPFRAME" "unat TRAMPOLINE = 2 ^ 38 - 4096" "unat TRAPFRAME = 2 ^ 38 - 8192"
  by (simp_all add: TRAMPOLINE_def TRAPFRAME_def MAXVA_def PGSIZE_def page_aligned_def)

definition tramp_entry :: "kenv \<Rightarrow> u64" where
  "tramp_entry E = (PA2PTE (k_trampoline E) OR (PTE_R OR PTE_X) OR PTE_V)"

definition frame_entry :: "u64 \<Rightarrow> u64" where
  "frame_entry tf = (PA2PTE tf OR (PTE_R OR PTE_W) OR PTE_V)"

lemma PTE_FLAGS_or: "PTE_FLAGS (PA2PTE pa OR fl) = PTE_FLAGS fl"
proof -
  have "take_bit 10 (PA2PTE pa OR fl) = take_bit 10 fl" by (simp add: PA2PTE_def take_bit_push_bit)
  then show ?thesis by (simp add: PTE_FLAGS_def take_bit_eq_mask mask_eq_exp_minus_1)
qed

lemma PTE_U_or: "(PA2PTE pa OR fl) AND PTE_U = fl AND PTE_U"
  using flags_and [OF PTE_FLAGS_or, of PTE_U pa fl] by (simp add: PTE_U_def)

lemma kernel_entries:
  "tramp_entry E AND PTE_V \<noteq> 0" "frame_entry tf AND PTE_V \<noteq> 0"
  "PTE_FLAGS (tramp_entry E) \<noteq> PTE_V" "PTE_FLAGS (frame_entry tf) \<noteq> PTE_V"
  "tramp_entry E AND PTE_U = 0" "frame_entry tf AND PTE_U = 0"
  unfolding tramp_entry_def frame_entry_def
  by (rule entry_valid, rule entry_valid)
     (simp_all add: or.assoc PTE_FLAGS_or PTE_U_or, simp_all add: PTE_FLAGS_def PTE_R_def PTE_X_def PTE_W_def PTE_V_def PTE_U_def)

text \<open>An address space with nothing but the two pages.\<close>

definition kernel_only :: "kenv \<Rightarrow> u64 \<Rightarrow> mem \<Rightarrow> tables \<Rightarrow> bool" where
  "kernel_only E tf m T \<longleftrightarrow> (\<forall>b. page_aligned b \<longrightarrow> b < MAXVA \<longrightarrow>
     leaf m T b = (if b = TRAMPOLINE then tramp_entry E else if b = TRAPFRAME then frame_entry tf else 0))"

lemma uvmfree_empty:
  assumes "vm_inv kend root T ps s" and "\<And>b. page_aligned b \<Longrightarrow> b < MAXVA \<Longrightarrow> leaf (pmem s) T b AND PTE_V = 0"
  obtains s' where "uvmfree kend root 0 s = Inr s'" "gives kend (ran T) (ran T) s ps s'"
  using freewalk_frees [OF assms] by (auto simp: uvmfree_def)

lemma unmap_kernel_page:
  assumes "vm_inv kend root T ps s" and "page_aligned b" "b < MAXVA"
    and "leaf (pmem s) T b AND PTE_V \<noteq> 0" "PTE_FLAGS (leaf (pmem s) T b) \<noteq> PTE_V"
  obtains s' where "uvmunmap kend root b 1 False s = Inr s'" "vm_inv kend root T ps s'"
    "\<forall>c. page_aligned c \<longrightarrow> c < MAXVA \<longrightarrow> leaf (pmem s') T c = (if c = b then 0 else leaf (pmem s) T c)"
    "mframe (ran T) (pmem s) (pmem s')" "kmem_state.more s' = kmem_state.more s"
proof -
  have "unat b + 4096 * unat (1 :: u64) \<le> unat MAXVA"
  proof -
    have "page_aligned MAXVA" by (simp add: page_aligned_def MAXVA_def PGSIZE_def)
    from aligned_apart [OF assms(2) this] assms(3) show ?thesis by (auto simp: word_less_nat_alt)
  qed
  moreover have "pages_from b (unat (1 :: u64)) = [b]" by (simp add: pages_from_def)
  ultimately show thesis
    using uvmunmap_ok [OF assms(1,2), of 1 False] assms(4,5) that by auto
qed

section \<open>Building\<close>

lemma tgrow_union:
  assumes "tgrow T ps s T' ps' s'"
  shows "ran T' \<union> set ps' = ran T \<union> set ps"
proof -
  obtain qs where "ps = qs @ ps'" "ran T' = ran T \<union> set qs" using assms unfolding tgrow_def by blast
  then show ?thesis by auto
qed

lemma tgrow_frame: "tgrow T ps s T' ps' s' \<Longrightarrow> ran T' \<subseteq> P \<Longrightarrow> mframe P (pmem s) (pmem s')"
  by (auto simp: tgrow_def intro: mframe_mono)

lemma gives_frame: "gives kend Q W s ps s' \<Longrightarrow> W \<subseteq> P \<Longrightarrow> mframe P (pmem s) (pmem s')"
  by (auto simp: gives_def intro: mframe_mono)

text \<open>Giving the tables back after a failure.\<close>

lemma give_back:
  assumes "vm_inv kend root T ps s" "tgrow T0 ps0 s0 T ps s" "ran T0 = {root}" "root \<notin> set ps0"
    and "gives kend (ran T) (ran T) s ps s'"
  shows "\<exists>qs. kmem_inv kend s' qs \<and> set qs = insert root (set ps0)"
proof -
  obtain qs rs where "kmem_inv kend s' (qs @ ps)" "set qs = ran T" "ps0 = rs @ ps" "ran T = insert root (set rs)"
    using assms by (auto simp: gives_def tgrow_def)
  then show ?thesis by (intro exI [of _ "qs @ ps"]) auto
qed

lemma proc_pagetable_ok:
  fixes s :: "'z kstate_scheme"
  assumes k: "kmem_inv (k_end E) s ps"
  shows "\<exists>pt s'. proc_pagetable E i s = Inr (pt, s') \<and> kmem_state.more s' = kmem_state.more s \<and>
    mframe (set ps) (pmem s) (pmem s') \<and> (5 \<le> length ps \<longrightarrow> pt \<noteq> 0) \<and>
    (pt = 0 \<and> (\<exists>qs. kmem_inv (k_end E) s' qs \<and> set qs = set ps) \<or>
     pt \<noteq> 0 \<and> (\<exists>T ps'. vm_inv (k_end E) pt T ps' s' \<and> ran T \<union> set ps' = set ps \<and>
       kernel_only E (p_trapframe (procs s i)) (pmem s') T))"
proof (cases ps)
  case Nil
  then have "uvmcreate s = (0, s)" using k kalloc_empty [of "k_end E" s] by (simp add: uvmcreate_def)
  then show ?thesis using k Nil by (auto simp: proc_pagetable_def)
next
  case (Cons pg qs)
  let ?T0 = "[[] \<mapsto> pg] :: tables" and ?K = "k_end E"
  obtain s1 where s1: "uvmcreate s = (pg, s1)" "vm_inv ?K pg ?T0 qs s1" "\<forall>va. leaf (pmem s1) ?T0 va = 0"
    "kmem_state.more s1 = kmem_state.more s" "mframe {pg} (pmem s) (pmem s1)"
    using uvmcreate_ok [of ?K s pg qs] k Cons by blast
  have f1: "mframe (set ps) (pmem s) (pmem s1)" using mframe_mono [OF s1(5)] Cons by simp
  have pg: "pg \<noteq> 0" "pg \<notin> set qs" using k Cons by (auto simp: kmem_inv_def valid_page_def)
  have z1: "leaf (pmem s1) ?T0 TRAMPOLINE AND PTE_V = 0" using s1(3) by simp
  show ?thesis
  proof (rule mappages_one [OF s1(2) kernel_pages(1,2) z1, of "k_trampoline E" "PTE_R OR PTE_X"])
    fix T2 s2
    assume m: "mappages pg TRAMPOLINE PGSIZE (k_trampoline E) (PTE_R OR PTE_X) s1 = Inr (-1, s2)"
      "vm_inv ?K pg T2 [] s2" "tgrow ?T0 qs s1 T2 [] s2" "\<forall>b. leaf (pmem s2) T2 b = leaf (pmem s1) ?T0 b" "length qs < 2"
    obtain s3 where s3: "uvmfree ?K pg 0 s2 = Inr s3" "gives ?K (ran T2) (ran T2) s2 [] s3"
      using uvmfree_empty [OF m(2)] m(4) s1(3) by auto
    have "proc_pagetable E i s = Inr (0, s3)" using s1(1) pg m(1) s3(1) by (simp add: proc_pagetable_def)
    moreover have "\<exists>us. kmem_inv ?K s3 us \<and> set us = set ps"
      using give_back [OF m(2,3) _ pg(2) s3(2)] Cons by simp
    moreover have "mframe (set ps) (pmem s) (pmem s3)"
      by (rule mframe_trans [OF f1 mframe_trans [OF tgrow_frame [OF m(3)] gives_frame [OF s3(2)]]])
         (use tgrow_union [OF m(3)] Cons in auto)
    ultimately show ?thesis using s3(2) m(3,5) s1(4) Cons by (auto simp: gives_def tgrow_def)
  next
    fix T2 ps2 s2
    assume m: "mappages pg TRAMPOLINE PGSIZE (k_trampoline E) (PTE_R OR PTE_X) s1 = Inr (0, s2)"
      "vm_inv ?K pg T2 ps2 s2" "tgrow ?T0 qs s1 T2 ps2 s2" "\<forall>b. page_aligned b \<longrightarrow> b < MAXVA \<longrightarrow> leaf (pmem s2) T2 b =
         (if b = TRAMPOLINE then PA2PTE (k_trampoline E) OR (PTE_R OR PTE_X) OR PTE_V else leaf (pmem s1) ?T0 b)"
      "length qs \<le> length ps2 + 2"
    have mo: "kmem_state.more s2 = kmem_state.more s" using m(3) s1(4) by (simp add: tgrow_def)
    have ps2: "procs s2 i = procs s i" using kmem_more_frame(2) [OF mo] by simp
    have z2: "leaf (pmem s2) T2 TRAPFRAME AND PTE_V = 0" using m(4) s1(3) kernel_pages by auto
    show ?thesis
    proof (rule mappages_one [OF m(2) kernel_pages(3,4) z2, of "p_trapframe (procs s i)" "PTE_R OR PTE_W"])
      fix T3 s3
      assume n: "mappages pg TRAPFRAME PGSIZE (p_trapframe (procs s i)) (PTE_R OR PTE_W) s2 = Inr (-1, s3)"
        "vm_inv ?K pg T3 [] s3" "tgrow T2 ps2 s2 T3 [] s3" "\<forall>b. leaf (pmem s3) T3 b = leaf (pmem s2) T2 b" "length ps2 < 2"
      have l: "leaf (pmem s3) T3 TRAMPOLINE = tramp_entry E" using n(4) m(4) kernel_pages by (simp add: tramp_entry_def)
      obtain s4 where s4: "uvmunmap ?K pg TRAMPOLINE 1 False s3 = Inr s4" "vm_inv ?K pg T3 [] s4"
        "\<forall>c. page_aligned c \<longrightarrow> c < MAXVA \<longrightarrow> leaf (pmem s4) T3 c = (if c = TRAMPOLINE then 0 else leaf (pmem s3) T3 c)"
        "mframe (ran T3) (pmem s3) (pmem s4)" "kmem_state.more s4 = kmem_state.more s3"
        using unmap_kernel_page [OF n(2) kernel_pages(1,2)] l kernel_entries by metis
      have "leaf (pmem s4) T3 b AND PTE_V = 0" if "page_aligned b" "b < MAXVA" for b
        using s4(3) n(4) m(4) s1(3) that by simp
      then obtain s5 where s5: "uvmfree ?K pg 0 s4 = Inr s5" "gives ?K (ran T3) (ran T3) s4 [] s5"
        using uvmfree_empty [OF s4(2)] by blast
      have "tgrow T2 ps2 s2 T3 [] s4"
        using n(3) s4(4,5) by (auto simp: tgrow_def intro: mframe_trans)
      note g = tgrow_trans [OF m(3) this]
      from give_back [OF s4(2) g _ pg(2) s5(2)] Cons
      have "\<exists>us. kmem_inv ?K s5 us \<and> set us = set ps" by simp
      moreover have "proc_pagetable E i s = Inr (0, s5)"
        using s1(1) pg m(1) n(1) s4(1) s5(1) ps2 by (simp add: proc_pagetable_def)
      moreover have "mframe (set ps) (pmem s) (pmem s5)"
        by (rule mframe_trans [OF f1 mframe_trans [OF tgrow_frame [OF g] gives_frame [OF s5(2)]]])
           (use tgrow_union [OF g] Cons in auto)
      ultimately show ?thesis using s5(2) s4(5) n(3,5) m(5) mo Cons by (auto simp: gives_def tgrow_def)
    next
      fix T3 ps3 s3
      assume n: "mappages pg TRAPFRAME PGSIZE (p_trapframe (procs s i)) (PTE_R OR PTE_W) s2 = Inr (0, s3)"
        "vm_inv ?K pg T3 ps3 s3" "tgrow T2 ps2 s2 T3 ps3 s3" "\<forall>b. page_aligned b \<longrightarrow> b < MAXVA \<longrightarrow> leaf (pmem s3) T3 b =
           (if b = TRAPFRAME then PA2PTE (p_trapframe (procs s i)) OR (PTE_R OR PTE_W) OR PTE_V else leaf (pmem s2) T2 b)"
      have "kernel_only E (p_trapframe (procs s i)) (pmem s3) T3"
        using n(4) m(4) s1(3) kernel_pages(5) by (auto simp: kernel_only_def tramp_entry_def frame_entry_def)
      moreover have "ran T3 \<union> set ps3 = set ps"
        using tgrow_union [OF tgrow_trans [OF m(3) n(3)]] Cons by simp
      moreover have "proc_pagetable E i s = Inr (pg, s3)"
        using s1(1) pg m(1) n(1) ps2 by (simp add: proc_pagetable_def)
      moreover have "kmem_state.more s3 = kmem_state.more s" using n(3) mo by (simp add: tgrow_def)
      moreover have "mframe (set ps) (pmem s) (pmem s3)"
        by (rule mframe_trans [OF f1 tgrow_frame [OF tgrow_trans [OF m(3) n(3)]]])
           (use tgrow_union [OF tgrow_trans [OF m(3) n(3)]] Cons in auto)
      ultimately show ?thesis using n(2) pg(1) by blast
    qed
  qed
qed

section \<open>Taking apart\<close>

text \<open>The address space of a process of size \<open>sz\<close>.\<close>

definition proc_space :: "kenv \<Rightarrow> u64 \<Rightarrow> tables \<Rightarrow> u64 \<Rightarrow> mem \<Rightarrow> bool" where
  "proc_space E tf T sz m \<longleftrightarrow> sz \<le> TRAPFRAME \<and> region (k_end E) T (npages sz) m \<and>
     (\<forall>b. page_aligned b \<longrightarrow> b < MAXVA \<longrightarrow> b \<notin> set (pages_from 0 (npages sz)) \<longrightarrow>
        (if b = TRAMPOLINE then leaf m T b = tramp_entry E else if b = TRAPFRAME then leaf m T b = frame_entry tf
         else leaf m T b AND PTE_V = 0))"

lemma below_TRAPFRAME:
  assumes "sz \<le> TRAPFRAME"
  shows "sz \<le> MAXVA" "TRAMPOLINE \<notin> set (pages_from 0 (npages sz))" "TRAPFRAME \<notin> set (pages_from 0 (npages sz))"
proof -
  have le: "unat sz \<le> 2 ^ 38 - 8192" using assms kernel_pages(7) by (simp add: word_le_nat_alt)
  then show mx: "sz \<le> MAXVA" by (simp add: word_le_nat_alt MAXVA_def)
  have "npages sz = (unat sz + 4095) div 4096"
    using unat_PGROUNDUP [of sz] le by (simp add: npages_def minus_mod_eq_div_mult)
  moreover have "(unat sz + 4095) div 4096 \<le> (2 ^ 38 - 8192 + 4095) div 4096" using le by (intro div_le_mono) simp
  ultimately have n: "4096 * npages sz \<le> 2 ^ 38 - 8192" by simp
  then have "4096 * npages sz \<le> unat MAXVA" by (simp add: MAXVA_def)
  note in_iff = page_addr_iff [OF this]
  show "TRAMPOLINE \<notin> set (pages_from 0 (npages sz))" "TRAPFRAME \<notin> set (pages_from 0 (npages sz))"
    unfolding in_iff using n kernel_pages(6,7) by auto
qed

lemma proc_freepagetable_ok:
  fixes s :: "'z kstate_scheme"
  assumes vm: "vm_inv (k_end E) pt T ps s" and sp: "proc_space E tf T sz (pmem s)"
    and dis: "set (leaf_pages (pmem s) T 0 (npages sz)) \<inter> set ps = {}"
  shows "\<exists>s'. proc_freepagetable E pt sz s = Inr s' \<and>
    gives (k_end E) (ran T \<union> set (leaf_pages (pmem s) T 0 (npages sz)))
      (ran T \<union> set (leaf_pages (pmem s) T 0 (npages sz))) s ps s'"
proof -
  let ?K = "k_end E" and ?P = "set (pages_from 0 (npages sz))"
  have le: "sz \<le> TRAPFRAME" and rg: "region ?K T (npages sz) (pmem s)" using sp by (auto simp: proc_space_def)
  note bt = below_TRAPFRAME [OF le]
  have l: "leaf (pmem s) T TRAMPOLINE = tramp_entry E" "leaf (pmem s) T TRAPFRAME = frame_entry tf"
    using sp bt kernel_pages(1-5) by (auto simp: proc_space_def)
  obtain s1 where s1: "uvmunmap ?K pt TRAMPOLINE 1 False s = Inr s1" "vm_inv ?K pt T ps s1"
    "\<forall>c. page_aligned c \<longrightarrow> c < MAXVA \<longrightarrow> leaf (pmem s1) T c = (if c = TRAMPOLINE then 0 else leaf (pmem s) T c)"
    "mframe (ran T) (pmem s) (pmem s1)" "kmem_state.more s1 = kmem_state.more s"
    using unmap_kernel_page [OF vm kernel_pages(1,2)] l(1) kernel_entries by metis
  have l1: "leaf (pmem s1) T TRAPFRAME = frame_entry tf" using s1(3) l(2) kernel_pages(3-5) by simp
  obtain s2 where s2: "uvmunmap ?K pt TRAPFRAME 1 False s1 = Inr s2" "vm_inv ?K pt T ps s2"
    "\<forall>c. page_aligned c \<longrightarrow> c < MAXVA \<longrightarrow> leaf (pmem s2) T c = (if c = TRAPFRAME then 0 else leaf (pmem s1) T c)"
    "mframe (ran T) (pmem s1) (pmem s2)" "kmem_state.more s2 = kmem_state.more s1"
    using unmap_kernel_page [OF s1(2) kernel_pages(3,4)] l1 kernel_entries by metis
  have n: "4096 * npages sz \<le> unat MAXVA" using unat_npages [OF bt(1)] by simp
  have same: "leaf (pmem s2) T b = leaf (pmem s) T b" if "b \<in> ?P" for b
    using s1(3) s2(3) that bt(2,3) page_addr_iff [OF n, of b] n by (auto simp: word_less_nat_alt)
  then have lp: "leaf_pages (pmem s2) T 0 (npages sz) = leaf_pages (pmem s) T 0 (npages sz)" by (simp add: leaf_pages_def)
  have rg2: "region ?K T (npages sz) (pmem s2)" using rg same lp by (simp add: region_def)
  have "leaf (pmem s2) T va AND PTE_V = 0" if "page_aligned va" "va < MAXVA" "va \<notin> ?P" for va
    using s1(3) s2(3) sp that by (auto simp: proc_space_def)
  from uvmfree_ok [OF s2(2) rg2 _ this bt(1)] dis obtain s3 where s3: "uvmfree ?K pt sz s2 = Inr s3"
    "gives ?K (ran T \<union> set (leaf_pages (pmem s) T 0 (npages sz))) (ran T \<union> set (leaf_pages (pmem s) T 0 (npages sz))) s2 ps s3"
    unfolding lp by blast
  have "mframe (ran T \<union> set (leaf_pages (pmem s) T 0 (npages sz))) (pmem s) (pmem s3)"
    by (rule mframe_trans [OF mframe_mono [OF mframe_trans [OF s1(4) s2(4)]] gives_frame [OF s3(2)]]) auto
  with s1(1,5) s2(1,5) s3 show ?thesis by (auto simp: proc_freepagetable_def gives_def)
qed

section \<open>The life of an address space\<close>

lemma kernel_only_space:
  assumes "kernel_only E tf m T"
  shows "proc_space E tf T 0 m"
  using assms by (auto simp: proc_space_def kernel_only_def region_def leaf_pages_def)

lemma copied_space:
  assumes "copy_inv (k_end E) pt T1 m0 W L (npages sz) T ps s" and "sz \<le> TRAPFRAME"
    and "\<forall>b. page_aligned b \<longrightarrow> b < MAXVA \<longrightarrow>
      L b = (if b = TRAMPOLINE then tramp_entry E else if b = TRAPFRAME then frame_entry tf else 0)"
  shows "proc_space E tf T sz (pmem s)"
  using assms by (auto simp: proc_space_def copy_inv_def)

lemma undone_space:
  assumes "copy_undone (k_end E) pt m0 W L j T ps s" and "sz \<le> TRAPFRAME" and "j < npages sz"
    and "\<forall>b. page_aligned b \<longrightarrow> b < MAXVA \<longrightarrow>
      L b = (if b = TRAMPOLINE then tramp_entry E else if b = TRAPFRAME then frame_entry tf else 0)"
  shows "kernel_only E tf (pmem s) T"
proof -
  have "set (pages_from 0 j) \<subseteq> set (pages_from 0 (npages sz))" 
    using assms(3) by (auto simp: pages_from_def)
  then have "TRAMPOLINE \<notin> set (pages_from 0 j)" "TRAPFRAME \<notin> set (pages_from 0 j)"
    using below_TRAPFRAME [OF assms(2)] by auto
  with assms(1,4) show ?thesis by (auto simp: kernel_only_def copy_undone_def)
qed

lemma parent_ok_frame:
  assumes "parent_ok kend old T1 m W n" and "mframe W m m'"
  shows "parent_ok kend old T1 m' W n"
proof -
  have pt: "pt_inv kend old T1 m" and "ran T1 \<inter> W = {}" using assms(1) by (auto simp: parent_ok_def)
  note f = pt_frame [OF pt assms(2) this(2)]
  then have "leaf_pages m' T1 0 n = leaf_pages m T1 0 n" by (simp add: leaf_pages_def)
  with assms(1) f show ?thesis by (simp add: parent_ok_def region_def)
qed

text \<open>
  A new process has no memory of its own: when \<^verbatim>\<open>proc_pagetable\<close> succeeds, no byte is visible to
  user code, and the trampoline and trap frame are mapped for the kernel alone; it succeeds
  whenever five pages are free; and when it fails, every page it took is free again.
\<close>

theorem proc_pagetable_isolated:
  fixes s :: "'z kstate_scheme"
  assumes "kmem_inv (k_end E) s ps"
  shows "\<exists>pt s'. proc_pagetable E i s = Inr (pt, s') \<and> (5 \<le> length ps \<longrightarrow> pt \<noteq> 0) \<and>
    (pt = 0 \<and> (\<exists>qs. kmem_inv (k_end E) s' qs \<and> set qs = set ps) \<or>
     (\<exists>T ps'. vm_inv (k_end E) pt T ps' s' \<and> (\<forall>a. umem (pmem s') T a = None) \<and>
        PTE2PA (leaf (pmem s') T TRAMPOLINE) = PTE2PA (tramp_entry E) \<and>
        PTE2PA (leaf (pmem s') T TRAPFRAME) = PTE2PA (frame_entry (p_trapframe (procs s i)))))"
proof -
  obtain pt s' where pp: "proc_pagetable E i s = Inr (pt, s')" "5 \<le> length ps \<longrightarrow> pt \<noteq> 0"
    "pt = 0 \<and> (\<exists>qs. kmem_inv (k_end E) s' qs \<and> set qs = set ps) \<or>
     pt \<noteq> 0 \<and> (\<exists>T ps'. vm_inv (k_end E) pt T ps' s' \<and> ran T \<union> set ps' = set ps \<and>
       kernel_only E (p_trapframe (procs s i)) (pmem s') T)" using proc_pagetable_ok [OF assms, of i] by blast
  have "umem (pmem s') T a = None \<and> leaf (pmem s') T TRAMPOLINE = tramp_entry E \<and>
      leaf (pmem s') T TRAPFRAME = frame_entry tf" if "kernel_only E tf (pmem s') T" for T a tf
    using that kernel_entries(5,6) kernel_pages(1-5)
    by (auto simp: umem_def ubit_def kernel_only_def)
  with pp show ?thesis by metis
qed

text \<open>
  C2. Nothing leaks between \<^verbatim>\<open>fork\<close> and \<^verbatim>\<open>wait\<close>. The page table that \<^verbatim>\<open>proc_pagetable\<close> builds and
  \<^verbatim>\<open>uvmcopy\<close> fills, or fails to fill, is taken apart by \<^verbatim>\<open>proc_freepagetable\<close> without a panic, and the
  free list then holds exactly the pages it held at the start.
\<close>

theorem address_space_lifecycle:
  fixes s :: "'z kstate_scheme"
  assumes "kmem_inv (k_end E) s ps" and "parent_ok (k_end E) old T1 (pmem s) (set ps) (npages sz)" and "sz \<le> TRAPFRAME"
    and "proc_pagetable E i s = Inr (pt, s1)" and "pt \<noteq> 0" and "uvmcopy (k_end E) old pt sz s1 = Inr (r, s2)"
  shows "\<exists>s3 qs. proc_freepagetable E pt (if r = 0 then sz else 0) s2 = Inr s3 \<and> kmem_inv (k_end E) s3 qs \<and>
    set qs = set ps"
proof -
  let ?K = "k_end E" and ?tf = "p_trapframe (procs s i)"
  note bt = below_TRAPFRAME [OF assms(3)]
  obtain T ps1 where t: "vm_inv ?K pt T ps1 s1" "ran T \<union> set ps1 = set ps" "kernel_only E ?tf (pmem s1) T"
    and f: "mframe (set ps) (pmem s) (pmem s1)"
    using proc_pagetable_ok [OF assms(1), of i] assms(4,5) by auto
  have po: "parent_ok ?K old T1 (pmem s1) (ran T \<union> set ps1) (npages sz)"
    using parent_ok_frame [OF assms(2) f] t(2) by simp
  have n: "4096 * npages sz \<le> unat MAXVA" using unat_npages [OF bt(1)] by simp
  have un: "\<forall>b\<in>set (pages_from 0 (npages sz)). leaf (pmem s1) T b AND PTE_V = 0"
    using t(3) bt(2,3) page_addr_iff [OF n] n by (auto simp: kernel_only_def word_less_nat_alt)
  obtain T' ps' where c: "r = 0 \<and> copy_inv ?K pt T1 (pmem s1) (set ps) (leaf (pmem s1) T) (npages sz) T' ps' s2 \<or>
      r = -1 \<and> (\<exists>j<npages sz. copy_undone ?K pt (pmem s1) (set ps) (leaf (pmem s1) T) j T' ps' s2)"
    using uvmcopy_ok [OF t(1) po bt(1) un] assms(6) t(2) by auto
  let ?z = "if r = 0 then sz else 0"
  have sp: "proc_space E ?tf T' ?z (pmem s2)"
    using c copied_space [OF _ assms(3)] undone_space [OF _ assms(3), THEN kernel_only_space] t(3)
    by (auto simp: kernel_only_def)
  have vm: "vm_inv ?K pt T' ps' s2" and u: "ran T' \<union> set ps' \<union> set (leaf_pages (pmem s2) T' 0 (npages ?z)) = set ps"
    and d: "set (leaf_pages (pmem s2) T' 0 (npages ?z)) \<inter> set ps' = {}"
    using c by (auto simp: copy_inv_def copy_undone_def leaf_pages_def)
  obtain s3 qs where "proc_freepagetable E pt ?z s2 = Inr s3" "kmem_inv ?K s3 (qs @ ps')"
    "set qs = ran T' \<union> set (leaf_pages (pmem s2) T' 0 (npages ?z))"
    using proc_freepagetable_ok [OF vm sp d] by (auto simp: gives_def)
  then show ?thesis using u by (intro exI [of _ s3] exI [of _ "qs @ ps'"]) auto
qed

text \<open>A kernel whose image ends at 0x80020000, and a state of it with the memory of another.\<close>

definition kenv0 :: kenv where
  "kenv0 = \<lparr>k_end = 0x80020000, k_trampoline = 0x80007000, k_forkret = 0x80001000, k_usertrap = 0x80002000,
     k_kernelvec = 0x80005000, k_uservec = 0, k_userret = 156, k_pad = [0, 0, 0, 0]\<rparr>"

definition with_memory :: "kmem_state \<Rightarrow> kstate \<Rightarrow> kstate" where
  "with_memory m s = s\<lparr>pmem := pmem m, freelist := freelist m\<rparr>"

lemma kenv0_end [simp]: "k_end kenv0 = 0x80020000"
  by (simp add: kenv0_def)

lemma with_memory [simp]:
  "pmem (with_memory m s) = pmem m" "procs (with_memory m s) = procs s"
  "kmem_inv kend (with_memory m s) ps = kmem_inv kend m ps"
  by (simp_all add: with_memory_def kmem_inv_def)

theorem proc_pagetable_isolated_witness:
  "\<exists>(s :: kstate) pt s' T. kmem_inv 0x80020000 s eight \<and> proc_pagetable kenv0 3 s = Inr (pt, s') \<and> pt \<noteq> 0 \<and>
     (\<forall>a. umem (pmem s') T a = None) \<and> PTE2PA (leaf (pmem s') T TRAMPOLINE) = 0x80007000"
proof -
  obtain m :: kmem_state where m: "kmem_inv 0x80020000 m eight" using kmem_exists [OF eight_ok(1,2)] by blast
  let ?s = "with_memory m (start_state (\<lambda>_. []))"
  have k: "kmem_inv (k_end kenv0) ?s eight" using m by simp
  have "PTE2PA (tramp_entry kenv0) = 0x80007000" "5 \<le> length eight"
    by (simp_all add: tramp_entry_def kenv0_def eight_def PTE2PA_def PA2PTE_def PTE_V_def PTE_R_def PTE_X_def)
  with proc_pagetable_isolated [OF k, of 3] have "\<exists>pt s' T. proc_pagetable kenv0 3 ?s = Inr (pt, s') \<and> pt \<noteq> 0 \<and>
    (\<forall>a. umem (pmem s') T a = None) \<and> PTE2PA (leaf (pmem s') T TRAMPOLINE) = 0x80007000" by auto
  with k show ?thesis by (metis kenv0_end)
qed

theorem address_space_lifecycle_witness:
  "\<exists>(s :: kstate) ps T1 pt s1 r s2 s3 qs. kmem_inv 0x80020000 s ps \<and>
     parent_ok 0x80020000 0x80028000 T1 (pmem s) (set ps) (npages 0x1000) \<and>
     proc_pagetable kenv0 3 s = Inr (pt, s1) \<and> uvmcopy 0x80020000 0x80028000 pt 0x1000 s1 = Inr (r, s2) \<and>
     proc_freepagetable kenv0 pt (if r = 0 then 0x1000 else 0) s2 = Inr s3 \<and> kmem_inv 0x80020000 s3 qs \<and>
     set qs = set ps"
proof -
  obtain m :: kmem_state and T1 ps where m: "vm_inv 0x80020000 0x80028000 T1 ps m"
    "\<forall>b. page_aligned b \<longrightarrow> b < MAXVA \<longrightarrow> leaf (pmem m) T1 b = (if b = 0 then one_entry else 0)"
    "0x80100000 \<notin> ran T1 \<union> set ps" "5 \<le> length ps" by (rule one_at_zero)
  let ?s = "with_memory m (start_state (\<lambda>_. []))"
  have e: "leaf (pmem m) T1 0 = one_entry" using m(2) by (simp add: page_aligned_def MAXVA_def)
  have k: "kmem_inv (k_end kenv0) ?s ps" using m(1) by (simp add: vm_inv_def)
  have po: "parent_ok 0x80020000 0x80028000 T1 (pmem ?s) (set ps) (npages 0x1000)"
    using m(1,3) e unfolding parent_ok_def region_def npages_one vm_inv_def
    by (auto simp: valid_page_def page_aligned_def PGSIZE_def PHYSTOP_def KERNBASE_def MAXVA_def)
  have z: "(0x1000 :: u64) \<le> TRAPFRAME" "(0x1000 :: u64) \<le> MAXVA"
    by (simp_all add: TRAPFRAME_def TRAMPOLINE_def MAXVA_def PGSIZE_def)
  obtain pt s1 T ps1 where c: "proc_pagetable kenv0 3 ?s = Inr (pt, s1)" "pt \<noteq> 0" "vm_inv 0x80020000 pt T ps1 s1"
    "ran T \<union> set ps1 = set ps" "mframe (set ps) (pmem ?s) (pmem s1)"
    "kernel_only kenv0 (p_trapframe (procs ?s 3)) (pmem s1) T"
    using proc_pagetable_ok [OF k, of 3] m(4) by auto
  have po1: "parent_ok 0x80020000 0x80028000 T1 (pmem s1) (ran T \<union> set ps1) (npages 0x1000)"
    using parent_ok_frame [OF po c(5)] c(4) by simp
  have un: "\<forall>b\<in>set (pages_from 0 (npages 0x1000)). leaf (pmem s1) T b AND PTE_V = 0"
    using c(6) unfolding npages_one
    by (simp add: kernel_only_def page_aligned_def MAXVA_def TRAPFRAME_def TRAMPOLINE_def PGSIZE_def)
  obtain r s2 where u: "uvmcopy 0x80020000 0x80028000 pt 0x1000 s1 = Inr (r, s2)"
    using uvmcopy_ok [OF c(3) po1 z(2) un] by blast
  have "\<exists>s3 qs. proc_freepagetable kenv0 pt (if r = 0 then 0x1000 else 0) s2 = Inr s3 \<and>
      kmem_inv (k_end kenv0) s3 qs \<and> set qs = set ps"
    by (rule address_space_lifecycle [OF k _ z(1) c(1,2)]) (use po u in simp_all)
  with k po c(1) u show ?thesis by (metis kenv0_end)
qed

end
