(* ===== verification/Xv6_Schedule.thy ===== *)
theory Xv6_Schedule
  imports Xv6_Procinv Xv6_Aspace
begin

text \<open>
  Two consequences for running processes: a pass of \<^verbatim>\<open>scheduler\<close> runs every process that was ready
  when it began, and \<^verbatim>\<open>kill(0)\<close> marks a free slot of the table, so that the next process created is
  born killed.
\<close>

section \<open>The scheduler\<close>

lemma sched_pass_append:
  "sched_pass run (xs @ ys) found s = (case sched_pass run xs found s of (f, t) \<Rightarrow> sched_pass run ys f t)"
  by (induction xs arbitrary: found s) simp_all

lemma sched_pass_found: "fst (sched_pass run xs True s)"
  by (induction xs arbitrary: s) simp_all

lemma switch_to_other: "k \<noteq> i \<Longrightarrow> procs (switch_to k s) i = procs s i"
  by (simp add: switch_to_def Let_def)

lemma sched_pass_keeps:
  assumes "\<And>k t. k \<noteq> i \<Longrightarrow> p_state (procs t i) = RUNNABLE \<Longrightarrow> p_state (procs (run k t) i) = RUNNABLE"
  shows "i \<notin> set xs \<Longrightarrow> p_state (procs s i) = RUNNABLE \<Longrightarrow> p_state (procs (snd (sched_pass run xs found s)) i) = RUNNABLE"
  using assms by (induction xs arbitrary: found s) (simp_all add: switch_to_other)

lemma sched_pass_idle:
  "(\<And>i. i \<in> set xs \<Longrightarrow> p_state (procs s i) \<noteq> RUNNABLE) \<Longrightarrow> sched_pass run xs found s = (found, s)"
  by (induction xs) simp_all


text \<open>Two ready processes, each of which yields at once.\<close>

definition two_ready :: kstate where
  "two_ready = (start_state (\<lambda>_. []))\<lparr>procs := (\<lambda>_. zero_proc)(3 := zero_proc\<lparr>p_state := RUNNABLE, p_pid := 4\<rparr>,
     5 := zero_proc\<lparr>p_state := RUNNABLE, p_pid := 6\<rparr>)\<rparr>"

definition yielding :: "nat \<Rightarrow> kstate \<Rightarrow> kstate" where
  "yielding i s = upd_proc i (\<lambda>p. p\<lparr>p_state := RUNNABLE\<rparr>) s"


section \<open>kill(0)\<close>

lemma kill_loop_first:
  "find (\<lambda>i. p_pid (procs s i) = pid) is = Some i \<Longrightarrow>
   kill_loop pid is s = (0, upd_proc i (\<lambda>p. p\<lparr>p_killed := True,
      p_state := (if p_state p = SLEEPING then RUNNABLE else p_state p)\<rparr>) s)"
  by (induction "is") (auto split: if_splits)

lemma free_slot_pid: "pid_inv s \<Longrightarrow> free_slot s = find (\<lambda>i. p_pid (procs s i) = 0) [0..<NPROC]"
  unfolding free_slot_def by (rule find_cong) (auto dest: pid_range split: if_splits)

text \<open>
  \<^verbatim>\<open>kill(0)\<close> succeeds and dooms a process that does not exist yet. The unused slots have pid 0,
  so \<^verbatim>\<open>kill\<close> finds the first of them, sets its \<^verbatim>\<open>killed\<close> flag and returns 0 instead of -1;
  \<^verbatim>\<open>allocproc\<close> takes that same slot and does not clear the flag, so the child of the next
  successful \<^verbatim>\<open>fork\<close> is already killed.
\<close>

theorem kill_zero_dooms_next_child:
  assumes "pid_inv s" and "running s" and "free_slot s = Some i"
  shows "\<exists>s'. kill 0 s = (0, s') \<and>
    (\<forall>E r t. fork E s' = Inr (r, t) \<and> r \<noteq> -1 \<longrightarrow> p_pid (procs t i) = r \<and> p_state (procs t i) = RUNNABLE \<and> killed i t)"
proof -
  let ?s = "upd_proc i (\<lambda>p. p\<lparr>p_killed := True, p_state := (if p_state p = SLEEPING then RUNNABLE else p_state p)\<rparr>) s"
  have k: "kill 0 s = (0, ?s)"
    unfolding kill_def by (rule kill_loop_first) (use assms(1,3) free_slot_pid in metis)
  have fs: "free_slot ?s = Some i"
    using free_slot_Some [OF assms(3)] assms(3) unfolding free_slot_def by (simp cong: find_cong) (auto simp: find_Some_iff)
  have "p_state (myproc ?s) \<noteq> UNUSED"
    using assms(2) free_slot_Some [OF assms(3)] by (auto simp: running_def myproc_def)
  then have "p_pid (procs t i) = r \<and> p_state (procs t i) = RUNNABLE \<and> killed i t" if "fork E ?s = Inr (r, t)" "r \<noteq> -1" for E r t
    using fork_effect [OF that(1)] that(2) fs by (auto simp: killed_def)
  with k show ?thesis by blast
qed

text \<open>With six free pages the \<^verbatim>\<open>fork\<close> of a process without memory and open files succeeds.\<close>

lemma dup_no_files: "\<forall>fd\<in>set fds. p_ofile (myproc s) ! fd = None \<Longrightarrow> dup_files np fds s = Inr s"
  by (induction fds) simp_all

lemma fork_child_succeeds:
  assumes "i \<noteq> cur s" and "p_cwd (procs s (cur s)) = Some d" and "\<forall>fd<NOFILE. p_ofile (procs s (cur s)) ! fd = None"
  shows "\<exists>t. fork_child i s = Inr (p_pid (procs s i), t)"
  using assms
  by (simp add: fork_child_def Let_def dup_no_files myproc_def tf_set_def idup_def upd_inode_def)

lemma fork_succeeds:
  fixes s :: "'z kstate_scheme"
  assumes "free_slot s = Some i" and "nextpid s + 1 < 2 ^ 31" and "kmem_inv (k_end E) s (pg # ps)" and "5 \<le> length ps"
    and "i \<noteq> cur s" and "p_sz (myproc s) = 0" and "p_cwd (myproc s) = Some d" and "\<forall>fd<NOFILE. p_ofile (myproc s) ! fd = None"
  shows "\<exists>t. fork E s = Inr (nextpid s, t)"
proof -
  let ?s1 = "upd_proc i (\<lambda>p. p\<lparr>p_pid := nextpid s, p_state := USED\<rparr>) (s\<lparr>nextpid := nextpid s + 1\<rparr>)"
  have k1: "kmem_inv (k_end E) ?s1 (pg # ps)" using assms(3) by (simp add: kmem_inv_def upd_proc_def)
  obtain s2 where s2: "kalloc ?s1 = (pg, s2)" "kmem_inv (k_end E) s2 ps" "kmem_state.more s2 = kmem_state.more ?s1"
    "pg \<noteq> 0" using kalloc_page [OF k1] kmem.valid_nonnull [of "k_end E" pg] k1 by (auto simp: kmem_inv_def)
  let ?s3 = "upd_proc i (\<lambda>p. p\<lparr>p_trapframe := pg\<rparr>) s2"
  have k3: "kmem_inv (k_end E) ?s3 ps" using s2(2) by (simp add: kmem_inv_def upd_proc_def)
  obtain pt s4 where s4: "proc_pagetable E i ?s3 = Inr (pt, s4)" "pt \<noteq> 0" "kmem_state.more s4 = kmem_state.more ?s3"
    using proc_pagetable_ok [OF k3, of i] assms(4) by blast
  define s6 where "s6 = upd_proc i (\<lambda>p. p\<lparr>p_context := (replicate 14 0)[0 := k_forkret E, 1 := p_kstack p + PGSIZE]\<rparr>)
    (upd_proc i (\<lambda>p. p\<lparr>p_pagetable := pt\<rparr>) s4)"
  have a: "allocproc E s = Inr (Some i, s6)"
    using assms(1,2) s2 s4 by (simp add: allocproc_def free_slot_def allocpid_def Let_def s6_def)
  have "procs s4 = procs ?s3 \<and> cur s4 = cur ?s3" "procs s2 = procs ?s1 \<and> cur s2 = cur ?s1"
    using kmem_keeps [OF s4(3)] kmem_keeps [OF s2(3)] by simp_all
  then have c: "cur s6 = cur s" "procs s6 (cur s) = procs s (cur s)" "p_pid (procs s6 i) = nextpid s"
    using assms(5) by (auto simp: s6_def)
  have u: "uvmcopy (k_end E) old new (p_sz (myproc s6)) s6 = Inr (0, s6)" for old new
    using assms(6) c by (simp add: myproc_def uvmcopy_def uvmcopy_loop.simps [of _ _ _ 0 0])
  have "\<exists>t. fork_child i s6 = Inr (p_pid (procs s6 i), t)"
    by (rule fork_child_succeeds) (use c assms(5,7,8) in \<open>simp_all add: myproc_def\<close>)
  with a u c(3) show ?thesis by (simp add: fork_def Let_def)
qed

definition lonely :: kstate where
  "lonely = (start_state (\<lambda>_. []))\<lparr>procs := (\<lambda>_. zero_proc)(2 := zero_proc\<lparr>p_state := RUNNING, p_pid := 1,
     p_cwd := Some 0\<rparr>), cur := 2, nextpid := 2\<rparr>"

theorem kill_zero_dooms_next_child_witness:
  "\<exists>(s :: kstate) s' t. running s \<and> kill 0 s = (0, s') \<and> fork kenv0 s' = Inr (2, t) \<and>
     p_state (procs t 0) = RUNNABLE \<and> p_pid (procs t 0) = 2 \<and> killed 0 t"
proof -
  obtain m :: kmem_state where m: "kmem_inv 0x80020000 m eight" using kmem_exists [OF eight_ok(1,2)] by blast
  let ?s = "with_memory m lonely"
  have l: "procs lonely = (\<lambda>_. zero_proc)(2 := zero_proc\<lparr>p_state := RUNNING, p_pid := 1, p_cwd := Some 0\<rparr>)" "cur ?s = 2"
    "nextpid ?s = 2" by (simp_all add: with_memory_def lonely_def)
  have f: "free_slot ?s = Some 0" by (simp add: free_slot_def l NPROC_def upt_rec zero_proc_def)
  have r: "running ?s" by (simp add: running_def myproc_def l NPROC_def)
  have "pid_inv ?s" using l by (auto simp: pid_inv_def zero_proc_def)
  from kill_zero_dooms_next_child [OF this r f] obtain s' where s': "kill 0 ?s = (0, s')"
    "\<And>E r t. fork E s' = Inr (r, t) \<Longrightarrow> r \<noteq> -1 \<Longrightarrow> p_pid (procs t 0) = r \<and> p_state (procs t 0) = RUNNABLE \<and> killed 0 t"
    by blast
  have e: "s' = upd_proc 0 (\<lambda>p. p\<lparr>p_killed := True, p_state := (if p_state p = SLEEPING then RUNNABLE else p_state p)\<rparr>) ?s"
    using s'(1) unfolding kill_def by (subst (asm) kill_loop_first [of _ _ _ 0]) (simp_all add: l NPROC_def upt_rec zero_proc_def)
  have "kmem_inv (k_end kenv0) s' (0x80028000 # tl eight)" using m by (simp add: e kmem_inv_def upd_proc_def eight_def with_memory_def)
  note k = fork_succeeds [OF _ _ this, of 0]
  have "\<exists>t. fork kenv0 s' = Inr (nextpid s', t)"
    by (rule k) (use f in \<open>simp_all add: e l myproc_def zero_proc_def eight_def free_slot_def NPROC_def upt_rec\<close>)
  then obtain t where "fork kenv0 s' = Inr (2, t)" by (auto simp: e l)
  with s'(2) [OF this] r s'(1) show ?thesis by auto
qed

end
