(* ===== verification/Xv6_Ulib.thy ===== *)
theory Xv6_Ulib
  imports Xv6_String
begin

text \<open>
  The C library of the user programs, \<^verbatim>\<open>user/ulib.c\<close>: strings and blocks in the memory of the
  process, and \<^verbatim>\<open>gets\<close>. Names that the kernel's \<^verbatim>\<open>string.c\<close> has too end in \<open>_u\<close>. Input is a list of
  the results the successive calls of \<^verbatim>\<open>read\<close> return; a program that reads past its end waits.
  \<^verbatim>\<open>atoi\<close> is with \<^verbatim>\<open>printf\<close>.
\<close>

section \<open>Literals\<close>

definition ascii :: "string \<Rightarrow> byte list" where
  "ascii cs = map of_char cs"

section \<open>Operations\<close>

partial_function (option) strcpy :: "mem \<Rightarrow> u64 \<Rightarrow> u64 \<Rightarrow> mem option" where
  "strcpy m s t =
     (let c = m t; m = m(s := c) in if c \<noteq> 0 then strcpy m (s + 1) (t + 1) else Some m)"

partial_function (option) strcmp :: "mem \<Rightarrow> u64 \<Rightarrow> u64 \<Rightarrow> int option" where
  "strcmp m p q =
     (if m p \<noteq> 0 \<and> m p = m q then strcmp m (p + 1) (q + 1) else Some (uint (m p) - uint (m q)))"

partial_function (option) strlen_u_loop :: "mem \<Rightarrow> u64 \<Rightarrow> nat \<Rightarrow> nat option" where
  "strlen_u_loop m s n = (if m (s + of_nat n) \<noteq> 0 then strlen_u_loop m s (Suc n) else Some n)"

definition strlen_u :: "mem \<Rightarrow> u64 \<Rightarrow> nat option" where
  "strlen_u m s = strlen_u_loop m s 0"

text \<open>The index of \<^verbatim>\<open>memset\<close> is an \<^verbatim>\<open>int\<close>: a count of \<open>2 ^ 31\<close> or more overflows it.\<close>

definition memset_u :: "mem \<Rightarrow> u64 \<Rightarrow> u32 \<Rightarrow> u32 \<Rightarrow> mem kres" where
  "memset_u m dst c n =
     (if 2 ^ 31 \<le> unat n then Inl Undefined else Inr (memset_loop m dst (ucast c) 0 (unat n)))"

partial_function (option) strchr :: "mem \<Rightarrow> u64 \<Rightarrow> byte \<Rightarrow> u64 option" where
  "strchr m s c = (if m s = 0 then Some 0 else if m s = c then Some s else strchr m (s + 1) c)"

definition memmove_u :: "mem \<Rightarrow> u64 \<Rightarrow> u64 \<Rightarrow> int \<Rightarrow> mem" where
  "memmove_u m vdst vsrc n =
     (if vdst < vsrc then copy_fwd m vdst vsrc (nat n)
      else copy_bwd m (vdst + of_int n) (vsrc + of_int n) (nat n))"

primrec memcmp_u_loop :: "mem \<Rightarrow> u64 \<Rightarrow> u64 \<Rightarrow> nat \<Rightarrow> int" where
  "memcmp_u_loop m p1 p2 0 = 0"
| "memcmp_u_loop m p1 p2 (Suc n) =
     (if m p1 \<noteq> m p2 then uint (m p1) - uint (m p2) else memcmp_u_loop m (p1 + 1) (p2 + 1) n)"

definition memcmp_u :: "mem \<Rightarrow> u64 \<Rightarrow> u64 \<Rightarrow> u32 \<Rightarrow> int" where
  "memcmp_u m s1 s2 n = memcmp_u_loop m s1 s2 (unat n)"

definition memcpy_u :: "mem \<Rightarrow> u64 \<Rightarrow> u64 \<Rightarrow> u32 \<Rightarrow> mem" where
  "memcpy_u m dst src n = memmove_u m dst src (sint n)"

text \<open>
  \<^verbatim>\<open>gets\<close> reads byte by byte: the result of a \<^verbatim>\<open>read\<close> is a byte, or \<open>None\<close> at the end of the file and
  on an error. What is returned is the content of \<^verbatim>\<open>buf\<close> before the final NUL, and the input left.
\<close>

primrec gets_loop ::
  "byte list \<Rightarrow> int \<Rightarrow> byte option list \<Rightarrow> (byte list \<times> byte option list) kres" where
  "gets_loop buf mx [] = (if int (length buf) + 1 < mx then Inl Blocks else Inr (buf, []))"
| "gets_loop buf mx (r # inp) =
     (if int (length buf) + 1 < mx
      then case r of None \<Rightarrow> Inr (buf, inp)
        | Some c \<Rightarrow> if c = 10 \<or> c = 13 then Inr (buf @ [c], inp) else gets_loop (buf @ [c]) mx inp
      else Inr (buf, r # inp))"

definition gets :: "int \<Rightarrow> byte option list \<Rightarrow> (byte list \<times> byte option list) kres" where
  "gets mx inp = gets_loop [] mx inp"

section \<open>Blocks\<close>

lemma memmove_u_spec:
  assumes "0 \<le> n" and "unat src + nat n < 2 ^ 64" and "unat dst + nat n < 2 ^ 64"
  shows "memmove_u m dst src n = mem_write m dst (mem_read m src (nat n))"
proof (cases "dst < src")
  case True
  then have "unat (dst - src) = unat dst + 2 ^ 64 - unat src"
    by (simp add: word_less_nat_alt unat_sub_if')
  with assms(2) have "nat n \<le> unat (dst - src)" by linarith
  with True assms show ?thesis by (simp add: memmove_u_def copy_fwd_spec)
next
  case False
  have "src = dst \<or> nat n \<le> unat (src - dst)"
  proof (cases "src = dst")
    case ne: False
    with False have "unat (src - dst) = unat src + 2 ^ 64 - unat dst"
      by (simp add: word_less_nat_alt unat_sub_if' word_unat_eq_iff)
    with assms(3) show ?thesis by linarith
  qed simp
  then have "copy_bwd m (dst + of_nat (nat n)) (src + of_nat (nat n)) (nat n) = mem_write m dst (mem_read m src (nat n))"
    using assms by (intro copy_bwd_spec) auto
  with False assms(1) show ?thesis by (simp add: memmove_u_def)
qed

lemma memcmp_u_loop_same: "memcmp_u_loop m p q n = memcmp_loop m p q n"
  by (induction n arbitrary: p q) simp_all

lemma strlen_u_loop_same: "cstr m (p + of_nat k) cs \<Longrightarrow> strlen_u_loop m p k = strlen_loop m p k"
proof (induction cs arbitrary: k)
  case Nil
  then show ?case by (simp add: strlen_loop.simps strlen_u_loop.simps cstr_def mem_read_Suc)
next
  case (Cons c cs)
  then have "m (p + of_nat k) \<noteq> 0" and tl: "cstr m (p + of_nat (Suc k)) cs"
    by (auto simp: cstr_def mem_read_Suc ac_simps)
  with Cons.IH [OF tl] show ?case by (subst strlen_loop.simps, subst strlen_u_loop.simps) simp
qed

text \<open>
  The user library and the kernel agree where both are defined: \<^verbatim>\<open>memmove\<close>, written differently
  in the two, moves the same bytes for every overlap of two blocks inside the address space;
  \<^verbatim>\<open>memcmp\<close> and \<^verbatim>\<open>memset\<close> are the same functions, and \<^verbatim>\<open>strlen\<close> is on every C string.
\<close>

theorem user_library_agrees:
  assumes "unat n < 2 ^ 31" and "unat src + unat n < 2 ^ 64" and "unat dst + unat n < 2 ^ 64" and "cstr m p cs"
  shows "memmove_u m dst src (sint n) = memmove m dst src n \<and> memcpy_u m dst src n = memcpy m dst src n \<and>
    memcmp_u m dst src n = memcmp m dst src n \<and> memset_u m dst c n = Inr (memset m dst c n) \<and>
    strlen_u m p = strlen m p"
proof -
  have "int (unat n) < int (2 ^ 31)" using assms(1) by (simp only: of_nat_less_iff)
  then have "uint n < 2 ^ 31" by simp
  then have "signed_take_bit 31 (uint n) = uint n" by (intro signed_take_bit_int_eq_self) (simp_all add: order_trans [of _ 0])
  then have s: "sint n = int (unat n)" by (simp add: sint_uint)
  have "memmove_u m dst src (int (unat n)) = memmove m dst src n"
    unfolding memmove_spec [OF assms(2)] using assms(2,3) by (subst memmove_u_spec) simp_all
  then have "memmove_u m dst src (sint n) = memmove m dst src n" by (simp only: s)
  then show ?thesis
    using assms(1) strlen_u_loop_same [of m p 0 cs] assms(4)
    by (simp add: memcpy_u_def memcpy_def memcmp_u_def memcmp_def memcmp_u_loop_same memset_u_def memset_def
        strlen_u_def strlen_def)
qed

theorem user_library_agrees_witness:
  "memmove_u ((\<lambda>_. 0)(100 := 1, 101 := 2, 102 := 3)) 101 100 3 = memmove ((\<lambda>_. 0)(100 := 1, 101 := 2, 102 := 3)) 101 100 3"
proof -
  have "cstr ((\<lambda>_. 0)(100 := 1, 101 := 2, 102 := 3)) 7 []" by (simp add: cstr_def mem_read_def)
  with user_library_agrees [of 3 100 101 "(\<lambda>_. 0)(100 := 1, 101 := 2, 102 := 3)" 7 "[]"] show ?thesis by simp
qed

section \<open>Strings\<close>

lemma cstr_Cons: "cstr m p (c # cs) \<longleftrightarrow> m p = c \<and> c \<noteq> 0 \<and> cstr m (p + 1) cs"
  by (auto simp: cstr_def mem_read_Suc)

lemma cstr_Nil: "cstr m p [] \<longleftrightarrow> m p = 0"
  by (simp add: cstr_def mem_read_Suc mem_read_def)

text \<open>\<^verbatim>\<open>strcmp\<close> returns on C strings, with 0 exactly for equal ones.\<close>

lemma strcmp_cstr:
  "cstr m p cs \<Longrightarrow> cstr m q ds \<Longrightarrow> \<exists>r. strcmp m p q = Some r \<and> (r = 0 \<longleftrightarrow> cs = ds)"
proof (induction cs arbitrary: p q ds)
  case Nil
  then show ?case by (cases ds) (auto simp: strcmp.simps [of m p] cstr_Cons cstr_Nil uint_0_iff)
next
  case (Cons c cs)
  show ?case
  proof (cases ds)
    case Nil
    with Cons.prems show ?thesis by (simp add: strcmp.simps [of m p q] cstr_Cons cstr_Nil uint_0_iff)
  next
    case ds: (Cons d ds')
    show ?thesis
    proof (cases "c = d")
      case True
      with Cons.prems ds have "\<exists>r. strcmp m (p + 1) (q + 1) = Some r \<and> (r = 0 \<longleftrightarrow> cs = ds')"
        by (intro Cons.IH) (auto simp: cstr_Cons)
      with True Cons.prems ds show ?thesis by (simp add: strcmp.simps [of m p q] cstr_Cons)
    next
      case False
      with Cons.prems ds show ?thesis by (auto simp: strcmp.simps [of m p q] cstr_Cons word_uint_eq_iff)
    qed
  qed
qed

text \<open>\<^verbatim>\<open>strchr\<close> finds the first occurrence, or returns 0.\<close>

lemma strchr_cstr:
  "cstr m p cs \<Longrightarrow> strchr m p c =
     Some (if c \<in> set cs then p + of_nat (length (takeWhile (\<lambda>d. d \<noteq> c) cs)) else 0)"
proof (induction cs arbitrary: p)
  case Nil
  then show ?case by (simp add: strchr.simps [of m p] cstr_Nil)
next
  case (Cons d cs)
  then show ?case by (auto simp: strchr.simps [of m p] cstr_Cons add.assoc add.commute add.left_commute)
qed

text \<open>A line that fits is read whole, with its newline; the end of the file ends it too.\<close>

lemma gets_loop_line:
  "\<forall>c\<in>set l. c \<noteq> 10 \<and> c \<noteq> 13 \<Longrightarrow> int (length buf + length l) + 1 < mx \<Longrightarrow>
   gets_loop buf mx (map Some l @ Some 10 # inp) = Inr (buf @ l @ [10], inp) \<and>
   gets_loop buf mx (map Some l @ None # inp) = Inr (buf @ l, inp)"
  by (induction l arbitrary: buf) simp_all

end
