(* ===== verification/Xv6_Grep.thy ===== *)
theory Xv6_Grep
  imports Xv6_Ulib "HOL-Library.Sublist"
begin

text \<open>
  \<^verbatim>\<open>user/grep.c\<close>: the regular-expression matcher and the loop that splits its input into lines. A C
  string is the list of its bytes; the NUL at its end is the end of the list. The matcher is
  shown to decide the language of the pattern, the loop to print the matching lines however the
  input is cut into reads.
\<close>

section \<open>The matcher\<close>

function (sequential) matchhere :: "byte list \<Rightarrow> byte list \<Rightarrow> bool"
  and matchstar :: "byte \<Rightarrow> byte list \<Rightarrow> byte list \<Rightarrow> bool" where
  "matchhere [] tx = True"
| "matchhere (c # re) tx =
     (if re \<noteq> [] \<and> hd re = 42 then matchstar c (tl re) tx
      else if c = 36 \<and> re = [] then tx = []
      else if tx \<noteq> [] \<and> (c = 46 \<or> c = hd tx) then matchhere re (tl tx)
      else False)"
| "matchstar c re tx =
     (if matchhere re tx then True
      else if tx \<noteq> [] \<and> (hd tx = c \<or> c = 46) then matchstar c re (tl tx)
      else False)"
  by pat_completeness auto
termination
  by (relation "measures [\<lambda>x. case x of Inl (re, tx) \<Rightarrow> length re | Inr (c, re, tx) \<Rightarrow> Suc (length re),
        \<lambda>x. case x of Inl (re, tx) \<Rightarrow> length tx | Inr (c, re, tx) \<Rightarrow> length tx]") auto

fun match_loop :: "byte list \<Rightarrow> byte list \<Rightarrow> bool" where
  "match_loop re tx =
     (if matchhere re tx then True else if tx \<noteq> [] then match_loop re (tl tx) else False)"

definition match :: "byte list \<Rightarrow> byte list \<Rightarrow> bool" where
  "match re tx =
     (if re \<noteq> [] \<and> hd re = 94 then matchhere (tl re) tx else match_loop re tx)"

declare match_loop.simps [simp del] matchstar.simps [simp del]

section \<open>Reading lines\<close>

text \<open>
  A \<^verbatim>\<open>read\<close> of \<open>req\<close> bytes at offset \<open>off\<close> of the input returns the next \<open>rd off req\<close> of them, at most as
  many as asked for and none at the end.
\<close>

definition read_at :: "(nat \<Rightarrow> nat \<Rightarrow> nat) \<Rightarrow> byte list \<Rightarrow> nat \<Rightarrow> nat \<Rightarrow> byte list" where
  "read_at rd inp off req = take (min req (rd off req)) (drop off inp)"

text \<open>The inner loop: what is written and what stays in the buffer. \<^verbatim>\<open>strchr\<close> stops at a NUL.\<close>

function grep_scan :: "byte list \<Rightarrow> byte list \<Rightarrow> byte list \<times> byte list" where
  "grep_scan pattern p =
     (let l = takeWhile (\<lambda>c. c \<noteq> 10 \<and> c \<noteq> 0) p; q = drop (length l) p
      in if q \<noteq> [] \<and> hd q = 10
         then let (out, rest) = grep_scan pattern (tl q)
              in ((if match pattern l then l @ [10] else []) @ out, rest)
         else ([], p))"
  by pat_completeness auto
termination
  by (relation "measure (\<lambda>(pattern, p). length p)") (auto simp: Let_def)

declare grep_scan.simps [simp del]

lemma read_at_progress: "read_at rd inp off req \<noteq> [] \<Longrightarrow> off < length inp"
  by (rule ccontr) (simp add: read_at_def)

function grep_loop :: "byte list \<Rightarrow> (nat \<Rightarrow> nat \<Rightarrow> nat) \<Rightarrow> byte list \<Rightarrow> nat \<Rightarrow> byte list \<Rightarrow> byte list" where
  "grep_loop pattern rd inp off buf =
     (let s = read_at rd inp off (1024 - length buf - 1)
      in if s = [] then []
         else let (out, rest) = grep_scan pattern (buf @ s)
              in out @ grep_loop pattern rd inp (off + length s) rest)"
  by pat_completeness auto
termination
  by (relation "measure (\<lambda>(pattern, rd, inp, off, buf). length inp - off)")
    (auto dest: read_at_progress intro: diff_less_mono2)

declare grep_loop.simps [simp del]

definition grep :: "byte list \<Rightarrow> (nat \<Rightarrow> nat \<Rightarrow> nat) \<Rightarrow> byte list \<Rightarrow> byte list" where
  "grep pattern rd inp = grep_loop pattern rd inp 0 []"

section \<open>The language of a pattern\<close>

datatype item = One byte | Many byte | Eol

definition byte_ok :: "byte \<Rightarrow> byte \<Rightarrow> bool" where
  "byte_ok c t \<longleftrightarrow> c = 46 \<or> c = t"

fun items :: "byte list \<Rightarrow> item list" where
  "items [] = []"
| "items [c] = (if c = 36 then [Eol] else [One c])"
| "items (c # d # re) = (if d = 42 then Many c # items re else One c # items (d # re))"

text \<open>What an item may consume, given what follows it.\<close>

fun item_ok :: "item \<Rightarrow> byte list \<Rightarrow> byte list \<Rightarrow> bool" where
  "item_ok (One c) u rest \<longleftrightarrow> (\<exists>t. u = [t] \<and> byte_ok c t)"
| "item_ok (Many c) u rest \<longleftrightarrow> (\<forall>t\<in>set u. byte_ok c t)"
| "item_ok Eol u rest \<longleftrightarrow> u = [] \<and> rest = []"

text \<open>\<open>denotes is u rest\<close>: the items can be cut out of \<open>u\<close>, one after the other, when \<open>rest\<close> follows.\<close>

primrec denotes :: "item list \<Rightarrow> byte list \<Rightarrow> byte list \<Rightarrow> bool" where
  "denotes [] u rest \<longleftrightarrow> u = []"
| "denotes (i # is) u rest \<longleftrightarrow> (\<exists>v w. u = v @ w \<and> item_ok i v (w @ rest) \<and> denotes is w rest)"

lemma denotes_Many:
  "denotes (Many c # is) u rest \<longleftrightarrow> denotes is u rest \<or> (\<exists>t u'. u = t # u' \<and> byte_ok c t \<and> denotes (Many c # is) u' rest)"
proof
  assume "denotes (Many c # is) u rest"
  then obtain v w where "u = v @ w" "\<forall>t\<in>set v. byte_ok c t" "denotes is w rest" by auto
  then show "denotes is u rest \<or> (\<exists>t u'. u = t # u' \<and> byte_ok c t \<and> denotes (Many c # is) u' rest)"
    by (cases v) auto
next
  assume "denotes is u rest \<or> (\<exists>t u'. u = t # u' \<and> byte_ok c t \<and> denotes (Many c # is) u' rest)"
  then show "denotes (Many c # is) u rest"
  proof (elim disjE exE conjE)
    assume "denotes is u rest"
    then show ?thesis by (auto intro: exI [of _ "[]"])
  next
    fix t u' assume "u = t # u'" "byte_ok c t" "denotes (Many c # is) u' rest"
    then obtain v w where "u = (t # v) @ w" "\<forall>x\<in>set (t # v). byte_ok c x" "denotes is w rest" by auto
    then show ?thesis unfolding denotes.simps item_ok.simps by blast
  qed
qed

lemma denotes_One: "denotes (One c # is) u rest \<longleftrightarrow> (\<exists>t u'. u = t # u' \<and> byte_ok c t \<and> denotes is u' rest)"
  unfolding denotes.simps item_ok.simps by (metis append_Cons append_Nil)

lemma items_Cons:
  "items (c # re) =
     (if re \<noteq> [] \<and> hd re = 42 then Many c # items (tl re)
      else if c = 36 \<and> re = [] then [Eol] else One c # items re)"
  by (cases re) auto

lemma match_iff:
  "matchhere re tx \<longleftrightarrow> (\<exists>u rest. tx = u @ rest \<and> denotes (items re) u rest)"
  "matchstar c re tx \<longleftrightarrow> (\<exists>u rest. tx = u @ rest \<and> denotes (Many c # items re) u rest)"
proof (induction re tx and c re tx rule: matchhere_matchstar.induct)
  case (2 c re tx)
  consider "re \<noteq> []" "hd re = 42" | "c = 36" "re = []" | "\<not> (re \<noteq> [] \<and> hd re = 42)" "\<not> (c = 36 \<and> re = [])" by blast
  then show ?case
  proof cases
    case 3
    have "(\<exists>u rest. tx = u @ rest \<and> denotes (items (c # re)) u rest) \<longleftrightarrow>
      (\<exists>t ts. tx = t # ts \<and> byte_ok c t \<and> (\<exists>u rest. ts = u @ rest \<and> denotes (items re) u rest))"
      using 3 by (cases tx) (auto simp: items_Cons denotes_One Cons_eq_append_conv simp del: denotes.simps)
    also have "\<dots> \<longleftrightarrow> tx \<noteq> [] \<and> (c = 46 \<or> c = hd tx) \<and> matchhere re (tl tx)"
      using 3 "2.IH"(2) by (cases tx) (auto simp: byte_ok_def)
    finally show ?thesis using 3 by auto
  qed (use "2.IH"(1) in \<open>auto simp: items_Cons\<close>)
next
  case (3 c re tx)
  have "(\<exists>u rest. tx = u @ rest \<and> denotes (Many c # items re) u rest) \<longleftrightarrow>
    matchhere re tx \<or> (\<exists>t ts. tx = t # ts \<and> byte_ok c t \<and>
       (\<exists>u rest. ts = u @ rest \<and> denotes (Many c # items re) u rest))"
    unfolding "3.IH"(1) by (subst denotes_Many) (auto simp del: denotes.simps, metis append_Cons)
  also have "\<dots> \<longleftrightarrow> matchstar c re tx"
    using "3.IH"(2) by (cases tx) (auto simp: matchstar.simps byte_ok_def simp del: denotes.simps)
  finally show ?case by simp
qed simp

lemma match_loop_iff: "match_loop re tx \<longleftrightarrow> (\<exists>p q. tx = p @ q \<and> matchhere re q)"
proof (induction tx)
  case (Cons t tx)
  then show ?case by (subst match_loop.simps) (auto simp: Cons_eq_append_conv)
qed (simp add: match_loop.simps)

text \<open>
  C25. The matcher of \<^verbatim>\<open>grep\<close> decides the language of its pattern: \<^verbatim>\<open>match\<close> succeeds exactly when some
  part of the tx (a prefix, for a pattern that starts with \<^verbatim>\<open>^\<close>) can be cut into pieces that the
  characters, dots, starred characters and final \<^verbatim>\<open>$\<close> of the pattern admit.
\<close>

theorem match_correct:
  "match re tx \<longleftrightarrow>
     (\<exists>p u rest. tx = p @ u @ rest \<and>
        (if re \<noteq> [] \<and> hd re = 94 then p = [] \<and> denotes (items (tl re)) u rest else denotes (items re) u rest))"
  by (auto simp: match_def match_loop_iff match_iff)

section \<open>Lines\<close>

text \<open>The lines of a text that end with a newline, without it.\<close>

function lines :: "byte list \<Rightarrow> byte list list" where
  "lines inp =
     (if 10 \<in> set inp then takeWhile (\<lambda>c. c \<noteq> 10) inp # lines (tl (dropWhile (\<lambda>c. c \<noteq> 10) inp)) else [])"
  by pat_completeness auto
termination
proof (relation "measure length")
  fix inp :: "byte list" assume "10 \<in> set inp"
  then have "dropWhile (\<lambda>c. c \<noteq> 10) inp \<noteq> []" by (auto simp: dropWhile_eq_Nil_conv)
  then have "length (tl (dropWhile (\<lambda>c. c \<noteq> 10) inp)) < length (dropWhile (\<lambda>c. c \<noteq> 10) inp)" by simp
  also have "\<dots> \<le> length inp" by (rule length_dropWhile_le)
  finally show "(tl (dropWhile (\<lambda>c. c \<noteq> 10) inp), inp) \<in> measure length" by simp
qed simp

declare lines.simps [simp del]

definition matching :: "byte list \<Rightarrow> byte list list \<Rightarrow> byte list" where
  "matching pattern ls = concat (map (\<lambda>l. l @ [10]) (filter (match pattern) ls))"

lemma lines_Cons: "10 \<notin> set l \<Longrightarrow> lines (l @ 10 # inp) = l # lines inp"
  by (subst lines.simps) (simp add: dropWhile_append takeWhile_append)

lemma lines_none: "10 \<notin> set l \<Longrightarrow> lines l = []"
  by (simp add: lines.simps)

text \<open>After a scan no newline is left, and what was printed does not depend on what follows.\<close>

lemma grep_scan_lines:
  "0 \<notin> set p \<Longrightarrow> grep_scan pattern p = (out, rest) \<Longrightarrow>
   10 \<notin> set rest \<and> suffix rest p \<and> matching pattern (lines (p @ inp)) = out @ matching pattern (lines (rest @ inp))"
proof (induction pattern p arbitrary: out rest rule: grep_scan.induct)
  case (1 pattern p)
  define l q where lq: "l = takeWhile (\<lambda>c. c \<noteq> 10 \<and> c \<noteq> 0) p" "q = drop (length l) p"
  have l: "l = takeWhile (\<lambda>c. c \<noteq> 10) p" unfolding lq(1) by (rule takeWhile_cong) (use "1.prems"(1) in auto)
  have q: "q = dropWhile (\<lambda>c. c \<noteq> 10) p" unfolding lq(2) l by (rule dropWhile_eq_drop [symmetric])
  have p: "p = l @ q" unfolding l q by simp
  have nl: "10 \<notin> set l" using l by (auto dest: set_takeWhileD)
  have st: "grep_scan pattern p = (if q \<noteq> [] \<and> hd q = 10
      then let (out, rest) = grep_scan pattern (tl q) in ((if match pattern l then l @ [10] else []) @ out, rest)
      else ([], p))"
    unfolding lq by (subst grep_scan.simps) (simp add: Let_def)
  show ?case
  proof (cases "q = []")
    case True
    then have "out = []" "rest = p" "10 \<notin> set p"
      using "1.prems"(2) p nl st by simp_all
    then show ?thesis by simp
  next
    case False
    have "hd q = 10" using hd_dropWhile [of "\<lambda>c. c \<noteq> 10" p] False unfolding q by simp
    with False obtain q' where q': "q = 10 # q'" by (cases q) auto
    obtain out' rest' where g: "grep_scan pattern q' = (out', rest')" by (cases "grep_scan pattern q'")
    have o: "out = (if match pattern l then l @ [10] else []) @ out'" "rest = rest'"
      using "1.prems"(2) q' g st by (simp_all add: Let_def)
    have z: "0 \<notin> set q'" using "1.prems"(1) p q' by auto
    have "10 \<notin> set rest' \<and> suffix rest' q' \<and> matching pattern (lines (q' @ inp)) = out' @ matching pattern (lines (rest' @ inp))"
      using "1.IH" [OF lq] q' z g by simp
    moreover have "lines (p @ inp) = l # lines (q' @ inp)" using lines_Cons [OF nl] p q' by simp
    ultimately show ?thesis using o p q'
      by (auto simp: matching_def suffix_def)
  qed
qed

lemma take_split: "xs = take k xs @ drop (length (take k xs)) xs"
  by (cases "k \<le> length xs") simp_all

lemma read_at_split: "drop off inp = read_at rd inp off req @ drop (off + length (read_at rd inp off req)) inp"
  using take_split [of "drop off inp"] unfolding read_at_def drop_drop [symmetric] add.commute [of off] .

lemma sublist_short:
  assumes "\<forall>zs. sublist zs (buf @ inp) \<longrightarrow> 10 \<notin> set zs \<longrightarrow> length zs < 1023" and "10 \<notin> set buf"
  shows "length buf < 1023"
  using assms by (meson sublist_append_rightI)

lemma grep_loop_lines:
  assumes "\<forall>off req. 0 < req \<longrightarrow> 0 < rd off req" and "0 \<notin> set inp"
  shows "off \<le> length inp \<Longrightarrow> 10 \<notin> set buf \<Longrightarrow> 0 \<notin> set buf \<Longrightarrow>
    \<forall>zs. sublist zs (buf @ drop off inp) \<longrightarrow> 10 \<notin> set zs \<longrightarrow> length zs < 1023 \<Longrightarrow>
    grep_loop pattern rd inp off buf = matching pattern (lines (buf @ drop off inp))"
proof (induction "length inp - off" arbitrary: off buf rule: less_induct)
  case less
  define s where "s = read_at rd inp off (1024 - length buf - 1)"
  have st: "grep_loop pattern rd inp off buf = (if s = [] then []
      else let (out, rest) = grep_scan pattern (buf @ s) in out @ grep_loop pattern rd inp (off + length s) rest)"
    unfolding s_def by (subst grep_loop.simps) (simp add: Let_def)
  have b: "length buf < 1023" using sublist_short less.prems(2,4) by blast
  show ?case
  proof (cases "s = []")
    case True
    moreover have "0 < rd off (1023 - length buf)" using assms(1) b by simp
    ultimately have "drop off inp = []" using b by (auto simp: s_def read_at_def)
    with True less.prems(2) show ?thesis using st by (simp add: lines_none matching_def)
  next
    case False
    obtain out rest where g: "grep_scan pattern (buf @ s) = (out, rest)" by (cases "grep_scan pattern (buf @ s)")
    define rem where "rem = drop (off + length s) inp"
    have d: "drop off inp = s @ rem"
      unfolding s_def rem_def by (rule read_at_split)
    have "set s \<subseteq> set inp" using d set_drop_subset [of off inp] by simp
    then have z: "0 \<notin> set (buf @ s)" using less.prems(3) assms(2) by auto
    note sc = grep_scan_lines [OF z g, of rem]
    have o: "off < length inp" using False read_at_progress unfolding s_def by blast
    obtain pre where pre: "buf @ s = pre @ rest" using sc by (auto simp: suffix_def)
    have e: "length inp = off + length s + length rem" using arg_cong [OF d, of length] o by simp
    have "grep_loop pattern rd inp (off + length s) rest = matching pattern (lines (rest @ drop (off + length s) inp))"
    proof (rule less.hyps)
      have "buf @ drop off inp = pre @ rest @ rem" using d pre by (metis append.assoc)
      then show "\<forall>zs. sublist zs (rest @ drop (off + length s) inp) \<longrightarrow> 10 \<notin> set zs \<longrightarrow> length zs < 1023"
        using less.prems(4) unfolding rem_def by (metis sublist_append_leftI sublist_order.order_trans)
      have "set rest \<subseteq> set (buf @ s)" using pre by simp
      then show "0 \<notin> set rest" using z by blast
    qed (use False o e sc in simp_all)
    with False g sc d show ?thesis using st by (simp add: rem_def)
  qed
qed



end
