(* ===== verification/Xv6_Sh.thy ===== *)
theory Xv6_Sh
  imports Xv6_Ulib
begin

text \<open>
  The shell, \<^verbatim>\<open>user/sh.c\<close>: its parser, and \<^verbatim>\<open>runcmd\<close> as the system calls it makes. The line is the list
  of its bytes without the final NUL, a pointer into it is an index, and \<^verbatim>\<open>es\<close> is its length. The
  struct types of the commands are the constructors of \<open>cmd\<close>, over the type of the strings in them:
  pairs of pointers \<^verbatim>\<open>q, eq\<close> while parsing, and the C strings at \<^verbatim>\<open>q\<close> once \<^verbatim>\<open>nulterminate\<close> has cut
  them. \<^verbatim>\<open>panic\<close> of the shell is the result \<open>Panic\<close>; messages on descriptor 2 of the parser are left out.
\<close>

section \<open>Commands\<close>

datatype 'a cmd =
    EXEC "'a list"
  | REDIR "'a cmd" 'a u32 nat
  | PIPE "'a cmd" "'a cmd"
  | LIST "'a cmd" "'a cmd"
  | BACK "'a cmd"

definition MAXARGS :: nat where
  "MAXARGS = 10"

definition whitespace :: "byte list" where
  "whitespace = [32, 9, 13, 10, 11]"

definition symbols :: "byte list" where
  "symbols = [60, 124, 62, 38, 59, 40, 41]"

section \<open>Tokens\<close>

definition char_at :: "byte list \<Rightarrow> nat \<Rightarrow> byte" where
  "char_at b s = (if s < length b then b ! s else 0)"

function skip_white :: "byte list \<Rightarrow> nat \<Rightarrow> nat" where
  "skip_white b s = (if s < length b \<and> char_at b s \<in> set whitespace then skip_white b (s + 1) else s)"
  by pat_completeness auto
termination by (relation "measure (\<lambda>(b, s). length b - s)") auto

function skip_word :: "byte list \<Rightarrow> nat \<Rightarrow> nat" where
  "skip_word b s =
     (if s < length b \<and> char_at b s \<notin> set whitespace \<and> char_at b s \<notin> set symbols
      then skip_word b (s + 1) else s)"
  by pat_completeness auto
termination by (relation "measure (\<lambda>(b, s). length b - s)") auto

declare skip_white.simps [simp del] skip_word.simps [simp del]

text \<open>The token, its start \<^verbatim>\<open>q\<close> and end \<^verbatim>\<open>eq\<close>, and the new position.\<close>

definition gettoken :: "byte list \<Rightarrow> nat \<Rightarrow> byte \<times> nat \<times> nat \<times> nat" where
  "gettoken b ps =
     (let q = skip_white b ps;
          c = char_at b q;
          (ret, eq) =
            (if c = 0 then (c, q)
             else if c \<in> {124, 40, 41, 59, 38, 60} then (c, q + 1)
             else if c = 62 then (if char_at b (q + 1) = 62 then (43, q + 2) else (c, q + 1))
             else (97, skip_word b q))
      in (ret, q, eq, skip_white b eq))"

definition peek :: "byte list \<Rightarrow> nat \<Rightarrow> byte list \<Rightarrow> nat \<times> bool" where
  "peek b ps toks =
     (let s = skip_white b ps in (s, char_at b s \<noteq> 0 \<and> char_at b s \<in> set toks))"

lemma skip_white_le: "s \<le> skip_white b s"
  by (induction b s rule: skip_white.induct) (subst skip_white.simps, auto)

lemma skip_white_bound: "s \<le> length b \<Longrightarrow> skip_white b s \<le> length b"
  by (induction b s rule: skip_white.induct) (subst skip_white.simps, auto)

lemma skip_word_le: "s \<le> skip_word b s"
  by (induction b s rule: skip_word.induct) (subst skip_word.simps, auto)

lemma skip_word_bound: "s \<le> length b \<Longrightarrow> skip_word b s \<le> length b"
  by (induction b s rule: skip_word.induct) (subst skip_word.simps, auto)

lemma skip_word_progress:
  "char_at b s \<noteq> 0 \<Longrightarrow> char_at b s \<notin> set whitespace \<Longrightarrow> char_at b s \<notin> set symbols \<Longrightarrow> s < skip_word b s"
  using skip_word_le [of "s + 1" b] by (subst skip_word.simps) (auto simp: char_at_def split: if_splits)

lemma skip_white_stop: "skip_white b s = length b \<or> char_at b (skip_white b s) \<notin> set whitespace \<or> length b < s"
  by (induction b s rule: skip_white.induct) (subst (1 2) skip_white.simps, auto)

lemma gettoken_le:
  assumes "gettoken b p = (tok, q, eq, p')"
  shows "p \<le> q" "q \<le> eq" "eq \<le> p'"
  using assms skip_white_le [of p b] skip_white_le [of eq b] skip_word_le [of "skip_white b p" b]
  by (auto simp: gettoken_def Let_def split: if_splits)

lemma gettoken_progress:
  assumes "gettoken b p = (tok, q, eq, p')" and "tok \<noteq> 0"
  shows "p < p'"
proof -
  have c: "char_at b q \<noteq> 0" "q = skip_white b p" using assms by (auto simp: gettoken_def Let_def split: if_splits)
  have "char_at b q \<notin> set whitespace"
    using skip_white_stop [of b p] skip_white_le [of p b] c by (auto simp: char_at_def split: if_splits)
  then have "q < eq"
    using assms c skip_word_progress [of b q] by (auto simp: gettoken_def Let_def symbols_def split: if_splits)
  then show ?thesis using gettoken_le [OF assms(1)] by simp
qed

lemma peek_le: "peek b p toks = (p', yes) \<Longrightarrow> p \<le> p'"
  using skip_white_le [of p b] by (auto simp: peek_def Let_def)

lemma skip_white_idem [simp]: "skip_white b (skip_white b s) = skip_white b s"
  by (induction b s rule: skip_white.induct) (metis skip_white.simps)

lemma gettoken_bound:
  assumes "gettoken b p = (tok, q, eq, p')" and "tok \<noteq> 0"
  shows "p < length b" "eq \<le> length b" "p' \<le> length b"
proof -
  have c: "char_at b q \<noteq> 0" "q = skip_white b p" using assms by (auto simp: gettoken_def Let_def split: if_splits)
  then have q: "q < length b" by (auto simp: char_at_def split: if_splits)
  then show "p < length b" using gettoken_le(1) [OF assms(1)] by simp
  show e: "eq \<le> length b"
    using assms c q skip_word_bound [of q b] by (auto simp: gettoken_def Let_def char_at_def split: if_splits)
  then show "p' \<le> length b" using assms(1) skip_white_bound [OF e] by (auto simp: gettoken_def Let_def split: if_splits)
qed

lemma peek_token:
  assumes "peek b p toks = (p', True)" and "gettoken b p' = (tok, q, eq, p'')"
  shows "tok \<noteq> 0" "p < p''" "p < length b" "p'' \<le> length b"
proof -
  show t: "tok \<noteq> 0"
    using assms by (auto simp: peek_def gettoken_def Let_def split: if_splits)
  show "p < p''" "p < length b" "p'' \<le> length b"
    using gettoken_progress [OF assms(2) t] gettoken_bound [OF assms(2) t] peek_le [OF assms(1)] by auto
qed

lemma peek_token_less:
  "peek b p toks = (p', True) \<Longrightarrow> gettoken b p' = (tok, q, eq, p'') \<Longrightarrow> length b - p'' < length b - p"
  using peek_token(2,3) by (metis diff_less_mono2)

lemma peek_tokens_less:
  "peek b p toks = (p', True) \<Longrightarrow> gettoken b p' = (tok, q, eq, p'') \<Longrightarrow> gettoken b p'' = (tok', q', eq', p3) \<Longrightarrow>
   length b - p3 < length b - p"
  using peek_token(2,3) [of b p toks p' tok q eq p''] gettoken_le [of b p'' tok' q' eq' p3] by linarith

section \<open>The parser\<close>

text \<open>
  The redirections of a command, in the order in which \<^verbatim>\<open>parseredirs\<close> wraps them around it: of the
  \<^verbatim>\<open>execcmd\<close>, \<^verbatim>\<open>parseexec\<close> fills in the arguments after it has been wrapped.
\<close>

type_synonym tok = "nat \<times> nat"
type_synonym redir = "tok \<times> u32 \<times> nat"

definition redircmd :: "'a cmd \<Rightarrow> ('a \<times> u32 \<times> nat) list \<Rightarrow> 'a cmd" where
  "redircmd c rs = foldl (\<lambda>c (f, mode, fd). REDIR c f mode fd) c rs"

definition redir_mode :: "byte \<Rightarrow> u32 \<times> nat" where
  "redir_mode t =
     (if t = 60 then (O_RDONLY, 0)
      else if t = 62 then (O_WRONLY OR O_CREATE OR O_TRUNC, 1)
      else (O_WRONLY OR O_CREATE, 1))"

function parseredirs :: "byte list \<Rightarrow> nat \<Rightarrow> redir list \<Rightarrow> (nat \<times> redir list) kres" where
  "parseredirs b p rs =
     (case peek b p [60, 62] of (p, yes) \<Rightarrow>
        if \<not> yes then Inr (p, rs)
        else case gettoken b p of (t, _, _, p) \<Rightarrow>
             case gettoken b p of (u, q, eq, p) \<Rightarrow>
               if u \<noteq> 97 then Inl (Panic ''missing file for redirection'')
               else parseredirs b p (rs @ [((q, eq), redir_mode t)]))"
  by pat_completeness auto
termination
  by (relation "measure (\<lambda>(b, p, rs). length b - p)")
    (auto dest: peek_tokens_less [OF sym sym sym] simp del: diff_is_0_eq' diff_is_0_eq)

declare parseredirs.simps [simp del]

text \<open>The loop of \<^verbatim>\<open>parseexec\<close>: the arguments and the redirections so far.\<close>

function exec_loop ::
  "byte list \<Rightarrow> nat \<Rightarrow> tok list \<Rightarrow> redir list \<Rightarrow> (nat \<times> tok list \<times> redir list) kres" where
  "exec_loop b p argv rs =
     (case peek b p [124, 41, 38, 59] of (p, yes) \<Rightarrow>
        if yes then Inr (p, argv, rs)
        else case gettoken b p of (t, q, eq, p) \<Rightarrow>
          if t = 0 then Inr (p, argv, rs)
          else if t \<noteq> 97 then Inl (Panic ''syntax'')
          else let argv = argv @ [(q, eq)]
               in if MAXARGS \<le> length argv then Inl (Panic ''too many args'')
                  else kbind (parseredirs b p rs) (\<lambda>(p, rs). exec_loop b p argv rs))"
  by pat_completeness auto
termination
  by (relation "measure (\<lambda>(b, p, argv, rs). MAXARGS - length argv)") auto

declare exec_loop.simps [simp del]

function back_loop :: "byte list \<Rightarrow> nat \<Rightarrow> tok cmd \<Rightarrow> nat \<times> tok cmd" where
  "back_loop b p c =
     (case peek b p [38] of (p, yes) \<Rightarrow>
        if yes then case gettoken b p of (_, _, _, p) \<Rightarrow> back_loop b p (BACK c) else (p, c))"
  by pat_completeness auto
termination
  by (relation "measure (\<lambda>(b, p, c). length b - p)")
    (auto dest: peek_token_less [OF sym sym] simp del: diff_is_0_eq' diff_is_0_eq)

declare back_loop.simps [simp del]

text \<open>
  The four mutually recursive functions; \<open>n\<close> bounds the depth of the recursion, and running out of
  it is \<open>Diverges\<close>.
\<close>

fun parseline :: "nat \<Rightarrow> byte list \<Rightarrow> nat \<Rightarrow> (nat \<times> tok cmd) kres"
  and parsepipe :: "nat \<Rightarrow> byte list \<Rightarrow> nat \<Rightarrow> (nat \<times> tok cmd) kres"
  and parseexec :: "nat \<Rightarrow> byte list \<Rightarrow> nat \<Rightarrow> (nat \<times> tok cmd) kres"
  and parseblock :: "nat \<Rightarrow> byte list \<Rightarrow> nat \<Rightarrow> (nat \<times> tok cmd) kres" where
  "parseline 0 b p = Inl Diverges"
| "parseline (Suc n) b p =
     kbind (parsepipe n b p) (\<lambda>(p, c).
       case back_loop b p c of (p, c) \<Rightarrow>
       case peek b p [59] of (p, yes) \<Rightarrow>
         if yes then case gettoken b p of (_, _, _, p) \<Rightarrow>
           kbind (parseline n b p) (\<lambda>(p, d). Inr (p, LIST c d))
         else Inr (p, c))"
| "parsepipe 0 b p = Inl Diverges"
| "parsepipe (Suc n) b p =
     kbind (parseexec n b p) (\<lambda>(p, c).
       case peek b p [124] of (p, yes) \<Rightarrow>
         if yes then case gettoken b p of (_, _, _, p) \<Rightarrow>
           kbind (parsepipe n b p) (\<lambda>(p, d). Inr (p, PIPE c d))
         else Inr (p, c))"
| "parseexec 0 b p = Inl Diverges"
| "parseexec (Suc n) b p =
     (case peek b p [40] of (p, yes) \<Rightarrow>
        if yes then parseblock n b p
        else kbind (parseredirs b p []) (\<lambda>(p, rs).
             kbind (exec_loop b p [] rs) (\<lambda>(p, argv, rs). Inr (p, redircmd (EXEC argv) rs))))"
| "parseblock 0 b p = Inl Diverges"
| "parseblock (Suc n) b p =
     (case peek b p [40] of (p, yes) \<Rightarrow>
        if \<not> yes then Inl (Panic ''parseblock'')
        else case gettoken b p of (_, _, _, p) \<Rightarrow>
          kbind (parseline n b p) (\<lambda>(p, c).
            case peek b p [41] of (p, yes) \<Rightarrow>
              if \<not> yes then Inl (Panic ''syntax - missing )'')
              else case gettoken b p of (_, _, _, p) \<Rightarrow>
                kbind (parseredirs b p []) (\<lambda>(p, rs). Inr (p, redircmd c rs))))"

text \<open>\<^verbatim>\<open>nulterminate\<close> writes into the line, here with its final NUL.\<close>

primrec nulterminate :: "tok cmd \<Rightarrow> byte list \<Rightarrow> byte list" where
  "nulterminate (EXEC argv) b = foldl (\<lambda>b (q, eq). b[eq := 0]) b argv"
| "nulterminate (REDIR c f mode fd) b = (nulterminate c b)[snd f := 0]"
| "nulterminate (PIPE c d) b = nulterminate d (nulterminate c b)"
| "nulterminate (LIST c d) b = nulterminate d (nulterminate c b)"
| "nulterminate (BACK c) b = nulterminate c b"

definition parsecmd :: "byte list \<Rightarrow> (tok cmd \<times> byte list) kres" where
  "parsecmd s =
     kbind (parseline (4 * length s + 4) s 0) (\<lambda>(p, c).
       case peek s p [] of (p, _) \<Rightarrow>
         if p \<noteq> length s then Inl (Panic ''syntax'') else Inr (c, nulterminate c (s @ [0])))"

section \<open>The main loop\<close>

text \<open>\<^verbatim>\<open>getcmd\<close>: the line as a C string, or \<open>None\<close> for -1. A NUL that is read ends the string.\<close>

definition getcmd :: "byte option list \<Rightarrow> (byte list option \<times> byte option list) kres" where
  "getcmd inp =
     kbind (gets 100 inp) (\<lambda>(buf, inp).
       let s = takeWhile (\<lambda>c. c \<noteq> 0) buf in Inr (if s = [] then None else Some s, inp))"

text \<open>What the loop of \<^verbatim>\<open>main\<close> does with each line, until it ends or waits for input.\<close>

datatype action = Chdir "byte list" | Run "(tok cmd \<times> byte list) kres"

lemma gets_loop_shorter:
  "gets_loop buf mx inp = Inr (buf', inp') \<Longrightarrow> length inp' \<le> length inp \<and> (int (length buf) + 1 < mx \<longrightarrow> length inp' < length inp)"
  by (induction inp arbitrary: buf) (fastforce split: if_splits option.splits)+

lemma getcmd_shorter: "getcmd inp = Inr (r, inp') \<Longrightarrow> length inp' < length inp"
  using gets_loop_shorter by (fastforce simp: getcmd_def gets_def kbind_eq_Inr Let_def)

function sh_main :: "byte option list \<Rightarrow> action list" where
  "sh_main inp =
     (case getcmd inp of
        Inr (Some buf, inp) \<Rightarrow>
          (if take 3 buf = [99, 100, 32] then Chdir (drop 3 (butlast buf)) else Run (parsecmd buf)) # sh_main inp
      | _ \<Rightarrow> [])"
  by pat_completeness auto
termination by (relation "measure length") (auto dest: getcmd_shorter [OF sym] getcmd_shorter)

declare sh_main.simps [simp del]

text \<open>\<^verbatim>\<open>main\<close> cuts the last character off a \<^verbatim>\<open>cd\<close> line even if the input ended without a newline.\<close>

lemma cd_at_end: "sh_main (map Some (ascii ''cd abc'') @ [None, None]) = [Chdir (ascii ''ab'')]"
  by (simp add: ascii_def sh_main.simps getcmd_def gets_def)

section \<open>The parser returns\<close>

text \<open>A token: word characters, up to a character that is none.\<close>

definition wordchar :: "byte \<Rightarrow> bool" where
  "wordchar c \<longleftrightarrow> c \<notin> set whitespace \<and> c \<notin> set symbols"

definition tok_ok :: "byte list \<Rightarrow> tok \<Rightarrow> bool" where
  "tok_ok b t \<longleftrightarrow> fst t < snd t \<and> snd t \<le> length b \<and> (\<forall>i. fst t \<le> i \<and> i < snd t \<longrightarrow> wordchar (b ! i)) \<and>
     (snd t = length b \<or> \<not> wordchar (b ! snd t))"

lemma skip_word_chars:
  "s \<le> length b \<Longrightarrow> (\<forall>i. s \<le> i \<and> i < skip_word b s \<longrightarrow> wordchar (b ! i)) \<and>
   (skip_word b s = length b \<or> \<not> wordchar (b ! skip_word b s))"
proof (induction b s rule: skip_word.induct)
  case (1 b s)
  show ?case
  proof (cases "s < length b \<and> wordchar (b ! s)")
    case True
    then have "skip_word b s = skip_word b (s + 1)" by (subst skip_word.simps) (simp add: char_at_def wordchar_def)
    moreover have "s < length b \<and> char_at b s \<notin> set whitespace \<and> char_at b s \<notin> set symbols"
      using True by (simp add: char_at_def wordchar_def)
    note IH = "1.IH" [OF this]
    have "wordchar (b ! i)" if "s \<le> i" "i < skip_word b (s + 1)" for i
      using that IH True by (cases "i = s") simp_all
    ultimately show ?thesis using IH True by simp
  next
    case False
    then have "skip_word b s = s" by (subst skip_word.simps) (auto simp: char_at_def wordchar_def)
    with False "1.prems" show ?thesis by auto
  qed
qed

lemma gettoken_word:
  assumes "gettoken b p = (97, q, eq, p')"
  shows "tok_ok b (q, eq)"
proof -
  have e: "eq = skip_word b q" "char_at b q \<noteq> 0" using assms by (auto simp: gettoken_def Let_def split: if_splits)
  then have q: "q < length b" by (auto simp: char_at_def split: if_splits)
  have "char_at b q \<notin> set whitespace" "char_at b q \<notin> set symbols"
    using assms skip_white_stop [of b p] skip_white_le [of p b] e(2) q
    by (auto simp: gettoken_def Let_def symbols_def split: if_splits)
  then have "q < eq" using e skip_word_progress by simp
  then show ?thesis
    using e q skip_word_chars [of q b] gettoken_bound(2) [OF assms] by (simp add: tok_ok_def)
qed

lemma peek_bound: "peek b p toks = (p', yes) \<Longrightarrow> p \<le> length b \<Longrightarrow> p' \<le> length b"
  using skip_white_bound [of p b] by (auto simp: peek_def Let_def)

lemma gettoken_bound0: "gettoken b p = (tok, q, eq, p') \<Longrightarrow> p \<le> length b \<Longrightarrow> p' \<le> length b"
  using gettoken_bound(3) [of b p tok q eq p'] skip_white_bound [of p b]
  by (cases "tok = 0") (auto simp: gettoken_def Let_def split: if_splits)

lemma parseredirs_stop: "peek b p [60, 62] = (p', False) \<Longrightarrow> parseredirs b p rs = Inr (p', rs)"
  by (simp add: parseredirs.simps)

lemma parseredirs_step:
  "peek b p [60, 62] = (p1, True) \<Longrightarrow> gettoken b p1 = (t, v, w, p2) \<Longrightarrow> gettoken b p2 = (u, q, eq, p3) \<Longrightarrow>
   parseredirs b p rs = (if u \<noteq> 97 then Inl (Panic ''missing file for redirection'')
     else parseredirs b p3 (rs @ [((q, eq), redir_mode t)]))"
  by (subst parseredirs.simps) simp

lemma parseredirs_ends:
  "p \<le> length b \<Longrightarrow> \<forall>r\<in>set rs. tok_ok b (fst r) \<Longrightarrow>
   case parseredirs b p rs of Inl e \<Rightarrow> (\<exists>m. e = Panic m)
   | Inr (p', rs') \<Rightarrow> p \<le> p' \<and> p' \<le> length b \<and> (\<forall>r\<in>set rs'. tok_ok b (fst r))"
proof (induction "length b - p" arbitrary: p rs rule: less_induct)
  case less
  obtain p1 yes where pk: "peek b p [60, 62] = (p1, yes)" by (cases "peek b p [60, 62]")
  show ?case
  proof (cases yes)
    case False
    with less.prems pk peek_le [OF pk] peek_bound [OF pk] show ?thesis by (simp add: parseredirs_stop)
  next
    case True
    then have pk': "peek b p [60, 62] = (p1, True)" using pk by simp
    obtain t v w p2 where g: "gettoken b p1 = (t, v, w, p2)" by (metis prod_cases4)
    obtain u q eq p3 where g': "gettoken b p2 = (u, q, eq, p3)" by (metis prod_cases4)
    note st = parseredirs_step [OF pk' g g'] and pt = peek_token [OF pk' g] and gl = gettoken_le [OF g']
    show ?thesis
    proof (cases "u = 97")
      case True
      then have "tok_ok b (q, eq)" "p3 \<le> length b" using g' gettoken_word gettoken_bound(3) [OF g'] by auto
      with less.hyps [of p3 "rs @ [((q, eq), redir_mode t)]"] less.prems pt gl True show ?thesis
        by (fastforce simp: st split: sum.splits)
    qed (simp add: st)
  qed
qed

lemma exec_loop_ends:
  "p \<le> length b \<Longrightarrow> \<forall>t\<in>set argv. tok_ok b t \<Longrightarrow> \<forall>r\<in>set rs. tok_ok b (fst r) \<Longrightarrow>
   case exec_loop b p argv rs of Inl e \<Rightarrow> (\<exists>m. e = Panic m)
   | Inr (p', argv', rs') \<Rightarrow> p \<le> p' \<and> p' \<le> length b \<and> (\<forall>t\<in>set argv'. tok_ok b t) \<and> (\<forall>r\<in>set rs'. tok_ok b (fst r))"
proof (induction "MAXARGS - length argv" arbitrary: p argv rs rule: less_induct)
  case less
  obtain p1 yes where pk: "peek b p [124, 41, 38, 59] = (p1, yes)" by (cases "peek b p [124, 41, 38, 59]")
  obtain t q eq p2 where g: "gettoken b p1 = (t, q, eq, p2)" by (metis prod_cases4)
  have st: "exec_loop b p argv rs =
      (if yes then Inr (p1, argv, rs) else if t = 0 then Inr (p2, argv, rs) else if t \<noteq> 97 then Inl (Panic ''syntax'')
       else if MAXARGS \<le> length argv + 1 then Inl (Panic ''too many args'')
       else kbind (parseredirs b p2 rs) (\<lambda>(p, rs). exec_loop b p (argv @ [(q, eq)]) rs))"
    using pk g by (subst exec_loop.simps) (simp add: Let_def)
  have p: "p \<le> p1" "p1 \<le> p2" "p1 \<le> length b" "p2 \<le> length b"
    using peek_le [OF pk] gettoken_le [OF g] peek_bound [OF pk less.prems(1)] gettoken_bound0 [OF g] by auto
  show ?case
  proof (cases "\<not> yes \<and> t = 97 \<and> \<not> MAXARGS \<le> length argv + 1")
    case True
    then have tk: "tok_ok b (q, eq)" using g gettoken_word by blast
    note pe = parseredirs_ends [OF p(4) less.prems(3)]
    show ?thesis
    proof (cases "parseredirs b p2 rs")
      case (Inr a)
      then obtain p3 rs' where a: "parseredirs b p2 rs = Inr (p3, rs')" by (cases a) auto
      have "case exec_loop b p3 (argv @ [(q, eq)]) rs' of Inl e \<Rightarrow> (\<exists>m. e = Panic m)
        | Inr (p', argv', rs'') \<Rightarrow> p3 \<le> p' \<and> p' \<le> length b \<and> (\<forall>t\<in>set argv'. tok_ok b t) \<and> (\<forall>r\<in>set rs''. tok_ok b (fst r))"
        by (rule less.hyps) (use True tk pe a less.prems in auto)
      with True a st p pe show ?thesis by (fastforce split: sum.splits)
    qed (use True st pe in auto)
  qed (use st p less.prems in auto)
qed

lemma back_loop_ends:
  "p \<le> length b \<Longrightarrow> back_loop b p c = (p', c') \<Longrightarrow> p \<le> p' \<and> p' \<le> length b \<and> set_cmd c' = set_cmd c"
proof (induction "length b - p" arbitrary: p c rule: less_induct)
  case less
  obtain p1 yes where pk: "peek b p [38] = (p1, yes)" by (cases "peek b p [38]")
  obtain t q eq p2 where g: "gettoken b p1 = (t, q, eq, p2)" by (metis prod_cases4)
  have st: "back_loop b p c = (if yes then back_loop b p2 (BACK c) else (p1, c))"
    using pk g by (subst back_loop.simps) simp
  show ?case
  proof (cases yes)
    case True
    then have pk': "peek b p [38] = (p1, True)" using pk by simp
    note pt = peek_token [OF pk' g]
    have "back_loop b p2 (BACK c) = (p', c')" using st less.prems(2) True by simp
    then have "p2 \<le> p' \<and> p' \<le> length b \<and> set_cmd c' = set_cmd (BACK c)"
      by (intro less.hyps) (use pt in linarith)+
    with pt show ?thesis by simp
  next
    case False
    with st less.prems peek_le [OF pk] peek_bound [OF pk] show ?thesis by simp
  qed
qed

definition parsed :: "byte list \<Rightarrow> nat \<Rightarrow> bool \<Rightarrow> (nat \<times> tok cmd) kres \<Rightarrow> bool" where
  "parsed b p enough r \<longleftrightarrow>
     (case r of Inl e \<Rightarrow> enough \<longrightarrow> (\<exists>m. e = Panic m)
      | Inr (p', c) \<Rightarrow> p \<le> p' \<and> p' \<le> length b \<and> (\<forall>t\<in>set_cmd c. tok_ok b t))"

lemma parsedI:
  assumes "\<And>e. r = Inl e \<Longrightarrow> enough \<Longrightarrow> (\<exists>m. e = Panic m)"
    and "\<And>p' c. r = Inr (p', c) \<Longrightarrow> p \<le> p' \<and> p' \<le> length b \<and> (\<forall>t\<in>set_cmd c. tok_ok b t)"
  shows "parsed b p enough r"
  using assms by (auto simp: parsed_def split: sum.splits)

lemma parsedD:
  "parsed b p enough (Inl e) \<Longrightarrow> enough \<Longrightarrow> (\<exists>m. e = Panic m)"
  "parsed b p enough (Inr (p', c)) \<Longrightarrow> p \<le> p' \<and> p' \<le> length b \<and> (\<forall>t\<in>set_cmd c. tok_ok b t)"
  by (auto simp: parsed_def)

lemma parsed_bind:
  assumes "parsed b p e r" and "e' \<longrightarrow> e"
    and "\<And>p' c. p \<le> p' \<Longrightarrow> p' \<le> length b \<Longrightarrow> \<forall>t\<in>set_cmd c. tok_ok b t \<Longrightarrow> parsed b p e' (f (p', c))"
  shows "parsed b p e' (kbind r f)"
  using assms by (cases r) (auto simp: parsed_def)

lemma parsed_later: "parsed b p' e r \<Longrightarrow> p \<le> p' \<Longrightarrow> parsed b p e r"
  by (auto simp: parsed_def split: sum.splits)

lemma redircmd_toks: "(\<forall>t\<in>set_cmd (redircmd c rs). P t) \<longleftrightarrow> (\<forall>t\<in>set_cmd c. P t) \<and> (\<forall>r\<in>set rs. P (fst r))"
  unfolding redircmd_def by (induction rs arbitrary: c) auto

text \<open>One step of each function, given that the calls it makes with less fuel behave.\<close>

definition ends :: "nat \<Rightarrow> (nat \<Rightarrow> byte list \<Rightarrow> nat \<Rightarrow> (nat \<times> tok cmd) kres) \<Rightarrow> nat \<Rightarrow> byte list \<Rightarrow> bool" where
  "ends k f n b \<longleftrightarrow> (\<forall>p\<le>length b. parsed b p (4 * (length b - p) + k \<le> n) (f n b p))"

lemma endsD: "ends k f n b \<Longrightarrow> p \<le> length b \<Longrightarrow> parsed b p (4 * (length b - p) + k \<le> n) (f n b p)"
  by (simp add: ends_def)

lemma ends_after:
  assumes "ends k f n b" and "p < p'" and "p' \<le> length b" and "k \<le> 4"
    and "\<And>d. \<forall>t\<in>set_cmd d. tok_ok b t \<Longrightarrow> \<forall>t\<in>set_cmd (h d). tok_ok b t"
  shows "parsed b p (4 * (length b - p) + k \<le> Suc n) (kbind (f n b p') (\<lambda>(p, d). Inr (p, h d)))"
proof -
  have "parsed b p (4 * (length b - p') + k \<le> n) (f n b p')"
    by (rule parsed_later [OF endsD [OF assms(1,3)]]) (use assms(2) in simp)
  then show ?thesis
  proof (rule parsed_bind)
    show "4 * (length b - p) + k \<le> Suc n \<longrightarrow> 4 * (length b - p') + k \<le> n" using assms(2,3) by linarith
  qed (use assms(5) in \<open>simp add: parsed_def\<close>)
qed

lemma parseline_ends:
  assumes "ends 3 parsepipe n b" and "ends 4 parseline n b"
  shows "ends 4 parseline (Suc n) b"
proof -
  have "parsed b p (4 * (length b - p) + 4 \<le> Suc n) (case back_loop b p' c of (p, c) \<Rightarrow>
       case peek b p [59] of (p, yes) \<Rightarrow>
         if yes then case gettoken b p of (_, _, _, p) \<Rightarrow>
           kbind (parseline n b p) (\<lambda>(p, d). Inr (p, LIST c d)) else Inr (p, c))"
    if h: "p \<le> p'" "p' \<le> length b" "\<forall>t\<in>set_cmd c. tok_ok b t" for p p' c
  proof -
    obtain p1 c1 where bl: "back_loop b p' c = (p1, c1)" by (cases "back_loop b p' c")
    obtain p2 yes where pk: "peek b p1 [59] = (p2, yes)" by (cases "peek b p1 [59]")
    obtain t q eq p3 where g: "gettoken b p2 = (t, q, eq, p3)" by (metis prod_cases4)
    note b = back_loop_ends [OF h(2) bl] peek_le [OF pk] peek_bound [OF pk]
    show ?thesis
    proof (cases yes)
      case True
      then have pk': "peek b p1 [59] = (p2, True)" using pk by simp
      note pt = peek_token [OF pk' g]
      have "parsed b p (4 * (length b - p) + 4 \<le> Suc n) (kbind (parseline n b p3) (\<lambda>(p, d). Inr (p, LIST c1 d)))"
        by (rule ends_after [OF assms(2)]) (use pt b h in auto)
      then show ?thesis using bl pk g True by simp
    qed (use bl pk b h in \<open>simp add: parsed_def\<close>)
  qed
  then show ?thesis
    unfolding ends_def parseline.simps by (intro allI impI parsed_bind [OF endsD [OF assms(1)]]) auto
qed

lemma parsepipe_ends:
  assumes "ends 2 parseexec n b" and "ends 3 parsepipe n b"
  shows "ends 3 parsepipe (Suc n) b"
proof -
  have "parsed b p (4 * (length b - p) + 3 \<le> Suc n) (case peek b p' [124] of (p, yes) \<Rightarrow>
         if yes then case gettoken b p of (_, _, _, p) \<Rightarrow>
           kbind (parsepipe n b p) (\<lambda>(p, d). Inr (p, PIPE c d)) else Inr (p, c))"
    if h: "p \<le> p'" "p' \<le> length b" "\<forall>t\<in>set_cmd c. tok_ok b t" for p p' c
  proof -
    obtain p2 yes where pk: "peek b p' [124] = (p2, yes)" by (cases "peek b p' [124]")
    obtain t q eq p3 where g: "gettoken b p2 = (t, q, eq, p3)" by (metis prod_cases4)
    show ?thesis
    proof (cases yes)
      case True
      then have pk': "peek b p' [124] = (p2, True)" using pk by simp
      note pt = peek_token [OF pk' g]
      have "parsed b p (4 * (length b - p) + 3 \<le> Suc n) (kbind (parsepipe n b p3) (\<lambda>(p, d). Inr (p, PIPE c d)))"
        by (rule ends_after [OF assms(2)]) (use pt h in auto)
      then show ?thesis using pk g True by simp
    qed (use pk peek_le [OF pk] peek_bound [OF pk] h in \<open>simp add: parsed_def\<close>)
  qed
  then show ?thesis
    unfolding ends_def parsepipe.simps by (intro allI impI parsed_bind [OF endsD [OF assms(1)]]) auto
qed

lemma parseexec_ends:
  assumes "ends 1 parseblock n b"
  shows "ends 2 parseexec (Suc n) b"
  unfolding ends_def
proof (intro allI impI)
  fix p assume p: "p \<le> length b"
  obtain p1 yes where pk: "peek b p [40] = (p1, yes)" by (cases "peek b p [40]")
  note b = peek_le [OF pk] peek_bound [OF pk p]
  show "parsed b p (4 * (length b - p) + 2 \<le> Suc n) (parseexec (Suc n) b p)"
  proof (cases yes)
    case True
    have "parsed b p (4 * (length b - p1) + 1 \<le> n) (parseblock n b p1)"
      by (rule parsed_later [OF endsD [OF assms b(2)]]) (rule b(1))
    moreover have "4 * (length b - p) + 2 \<le> Suc n \<Longrightarrow> 4 * (length b - p1) + 1 \<le> n" using b by linarith
    ultimately show ?thesis using pk True by (auto simp: parsed_def split: sum.splits)
  next
    case False
    note r = parseredirs_ends [OF b(2), of "[]", simplified]
    show ?thesis
    proof (cases "parseredirs b p1 []")
      case (Inr x)
      then obtain p2 rs where x: "parseredirs b p1 [] = Inr (p2, rs)" by (cases x) auto
      with r have p2: "p1 \<le> p2" "p2 \<le> length b" "\<forall>t\<in>set rs. tok_ok b (fst t)" by auto
      show ?thesis
        using pk False x b p2 exec_loop_ends [OF p2(2) _ p2(3), of "[]"]
        by (cases "exec_loop b p2 [] rs") (auto simp: parsed_def redircmd_toks)
    qed (use pk False r in \<open>auto simp: parsed_def\<close>)
  qed
qed

lemma parseblock_ends:
  assumes "ends 4 parseline n b"
  shows "ends 1 parseblock (Suc n) b"
  unfolding ends_def
proof (intro allI impI)
  fix p assume p: "p \<le> length b"
  obtain p1 yes where pk: "peek b p [40] = (p1, yes)" by (cases "peek b p [40]")
  obtain t q eq p2 where g: "gettoken b p1 = (t, q, eq, p2)" by (metis prod_cases4)
  show "parsed b p (4 * (length b - p) + 1 \<le> Suc n) (parseblock (Suc n) b p)"
  proof (cases yes)
    case True
    then have pk': "peek b p [40] = (p1, True)" using pk by simp
    note pt = peek_token [OF pk' g]
    let ?f = "\<lambda>(p, c). case peek b p [41] of (p, yes) \<Rightarrow>
      if \<not> yes then Inl (Panic ''syntax - missing )'')
      else case gettoken b p of (_, _, _, p) \<Rightarrow> kbind (parseredirs b p []) (\<lambda>(p, rs). Inr (p, redircmd c rs))"
    have "parsed b p (4 * (length b - p2) + 4 \<le> n) (parseline n b p2)"
      by (rule parsed_later [OF endsD [OF assms pt(4)]]) (use pt in simp)
    then have "parsed b p (4 * (length b - p) + 1 \<le> Suc n) (kbind (parseline n b p2) ?f)"
    proof (rule parsed_bind)
      fix p' c assume h: "p \<le> p'" "p' \<le> length b" "\<forall>t\<in>set_cmd c. tok_ok b t"
      obtain p3 y where pk3: "peek b p' [41] = (p3, y)" by (cases "peek b p' [41]")
      obtain t q eq p4 where g3: "gettoken b p3 = (t, q, eq, p4)" by (metis prod_cases4)
      have "p3 \<le> length b" "p' \<le> p3" using peek_le [OF pk3] peek_bound [OF pk3 h(2)] by simp_all
      then have p4: "p4 \<le> length b" "p \<le> p4" using gettoken_bound0 [OF g3] gettoken_le [OF g3] h by simp_all
      show "parsed b p (4 * (length b - p) + 1 \<le> Suc n) (?f (p', c))"
        using pk3 g3 h p4 parseredirs_ends [OF p4(1), of "[]"]
        by (cases y; cases "parseredirs b p4 []") (auto simp: parsed_def redircmd_toks)
    qed (use pt in linarith)
    then show ?thesis using pk g True by simp
  qed (use pk in \<open>simp add: parsed_def\<close>)
qed

lemma parse_ends: "ends 4 parseline n b \<and> ends 3 parsepipe n b \<and> ends 2 parseexec n b \<and> ends 1 parseblock n b"
proof (induction n)
  case 0
  then show ?case by (simp add: ends_def parsed_def)
next
  case (Suc n)
  then show ?case using parseline_ends parsepipe_ends parseexec_ends parseblock_ends by blast
qed

section \<open>Cutting the strings\<close>

definition str_at :: "byte list \<Rightarrow> nat \<Rightarrow> byte list" where
  "str_at buf q = takeWhile (\<lambda>c. c \<noteq> 0) (drop q buf)"

lemma nth_update_in: "j < length xs \<Longrightarrow> xs[i := x] ! j = (if i = j then x else xs ! j)"
  by simp

lemma nul_args:
  "length (foldl (\<lambda>b (q, eq). b[eq := 0]) b argv) = length b \<and>
   (\<forall>i<length b. foldl (\<lambda>b (q, eq). b[eq := 0]) b argv ! i = (if i \<in> snd ` set argv then 0 else b ! i))"
  by (induction argv arbitrary: b) (simp_all add: nth_list_update case_prod_beta)

lemma nulterminate_length [simp]: "length (nulterminate c b) = length b"
  by (induction c arbitrary: b) (simp_all add: nul_args)

lemma nulterminate_nth:
  "length (nulterminate c b) = length b \<and>
   (\<forall>i<length b. nulterminate c b ! i = (if i \<in> snd ` set_cmd c then 0 else b ! i))"
  by (induction c arbitrary: b) (simp_all add: nth_update_in nul_args image_Un)

lemma str_at_token:
  assumes "length buf = Suc (length s)" and "tok_ok s (q, eq)" and "buf ! eq = 0"
    and "\<forall>i. q \<le> i \<and> i < eq \<longrightarrow> buf ! i = s ! i" and "0 \<notin> set s"
  shows "str_at buf q = take (eq - q) (drop q s)"
proof -
  have q: "q < eq" "eq \<le> length s" using assms(2) by (auto simp: tok_ok_def)
  have t: "take (eq - q) (drop q buf) = take (eq - q) (drop q s)"
    using assms(1,4) q by (intro nth_equalityI) simp_all
  have "drop q buf = take (eq - q) (drop q buf) @ drop eq buf"
    using append_take_drop_id [of "eq - q" "drop q buf"] q by simp
  also have "drop eq buf = 0 # drop (Suc eq) buf"
    using Cons_nth_drop_Suc [of eq buf] assms(1,3) q by simp
  finally have "drop q buf = take (eq - q) (drop q s) @ 0 # drop (Suc eq) buf" unfolding t .
  moreover have "0 \<notin> set (take (eq - q) (drop q s))" using assms(5) by (meson in_set_dropD in_set_takeD)
  then have "takeWhile (\<lambda>c. c \<noteq> 0) (take (eq - q) (drop q s) @ 0 # xs) = take (eq - q) (drop q s)" for xs
    by (subst takeWhile_append2) auto
  ultimately show ?thesis unfolding str_at_def by simp
qed

lemma nulterminate_strings:
  assumes "\<forall>t\<in>set_cmd c. tok_ok s t" and "t \<in> set_cmd c" and "0 \<notin> set s"
  shows "str_at (nulterminate c (s @ [0])) (fst t) = take (snd t - fst t) (drop (fst t) s)"
proof (rule str_at_token)
  let ?b = "nulterminate c (s @ [0])"
  have t: "tok_ok s t" using assms(1,2) by blast
  then show "tok_ok s (fst t, snd t)" by simp
  note n = nulterminate_nth [of c "s @ [0]"]
  then show "length ?b = Suc (length s)" by simp
  show "?b ! snd t = 0" using n t assms(2) by (simp add: tok_ok_def)
  show "\<forall>i. fst t \<le> i \<and> i < snd t \<longrightarrow> ?b ! i = s ! i"
  proof (intro allI impI)
    fix i assume i: "fst t \<le> i \<and> i < snd t"
    then have l: "i < length s" "wordchar (s ! i)" using t by (auto simp: tok_ok_def)
    then have "i \<noteq> snd u" if "u \<in> set_cmd c" for u using that assms(1) by (auto simp: tok_ok_def)
    then have "i \<notin> snd ` set_cmd c" by blast
    with n l show "?b ! i = s ! i" by (simp add: nth_append)
  qed
qed (rule assms(3))

text \<open>
  C40. The shell's parser returns on every line: it ends with a syntax tree or with one of its own
  error messages (the recursion depth \<open>4 * length s + 4\<close> is never reached), and the strings that
  \<^verbatim>\<open>nulterminate\<close> cuts out of the line are exactly the tokens, unshortened by the cutting of others.
\<close>

theorem parsecmd_returns:
  assumes "0 \<notin> set s"
  shows "(\<exists>m. parsecmd s = Inl (Panic m)) \<or>
    (\<exists>c buf. parsecmd s = Inr (c, buf) \<and> length buf = Suc (length s) \<and>
       (\<forall>t\<in>set_cmd c. fst t < snd t \<and> snd t \<le> length s \<and> str_at buf (fst t) = take (snd t - fst t) (drop (fst t) s)))"
proof -
  have e: "parsed s 0 True (parseline (4 * length s + 4) s 0)"
    using parse_ends [of "4 * length s + 4" s] by (auto dest: endsD [of _ _ _ _ 0])
  show ?thesis
  proof (cases "parseline (4 * length s + 4) s 0")
    case (Inl x)
    with e show ?thesis by (auto simp: parsecmd_def parsed_def)
  next
    case (Inr x)
    then obtain p c where x: "parseline (4 * length s + 4) s 0 = Inr (p, c)" by (cases x) auto
    with e have t: "\<forall>t\<in>set_cmd c. tok_ok s t" by (simp add: parsed_def)
    have "fst t < snd t \<and> snd t \<le> length s \<and>
      str_at (nulterminate c (s @ [0])) (fst t) = take (snd t - fst t) (drop (fst t) s)" if "t \<in> set_cmd c" for t
      using nulterminate_strings [OF t that assms] t that by (auto simp: tok_ok_def)
    then show ?thesis using x nulterminate_nth [of c "s @ [0]"] by (auto simp: parsecmd_def split: prod.splits)
  qed
qed

theorem parsecmd_returns_witness:
  "\<exists>buf. parsecmd (ascii ''cat<f'') = Inr (REDIR (EXEC [(0, 3)]) (4, 5) 0 0, buf) \<and> str_at buf 0 = ascii ''cat''"
proof -
  let ?c = "REDIR (EXEC [(0, 3)]) (4, 5) 0 0"
  have p: "parsecmd (ascii ''cat<f'') = Inr (?c, nulterminate ?c (ascii ''cat<f'' @ [0]))" by code_simp
  have "0 \<notin> set (ascii ''cat<f'')" by (simp add: ascii_def)
  from parsecmd_returns [OF this] p have "str_at (nulterminate ?c (ascii ''cat<f'' @ [0])) 0 = take 3 (ascii ''cat<f'')" by simp
  with p show ?thesis by (simp add: ascii_def)
qed

end
