(* ===== verification/Xv6_Shell.thy ===== *)
theory Xv6_Shell
  imports Xv6_Sh
begin

text \<open>
  The grammar of the shell. \<open>show_cmd\<close> prints a command with the parentheses that the precedences of
  \<^verbatim>\<open>user/sh.c\<close> make necessary, and no others; the parser is shown to read every printed command back.
  The second part runs commands: \<^verbatim>\<open>runcmd\<close> as the tree of its system calls, and the descriptors each
  program starts with.
\<close>

section \<open>Printing\<close>

definition word_ok :: "byte list \<Rightarrow> bool" where
  "word_ok w \<longleftrightarrow> w \<noteq> [] \<and> (\<forall>c\<in>set w. wordchar c \<and> c \<noteq> 0)"

primrec cmd_ok :: "byte list cmd \<Rightarrow> bool" where
  "cmd_ok (EXEC ws) \<longleftrightarrow> length ws < MAXARGS \<and> (\<forall>w\<in>set ws. word_ok w)"
| "cmd_ok (REDIR c f mode fd) \<longleftrightarrow> cmd_ok c \<and> word_ok f \<and> (mode, fd) \<in> redir_mode ` {60, 62, 43}"
| "cmd_ok (PIPE c d) \<longleftrightarrow> cmd_ok c \<and> cmd_ok d"
| "cmd_ok (LIST c d) \<longleftrightarrow> cmd_ok c \<and> cmd_ok d"
| "cmd_ok (BACK c) \<longleftrightarrow> cmd_ok c"

definition show_op :: "u32 \<times> nat \<Rightarrow> byte list" where
  "show_op m = (if m = redir_mode 60 then [60] else if m = redir_mode 62 then [62] else [62, 62])"

definition paren :: "bool \<Rightarrow> byte list \<Rightarrow> byte list" where
  "paren needed s = (if needed then 40 # s @ [41] else s)"

text \<open>Levels: 0 a line, 1 an operand of \<^verbatim>\<open>&\<close> and the left one of \<^verbatim>\<open>;\<close>, 2 a pipeline, 3 a simple command.\<close>

primrec show_cmd :: "byte list cmd \<Rightarrow> nat \<Rightarrow> byte list" where
  "show_cmd (EXEC ws) l = concat (map (\<lambda>w. w @ [32]) ws)"
| "show_cmd (REDIR c f mode fd) l = show_cmd c 3 @ show_op (mode, fd) @ f @ [32]"
| "show_cmd (PIPE c d) l = paren (2 < l) (show_cmd c 3 @ [124] @ show_cmd d 2)"
| "show_cmd (LIST c d) l = paren (0 < l) (show_cmd c 1 @ [59] @ show_cmd d 0)"
| "show_cmd (BACK c) l = paren (1 < l) (show_cmd c 1 @ [38])"

section \<open>Reading tokens\<close>

text \<open>The rest of the line at a position.\<close>

definition rest_at :: "byte list \<Rightarrow> nat \<Rightarrow> byte list \<Rightarrow> bool" where
  "rest_at b p xs \<longleftrightarrow> p \<le> length b \<and> drop p b = xs"

definition nonwhite :: "byte list \<Rightarrow> bool" where
  "nonwhite xs \<longleftrightarrow> xs = [] \<or> hd xs \<notin> set whitespace"

lemma rest_at_append: "rest_at b p (xs @ ys) \<Longrightarrow> rest_at b (p + length xs) ys"
  unfolding rest_at_def
  by (metis add.commute append_eq_conv_conj drop_drop le_add_diff_inverse length_append length_drop le_add1 add_le_cancel_left)

lemma rest_at_Cons: "rest_at b p (c # ys) \<Longrightarrow> rest_at b (p + 1) ys"
  using rest_at_append [of b p "[c]" ys] by simp

lemma rest_at_char: "rest_at b p xs \<Longrightarrow> char_at b p = (if xs = [] then 0 else hd xs)"
  by (auto simp: rest_at_def char_at_def hd_drop_conv_nth)

lemma rest_at_length: "rest_at b p xs \<Longrightarrow> length b = p + length xs"
  by (auto simp: rest_at_def)

lemma rest_at_take: "rest_at b p (xs @ ys) \<Longrightarrow> take (length xs) (drop p b) = xs"
  by (simp add: rest_at_def)

lemma skip_white_none: "rest_at b p xs \<Longrightarrow> nonwhite xs \<Longrightarrow> skip_white b p = p"
  using rest_at_char [of b p xs] rest_at_length [of b p xs]
  by (subst skip_white.simps) (auto simp: nonwhite_def)

lemma skip_white_space: "rest_at b p (32 # xs) \<Longrightarrow> nonwhite xs \<Longrightarrow> skip_white b p = p + 1"
  using rest_at_char [of b p "32 # xs"] rest_at_length [of b p "32 # xs"] skip_white_none [OF rest_at_Cons]
  by (subst skip_white.simps) (auto simp: whitespace_def)

lemma skip_word_rest: "rest_at b p (w @ 32 # xs) \<Longrightarrow> \<forall>c\<in>set w. wordchar c \<Longrightarrow> skip_word b p = p + length w"
proof (induction w arbitrary: p)
  case Nil
  then show ?case using rest_at_char [of b p "32 # xs"] by (subst skip_word.simps) (simp add: whitespace_def)
next
  case (Cons c w)
  have "skip_word b (p + 1) = p + 1 + length w" using Cons.prems rest_at_Cons by (intro Cons.IH) auto
  moreover have "skip_word b p = skip_word b (p + 1)"
    using Cons.prems rest_at_char [OF Cons.prems(1)] rest_at_length [OF Cons.prems(1)]
    by (subst skip_word.simps) (simp add: wordchar_def)
  ultimately show ?case by simp
qed

lemma gettoken_word_rest:
  assumes "rest_at b p (w @ 32 # xs)" and "word_ok w" and "nonwhite xs"
  shows "gettoken b p = (97, p, p + length w, p + length w + 1)"
proof -
  obtain c w' where w: "w = c # w'" using assms(2) by (cases w) (auto simp: word_ok_def)
  have c: "char_at b p = c" "c \<noteq> 0" "wordchar c" using rest_at_char [OF assms(1)] assms(2) w by (auto simp: word_ok_def)
  have s: "skip_white b p = p"
    by (rule skip_white_none [OF assms(1)]) (use w c in \<open>simp add: nonwhite_def wordchar_def\<close>)
  have e: "skip_word b p = p + length w" by (rule skip_word_rest [OF assms(1)]) (use assms(2) in \<open>auto simp: word_ok_def\<close>)
  have "skip_white b (p + length w) = p + length w + 1"
    by (rule skip_white_space [OF rest_at_append [OF assms(1)] assms(3)])
  moreover have "c \<notin> {124, 40, 41, 59, 38, 60}" "c \<noteq> 62" using c(3) by (auto simp: wordchar_def symbols_def)
  ultimately show ?thesis using s e c by (simp add: gettoken_def)
qed

lemma gettoken_symbol:
  assumes "rest_at b p (c # xs)" and "c \<in> {124, 40, 41, 59, 38, 60} \<or> c = 62 \<and> (xs = [] \<or> hd xs \<noteq> 62)" and "nonwhite xs"
  shows "gettoken b p = (c, p, p + 1, p + 1)"
proof -
  note r = rest_at_Cons [OF assms(1)]
  have "skip_white b p = p" by (rule skip_white_none [OF assms(1)]) (use assms(2) in \<open>auto simp: nonwhite_def whitespace_def\<close>)
  moreover have "skip_white b (p + 1) = p + 1" by (rule skip_white_none [OF r assms(3)])
  ultimately show ?thesis
    using rest_at_char [OF assms(1)] rest_at_char [OF r] assms(2) by (auto simp: gettoken_def)
qed

lemma gettoken_append:
  assumes "rest_at b p (62 # 62 # xs)" and "nonwhite xs"
  shows "gettoken b p = (43, p, p + 2, p + 2)"
proof -
  note r = rest_at_Cons [OF assms(1)]
  note r2 = rest_at_Cons [OF r]
  have "skip_white b p = p" by (rule skip_white_none [OF assms(1)]) (simp add: nonwhite_def whitespace_def)
  moreover have "skip_white b (p + 2) = p + 2" using skip_white_none [OF r2 assms(2)] by simp
  ultimately show ?thesis using rest_at_char [OF assms(1)] rest_at_char [OF r] by (simp add: gettoken_def)
qed

lemma peek_rest:
  assumes "rest_at b p xs" and "nonwhite xs" and "0 \<notin> set toks"
  shows "peek b p toks = (p, xs \<noteq> [] \<and> hd xs \<in> set toks)"
  using skip_white_none [OF assms(1,2)] rest_at_char [OF assms(1)] assms(3) by (auto simp: peek_def)

section \<open>Redirections\<close>

definition tok_text :: "byte list \<Rightarrow> tok \<Rightarrow> byte list" where
  "tok_text b t = take (snd t - fst t) (drop (fst t) b)"

definition redir_ok :: "byte list \<times> u32 \<times> nat \<Rightarrow> bool" where
  "redir_ok r \<longleftrightarrow> word_ok (fst r) \<and> snd r \<in> redir_mode ` {60, 62, 43}"

definition show_redir :: "byte list \<times> u32 \<times> nat \<Rightarrow> byte list" where
  "show_redir r = show_op (snd r) @ fst r @ [32]"

lemma show_op_mode:
  "show_op (redir_mode 60) = [60]" "show_op (redir_mode 62) = [62]" "show_op (redir_mode 43) = [62, 62]"
  by (simp_all add: show_op_def redir_mode_def O_RDONLY_def O_WRONLY_def O_CREATE_def O_TRUNC_def)

lemma word_first: "word_ok w \<Longrightarrow> w \<noteq> [] \<and> wordchar (hd w)"
  by (cases w) (simp_all add: word_ok_def)

lemma nonwhite_word: "word_ok w \<Longrightarrow> nonwhite (w @ xs)"
  using word_first [of w] by (auto simp: nonwhite_def wordchar_def)

lemma op_token:
  assumes "t \<in> {60, 62, 43}" and "rest_at b p (show_op (redir_mode t) @ f @ xs)" and "word_ok f"
  shows "peek b p [60, 62] = (p, True)" "\<exists>v w. gettoken b p = (t, v, w, p + length (show_op (redir_mode t)))"
proof -
  have f: "nonwhite (f @ xs)" "f @ xs \<noteq> []" "hd (f @ xs) \<noteq> 62"
    using nonwhite_word [OF assms(3)] word_first [OF assms(3)] by (auto simp: wordchar_def symbols_def)
  show "peek b p [60, 62] = (p, True)"
    using assms(1) peek_rest [OF assms(2), of "[60, 62]"] by (auto simp: show_op_mode nonwhite_def whitespace_def)
  show "\<exists>v w. gettoken b p = (t, v, w, p + length (show_op (redir_mode t)))"
    using assms(1,2) f gettoken_append [of b p "f @ xs"] gettoken_symbol [of b p 60 "f @ xs"] gettoken_symbol [of b p 62 "f @ xs"]
    by (auto simp: show_op_mode)
qed

lemma tok_text_rest: "rest_at b p (w @ xs) \<Longrightarrow> tok_text b (p, p + length w) = w"
  using rest_at_take by (simp add: tok_text_def)

definition plain :: "byte list \<Rightarrow> bool" where
  "plain xs \<longleftrightarrow> nonwhite xs \<and> (xs = [] \<or> hd xs \<notin> {60, 62})"

definition redir_text :: "byte list \<Rightarrow> redir \<Rightarrow> byte list \<times> u32 \<times> nat" where
  "redir_text b r = (tok_text b (fst r), snd r)"

lemma nonwhite_redirs:
  assumes "\<forall>r\<in>set rs. redir_ok r" and "nonwhite xs"
  shows "nonwhite (concat (map show_redir rs) @ xs)"
  using assms by (cases rs) (auto simp: nonwhite_def show_redir_def redir_ok_def show_op_mode whitespace_def)

lemma parseredirs_rest:
  "rest_at b p (concat (map show_redir rs) @ xs) \<Longrightarrow> \<forall>r\<in>set rs. redir_ok r \<Longrightarrow> plain xs \<Longrightarrow>
   \<exists>ts. parseredirs b p acc = Inr (p + length (concat (map show_redir rs)), acc @ ts) \<and> map (redir_text b) ts = rs"
proof (induction rs arbitrary: p acc)
  case Nil
  then have "peek b p [60, 62] = (p, False)"
    using peek_rest [of b p xs "[60, 62]"] by (auto simp: plain_def)
  then show ?case by (simp add: parseredirs_stop)
next
  case (Cons r rs)
  obtain f t where r: "r = (f, redir_mode t)" "word_ok f" "t \<in> {60, 62, 43}"
    using Cons.prems(2) by (cases r) (auto simp: redir_ok_def)
  let ?o = "show_op (redir_mode t)" and ?ys = "concat (map show_redir rs) @ xs"
  have ra: "rest_at b p (?o @ f @ 32 # ?ys)" using Cons.prems(1) r(1) by (simp add: show_redir_def [of "(f, redir_mode t)"])
  obtain v w where ot: "peek b p [60, 62] = (p, True)" "gettoken b p = (t, v, w, p + length ?o)"
    using op_token [OF r(3) ra r(2)] by blast
  note ra2 = rest_at_append [OF ra]
  have nw: "nonwhite ?ys" using nonwhite_redirs Cons.prems(2,3) by (auto simp: plain_def)
  note gw = gettoken_word_rest [OF ra2 r(2) nw]
  let ?p2 = "p + length ?o + length f + 1" and ?tk = "(p + length ?o, p + length ?o + length f)"
  have ra3: "rest_at b ?p2 ?ys" using rest_at_Cons [OF rest_at_append [OF ra2]] by simp
  obtain ts where ts: "parseredirs b ?p2 (acc @ [(?tk, redir_mode t)]) =
      Inr (?p2 + length (concat (map show_redir rs)), (acc @ [(?tk, redir_mode t)]) @ ts)" "map (redir_text b) ts = rs"
    using Cons.IH [OF ra3] Cons.prems(2,3) by fastforce
  have "parseredirs b p acc = Inr (p + length (concat (map show_redir (r # rs))), acc @ (?tk, redir_mode t) # ts)"
    using parseredirs_step [OF ot gw, of acc] ts(1) r(1) by (simp add: show_redir_def [of "(f, redir_mode t)"])
  moreover have "map (redir_text b) ((?tk, redir_mode t) # ts) = r # rs"
    using ts(2) r(1) tok_text_rest [OF ra2] by (simp add: redir_text_def)
  ultimately show ?case by (intro exI [of _ "(?tk, redir_mode t) # ts"] conjI)
qed

text \<open>The words of a simple command, with redirections after the last one.\<close>

definition stops :: "byte list \<Rightarrow> bool" where
  "stops xs \<longleftrightarrow> xs = [] \<or> hd xs \<in> {124, 41, 38, 59}"

lemma stops_plain: "stops xs \<Longrightarrow> plain xs"
  by (auto simp: stops_def plain_def nonwhite_def whitespace_def)

lemma exec_loop_stop:
  assumes "rest_at b p xs" and "stops xs"
  shows "exec_loop b p argv rs = Inr (p, argv, rs)"
proof (cases "xs = []")
  case True
  have p: "peek b p [124, 41, 38, 59] = (p, False)" using peek_rest [OF assms(1)] True by (simp add: nonwhite_def)
  have "skip_white b p = p" by (rule skip_white_none [OF assms(1)]) (simp add: True nonwhite_def)
  then have "gettoken b p = (0, p, p, p)" using rest_at_char [OF assms(1)] True by (simp add: gettoken_def)
  with p show ?thesis by (simp add: exec_loop.simps)
next
  case False
  then have "peek b p [124, 41, 38, 59] = (p, True)"
    using peek_rest [OF assms(1), of "[124, 41, 38, 59]"] stops_plain [OF assms(2)] assms(2) by (auto simp: plain_def stops_def)
  then show ?thesis by (simp add: exec_loop.simps)
qed

abbreviation show_words :: "byte list list \<Rightarrow> byte list" where
  "show_words ws \<equiv> concat (map (\<lambda>w. w @ [32]) ws)"

abbreviation show_redirs :: "(byte list \<times> u32 \<times> nat) list \<Rightarrow> byte list" where
  "show_redirs rs \<equiv> concat (map show_redir rs)"

lemma nonwhite_words: "\<forall>w\<in>set ws. word_ok w \<Longrightarrow> nonwhite xs \<Longrightarrow> nonwhite (show_words ws @ xs)"
  by (cases ws) (auto intro: nonwhite_word)

lemma peek_word:
  assumes "rest_at b p (w @ xs)" and "word_ok w" and "set toks \<subseteq> set symbols"
  shows "peek b p toks = (p, False)"
proof -
  have "hd (w @ xs) \<notin> set symbols" using word_first [OF assms(2)] by (auto simp: wordchar_def)
  moreover have "0 \<notin> set symbols" by (simp add: symbols_def)
  ultimately have "0 \<notin> set toks" "hd (w @ xs) \<notin> set toks" using assms(3) by blast+
  then show ?thesis using peek_rest [OF assms(1) nonwhite_word [OF assms(2)], of toks] by simp
qed

lemma exec_loop_words:
  "rest_at b p (show_words ws @ show_redirs rs @ xs) \<Longrightarrow> ws \<noteq> [] \<Longrightarrow> \<forall>w\<in>set ws. word_ok w \<Longrightarrow> \<forall>r\<in>set rs. redir_ok r \<Longrightarrow>
   stops xs \<Longrightarrow> length argv + length ws < MAXARGS \<Longrightarrow>
   \<exists>ts us. exec_loop b p argv acc = Inr (p + length (show_words ws @ show_redirs rs), argv @ ts, acc @ us) \<and>
     map (tok_text b) ts = ws \<and> map (redir_text b) us = rs"
proof (induction ws arbitrary: p argv)
  case (Cons w ws)
  let ?ys = "show_words ws @ show_redirs rs @ xs"
  have ra: "rest_at b p (w @ 32 # ?ys)" using Cons.prems(1) by simp
  have w: "word_ok w" using Cons.prems(3) by simp
  have pk: "peek b p [124, 41, 38, 59] = (p, False)" by (rule peek_word [OF ra w]) (simp add: symbols_def)
  have nw: "nonwhite ?ys"
    using Cons.prems(3-5) stops_plain [OF Cons.prems(5)] nonwhite_redirs by (intro nonwhite_words) (auto simp: plain_def)
  note gw = gettoken_word_rest [OF ra w nw]
  let ?p = "p + length w + 1" and ?tk = "(p, p + length w)"
  have ra2: "rest_at b ?p ?ys" using rest_at_Cons [OF rest_at_append [OF ra]] by simp
  have tx: "tok_text b ?tk = w" by (rule tok_text_rest [OF ra])
  have st: "exec_loop b p argv acc = kbind (parseredirs b ?p acc) (\<lambda>(p, rs). exec_loop b p (argv @ [?tk]) rs)"
    using pk gw Cons.prems(6) by (subst exec_loop.simps) simp
  show ?case
  proof (cases "ws = []")
    case True
    then have "rest_at b ?p (show_redirs rs @ xs)" using ra2 by simp
    from parseredirs_rest [OF this Cons.prems(4) stops_plain [OF Cons.prems(5)], of acc]
    obtain us where us: "parseredirs b ?p acc = Inr (?p + length (show_redirs rs), acc @ us)" "map (redir_text b) us = rs" by blast
    have "exec_loop b (?p + length (show_redirs rs)) (argv @ [?tk]) (acc @ us) =
        Inr (?p + length (show_redirs rs), argv @ [?tk], acc @ us)"
      by (rule exec_loop_stop [OF rest_at_append [OF \<open>rest_at b ?p (show_redirs rs @ xs)\<close>] Cons.prems(5)])
    then show ?thesis using st us tx True by (intro exI [of _ "[?tk]"] exI [of _ us]) simp
  next
    case False
    then obtain w2 ws2 where ws: "ws = w2 # ws2" by (cases ws) auto
    have "peek b ?p [60, 62] = (?p, False)"
      by (rule peek_word [of _ _ w2 "32 # show_words ws2 @ show_redirs rs @ xs"])
        (use ra2 ws Cons.prems(3) in \<open>auto simp: symbols_def\<close>)
    then have "exec_loop b p argv acc = exec_loop b ?p (argv @ [?tk]) acc" using st by (simp add: parseredirs_stop)
    moreover obtain ts us where "exec_loop b ?p (argv @ [?tk]) acc =
        Inr (?p + length (show_words ws @ show_redirs rs), (argv @ [?tk]) @ ts, acc @ us)"
        "map (tok_text b) ts = ws" "map (redir_text b) us = rs"
      using Cons.IH [OF ra2 False _ Cons.prems(4,5), of "argv @ [?tk]"] Cons.prems(3,6) by auto
    ultimately show ?thesis using tx by (intro exI [of _ "?tk # ts"] exI [of _ us]) simp
  qed
qed simp

section \<open>Commands\<close>

text \<open>\<open>reads f k l stop c\<close>: \<open>f\<close> reads back the command as printed at level \<open>l\<close>, before any rest that stops it.\<close>

definition reads ::
  "(nat \<Rightarrow> byte list \<Rightarrow> nat \<Rightarrow> (nat \<times> tok cmd) kres) \<Rightarrow> nat \<Rightarrow> nat \<Rightarrow> byte set \<Rightarrow> byte list cmd \<Rightarrow> bool" where
  "reads f k l S c \<longleftrightarrow>
     (\<forall>b p xs n. rest_at b p (show_cmd c l @ xs) \<longrightarrow> xs = [] \<or> hd xs \<in> S \<longrightarrow> 4 * (length b - p) + k \<le> n \<longrightarrow>
        (\<exists>t. f n b p = Inr (p + length (show_cmd c l), t) \<and> map_cmd (tok_text b) t = c))"

abbreviation reads_exec :: "byte list cmd \<Rightarrow> bool" where
  "reads_exec c \<equiv> reads parseexec 2 3 {124, 41, 38, 59} c"

abbreviation reads_pipe :: "byte list cmd \<Rightarrow> bool" where
  "reads_pipe c \<equiv> reads parsepipe 3 2 {41, 38, 59} c"

abbreviation reads_line :: "byte list cmd \<Rightarrow> bool" where
  "reads_line c \<equiv> reads parseline 4 0 {41} c"

lemma readsD:
  assumes "reads f k l S c" and "rest_at b p (show_cmd c l @ xs)" and "xs = [] \<or> hd xs \<in> S" and "4 * (length b - p) + k \<le> n"
  obtains t where "f n b p = Inr (p + length (show_cmd c l), t)" and "map_cmd (tok_text b) t = c"
  using assms unfolding reads_def by blast

lemma map_redircmd: "map_cmd f (redircmd c rs) = redircmd (map_cmd f c) (map (\<lambda>r. (f (fst r), snd r)) rs)"
  unfolding redircmd_def by (induction rs arbitrary: c) (simp_all add: case_prod_beta)

lemma show_redircmd: "show_cmd (redircmd c rs) 3 = show_cmd c 3 @ show_redirs rs"
  unfolding redircmd_def by (induction rs arbitrary: c) (simp_all add: case_prod_beta show_redir_def)

lemma ok_redircmd: "cmd_ok (redircmd c rs) \<longleftrightarrow> cmd_ok c \<and> (\<forall>r\<in>set rs. redir_ok r)"
  unfolding redircmd_def by (induction rs arbitrary: c) (auto simp: case_prod_beta redir_ok_def)

lemma nonwhite_symbol:
  "nonwhite (124 # xs)" "nonwhite (59 # xs)" "nonwhite (38 # xs)" "nonwhite (40 # xs)" "nonwhite (41 # xs)"
  by (simp_all add: nonwhite_def whitespace_def)

lemma nonwhite_show: "cmd_ok c \<Longrightarrow> nonwhite xs \<Longrightarrow> nonwhite (show_cmd c l @ xs)"
proof (induction c arbitrary: l xs)
  case (EXEC ws)
  then show ?case using nonwhite_words by simp
next
  case (REDIR c f mode fd)
  have "nonwhite (show_op (mode, fd) @ ys)" for ys
    using REDIR.prems(1) by (auto simp: show_op_mode nonwhite_def whitespace_def)
  then show ?case using REDIR by simp
qed (simp_all add: paren_def nonwhite_symbol)

lemma text_redirs:
  "map_cmd (tok_text b) t = c \<Longrightarrow> map (redir_text b) us = rs \<Longrightarrow> map_cmd (tok_text b) (redircmd t us) = redircmd c rs"
  by (auto simp: map_redircmd redir_text_def [abs_def])

lemma reads_exec_words:
  assumes "cmd_ok (redircmd (EXEC ws) rs)"
  shows "reads_exec (redircmd (EXEC ws) rs)"
  unfolding reads_def show_redircmd
proof (intro allI impI)
  fix b p xs n
  assume ra: "rest_at b p ((show_cmd (EXEC ws) 3 @ show_redirs rs) @ xs)" and S: "xs = [] \<or> hd xs \<in> {124, 41, 38, 59}"
    and n: "4 * (length b - p) + 2 \<le> n"
  have ok: "length ws < MAXARGS" "\<forall>w\<in>set ws. word_ok w" "\<forall>r\<in>set rs. redir_ok r" using assms by (simp_all add: ok_redircmd)
  have st: "stops xs" using S by (auto simp: stops_def)
  note pl = stops_plain [OF st]
  obtain n' where n': "n = Suc n'" using n by (cases n) auto
  have ra': "rest_at b p (show_words ws @ show_redirs rs @ xs)" using ra by simp
  have nw: "nonwhite (show_words ws @ show_redirs rs @ xs)"
    using ok nonwhite_redirs pl by (intro nonwhite_words) (auto simp: plain_def)
  have "hd (show_words ws @ show_redirs rs @ xs) \<noteq> 40" if "show_words ws @ show_redirs rs @ xs \<noteq> []"
  proof (cases ws)
    case (Cons w ws')
    then show ?thesis using word_first [of w] ok(2) by (auto simp: wordchar_def symbols_def)
  next
    case Nil
    then show ?thesis using that ok(3) S
      by (cases rs) (auto simp: show_redir_def redir_ok_def show_op_mode)
  qed
  then have pk: "peek b p [40] = (p, False)" using peek_rest [OF ra' nw, of "[40]"] by auto
  have "\<exists>p1 ts us0 us. parseredirs b p [] = Inr (p1, us0) \<and>
      exec_loop b p1 [] us0 = Inr (p + length (show_words ws @ show_redirs rs), ts, us) \<and>
      map (tok_text b) ts = ws \<and> map (redir_text b) us = rs"
  proof (cases "ws = []")
    case True
    then have ra2: "rest_at b p (show_redirs rs @ xs)" using ra' by simp
    show ?thesis
      using parseredirs_rest [OF ra2 ok(3) pl, of "[]"] exec_loop_stop [OF rest_at_append [OF ra2] st] True by auto
  next
    case False
    then obtain w ws' where "ws = w # ws'" by (cases ws) auto
    then have "peek b p [60, 62] = (p, False)"
      using ra' ok(2) by (intro peek_word [of b p w "32 # show_words ws' @ show_redirs rs @ xs"]) (auto simp: symbols_def)
    then show ?thesis
      using exec_loop_words [OF ra' False ok(2,3) st, of "[]" "[]"] ok(1) by (auto simp: parseredirs_stop)
  qed
  then show "\<exists>t. parseexec n b p = Inr (p + length (show_cmd (EXEC ws) 3 @ show_redirs rs), t) \<and>
      map_cmd (tok_text b) t = redircmd (EXEC ws) rs"
    using pk n' by (force simp: text_redirs)
qed

lemma reads_exec_block:
  assumes "reads_line c" and "cmd_ok (redircmd c rs)" and "show_cmd c 3 = 40 # show_cmd c 0 @ [41]"
  shows "reads_exec (redircmd c rs)"
  unfolding reads_def show_redircmd
proof (intro allI impI)
  fix b p xs n
  assume ra: "rest_at b p ((show_cmd c 3 @ show_redirs rs) @ xs)" and S: "xs = [] \<or> hd xs \<in> {124, 41, 38, 59}"
    and n: "4 * (length b - p) + 2 \<le> n"
  have ok: "cmd_ok c" "\<forall>r\<in>set rs. redir_ok r" using assms(2) by (simp_all add: ok_redircmd)
  have pl: "plain xs" by (rule stops_plain) (use S in \<open>auto simp: stops_def\<close>)
  obtain k where n': "n = Suc (Suc k)" "4 * (length b - p) \<le> k" using n by (cases n; cases "n - 1") auto
  let ?ys = "41 # show_redirs rs @ xs"
  have ra0: "rest_at b p (40 # show_cmd c 0 @ ?ys)" using ra assms(3) by simp
  note ra1 = rest_at_Cons [OF ra0]
  note ra2 = rest_at_append [OF ra1]
  have pk: "peek b p [40] = (p, True)" using peek_rest [OF ra0 nonwhite_symbol(4), of "[40]"] by simp
  have g: "gettoken b p = (40, p, p + 1, p + 1)"
    by (rule gettoken_symbol [OF ra0]) (use nonwhite_show [OF ok(1) nonwhite_symbol(5)] in auto)
  have f: "4 * (length b - (p + 1)) + 4 \<le> k" using n' rest_at_length [OF ra0] by simp
  obtain t where t: "parseline k b (p + 1) = Inr (p + 1 + length (show_cmd c 0), t)" "map_cmd (tok_text b) t = c"
    by (rule readsD [OF assms(1) ra1 _ f]) simp_all
  let ?q = "p + 1 + length (show_cmd c 0)"
  have pk2: "peek b ?q [41] = (?q, True)" using peek_rest [OF ra2 nonwhite_symbol(5), of "[41]"] by simp
  have g2: "gettoken b ?q = (41, ?q, ?q + 1, ?q + 1)"
    by (rule gettoken_symbol [OF ra2]) (use nonwhite_redirs ok(2) pl in \<open>auto simp: plain_def\<close>)
  obtain us where us: "parseredirs b (?q + 1) [] = Inr (?q + 1 + length (show_redirs rs), [] @ us)" "map (redir_text b) us = rs"
    using parseredirs_rest [OF rest_at_Cons [OF ra2] ok(2) pl] by blast
  have "parseexec n b p = Inr (p + length (show_cmd c 3 @ show_redirs rs), redircmd t us)"
    using pk g t(1) pk2 g2 us(1) n'(1) assms(3) by simp
  then show "\<exists>t. parseexec n b p = Inr (p + length (show_cmd c 3 @ show_redirs rs), t) \<and>
      map_cmd (tok_text b) t = redircmd c rs"
    using text_redirs [OF t(2) us(2)] by blast
qed

lemma reads_pipe_exec:
  assumes "reads_exec c" and "show_cmd c 2 = show_cmd c 3"
  shows "reads_pipe c"
  unfolding reads_def assms(2)
proof (intro allI impI)
  fix b p xs n
  assume ra: "rest_at b p (show_cmd c 3 @ xs)" and S: "xs = [] \<or> hd xs \<in> {41, 38, 59}" and n: "4 * (length b - p) + 3 \<le> n"
  obtain k where k: "n = Suc k" "4 * (length b - p) + 2 \<le> k" using n by (cases n) auto
  obtain t where t: "parseexec k b p = Inr (p + length (show_cmd c 3), t)" "map_cmd (tok_text b) t = c"
    by (rule readsD [OF assms(1) ra _ k(2)]) (use S in auto)
  have "peek b (p + length (show_cmd c 3)) [124] = (p + length (show_cmd c 3), False)"
    using peek_rest [OF rest_at_append [OF ra], of "[124]"] S by (auto simp: nonwhite_def whitespace_def)
  with t k show "\<exists>t. parsepipe n b p = Inr (p + length (show_cmd c 3), t) \<and> map_cmd (tok_text b) t = c" by simp
qed

lemma reads_pipe_pipe:
  assumes "reads_exec c" and "reads_pipe d" and "cmd_ok d"
  shows "reads_pipe (PIPE c d)"
  unfolding reads_def
proof (intro allI impI)
  fix b p xs n
  assume ra: "rest_at b p (show_cmd (PIPE c d) 2 @ xs)" and S: "xs = [] \<or> hd xs \<in> {41, 38, 59}" and n: "4 * (length b - p) + 3 \<le> n"
  obtain k where k: "n = Suc k" "4 * (length b - p) + 2 \<le> k" using n by (cases n) auto
  have ra0: "rest_at b p (show_cmd c 3 @ 124 # show_cmd d 2 @ xs)" using ra by (simp add: paren_def)
  let ?q = "p + length (show_cmd c 3)"
  obtain t where t: "parseexec k b p = Inr (?q, t)" "map_cmd (tok_text b) t = c"
    by (rule readsD [OF assms(1) ra0 _ k(2)]) simp_all
  note ra1 = rest_at_append [OF ra0]
  note ra2 = rest_at_Cons [OF ra1]
  have pk: "peek b ?q [124] = (?q, True)" using peek_rest [OF ra1 nonwhite_symbol(1), of "[124]"] by simp
  have "nonwhite xs" using S by (auto simp: nonwhite_def whitespace_def)
  then have g: "gettoken b ?q = (124, ?q, ?q + 1, ?q + 1)"
    by (intro gettoken_symbol [OF ra1]) (use nonwhite_show [OF assms(3)] in auto)
  have f: "4 * (length b - (?q + 1)) + 3 \<le> k" using k rest_at_length [OF ra0] by simp
  obtain u where u: "parsepipe k b (?q + 1) = Inr (?q + 1 + length (show_cmd d 2), u)" "map_cmd (tok_text b) u = d"
    by (rule readsD [OF assms(2) ra2 S f])
  show "\<exists>t. parsepipe n b p = Inr (p + length (show_cmd (PIPE c d) 2), t) \<and> map_cmd (tok_text b) t = PIPE c d"
    using t pk g u k(1) by (simp add: paren_def)
qed

abbreviation backs :: "nat \<Rightarrow> 'a cmd \<Rightarrow> 'a cmd" where
  "backs k c \<equiv> (BACK ^^ k) c"

lemma show_backs: "show_cmd (backs k c) 1 = show_cmd c 1 @ replicate k 38"
  by (induction k) (simp_all add: paren_def replicate_append_same)

lemma map_backs: "map_cmd f (backs k c) = backs k (map_cmd f c)"
  by (induction k) simp_all

lemma back_loop_rest:
  "rest_at b p (replicate k 38 @ xs) \<Longrightarrow> xs = [] \<or> hd xs \<in> {41, 59} \<Longrightarrow> back_loop b p t = (p + k, backs k t)"
proof (induction k arbitrary: p t)
  case 0
  then have "peek b p [38] = (p, False)"
    using peek_rest [of b p xs "[38]"] by (auto simp: nonwhite_def whitespace_def)
  then show ?case by (simp add: back_loop.simps)
next
  case (Suc k)
  then have ra: "rest_at b p (38 # replicate k 38 @ xs)" by simp
  have pk: "peek b p [38] = (p, True)" using peek_rest [OF ra nonwhite_symbol(3), of "[38]"] by simp
  have "nonwhite (replicate k 38 @ xs)" using Suc.prems(2) by (cases k) (auto simp: nonwhite_def whitespace_def)
  then have "gettoken b p = (38, p, p + 1, p + 1)" by (intro gettoken_symbol [OF ra]) auto
  then have "back_loop b p t = back_loop b (p + 1) (BACK t)" using pk by (subst back_loop.simps) simp
  also have "\<dots> = (p + 1 + k, backs k (BACK t))" by (rule Suc.IH [OF rest_at_Cons [OF ra] Suc.prems(2)])
  finally show ?case by (simp add: funpow_swap1)
qed

lemma backs_read:
  assumes "reads_pipe c" and "show_cmd c 1 = show_cmd c 2"
    and "rest_at b p (show_cmd (backs k c) 1 @ xs)" and "xs = [] \<or> hd xs \<in> {41, 59}" and "4 * (length b - p) + 3 \<le> n"
  obtains t q where "parsepipe n b p = Inr (q, t)" and "back_loop b q t = (p + length (show_cmd (backs k c) 1), backs k t)"
    and "map_cmd (tok_text b) t = c"
proof -
  have ra: "rest_at b p (show_cmd c 2 @ replicate k 38 @ xs)" using assms(3) unfolding show_backs assms(2) by simp
  have S: "replicate k 38 @ xs = [] \<or> hd (replicate k 38 @ xs) \<in> {41, 38, 59}" using assms(4) by (cases k) auto
  obtain t where t: "parsepipe n b p = Inr (p + length (show_cmd c 2), t)" "map_cmd (tok_text b) t = c"
    by (rule readsD [OF assms(1) ra S assms(5)])
  have "back_loop b (p + length (show_cmd c 2)) t = (p + length (show_cmd c 2) + k, backs k t)"
    by (rule back_loop_rest [OF rest_at_append [OF ra] assms(4)])
  moreover have "p + length (show_cmd c 2) + k = p + length (show_cmd (backs k c) 1)" unfolding show_backs assms(2) by simp
  ultimately show thesis using t by (intro that) (simp_all only:)
qed

lemma reads_line_backs:
  assumes "reads_pipe c" and "show_cmd c 1 = show_cmd c 2" and "show_cmd (backs k c) 0 = show_cmd (backs k c) 1"
  shows "reads_line (backs k c)"
  unfolding reads_def assms(3)
proof (intro allI impI)
  fix b p xs n
  assume ra: "rest_at b p (show_cmd (backs k c) 1 @ xs)" and S: "xs = [] \<or> hd xs \<in> {41}" and n: "4 * (length b - p) + 4 \<le> n"
  obtain m where m: "n = Suc m" "4 * (length b - p) + 3 \<le> m" using n by (cases n) auto
  have S': "xs = [] \<or> hd xs \<in> {41, 59}" using S by auto
  let ?r = "p + length (show_cmd (backs k c) 1)"
  obtain t q where t: "parsepipe m b p = Inr (q, t)" "back_loop b q t = (?r, backs k t)" "map_cmd (tok_text b) t = c"
    by (rule backs_read [OF assms(1,2) ra S' m(2)])
  have "peek b ?r [59] = (?r, False)"
    using peek_rest [OF rest_at_append [OF ra], of "[59]"] S by (auto simp: nonwhite_def whitespace_def)
  then show "\<exists>t. parseline n b p = Inr (?r, t) \<and> map_cmd (tok_text b) t = backs k c"
    using t m(1) by (simp add: map_backs)
qed

lemma reads_line_list:
  assumes "reads_pipe c" and "show_cmd c 1 = show_cmd c 2" and "reads_line d" and "cmd_ok d"
  shows "reads_line (LIST (backs k c) d)"
  unfolding reads_def
proof (intro allI impI)
  fix b p xs n
  assume ra: "rest_at b p (show_cmd (LIST (backs k c) d) 0 @ xs)" and S: "xs = [] \<or> hd xs \<in> {41}"
    and n: "4 * (length b - p) + 4 \<le> n"
  obtain m where m: "n = Suc m" "4 * (length b - p) + 3 \<le> m" using n by (cases n) auto
  have ra0: "rest_at b p (show_cmd (backs k c) 1 @ 59 # show_cmd d 0 @ xs)" using ra by (simp add: paren_def)
  let ?r = "p + length (show_cmd (backs k c) 1)"
  obtain t q where t: "parsepipe m b p = Inr (q, t)" "back_loop b q t = (?r, backs k t)" "map_cmd (tok_text b) t = c"
    by (rule backs_read [OF assms(1,2) ra0 _ m(2)]) simp_all
  note ra1 = rest_at_append [OF ra0]
  have pk: "peek b ?r [59] = (?r, True)" using peek_rest [OF ra1 nonwhite_symbol(2), of "[59]"] by simp
  have "nonwhite xs" using S by (auto simp: nonwhite_def whitespace_def)
  then have g: "gettoken b ?r = (59, ?r, ?r + 1, ?r + 1)"
    by (intro gettoken_symbol [OF ra1]) (use nonwhite_show [OF assms(4)] in auto)
  have f: "4 * (length b - (?r + 1)) + 4 \<le> m" using m rest_at_length [OF ra0] by simp
  obtain u where u: "parseline m b (?r + 1) = Inr (?r + 1 + length (show_cmd d 0), u)" "map_cmd (tok_text b) u = d"
    by (rule readsD [OF assms(3) rest_at_Cons [OF ra1] S f])
  show "\<exists>t. parseline n b p = Inr (p + length (show_cmd (LIST (backs k c) d) 0), t) \<and>
      map_cmd (tok_text b) t = LIST (backs k c) d"
    using t pk g u m(1) by (simp add: paren_def map_backs)
qed

text \<open>Every command is a command of another kind under redirections, or under \<^verbatim>\<open>&\<close>.\<close>

lemma redir_spine_base:
  "\<forall>d f m fd. c \<noteq> REDIR d f m fd \<Longrightarrow>
   \<exists>c0 rs. c = redircmd c0 rs \<and> (\<forall>d f m fd. c0 \<noteq> REDIR d f m fd) \<and> (rs = [] \<or> size c0 < size c)"
  by (intro exI [of _ c] exI [of _ "[]"]) (simp add: redircmd_def)

lemma redir_spine: "\<exists>c0 rs. c = redircmd c0 rs \<and> (\<forall>d f m fd. c0 \<noteq> REDIR d f m fd) \<and> (rs = [] \<or> size c0 < size c)"
proof (induction c)
  case (REDIR c f m fd)
  then obtain c0 rs where "c = redircmd c0 rs" "\<forall>d f m fd. c0 \<noteq> REDIR d f m fd" "rs = [] \<or> size c0 < size c" by blast
  then show ?case
    by (intro exI [of _ c0] exI [of _ "rs @ [(f, m, fd)]"]) (auto simp: redircmd_def)
qed (rule redir_spine_base, simp)+

lemma back_spine_base:
  "\<forall>d. c \<noteq> BACK d \<Longrightarrow> \<exists>k c0. c = backs k c0 \<and> (\<forall>d. c0 \<noteq> BACK d) \<and> (k = 0 \<or> size c0 < size c)"
  by (intro exI [of _ 0] exI [of _ c]) simp

lemma back_spine: "\<exists>k c0. c = backs k c0 \<and> (\<forall>d. c0 \<noteq> BACK d) \<and> (k = 0 \<or> size c0 < size c)"
proof (induction c)
  case (BACK c)
  then obtain k c0 where "c = backs k c0" "\<forall>d. c0 \<noteq> BACK d" "k = 0 \<or> size c0 < size c" by blast
  then show ?case by (intro exI [of _ "Suc k"] exI [of _ c0]) auto
qed (rule back_spine_base, simp)+

lemma ok_backs: "cmd_ok (backs k c) = cmd_ok c"
  by (induction k) simp_all

lemma show_level: "\<forall>d. c \<noteq> BACK d \<Longrightarrow> show_cmd c 1 = show_cmd c 2"
  by (cases c) (simp_all add: paren_def)

lemma reads_simple:
  assumes "reads_exec c" and "show_cmd c 2 = show_cmd c 3" and "show_cmd c 1 = show_cmd c 2" and "show_cmd c 0 = show_cmd c 1"
  shows "reads_exec c \<and> reads_pipe c \<and> reads_line c"
  using assms reads_pipe_exec [OF assms(1,2)] reads_line_backs [of c 0] by simp

lemma reads_all: "cmd_ok c \<Longrightarrow> reads_exec c \<and> reads_pipe c \<and> reads_line c"
proof (induction c rule: measure_induct_rule [of size])
  case (less c)
  obtain c0 rs where c0: "c = redircmd c0 rs" "\<forall>d f m fd. c0 \<noteq> REDIR d f m fd" "rs = [] \<or> size c0 < size c"
    using redir_spine by blast
  have ok: "cmd_ok c0" using less.prems c0(1) by (simp add: ok_redircmd)
  show ?case
  proof (cases "rs = []")
    case False
    then obtain r rs' where "rs = rs' @ [r]" by (cases rs rule: rev_cases) auto
    then have "\<exists>d f m fd. c = REDIR d f m fd" using c0(1) by (cases r) (simp add: redircmd_def)
    then have lv: "show_cmd c 2 = show_cmd c 3" "show_cmd c 1 = show_cmd c 2" "show_cmd c 0 = show_cmd c 1" by auto
    have "reads_exec c"
    proof (cases "\<exists>ws. c0 = EXEC ws")
      case True
      then show ?thesis using c0(1) less.prems reads_exec_words by blast
    next
      case no: False
      then have "show_cmd c0 3 = 40 # show_cmd c0 0 @ [41]" using c0(2) by (cases c0) (auto simp: paren_def)
      moreover have "reads_line c0" using less.IH ok c0(3) False by blast
      ultimately show ?thesis using c0(1) less.prems reads_exec_block by blast
    qed
    then show ?thesis by (rule reads_simple [OF _ lv])
  next
    case True
    then have c: "c = c0" "c = redircmd c []" using c0(1) by (simp_all add: redircmd_def)
    have blk: "reads_exec c" if "reads_line c" "show_cmd c 3 = 40 # show_cmd c 0 @ [41]"
      using reads_exec_block [of c "[]"] that less.prems c(2) by simp
    show ?thesis
    proof (cases c)
      case (EXEC ws)
      then show ?thesis using reads_exec_words [of ws "[]"] less.prems c(2) by (intro reads_simple) simp_all
    next
      case (PIPE d e)
      then have p: "reads_pipe c" using reads_pipe_pipe less.IH [of d] less.IH [of e] less.prems by simp
      then have "reads_line c" using reads_line_backs [of c 0] PIPE by (simp add: paren_def)
      with p blk PIPE show ?thesis by (simp add: paren_def)
    next
      case (LIST d e)
      obtain k d0 where d: "d = backs k d0" "\<forall>x. d0 \<noteq> BACK x" "k = 0 \<or> size d0 < size d" using back_spine by blast
      have "size d0 < size c" using d(1,3) LIST by auto
      then have "reads_pipe d0" using less.IH less.prems LIST d(1) by (simp add: ok_backs)
      then have l: "reads_line c"
        using reads_line_list [OF _ show_level [OF d(2)]] less.IH [of e] less.prems LIST d(1) by simp
      then have "reads_exec c" using blk LIST by (simp add: paren_def)
      with l reads_pipe_exec [of c] LIST show ?thesis by (simp add: paren_def)
    next
      case (BACK d)
      obtain k d0 where d: "c = backs k d0" "\<forall>x. d0 \<noteq> BACK x" "k = 0 \<or> size d0 < size c" using back_spine by blast
      then have "reads_pipe d0" using less.IH less.prems BACK by (auto simp: ok_backs)
      then have l: "reads_line c"
        using reads_line_backs [OF _ show_level [OF d(2)], of k] BACK d(1) by (simp add: paren_def)
      then have "reads_exec c" using blk BACK by (simp add: paren_def)
      with l reads_pipe_exec [of c] BACK show ?thesis by (simp add: paren_def)
    qed (use c c0(2) in auto)
  qed
qed

text \<open>The characters of a printed command are never NUL.\<close>

lemma show_nonzero: "cmd_ok c \<Longrightarrow> 0 \<notin> set (show_cmd c l)"
  by (induction c arbitrary: l) (auto simp: word_ok_def paren_def show_op_mode)

text \<open>
  C16. The shell reads what was written: every command, printed with only the parentheses that the
  precedence of \<^verbatim>\<open>;\<close>, \<^verbatim>\<open>&\<close>, \<^verbatim>\<open>|\<close> and the redirections makes necessary, is parsed back to itself, and the
  C strings that the parsed command points to in the cut-up line are its words.
\<close>

theorem parse_print_roundtrip:
  assumes "cmd_ok c"
  shows "\<exists>t buf. parsecmd (show_cmd c 0) = Inr (t, buf) \<and> map_cmd (\<lambda>w. str_at buf (fst w)) t = c"
proof -
  let ?s = "show_cmd c 0"
  have ra: "rest_at ?s 0 (show_cmd c 0 @ [])" by (simp add: rest_at_def)
  obtain t where t: "parseline (4 * length ?s + 4) ?s 0 = Inr (0 + length ?s, t)" "map_cmd (tok_text ?s) t = c"
    by (rule readsD [OF _ ra]) (use reads_all [OF assms] in auto)
  have "parsed ?s 0 True (parseline (4 * length ?s + 4) ?s 0)"
    using parse_ends [of "4 * length ?s + 4" ?s] by (auto dest: endsD [of _ _ _ _ 0])
  then have ok: "\<forall>u\<in>set_cmd t. tok_ok ?s u" using t(1) by (simp add: parsed_def)
  have "peek ?s (length ?s) [] = (length ?s, False)"
    using peek_rest [of ?s "length ?s" "[]" "[]"] by (simp add: rest_at_def nonwhite_def)
  then have "parsecmd ?s = Inr (t, nulterminate t (?s @ [0]))" using t(1) by (simp add: parsecmd_def)
  moreover have "map_cmd (\<lambda>w. str_at (nulterminate t (?s @ [0])) (fst w)) t = map_cmd (tok_text ?s) t"
    by (rule cmd.map_cong0) (use nulterminate_strings [OF ok _ show_nonzero [OF assms]] in \<open>simp add: tok_text_def\<close>)
  ultimately show ?thesis using t(2) by simp
qed

definition sample :: "byte list cmd" where
  "sample = LIST (BACK (PIPE (EXEC [ascii ''ls'']) (REDIR (EXEC [ascii ''wc'']) (ascii ''f'') 0x601 1)))
     (EXEC [ascii ''echo'', ascii ''hi''])"

theorem parse_print_roundtrip_witness:
  "\<exists>t buf. parsecmd (ascii ''ls |wc >f &;echo hi '') = Inr (t, buf) \<and> map_cmd (\<lambda>w. str_at buf (fst w)) t = sample"
proof -
  have "cmd_ok sample"
    by (simp add: sample_def MAXARGS_def word_ok_def wordchar_def whitespace_def symbols_def ascii_def redir_mode_def
        O_RDONLY_def O_WRONLY_def O_CREATE_def O_TRUNC_def)
  moreover have "show_cmd sample 0 = ascii ''ls |wc >f &;echo hi ''"
    by (simp add: sample_def ascii_def paren_def show_op_def redir_mode_def O_RDONLY_def O_WRONLY_def O_CREATE_def O_TRUNC_def)
  ultimately show ?thesis using parse_print_roundtrip [of sample] by simp
qed

section \<open>Running commands\<close>

text \<open>
  What a process does, as the tree of its system calls: each call has one continuation for every
  result that the program can tell apart. \<open>Fork k\<close> goes on as \<open>k 0\<close> in the child and as \<open>k pid\<close> in the
  parent, with -1 for a failure. \<open>Execve\<close> returns only if it fails.
\<close>

datatype prog =
    Exit int
  | Close nat prog
  | Dup nat prog
  | Open "byte list" u32 "int \<Rightarrow> prog"
  | Pipe "(nat \<times> nat) option \<Rightarrow> prog"
  | Fork "int \<Rightarrow> prog"
  | Wait prog
  | Execve "byte list list" prog
  | Write nat "byte list" prog

definition panic :: "byte list \<Rightarrow> prog" where
  "panic s = Write 2 (s @ [10]) (Exit 1)"

definition fork1 :: "(int \<Rightarrow> prog) \<Rightarrow> prog" where
  "fork1 k = Fork (\<lambda>pid. if pid = -1 then panic (ascii ''fork'') else k pid)"

primrec runcmd :: "byte list cmd \<Rightarrow> prog" where
  "runcmd (EXEC argv) =
     (if argv = [] then Exit 1
      else Execve argv (Write 2 (ascii ''exec '' @ hd argv @ ascii '' failed'' @ [10]) (Exit 0)))"
| "runcmd (REDIR c f mode fd) =
     Close fd (Open f mode (\<lambda>r.
       if r < 0 then Write 2 (ascii ''open '' @ f @ ascii '' failed'' @ [10]) (Exit 1) else runcmd c))"
| "runcmd (LIST c d) = fork1 (\<lambda>pid. if pid = 0 then runcmd c else Wait (runcmd d))"
| "runcmd (PIPE c d) =
     Pipe (\<lambda>r. case r of
         None \<Rightarrow> panic (ascii ''pipe'')
       | Some (p0, p1) \<Rightarrow>
           fork1 (\<lambda>pid.
             if pid = 0 then Close 1 (Dup p1 (Close p0 (Close p1 (runcmd c))))
             else fork1 (\<lambda>pid.
               if pid = 0 then Close 0 (Dup p0 (Close p0 (Close p1 (runcmd d))))
               else Close p0 (Close p1 (Wait (Wait (Exit 0)))))))"
| "runcmd (BACK c) = fork1 (\<lambda>pid. if pid = 0 then runcmd c else Exit 0)"

text \<open>
  Descriptors as the kernel hands them out: \<^verbatim>\<open>open\<close> and \<^verbatim>\<open>dup\<close> take the lowest free one, \<^verbatim>\<open>pipe\<close> the two
  lowest. \<open>launched\<close> collects the programs that are started when no call fails, with their
  descriptors, in the order of the program text; pipes are numbered.
\<close>

datatype obj = Console | File "byte list" u32 | PipeRead nat | PipeWrite nat

type_synonym fds = "nat \<Rightarrow> obj option"

definition lowest :: "fds \<Rightarrow> nat" where
  "lowest f = (case find (\<lambda>i. f i = None) [0..<16] of Some i \<Rightarrow> i | None \<Rightarrow> 16)"

primrec launched :: "prog \<Rightarrow> fds \<Rightarrow> nat \<Rightarrow> (byte list list \<times> fds) list \<times> nat" where
  "launched (Exit st) f n = ([], n)"
| "launched (Close fd k) f n = launched k (f(fd := None)) n"
| "launched (Dup fd k) f n = launched k (f(lowest f := f fd)) n"
| "launched (Open path mode k) f n = launched (k (int (lowest f))) (f(lowest f := Some (File path mode))) n"
| "launched (Pipe k) f n =
     (let r = lowest f; f = f(r := Some (PipeRead n)); w = lowest f
      in launched (k (Some (r, w))) (f(w := Some (PipeWrite n))) (Suc n))"
| "launched (Fork k) f n =
     (let (xs, n) = launched (k 0) f n; (ys, n) = launched (k 1) f n in (xs @ ys, n))"
| "launched (Wait k) f n = launched k f n"
| "launched (Execve argv k) f n = ([(argv, f)], n)"
| "launched (Write fd s k) f n = launched k f n"

text \<open>What the user asked for: a pipe connects the two sides, a redirection replaces a descriptor.\<close>

primrec plumb :: "byte list cmd \<Rightarrow> fds \<Rightarrow> nat \<Rightarrow> (byte list list \<times> fds) list \<times> nat" where
  "plumb (EXEC argv) f n = (if argv = [] then [] else [(argv, f)], n)"
| "plumb (REDIR c path mode fd) f n = plumb c (f(fd := Some (File path mode))) n"
| "plumb (PIPE c d) f n =
     (let (xs, m) = plumb c (f(1 := Some (PipeWrite n))) (Suc n); (ys, m) = plumb d (f(0 := Some (PipeRead n))) m
      in (xs @ ys, m))"
| "plumb (LIST c d) f n = (let (xs, m) = plumb c f n; (ys, m) = plumb d f m in (xs @ ys, m))"
| "plumb (BACK c) f n = plumb c f n"

definition std :: "fds \<Rightarrow> bool" where
  "std f \<longleftrightarrow> dom f = {0, 1, 2}"

lemma stdE:
  assumes "std f"
  obtains x y z where "f = (\<lambda>_. None)(0 := Some x, 1 := Some y, 2 := Some z)"
proof -
  have d: "f i \<noteq> None \<longleftrightarrow> i \<in> {0, 1, 2}" for i using assms unfolding std_def domIff [symmetric] by (simp only:)
  have "f 0 \<noteq> None" "f 1 \<noteq> None" "f 2 \<noteq> None" unfolding d by simp_all
  then obtain x y z where "f 0 = Some x" "f 1 = Some y" "f 2 = Some z" by auto
  moreover have "f i = None" if "i \<notin> {0, 1, 2}" for i using d that by blast
  ultimately have "f = (\<lambda>_. None)(0 := Some x, 1 := Some y, 2 := Some z)" by (intro ext) simp
  then show thesis by (rule that)
qed

lemma std_update: "std f \<Longrightarrow> fd \<in> {0, 1} \<Longrightarrow> std (f(fd := Some x))"
  by (auto simp: std_def)

lemma lowest_std:
  assumes "std f"
  shows "fd \<in> {0, 1} \<Longrightarrow> lowest (f(fd := None)) = fd" "lowest f = 3" "lowest (f(3 := Some x)) = 4"
    "lowest (f(3 := Some x, 4 := Some y, 1 := None)) = 1" "lowest (f(3 := Some x, 4 := Some y, 0 := None)) = 0"
proof -
  obtain u v w where "f = (\<lambda>_. None)(0 := Some u, 1 := Some v, 2 := Some w)" using assms by (rule stdE)
  then show "fd \<in> {0, 1} \<Longrightarrow> lowest (f(fd := None)) = fd" "lowest f = 3" "lowest (f(3 := Some x)) = 4"
    "lowest (f(3 := Some x, 4 := Some y, 1 := None)) = 1" "lowest (f(3 := Some x, 4 := Some y, 0 := None)) = 0"
    by (auto simp: lowest_def upt_rec)
qed

lemma pipe_ends:
  assumes "std f"
  shows "launched (Close 1 (Dup 4 (Close 3 (Close 4 k)))) (f(3 := Some x, 4 := Some y)) n = launched k (f(1 := Some y)) n"
    "launched (Close 0 (Dup 3 (Close 3 (Close 4 k)))) (f(3 := Some x, 4 := Some y)) n = launched k (f(0 := Some x)) n"
proof -
  have "(f(3 := Some x, 4 := Some y, 1 := None))(1 := (f(3 := Some x, 4 := Some y, 1 := None)) 4, 3 := None, 4 := None) =
      f(1 := Some y)"
    "(f(3 := Some x, 4 := Some y, 0 := None))(0 := (f(3 := Some x, 4 := Some y, 0 := None)) 3, 3 := None, 4 := None) =
      f(0 := Some x)"
    by (rule stdE [OF assms], simp add: fun_eq_iff)+
  then show "launched (Close 1 (Dup 4 (Close 3 (Close 4 k)))) (f(3 := Some x, 4 := Some y)) n = launched k (f(1 := Some y)) n"
    "launched (Close 0 (Dup 3 (Close 3 (Close 4 k)))) (f(3 := Some x, 4 := Some y)) n = launched k (f(0 := Some x)) n"
    unfolding launched.simps lowest_std(4,5) [OF assms] by (simp_all only:)
qed


definition tty :: fds where
  "tty = (\<lambda>_. None)(0 := Some Console, 1 := Some Console, 2 := Some Console)"


end
