(* ===== verification/Xv6_Umalloc.thy ===== *)
theory Xv6_Umalloc
  imports Xv6_Ulib
begin

text \<open>
  The memory allocator of the user programs, \<^verbatim>\<open>user/umalloc.c\<close>. Its state is the memory of the
  process, the program break and \<^verbatim>\<open>freep\<close>; the address of the static header \<^verbatim>\<open>base\<close> is a parameter.
  A header is 16 bytes, the pointer at offset 0 and the size, in units of a header, at offset 8.
  Whether the kernel grants a call of \<^verbatim>\<open>sbrk\<close> is a parameter too. The free list refines a set of
  free bytes: \<^verbatim>\<open>malloc\<close> takes a block out of it and \<^verbatim>\<open>free\<close> puts one back, both always return, and no
  byte of an allocated block is touched.
\<close>

section \<open>Model\<close>

record uheap =
  um :: mem
  brk :: u64
  freep :: u64

definition hptr :: "mem \<Rightarrow> u64 \<Rightarrow> u64" where
  "hptr m a = load64 m a"

definition hsize :: "mem \<Rightarrow> u64 \<Rightarrow> u32" where
  "hsize m a = load32 m (a + 8)"

definition set_hptr :: "mem \<Rightarrow> u64 \<Rightarrow> u64 \<Rightarrow> mem" where
  "set_hptr m a v = store64 m a v"

definition set_hsize :: "mem \<Rightarrow> u64 \<Rightarrow> u32 \<Rightarrow> mem" where
  "set_hsize m a n = store32 m (a + 8) n"

definition after_hdr :: "u64 \<Rightarrow> u32 \<Rightarrow> u64" where
  "after_hdr p n = p + 16 * ucast n"

partial_function (option) free_find :: "mem \<Rightarrow> u64 \<Rightarrow> u64 \<Rightarrow> u64 option" where
  "free_find m bp p =
     (if bp > p \<and> bp < hptr m p then Some p
      else if p \<ge> hptr m p \<and> (bp > p \<or> bp < hptr m p) then Some p
      else free_find m bp (hptr m p))"

definition free_link :: "mem \<Rightarrow> u64 \<Rightarrow> u64 \<Rightarrow> mem" where
  "free_link m bp p =
     (let m = (if after_hdr bp (hsize m bp) = hptr m p
               then let m = set_hsize m bp (hsize m bp + hsize m (hptr m p))
                    in set_hptr m bp (hptr m (hptr m p))
               else set_hptr m bp (hptr m p))
      in if after_hdr p (hsize m p) = bp
         then let m = set_hsize m p (hsize m p + hsize m bp)
              in set_hptr m p (hptr m bp)
         else set_hptr m p bp)"

definition free_u :: "u64 \<Rightarrow> uheap \<Rightarrow> uheap option" where
  "free_u ap h =
     (let bp = ap - 16
      in Option.bind (free_find (um h) bp (freep h)) (\<lambda>p.
           Some (h\<lparr>um := free_link (um h) bp p, freep := p\<rparr>)))"

text \<open>\<^verbatim>\<open>sys_sbrk\<close> as the program sees it: the old break, or -1 when \<^verbatim>\<open>growproc\<close> fails.\<close>

definition sbrk :: "(u64 \<Rightarrow> int \<Rightarrow> bool) \<Rightarrow> int \<Rightarrow> uheap \<Rightarrow> u64 \<times> uheap" where
  "sbrk grant n h = (if grant (brk h) n then (brk h, h\<lparr>brk := brk h + of_int n\<rparr>) else (- 1, h))"

text \<open>The argument of \<^verbatim>\<open>sbrk\<close> is an \<^verbatim>\<open>int\<close>, to which the product of type \<^verbatim>\<open>unsigned long\<close> is truncated.\<close>

definition morecore :: "(u64 \<Rightarrow> int \<Rightarrow> bool) \<Rightarrow> u32 \<Rightarrow> uheap \<Rightarrow> (u64 \<times> uheap) option" where
  "morecore grant nu h =
     (let nu = (if nu < 4096 then 4096 else nu);
          (p, h) = sbrk grant (sint (ucast (ucast nu * 16 :: u64) :: u32)) h
      in if p = - 1 then Some (0, h)
         else let h = h\<lparr>um := set_hsize (um h) p nu\<rparr>
              in Option.bind (free_u (p + 16) h) (\<lambda>h. Some (freep h, h)))"

partial_function (option) malloc_loop ::
  "(u64 \<Rightarrow> int \<Rightarrow> bool) \<Rightarrow> u32 \<Rightarrow> u64 \<Rightarrow> u64 \<Rightarrow> uheap \<Rightarrow> (u64 \<times> uheap) option" where
  "malloc_loop grant nunits prevp p h =
     (if hsize (um h) p \<ge> nunits then
        Some (if hsize (um h) p = nunits
              then (p + 16, h\<lparr>um := set_hptr (um h) prevp (hptr (um h) p), freep := prevp\<rparr>)
              else let m = set_hsize (um h) p (hsize (um h) p - nunits);
                       p = after_hdr p (hsize m p);
                       m = set_hsize m p nunits
                   in (p + 16, h\<lparr>um := m, freep := prevp\<rparr>))
      else if p = freep h then
        Option.bind (morecore grant nunits h) (\<lambda>(p, h).
          if p = 0 then Some (0, h) else malloc_loop grant nunits p (hptr (um h) p) h)
      else malloc_loop grant nunits p (hptr (um h) p) h)"

definition malloc_units :: "u32 \<Rightarrow> u32" where
  "malloc_units nbytes = ucast ((ucast nbytes + 16 - 1) div 16 + 1 :: u64)"

definition malloc :: "(u64 \<Rightarrow> int \<Rightarrow> bool) \<Rightarrow> u64 \<Rightarrow> u32 \<Rightarrow> uheap \<Rightarrow> (u64 \<times> uheap) option" where
  "malloc grant base nbytes h =
     (let nunits = malloc_units nbytes;
          h = (if freep h = 0 then h\<lparr>um := set_hsize (set_hptr (um h) base base) base 0, freep := base\<rparr> else h);
          prevp = freep h
      in malloc_loop grant nunits prevp (hptr (um h) prevp) h)"

section \<open>Headers\<close>

text \<open>Addresses of headers that fit in the address space, and headers that do not overlap.\<close>

definition hdr_ok :: "u64 \<Rightarrow> bool" where
  "hdr_ok a \<longleftrightarrow> unat a + 16 \<le> 2 ^ 64"

definition apart :: "u64 \<Rightarrow> u64 \<Rightarrow> bool" where
  "apart a b \<longleftrightarrow> hdr_ok a \<and> hdr_ok b \<and> (unat a + 16 \<le> unat b \<or> unat b + 16 \<le> unat a)"

lemma apart_sym: "apart a b \<Longrightarrow> apart b a"
  by (auto simp: apart_def)

lemma unat_plus_8: "hdr_ok a \<Longrightarrow> unat (a + 8) = unat a + 8"
  using unat_add_of_nat [of a 8] by (simp add: hdr_ok_def)

lemma hptr_set_hptr [simp]: "hptr (set_hptr m a v) a = v"
  by (simp add: hptr_def set_hptr_def)

lemma hsize_set_hsize [simp]: "hsize (set_hsize m a v) a = v"
  by (simp add: hsize_def set_hsize_def)

lemma hptr_set_hsize: "hdr_ok a \<Longrightarrow> a = b \<or> apart a b \<Longrightarrow> hptr (set_hsize m a n) b = hptr m b"
  unfolding hptr_def set_hsize_def load64_def store32_def
  by (subst mem_read_write_disjoint) (auto simp: disjoint_range_def unat_plus_8 apart_def hdr_ok_def)

lemma hsize_set_hptr: "hdr_ok a \<Longrightarrow> a = b \<or> apart a b \<Longrightarrow> hsize (set_hptr m a v) b = hsize m b"
  unfolding hsize_def set_hptr_def load32_def store64_def
  by (subst mem_read_write_disjoint) (auto simp: disjoint_range_def unat_plus_8 apart_def hdr_ok_def)

lemma hptr_set_hptr_other: "apart a b \<Longrightarrow> hptr (set_hptr m a v) b = hptr m b"
  unfolding hptr_def set_hptr_def load64_def store64_def
  by (subst mem_read_write_disjoint) (auto simp: disjoint_range_def apart_def hdr_ok_def)

lemma hsize_set_hsize_other: "apart a b \<Longrightarrow> hsize (set_hsize m a v) b = hsize m b"
  unfolding hsize_def set_hsize_def load32_def store32_def
  by (subst mem_read_write_disjoint) (auto simp: disjoint_range_def unat_plus_8 apart_def hdr_ok_def)

lemmas hdr_other = hptr_set_hptr_other hsize_set_hsize_other

text \<open>Memories that agree outside a set of addresses.\<close>

definition keeps_outside :: "nat set \<Rightarrow> mem \<Rightarrow> mem \<Rightarrow> bool" where
  "keeps_outside A m m' \<longleftrightarrow> (\<forall>x. unat x \<notin> A \<longrightarrow> m' x = m x)"

lemma keeps_outside_refl [simp]: "keeps_outside A m m"
  by (simp add: keeps_outside_def)

lemma keeps_outside_trans: "keeps_outside A m m' \<Longrightarrow> keeps_outside A m' m'' \<Longrightarrow> keeps_outside A m m''"
  by (simp add: keeps_outside_def)

lemma keeps_outside_mono: "keeps_outside A m m' \<Longrightarrow> A \<subseteq> B \<Longrightarrow> keeps_outside B m m'"
  by (auto simp: keeps_outside_def)

lemma mem_write_keeps:
  assumes "unat a + length bs \<le> 2 ^ 64" and "{unat a..<unat a + length bs} \<subseteq> A"
  shows "keeps_outside A m (mem_write m a bs)"
  unfolding keeps_outside_def
proof (intro allI impI)
  fix x :: u64 assume "unat x \<notin> A"
  then have "unat x < unat a \<or> unat a + length bs \<le> unat x" using assms(2) by (meson atLeastLessThan_iff not_less subsetD)
  then show "mem_write m a bs x = m x" using assms(1) by (intro mem_write_out word_sub_unat_ge)
qed

lemma set_hptr_keeps: "hdr_ok a \<Longrightarrow> {unat a..<unat a + 16} \<subseteq> A \<Longrightarrow> keeps_outside A m (set_hptr m a v)"
  unfolding set_hptr_def store64_def by (intro mem_write_keeps) (auto simp: hdr_ok_def)

lemma set_hsize_keeps: "hdr_ok a \<Longrightarrow> {unat a..<unat a + 16} \<subseteq> A \<Longrightarrow> keeps_outside A m (set_hsize m a v)"
  unfolding set_hsize_def store32_def by (intro mem_write_keeps) (auto simp: hdr_ok_def unat_plus_8)

lemma set_both_keeps: "hdr_ok a \<Longrightarrow> {unat a..<unat a + 16} \<subseteq> A \<Longrightarrow> keeps_outside A m (set_hptr (set_hsize m a n) a v)"
  by (rule keeps_outside_trans [OF set_hsize_keeps set_hptr_keeps])

section \<open>The free list\<close>

text \<open>Blocks are pairs of an address and a number of units.\<close>

type_synonym block = "nat \<times> nat"

abbreviation addr :: "block \<Rightarrow> u64" where
  "addr x \<equiv> of_nat (fst x)"

definition stop :: "block \<Rightarrow> nat" where
  "stop x = fst x + 16 * snd x"

primrec linked :: "mem \<Rightarrow> u64 \<Rightarrow> block list \<Rightarrow> u64 \<Rightarrow> bool" where
  "linked m p [] e \<longleftrightarrow> hptr m p = e"
| "linked m p (x # xs) e \<longleftrightarrow> hptr m p = addr x \<and> hsize m (addr x) = of_nat (snd x) \<and> linked m (addr x) xs e"

primrec spaced :: "nat \<Rightarrow> block list \<Rightarrow> nat \<Rightarrow> bool" where
  "spaced l [] hi \<longleftrightarrow> l \<le> hi"
| "spaced l (x # xs) hi \<longleftrightarrow> l < fst x \<and> 0 < snd x \<and> spaced (stop x) xs hi"

definition free_bytes :: "block list \<Rightarrow> nat set" where
  "free_bytes xs = (\<Union>x\<in>set xs. {fst x..<stop x})"

definition last_addr :: "u64 \<Rightarrow> block list \<Rightarrow> u64" where
  "last_addr p xs = last (p # map addr xs)"

definition heap_ok :: "u64 \<Rightarrow> uheap \<Rightarrow> block list \<Rightarrow> bool" where
  "heap_ok base h xs \<longleftrightarrow>
     base \<noteq> 0 \<and> unat base + 16 \<le> unat (brk h) \<and> unat (brk h) \<le> 2 ^ 36 \<and> hsize (um h) base = 0 \<and> linked (um h) base xs base \<and>
     spaced (unat base + 15) xs (unat (brk h)) \<and> freep h \<in> set (base # map addr xs)"

lemma last_addr_simps [simp]: "last_addr p [] = p" "last_addr p (x # xs) = last_addr (addr x) xs"
  by (simp_all add: last_addr_def)

lemma last_addr_snoc [simp]: "last_addr p (xs @ [x]) = addr x"
  by (simp add: last_addr_def)

lemma linked_append: "linked m p (us @ x # vs) e \<longleftrightarrow> linked m p us (addr x) \<and> hsize m (addr x) = of_nat (snd x) \<and> linked m (addr x) vs e"
  by (induction us arbitrary: p) auto

lemma linked_last: "linked m p us e \<Longrightarrow> hptr m (last_addr p us) = e"
  by (induction us arbitrary: p) auto

lemma linked_cong:
  "\<forall>y \<in> set (p # map addr xs). hptr m' y = hptr m y \<and> hsize m' y = hsize m y \<Longrightarrow> linked m' p xs e = linked m p xs e"
  by (induction xs arbitrary: p) auto

lemma spaced_append: "spaced l (us @ vs) hi \<longleftrightarrow> (\<exists>k. spaced l us k \<and> spaced k vs hi)"
proof (induction us arbitrary: l)
  case Nil
  have "spaced k vs hi \<Longrightarrow> l \<le> k \<Longrightarrow> spaced l vs hi" for k by (cases vs) auto
  then show ?case by auto
qed auto

lemma spaced_le: "spaced l xs hi \<Longrightarrow> l \<le> hi"
proof (induction xs arbitrary: l)
  case (Cons x xs)
  then have "stop x \<le> hi" by simp
  then show ?case using Cons.prems by (simp add: stop_def)
qed simp

lemma spaced_mem:
  "spaced l xs hi \<Longrightarrow> x \<in> set xs \<Longrightarrow> l < fst x \<and> 0 < snd x \<and> fst x + 16 \<le> stop x \<and> stop x \<le> hi"
proof (induction xs arbitrary: l)
  case (Cons y xs)
  then show ?case using spaced_le [of "stop y" xs hi] by (fastforce simp: stop_def)
qed simp

lemma spaced_mono: "spaced l xs hi \<Longrightarrow> l' \<le> l \<Longrightarrow> hi \<le> hi' \<Longrightarrow> spaced l' xs hi'"
  by (induction xs arbitrary: l l') auto

lemma spaced_before: "spaced l (us @ x # vs) hi \<Longrightarrow> u \<in> set us \<Longrightarrow> stop u < fst x"
  by (auto simp: spaced_append dest: spaced_mem spaced_le)

lemma spaced_after: "spaced l (us @ x # vs) hi \<Longrightarrow> v \<in> set vs \<Longrightarrow> stop x < fst v"
  by (auto simp: spaced_append dest: spaced_mem)

lemma unat_addr: "fst x \<le> 2 ^ 36 \<Longrightarrow> unat (addr x) = fst x"
  by (simp add: unat_of_nat_lt)

lemma unat_units: "n < 2 ^ 32 \<Longrightarrow> unat (of_nat n :: u32) = n"
  by (simp add: unat_of_nat_lt)

lemma unat_ucast_of_units: "unat (v :: u32) = n \<Longrightarrow> ucast v = (of_nat n :: u64)"
  by auto

lemma after_hdr_addr: "stop x \<le> 2 ^ 36 \<Longrightarrow> 0 < fst x \<Longrightarrow> after_hdr (addr x) (of_nat (snd x)) = of_nat (stop x)"
proof -
  assume "stop x \<le> 2 ^ 36" "0 < fst x"
  then have "unat (of_nat (snd x) :: u32) = snd x" by (intro unat_units) (simp add: stop_def)
  then have "ucast (of_nat (snd x) :: u32) = (of_nat (snd x) :: u64)" by (metis unat_ucast_of_units)
  then show ?thesis by (simp add: after_hdr_def stop_def)
qed

lemma free_bytes_simps [simp]:
  "free_bytes [] = {}" "free_bytes (x # xs) = {fst x..<stop x} \<union> free_bytes xs"
  "free_bytes (xs @ ys) = free_bytes xs \<union> free_bytes ys"
  by (simp_all add: free_bytes_def)

subsection \<open>The search of free\<close>

lemma find_low:
  assumes "linked m p us e" and "spaced l us hi" and "unat p \<le> l" and "hi \<le> unat bp" and "hi \<le> 2 ^ 36"
  shows "free_find m bp p = free_find m bp (last_addr p us)"
  using assms
proof (induction us arbitrary: p l)
  case (Cons x us)
  have x: "unat (addr x) = fst x" "l < fst x" "fst x < unat bp"
    using Cons.prems(2,4,5) spaced_le [of "stop x" us hi] by (auto simp: stop_def unat_addr)
  then have "\<not> bp < hptr m p" "\<not> p \<ge> hptr m p" using Cons.prems(1,3) by (auto simp: word_less_nat_alt word_le_nat_alt)
  then have "free_find m bp p = free_find m bp (addr x)" using Cons.prems(1) by (subst free_find.simps) simp
  then show ?case using Cons.IH [of "addr x" "stop x"] Cons.prems x by (simp add: stop_def)
qed simp

lemma find_high:
  assumes "linked m p us base" and "spaced l us hi" and "unat p \<le> l" and "unat bp < unat p" and "unat base < unat bp" and "hi \<le> 2 ^ 36"
  shows "free_find m bp p = free_find m bp base"
  using assms
proof (induction us arbitrary: p l)
  case Nil
  then show ?case by (subst free_find.simps) (auto simp: word_less_nat_alt word_le_nat_alt)
next
  case (Cons x us)
  have x: "unat (addr x) = fst x" "l < fst x"
    using Cons.prems(2,6) spaced_le [of "stop x" us hi] by (auto simp: stop_def unat_addr)
  have "free_find m bp p = free_find m bp (addr x)"
    using Cons.prems x by (subst free_find.simps) (auto simp: word_less_nat_alt word_le_nat_alt)
  then show ?case using Cons.IH [of "addr x" "stop x"] Cons.prems x by (simp add: stop_def)
qed

text \<open>Wherever it starts, the search ends at the last block below the one to be freed.\<close>

lemma free_find_ok:
  assumes "heap_ok base h (us @ vs)" and "spaced (unat base + 15) us (unat bp)" and "spaced (unat bp) vs hi" and "hi \<le> 2 ^ 36"
    and "unat base + 16 \<le> unat bp"
  shows "free_find (um h) bp (freep h) = Some (last_addr base us)"
proof -
  let ?m = "um h" and ?p = "last_addr base us"
  have l: "linked ?m base (us @ vs) base" and f: "freep h \<in> set (base # map addr (us @ vs))" using assms(1) by (auto simp: heap_ok_def)
  obtain e where e: "linked ?m base us e" "e = (case vs of [] \<Rightarrow> base | v # _ \<Rightarrow> addr v)"
    using l by (cases vs) (auto simp: linked_append)
  have bp: "unat bp \<le> 2 ^ 36" using assms(3,4) spaced_le by fastforce
  have pl: "unat ?p < unat bp"
  proof (cases us rule: rev_cases)
    case (snoc us' x)
    then have "x \<in> set us" by simp
    then show ?thesis using spaced_mem [OF assms(2)] bp snoc by (fastforce simp: unat_addr stop_def)
  qed (use assms(5) in simp)
  have pb: "unat base \<le> unat ?p"
  proof (cases us rule: rev_cases)
    case (snoc us' x)
    then have "x \<in> set us" by simp
    then show ?thesis using spaced_mem [OF assms(2)] bp snoc by (fastforce simp: unat_addr stop_def)
  qed simp
  have "free_find ?m bp ?p = Some ?p"
  proof (cases vs)
    case Nil
    then show ?thesis using linked_last [OF e(1)] e(2) pl pb by (subst free_find.simps) (simp add: word_less_nat_alt word_le_nat_alt)
  next
    case (Cons v vs')
    then have "unat bp < unat (addr v)" using spaced_mem [OF assms(3), of v] assms(4) by (simp add: unat_addr stop_def)
    then show ?thesis using linked_last [OF e(1)] e(2) pl Cons by (subst free_find.simps) (simp add: word_less_nat_alt)
  qed
  moreover have "free_find ?m bp base = free_find ?m bp ?p" using find_low [OF e(1) assms(2)] bp by simp
  moreover have "free_find ?m bp (freep h) = free_find ?m bp ?p"
  proof -
    consider "freep h = base" | u where "u \<in> set us" "freep h = addr u" | v where "v \<in> set vs" "freep h = addr v" using f by auto
    then show ?thesis
    proof cases
      case 1
      then show ?thesis using find_low [OF e(1) assms(2)] bp by simp
    next
      case 2
      then obtain a b where us: "us = a @ u # b" by (meson split_list)
      have "linked ?m (addr u) b e" "spaced (stop u) b (unat bp)" using e(1) assms(2) us by (auto simp: linked_append spaced_append)
      then show ?thesis using find_low [of ?m "addr u" b e "stop u" "unat bp" bp] bp 2 us spaced_mem [OF assms(2) 2(1)]
        by (simp add: last_addr_def unat_addr stop_def)
    next
      case 3
      then obtain a b where vs: "vs = a @ v # b" by (meson split_list)
      have v: "unat (addr v) = fst v" "unat bp < fst v" using spaced_mem [OF assms(3) 3(1)] assms(4) by (simp_all add: unat_addr stop_def)
      have "linked ?m (addr v) b base" "spaced (stop v) b hi" using l assms(3) vs by (auto simp: linked_append spaced_append append_assoc [symmetric] simp del: append_assoc)
      then have "free_find ?m bp (addr v) = free_find ?m bp base"
        using find_high [of ?m "addr v" b base "stop v" hi bp] v assms(4,5) by (simp add: stop_def)
      then show ?thesis using 3 find_low [OF e(1) assms(2)] bp by simp
    qed
  qed
  ultimately show ?thesis by simp
qed

subsection \<open>Joining neighbours\<close>

definition join_next :: "mem \<Rightarrow> u64 \<Rightarrow> u64 \<Rightarrow> mem" where
  "join_next m bp p =
     (if after_hdr bp (hsize m bp) = hptr m p
      then let m = set_hsize m bp (hsize m bp + hsize m (hptr m p)) in set_hptr m bp (hptr m (hptr m p))
      else set_hptr m bp (hptr m p))"

definition join_prev :: "mem \<Rightarrow> u64 \<Rightarrow> u64 \<Rightarrow> mem" where
  "join_prev m bp p =
     (if after_hdr p (hsize m p) = bp
      then let m = set_hsize m p (hsize m p + hsize m bp) in set_hptr m p (hptr m bp)
      else set_hptr m p bp)"

lemma free_link_joins: "free_link m bp p = join_prev (join_next m bp p) bp p"
  by (simp add: free_link_def join_next_def join_prev_def Let_def)

lemma of_nat_inj: "i \<le> 2 ^ 36 \<Longrightarrow> j \<le> 2 ^ 36 \<Longrightarrow> (of_nat i :: u64) = of_nat j \<longleftrightarrow> i = j"
  by (metis unat_addr fst_conv)

lemma hdr_ok_addr: "fst x \<le> 2 ^ 36 \<Longrightarrow> hdr_ok (addr x)"
  by (simp add: hdr_ok_def unat_addr)

lemma apart_addr: "fst x \<le> 2 ^ 36 \<Longrightarrow> fst y \<le> 2 ^ 36 \<Longrightarrow> fst x + 16 \<le> fst y \<or> fst y + 16 \<le> fst x \<Longrightarrow> apart (addr x) (addr y)"
  by (simp add: apart_def hdr_ok_addr unat_addr)

lemma join_next_ok:
  assumes "linked m p vs base" and "hsize m (addr x) = of_nat (snd x)" and "spaced (stop x - 1) vs hi" and "stop x \<le> hi"
    and "hi \<le> 2 ^ 36" and "0 < snd x" and "unat base < fst x" and "apart (addr x) p"
  obtains y ws where "fst y = fst x" "snd x \<le> snd y" "linked (join_next m (addr x) p) (addr x) ws base"
    "hsize (join_next m (addr x) p) (addr x) = of_nat (snd y)" "spaced (stop y) ws hi"
    "free_bytes (y # ws) = free_bytes (x # vs)" "keeps_outside {fst x..<fst x + 16} m (join_next m (addr x) p)"
    "\<And>a. apart (addr x) a \<Longrightarrow> hptr (join_next m (addr x) p) a = hptr m a \<and> hsize (join_next m (addr x) p) a = hsize m a"
proof -
  let ?m = "join_next m (addr x) p"
  have x: "fst x + 16 \<le> stop x" "fst x \<le> 2 ^ 36" "unat (addr x) = fst x" "hdr_ok (addr x)"
    using assms(4,5,6) by (auto simp: stop_def unat_addr hdr_ok_addr)
  have af: "after_hdr (addr x) (hsize m (addr x)) = of_nat (stop x)" using assms(2,4,5,7) by (simp add: after_hdr_addr)
  have other: "hptr ?m a = hptr m a \<and> hsize ?m a = hsize m a" if "apart (addr x) a" for a
    using that x(4) by (simp add: join_next_def Let_def hdr_other hptr_set_hsize hsize_set_hptr)
  have keep: "keeps_outside {fst x..<fst x + 16} m ?m"
    using x by (auto simp: join_next_def Let_def intro!: set_hptr_keeps set_both_keeps)
  have ap: "apart (addr x) (addr v)" if "v \<in> set vs" for v
    using spaced_mem [OF assms(3) that] x(1,2) assms(5) by (intro apart_addr) auto
  have frame: "hptr ?m (addr v) = hptr m (addr v)" "hsize ?m (addr v) = hsize m (addr v)" if "v \<in> set vs" for v
    using other [OF ap [OF that]] by blast+
  show ?thesis
  proof (cases "\<exists>v vs'. vs = v # vs' \<and> fst v = stop x")
    case True
    then obtain v vs' where v: "vs = v # vs'" "fst v = stop x" by blast
    have e: "after_hdr (addr x) (hsize m (addr x)) = hptr m p" using af assms(1) v by simp
    have p': "linked ?m (addr v) vs' base = linked m (addr v) vs' base" by (rule linked_cong) (simp add: v(1) frame)
    have pp: "hptr (set_hsize m (addr x) n) p = hptr m p" for n using assms(8) x(4) by (simp add: hptr_set_hsize)
    have "hptr ?m (addr x) = hptr m (addr v)"
      using e assms(1) v ap [of v] x(4) by (simp add: join_next_def Let_def pp hptr_set_hsize)
    then have l: "linked ?m (addr x) vs' base" using p' assms(1) v frame(1) [of v] by (cases vs') auto
    have "hsize ?m (addr x) = of_nat (snd x + snd v)"
      using e assms(1,2) v x(4) by (simp add: join_next_def Let_def hsize_set_hptr)
    moreover have "spaced (stop (fst x, snd x + snd v)) vs' hi" using assms(3) v by (simp add: stop_def algebra_simps)
    moreover have "free_bytes ((fst x, snd x + snd v) # vs') = free_bytes (x # vs)" using v by (auto simp: stop_def)
    ultimately show ?thesis using that [of "(fst x, snd x + snd v)" vs'] l keep other by simp
  next
    case False
    have ne: "of_nat (stop x) \<noteq> hptr m p"
    proof (cases vs)
      case Nil
      have "unat (of_nat (stop x) :: u64) = stop x" using assms(4,5) unat_addr [of "(stop x, 0)"] by simp
      then show ?thesis using Nil assms(1,7) x(1) by auto
    next
      case (Cons v vs')
      then show ?thesis using False assms(1,4,5) spaced_mem [OF assms(3), of v] of_nat_inj [of "stop x" "fst v"] by auto
    qed
    then have e: "?m = set_hptr m (addr x) (hptr m p)" using af by (simp add: join_next_def)
    have l: "linked ?m (addr x) vs base"
    proof (cases vs)
      case Nil
      then show ?thesis using assms(1) by (simp add: e)
    next
      case (Cons v vs')
      have "linked ?m (addr v) vs' base = linked m (addr v) vs' base" by (rule linked_cong) (simp add: Cons frame)
      then show ?thesis using assms(1) Cons frame(2) [of v] by (simp add: e)
    qed
    have "spaced (stop x) vs hi"
    proof (cases vs)
      case (Cons v vs')
      then have "stop x < fst v" using assms(3) False by force
      then show ?thesis using assms(3) Cons by simp
    qed (use assms(4) in simp)
    then show ?thesis using that [of x vs] l keep other e assms(2) x(4) by (simp add: hsize_set_hptr)
  qed
qed

lemma join_prev_other:
  assumes "hdr_ok p" and "apart p a"
  shows "hptr (join_prev m bp p) a = hptr m a" and "hsize (join_prev m bp p) a = hsize m a"
  using assms by (simp_all add: join_prev_def Let_def hdr_other hptr_set_hsize hsize_set_hptr)

lemma join_prev_keeps: "hdr_ok p \<Longrightarrow> keeps_outside {unat p..<unat p + 16} m (join_prev m bp p)"
  by (auto simp: join_prev_def Let_def intro!: set_hptr_keeps set_both_keeps)

lemma join_prev_linked:
  assumes "linked m q xs e" and "hdr_ok p" and "apart p q" and "\<And>x. x \<in> set xs \<Longrightarrow> apart p (addr x)"
  shows "linked (join_prev m bp p) q xs e"
proof -
  have "linked (join_prev m bp p) q xs e = linked m q xs e"
    using join_prev_other [OF assms(2,3)] join_prev_other [OF assms(2) assms(4)] by (intro linked_cong) simp
  then show ?thesis using assms(1) by simp
qed

lemma linked_from: "linked m p ws e \<Longrightarrow> hptr m' q = hptr m p \<Longrightarrow>
    (\<And>w. w \<in> set ws \<Longrightarrow> hptr m' (addr w) = hptr m (addr w) \<and> hsize m' (addr w) = hsize m (addr w)) \<Longrightarrow> linked m' q ws e"
  by (induction ws arbitrary: p q) auto

lemma join_prev_ok:
  assumes "linked m base us e" and "hsize m base = 0" and "linked m (addr y) ws base" and "hsize m (addr y) = of_nat (snd y)"
    and "spaced (unat base + 15) us (fst y)" and "spaced (stop y) ws hi" and "hi \<le> 2 ^ 36" and "0 < snd y" and "unat base + 16 \<le> fst y"
  obtains zs where "linked (join_prev m (addr y) (last_addr base us)) base zs base" "spaced (unat base + 15) zs hi"
    "hsize (join_prev m (addr y) (last_addr base us)) base = 0" "free_bytes zs = free_bytes us \<union> free_bytes (y # ws)"
    "last_addr base us \<in> set (base # map addr zs)"
proof (cases us rule: rev_cases)
  case Nil
  let ?m = "join_prev m (addr y) base"
  have y: "fst y + 16 \<le> stop y" "stop y \<le> hi" using assms(8) spaced_le [OF assms(6)] by (auto simp: stop_def)
  have b: "hdr_ok base" "unat base < 2 ^ 36" using assms(7,9) y by (auto simp: hdr_ok_def)
  have ay: "apart base (addr y)" using assms(7,9) y b(1) by (auto simp: apart_def hdr_ok_addr unat_addr)
  have aw: "apart base (addr w)" if "w \<in> set ws" for w
    using spaced_mem [OF assms(6) that] assms(7,9) y b(1) by (auto simp: apart_def hdr_ok_addr unat_addr)
  have "base \<noteq> addr y" using ay by (auto simp: apart_def)
  then have e: "?m = set_hptr m base (addr y)" using assms(2) by (simp add: join_prev_def after_hdr_def)
  have "linked ?m (addr y) ws base" by (rule join_prev_linked [OF assms(3) b(1) ay aw])
  moreover have "hsize ?m (addr y) = of_nat (snd y)" using join_prev_other(2) [OF b(1) ay] assms(4) by simp
  moreover have "hptr ?m base = addr y" by (simp add: e)
  ultimately have "linked ?m base (y # ws) base" by simp
  moreover have "hsize ?m base = 0" using assms(2) b(1) by (simp add: e hsize_set_hptr)
  moreover have "spaced (unat base + 15) (y # ws) hi" using assms(6,8,9) by simp
  ultimately show ?thesis using that [of "y # ws"] Nil by simp
next
  case (snoc us' u)
  let ?p = "addr u" let ?m = "join_prev m (addr y) ?p"
  have y: "fst y + 16 \<le> stop y" "stop y \<le> hi" using assms(8) spaced_le [OF assms(6)] by (auto simp: stop_def)
  obtain k where k: "spaced (unat base + 15) us' k" "k < fst u" "0 < snd u" "stop u \<le> fst y" using assms(5) snoc by (auto simp: spaced_append)
  have bu: "unat base + 16 \<le> fst u" using k(1,2) spaced_le by fastforce
  have u: "fst u + 16 \<le> stop u" "fst u \<le> 2 ^ 36" "unat ?p = fst u" "hdr_ok ?p"
    using k y assms(7) by (auto simp: stop_def unat_addr hdr_ok_addr)
  have l: "linked m base us' ?p" "hsize m ?p = of_nat (snd u)" "hptr m ?p = e" using assms(1) snoc by (auto simp: linked_append)
  have au: "apart ?p (addr v)" if "v \<in> set us'" for v
    using spaced_mem [OF k(1) that] k(2) u by (intro apart_addr) (auto simp: stop_def)
  have ab: "apart ?p base" using bu u by (auto simp: apart_def hdr_ok_def)
  have ay: "apart ?p (addr y)" using k(4) y u assms(7) by (intro apart_addr) auto
  have aw: "apart ?p (addr w)" if "w \<in> set ws" for w
    using spaced_mem [OF assms(6) that] k(4) y u assms(7) by (intro apart_addr) (auto simp: stop_def)
  have low: "linked ?m base us' ?p" by (rule join_prev_linked [OF l(1) u(4) ab au])
  have zero: "hsize ?m base = 0" using join_prev_other(2) [OF u(4) ab] assms(2) by simp
  have af: "after_hdr ?p (hsize m ?p) = of_nat (stop u)" using l(2) k(2,4) y assms(7) by (simp add: after_hdr_addr)
  show ?thesis
  proof (cases "stop u = fst y")
    case True
    let ?z = "(fst u, snd u + snd y)"
    have e: "?m = set_hptr (set_hsize m ?p (hsize m ?p + hsize m (addr y))) ?p (hptr (set_hsize m ?p (hsize m ?p + hsize m (addr y))) (addr y))"
      using af True by (simp add: join_prev_def Let_def)
    then have p: "hptr ?m ?p = hptr m (addr y)" "hsize ?m ?p = of_nat (snd u + snd y)"
      using u(4) ay l(2) assms(4) by (simp_all add: hptr_set_hsize hsize_set_hptr)
    have "linked ?m ?p ws base" using linked_from [OF assms(3) p(1)] join_prev_other [OF u(4) aw] by blast
    then have "linked ?m base (us' @ ?z # ws) base" using low p(2) by (simp add: linked_append)
    moreover have sz: "stop ?z = stop y" using True by (simp add: stop_def)
    moreover have "spaced (unat base + 15) (us' @ ?z # ws) hi"
      unfolding spaced_append using k(1-3) assms(6,8) sz by (intro exI [of _ k]) simp
    moreover have "{fst u..<stop y} = {fst u..<stop u} \<union> {fst y..<stop y}"
      using True u(1) y(1) by (simp add: ivl_disj_un_two(3))
    then have "free_bytes (us' @ ?z # ws) = free_bytes us \<union> free_bytes (y # ws)" using sz snoc by auto
    ultimately show ?thesis using that [of "us' @ ?z # ws"] zero snoc by simp
  next
    case False
    then have "after_hdr ?p (hsize m ?p) \<noteq> addr y" using af k(4) y assms(7) of_nat_inj [of "stop u" "fst y"] by simp
    then have e: "?m = set_hptr m ?p (addr y)" by (simp add: join_prev_def)
    have "linked ?m (addr y) ws base" by (rule join_prev_linked [OF assms(3) u(4) ay aw])
    moreover have "hsize ?m (addr y) = of_nat (snd y)" using join_prev_other(2) [OF u(4) ay] assms(4) by simp
    moreover have "hptr ?m ?p = addr y" "hsize ?m ?p = of_nat (snd u)" using l(2) u(4) by (simp_all add: e hsize_set_hptr)
    ultimately have "linked ?m base (us' @ u # y # ws) base" using low by (simp add: linked_append)
    moreover have "spaced (unat base + 15) (us' @ u # y # ws) hi" using k assms(6,8) False by (auto simp: spaced_append)
    ultimately show ?thesis using that [of "us' @ u # y # ws"] zero snoc by auto
  qed
qed

subsection \<open>Freeing\<close>

lemma split_free:
  assumes "spaced l xs hi" and "{b..<b + 16 * n} \<inter> free_bytes xs = {}" and "0 < n" and "l \<le> b" and "b + 16 * n \<le> hi"
  shows "\<exists>us vs. xs = us @ vs \<and> spaced l us b \<and> spaced (b + 16 * n - 1) vs hi"
  using assms
proof (induction xs arbitrary: l)
  case Nil
  then show ?case by simp
next
  case (Cons x xs)
  have "stop x \<le> b \<or> b + 16 * n \<le> fst x"
  proof (rule ccontr)
    assume "\<not> (stop x \<le> b \<or> b + 16 * n \<le> fst x)"
    then have "max b (fst x) \<in> {b..<b + 16 * n} \<inter> free_bytes (x # xs)" using Cons.prems(1,3) by (simp add: stop_def)
    then show False by (simp only: Cons.prems(2) empty_iff)
  qed
  then show ?case
  proof
    assume le: "stop x \<le> b"
    then obtain us vs where "xs = us @ vs" "spaced (stop x) us b" "spaced (b + 16 * n - 1) vs hi"
      using Cons.IH [of "stop x"] Cons.prems by auto
    then show ?thesis using Cons.prems(1) by (intro exI [of _ "x # us"] exI [of _ vs]) simp
  next
    assume "b + 16 * n \<le> fst x"
    then show ?thesis using Cons.prems by (intro exI [of _ "[]"] exI [of _ "x # xs"]) auto
  qed
qed

definition owned :: "u64 \<Rightarrow> uheap \<Rightarrow> block list \<Rightarrow> block \<Rightarrow> bool" where
  "owned base h xs x \<longleftrightarrow> hsize (um h) (addr x) = of_nat (snd x) \<and> 0 < snd x \<and> unat base + 16 \<le> fst x \<and>
     stop x \<le> unat (brk h) \<and> {fst x..<stop x} \<inter> free_bytes xs = {}"

lemma free_u_ok:
  assumes "heap_ok base h xs" and "owned base h xs x"
  obtains h' zs where "free_u (addr x + 16) h = Some h'" "heap_ok base h' zs" "brk h' = brk h"
    "free_bytes zs = free_bytes xs \<union> {fst x..<stop x}"
    "keeps_outside (free_bytes zs \<union> {unat base..<unat base + 16}) (um h) (um h')"
proof -
  have inv: "unat (brk h) \<le> 2 ^ 36" "hsize (um h) base = 0" "linked (um h) base xs base" "spaced (unat base + 15) xs (unat (brk h))"
    using assms(1) by (auto simp: heap_ok_def)
  have ow: "hsize (um h) (addr x) = of_nat (snd x)" "0 < snd x" "unat base + 16 \<le> fst x" "stop x \<le> unat (brk h)"
    "{fst x..<fst x + 16 * snd x} \<inter> free_bytes xs = {}" using assms(2) by (auto simp: owned_def stop_def)
  have x: "fst x + 16 \<le> stop x" "fst x \<le> 2 ^ 36" "unat (addr x) = fst x" "hdr_ok (addr x)"
    using ow(2,4) inv(1) by (auto simp: stop_def unat_addr hdr_ok_addr)
  obtain us vs where xs: "xs = us @ vs" "spaced (unat base + 15) us (fst x)" "spaced (stop x - 1) vs (unat (brk h))"
    using split_free [OF inv(4) ow(5,2)] ow(3,4) unfolding stop_def by auto
  have vs: "spaced (fst x) vs (unat (brk h))" using spaced_mono [OF xs(3), of "fst x"] x(1) by simp
  let ?p = "last_addr base us"
  have find: "free_find (um h) (addr x) (freep h) = Some ?p"
    using free_find_ok [of base h us vs "addr x" "unat (brk h)"] assms(1) xs(1,2) vs inv(1) ow(3) x(3) by simp
  obtain e where e: "linked (um h) base us e" "linked (um h) ?p vs base"
    using inv(3) xs(1) by (induction us arbitrary: base rule: rev_induct) (auto simp: linked_append)
  have ap: "apart (addr x) a" if ain: "a \<in> set (base # map addr us)" for a
  proof -
    consider "a = base" | u where "u \<in> set us" "a = addr u" using ain by auto
    then show ?thesis
    proof cases
      case 1
      then show ?thesis using ow(3) x by (auto simp: apart_def hdr_ok_def)
    next
      case 2
      then show ?thesis using spaced_mem [OF xs(2) 2(1)] x(2) by (simp add: apart_addr)
    qed
  qed
  have pin: "?p \<in> set (base # map addr us)" unfolding last_addr_def by (rule last_in_set) simp
  have bx: "unat base < fst x" using ow(3) by simp
  define m1 where "m1 = join_next (um h) (addr x) ?p"
  obtain y ws where y: "fst y = fst x" "snd x \<le> snd y" "linked m1 (addr x) ws base" "hsize m1 (addr x) = of_nat (snd y)"
      "spaced (stop y) ws (unat (brk h))" "free_bytes (y # ws) = free_bytes (x # vs)" "keeps_outside {fst x..<fst x + 16} (um h) m1"
    and other: "\<And>a. apart (addr x) a \<Longrightarrow> hptr m1 a = hptr (um h) a \<and> hsize m1 a = hsize (um h) a"
    using join_next_ok [OF e(2) ow(1) xs(3) ow(4) inv(1) ow(2) _ ap [OF pin]] bx unfolding m1_def by metis
  have a: "addr y = addr x" using y(1) by simp
  have l1: "linked m1 base us e" using linked_cong [of base us m1 "um h" e] e(1) other [OF ap] by simp
  have z1: "hsize m1 base = 0" using other [OF ap, of base] inv(2) by simp
  have y': "linked m1 (addr y) ws base" "hsize m1 (addr y) = of_nat (snd y)" "spaced (unat base + 15) us (fst y)"
    "0 < snd y" "unat base + 16 \<le> fst y" using y(1-4) ow(2,3) xs(2) by simp_all
  obtain zs where zs: "linked (join_prev m1 (addr x) ?p) base zs base" "spaced (unat base + 15) zs (unat (brk h))"
      "hsize (join_prev m1 (addr x) ?p) base = 0" "free_bytes zs = free_bytes us \<union> free_bytes (y # ws)" "?p \<in> set (base # map addr zs)"
    by (rule join_prev_ok [OF l1 z1 y'(1-3) y(5) inv(1) y'(4,5), unfolded a])
  have fb: "free_bytes zs = free_bytes xs \<union> {fst x..<stop x}" using zs(4) y(6) xs(1) by auto
  let ?A = "free_bytes zs \<union> {unat base..<unat base + 16}"
  have hp: "hdr_ok ?p" using ap [OF pin] by (simp add: apart_def)
  have "{unat ?p..<unat ?p + 16} \<subseteq> ?A"
  proof (cases us rule: rev_cases)
    case (snoc us' u)
    then have u: "u \<in> set us" "?p = addr u" by auto
    then have "unat ?p = fst u" "fst u + 16 \<le> stop u" using spaced_mem [OF xs(2) u(1)] x(2) by (auto simp: unat_addr)
    moreover have "{fst u..<stop u} \<subseteq> free_bytes us" using u(1) by (auto simp: free_bytes_def)
    ultimately show ?thesis using zs(4) by fastforce
  qed simp
  then have "keeps_outside ?A m1 (join_prev m1 (addr x) ?p)" using keeps_outside_mono [OF join_prev_keeps [OF hp]] by blast
  moreover have "keeps_outside ?A (um h) m1" by (rule keeps_outside_mono [OF y(7)]) (use fb x(1) in auto)
  ultimately have k: "keeps_outside ?A (um h) (free_link (um h) (addr x) ?p)"
    unfolding free_link_joins m1_def [symmetric] by (rule keeps_outside_trans [rotated])
  let ?h = "h\<lparr>um := free_link (um h) (addr x) ?p, freep := ?p\<rparr>"
  have "heap_ok base ?h zs"
    using zs(1,2,3,5) assms(1) unfolding heap_ok_def free_link_joins by (simp add: m1_def [symmetric])
  moreover have "free_u (addr x + 16) h = Some ?h" by (simp add: free_u_def find)
  ultimately show ?thesis using that [of ?h zs] fb k by simp
qed

end
