(* ===== verification/Xv6_Malloc.thy ===== *)
theory Xv6_Malloc
  imports Xv6_Umalloc
begin

text \<open>
  The correctness of \<^verbatim>\<open>malloc\<close> of \<^verbatim>\<open>user/umalloc.c\<close>: the walk around the circular free list ends, the block
  it takes leaves exactly the rest of the free bytes on the list, and when no block is large enough the
  memory that \<^verbatim>\<open>sbrk\<close> grants is joined to the list first.
\<close>

section \<open>The circle\<close>

abbreviation base_node :: "u64 \<Rightarrow> block" where
  "base_node base \<equiv> (unat base, 0)"

lemma heap_okD:
  assumes "heap_ok base h xs"
  shows "base \<noteq> 0" "unat base + 16 \<le> unat (brk h)" "unat (brk h) \<le> 2 ^ 36" "hsize (um h) base = 0" "linked (um h) base xs base"
    "spaced (unat base + 15) xs (unat (brk h))" "freep h \<in> set (base # map addr xs)"
  using assms by (simp_all add: heap_ok_def)

lemma block_le: "heap_ok base h xs \<Longrightarrow> x \<in> set xs \<Longrightarrow> unat base + 16 \<le> fst x \<and> 0 < snd x \<and> fst x + 16 \<le> stop x \<and> stop x \<le> 2 ^ 36 \<and> snd x < 2 ^ 32 \<and> unat (addr x) = fst x"
  using spaced_mem [OF heap_okD(6), of base h xs x] heap_okD(3) [of base h xs] by (auto simp: stop_def unat_addr)

lemma spaced_distinct: "spaced l xs hi \<Longrightarrow> distinct (map fst xs)"
proof (induction xs arbitrary: l)
  case (Cons x xs)
  have "fst x \<noteq> fst y" if "y \<in> set xs" for y using spaced_mem [of "stop x" xs hi y] Cons.prems that by (auto simp: stop_def)
  then show ?case using Cons by (auto simp: image_iff)
qed simp

lemma distinct_addrs:
  assumes "heap_ok base h xs"
  shows "distinct (base # map addr xs)"
proof -
  have m: "map unat (map addr xs) = map fst xs" using block_le [OF assms] by simp
  have "distinct (map unat (map addr xs))" unfolding m by (rule spaced_distinct [OF heap_okD(6) [OF assms]])
  then have "distinct (map addr xs)" by (simp only: distinct_map)
  moreover have "base \<notin> addr ` set xs"
  proof
    assume "base \<in> addr ` set xs"
    then obtain x where "x \<in> set xs" "base = addr x" by (rule imageE)
    then have "unat base + 16 \<le> unat base" using block_le [OF assms, of x] by metis
    then show False by simp
  qed
  ultimately show ?thesis by simp
qed

lemma circle:
  assumes "linked m base xs base" and "hsize m base = 0" and "base_node base # xs = A @ c # B"
  shows "linked m (addr c) (B @ A @ [c]) (hptr m (addr c))"
proof (cases A)
  case Nil
  then show ?thesis using assms by (auto simp: linked_append)
next
  case (Cons a A')
  then show ?thesis using assms by (auto simp: linked_append)
qed

lemma loop_walk:
  assumes "linked (um h) q (us @ x # vs) e" and "\<And>u. u \<in> set us \<Longrightarrow> \<not> nunits \<le> of_nat (snd u) \<and> addr u \<noteq> freep h"
  shows "malloc_loop g nunits q (hptr (um h) q) h = malloc_loop g nunits (last_addr q us) (addr x) h"
  using assms
proof (induction us arbitrary: q)
  case (Cons u us)
  have "malloc_loop g nunits q (addr u) h = malloc_loop g nunits (addr u) (hptr (um h) (addr u)) h"
    using Cons.prems(1) Cons.prems(2) [of u] by (subst malloc_loop.simps) simp
  then show ?case using Cons.IH [of "addr u"] Cons.prems by simp
qed simp

lemma same_split: "distinct (map f (a @ x # b)) \<Longrightarrow> a @ x # b = a' @ x' # b' \<Longrightarrow> f x = f x' \<Longrightarrow> a = a'"
proof (induction a arbitrary: a')
  case Nil
  then show ?case by (cases a') auto
next
  case (Cons y a)
  show ?case
  proof (cases a')
    case Nil
    then show ?thesis using Cons.prems by auto
  next
    case (Cons z as)
    then have e: "y = z \<and> a @ x # b = as @ x' # b'" using Cons.prems(2) by simp
    have "distinct (map f (a @ x # b))" using Cons.prems(1) by simp
    then have "a = as" using Cons.IH [OF _ conjunct2 [OF e] Cons.prems(3)] by blast
    then show ?thesis using Cons e by simp
  qed
qed

lemma pred_unique:
  assumes "heap_ok base h (U @ x # V)" and "p \<in> set (base # map addr (U @ x # V))" and "hptr (um h) p = addr x"
  shows "p = last_addr base U"
proof -
  have d: "distinct (base # map addr (U @ x # V))" using distinct_addrs [OF assms(1)] .
  have l: "linked (um h) base (U @ x # V) base" using heap_okD(5) [OF assms(1)] .
  consider "p = base" | y where "y \<in> set (U @ x # V)" "p = addr y" using assms(2) unfolding list.set(2) list.set_map by blast
  then show ?thesis
  proof cases
    case 1
    show ?thesis
    proof (cases U)
      case (Cons u U')
      then have "addr u = addr x" using l assms(3) 1 by simp
      then show ?thesis using d Cons by simp
    qed (simp add: 1)
  next
    case 2
    then obtain S T where st: "U @ x # V = S @ y # T" by (meson split_list)
    then have lt: "linked (um h) (addr y) T base" using l linked_append by metis
    show ?thesis
    proof (cases T)
      case Nil
      then have "addr x = base" using lt assms(3) 2 by simp
      then show ?thesis using d by auto
    next
      case (Cons t T')
      then have "addr t = addr x" using lt assms(3) 2 by simp
      moreover have "distinct (map addr (U @ x # V))" using d by (simp only: list.simps distinct.simps)
      moreover have "U @ x # V = (S @ [y]) @ t # T'" using st Cons by simp
      ultimately have "U = S @ [y]" by (intro same_split [of addr U x V "S @ [y]" t T']) (simp_all only:)
      then show ?thesis using 2 by simp
    qed
  qed
qed

section \<open>Taking a block\<close>

lemma relink:
  assumes "linked m p U e0" and "hdr_ok (last_addr p U)" and "\<And>a. a \<in> set (butlast (p # map addr U)) \<Longrightarrow> apart (last_addr p U) a"
  shows "linked (set_hptr m (last_addr p U) e) p U e"
proof (cases U rule: rev_cases)
  case (snoc U' u)
  have b: "butlast (p # map addr U) = p # map addr U'" using snoc by (simp add: butlast_append)
  have "linked (set_hptr m (addr u) e) p U' (addr u) = linked m p U' (addr u)"
    using assms(2,3) unfolding b by (intro linked_cong) (auto simp: snoc hdr_other hsize_set_hptr)
  then show ?thesis using assms(1,2) snoc by (simp add: linked_append hsize_set_hptr)
qed simp

lemma nodes_apart:
  assumes "heap_ok base h xs" and "base_node base # xs = A @ y # B" and "z \<in> set A \<union> set B"
  shows "apart (addr y) (addr z)"
proof -
  have sp: "spaced (unat base + 15) xs (unat (brk h))" and le: "unat (brk h) \<le> 2 ^ 36" using heap_okD [OF assms(1)] by auto
  have "fst y + 16 \<le> fst z \<or> fst z + 16 \<le> fst y"
  proof (cases A)
    case Nil
    then show ?thesis using assms spaced_mem [OF sp, of z] by auto
  next
    case (Cons a A')
    then have xs: "a = base_node base" "xs = A' @ y # B" using assms(2) by auto
    then have y: "y \<in> set xs" by simp
    have sp': "spaced (unat base + 15) (A' @ y # B) (unat (brk h))" using sp xs(2) by simp
    consider "z = a" | "z \<in> set A'" | "z \<in> set B" using assms(3) Cons by auto
    then show ?thesis
    proof cases
      case 1
      then show ?thesis using xs(1) spaced_mem [OF sp y] by simp
    next
      case 2
      then show ?thesis using spaced_before [OF sp', of z] spaced_mem [OF sp, of z] xs(2) by auto
    next
      case 3
      then show ?thesis using spaced_after [OF sp', of z] spaced_mem [OF sp y] xs(2) by auto
    qed
  qed
  moreover have "fst n \<le> 2 ^ 36" if n: "n \<in> set (base_node base # xs)" for n
  proof (cases "n = base_node base")
    case True
    then show ?thesis using heap_okD(2,3) [OF assms(1)] by simp
  next
    case False
    then show ?thesis using n spaced_mem [OF sp, of n] le by auto
  qed
  ultimately show ?thesis using assms(2,3) by (intro apart_addr) auto
qed

lemma last_addr_node: "last_addr base U = addr (last (base_node base # U))"
  by (cases U rule: rev_cases) simp_all

lemma free_bytes_disjoint:
  assumes "spaced l (U @ x # V) hi"
  shows "free_bytes (U @ V) = free_bytes (U @ x # V) - {fst x..<stop x}"
proof -
  have "{fst u..<stop u} \<inter> {fst x..<stop x} = {}" if "u \<in> set (U @ V)" for u
    using that spaced_before [OF assms, of u] spaced_after [OF assms, of u] by auto
  then have "free_bytes (U @ V) \<inter> {fst x..<stop x} = {}" unfolding free_bytes_def by blast
  then show ?thesis by auto
qed

text \<open>The bytes that the list may write: the free ones and the header \<^verbatim>\<open>base\<close>.\<close>

definition list_bytes :: "u64 \<Rightarrow> block list \<Rightarrow> nat set" where
  "list_bytes base xs = free_bytes xs \<union> {unat base..<unat base + 16}"

lemma node_bytes:
  assumes "heap_ok base h xs" and "n \<in> set (base_node base # xs)"
  shows "hdr_ok (addr n)" "{unat (addr n)..<unat (addr n) + 16} \<subseteq> list_bytes base xs"
proof -
  have c: "n = base_node base \<or> n \<in> set xs" using assms(2) by simp
  show "hdr_ok (addr n)"
    using c block_le [OF assms(1), of n] heap_okD(2,3) [OF assms(1)] by (auto simp: hdr_ok_def)
  show "{unat (addr n)..<unat (addr n) + 16} \<subseteq> list_bytes base xs"
  proof (cases "n = base_node base")
    case True
    then show ?thesis by (simp add: list_bytes_def)
  next
    case False
    then have n: "n \<in> set xs" using c by simp
    have "{fst n..<stop n} \<subseteq> free_bytes xs" using n by (auto simp: free_bytes_def)
    then show ?thesis using block_le [OF assms(1) n] by (fastforce simp: list_bytes_def)
  qed
qed

lemma take_exact:
  assumes "heap_ok base h (U @ x # V)"
  defines "h' \<equiv> h\<lparr>um := set_hptr (um h) (last_addr base U) (hptr (um h) (addr x)), freep := last_addr base U\<rparr>"
  shows "heap_ok base h' (U @ V)" "owned base h' (U @ V) x"
    "keeps_outside (list_bytes base (U @ x # V)) (um h) (um h')"
proof -
  let ?p = "last_addr base U" and ?n = "last (base_node base # U)" and ?e = "hptr (um h) (addr x)"
  note ok = heap_okD [OF assms(1)]
  have sx: "base_node base # U @ x # V = butlast (base_node base # U) @ ?n # x # V"
    by (metis append.assoc append_Cons append_Nil append_butlast_last_id list.distinct(1))
  have p: "?p = addr ?n" by (rule last_addr_node)
  have ap: "apart ?p (addr z)" if "z \<in> set (butlast (base_node base # U)) \<union> set (x # V)" for z
    unfolding p by (rule nodes_apart [OF assms(1) sx that])
  have hp: "hdr_ok ?p" "{unat ?p..<unat ?p + 16} \<subseteq> list_bytes base (U @ x # V)"
    unfolding p by (intro node_bytes [OF assms(1)]; use sx in simp)+
  have l: "linked (um h) base U (addr x)" "hsize (um h) (addr x) = of_nat (snd x)" "linked (um h) (addr x) V base"
    using ok(5) by (simp_all add: linked_append)
  have "base # map addr U = map addr (base_node base # U)" by simp
  then have bl: "set (butlast (base # map addr U)) = addr ` set (butlast (base_node base # U))"
    by (simp only: map_butlast [symmetric] list.set_map)
  have "apart ?p a" if "a \<in> set (butlast (base # map addr U))" for a using that ap unfolding bl by blast
  then have U: "linked (um h') base U ?e" using relink [OF l(1) hp(1)] by (simp add: h'_def)
  have other: "hptr (um h') (addr v) = hptr (um h) (addr v) \<and> hsize (um h') (addr v) = hsize (um h) (addr v)" if v: "v \<in> set (x # V)" for v
  proof -
    have "apart ?p (addr v)" by (rule ap) (use v in blast)
    then show ?thesis using hp(1) by (simp add: h'_def hdr_other hsize_set_hptr)
  qed
  have lk: "linked (um h') base (U @ V) base"
  proof (cases V)
    case Nil
    then show ?thesis using U l(3) by simp
  next
    case (Cons v V')
    have "linked (um h') (addr v) V' base = linked (um h) (addr v) V' base" by (rule linked_cong) (simp add: Cons other)
    then show ?thesis using U l(3) Cons other [of v] by (simp add: linked_append)
  qed
  have sp: "spaced (unat base + 15) (U @ V) (unat (brk h))"
  proof -
    obtain k where "spaced (unat base + 15) U k" "k < fst x" "spaced (stop x) V (unat (brk h))" using ok(6) by (auto simp: spaced_append)
    then show ?thesis using spaced_mono [of "stop x" V "unat (brk h)" k] by (auto simp: spaced_append stop_def)
  qed
  have z: "hsize (um h') base = 0"
  proof (cases "U = []")
    case True
    then show ?thesis using ok(4) hp(1) by (simp add: h'_def hsize_set_hptr)
  next
    case False
    then show ?thesis using ap [of "base_node base"] ok(4) hp(1) by (simp add: h'_def hsize_set_hptr)
  qed
  have pin: "?p \<in> set (base # map addr U)" unfolding last_addr_def by (rule last_in_set) simp
  show "heap_ok base h' (U @ V)" using ok(1-3) lk sp z pin unfolding heap_ok_def by (auto simp: h'_def)
  show "owned base h' (U @ V) x"
    using block_le [OF assms(1), of x] spaced_mem [OF ok(6), of x] other [of x] l(2) free_bytes_disjoint [OF ok(6)]
    unfolding owned_def by (auto simp: h'_def)
  show "keeps_outside (list_bytes base (U @ x # V)) (um h) (um h')" using set_hptr_keeps [OF hp] by (simp add: h'_def)
qed

lemma take_part:
  assumes "heap_ok base h (U @ x # V)" and "0 < n" and "n < snd x"
  defines "y \<equiv> (fst x + 16 * (snd x - n), n)" and "r \<equiv> (fst x, snd x - n)"
  defines "h' \<equiv> h\<lparr>um := set_hsize (set_hsize (um h) (addr x) (of_nat (snd x - n))) (addr y) (of_nat n), freep := last_addr base U\<rparr>"
  shows "heap_ok base h' (U @ r # V)" "owned base h' (U @ r # V) y" "{fst y..<stop y} \<subseteq> {fst x..<stop x}"
    "free_bytes (U @ r # V) = free_bytes (U @ x # V) - {fst y..<stop y}"
    "keeps_outside (list_bytes base (U @ x # V)) (um h) (um h')"
proof -
  note ok = heap_okD [OF assms(1)]
  have x: "x \<in> set (U @ x # V)" by simp
  note bx = block_le [OF assms(1) x]
  have y: "fst x + 16 \<le> fst y" "fst y + 16 \<le> stop y" "stop y = stop x" "stop r = fst y" "0 < snd r" "fst r = fst x"
    using assms(2,3) by (auto simp: y_def r_def stop_def algebra_simps)
  have le: "fst x \<le> 2 ^ 36" "fst y \<le> 2 ^ 36" using bx y by auto
  have axy: "apart (addr x) (addr y)" using y le by (intro apart_addr) auto
  have hx: "hdr_ok (addr x)" "hdr_ok (addr y)" using le by (simp_all add: hdr_ok_addr)
  have apy: "apart (addr y) (addr z)" "apart (addr x) (addr z)" if z: "z \<in> set (base_node base # U @ V)" for z
  proof -
    show x: "apart (addr x) (addr z)" by (rule nodes_apart [OF assms(1), of "base_node base # U" x V]) (use z in auto)
    have "fst z + 16 \<le> fst x \<or> stop x \<le> fst z \<and> fst z \<le> 2 ^ 36"
    proof -
      consider "z = base_node base" | "z \<in> set U" | "z \<in> set V" using z by auto
      then show ?thesis
      proof cases
        case 1
        then show ?thesis using bx by simp
      next
        case 2
        then show ?thesis using spaced_before [OF ok(6), of z] block_le [OF assms(1), of z] by simp
      next
        case 3
        then show ?thesis using spaced_after [OF ok(6), of z] block_le [OF assms(1), of z] by simp
      qed
    qed
    then show "apart (addr y) (addr z)" using y le by (intro apart_addr) auto
  qed
  have other: "hptr (um h') (addr z) = hptr (um h) (addr z) \<and> hsize (um h') (addr z) = hsize (um h) (addr z)"
    if "z \<in> set (base_node base # U @ V)" for z
    using apy [OF that] hx by (simp add: h'_def hdr_other hptr_set_hsize)
  have px: "hptr (um h') (addr x) = hptr (um h) (addr x)" "hsize (um h') (addr x) = of_nat (snd r)" "hsize (um h') (addr y) = of_nat n"
    using axy apart_sym [OF axy] hx by (simp_all add: h'_def hdr_other hptr_set_hsize r_def)
  have l: "linked (um h) base U (addr x)" "linked (um h) (addr x) V base" using ok(5) by (simp_all add: linked_append)
  have b: "hptr (um h') base = hptr (um h) base \<and> hsize (um h') base = hsize (um h) base" using other [of "base_node base"] by simp
  have "linked (um h') base U (addr x) = linked (um h) base U (addr x)" by (rule linked_cong) (simp add: other b)
  moreover have "linked (um h') (addr x) V base" by (rule linked_from [OF l(2) px(1)]) (simp add: other)
  ultimately have lk: "linked (um h') base (U @ r # V) base" using l(1) px(2) y(6) by (simp add: linked_append)
  have sp: "spaced (unat base + 15) (U @ r # V) (unat (brk h))"
  proof -
    obtain k where "spaced (unat base + 15) U k" "k < fst x" "spaced (stop x) V (unat (brk h))" using ok(6) by (auto simp: spaced_append)
    then show ?thesis using spaced_mono [of "stop x" V "unat (brk h)" "stop r"] y by (auto simp: spaced_append)
  qed
  have pin: "last_addr base U \<in> set (base # map addr U)" unfolding last_addr_def by (rule last_in_set) simp
  show "heap_ok base h' (U @ r # V)" using ok(1-4) lk sp b pin unfolding heap_ok_def by (auto simp: h'_def)
  show sub: "{fst y..<stop y} \<subseteq> {fst x..<stop x}" using y by auto
  have fd: "free_bytes (U @ V) = free_bytes (U @ x # V) - {fst x..<stop x}" by (rule free_bytes_disjoint [OF ok(6)])
  have iv: "{fst x..<stop x} = {fst x..<fst y} \<union> {fst y..<stop y}" "{fst x..<fst y} \<inter> {fst y..<stop y} = {}"
    using y by (auto simp: ivl_disj_un_two(3))
  show fb: "free_bytes (U @ r # V) = free_bytes (U @ x # V) - {fst y..<stop y}"
    using fd iv y(4,6) by auto
  show "owned base h' (U @ r # V) y"
    using px(3) assms(2) bx y spaced_mem [OF ok(6) x] fb unfolding owned_def by (auto simp: h'_def y_def)
  have "{fst x..<stop x} \<subseteq> list_bytes base (U @ x # V)" by (auto simp: list_bytes_def)
  then have "{unat (addr x)..<unat (addr x) + 16} \<subseteq> list_bytes base (U @ x # V)"
    "{unat (addr y)..<unat (addr y) + 16} \<subseteq> list_bytes base (U @ x # V)"
    using y bx unat_addr [OF le(2)] by (auto simp: subset_iff)
  then show "keeps_outside (list_bytes base (U @ x # V)) (um h) (um h')"
    using keeps_outside_trans [OF set_hsize_keeps set_hsize_keeps] hx by (simp add: h'_def)
qed

text \<open>The contract of an allocation of n units out of a set of free bytes.\<close>

definition allocates :: "u64 \<Rightarrow> nat \<Rightarrow> nat set \<Rightarrow> uheap \<Rightarrow> u64 \<Rightarrow> uheap \<Rightarrow> bool" where
  "allocates base n F h a h' \<longleftrightarrow>
     (\<exists>y ys. a = addr y + 16 \<and> snd y = n \<and> heap_ok base h' ys \<and> owned base h' ys y \<and> {fst y..<stop y} \<subseteq> F \<and>
        free_bytes ys = F - {fst y..<stop y} \<and> keeps_outside (F \<union> {unat base..<unat base + 16}) (um h) (um h'))"

lemma units_le: "m < 2 ^ 32 \<Longrightarrow> nunits \<le> (of_nat m :: u32) \<longleftrightarrow> unat nunits \<le> m"
  by (simp add: word_le_nat_alt unat_units)

lemma loop_take:
  assumes "heap_ok base h (U @ x # V)" and "0 < unat nunits" and "unat nunits \<le> snd x"
  shows "\<exists>a h'. malloc_loop g nunits (last_addr base U) (addr x) h = Some (a, h') \<and> brk h' = brk h \<and>
    allocates base (unat nunits) (free_bytes (U @ x # V)) h a h'"
proof -
  let ?F = "free_bytes (U @ x # V)"
  note ok = heap_okD [OF assms(1)]
  have x: "x \<in> set (U @ x # V)" by simp
  note bx = block_le [OF assms(1) x]
  have sub: "{fst x..<stop x} \<subseteq> ?F" by auto
  have hs: "hsize (um h) (addr x) = of_nat (snd x)" using ok(5) by (simp add: linked_append)
  have ge: "nunits \<le> hsize (um h) (addr x)" using assms(3) bx hs by (simp add: units_le)
  show ?thesis
  proof (cases "snd x = unat nunits")
    case True
    then have "hsize (um h) (addr x) = nunits" using hs by simp
    then have "malloc_loop g nunits (last_addr base U) (addr x) h =
        Some (addr x + 16, h\<lparr>um := set_hptr (um h) (last_addr base U) (hptr (um h) (addr x)), freep := last_addr base U\<rparr>)"
      by (subst malloc_loop.simps) simp
    moreover have "allocates base (unat nunits) ?F h (addr x + 16)
        (h\<lparr>um := set_hptr (um h) (last_addr base U) (hptr (um h) (addr x)), freep := last_addr base U\<rparr>)"
      unfolding allocates_def
      using take_exact [OF assms(1)] free_bytes_disjoint [OF ok(6)] sub True
      by (intro exI [of _ x] exI [of _ "U @ V"]) (simp only: list_bytes_def simp_thms)
    ultimately show ?thesis by simp
  next
    case False
    let ?n = "unat nunits"
    let ?y = "(fst x + 16 * (snd x - ?n), ?n)" and ?r = "(fst x, snd x - ?n)"
    let ?h = "h\<lparr>um := set_hsize (set_hsize (um h) (addr x) (of_nat (snd x - ?n))) (addr ?y) (of_nat ?n), freep := last_addr base U\<rparr>"
    have lt: "?n < snd x" using False assms(3) by simp
    note t = take_part [OF assms(1,2) lt]
    have ne: "hsize (um h) (addr x) \<noteq> nunits" using False hs bx by (metis unat_units)
    have d: "hsize (um h) (addr x) - nunits = of_nat (snd x - ?n)" using hs assms(3) by (simp add: of_nat_diff)
    have "after_hdr (addr ?r) (of_nat (snd ?r)) = of_nat (stop ?r)"
      using bx by (intro after_hdr_addr) (auto simp: stop_def)
    then have af: "after_hdr (addr x) (of_nat (snd x - ?n)) = addr ?y" by (simp add: stop_def)
    have on: "of_nat ?n = nunits" by simp
    have "malloc_loop g nunits (last_addr base U) (addr x) h = Some (addr ?y + 16, ?h)"
      using ge ne by (subst malloc_loop.simps) (simp only: if_True if_False Let_def d hsize_set_hsize af on)
    moreover have "allocates base ?n ?F h (addr ?y + 16) ?h"
      unfolding allocates_def
      using t(1,2,4,5) subset_trans [OF t(3) sub]
      by (intro exI [of _ ?y] exI [of _ "U @ ?r # V"]) (simp only: list_bytes_def simp_thms snd_conv)
    ultimately show ?thesis by (intro exI [of _ "addr ?y + 16"] exI [of _ ?h]) simp
  qed
qed

section \<open>The walk\<close>

lemma walk_start:
  assumes "heap_ok base h xs"
  obtains A c B where "base_node base # xs = A @ c # B" "freep h = addr c"
    "linked (um h) (freep h) (B @ A @ [c]) (hptr (um h) (freep h))" "distinct (map addr (B @ A @ [c]))"
proof -
  note ok = heap_okD [OF assms]
  have "freep h \<in> addr ` set (base_node base # xs)" using ok(7) by (simp add: image_iff)
  then obtain c where c: "c \<in> set (base_node base # xs)" "freep h = addr c" by blast
  then obtain A B where ab: "base_node base # xs = A @ c # B" by (meson split_list)
  have "distinct (map addr (base_node base # xs))" using distinct_addrs [OF assms] by simp
  then have "distinct (map addr (B @ A @ [c]))" unfolding ab by auto
  then show ?thesis using that [OF ab c(2)] circle [OF ok(5,4) ab] c(2) by simp
qed

lemma walk_hit:
  assumes "heap_ok base h xs" and "0 < unat nunits" and "x \<in> set xs" and "unat nunits \<le> snd x"
  shows "\<exists>a h'. malloc_loop g nunits (freep h) (hptr (um h) (freep h)) h = Some (a, h') \<and> brk h' = brk h \<and>
    allocates base (unat nunits) (free_bytes xs) h a h'"
proof -
  obtain A c B where w: "base_node base # xs = A @ c # B" "freep h = addr c"
    "linked (um h) (freep h) (B @ A @ [c]) (hptr (um h) (freep h))" "distinct (map addr (B @ A @ [c]))"
    by (rule walk_start [OF assms(1)])
  have nodes: "set (B @ A @ [c]) = set (base_node base # xs)" using w(1) by auto
  then have ex: "\<exists>z \<in> set (B @ A @ [c]). unat nunits \<le> snd z" using assms(3,4) by (intro bexI [of _ x]) simp_all
  obtain us z vs where s: "B @ A @ [c] = us @ z # vs" "unat nunits \<le> snd z" "\<forall>u \<in> set us. \<not> unat nunits \<le> snd u"
    by (rule split_list_first_propE [OF ex])
  have z: "z \<in> set xs"
  proof -
    have "z \<in> set (base_node base # xs)" unfolding nodes [symmetric] s(1) by simp
    then show ?thesis using s(2) assms(2) by auto
  qed
  have small: "snd u < 2 ^ 32" if "u \<in> set us" for u
  proof -
    have "u \<in> set (base_node base # xs)" unfolding nodes [symmetric] s(1) using that by simp
    then show ?thesis using block_le [OF assms(1), of u] by auto
  qed
  have "last (z # vs) = c" using s(1) by (metis last_appendR last_snoc append.assoc list.distinct(1))
  then have "c \<in> set (z # vs)" by (metis last_in_set list.distinct(1))
  then have "addr c \<notin> addr ` set us" using w(4) unfolding s(1) by (auto simp: image_iff)
  then have "malloc_loop g nunits (freep h) (hptr (um h) (freep h)) h = malloc_loop g nunits (last_addr (freep h) us) (addr z) h"
    using s(3) small w(2) by (intro loop_walk [OF w(3) [unfolded s(1)]]) (metis units_le imageI)
  moreover obtain U V where xs: "xs = U @ z # V" using z by (meson split_list)
  moreover have "last_addr (freep h) us = last_addr base U"
  proof (rule pred_unique [OF assms(1) [unfolded xs]])
    have "last_addr (freep h) us \<in> set (freep h # map addr us)" unfolding last_addr_def by (rule last_in_set) simp
    moreover have "c \<in> set (B @ A @ [c])" "set us \<subseteq> set (B @ A @ [c])" by (simp, unfold s(1), auto)
    then have "set (freep h # map addr us) \<subseteq> addr ` set (base_node base # xs)"
      unfolding nodes [symmetric] unfolding w(2) list.set(2) list.set_map by blast
    moreover have "set (base # map addr (U @ z # V)) = addr ` set (base_node base # xs)" unfolding xs by (simp add: image_Un)
    ultimately show "last_addr (freep h) us \<in> set (base # map addr (U @ z # V))" by blast
    show "hptr (um h) (last_addr (freep h) us) = addr z"
      using w(3) unfolding s(1) by (simp add: linked_append linked_last)
  qed
  ultimately show ?thesis using loop_take [of base h U z V nunits g] assms(1,2) s(2) by simp
qed

lemma walk_miss:
  assumes "heap_ok base h xs" and "0 < unat nunits" and "\<And>x. x \<in> set xs \<Longrightarrow> snd x < unat nunits"
  shows "malloc_loop g nunits (freep h) (hptr (um h) (freep h)) h =
    Option.bind (morecore g nunits h) (\<lambda>(p, h). if p = 0 then Some (0, h) else malloc_loop g nunits p (hptr (um h) p) h)"
proof -
  obtain A c B where w: "base_node base # xs = A @ c # B" "freep h = addr c"
    "linked (um h) (freep h) (B @ A @ [c]) (hptr (um h) (freep h))" "distinct (map addr (B @ A @ [c]))"
    by (rule walk_start [OF assms(1)])
  have no: "\<not> nunits \<le> of_nat (snd u)" if "u \<in> set (B @ A @ [c])" for u
  proof -
    have "u \<in> set (base_node base # xs)" using that unfolding w(1) by auto
    then have "snd u < unat nunits \<and> snd u < 2 ^ 32" using assms(2) assms(3) [of u] block_le [OF assms(1), of u] by auto
    then show ?thesis by (simp add: units_le)
  qed
  have "malloc_loop g nunits (freep h) (hptr (um h) (freep h)) h = malloc_loop g nunits (last_addr (freep h) (B @ A)) (addr c) h"
  proof (rule loop_walk [of _ _ _ c "[]"])
    show "linked (um h) (freep h) ((B @ A) @ [c]) (hptr (um h) (freep h))" using w(3) by simp
    show "\<not> nunits \<le> of_nat (snd u) \<and> addr u \<noteq> freep h" if "u \<in> set (B @ A)" for u
      using no [of u] that w(2,4) by (auto simp: image_iff)
  qed
  also have "\<dots> = Option.bind (morecore g nunits h) (\<lambda>(p, h). if p = 0 then Some (0, h) else malloc_loop g nunits p (hptr (um h) p) h)"
  proof -
    have "hsize (um h) (addr c) = of_nat (snd c)" using w(3) linked_append [of _ _ "B @ A" c "[]"] by simp
    then have "\<not> nunits \<le> hsize (um h) (addr c)" using no [of c] by simp
    then show ?thesis using w(2) by (subst malloc_loop.simps) simp
  qed
  finally show ?thesis .
qed

section \<open>Growing the heap\<close>

definition core_units :: "u32 \<Rightarrow> nat" where
  "core_units nu = max 4096 (unat nu)"

lemma ucast_small: "k < 2 ^ 31 \<Longrightarrow> ucast (of_nat k :: u64) = (of_nat k :: u32)"
  by (simp add: unsigned_of_nat take_bit_nat_eq_self)

lemma core_arg:
  assumes "16 * core_units nu < 2 ^ 31"
  shows "sint (ucast (ucast (if nu < 4096 then 4096 else nu) * 16 :: u64) :: u32) = int (16 * core_units nu)"
    "unat (if nu < 4096 then 4096 else nu) = core_units nu"
proof -
  let ?nu = "if nu < 4096 then 4096 else nu"
  show n: "unat ?nu = core_units nu" by (simp add: core_units_def word_less_nat_alt)
  have "ucast ?nu = (of_nat (core_units nu) :: u64)" by (rule unat_ucast_of_units [OF n])
  then have "(ucast (ucast ?nu * 16 :: u64) :: u32) = ucast (of_nat (16 * core_units nu) :: u64)" by (simp add: mult.commute)
  also have "\<dots> = of_nat (16 * core_units nu)"
    by (rule ucast_small [OF assms])
  also have "sint \<dots> = int (16 * core_units nu)"
    using assms by (subst signed_of_nat) (simp add: signed_take_bit_int_eq_self)
  finally show "sint (ucast (ucast ?nu * 16 :: u64) :: u32) = int (16 * core_units nu)" .
qed

lemma spaced_interval:
  assumes "spaced l xs hi" and "{b..<b + k} \<subseteq> free_bytes xs" and "0 < k"
  shows "\<exists>x \<in> set xs. fst x \<le> b \<and> b + k \<le> stop x"
  using assms
proof (induction xs arbitrary: l)
  case (Cons x xs)
  have rest: "stop x < y" if "y \<in> free_bytes xs" for y
    using that Cons.prems(1) spaced_mem [of "stop x" xs hi] by (fastforce simp: free_bytes_def)
  have b: "b \<in> free_bytes (x # xs)" by (rule subsetD [OF Cons.prems(2)]) (use Cons.prems(3) in simp)
  show ?case
  proof (cases "b < stop x")
    case True
    then have "fst x \<le> b" using b rest [of b] by auto
    moreover have "b + k \<le> stop x"
    proof (rule ccontr)
      assume "\<not> b + k \<le> stop x"
      then have "stop x \<in> free_bytes (x # xs)" using True by (intro subsetD [OF Cons.prems(2)]) simp
      then show False using rest [of "stop x"] by simp
    qed
    ultimately show ?thesis by auto
  next
    case False
    then have "{b..<b + k} \<subseteq> free_bytes xs" using Cons.prems(2) by fastforce
    then show ?thesis using Cons.IH [of "stop x"] Cons.prems(1,3) by auto
  qed
qed simp

lemma heap_ok_grow:
  assumes "heap_ok base h xs" and "unat (brk h) + 16 * n \<le> 2 ^ 36" and "0 < n"
  defines "h' \<equiv> h\<lparr>brk := brk h + of_nat (16 * n), um := set_hsize (um h) (brk h) (of_nat n)\<rparr>"
  shows "heap_ok base h' xs" "owned base h' xs (unat (brk h), n)" "unat (brk h') = unat (brk h) + 16 * n"
    "keeps_outside {unat (brk h)..<unat (brk h) + 16 * n} (um h) (um h')"
proof -
  note ok = heap_okD [OF assms(1)]
  show br: "unat (brk h') = unat (brk h) + 16 * n" using assms(2) unat_add_of_nat [of "brk h" "16 * n"] by (simp add: h'_def)
  have hb: "hdr_ok (brk h)" using ok(3) by (simp add: hdr_ok_def)
  have ap: "apart (brk h) (addr z)" if z: "z \<in> set (base_node base # xs)" for z
  proof -
    have "unat (addr z) + 16 \<le> unat (brk h)"
      using z ok(2) spaced_mem [OF ok(6), of z] block_le [OF assms(1), of z] by auto
    then show ?thesis using hb ok(3) by (simp add: apart_def hdr_ok_def)
  qed
  have other: "hptr (um h') (addr z) = hptr (um h) (addr z) \<and> hsize (um h') (addr z) = hsize (um h) (addr z)"
    if "z \<in> set (base_node base # xs)" for z using ap [OF that] hb by (simp add: h'_def hdr_other hptr_set_hsize)
  have b: "hptr (um h') base = hptr (um h) base \<and> hsize (um h') base = hsize (um h) base" using other [of "base_node base"] by simp
  have "linked (um h') base xs base = linked (um h) base xs base" by (rule linked_cong) (simp add: other b)
  moreover have "spaced (unat base + 15) xs (unat (brk h'))" using spaced_mono [OF ok(6)] br by simp
  ultimately show "heap_ok base h' xs" using ok br b assms(2) unfolding heap_ok_def by (simp add: h'_def)
  have "{unat (brk h)..<stop (unat (brk h), n)} \<inter> free_bytes xs = {}"
    using spaced_mem [OF ok(6)] by (fastforce simp: free_bytes_def)
  then show "owned base h' xs (unat (brk h), n)" using assms(3) ok(2) br unfolding owned_def by (simp add: h'_def stop_def)
  show "keeps_outside {unat (brk h)..<unat (brk h) + 16 * n} (um h) (um h')"
    unfolding h'_def using hb assms(3) by (simp add: set_hsize_keeps)
qed

lemma heap_ok_freep: "heap_ok base h xs \<Longrightarrow> freep h \<noteq> 0"
  using block_le [of base h xs] heap_okD(1,7) [of base h xs] by fastforce

lemma morecore_ok:
  assumes "heap_ok base h xs" and "16 * core_units nu < 2 ^ 31" and "grant (brk h) (int (16 * core_units nu))"
    and "unat (brk h) + 16 * core_units nu \<le> 2 ^ 36"
  shows "\<exists>h' zs. morecore grant nu h = Some (freep h', h') \<and> heap_ok base h' zs \<and> unat (brk h') = unat (brk h) + 16 * core_units nu \<and>
    free_bytes zs = free_bytes xs \<union> {unat (brk h)..<unat (brk h')} \<and>
    keeps_outside (list_bytes base zs) (um h) (um h')"
proof -
  let ?n = "core_units nu" and ?b = "(unat (brk h), core_units nu)"
  define h1 where "h1 = h\<lparr>brk := brk h + of_nat (16 * ?n), um := set_hsize (um h) (brk h) (of_nat ?n)\<rparr>"
  have n: "0 < ?n" by (simp add: core_units_def)
  note g = heap_ok_grow [OF assms(1,4) n, folded h1_def]
  obtain h2 zs where f: "free_u (addr ?b + 16) h1 = Some h2" "heap_ok base h2 zs" "brk h2 = brk h1"
    "free_bytes zs = free_bytes xs \<union> {fst ?b..<stop ?b}" "keeps_outside (free_bytes zs \<union> {unat base..<unat base + 16}) (um h1) (um h2)"
    by (rule free_u_ok [OF g(1,2)])
  have "unat (- 1 :: u64) = 2 ^ 64 - 1" by (simp add: unsigned_minus_1_eq_mask mask_eq_exp_minus_1)
  then have ne: "brk h \<noteq> - 1" using heap_okD(3) [OF assms(1)] by auto
  have on: "of_nat ?n = (if nu < 4096 then 4096 else nu)" unfolding core_arg(2) [OF assms(2), symmetric] by simp
  have "morecore grant nu h = Some (freep h2, h2)"
    using f(1) ne assms(3) unfolding morecore_def sbrk_def Let_def unfolding core_arg(1) [OF assms(2)] unfolding on [symmetric]
    by (simp add: h1_def)
  moreover have sb: "{fst ?b..<stop ?b} = {unat (brk h)..<unat (brk h2)}" using f(3) g(3) by (simp add: stop_def)
  moreover have "keeps_outside (list_bytes base zs) (um h) (um h1)"
    by (rule keeps_outside_mono [OF g(4)]) (use f(4) in \<open>auto simp: list_bytes_def stop_def\<close>)
  then have "keeps_outside (list_bytes base zs) (um h) (um h2)"
    by (rule keeps_outside_trans) (use f(5) in \<open>simp add: list_bytes_def\<close>)
  ultimately show ?thesis using f(2,4) f(3) g(3) by (intro exI [of _ h2] exI [of _ zs]) simp
qed

lemma morecore_refused:
  assumes "16 * core_units nu < 2 ^ 31" and "\<not> grant (brk h) (int (16 * core_units nu))"
  shows "morecore grant nu h = Some (0, h)"
  using assms(2) unfolding morecore_def sbrk_def Let_def unfolding core_arg(1) [OF assms(1)] by simp

lemma word_of_nat_of_unat: "unat (w :: u64) = n \<Longrightarrow> w = of_nat n"
  by auto

lemma malloc_units_ok:
  assumes "nbytes < 2 ^ 31 - 32"
  shows "unat (malloc_units nbytes) = (unat nbytes + 15) div 16 + 1" "16 * core_units (malloc_units nbytes) < 2 ^ 31"
    "unat nbytes \<le> 16 * (unat (malloc_units nbytes) - 1)" "0 < unat (malloc_units nbytes)"
proof -
  have nb: "unat nbytes < 2 ^ 31 - 32" using assms by (simp add: word_less_nat_alt)
  have "(ucast nbytes + 16 - 1 :: u64) = of_nat (unat nbytes + 15)" by simp
  moreover have "unat (of_nat (unat nbytes + 15) :: u64) = unat nbytes + 15" by (rule unat_of_nat_lt) (use nb in simp)
  ultimately have "unat (ucast nbytes + 16 - 1 :: u64) = unat nbytes + 15" by (simp only:)
  moreover have "unat (16 :: u64) = 16" by simp
  ultimately have "unat ((ucast nbytes + 16 - 1) div 16 :: u64) = (unat nbytes + 15) div 16" by (simp only: unat_div)
  then have "(ucast nbytes + 16 - 1) div 16 = (of_nat ((unat nbytes + 15) div 16) :: u64)" by (metis word_of_nat_of_unat)
  then have "(ucast nbytes + 16 - 1) div 16 + 1 = (of_nat ((unat nbytes + 15) div 16 + 1) :: u64)" by simp
  then have "malloc_units nbytes = of_nat ((unat nbytes + 15) div 16 + 1)"
    unfolding malloc_units_def by (simp only:) (rule ucast_small, use nb in simp)
  then show u: "unat (malloc_units nbytes) = (unat nbytes + 15) div 16 + 1" using nb by (simp only:) (rule unat_units, simp)
  show "16 * core_units (malloc_units nbytes) < 2 ^ 31" using nb unfolding core_units_def u by auto
  show "unat nbytes \<le> 16 * (unat (malloc_units nbytes) - 1)" unfolding u by simp
  show "0 < unat (malloc_units nbytes)" unfolding u by simp
qed

text \<open>The state before the first call, in which \<^verbatim>\<open>freep\<close> is null, and the states after it.\<close>

definition heap_state :: "u64 \<Rightarrow> uheap \<Rightarrow> block list \<Rightarrow> bool" where
  "heap_state base h xs \<longleftrightarrow>
     (if freep h = 0 then xs = [] \<and> base \<noteq> 0 \<and> unat base + 16 \<le> unat (brk h) \<and> unat (brk h) \<le> 2 ^ 36
      else heap_ok base h xs)"

definition malloc_start :: "u64 \<Rightarrow> uheap \<Rightarrow> uheap" where
  "malloc_start base h =
     (if freep h = 0 then h\<lparr>um := set_hsize (set_hptr (um h) base base) base 0, freep := base\<rparr> else h)"

lemma malloc_start_ok:
  assumes "heap_state base h xs"
  shows "heap_ok base (malloc_start base h) xs" "brk (malloc_start base h) = brk h"
    "keeps_outside {unat base..<unat base + 16} (um h) (um (malloc_start base h))"
proof -
  have "hdr_ok base" if "freep h = 0" using assms that by (auto simp: heap_state_def hdr_ok_def)
  then show "heap_ok base (malloc_start base h) xs"
    using assms by (auto simp: heap_state_def malloc_start_def heap_ok_def hptr_set_hsize)
  show "keeps_outside {unat base..<unat base + 16} (um h) (um (malloc_start base h))"
    using \<open>freep h = 0 \<Longrightarrow> hdr_ok base\<close> keeps_outside_trans [OF set_hptr_keeps set_hsize_keeps] by (simp add: malloc_start_def)
qed (simp add: malloc_start_def)

lemma malloc_starts:
  "malloc grant base nbytes h =
     malloc_loop grant (malloc_units nbytes) (freep (malloc_start base h))
       (hptr (um (malloc_start base h)) (freep (malloc_start base h))) (malloc_start base h)"
  by (simp add: malloc_def malloc_start_def Let_def)

lemma allocates_from:
  assumes "allocates base n F h1 a h'" and "keeps_outside (F \<union> {unat base..<unat base + 16}) (um h) (um h1)"
  shows "allocates base n F h a h'"
  using assms keeps_outside_trans [OF assms(2)] unfolding allocates_def by blast

lemma allocates_not_null: "allocates base n F h a h' \<Longrightarrow> a \<noteq> 0"
proof
  assume "allocates base n F h a h'" "a = 0"
  then obtain y ys where y: "addr y + 16 = 0" "heap_ok base h' ys" "owned base h' ys y" unfolding allocates_def by auto
  have "fst y + 16 \<le> 2 ^ 36" using y(3) heap_okD(3) [OF y(2)] by (auto simp: owned_def stop_def)
  then have "unat (of_nat (fst y + 16) :: u64) = fst y + 16" by (intro unat_of_nat_lt) simp
  then show False using y(1) by simp
qed

lemma malloc_ok:
  assumes "heap_state base h xs" and "nbytes < 2 ^ 31 - 32" and "\<forall>k. grant (brk h) k \<longrightarrow> int (unat (brk h)) + k \<le> 2 ^ 36"
  defines "n \<equiv> unat (malloc_units nbytes)" and "k \<equiv> 16 * core_units (malloc_units nbytes)"
  shows "\<exists>a h'. malloc grant base nbytes h = Some (a, h') \<and> unat nbytes \<le> 16 * (n - 1) \<and>
    (if \<exists>x \<in> set xs. n \<le> snd x then allocates base n (free_bytes xs) h a h' \<and> brk h' = brk h
     else if grant (brk h) (int k)
       then allocates base n (free_bytes xs \<union> {unat (brk h)..<unat (brk h) + k}) h a h' \<and> unat (brk h') = unat (brk h) + k
     else a = 0 \<and> heap_ok base h' xs \<and> brk h' = brk h \<and> keeps_outside {unat base..<unat base + 16} (um h) (um h'))"
proof -
  let ?h = "malloc_start base h" and ?nu = "malloc_units nbytes"
  note s = malloc_start_ok [OF assms(1)] and u = malloc_units_ok [OF assms(2)]
  have kb: "keeps_outside (F \<union> {unat base..<unat base + 16}) (um h) (um ?h)" for F by (rule keeps_outside_mono [OF s(3)]) simp
  consider (hit) x where "x \<in> set xs" "n \<le> snd x" | (miss) "\<And>x. x \<in> set xs \<Longrightarrow> snd x < n" by (meson not_le)
  then show ?thesis
  proof cases
    case hit
    then obtain a h' where "malloc grant base nbytes h = Some (a, h')" "brk h' = brk h" "allocates base n (free_bytes xs) ?h a h'"
      using walk_hit [OF s(1) u(4)] s(2) unfolding malloc_starts n_def by metis
    then show ?thesis using hit allocates_from [OF _ kb] u(3) by (auto simp: n_def)
  next
    case miss
    then have no: "\<not> (\<exists>x \<in> set xs. n \<le> snd x)" by (meson not_le)
    have m: "malloc grant base nbytes h = Option.bind (morecore grant ?nu ?h)
        (\<lambda>(p, h). if p = 0 then Some (0, h) else malloc_loop grant ?nu p (hptr (um h) p) h)"
      unfolding malloc_starts using walk_miss [OF s(1) u(4)] miss by (simp add: n_def)
    show ?thesis
    proof (cases "grant (brk h) (int k)")
      case False
      then have "malloc grant base nbytes h = Some (0, ?h)" using m morecore_refused [OF u(2)] s(2) by (simp add: k_def)
      then show ?thesis using no False s u(3) by (simp add: n_def)
    next
      case True
      have "int (unat (brk h)) + int k \<le> 2 ^ 36" using assms(3) True by blast
      then have "int (unat (brk h) + k) \<le> int (2 ^ 36)" by (simp only: of_nat_add of_nat_power of_nat_numeral)
      then have "unat (brk h) + k \<le> 2 ^ 36" by (simp only: of_nat_le_iff)
      then obtain h2 zs where z: "morecore grant ?nu ?h = Some (freep h2, h2)" "heap_ok base h2 zs" "unat (brk h2) = unat (brk h) + k"
          "free_bytes zs = free_bytes xs \<union> {unat (brk h)..<unat (brk h) + k}" "keeps_outside (list_bytes base zs) (um ?h) (um h2)"
        using morecore_ok [OF s(1) u(2)] True s(2) unfolding k_def by metis
      have "0 < k" by (simp add: k_def core_units_def)
      then obtain x where x: "x \<in> set zs" "fst x \<le> unat (brk h)" "unat (brk h) + k \<le> stop x"
        using spaced_interval [OF heap_okD(6) [OF z(2)]] z(4) by blast
      then have "n \<le> snd x" by (simp add: stop_def k_def core_units_def n_def)
      then obtain a h' where r: "malloc_loop grant ?nu (freep h2) (hptr (um h2) (freep h2)) h2 = Some (a, h')" "brk h' = brk h2"
          "allocates base n (free_bytes zs) h2 a h'"
        using walk_hit [OF z(2) u(4) x(1)] unfolding n_def by blast
      have "malloc grant base nbytes h = Some (a, h')" using m z(1) r(1) heap_ok_freep [OF z(2)] by simp
      moreover have "allocates base n (free_bytes zs) h a h'"
        by (rule allocates_from [OF r(3) keeps_outside_trans [OF kb z(5) [unfolded list_bytes_def]]])
      ultimately show ?thesis using no True r(2) z(3,4) u(3) by (auto simp: n_def)
    qed
  qed
qed

section \<open>Programs that use the allocator\<close>

lemma hdr_same:
  assumes "hdr_ok a" and "\<And>c. unat c \<in> {unat a..<unat a + 16} \<Longrightarrow> m' c = m c"
  shows "hsize m' a = hsize m a" "hptr m' a = hptr m a"
proof -
  have "unat (a + of_nat i) = unat a + i" if "i < 16" for i
    using that assms(1) by (intro unat_add_of_nat) (simp add: hdr_ok_def)
  then have m: "m' (a + of_nat i) = m (a + of_nat i)" if "i < 16" for i using that by (intro assms(2)) simp
  have "m' (a + 8 + of_nat i) = m (a + 8 + of_nat i)" if "i < 4" for i
    using m [of "8 + i"] that by (simp add: add.assoc)
  then have "mem_read m' (a + 8) 4 = mem_read m (a + 8) 4" unfolding mem_read_def by (intro map_cong) auto
  then show "hsize m' a = hsize m a" by (simp add: hsize_def load32_def)
  have "mem_read m' a 8 = mem_read m a 8" unfolding mem_read_def by (intro map_cong) (auto intro!: m)
  then show "hptr m' a = hptr m a" by (simp add: hptr_def load64_def)
qed

lemma owned_kept:
  assumes "owned base h xs z" and "unat (brk h) \<le> 2 ^ 36" and "keeps_outside (F \<union> {unat base..<unat base + 16}) (um h) (um h')"
    and "{fst z..<stop z} \<inter> F = {}" and "free_bytes ys \<subseteq> F" and "unat (brk h) \<le> unat (brk h')"
  shows "owned base h' ys z" "\<And>c. unat c \<in> {fst z..<stop z} \<Longrightarrow> um h' c = um h c"
proof -
  have z: "0 < snd z" "unat base + 16 \<le> fst z" "stop z \<le> unat (brk h)" using assms(1) by (auto simp: owned_def)
  then have u: "fst z + 16 \<le> stop z" "stop z \<le> 2 ^ 36" using assms(2) by (auto simp: stop_def)
  have h: "hdr_ok (addr z)" "unat (addr z) = fst z" using u by (simp_all add: hdr_ok_addr unat_addr)
  show same: "um h' c = um h c" if c: "unat c \<in> {fst z..<stop z}" for c
  proof -
    have "unat c \<notin> {unat base..<unat base + 16}" using c z(2) by auto
    then have "unat c \<notin> F \<union> {unat base..<unat base + 16}" using c assms(4) by blast
    then show ?thesis using assms(3) by (simp add: keeps_outside_def)
  qed
  have "hsize (um h') (addr z) = hsize (um h) (addr z)" using h u(1) by (intro hdr_same same) auto
  then show "owned base h' ys z" using assms(1,4,5,6) unfolding owned_def by auto
qed

type_synonym live_block = "u64 \<times> nat"

definition payload :: "live_block \<Rightarrow> nat set" where
  "payload p = {unat (fst p)..<unat (fst p) + snd p}"

text \<open>
  What a program does with the allocator: it allocates, frees a block it was given, and writes inside its blocks.
  A block that was given is a pair of its address and of the number of bytes asked for.
\<close>

inductive urun :: "(u64 \<Rightarrow> int \<Rightarrow> bool) \<Rightarrow> u64 \<Rightarrow> uheap \<Rightarrow> live_block list \<Rightarrow> bool" for grant base where
  urun_start: "freep h = 0 \<Longrightarrow> base \<noteq> 0 \<Longrightarrow> unat base + 16 \<le> unat (brk h) \<Longrightarrow> unat (brk h) \<le> 2 ^ 36 \<Longrightarrow> urun grant base h []"
| urun_malloc: "urun grant base h live \<Longrightarrow> nbytes < 2 ^ 31 - 32 \<Longrightarrow> malloc grant base nbytes h = Some (a, h') \<Longrightarrow>
    urun grant base h' (if a = 0 then live else (a, unat nbytes) # live)"
| urun_free: "urun grant base h (us @ p # vs) \<Longrightarrow> free_u (fst p) h = Some h' \<Longrightarrow> urun grant base h' (us @ vs)"
| urun_write: "urun grant base h live \<Longrightarrow> keeps_outside (\<Union> (payload ` set live)) (um h) m \<Longrightarrow> urun grant base (h\<lparr>um := m\<rparr>) live"

definition apart_blocks :: "block \<Rightarrow> block \<Rightarrow> bool" where
  "apart_blocks y z \<longleftrightarrow> {fst y..<stop y} \<inter> {fst z..<stop z} = {}"

definition holds_block :: "live_block \<Rightarrow> block \<Rightarrow> bool" where
  "holds_block p y \<longleftrightarrow> fst p = addr y + 16 \<and> snd p \<le> 16 * (snd y - 1)"

definition live_ok :: "u64 \<Rightarrow> uheap \<Rightarrow> live_block list \<Rightarrow> block list \<Rightarrow> block list \<Rightarrow> bool" where
  "live_ok base h live xs ys \<longleftrightarrow>
     heap_state base h xs \<and> (freep h = 0 \<longrightarrow> live = []) \<and> list_all2 holds_block live ys \<and> (\<forall>y \<in> set ys. owned base h xs y) \<and>
     sorted_wrt apart_blocks ys"

lemma payload_in:
  assumes "holds_block p y" and "owned base h xs y" and "unat (brk h) \<le> 2 ^ 36"
  shows "payload p \<subseteq> {fst y + 16..<stop y}" "unat (fst p) = fst y + 16"
proof -
  have y: "0 < snd y" "stop y \<le> 2 ^ 36" using assms(2,3) by (auto simp: owned_def)
  then have "unat (of_nat (fst y + 16) :: u64) = fst y + 16" by (intro unat_of_nat_lt) (simp add: stop_def)
  then show u: "unat (fst p) = fst y + 16" using assms(1) by (simp add: holds_block_def)
  show "payload p \<subseteq> {fst y + 16..<stop y}" using assms(1) y(1) unfolding payload_def u by (auto simp: holds_block_def stop_def)
qed

lemma heap_state_brk: "heap_state base h xs \<Longrightarrow> unat (brk h) \<le> 2 ^ 36"
  by (auto simp: heap_state_def heap_ok_def split: if_splits)

lemma live_okD:
  assumes "live_ok base h live xs ys"
  shows "heap_state base h xs" "freep h = 0 \<Longrightarrow> live = []" "list_all2 holds_block live ys" "\<And>y. y \<in> set ys \<Longrightarrow> owned base h xs y"
    "sorted_wrt apart_blocks ys" "unat (brk h) \<le> 2 ^ 36"
  using assms heap_state_brk by (auto simp: live_ok_def)

lemma heap_ok_state: "heap_ok base h xs \<Longrightarrow> heap_state base h xs \<and> freep h \<noteq> 0"
  using heap_ok_freep by (simp add: heap_state_def)

lemma live_payload:
  assumes "live_ok base h live xs ys" and "p \<in> set live"
  shows "\<exists>y \<in> set ys. payload p \<subseteq> {fst y + 16..<stop y}"
proof -
  note L = live_okD [OF assms(1)]
  obtain i where i: "i < length live" "p = live ! i" using assms(2) by (auto simp: in_set_conv_nth)
  then have y: "ys ! i \<in> set ys" "holds_block p (ys ! i)" using L(3) by (simp_all add: list_all2_conv_all_nth)
  show ?thesis using payload_in(1) [OF y(2) L(4) [OF y(1)] L(6)] y(1) by (rule bexI)
qed

lemma live_disjoint:
  assumes "live_ok base h live xs ys"
  shows "sorted_wrt (\<lambda>p q. payload p \<inter> payload q = {}) live"
  unfolding sorted_wrt_iff_nth_less
proof (intro allI impI)
  fix i j assume ij: "i < j" "j < length live"
  note L = live_okD [OF assms(1)]
  have len: "length ys = length live" using L(3) by (simp add: list_all2_lengthD)
  have sub: "payload (live ! k) \<subseteq> {fst (ys ! k) + 16..<stop (ys ! k)}" if k: "k < length live" for k
    using k len L(3) by (intro payload_in(1) [OF _ L(4) L(6)]) (simp_all add: list_all2_conv_all_nth)
  have "apart_blocks (ys ! i) (ys ! j)" using L(5) ij len by (simp add: sorted_wrt_iff_nth_less)
  then show "payload (live ! i) \<inter> payload (live ! j) = {}"
    using sub [of i] sub [of j] ij unfolding apart_blocks_def by fastforce
qed

lemma live_bytes_kept:
  assumes "live_ok base h live xs ys" and "\<And>y c. y \<in> set ys \<Longrightarrow> unat c \<in> {fst y..<stop y} \<Longrightarrow> m (c :: u64) = um h c"
  shows "\<forall>p \<in> set live. \<forall>c. unat c \<in> payload p \<longrightarrow> m c = um h c"
proof (intro ballI allI impI)
  fix p :: live_block and c :: u64 assume p: "p \<in> set live" "unat c \<in> payload p"
  then obtain y where y: "y \<in> set ys" "payload p \<subseteq> {fst y + 16..<stop y}" using live_payload [OF assms(1)] by blast
  then have "unat c \<in> {fst y + 16..<stop y}" using p(2) by blast
  then show "m c = um h c" by (intro assms(2) [OF y(1)]) simp
qed

lemma live_alloc:
  assumes "live_ok base h live xs ys" and "allocates base n F h a h'" and "k \<le> 16 * (n - 1)" and "unat (brk h) \<le> unat (brk h')"
    and "F \<subseteq> free_bytes xs \<union> {unat (brk h)..}"
  obtains xs' ys' where "live_ok base h' ((a, k) # live) xs' ys'"
    "\<And>y c. y \<in> set ys \<Longrightarrow> unat c \<in> {fst y..<stop y} \<Longrightarrow> um h' c = um h c"
proof -
  note L = live_okD [OF assms(1)]
  obtain z zs where z: "a = addr z + 16" "snd z = n" "heap_ok base h' zs" "owned base h' zs z" "{fst z..<stop z} \<subseteq> F"
    "free_bytes zs = F - {fst z..<stop z}" "keeps_outside (F \<union> {unat base..<unat base + 16}) (um h) (um h')"
    using assms(2) unfolding allocates_def by blast
  have dj: "{fst y..<stop y} \<inter> F = {}" if "y \<in> set ys" for y
    using L(4) [OF that] assms(5) by (fastforce simp: owned_def)
  have sub: "free_bytes zs \<subseteq> F" using z(6) by blast
  note kept = owned_kept [OF L(4) L(6) z(7) dj sub assms(4)]
  have "apart_blocks z y" if "y \<in> set ys" for y using dj [OF that] z(5) unfolding apart_blocks_def by blast
  moreover have "holds_block (a, k) z" using z(1,2) assms(3) by (simp add: holds_block_def)
  ultimately have "live_ok base h' ((a, k) # live) zs (z # ys)"
    using heap_ok_state [OF z(3)] L(3,5) z(4) kept(1) by (simp add: live_ok_def)
  then show ?thesis using that kept(2) by blast
qed

lemma live_malloc:
  assumes "live_ok base h live xs ys" and "nbytes < 2 ^ 31 - 32" and "\<forall>b k. grant b k \<longrightarrow> int (unat b) + k \<le> 2 ^ 36"
  obtains a h' xs' ys' where "malloc grant base nbytes h = Some (a, h')"
    "live_ok base h' (if a = 0 then live else (a, unat nbytes) # live) xs' ys'"
    "\<And>y c. y \<in> set ys \<Longrightarrow> unat c \<in> {fst y..<stop y} \<Longrightarrow> um h' c = um h c"
proof -
  note L = live_okD [OF assms(1)]
  let ?n = "unat (malloc_units nbytes)" and ?k = "16 * core_units (malloc_units nbytes)" and ?H = "{unat base..<unat base + 16}"
  obtain a h' where r: "malloc grant base nbytes h = Some (a, h')" "unat nbytes \<le> 16 * (?n - 1)"
    and c: "if \<exists>x \<in> set xs. ?n \<le> snd x then allocates base ?n (free_bytes xs) h a h' \<and> brk h' = brk h
      else if grant (brk h) (int ?k)
        then allocates base ?n (free_bytes xs \<union> {unat (brk h)..<unat (brk h) + ?k}) h a h' \<and> unat (brk h') = unat (brk h) + ?k
      else a = 0 \<and> heap_ok base h' xs \<and> brk h' = brk h \<and> keeps_outside ?H (um h) (um h')"
    using malloc_ok [OF L(1) assms(2), of grant] assms(3) by blast
  consider (some) F where "allocates base ?n F h a h'" "unat (brk h) \<le> unat (brk h')" "F \<subseteq> free_bytes xs \<union> {unat (brk h)..}"
    | (none) "a = 0" "heap_ok base h' xs" "brk h' = brk h" "keeps_outside ?H (um h) (um h')"
  proof (cases "\<exists>x \<in> set xs. ?n \<le> snd x")
    case True
    then show ?thesis using c some [of "free_bytes xs"] by auto
  next
    case False
    have sub: "free_bytes xs \<union> {unat (brk h)..<unat (brk h) + ?k} \<subseteq> free_bytes xs \<union> {unat (brk h)..}" by auto
    show ?thesis
    proof (cases "grant (brk h) (int ?k)")
      case True
      then show ?thesis using False c by (intro some [OF _ _ sub]) simp_all
    next
      case False
      then show ?thesis using \<open>\<not> (\<exists>x \<in> set xs. ?n \<le> snd x)\<close> c by (intro none) simp_all
    qed
  qed
  then show ?thesis
  proof cases
    case some
    have "a \<noteq> 0" by (rule allocates_not_null [OF some(1)])
    then show ?thesis using live_alloc [OF assms(1) some(1) r(2) some(2,3)] r(1) that [of a h'] by auto
  next
    case none
    have k: "keeps_outside (free_bytes xs \<union> ?H) (um h) (um h')" by (rule keeps_outside_mono [OF none(4)]) simp
    have dj: "{fst y..<stop y} \<inter> free_bytes xs = {}" if "y \<in> set ys" for y using L(4) [OF that] by (simp add: owned_def)
    have le: "unat (brk h) \<le> unat (brk h')" using none(3) by simp
    note kept = owned_kept [OF L(4) L(6) k dj order.refl le]
    have "live_ok base h' live xs ys" using heap_ok_state [OF none(2)] L(3,5) kept(1) by (simp add: live_ok_def)
    then show ?thesis using that [of a h' xs ys] r(1) none(1) kept(2) by simp
  qed
qed

lemma live_free:
  assumes "live_ok base h (us @ p # vs) xs ys"
  obtains h' xs' ys' where "free_u (fst p) h = Some h'" "live_ok base h' (us @ vs) xs' ys'"
    "\<And>z c. z \<in> set ys' \<Longrightarrow> unat c \<in> {fst z..<stop z} \<Longrightarrow> um h' c = um h c"
proof -
  note L = live_okD [OF assms]
  have ok: "heap_ok base h xs" using L(1,2) by (auto simp: heap_state_def split: if_splits)
  obtain yu y yv where y: "ys = yu @ y # yv" "length yu = length us" "list_all2 holds_block us yu" "holds_block p y" "list_all2 holds_block vs yv"
    using L(3) by (auto simp: list_all2_append1 list_all2_Cons1)
  have oy: "owned base h xs y" using L(4) y(1) by simp
  obtain h' zs where f: "free_u (addr y + 16) h = Some h'" "heap_ok base h' zs" "brk h' = brk h"
    "free_bytes zs = free_bytes xs \<union> {fst y..<stop y}" "keeps_outside (free_bytes zs \<union> {unat base..<unat base + 16}) (um h) (um h')"
    by (rule free_u_ok [OF ok oy])
  have apart: "apart_blocks y z \<or> apart_blocks z y" if "z \<in> set (yu @ yv)" for z
    using L(5) that y(1) by (auto simp: sorted_wrt_append)
  have dj: "{fst z..<stop z} \<inter> free_bytes zs = {}" if "z \<in> set (yu @ yv)" for z
    using L(4) [of z] apart [OF that] that y(1) f(4) by (auto simp: owned_def apart_blocks_def)
  have own: "owned base h xs z" if "z \<in> set (yu @ yv)" for z using L(4) that y(1) by auto
  have le: "unat (brk h) \<le> unat (brk h')" using f(3) by simp
  note kept = owned_kept [OF own L(6) f(5) dj order.refl le]
  have "sorted_wrt apart_blocks (yu @ yv)" using L(5) y(1) by (simp add: sorted_wrt_append)
  then have l: "live_ok base h' (us @ vs) zs (yu @ yv)"
    using heap_ok_state [OF f(2)] y(2,3,5) kept(1) by (simp add: live_ok_def list_all2_appendI)
  have "free_u (fst p) h = Some h'" using f(1) y(4) by (simp add: holds_block_def)
  then show ?thesis by (rule that [OF _ l]) (rule kept(2))
qed

lemma sorted_wrt_mem: "sorted_wrt R ys \<Longrightarrow> y \<in> set ys \<Longrightarrow> z \<in> set ys \<Longrightarrow> y \<noteq> z \<Longrightarrow> R y z \<or> R z y"
  by (induction ys) auto

lemma live_write:
  assumes "live_ok base h live xs ys" and "keeps_outside (\<Union> (payload ` set live)) (um h) m"
  shows "live_ok base (h\<lparr>um := m\<rparr>) live xs ys"
proof (cases "freep h = 0")
  case True
  then show ?thesis using assms(1) by (auto simp: live_ok_def heap_state_def)
next
  case False
  note L = live_okD [OF assms(1)]
  have ok: "heap_ok base h xs" using L(1) False by (simp add: heap_state_def)
  note pay = live_payload [OF assms(1)]
  have same: "m c = um h c" if c: "\<And>y. y \<in> set ys \<Longrightarrow> unat c \<notin> {fst y + 16..<stop y}" for c
  proof -
    have "unat c \<notin> \<Union> (payload ` set live)" using pay c by blast
    then show ?thesis using assms(2) by (simp add: keeps_outside_def)
  qed
  have node: "hsize m (addr n) = hsize (um h) (addr n) \<and> hptr m (addr n) = hptr (um h) (addr n)" if n: "n \<in> set (base_node base # xs)" for n
  proof -
    have "m c = um h c" if c: "unat c \<in> {unat (addr n)..<unat (addr n) + 16}" for c
    proof (rule same)
      fix y assume "y \<in> set ys"
      then have "owned base h xs y" by (rule L(4))
      then have "{fst y..<stop y} \<inter> free_bytes xs = {}" "unat base + 16 \<le> fst y" by (simp_all add: owned_def)
      moreover have "{fst y + 16..<stop y} \<subseteq> {fst y..<stop y}" by auto
      moreover have "{fst y + 16..<stop y} \<inter> {unat base..<unat base + 16} = {}" using calculation(2) by auto
      ultimately have "{fst y + 16..<stop y} \<inter> list_bytes base xs = {}" unfolding list_bytes_def by blast
      then show "unat c \<notin> {fst y + 16..<stop y}" using node_bytes(2) [OF ok n] c by blast
    qed
    then show ?thesis using hdr_same [OF node_bytes(1) [OF ok n]] by blast
  qed
  have own: "hsize m (addr y) = hsize (um h) (addr y)" if y: "y \<in> set ys" for y
  proof -
    have o: "owned base h xs y" by (rule L(4) [OF y])
    then have u: "fst y + 16 \<le> stop y" "stop y \<le> 2 ^ 36" using L(6) by (auto simp: owned_def stop_def)
    have my: "m c = um h c" if c: "unat c \<in> {unat (addr y)..<unat (addr y) + 16}" for c
    proof (rule same)
      fix z assume z: "z \<in> set ys"
      show "unat c \<notin> {fst z + 16..<stop z}"
      proof (cases "z = y")
        case True
        then show ?thesis using c u by (simp add: unat_addr)
      next
        case False
        have "apart_blocks y z \<or> apart_blocks z y" by (rule sorted_wrt_mem [OF L(5) y z]) (use False in simp)
        then show ?thesis using c u by (auto simp: apart_blocks_def unat_addr)
      qed
    qed
    have "hdr_ok (addr y)" using u by (simp add: hdr_ok_addr)
    then show ?thesis by (rule hdr_same(1)) (rule my)
  qed
  have b: "hsize m base = hsize (um h) base" "hptr m base = hptr (um h) base" using node [of "base_node base"] by simp_all
  have "linked m base xs base = linked (um h) base xs base" by (rule linked_cong) (use node b in simp)
  then have "heap_ok base (h\<lparr>um := m\<rparr>) xs" using ok b by (simp add: heap_ok_def)
  then show ?thesis using False L(3,5) own L(4) by (simp add: live_ok_def heap_state_def owned_def)
qed

lemma urun_live_ok:
  assumes "urun grant base h live" and "\<forall>b k. grant b k \<longrightarrow> int (unat b) + k \<le> 2 ^ 36"
  shows "\<exists>xs ys. live_ok base h live xs ys"
  using assms(1)
proof (induction rule: urun.induct)
  case (urun_start h)
  then have "live_ok base h [] [] []" by (simp add: live_ok_def heap_state_def)
  then show ?case by blast
next
  case (urun_malloc h live nbytes a h')
  then obtain xs ys where "live_ok base h live xs ys" by blast
  from live_malloc [OF this urun_malloc(2) assms(2)] show ?case using urun_malloc(3) by (metis Pair_inject option.inject)
next
  case (urun_free h us p vs h')
  then obtain xs ys where "live_ok base h (us @ p # vs) xs ys" by blast
  from live_free [OF this] show ?case using urun_free(2) by (metis option.inject)
next
  case (urun_write h live m)
  then show ?case using live_write by blast
qed

section \<open>Correctness\<close>


definition wheap :: uheap where
  "wheap = \<lparr>um = \<lambda>_. 0, brk = 0x3000, freep = 0\<rparr>"

definition wgrant :: "u64 \<Rightarrow> int \<Rightarrow> bool" where
  "wgrant b k \<longleftrightarrow> int (unat b) + k \<le> 0x8000000"


text \<open>
  C19. Freeing a block that was allocated always returns: wherever \<^verbatim>\<open>freep\<close> points, the search ends. Afterwards the list
  is well formed with exactly the bytes of the block added to the free ones, adjacent blocks being joined, and no byte
  outside the free ones and the header of the list has changed.
\<close>

theorem free_correct:
  assumes "heap_ok base h xs" and "owned base h xs x"
  shows "\<exists>h' zs. free_u (addr x + 16) h = Some h' \<and> heap_ok base h' zs \<and> brk h' = brk h \<and>
    free_bytes zs = free_bytes xs \<union> {fst x..<stop x} \<and> keeps_outside (list_bytes base zs) (um h) (um h')"
  using free_u_ok [OF assms] unfolding list_bytes_def by metis

definition wheap1 :: uheap where
  "wheap1 = \<lparr>um = set_hsize (set_hsize (set_hptr (\<lambda>_. 0) 0x1000 0x1000) 0x1000 0) 0x2000 4, brk = 0x3000, freep = 0x1000\<rparr>"

theorem free_correct_witness:
  "\<exists>h' zs. free_u 0x2010 wheap1 = Some h' \<and> heap_ok 0x1000 h' zs \<and> free_bytes zs = {0x2000..<0x2040}"
proof -
  have a: "hdr_ok 0x1000" "hdr_ok 0x2000" "apart 0x2000 0x1000" by (simp_all add: hdr_ok_def apart_def)
  have ok: "heap_ok 0x1000 wheap1 []"
    using a by (simp add: heap_ok_def wheap1_def hdr_other hptr_set_hsize)
  have ow: "owned 0x1000 wheap1 [] (0x2000, 4)" by (simp add: owned_def wheap1_def stop_def)
  show ?thesis using free_correct [OF ok ow] by (auto simp: stop_def)
qed



text \<open>
  The argument of \<^verbatim>\<open>sbrk\<close> is an \<^verbatim>\<open>int\<close>: a request that needs 2 to the 28 units asks the kernel for 0 bytes, and
  the block that \<^verbatim>\<open>malloc\<close> returns lies past the program break.
\<close>

theorem malloc_truncates:
  assumes "freep h = 0" and "base \<noteq> 0" and "unat base + 16 \<le> unat (brk h)" and "unat (brk h) \<le> 2 ^ 36" and "grant (brk h) 0"
  shows "\<exists>h'. malloc grant base 0xfffffff0 h = Some (brk h + 16, h') \<and> brk h' = brk h"
proof -
  define n :: u32 where "n = 0x10000000"
  define m0 where "m0 = set_hsize (set_hptr (um h) base base) base 0"
  define m1 where "m1 = set_hsize m0 (brk h) n"
  define m3 where "m3 = set_hptr (set_hptr m1 (brk h) base) base (brk h)"
  let ?b = "brk h" and ?h0 = "h\<lparr>um := m0, freep := base\<rparr>"
  have ok: "hdr_ok base" "hdr_ok ?b" "apart base ?b" "apart ?b base" "base < ?b"
    using assms(3,4) by (auto simp: hdr_ok_def apart_def word_less_nat_alt)
  have "unat (- 1 :: u64) = 2 ^ 64 - 1" by (simp add: unsigned_minus_1_eq_mask mask_eq_exp_minus_1)
  then have ne: "?b \<noteq> - 1" using assms(4) by auto
  have "unat (?b + of_nat (2 ^ 32)) = unat ?b + 2 ^ 32" using assms(4) by (intro unat_add_of_nat) simp
  moreover have "after_hdr ?b n = ?b + of_nat (2 ^ 32)" by (simp add: after_hdr_def n_def)
  ultimately have af: "after_hdr ?b n \<noteq> base" using ok(5) by (auto simp: word_less_nat_alt)
  have h0: "hptr m0 base = base" "hsize m0 base = 0" using ok(1) by (simp_all add: m0_def hptr_set_hsize)
  have h1: "hptr m1 base = base" "hsize m1 base = 0" "hsize m1 ?b = n"
    using ok h0 by (simp_all add: m1_def hptr_set_hsize hdr_other)
  have h2: "hsize (set_hptr m1 ?b base) base = 0" using ok h1 by (simp add: hsize_set_hptr)
  have h3: "hptr m3 base = ?b" "hsize m3 ?b = n" using ok h1 by (simp_all add: m3_def hsize_set_hptr)
  have "free_find m1 ?b base = Some base" using ok(5) h1(1) by (subst free_find.simps) auto
  moreover have "free_link m1 ?b base = m3"
    using af h1 h2 ok(5) by (auto simp: free_link_def Let_def m3_def after_hdr_def)
  ultimately have fr: "free_u (?b + 16) (?h0\<lparr>um := m1\<rparr>) = Some (h\<lparr>um := m3, freep := base\<rparr>)" by (simp add: free_u_def)
  have "sint (ucast (ucast n * 16 :: u64) :: u32) = 0" "\<not> n < 4096" by (simp_all add: n_def word_less_nat_alt)
  then have mc: "morecore grant n ?h0 = Some (base, h\<lparr>um := m3, freep := base\<rparr>)"
    using fr ne assms(5) by (simp add: morecore_def sbrk_def m1_def [symmetric])
  have z: "\<not> n \<le> 0" by (simp add: n_def)
  have lp: "malloc_loop grant n base ?b (h\<lparr>um := m3, freep := base\<rparr>) = Some (?b + 16, h\<lparr>um := set_hptr m3 base (hptr m3 ?b), freep := base\<rparr>)"
    using h3 by (subst malloc_loop.simps) simp
  have "malloc_loop grant n base base ?h0 = Some (?b + 16, h\<lparr>um := set_hptr m3 base (hptr m3 ?b), freep := base\<rparr>)"
    using h0 z mc assms(2) h3(1) lp by (subst malloc_loop.simps) simp
  moreover have "malloc_units 0xfffffff0 = n" by (simp add: malloc_units_def n_def)
  ultimately show ?thesis using assms(1) h0(1) by (simp add: malloc_def m0_def [symmetric])
qed

end
