(* ===== verification/Xv6_Userprogs.thy ===== *)
theory Xv6_Userprogs
  imports Xv6_Ulib
begin

text \<open>
  Small user programs: \<^verbatim>\<open>cat\<close>, \<^verbatim>\<open>wc\<close>, \<^verbatim>\<open>echo\<close>, the formatting of names in \<^verbatim>\<open>ls\<close>, and the random
  numbers of \<^verbatim>\<open>grind\<close>. The results that the successive calls of \<^verbatim>\<open>read\<close> on a descriptor return are a
  list: \<open>Some bs\<close> for the bytes read, \<open>Some []\<close> at the end of the file, \<open>None\<close> for an error; a
  program that reads past the list waits. Output is the list of the calls of \<^verbatim>\<open>write\<close>, each with its
  descriptor. A program that calls \<^verbatim>\<open>exit\<close> ends with its status.
\<close>

section \<open>Concatenating files\<close>

datatype ending = Returned | Exited int

type_synonym reads = "byte list option list"

text \<open>\<open>wr k bs\<close> is what the \<open>k\<close>th call of \<^verbatim>\<open>write\<close> returns for the bytes \<open>bs\<close>.\<close>

primrec cat_loop :: "(nat \<Rightarrow> byte list \<Rightarrow> int) \<Rightarrow> nat \<Rightarrow> reads \<Rightarrow> ((nat \<times> byte list) list \<times> ending \<times> nat) kres" where
  "cat_loop wr k [] = Inl Blocks"
| "cat_loop wr k (r # rs) =
     (case r of
        None \<Rightarrow> Inr ([(2, ascii ''cat: read error'' @ [10])], Exited 1, k)
      | Some bs \<Rightarrow>
          if bs = [] then Inr ([], Returned, k)
          else if wr k bs \<noteq> int (length bs) then Inr ([(1, bs), (2, ascii ''cat: write error'' @ [10])], Exited 1, Suc k)
          else kbind (cat_loop wr (Suc k) rs) (\<lambda>(out, e, k). Inr ((1, bs) # out, e, k)))"

definition cat :: "(nat \<Rightarrow> byte list \<Rightarrow> int) \<Rightarrow> nat \<Rightarrow> reads \<Rightarrow> ((nat \<times> byte list) list \<times> ending \<times> nat) kres" where
  "cat wr k rs = cat_loop wr k rs"

text \<open>\<open>op a\<close> are the results of reading the file \<open>a\<close>, or \<open>None\<close> when it cannot be opened.\<close>

primrec cat_files ::
  "(nat \<Rightarrow> byte list \<Rightarrow> int) \<Rightarrow> (byte list \<Rightarrow> reads option) \<Rightarrow> nat \<Rightarrow> byte list list \<Rightarrow> ((nat \<times> byte list) list \<times> int) kres" where
  "cat_files wr op k [] = Inr ([], 0)"
| "cat_files wr op k (a # as) =
     (case op a of
        None \<Rightarrow> Inr ([(2, ascii ''cat: cannot open '' @ a @ [10])], 1)
      | Some rs \<Rightarrow> kbind (cat wr k rs) (\<lambda>(out, e, k).
          case e of Exited st \<Rightarrow> Inr (out, st)
          | Returned \<Rightarrow> kbind (cat_files wr op k as) (\<lambda>(out', st). Inr (out @ out', st))))"

definition cat_main ::
  "(nat \<Rightarrow> byte list \<Rightarrow> int) \<Rightarrow> reads \<Rightarrow> (byte list \<Rightarrow> reads option) \<Rightarrow> byte list list \<Rightarrow> ((nat \<times> byte list) list \<times> int) kres" where
  "cat_main wr stdin op as =
     (if as = [] then kbind (cat wr 0 stdin) (\<lambda>(out, e, k). Inr (out, case e of Exited st \<Rightarrow> st | Returned \<Rightarrow> 0))
      else cat_files wr op 0 as)"

definition echo_main :: "byte list list \<Rightarrow> (nat \<times> byte list) list" where
  "echo_main as =
     concat (map (\<lambda>i. [(1, as ! i), (1, if i + 1 < length as then [32] else [10])]) [0..<length as])"

section \<open>Counting words\<close>

text \<open>A counter of type \<^verbatim>\<open>int\<close>: to go beyond the largest value is undefined.\<close>

definition incr :: "int \<Rightarrow> int kres" where
  "incr n = (if n = 2 ^ 31 - 1 then Inl Undefined else Inr (n + 1))"

definition wc_blank :: "byte \<Rightarrow> bool" where
  "wc_blank c \<longleftrightarrow> c \<in> set [32, 13, 9, 10, 11]"

record wc_state =
  wl :: int
  ww :: int
  wch :: int
  inword :: bool

definition wc_byte :: "byte \<Rightarrow> wc_state \<Rightarrow> wc_state kres" where
  "wc_byte b s =
     kbind (incr (wch s)) (\<lambda>c. let s = s\<lparr>wch := c\<rparr> in
     kbind (if b = 10 then incr (wl s) else Inr (wl s)) (\<lambda>l. let s = s\<lparr>wl := l\<rparr> in
     if wc_blank b then Inr (s\<lparr>inword := False\<rparr>)
     else if \<not> inword s then kbind (incr (ww s)) (\<lambda>w. Inr (s\<lparr>ww := w, inword := True\<rparr>))
     else Inr s))"

primrec wc_bytes :: "byte list \<Rightarrow> wc_state \<Rightarrow> wc_state kres" where
  "wc_bytes [] s = Inr s"
| "wc_bytes (b # bs) s = kbind (wc_byte b s) (wc_bytes bs)"

text \<open>The counts that the final \<^verbatim>\<open>printf\<close> prints, or \<open>None\<close> after a read error.\<close>

primrec wc_loop :: "reads \<Rightarrow> wc_state \<Rightarrow> wc_state option kres" where
  "wc_loop [] s = Inl Blocks"
| "wc_loop (r # rs) s =
     (case r of
        None \<Rightarrow> Inr None
      | Some bs \<Rightarrow> if bs = [] then Inr (Some s) else kbind (wc_bytes bs s) (wc_loop rs))"

definition wc :: "reads \<Rightarrow> (int \<times> int \<times> int) option kres" where
  "wc rs = kbind (wc_loop rs \<lparr>wl = 0, ww = 0, wch = 0, inword = False\<rparr>)
     (\<lambda>r. Inr (map_option (\<lambda>s. (wl s, ww s, wch s)) r))"

section \<open>Names in listings\<close>

text \<open>
  \<open>slash_scan path j\<close> is the loop of \<^verbatim>\<open>fmtname\<close> with \<^verbatim>\<open>p\<close> at \<^verbatim>\<open>path + j - 1\<close>; the result is the offset of
  \<^verbatim>\<open>p + 1\<close> when it stops, at a slash or before the beginning of the path.
\<close>

primrec slash_scan :: "byte list \<Rightarrow> nat \<Rightarrow> nat" where
  "slash_scan path 0 = 0"
| "slash_scan path (Suc i) = (if (path @ [0]) ! i = 47 then Suc i else slash_scan path i)"

definition fmtname :: "byte list \<Rightarrow> byte list" where
  "fmtname path =
     (let p = drop (slash_scan path (Suc (length path))) path
      in if 14 \<le> length p then p else p @ replicate (14 - length p) 32)"

section \<open>Random numbers\<close>

text \<open>
  \<^verbatim>\<open>do_rand\<close> computes in \<^verbatim>\<open>long\<close>, whose values are integers here, and stores and returns the result as
  \<^verbatim>\<open>unsigned long\<close> and as \<^verbatim>\<open>int\<close>.
\<close>

definition do_rand :: "u64 \<Rightarrow> int \<times> u64" where
  "do_rand ctx =
     (let x = uint (ctx mod 0x7ffffffe + 1);
          hi = x div 127773;
          lo = x mod 127773;
          x = 16807 * lo - 2836 * hi;
          x = (if x < 0 then x + 0x7fffffff else x);
          x = x - 1
      in (sint (of_int x :: u32), of_int x))"

primrec rand :: "nat \<Rightarrow> u64 \<Rightarrow> int list" where
  "rand 0 rand_next = []"
| "rand (Suc n) rand_next = (let (r, rand_next) = do_rand rand_next in r # rand n rand_next)"

section \<open>Lemmas\<close>

lemma cat_ok:
  assumes "\<And>k bs. bs \<noteq> [] \<Longrightarrow> wr k bs = int (length bs)" and "[] \<notin> set chunks"
  shows "cat wr k (map Some chunks @ Some [] # rest) = Inr (map (Pair 1) chunks, Returned, k + length chunks)"
  using assms unfolding cat_def by (induction chunks arbitrary: k) auto

lemma cat_files_ok:
  assumes "\<And>k bs. bs \<noteq> [] \<Longrightarrow> wr k bs = int (length bs)"
    and "\<And>a. a \<in> set as \<Longrightarrow> [] \<notin> set (chunks a) \<and> op a = Some (map Some (chunks a) @ [Some []])"
  shows "cat_files wr op k as = Inr (map (Pair 1) (concat (map chunks as)), 0)"
  using assms(2)
proof (induction as arbitrary: k)
  case (Cons a as)
  then show ?case using cat_ok [where wr = wr and chunks = "chunks a" and k = k and rest = "[]"] assms(1) by simp
qed simp

lemma echo_output: "concat (map snd (echo_main (as @ [a]))) = concat (map (\<lambda>x. x @ [32]) as) @ a @ [10]"
proof -
  have "concat (map snd (concat (map (\<lambda>i. [(1 :: nat, (as @ [a]) ! i), (1, if i + 1 < length (as @ [a]) then [32] else [10])]) [0..<k]))) =
      concat (map (\<lambda>x. x @ [32]) (take k as))" if "k \<le> length as" for k
    using that by (induction k) (simp_all add: nth_append take_Suc_conv_app_nth)
  from this [of "length as"] show ?thesis by (simp add: echo_main_def nth_append)
qed

subsection \<open>Words\<close>

text \<open>A word begins at a byte that is not blank, after a blank or at the beginning of the text.\<close>

definition words :: "byte list \<Rightarrow> nat" where
  "words bs = length (filter (\<lambda>i. \<not> wc_blank (bs ! i) \<and> (i = 0 \<or> wc_blank (bs ! (i - 1)))) [0..<length bs])"

definition counted :: "byte list \<Rightarrow> wc_state" where
  "counted bs = \<lparr>wl = int (count_list bs 10), ww = int (words bs), wch = int (length bs),
     inword = (bs \<noteq> [] \<and> \<not> wc_blank (last bs))\<rparr>"

lemma words_snoc:
  "words (bs @ [b]) = words bs + (if \<not> wc_blank b \<and> (bs = [] \<or> wc_blank (last bs)) then 1 else 0)"
proof -
  have "filter (\<lambda>i. \<not> wc_blank ((bs @ [b]) ! i) \<and> (i = 0 \<or> wc_blank ((bs @ [b]) ! (i - 1)))) [0..<length bs] =
      filter (\<lambda>i. \<not> wc_blank (bs ! i) \<and> (i = 0 \<or> wc_blank (bs ! (i - 1)))) [0..<length bs]"
    by (rule filter_cong) (auto simp: nth_append)
  then show ?thesis by (cases "bs = []") (simp_all add: words_def nth_append last_conv_nth)
qed

lemma words_le: "words bs \<le> length bs"
  unfolding words_def by (rule order_trans [OF length_filter_le]) simp

lemma wc_byte_counted:
  assumes "length bs + 1 < 2 ^ 31"
  shows "wc_byte b (counted bs) = Inr (counted (bs @ [b]))"
proof -
  have "count_list bs 10 \<le> length bs" by (rule count_le_length)
  then have "incr (int (length bs)) = Inr (int (length bs) + 1)" "incr (int (words bs)) = Inr (int (words bs) + 1)"
    "incr (int (count_list bs 10)) = Inr (int (count_list bs 10) + 1)"
    using assms words_le [of bs] by (simp_all add: incr_def)
  then show ?thesis by (auto simp: wc_byte_def counted_def Let_def words_snoc wc_blank_def)
qed

lemma wc_bytes_counted:
  "length bs + length cs < 2 ^ 31 \<Longrightarrow> wc_bytes cs (counted bs) = Inr (counted (bs @ cs))"
proof (induction cs arbitrary: bs)
  case (Cons c cs)
  then show ?case using wc_byte_counted [of bs c] Cons.IH [of "bs @ [c]"] by simp
qed simp

lemma wc_loop_counted:
  assumes "[] \<notin> set chunks"
  shows "length bs + length (concat chunks) < 2 ^ 31 \<Longrightarrow>
    wc_loop (map Some chunks @ Some [] # rest) (counted bs) = Inr (Some (counted (bs @ concat chunks)))"
  using assms
proof (induction chunks arbitrary: bs)
  case (Cons c chunks)
  then show ?case using wc_bytes_counted [of bs c] Cons.IH [of "bs @ c"] by auto
qed simp

subsection \<open>Names\<close>

lemma slash_scan_drop:
  "i \<le> length path \<Longrightarrow> drop (slash_scan path i) (take i path) = rev (takeWhile (\<lambda>c. c \<noteq> 47) (rev (take i path)))"
proof (induction i)
  case (Suc i)
  then have t: "take (Suc i) path = take i path @ [path ! i]" by (simp add: take_Suc_conv_app_nth)
  have "slash_scan path i \<le> i" for i by (induction i) auto
  then show ?case using Suc t by (auto simp: nth_append)
qed simp

lemma fmtname_eq:
  "fmtname path = (let name = rev (takeWhile (\<lambda>c. c \<noteq> 47) (rev path)) in name @ replicate (14 - length name) 32)"
  using slash_scan_drop [of "length path" path] by (auto simp: fmtname_def Let_def nth_append)

section \<open>Properties\<close>

text \<open>
  \<^verbatim>\<open>wc\<close> counts lines, words and bytes: however the input is cut into the pieces that \<^verbatim>\<open>read\<close> returns,
  it prints the number of newlines, the number of maximal runs of bytes that are not blank, and the
  number of bytes, as long as there are fewer than \<open>2 ^ 31\<close> bytes.
\<close>

theorem wc_correct:
  assumes "[] \<notin> set chunks" and "length (concat chunks) < 2 ^ 31"
  shows "wc (map Some chunks @ [Some []]) =
    Inr (Some (int (count_list (concat chunks) 10), int (words (concat chunks)), int (length (concat chunks))))"
proof -
  have "\<lparr>wl = 0, ww = 0, wch = 0, inword = False\<rparr> = counted []" by (simp add: counted_def words_def)
  then show ?thesis using wc_loop_counted [OF assms(1), of "[]" "[]"] assms(2) by (simp add: wc_def counted_def)
qed

theorem wc_correct_witness:
  "wc [Some (ascii ''ab c''), Some (ascii ''d e'' @ [10]), Some []] = Inr (Some (1, 3, 8)) \<and>
   words (ascii ''ab cd e'' @ [10]) = 3"
proof -
  have t: "concat [ascii ''ab c'', ascii ''d e'' @ [10]] = ascii ''ab cd e'' @ [10]" by (simp add: ascii_def)
  have w: "words (ascii ''ab cd e'' @ [10]) = 3" "count_list (ascii ''ab cd e'' @ [10]) 10 = 1" "length (ascii ''ab cd e'' @ [10]) = 8"
    by code_simp+
  show ?thesis using wc_correct [of "[ascii ''ab c'', ascii ''d e'' @ [10]]"] w unfolding t by (simp add: ascii_def)
qed

text \<open>
  The random numbers of \<^verbatim>\<open>grind\<close> stay in their documented range and no intermediate value leaves 32
  bits: from any seed \<^verbatim>\<open>do_rand\<close> returns \<open>(16807 * (seed mod (2 ^ 31 - 2) + 1)) mod (2 ^ 31 - 1) - 1\<close>, which is
  between 0 and \<open>0x7ffffffd\<close>, and stores the same number as the next seed.
\<close>

theorem do_rand_bounds:
  fixes ctx :: u64
  shows "let x = uint ctx mod 0x7ffffffe + 1; lo = x mod 127773; hi = x div 127773; r = 16807 * x mod 0x7fffffff - 1
    in \<bar>16807 * lo - 2836 * hi\<bar> < 2 ^ 31 \<and> 0 \<le> r \<and> r \<le> 0x7ffffffd \<and> do_rand ctx = (r, of_int r)"
proof -
  define x where "x = uint ctx mod 0x7ffffffe + 1"
  have x: "1 \<le> x" "x \<le> 0x7ffffffe" by (simp_all add: x_def)
  have u: "uint (ctx mod 0x7ffffffe + 1) = x"
  proof -
    have "uint (ctx mod 0x7ffffffe) + 1 < 2 ^ 64" using pos_mod_bound [of "0x7ffffffe" "uint ctx"] by (simp add: uint_mod_distrib)
    then show ?thesis using uint_plus_simple_iff [of "ctx mod 0x7ffffffe" 1] by (simp add: x_def uint_mod_distrib uint_word_ariths)
  qed
  define lo hi where "lo = x mod 127773" and "hi = x div 127773"
  have e: "x = 127773 * hi + lo" by (simp add: lo_def hi_def)
  have "x div 127773 \<le> 0x7ffffffe div 127773" using x(2) by (rule zdiv_mono1) simp
  then have b: "0 \<le> lo" "lo \<le> 127772" "0 \<le> hi" "hi \<le> 16807"
    using x(1) pos_mod_bound [of 127773 x] pos_mod_sign [of 127773 x] pos_imp_zdiv_nonneg_iff [of 127773 x]
    unfolding lo_def hi_def by simp_all
  define y where "y = 16807 * lo - 2836 * hi"
  have y: "16807 * x = y + hi * 0x7fffffff" by (simp add: y_def e)
  have yb: "\<bar>y\<bar> < 0x7fffffff" using b by (simp add: y_def abs_less_iff)
  have nz: "y \<noteq> 0"
  proof
    assume "y = 0"
    then have "2836 * hi = 16807 * lo" by (simp add: y_def)
    moreover have "hi = 16807 * (-977 * hi) + 5790 * (2836 * hi)" by simp
    ultimately have "hi = 16807 * (-977 * hi + 5790 * lo)" by simp
    then have "16807 dvd hi" by (rule dvdI)
    then have "hi = 0 \<or> hi = 16807" using b by auto
    then show False using \<open>2836 * hi = 16807 * lo\<close> e x by auto
  qed
  have m: "16807 * x mod 0x7fffffff = (if y < 0 then y + 0x7fffffff else y)"
  proof (cases "y < 0")
    case True
    have "y mod 0x7fffffff = (y + 0x7fffffff) mod 0x7fffffff" by simp
    also have "\<dots> = y + 0x7fffffff" using yb True by (intro mod_pos_pos_trivial) auto
    finally show ?thesis using True y by simp
  next
    case False
    then show ?thesis using yb y by (simp add: mod_pos_pos_trivial)
  qed
  define r where "r = 16807 * x mod 0x7fffffff - 1"
  have rb: "0 \<le> r" "r \<le> 0x7ffffffd" using nz yb m by (auto simp: r_def split: if_splits)
  have "do_rand ctx = (sint (of_int r :: u32), of_int r)"
    unfolding do_rand_def u Let_def lo_def [symmetric] hi_def [symmetric] y_def [symmetric] r_def m by simp
  moreover have "sint (of_int r :: u32) = r" using rb by (simp add: signed_of_int signed_take_bit_int_eq_self)
  ultimately show ?thesis using rb yb
    unfolding Let_def x_def [symmetric] lo_def [symmetric] hi_def [symmetric] y_def [symmetric] r_def [symmetric] by simp
qed

end
