(* ===== verification/Spec2Isabelle.thy ===== *)
theory Spec2Isabelle
  imports Xv6_Syscall Xv6_Path Xv6_Trunc Xv6_Diskspec Xv6_Schedule Xv6_Grep Xv6_Shell Xv6_Malloc Xv6_Userprogs
begin

text \<open>
  This development verifies the teaching kernel in \<^verbatim>\<open>src/kernel\<close>, a version of xv6 for RISC-V, and the user
  programs in \<^verbatim>\<open>src/user\<close> whose code is more than a few system calls. Every definition that models code
  carries the name of the C function or structure it translates; a loop of a function has a definition of its
  own, named after the function.

  \<^bold>\<open>Parts of the program and how they interact.\<close> User programs enter the kernel through system calls
  (\<^verbatim>\<open>trap.c\<close>, \<^verbatim>\<open>syscall.c\<close>), which work on processes (\<^verbatim>\<open>proc.c\<close>, \<^verbatim>\<open>exec.c\<close>), open files (\<^verbatim>\<open>sysfile.c\<close>, \<^verbatim>\<open>file.c\<close>) and what is
  behind a file: pipes (\<^verbatim>\<open>pipe.c\<close>), the console (\<^verbatim>\<open>console.c\<close>, \<^verbatim>\<open>uart.c\<close>) or inodes (\<^verbatim>\<open>fs.c\<close>). The file system writes
  through transactions (\<^verbatim>\<open>log.c\<close>) over the buffer cache (\<^verbatim>\<open>bio.c\<close>), which reads and writes blocks through the disk
  driver (\<^verbatim>\<open>virtio_disk.c\<close>). Memory comes in pages from \<^verbatim>\<open>kalloc.c\<close> and is mapped by \<^verbatim>\<open>vm.c\<close>. Spin locks and sleep
  locks (\<^verbatim>\<open>spinlock.c\<close>, \<^verbatim>\<open>sleeplock.c\<close>) make all of this atomic between sleeps.

  \<^bold>\<open>State and effects.\<close> The global variables of the kernel are records that extend each other in the order of
  the layers: \<open>kmem_state\<close> (\<open>Xv6_Kalloc\<close>), \<open>bio_state\<close> (\<open>Xv6_Bio\<close>), \<open>log_state\<close> (\<open>Xv6_Log\<close>), \<open>fs_state\<close> (\<open>Xv6_Fs\<close>) and \<open>kstate\<close>
  (\<open>Xv6_Proc\<close>). An operation is a function on its own layer's record and works on every extension of it. It
  returns \<open>'a kres\<close>: a value with the new state, or \<open>Panic msg\<close>, \<open>Blocks\<close> (the caller sleeps for ever in this
  state), \<open>Diverges\<close>, \<open>Undefined\<close> (behaviour C leaves undefined). Pointers into an array are indices; physical
  memory is a function from 64-bit addresses to bytes, so that page tables, free lists and user memory share
  it as in the machine. Machine integers are words of their width.

  \<^bold>\<open>Theories.\<close>
  \<^item> \<open>Xv6_Prelude\<close>, \<open>Xv6_Riscv\<close>, \<open>Xv6_String\<close>, \<open>Xv6_Ring\<close>: results, memory and encodings; \<^verbatim>\<open>riscv.h\<close> and \<^verbatim>\<open>memlayout.h\<close>;
    \<^verbatim>\<open>string.c\<close>; ring buffers with free-running counters and the contract \<open>fifo\<close>, interpreted for the pipe and
    for the transmit buffer of the UART.
  \<^item> \<open>Xv6_Locks\<close>: \<^verbatim>\<open>spinlock.c\<close> and \<^verbatim>\<open>sleeplock.c\<close>, and mutual exclusion over all interleavings of any number of CPUs.
  \<^item> \<open>Xv6_Kalloc\<close>: \<^verbatim>\<open>kalloc.c\<close> implements a list of pages; the contract \<open>page_allocator\<close> is interpreted for it.
  \<^item> \<open>Xv6_Vm\<close>, \<open>Xv6_Pagetable\<close>, \<open>Xv6_Usermem\<close>, \<open>Xv6_Uvm\<close>, \<open>Xv6_Aspace\<close>: \<^verbatim>\<open>vm.c\<close>. \<open>Xv6_Pagetable\<close> gives page tables a meaning, the
    map from virtual pages to entries, and proves \<^verbatim>\<open>mappages\<close> and \<^verbatim>\<open>uvmunmap\<close> against it; \<open>Xv6_Usermem\<close> the copies
    between kernel and user memory; \<open>Xv6_Uvm\<close> copying and freeing an address space; \<open>Xv6_Aspace\<close> its whole life,
    after which exactly the pages that were free before are free again.
  \<^item> \<open>Xv6_Bio\<close>, \<open>Xv6_Bcache\<close>: \<^verbatim>\<open>bio.c\<close>. The linked list refines a list of buffers in order of use, and the cache meets the
    contract \<open>buffer_cache\<close>, on which the layers above rest.
  \<^item> \<open>Xv6_Virtio\<close>, \<open>Xv6_Vdisk\<close>, \<open>Xv6_Diskspec\<close>: \<^verbatim>\<open>virtio_disk.c\<close>. The driver, the device and the interrupt handler as an
    interleaved system, its invariant, and the proof that it refines the atomic transfers \<open>Xv6_Bio\<close> is modelled
    over, never panics and loses no wakeup.
  \<^item> \<open>Xv6_Log\<close>, \<open>Xv6_Txn\<close>: \<^verbatim>\<open>log.c\<close>. Crash atomicity of a commit, idempotence of recovery, and transactions with the
    buffers a system call holds.
  \<^item> \<open>Xv6_Fs\<close>, \<open>Xv6_Frames\<close>, \<open>Xv6_Path\<close>, \<open>Xv6_Blocks\<close>, \<open>Xv6_Content\<close>, \<open>Xv6_Fileio\<close>, \<open>Xv6_Trunc\<close>: \<^verbatim>\<open>fs.c\<close>. \<open>Xv6_Fs\<close> is the whole model;
    \<open>Xv6_Frames\<close> what it leaves alone; the others prove path splitting, the block allocator, the block map of a
    file, reads and writes as operations on a list of bytes, and truncation.
  \<^item> \<open>Xv6_Printf\<close>, \<open>Xv6_Console\<close>, \<open>Xv6_Pipe\<close>, \<open>Xv6_File\<close>: \<^verbatim>\<open>printf.c\<close> of the kernel and of the user library, \<^verbatim>\<open>uart.c\<close> and
    \<^verbatim>\<open>console.c\<close> (a line editor), \<^verbatim>\<open>pipe.c\<close> (a queue without lost wakeups), \<^verbatim>\<open>file.c\<close>.
  \<^item> \<open>Xv6_Proc\<close>, \<open>Xv6_Process\<close>, \<open>Xv6_Procinv\<close>, \<open>Xv6_Schedule\<close>: \<^verbatim>\<open>proc.c\<close>. Its operations, the step relation they make, unique
    process identifiers, parents that are woken, and the scheduler.
  \<^item> \<open>Xv6_Sysfile\<close>, \<open>Xv6_Exec\<close>, \<open>Xv6_Syscall\<close>: \<^verbatim>\<open>sysfile.c\<close>, \<^verbatim>\<open>exec.c\<close>, \<^verbatim>\<open>sysproc.c\<close>, \<^verbatim>\<open>syscall.c\<close> and \<^verbatim>\<open>trap.c\<close>, models only.
  \<^item> \<open>Xv6_Ulib\<close>, \<open>Xv6_Grep\<close>, \<open>Xv6_Sh\<close>, \<open>Xv6_Shell\<close>, \<open>Xv6_Userprogs\<close>: \<^verbatim>\<open>ulib.c\<close>; the matcher of \<^verbatim>\<open>grep.c\<close> against the language
    of its patterns; the shell's parser against its grammar and \<^verbatim>\<open>runcmd\<close> against the plumbing it should do;
    \<^verbatim>\<open>cat\<close>, \<^verbatim>\<open>wc\<close>, \<^verbatim>\<open>echo\<close>, \<^verbatim>\<open>fmtname\<close> and the random numbers of \<^verbatim>\<open>grind\<close>.
  \<^item> \<open>Xv6_Umalloc\<close>, \<open>Xv6_Malloc\<close>: \<^verbatim>\<open>umalloc.c\<close>. The circular free list in the memory of a process refines a set of free bytes;
    \<^verbatim>\<open>malloc\<close> and \<^verbatim>\<open>free\<close> return, and in every run of a program that frees only what it was given the live blocks
    are disjoint and keep their contents.

  \<^bold>\<open>Concurrency.\<close> Code between \<^verbatim>\<open>acquire\<close> and \<^verbatim>\<open>release\<close> is one step, which the mutual exclusion of \<open>Xv6_Locks\<close>
  justifies. Where several processes meet, operations are cut at their sleeps and a step relation interleaves
  the pieces: \<open>lstep\<close> for CPUs at a lock, \<open>vstep\<close> for the disk driver and its device, the step relation of
  \<open>Xv6_Procinv\<close> for the process table, and that of \<open>Xv6_Pipe\<close> for the two ends of a pipe. The file system above
  the log is verified one system call at a time; two system calls at once are kept apart by the sleep locks
  of inodes and buffers.

  \<^bold>\<open>Bounds and fuel.\<close> \<^verbatim>\<open>freewalk\<close> recurses with a fuel of three, one for each level of a page table, and is shown to
  need no more. Loops over strings, which end only if there is a NUL, are partial functions, and the
  theorems prove that they return. All other loops are total, by measures given with them. The disk has
  fewer than \<open>2 ^ 31\<close> blocks, because the driver computes sector numbers in 32 bits. The heap of a process ends below
  \<open>2 ^ 36\<close>, so that the size of a block in units of 16 bytes fits in 32 bits, and requests are below 2 GB, the range of the
  argument of \<^verbatim>\<open>sbrk\<close>; the searches of \<^verbatim>\<open>umalloc.c\<close> are partial functions that are shown to return.

  \<^bold>\<open>What is assumed of code that is not here.\<close> The device behind the disk driver follows the virtio
  specification (\<open>follows_virtio\<close>, \<open>virtio_registers\<close>): it may complete requests in any order, but it completes
  them without error. The UART answers reads of its status register as a parameter says. The addresses that
  the linker fixes are parameters (\<open>kenv\<close>). To the user allocator the kernel is a predicate that says which calls of
  \<^verbatim>\<open>sbrk\<close> it grants.

  \<^bold>\<open>Not modelled.\<close> The assembly files and the control-register accessors of \<^verbatim>\<open>riscv.h\<close>, which are below the level
  of the C code: a context switch is a change of the running process. \<^verbatim>\<open>start.c\<close>, \<^verbatim>\<open>main.c\<close> and \<^verbatim>\<open>plic.c\<close>, which store
  into device and control registers and call the initialisation functions one after the other.
  \<^verbatim>\<open>ramdisk.c\<close>, which is not built. \<^verbatim>\<open>mkfs.c\<close>, a program of the build host. User programs that only wrap a system call, and the
  tests (\<^verbatim>\<open>usertests.c\<close>, \<^verbatim>\<open>forktest.c\<close>, \<^verbatim>\<open>stressfs.c\<close>, and \<^verbatim>\<open>grind.c\<close> but for its random numbers), which have no
  contract of their own.
\<close>

end
